(* ===== verification/Prelude.thy ===== *)
theory Prelude
  imports Main "HOL-Library.Word" "HOL-Library.Multiset" "HOL-Library.Monad_Syntax"
begin

text \<open>
  Shared vocabulary of the development: the machine types of the C sources, C arrays with
  checked access (an access outside the allocated block is the value \<open>None\<close>, so that a theorem
  that a routine returns \<open>Some\<close> also says that it never leaves its memory), and the generic
  list and word lemmas the component theories use.
\<close>

unbundle bit_operations_syntax

type_synonym byte = "8 word"
type_synonym uint16 = "16 word"
type_synonym uint32 = "32 word"
type_synonym uint64 = "64 word"
type_synonym size_t = "64 word"

named_theorems arr_simps \<open>rewriting of checked array access\<close>

subsection \<open>C arrays with checked access\<close>

definition aget :: "'a list \<Rightarrow> nat \<Rightarrow> 'a option" where
  "aget xs i = (if i < length xs then Some (xs ! i) else None)"

definition aset :: "'a list \<Rightarrow> nat \<Rightarrow> 'a \<Rightarrow> 'a list option" where
  "aset xs i v = (if i < length xs then Some (xs[i := v]) else None)"

lemma aget_in [arr_simps]: "i < length xs \<Longrightarrow> aget xs i = Some (xs ! i)"
  by (simp add: aget_def)

lemma aset_in [arr_simps]: "i < length xs \<Longrightarrow> aset xs i v = Some (xs[i := v])"
  by (simp add: aset_def)

lemma aget_Some_iff: "aget xs i = Some v \<longleftrightarrow> i < length xs \<and> xs ! i = v"
  by (auto simp: aget_def)

lemma aset_Some_iff: "aset xs i v = Some ys \<longleftrightarrow> i < length xs \<and> ys = xs[i := v]"
  by (auto simp: aset_def)

text \<open>
  Addition of C \<open>unsigned int\<close> values kept as \<open>nat\<close>: the wrap-around is written out.
\<close>

definition uadd32 :: "nat \<Rightarrow> nat \<Rightarrow> nat" where
  "uadd32 a b = (a + b) mod 2 ^ 32"

lemma uadd32_small [arr_simps]: "a + b < 2 ^ 32 \<Longrightarrow> uadd32 a b = a + b"
  by (simp add: uadd32_def)

text \<open>
  \<open>realloc\<close> of a block to \<open>n\<close> elements: the old contents up to the smaller of the two
  sizes, then unspecified contents, here the value \<open>junk\<close> of the caller.
\<close>

definition resize :: "'a \<Rightarrow> nat \<Rightarrow> 'a list \<Rightarrow> 'a list" where
  "resize junk n xs = take n xs @ replicate (n - length xs) junk"

lemma length_resize [simp]: "length (resize junk n xs) = n"
  by (simp add: resize_def)

lemma nth_resize: "i < n \<Longrightarrow> i < length xs \<Longrightarrow> resize junk n xs ! i = xs ! i"
  by (simp add: resize_def nth_append)

lemma take_resize: "m \<le> n \<Longrightarrow> m \<le> length xs \<Longrightarrow> take m (resize junk n xs) = take m xs"
  by (simp add: resize_def)

subsection \<open>Computations that may fail\<close>

definition ebind :: "'e + 'a \<Rightarrow> ('a \<Rightarrow> 'e + 'b) \<Rightarrow> 'e + 'b" where
  "ebind m f = (case m of Inl e \<Rightarrow> Inl e | Inr x \<Rightarrow> f x)"

lemma ebind_simps [simp]: "ebind (Inl e) f = Inl e" "ebind (Inr x) f = f x"
  by (simp_all add: ebind_def)

primrec efold :: "('s \<Rightarrow> 'a \<Rightarrow> 'e + 's) \<Rightarrow> 's \<Rightarrow> 'a list \<Rightarrow> 'e + 's" where
  "efold f s [] = Inr s"
| "efold f s (x # xs) = ebind (f s x) (\<lambda>s. efold f s xs)"

lemma ebind_Inr_iff: "ebind m f = Inr y \<longleftrightarrow> (\<exists>x. m = Inr x \<and> f x = Inr y)"
  by (cases m) auto

lemma ebind_cong [fundef_cong]:
  "m = m' \<Longrightarrow> (\<And>x. m' = Inr x \<Longrightarrow> f x = f' x) \<Longrightarrow> ebind m f = ebind m' f'"
  by (cases m') auto

subsection \<open>Blocks of bytes\<close>

text \<open>\<open>memcpy(b + off, s, len)\<close>; \<open>None\<close> when the range leaves the block.\<close>

definition block_write :: "byte list \<Rightarrow> nat \<Rightarrow> byte list \<Rightarrow> byte list option" where
  "block_write b off s =
     (if off + length s \<le> length b then Some (take off b @ s @ drop (off + length s) b) else None)"

lemma block_write_in [arr_simps]:
  "off + length s \<le> length b \<Longrightarrow> block_write b off s = Some (take off b @ s @ drop (off + length s) b)"
  by (simp add: block_write_def)

subsection \<open>Bounds of bitwise operations on natural numbers\<close>

lemma or_nat_less_exp: "(x :: nat) < 2 ^ n \<Longrightarrow> y < 2 ^ n \<Longrightarrow> x OR y < 2 ^ n"
proof -
  assume "x < 2 ^ n" "y < 2 ^ n"
  then have "int x OR int y < 2 ^ n"
    by (intro OR_upper) auto
  then have "int (x OR y) < int (2 ^ n)"
    by (simp add: of_nat_or_eq)
  then show ?thesis
    by (simp only: of_nat_less_iff)
qed

lemma or_nat_ge: "(x :: nat) \<le> x OR y"
proof -
  have "int x \<le> int x OR int y"
    by (simp add: or_greater_eq)
  then have "int x \<le> int (x OR y)"
    by (simp add: of_nat_or_eq)
  then show ?thesis by simp
qed

subsection \<open>Widening and narrowing of words\<close>

lemma unat_ucast_up:
  "LENGTH('a) \<le> LENGTH('b) \<Longrightarrow> unat (ucast (x :: 'a::len word) :: 'b::len word) = unat x"
proof -
  assume "LENGTH('a) \<le> LENGTH('b)"
  then have "(2::nat) ^ LENGTH('a) \<le> 2 ^ LENGTH('b)"
    by simp
  moreover have "unat x < 2 ^ LENGTH('a)"
    by simp
  ultimately have "unat x < 2 ^ LENGTH('b)"
    by linarith
  then show ?thesis
    by (simp add: unsigned_ucast_eq take_bit_nat_eq_self)
qed

lemmas unat_ucast_32_64 = unat_ucast_up [where 'a = 32 and 'b = 64, simplified]

lemma unat_ucast_64_32: "unat (x :: uint64) < 2 ^ 32 \<Longrightarrow> unat (ucast x :: uint32) = unat x"
  by (simp add: unsigned_ucast_eq take_bit_nat_eq_self)

lemma sint_nonneg_eq:
  "uint (x :: 'a::len word) < 2 ^ (LENGTH('a) - 1) \<Longrightarrow> sint x = uint x"
  by (simp add: sint_uint signed_take_bit_int_eq_self order_trans [of _ 0])

lemma nat_sint_32: "unat (x :: uint32) < 2 ^ 31 \<Longrightarrow> nat (sint x) = unat x"
proof -
  assume "unat x < 2 ^ 31"
  then have "int (unat x) < int (2 ^ 31)"
    by (simp only: of_nat_less_iff)
  then have "uint x < 2 ^ 31"
    by simp
  then show ?thesis
    by (simp add: sint_nonneg_eq)
qed

subsection \<open>Masks\<close>

lemma unat_and_mask: "unat ((b :: 'a::len word) AND mask k) = unat b mod 2 ^ k"
  by (simp add: unsigned_take_bit_eq flip: take_bit_eq_mask take_bit_eq_mod)

lemma unat_and_not_mask: "unat ((b :: 'a::len word) AND NOT (mask k)) = unat b - unat b mod 2 ^ k"
proof -
  have "(b AND mask k) + (b AND NOT (mask k)) = (b AND mask k) OR (b AND NOT (mask k))"
    by (rule disjunctive_add_eq_or) (auto intro: bit_eqI simp: bit_simps)
  also have "\<dots> = b"
    by (auto intro: bit_eqI simp: bit_simps)
  finally have "b AND NOT (mask k) = b - (b AND mask k)" by (simp add: eq_diff_eq add.commute)
  moreover have "b AND mask k \<le> b" by (rule word_and_le2)
  ultimately show ?thesis by (simp add: unat_sub unat_and_mask)
qed

subsection \<open>Buffers that grow by appending\<close>

text \<open>What two writers produce one after the other; \<open>None\<close> for undefined behaviour.\<close>

definition wcat :: "'e list option \<Rightarrow> 'e list option \<Rightarrow> 'e list option" where
  "wcat w1 w2 = Option.bind w1 (\<lambda>xs. map_option ((@) xs) w2)"

primrec wconcat :: "'e list option list \<Rightarrow> 'e list option" where
  "wconcat [] = Some []"
| "wconcat (w # ws) = wcat w (wconcat ws)"

lemma wcat_assoc: "wcat (wcat a b) c = wcat a (wcat b c)"
  by (cases a; cases b; cases c) (simp_all add: wcat_def)

lemma wcat_Some [simp]: "wcat (Some xs) (Some ys) = Some (xs @ ys)"
  by (simp add: wcat_def)

text \<open>
  The contract of the string buffers of the C modules: appending to a well-formed buffer never
  fails (\<open>None\<close> stands for a write outside the allocated block) and extends the contents.
  A writer \<open>writes\<close> a list when it appends exactly that list to any well-formed buffer, and
  \<open>writes\<close> \<open>None\<close> when its behaviour is undefined.
\<close>

locale append_buffer =
  fixes inv :: "'b \<Rightarrow> bool"
    and contents :: "'b \<Rightarrow> 'e list"
    and app :: "'b \<Rightarrow> 'e list \<Rightarrow> 'b option"
  assumes app_ok: "inv b \<Longrightarrow> \<exists>b'. app b xs = Some b' \<and> inv b' \<and> contents b' = contents b @ xs"
begin

definition writes :: "('b \<Rightarrow> 'b option) \<Rightarrow> 'e list option \<Rightarrow> bool" where
  "writes f w \<longleftrightarrow> (\<forall>b. inv b \<longrightarrow>
     (case w of None \<Rightarrow> f b = None
      | Some xs \<Rightarrow> \<exists>b'. f b = Some b' \<and> inv b' \<and> contents b' = contents b @ xs))"

lemma writes_app: "writes (\<lambda>b. app b xs) (Some xs)"
  by (simp add: writes_def app_ok)

lemma writes_skip: "writes Some (Some [])"
  by (simp add: writes_def)

lemma writes_undefined: "writes (\<lambda>b. None) None"
  by (simp add: writes_def)

lemma writes_bind:
  "writes f w1 \<Longrightarrow> writes g w2 \<Longrightarrow> writes (\<lambda>b. Option.bind (f b) g) (wcat w1 w2)"
  unfolding writes_def wcat_def by (cases w1; cases w2) (simp, simp, fastforce, fastforce)

lemma writes_run: "writes f (Some xs) \<Longrightarrow> inv b \<Longrightarrow>
    \<exists>b'. f b = Some b' \<and> inv b' \<and> contents b' = contents b @ xs"
  by (simp add: writes_def)

lemma writes_run_None: "writes f None \<Longrightarrow> inv b \<Longrightarrow> f b = None"
  by (simp add: writes_def)

end

end
