(* ===== verification/Midl.thy ===== *)
theory Midl
  imports Prelude
begin

text \<open>
  The ID lists of GalaDB's storage engine (\<open>src/GalaDB/lmdb/midl.c\<close>, \<open>midl.h\<close>): page-number
  lists of the free list and the dirty list of a transaction. An \<open>MDB_IDL\<close> points behind the
  first word of a heap block: \<open>ids[-1]\<close> is the capacity, \<open>ids[0]\<close> the number of IDs, and
  \<open>ids[1..ids[0]]\<close> the IDs in descending order. An \<open>MDB_ID2L\<close> is an array of ID/pointer
  pairs in ascending order whose element 0 carries the count.
\<close>

section \<open>Data\<close>

type_synonym MDB_ID = uint64

record midl =
  midl_cap :: MDB_ID          \<comment> \<open>\<open>ids[-1]\<close>\<close>
  midl_ids :: "MDB_ID list"   \<comment> \<open>\<open>ids[0]\<close>, \<open>ids[1]\<close>, ... up to the end of the block\<close>

definition MDB_IDL_UM_MAX :: nat where
  "MDB_IDL_UM_MAX = 2 ^ (16 + 1) - 1"

text \<open>Error numbers: \<open>ENOMEM\<close> of \<open>errno.h\<close>.\<close>

definition ENOMEM :: int where
  "ENOMEM = 12"

definition CMP :: "MDB_ID \<Rightarrow> MDB_ID \<Rightarrow> int" where
  "CMP x y = (if x < y then -1 else if x > y then 1 else 0)"

section \<open>Binary search\<close>

text \<open>
  The loop of \<open>mdb_midl_search\<close>: \<open>unsigned\<close> variables are \<open>nat\<close> values below \<open>2 ^ 32\<close>.
\<close>

function midl_search_loop ::
  "MDB_ID list \<Rightarrow> MDB_ID \<Rightarrow> nat \<Rightarrow> nat \<Rightarrow> nat \<Rightarrow> int \<Rightarrow> nat option" where
  "midl_search_loop ids ident base n cursor val =
     (if 0 < n then
        let pivot = n div 2; cursor' = uadd32 (uadd32 base pivot) 1
        in (case aget ids cursor' of None \<Rightarrow> None
            | Some x \<Rightarrow>
               (let val' = CMP x ident
                in if val' < 0 then midl_search_loop ids ident base pivot cursor' val'
                   else if val' > 0 then
                     midl_search_loop ids ident cursor' (n - (pivot + 1)) cursor' val'
                   else Some cursor'))
      else Some (if val > 0 then uadd32 cursor 1 else cursor))"
  by pat_completeness auto
termination
  by (relation "measure (\<lambda>(ids, ident, base, n, cursor, val). n)") auto

declare midl_search_loop.simps [simp del]

definition mdb_midl_search :: "MDB_ID list \<Rightarrow> MDB_ID \<Rightarrow> nat option" where
  "mdb_midl_search ids ident =
     (case aget ids 0 of None \<Rightarrow> None
      | Some c \<Rightarrow> midl_search_loop ids ident 0 (unat (ucast c :: uint32)) 1 0)"

section \<open>Allocation and growth\<close>

text \<open>
  \<open>ok\<close> says whether \<open>malloc\<close> or \<open>realloc\<close> succeeds, \<open>junk\<close> is what fresh memory holds.
\<close>

definition mdb_midl_alloc :: "bool \<Rightarrow> MDB_ID \<Rightarrow> nat \<Rightarrow> midl option" where
  "mdb_midl_alloc ok junk num =
     (if ok then Some \<lparr>midl_cap = of_nat num, midl_ids = 0 # replicate num junk\<rparr> else None)"

definition mdb_midl_shrink :: "bool \<Rightarrow> midl \<Rightarrow> int \<times> midl" where
  "mdb_midl_shrink ok l =
     (if unat (midl_cap l) > MDB_IDL_UM_MAX \<and> ok
      then (1, \<lparr>midl_cap = of_nat MDB_IDL_UM_MAX,
                midl_ids = take MDB_IDL_UM_MAX (midl_ids l)\<rparr>)
      else (0, l))"

text \<open>
  The parameter \<open>num\<close> of \<open>mdb_midl_grow\<close> is an \<open>int\<close>: the argument is cut to 32 bits and
  sign-extended when it is added to the capacity.
\<close>

definition int_arg :: "nat \<Rightarrow> MDB_ID" where
  "int_arg num = scast (of_nat num :: uint32)"

definition mdb_midl_grow :: "bool \<Rightarrow> MDB_ID \<Rightarrow> midl \<Rightarrow> nat \<Rightarrow> int \<times> midl" where
  "mdb_midl_grow ok junk l num =
     (if \<not> ok then (ENOMEM, l)
      else (0, \<lparr>midl_cap = midl_cap l + int_arg num,
                midl_ids = resize junk (unat (midl_cap l + int_arg num + 2) - 1) (midl_ids l)\<rparr>))"

text \<open>Every function below returns \<open>None\<close> when it leaves the block it was given.\<close>

definition mdb_midl_need :: "bool \<Rightarrow> MDB_ID \<Rightarrow> midl \<Rightarrow> uint32 \<Rightarrow> (int \<times> midl) option" where
  "mdb_midl_need ok junk l num =
     (case aget (midl_ids l) 0 of None \<Rightarrow> None
      | Some c \<Rightarrow>
         (let num = ucast (ucast num + c) :: uint32
          in if (ucast num :: MDB_ID) > midl_cap l then
               (let num = (num + num div 4 + (256 + 2)) AND (- 256)
                in if \<not> ok then Some (ENOMEM, l)
                   else Some (0, \<lparr>midl_cap = ucast (num - 2),
                                  midl_ids = resize junk (unat num - 1) (midl_ids l)\<rparr>))
             else Some (0, l)))"

definition mdb_midl_append :: "bool \<Rightarrow> MDB_ID \<Rightarrow> midl \<Rightarrow> MDB_ID \<Rightarrow> (int \<times> midl) option" where
  "mdb_midl_append ok junk l ident =
     (case aget (midl_ids l) 0 of None \<Rightarrow> None
      | Some c \<Rightarrow>
         (case (if c \<ge> midl_cap l then mdb_midl_grow ok junk l MDB_IDL_UM_MAX else (0, l))
          of (rc, l') \<Rightarrow>
            if rc \<noteq> 0 then Some (ENOMEM, l')
            else (case aset (midl_ids l') 0 (c + 1) of None \<Rightarrow> None
                  | Some ids \<Rightarrow>
                     (case aset ids (unat (c + 1)) ident of None \<Rightarrow> None
                      | Some ids' \<Rightarrow> Some (0, l'\<lparr>midl_ids := ids'\<rparr>)))))"

text \<open>\<open>memcpy\<close> of \<open>n\<close> elements of \<open>src\<close> from \<open>so\<close> to position \<open>d\<close> of \<open>dst\<close>.\<close>

definition acopy :: "'a list \<Rightarrow> nat \<Rightarrow> 'a list \<Rightarrow> nat \<Rightarrow> nat \<Rightarrow> 'a list option" where
  "acopy dst d src so n =
     (if d + n \<le> length dst \<and> so + n \<le> length src
      then Some (take d dst @ take n (drop so src) @ drop (d + n) dst) else None)"

definition mdb_midl_append_list ::
  "bool \<Rightarrow> MDB_ID \<Rightarrow> midl \<Rightarrow> MDB_ID list \<Rightarrow> (int \<times> midl) option" where
  "mdb_midl_append_list ok junk l app =
     (case (aget (midl_ids l) 0, aget app 0) of
        (Some c, Some a) \<Rightarrow>
          (case (if c + a \<ge> midl_cap l then mdb_midl_grow ok junk l (unat a) else (0, l))
           of (rc, l') \<Rightarrow>
             if rc \<noteq> 0 then Some (ENOMEM, l')
             else (case acopy (midl_ids l') (unat c + 1) app 1 (unat a) of None \<Rightarrow> None
                   | Some ids \<Rightarrow>
                      (case aset ids 0 (c + a) of None \<Rightarrow> None
                       | Some ids' \<Rightarrow> Some (0, l'\<lparr>midl_ids := ids'\<rparr>))))
      | _ \<Rightarrow> None)"

text \<open>The final loop of \<open>mdb_midl_append_range\<close>: \<open>while (n) ids[n--] = id++;\<close>.\<close>

fun append_range_loop :: "MDB_ID list \<Rightarrow> nat \<Rightarrow> nat \<Rightarrow> MDB_ID \<Rightarrow> MDB_ID list option" where
  "append_range_loop ids len 0 ident = Some ids"
| "append_range_loop ids len (Suc n) ident =
     (case aset ids (len + Suc n) ident of None \<Rightarrow> None
      | Some ids' \<Rightarrow> append_range_loop ids' len n (ident + 1))"

definition mdb_midl_append_range ::
  "bool \<Rightarrow> MDB_ID \<Rightarrow> midl \<Rightarrow> MDB_ID \<Rightarrow> nat \<Rightarrow> (int \<times> midl) option" where
  "mdb_midl_append_range ok junk l ident n =
     (case aget (midl_ids l) 0 of None \<Rightarrow> None
      | Some len \<Rightarrow>
         (case (if len + of_nat n > midl_cap l
                then mdb_midl_grow ok junk l (n OR MDB_IDL_UM_MAX) else (0, l))
          of (rc, l') \<Rightarrow>
            if rc \<noteq> 0 then Some (ENOMEM, l')
            else (case aset (midl_ids l') 0 (len + of_nat n) of None \<Rightarrow> None
                  | Some ids \<Rightarrow>
                     (case append_range_loop ids (unat len) n ident of None \<Rightarrow> None
                      | Some ids' \<Rightarrow> Some (0, l'\<lparr>midl_ids := ids'\<rparr>)))))"

text \<open>The macro \<open>mdb_midl_xappend\<close> of \<open>midl.h\<close>: no check for room.\<close>

definition mdb_midl_xappend :: "MDB_ID list \<Rightarrow> MDB_ID \<Rightarrow> MDB_ID list option" where
  "mdb_midl_xappend xidl ident =
     (case aget xidl 0 of None \<Rightarrow> None
      | Some c \<Rightarrow> (case aset xidl 0 (c + 1) of None \<Rightarrow> None
                  | Some xidl' \<Rightarrow> aset xidl' (unat (c + 1)) ident))"

section \<open>ID/pointer lists\<close>

record 'p MDB_ID2 =
  mid :: MDB_ID
  mptr :: 'p

function mid2l_search_loop ::
  "'p MDB_ID2 list \<Rightarrow> MDB_ID \<Rightarrow> nat \<Rightarrow> nat \<Rightarrow> nat \<Rightarrow> int \<Rightarrow> nat option" where
  "mid2l_search_loop ids ident base n cursor val =
     (if 0 < n then
        let pivot = n div 2; cursor' = uadd32 (uadd32 base pivot) 1
        in (case aget ids cursor' of None \<Rightarrow> None
            | Some x \<Rightarrow>
               (let val' = CMP ident (mid x)
                in if val' < 0 then mid2l_search_loop ids ident base pivot cursor' val'
                   else if val' > 0 then
                     mid2l_search_loop ids ident cursor' (n - (pivot + 1)) cursor' val'
                   else Some cursor'))
      else Some (if val > 0 then uadd32 cursor 1 else cursor))"
  by pat_completeness auto
termination
  by (relation "measure (\<lambda>(ids, ident, base, n, cursor, val). n)") auto

declare mid2l_search_loop.simps [simp del]

definition mdb_mid2l_search :: "'p MDB_ID2 list \<Rightarrow> MDB_ID \<Rightarrow> nat option" where
  "mdb_mid2l_search ids ident =
     (case aget ids 0 of None \<Rightarrow> None
      | Some c \<Rightarrow> mid2l_search_loop ids ident 0 (unat (ucast (mid c) :: uint32)) 1 0)"

text \<open>\<open>for (i = ids[0].mid; i > x; i--) ids[i] = ids[i-1];\<close>\<close>

fun mid2l_shift :: "'p MDB_ID2 list \<Rightarrow> nat \<Rightarrow> nat \<Rightarrow> 'p MDB_ID2 list option" where
  "mid2l_shift ids x 0 = Some ids"
| "mid2l_shift ids x (Suc i) =
     (if Suc i > x then
        (case aget ids i of None \<Rightarrow> None
         | Some e \<Rightarrow> (case aset ids (Suc i) e of None \<Rightarrow> None
                     | Some ids' \<Rightarrow> mid2l_shift ids' x i))
      else Some ids)"

definition mdb_mid2l_insert ::
  "'p MDB_ID2 list \<Rightarrow> 'p MDB_ID2 \<Rightarrow> (int \<times> 'p MDB_ID2 list) option" where
  "mdb_mid2l_insert ids e =
     do {
       x \<leftarrow> mdb_mid2l_search ids (mid e);
       c \<leftarrow> aget ids 0;
       if x < 1 then Some (-2, ids)
       else do {
         dup \<leftarrow> (if x \<le> unat (mid c) then map_option (\<lambda>y. mid y = mid e) (aget ids x)
                else Some False);
         if dup then Some (-1, ids)
         else if unat (mid c) \<ge> MDB_IDL_UM_MAX then Some (-2, ids)
         else do {
           ids1 \<leftarrow> aset ids 0 (c\<lparr>mid := mid c + 1\<rparr>);
           ids2 \<leftarrow> mid2l_shift ids1 x (unat (ucast (mid c + 1) :: uint32));
           ids3 \<leftarrow> aset ids2 x e;
           Some (0, ids3)
         }
       }
     }"

definition mdb_mid2l_append ::
  "'p MDB_ID2 list \<Rightarrow> 'p MDB_ID2 \<Rightarrow> (int \<times> 'p MDB_ID2 list) option" where
  "mdb_mid2l_append ids e =
     (case aget ids 0 of None \<Rightarrow> None
      | Some c \<Rightarrow>
         if unat (mid c) \<ge> MDB_IDL_UM_MAX then Some (-2, ids)
         else (case aset ids 0 (c\<lparr>mid := mid c + 1\<rparr>) of None \<Rightarrow> None
               | Some ids1 \<Rightarrow>
                  (case aset ids1 (unat (mid c + 1)) e of None \<Rightarrow> None
                   | Some ids2 \<Rightarrow> Some (0, ids2))))"

section \<open>Correctness of the two binary searches\<close>

text \<open>
  Both searches run the same loop over a three-way comparison of an array element with the key.
  The locale states that contract once: \<open>cmp\<close> is positive on the elements that stand before
  the key's place, negative on those behind it.
\<close>

locale bsearch =
  fixes loop :: "'e list \<Rightarrow> 'k \<Rightarrow> nat \<Rightarrow> nat \<Rightarrow> nat \<Rightarrow> int \<Rightarrow> nat option"
    and cmp :: "'e \<Rightarrow> 'k \<Rightarrow> int"
  assumes loop_unfold: "loop ids k base n cursor val =
     (if 0 < n then
        let pivot = n div 2; cursor' = uadd32 (uadd32 base pivot) 1
        in (case aget ids cursor' of None \<Rightarrow> None
            | Some x \<Rightarrow>
               (let val' = cmp x k
                in if val' < 0 then loop ids k base pivot cursor' val'
                   else if val' > 0 then loop ids k cursor' (n - (pivot + 1)) cursor' val'
                   else Some cursor'))
      else Some (if val > 0 then uadd32 cursor 1 else cursor))"
begin

lemma loop_position:
  assumes "base + n \<le> N" "N < length ids" "N + 1 < 2 ^ 32"
    and "\<forall>i. 1 \<le> i \<and> i \<le> base \<longrightarrow> cmp (ids ! i) k > 0"
    and "\<forall>i. base + n < i \<and> i \<le> N \<longrightarrow> cmp (ids ! i) k < 0"
    and "\<forall>i j. 1 \<le> i \<and> i < j \<and> j \<le> N \<and> cmp (ids ! j) k \<ge> 0 \<longrightarrow> cmp (ids ! i) k > 0"
    and "n = 0 \<longrightarrow> (if val > 0 then cursor + 1 else cursor) = base + 1"
  shows "\<exists>p. loop ids k base n cursor val = Some p \<and> base < p \<and> p \<le> base + n + 1 \<and>
     (\<forall>i. 1 \<le> i \<and> i < p \<longrightarrow> cmp (ids ! i) k > 0) \<and>
     (\<forall>i. p < i \<and> i \<le> N \<longrightarrow> cmp (ids ! i) k < 0) \<and> (p \<le> N \<longrightarrow> cmp (ids ! p) k \<le> 0)"
  using assms
proof (induction n arbitrary: base cursor val rule: less_induct)
  case (less n)
  show ?case
  proof (cases "n = 0")
    case True
    with less.prems show ?thesis
      by (subst loop_unfold) (auto simp: uadd32_small split: if_splits)
  next
    case False
    define pivot where "pivot = n div 2"
    define c where "c = base + pivot + 1"
    have piv: "pivot < n" "base + pivot + 1 \<le> base + n" and c: "c \<le> N" "1 \<le> c" "c < length ids"
      using False less.prems(1,2) by (auto simp: pivot_def c_def)
    have u: "uadd32 (uadd32 base pivot) 1 = c"
      using c less.prems(3) by (simp add: uadd32_def c_def pivot_def)
    have step: "loop ids k base n cursor val =
       (if cmp (ids ! c) k < 0 then loop ids k base pivot c (cmp (ids ! c) k)
        else if cmp (ids ! c) k > 0 then loop ids k c (n - (pivot + 1)) c (cmp (ids ! c) k)
        else Some c)"
      using False c(3) by (subst loop_unfold) (simp add: Let_def u aget_in pivot_def [symmetric]
        del: One_nat_def)
    consider "cmp (ids ! c) k < 0" | "cmp (ids ! c) k > 0" | "cmp (ids ! c) k = 0" by linarith
    then show ?thesis
    proof cases
      case 1
      have neg: "\<forall>i. base + pivot < i \<and> i \<le> N \<longrightarrow> cmp (ids ! i) k < 0"
      proof (intro allI impI)
        fix i assume i: "base + pivot < i \<and> i \<le> N"
        show "cmp (ids ! i) k < 0"
        proof (cases "i = c")
          case False
          with i c less.prems(6) 1 show ?thesis
            by (metis Suc_eq_plus1 c_def less_le_not_le linorder_neqE_nat not_less not_less_eq)
        qed (use 1 in simp)
      qed
      have le: "base + pivot \<le> N"
        using piv less.prems(1) by auto
      have end1: "pivot = 0 \<longrightarrow> (if cmp (ids ! c) k > 0 then c + 1 else c) = base + 1"
        using 1 by (cases pivot) (auto simp: c_def)
      from less.IH [OF piv(1) le less.prems(2,3,4) neg less.prems(6) end1]
      obtain p where "loop ids k base pivot c (cmp (ids ! c) k) = Some p" "base < p"
        "p \<le> base + pivot + 1" "\<forall>i. 1 \<le> i \<and> i < p \<longrightarrow> cmp (ids ! i) k > 0"
        "\<forall>i. p < i \<and> i \<le> N \<longrightarrow> cmp (ids ! i) k < 0" "p \<le> N \<longrightarrow> cmp (ids ! p) k \<le> 0"
        by blast
      then show ?thesis
        using 1 piv by (auto simp: step)
    next
      case 2
      have pos: "\<forall>i. 1 \<le> i \<and> i \<le> c \<longrightarrow> cmp (ids ! i) k > 0"
        using less.prems(6) c 2 by (metis less_imp_le order_le_less)
      have idx: "c + (n - (pivot + 1)) = base + n"
        using piv by (simp add: c_def)
      have lt: "n - (pivot + 1) < n" using piv by simp
      have le: "c + (n - (pivot + 1)) \<le> N"
        and neg: "\<forall>i. c + (n - (pivot + 1)) < i \<and> i \<le> N \<longrightarrow> cmp (ids ! i) k < 0"
        and end2: "n - (pivot + 1) = 0 \<longrightarrow> (if cmp (ids ! c) k > 0 then c + 1 else c) = c + 1"
        using less.prems(1,5) idx 2 by auto
      from less.IH [OF lt le less.prems(2,3) pos neg less.prems(6) end2]
      obtain p where "loop ids k c (n - (pivot + 1)) c (cmp (ids ! c) k) = Some p" "c < p"
        "p \<le> base + n + 1" "\<forall>i. 1 \<le> i \<and> i < p \<longrightarrow> cmp (ids ! i) k > 0"
        "\<forall>i. p < i \<and> i \<le> N \<longrightarrow> cmp (ids ! i) k < 0" "p \<le> N \<longrightarrow> cmp (ids ! p) k \<le> 0"
        using idx by auto
      then show ?thesis
        using 2 by (auto simp: step c_def)
    next
      case 3
      have before: "\<forall>i. 1 \<le> i \<and> i < c \<longrightarrow> cmp (ids ! i) k > 0"
        using less.prems(6) c 3 by (metis order_refl)
      have behind: "\<forall>i. c < i \<and> i \<le> N \<longrightarrow> cmp (ids ! i) k < 0"
        using less.prems(6) c 3 by (metis less_irrefl not_less)
      show ?thesis
        using 3 piv before behind by (auto simp: step c_def)
    qed
  qed
qed

end

lemma CMP_pos [simp]: "CMP x y > 0 \<longleftrightarrow> x > y"
  by (auto simp: CMP_def)

lemma CMP_neg [simp]: "CMP x y < 0 \<longleftrightarrow> x < y"
  by (auto simp: CMP_def)

lemma CMP_nonneg [simp]: "0 \<le> CMP x y \<longleftrightarrow> x \<ge> y"
  by (auto simp: CMP_def)

lemma CMP_nonpos [simp]: "CMP x y \<le> 0 \<longleftrightarrow> x \<le> y"
  by (auto simp: CMP_def)

interpretation midl_bs: bsearch midl_search_loop CMP
  by unfold_locales (subst midl_search_loop.simps, rule refl)

interpretation mid2l_bs: bsearch mid2l_search_loop "\<lambda>x k. CMP k (mid x)"
  by unfold_locales (subst mid2l_search_loop.simps, rule refl)

text \<open>The IDs of a list, without the count.\<close>

definition midl_elems :: "MDB_ID list \<Rightarrow> MDB_ID list" where
  "midl_elems ids = take (unat (ids ! 0)) (tl ids)"

definition mid2l_elems :: "'p MDB_ID2 list \<Rightarrow> 'p MDB_ID2 list" where
  "mid2l_elems ids = take (unat (mid (ids ! 0))) (tl ids)"

lemma nth_midl_elems:
  "i < unat (ids ! 0) \<Longrightarrow> unat (ids ! 0) < length ids \<Longrightarrow> midl_elems ids ! i = ids ! Suc i"
  by (simp add: midl_elems_def nth_tl)

lemma length_midl_elems: "unat (ids ! 0) < length ids \<Longrightarrow> length (midl_elems ids) = unat (ids ! 0)"
  by (simp add: midl_elems_def)

lemma nth_mid2l_elems:
  "i < unat (mid (ids ! 0)) \<Longrightarrow> unat (mid (ids ! 0)) < length ids \<Longrightarrow>
   mid2l_elems ids ! i = ids ! Suc i"
  by (simp add: mid2l_elems_def nth_tl)

lemma length_mid2l_elems:
  "unat (mid (ids ! 0)) < length ids \<Longrightarrow> length (mid2l_elems ids) = unat (mid (ids ! 0))"
  by (simp add: mid2l_elems_def)

lemma midl_search_split:
  assumes "unat (ids ! 0) < length ids" "unat (ids ! 0) + 1 < 2 ^ 32"
    and "sorted_wrt (>) (midl_elems ids)"
  shows "\<exists>p. mdb_midl_search ids x = Some p \<and> 1 \<le> p \<and> p \<le> unat (ids ! 0) + 1 \<and>
     (\<forall>e \<in> set (take (p - 1) (midl_elems ids)). x < e) \<and>
     (\<forall>e \<in> set (drop (p - 1) (midl_elems ids)). e \<le> x) \<and>
     (x \<in> set (midl_elems ids) \<longleftrightarrow> p \<le> unat (ids ! 0) \<and> ids ! p = x)"
proof -
  let ?N = "unat (ids ! 0)" and ?es = "midl_elems ids"
  have desc: "ids ! j < ids ! i" if "1 \<le> i" "i < j" "j \<le> ?N" for i j
    using sorted_wrt_nth_less [OF assms(3), of "i - 1" "j - 1"] that assms(1)
    by (simp add: nth_midl_elems length_midl_elems)
  have len: "length ?es = ?N"
    using assms(1) by (rule length_midl_elems)
  obtain p where p: "midl_search_loop ids x 0 ?N 1 0 = Some p" "0 < p" "p \<le> ?N + 1"
    "\<forall>i. 1 \<le> i \<and> i < p \<longrightarrow> x < ids ! i" "\<forall>i. p < i \<and> i \<le> ?N \<longrightarrow> ids ! i < x"
    "p \<le> ?N \<longrightarrow> ids ! p \<le> x"
    using midl_bs.loop_position [of 0 ?N ?N ids x 0 1] assms(1,2) desc
    by (force simp del: One_nat_def)
  have nth: "?es ! (i - 1) = ids ! i" if "1 \<le> i" "i \<le> ?N" for i
    using that assms(1) by (simp add: nth_midl_elems)
  have "mdb_midl_search ids x = Some p"
    using p(1) assms(1,2) by (cases ids) (simp_all add: mdb_midl_search_def aget_def unat_ucast_64_32)
  moreover have "x < e" if "e \<in> set (take (p - 1) ?es)" for e
  proof -
    obtain i where "i < p - 1" "e = ?es ! i"
      using \<open>e \<in> _\<close> len p(3) by (auto simp: in_set_conv_nth)
    then show ?thesis using p(2,3,4) nth [of "Suc i"] by simp
  qed
  moreover have "e \<le> x" if "e \<in> set (drop (p - 1) ?es)" for e
  proof -
    obtain i where i: "i < length (drop (p - 1) ?es)" "e = drop (p - 1) ?es ! i"
      using \<open>e \<in> _\<close> by (metis in_set_conv_nth)
    then have "p - 1 + i < ?N" "e = ?es ! (p - 1 + i)"
      using len p(3) by auto
    then show ?thesis using p(2,5,6) nth [of "p + i"]
      by (cases "i = 0") (auto intro: less_imp_le)
  qed
  moreover have "x \<in> set ?es \<longleftrightarrow> p \<le> ?N \<and> ids ! p = x"
  proof
    assume "x \<in> set ?es"
    then obtain i where "i < ?N" "?es ! i = x"
      using len by (auto simp: in_set_conv_nth)
    then have "i < ?N" "ids ! Suc i = x"
      using nth [of "Suc i"] by auto
    then show "p \<le> ?N \<and> ids ! p = x"
      using p(4,5) by (metis Suc_leI le_add1 less_irrefl linorder_neqE_nat plus_1_eq_Suc)
  next
    assume at: "p \<le> ?N \<and> ids ! p = x"
    then have "?es ! (p - 1) \<in> set ?es"
      using p(2) len by (intro nth_mem) auto
    then show "x \<in> set ?es"
      using at nth [of p] p(2) by simp
  qed
  ultimately show ?thesis using p(2,3) by auto
qed

text \<open>
  \<open>mdb_midl_search\<close> on a list of fewer than \<open>2 ^ 32 - 1\<close> strictly descending IDs stays inside
  the block and returns the position that splits the list: every ID before it is greater than
  the key, the ID at it and every ID behind it is at most the key. So the key is present exactly
  if the result is at most the count and the ID at the result is the key.
\<close>

theorem mdb_midl_search_correct:
  assumes "unat (ids ! 0) < length ids" "unat (ids ! 0) + 1 < 2 ^ 32"
    and "sorted_wrt (>) (midl_elems ids)"
  shows "\<exists>p. mdb_midl_search ids x = Some p \<and> 1 \<le> p \<and> p \<le> unat (ids ! 0) + 1 \<and>
     (\<forall>e \<in> set (take (p - 1) (midl_elems ids)). x < e) \<and>
     (\<forall>e \<in> set (drop (p - 1) (midl_elems ids)). e \<le> x) \<and>
     (x \<in> set (midl_elems ids) \<longleftrightarrow> p \<le> unat (ids ! 0) \<and> ids ! p = x)"
  using assms by (rule midl_search_split)

theorem mdb_midl_search_correct_witness:
  "\<exists>p. mdb_midl_search [3, 9, 7, 4, 0] 7 = Some p \<and> ([3, 9, 7, 4, 0] :: MDB_ID list) ! p = 7"
  using mdb_midl_search_correct [of "[3, 9, 7, 4, 0]" 7]
  by (auto simp: midl_elems_def take_Cons')

section \<open>Appending\<close>

text \<open>
  The invariant of an \<open>MDB_IDL\<close>: the block holds the capacity, the count and as many IDs as the
  capacity says, and the count is within the capacity.
\<close>

definition midl_wf :: "midl \<Rightarrow> bool" where
  "midl_wf l \<longleftrightarrow> length (midl_ids l) = unat (midl_cap l) + 1 \<and>
     unat (midl_ids l ! 0) \<le> unat (midl_cap l)"

abbreviation midl_list :: "midl \<Rightarrow> MDB_ID list" where
  "midl_list l \<equiv> midl_elems (midl_ids l)"

lemma midl_wf_nonempty: "midl_wf l \<Longrightarrow> midl_ids l \<noteq> []"
  by (auto simp: midl_wf_def)

lemma unat_add_small: "unat (a :: uint64) + unat b < 2 ^ 64 \<Longrightarrow> unat (a + b) = unat a + unat b"
  by (simp add: unat_word_ariths)

lemma unat_of_nat_64: "n < 2 ^ 64 \<Longrightarrow> unat (of_nat n :: uint64) = n"
  by (simp add: unsigned_of_nat take_bit_nat_eq_self)

lemma midl_elems_count:
  "ids \<noteq> [] \<Longrightarrow> unat (ids ! 0) < length ids \<Longrightarrow> ids = (ids ! 0) # midl_elems ids @ drop (unat (ids ! 0)) (tl ids)"
  by (cases ids) (simp_all add: midl_elems_def)

text \<open>Writing past the counted IDs and setting the count appends the written IDs.\<close>

lemma midl_elems_extend:
  assumes "unat (ids ! 0) + length xs < length ids" "length ids' = length ids"
    and "\<And>i. 1 \<le> i \<Longrightarrow> i \<le> unat (ids ! 0) \<Longrightarrow> ids' ! i = ids ! i"
    and "\<And>i. i < length xs \<Longrightarrow> ids' ! (unat (ids ! 0) + 1 + i) = xs ! i"
    and "unat (ids' ! 0) = unat (ids ! 0) + length xs"
  shows "midl_elems ids' = midl_elems ids @ xs"
proof (rule nth_equalityI)
  show "length (midl_elems ids') = length (midl_elems ids @ xs)"
    using assms by (simp add: length_midl_elems)
  fix i assume "i < length (midl_elems ids')"
  then have i: "i < unat (ids ! 0) + length xs"
    using assms by (simp add: length_midl_elems)
  show "midl_elems ids' ! i = (midl_elems ids @ xs) ! i"
  proof (cases "i < unat (ids ! 0)")
    case True
    then show ?thesis using assms i
      by (simp add: nth_append nth_midl_elems length_midl_elems)
  next
    case False
    then show ?thesis using assms(1,2,5) i assms(4) [of "i - unat (ids ! 0)"]
      by (simp add: nth_append nth_midl_elems length_midl_elems)
  qed
qed

lemma int_arg_small: "num < 2 ^ 31 \<Longrightarrow> int_arg num = of_nat num"
proof -
  assume "num < 2 ^ 31"
  then have "int num < int (2 ^ 31)" by (simp only: of_nat_less_iff)
  then have "sint (of_nat num :: uint32) = int num"
    by (subst sint_nonneg_eq) (simp_all add: unsigned_of_nat take_bit_nat_eq_self)
  then have "(word_of_int (sint (of_nat num :: uint32)) :: MDB_ID) = of_nat num"
    by simp
  then show ?thesis
    by (simp add: int_arg_def)
qed

text \<open>\<open>mdb_midl_grow\<close> adds exactly \<open>num\<close> places and keeps the IDs.\<close>

lemma mdb_midl_grow_ok:
  assumes "midl_wf l" "unat (midl_cap l) < 2 ^ 62" "num < 2 ^ 31"
    and "mdb_midl_grow ok junk l num = (rc, l')" "rc = 0"
  shows "midl_wf l' \<and> unat (midl_cap l') = unat (midl_cap l) + num \<and>
     midl_ids l' ! 0 = midl_ids l ! 0 \<and>
     (\<forall>i \<le> unat (midl_cap l). midl_ids l' ! i = midl_ids l ! i)"
proof -
  have ok: "ok" and l': "l' = \<lparr>midl_cap = midl_cap l + of_nat num,
      midl_ids = resize junk (unat (midl_cap l + of_nat num + 2) - 1) (midl_ids l)\<rparr>"
    using assms(3-5) by (auto simp: mdb_midl_grow_def ENOMEM_def int_arg_small split: if_splits)
  have cap: "unat (midl_cap l + of_nat num) = unat (midl_cap l) + num"
    using assms(2,3) by (simp add: unat_add_small unat_of_nat_64)
  then have "unat (midl_cap l + of_nat num + 2) = unat (midl_cap l) + num + 2"
    using assms(2,3) by (subst unat_add_small) simp_all
  with cap show ?thesis
    using assms(1) by (auto simp: l' midl_wf_def nth_resize)
qed

lemma midl_elems_same_prefix:
  assumes "unat (ids ! 0) < length ids" "unat (ids ! 0) < length ids'" "\<forall>i \<le> unat (ids ! 0). ids' ! i = ids ! i"
  shows "midl_elems ids' = midl_elems ids"
  using assms by (intro nth_equalityI) (simp_all add: length_midl_elems nth_midl_elems)

lemma mdb_midl_grow_elems:
  assumes "midl_wf l" "unat (midl_cap l) < 2 ^ 62" "num < 2 ^ 31"
    and "mdb_midl_grow ok junk l num = (rc, l')" "rc = 0"
  shows "midl_list l' = midl_list l"
  using mdb_midl_grow_ok [OF assms] assms(1)
  by (intro midl_elems_same_prefix) (auto simp: midl_wf_def)

text \<open>
  \<open>mdb_midl_append\<close> on a well-formed list never leaves the block. When the allocation succeeds
  it appends the ID and keeps the list well formed; when the list is full and \<open>realloc\<close> fails it
  reports \<open>ENOMEM\<close> and leaves the list as it was.
\<close>

theorem mdb_midl_append_correct:
  assumes "midl_wf l" "unat (midl_cap l) < 2 ^ 62"
  shows "\<exists>rc l'. mdb_midl_append ok junk l x = Some (rc, l') \<and> midl_wf l' \<and>
     (if ok \<or> midl_ids l ! 0 < midl_cap l
      then rc = 0 \<and> midl_list l' = midl_list l @ [x]
      else rc = ENOMEM \<and> l' = l)"
proof (cases "ok \<or> midl_ids l ! 0 < midl_cap l")
  case False
  with assms(1) show ?thesis
    by (auto simp: mdb_midl_append_def aget_def mdb_midl_grow_def ENOMEM_def midl_wf_def)
next
  case True
  let ?c = "midl_ids l ! 0"
  obtain rc l1 where g: "(if ?c \<ge> midl_cap l then mdb_midl_grow ok junk l MDB_IDL_UM_MAX
      else (0, l)) = (rc, l1)" by fastforce
  have rc: "rc = 0"
    using g True by (auto simp: mdb_midl_grow_def split: if_splits)
  have l1: "midl_wf l1" "midl_ids l1 ! 0 = ?c" "unat ?c + 1 < length (midl_ids l1)"
      "midl_list l1 = midl_list l"
    using g rc mdb_midl_grow_ok [OF assms, of MDB_IDL_UM_MAX ok junk rc l1]
      mdb_midl_grow_elems [OF assms, of MDB_IDL_UM_MAX ok junk rc l1] assms(1)
    by (auto simp: MDB_IDL_UM_MAX_def midl_wf_def word_le_nat_alt split: if_splits)
  have sc: "unat (?c + 1) = unat ?c + 1"
    using assms by (subst unat_add_small) (auto simp: midl_wf_def)
  let ?ids = "(midl_ids l1)[0 := ?c + 1, unat ?c + 1 := x]"
  have res: "mdb_midl_append ok junk l x = Some (0, l1\<lparr>midl_ids := ?ids\<rparr>)"
    using g rc l1(3) midl_wf_nonempty [OF assms(1)] midl_wf_nonempty [OF l1(1)]
    by (simp add: mdb_midl_append_def aget_def aset_def sc)
  have "midl_elems ?ids = midl_list l1 @ [x]"
    using l1(2,3) sc midl_wf_nonempty [OF l1(1)]
    by (intro midl_elems_extend) (auto simp: nth_list_update)
  moreover have "midl_wf (l1\<lparr>midl_ids := ?ids\<rparr>)"
    using l1 sc by (auto simp: midl_wf_def)
  ultimately show ?thesis
    using True res l1(4) by auto
qed

theorem mdb_midl_append_correct_witness:
  "\<exists>l'. mdb_midl_append True 0 \<lparr>midl_cap = 3, midl_ids = [2, 9, 5, 0]\<rparr> 4 = Some (0, l') \<and>
     midl_list l' = [9, 5, 4]"
  using mdb_midl_append_correct [of "\<lparr>midl_cap = 3, midl_ids = [2, 9, 5, 0]\<rparr>" True 0 4]
  by (auto simp: midl_wf_def midl_elems_def take_Cons')

text \<open>
  \<open>mdb_midl_append_list\<close> appends the IDs of the second list to the first one and keeps it well
  formed, or reports \<open>ENOMEM\<close> and leaves it unchanged; it never leaves either block.
\<close>

theorem mdb_midl_append_list_correct:
  assumes "midl_wf l" "unat (midl_cap l) < 2 ^ 61"
    and "unat (app ! 0) < length app" "unat (app ! 0) < 2 ^ 31"
  shows "\<exists>rc l'. mdb_midl_append_list ok junk l app = Some (rc, l') \<and> midl_wf l' \<and>
     (if ok \<or> midl_ids l ! 0 + app ! 0 < midl_cap l
      then rc = 0 \<and> midl_list l' = midl_list l @ midl_elems app
      else rc = ENOMEM \<and> l' = l)"
proof -
  let ?c = "midl_ids l ! 0" and ?a = "app ! 0"
  have ne: "app \<noteq> []" "midl_ids l \<noteq> []"
    using assms(3) midl_wf_nonempty [OF assms(1)] by auto
  have ca: "unat (?c + ?a) = unat ?c + unat ?a"
    using assms by (subst unat_add_small) (auto simp: midl_wf_def)
  show ?thesis
  proof (cases "ok \<or> ?c + ?a < midl_cap l")
    case False
    with assms(1) ne show ?thesis
      by (auto simp: mdb_midl_append_list_def aget_def mdb_midl_grow_def ENOMEM_def)
  next
    case True
    obtain rc l1 where g: "(if ?c + ?a \<ge> midl_cap l then mdb_midl_grow ok junk l (unat ?a)
        else (0, l)) = (rc, l1)" by fastforce
    have rc: "rc = 0"
      using g True by (auto simp: mdb_midl_grow_def split: if_splits)
    have cap: "unat (midl_cap l) < 2 ^ 62" and num: "unat ?a < 2 ^ 31"
      using assms(2,4) by auto
    have l1: "midl_wf l1" "midl_ids l1 ! 0 = ?c" "unat ?c + unat ?a < length (midl_ids l1)"
        "midl_list l1 = midl_list l"
      using g rc ca assms(1) mdb_midl_grow_ok [OF assms(1) cap num, of ok junk rc l1]
        mdb_midl_grow_elems [OF assms(1) cap num, of ok junk rc l1]
      by (auto simp: midl_wf_def word_le_nat_alt split: if_splits)
    let ?ids = "(take (unat ?c + 1) (midl_ids l1) @ take (unat ?a) (drop 1 app) @
        drop (unat ?c + 1 + unat ?a) (midl_ids l1))[0 := ?c + ?a]"
    have ne1: "midl_ids l1 \<noteq> []"
      using midl_wf_nonempty [OF l1(1)] .
    have res: "mdb_midl_append_list ok junk l app = Some (0, l1\<lparr>midl_ids := ?ids\<rparr>)"
      using g rc l1(3) ne assms(3)
      by (simp add: mdb_midl_append_list_def aget_def acopy_def aset_def)
    have len: "length ?ids = length (midl_ids l1)"
      using l1(3) assms(3) by simp
    have "midl_elems ?ids = midl_list l1 @ midl_elems app"
      using l1 ca assms(3) len
      by (intro midl_elems_extend)
         (auto simp: nth_append nth_list_update nth_midl_elems length_midl_elems ne1)
    moreover have "midl_wf (l1\<lparr>midl_ids := ?ids\<rparr>)"
      using l1 ca len by (auto simp: midl_wf_def)
    ultimately show ?thesis
      using True res l1(4) by auto
  qed
qed

theorem mdb_midl_append_list_correct_witness:
  "\<exists>l'. mdb_midl_append_list True 0 \<lparr>midl_cap = 3, midl_ids = [2, 9, 5, 0]\<rparr> [2, 4, 1] = Some (0, l') \<and>
     midl_list l' = [9, 5, 4, 1]"
  using mdb_midl_append_list_correct [of "\<lparr>midl_cap = 3, midl_ids = [2, 9, 5, 0]\<rparr>" "[2, 4, 1]" True 0]
  by (auto simp: midl_wf_def midl_elems_def take_Cons')

lemma append_range_loop_ok:
  assumes "len + n < length ids"
  shows "\<exists>ids'. append_range_loop ids len n x = Some ids' \<and> length ids' = length ids \<and>
     (\<forall>i. i \<le> len \<or> len + n < i \<longrightarrow> ids' ! i = ids ! i) \<and>
     (\<forall>i. 1 \<le> i \<and> i \<le> n \<longrightarrow> ids' ! (len + i) = x + of_nat (n - i))"
  using assms
proof (induction n arbitrary: ids x)
  case 0
  then show ?case by simp
next
  case (Suc n)
  obtain ids' where ids': "append_range_loop (ids[len + Suc n := x]) len n (x + 1) = Some ids'"
    "length ids' = length ids"
    "\<forall>i. i \<le> len \<or> len + n < i \<longrightarrow> ids' ! i = ids[len + Suc n := x] ! i"
    "\<forall>i. 1 \<le> i \<and> i \<le> n \<longrightarrow> ids' ! (len + i) = x + 1 + of_nat (n - i)"
    using Suc.IH [of "ids[len + Suc n := x]" "x + 1"] Suc.prems by auto
  have "ids' ! (len + i) = x + of_nat (Suc n - i)" if "1 \<le> i" "i \<le> Suc n" for i
    using that ids'(3,4) Suc.prems
    by (cases "i = Suc n") (auto simp: Suc_diff_le)
  with ids' Suc.prems show ?case by (auto simp: aset_def)
qed

text \<open>
  \<open>mdb_midl_append_range\<close> appends the \<open>n\<close> consecutive IDs starting at \<open>x\<close>, highest first, so
  that a descending list with all IDs above the range stays descending.
\<close>

theorem mdb_midl_append_range_correct:
  assumes "midl_wf l" "unat (midl_cap l) < 2 ^ 61" "n < 2 ^ 31"
  shows "\<exists>rc l'. mdb_midl_append_range ok junk l x n = Some (rc, l') \<and> midl_wf l' \<and>
     (if ok \<or> midl_ids l ! 0 + of_nat n \<le> midl_cap l
      then rc = 0 \<and> midl_list l' = midl_list l @ rev (map (\<lambda>i. x + of_nat i) [0..<n])
      else rc = ENOMEM \<and> l' = l)"
proof -
  let ?c = "midl_ids l ! 0" and ?num = "n OR MDB_IDL_UM_MAX"
  have ne: "midl_ids l \<noteq> []"
    using midl_wf_nonempty [OF assms(1)] by auto
  have cn: "unat (?c + of_nat n) = unat ?c + n"
    using assms by (subst unat_add_small) (auto simp: midl_wf_def unat_of_nat_64)
  have "n OR 131071 < 2 ^ 31"
    using assms(3) by (intro or_nat_less_exp) auto
  then have num: "?num < 2 ^ 31" and le: "n \<le> ?num"
    by (auto simp: MDB_IDL_UM_MAX_def or_nat_ge)
  show ?thesis
  proof (cases "ok \<or> ?c + of_nat n \<le> midl_cap l")
    case False
    with assms(1) ne show ?thesis
      by (auto simp: mdb_midl_append_range_def aget_def mdb_midl_grow_def ENOMEM_def)
  next
    case True
    obtain rc l1 where g: "(if ?c + of_nat n > midl_cap l then mdb_midl_grow ok junk l ?num
        else (0, l)) = (rc, l1)" by fastforce
    have rc: "rc = 0"
      using g True by (auto simp: mdb_midl_grow_def split: if_splits)
    have cap: "unat (midl_cap l) < 2 ^ 62"
      using assms(2) by auto
    have l1: "midl_wf l1" "midl_ids l1 ! 0 = ?c" "unat ?c + n < length (midl_ids l1)"
        "midl_list l1 = midl_list l"
      using g rc cn le assms(1) mdb_midl_grow_ok [OF assms(1) cap num, of ok junk rc l1]
        mdb_midl_grow_elems [OF assms(1) cap num, of ok junk rc l1]
      by (auto simp: midl_wf_def word_le_nat_alt word_less_nat_alt split: if_splits)
    obtain ids where ids: "append_range_loop ((midl_ids l1)[0 := ?c + of_nat n]) (unat ?c) n x = Some ids"
      "length ids = length (midl_ids l1)"
      "\<forall>i. i \<le> unat ?c \<or> unat ?c + n < i \<longrightarrow> ids ! i = (midl_ids l1)[0 := ?c + of_nat n] ! i"
      "\<forall>i. 1 \<le> i \<and> i \<le> n \<longrightarrow> ids ! (unat ?c + i) = x + of_nat (n - i)"
      using append_range_loop_ok [of "unat ?c" n "(midl_ids l1)[0 := ?c + of_nat n]" x] l1(3) by auto
    have ne1: "midl_ids l1 \<noteq> []"
      using midl_wf_nonempty [OF l1(1)] .
    have res: "mdb_midl_append_range ok junk l x n = Some (0, l1\<lparr>midl_ids := ids\<rparr>)"
      using g rc l1(3) ne ne1 ids(1)
      by (simp add: mdb_midl_append_range_def aget_def aset_def)
    have new: "ids ! (unat ?c + 1 + i) = rev (map (\<lambda>i. x + of_nat i) [0..<n]) ! i" if "i < n" for i
      using ids(4) [rule_format, of "Suc i"] that by (simp add: rev_nth)
    have "midl_elems ids = midl_list l1 @ rev (map (\<lambda>i. x + of_nat i) [0..<n])"
      using l1 cn ids(2,3) new ne1 by (intro midl_elems_extend) auto
    moreover have "midl_wf (l1\<lparr>midl_ids := ids\<rparr>)"
      using l1 cn ids by (auto simp: midl_wf_def)
    ultimately show ?thesis
      using True res l1(4) by auto
  qed
qed

theorem mdb_midl_append_range_correct_witness:
  "\<exists>l'. mdb_midl_append_range True 0 \<lparr>midl_cap = 3, midl_ids = [1, 9, 5, 0]\<rparr> 4 3 = Some (0, l') \<and>
     midl_list l' = [9, 6, 5, 4]"
  using mdb_midl_append_range_correct [of "\<lparr>midl_cap = 3, midl_ids = [1, 9, 5, 0]\<rparr>" 3 True 0 4]
  by (auto simp: midl_wf_def midl_elems_def take_Cons' upt_rec)

text \<open>Rounding down to a multiple of 256, as \<open>mdb_midl_need\<close> does with \<open>& -256\<close>.\<close>

lemma and_minus_256:
  fixes x :: uint32
  shows "unat (x AND (- 256)) \<le> unat x" "unat x \<le> unat (x AND (- 256)) + 255"
proof -
  have "(x AND 255) + (x AND NOT 255) = (x AND 255) OR (x AND NOT 255)"
    by (rule disjunctive_add_eq_or) (auto intro: bit_eqI simp: bit_simps)
  also have "\<dots> = x"
    by (auto intro: bit_eqI simp: bit_simps)
  finally have sum: "(x AND 255) + (x AND (- 256)) = x" by simp
  have le: "x AND (- 256) \<le> x" "x AND 255 \<le> 255"
    by (rule word_and_le2, rule word_and_le1)
  then show "unat (x AND (- 256)) \<le> unat x" by (simp add: word_le_nat_alt)
  have "unat x = unat (x AND 255) + unat (x AND (- 256))"
    using sum le by (metis add_diff_cancel_right' le_add_diff_inverse2 unat_sub word_le_nat_alt)
  moreover have "unat (x AND 255) \<le> 255"
    using le(2) by (simp add: word_le_nat_alt)
  ultimately show "unat x \<le> unat (x AND (- 256)) + 255" by simp
qed

text \<open>
  After a successful \<open>mdb_midl_need\<close> the list has room for \<open>num\<close> more IDs, its IDs are unchanged
  and it is well formed; the \<open>unsigned\<close> arithmetic of the new size does not wrap for lists of up
  to \<open>2 ^ 30\<close> entries. When \<open>realloc\<close> fails on a list without room, the list is unchanged.
\<close>

theorem mdb_midl_need_correct:
  assumes "midl_wf l" "unat num + unat (midl_ids l ! 0) < 2 ^ 30"
  shows "\<exists>rc l'. mdb_midl_need ok junk l num = Some (rc, l') \<and> midl_wf l' \<and>
     midl_list l' = midl_list l \<and>
     (rc = 0 \<longrightarrow> unat (midl_ids l' ! 0) + unat num \<le> unat (midl_cap l')) \<and>
     (rc \<noteq> 0 \<longrightarrow> rc = ENOMEM \<and> l' = l \<and> \<not> ok)"
proof -
  let ?c = "midl_ids l ! 0"
  let ?n = "ucast (ucast num + ?c :: uint64) :: uint32"
  let ?m = "(?n + ?n div 4 + (256 + 2)) AND (- 256)"
  have ne: "midl_ids l \<noteq> []" using assms(1) by (rule midl_wf_nonempty)
  have "unat (ucast num + ?c :: uint64) = unat num + unat ?c"
    using assms(2) by (subst unat_add_small) (simp_all add: unat_ucast_32_64)
  then have n: "unat ?n = unat num + unat ?c"
    using assms(2) by (simp add: unat_ucast_64_32)
  have nd: "unat (?n div 4) = unat ?n div 4" by (simp add: unat_div)
  have "unat (?n + ?n div 4) = unat ?n + unat ?n div 4"
    using assms(2) n nd by (simp add: unat_word_ariths)
  then have "unat (?n + ?n div 4 + 258) = unat ?n + unat ?n div 4 + 258"
    using assms(2) n by (simp add: unat_word_ariths)
  then have m: "unat ?n + 3 \<le> unat ?m" "unat ?m < 2 ^ 32"
    using and_minus_256 [of "?n + ?n div 4 + 258"] assms(2) n by auto
  have m2: "unat (ucast (?m - 2) :: uint64) = unat ?m - 2"
  proof -
    have "unat (?m - 2) = unat ?m - 2"
      using m by (subst unat_sub) (auto simp: word_le_nat_alt)
    then show ?thesis by (simp only: unat_ucast_32_64)
  qed
  have le: "(ucast ?n :: MDB_ID) > midl_cap l \<longleftrightarrow> unat ?n > unat (midl_cap l)"
    by (simp add: word_less_nat_alt unat_ucast_32_64)
  consider (fits) "unat ?n \<le> unat (midl_cap l)" | (nomem) "unat ?n > unat (midl_cap l)" "\<not> ok"
    | (grown) "unat ?n > unat (midl_cap l)" "ok" by linarith
  then show ?thesis
  proof cases
    case fits
    with assms(1) ne n le show ?thesis
      by (auto simp: mdb_midl_need_def aget_def Let_def)
  next
    case nomem
    with assms(1) ne n le show ?thesis
      by (auto simp: mdb_midl_need_def aget_def Let_def ENOMEM_def)
  next
    case grown
    let ?l' = "\<lparr>midl_cap = ucast (?m - 2), midl_ids = resize junk (unat ?m - 1) (midl_ids l)\<rparr>"
    have "mdb_midl_need ok junk l num = Some (0, ?l')"
      using grown ne le by (simp add: mdb_midl_need_def aget_def Let_def)
    moreover have "midl_wf ?l'" "unat (midl_ids ?l' ! 0) + unat num \<le> unat (midl_cap ?l')"
      using m m2 n ne by (auto simp: midl_wf_def nth_resize)
    moreover have "midl_list ?l' = midl_list l"
      using assms(1) m n by (intro midl_elems_same_prefix) (auto simp: midl_wf_def nth_resize)
    ultimately show ?thesis by blast
  qed
qed

theorem mdb_midl_need_correct_witness:
  "\<exists>l'. mdb_midl_need True 0 \<lparr>midl_cap = 2, midl_ids = [2, 9, 5]\<rparr> 7 = Some (0, l') \<and>
     midl_list l' = [9, 5]"
proof -
  have "midl_wf \<lparr>midl_cap = 2, midl_ids = [2, 9, 5]\<rparr>" by (simp add: midl_wf_def)
  from mdb_midl_need_correct [OF this, of 7 True 0] show ?thesis
    by (auto simp: midl_elems_def take_Cons')
qed

text \<open>
  C37. Shrinking a list that has grown beyond \<open>MDB_IDL_UM_MAX\<close> leaves a block one word shorter than
  its recorded capacity (the request is \<open>MDB_IDL_UM_MAX + 1\<close> words where \<open>mdb_midl_alloc\<close> asks
  for \<open>num + 2\<close>): the invariant is lost, and the append that should fill the last place of the
  list writes outside the block.
\<close>

theorem mdb_midl_shrink_loses_a_word:
  assumes "midl_wf l" "MDB_IDL_UM_MAX < unat (midl_cap l)"
    and "unat (midl_ids l ! 0) = MDB_IDL_UM_MAX - 1"
  shows "\<not> midl_wf (snd (mdb_midl_shrink True l)) \<and>
     mdb_midl_append ok junk (snd (mdb_midl_shrink True l)) x = None"
proof -
  let ?ids = "take MDB_IDL_UM_MAX (midl_ids l)" and ?c = "midl_ids l ! 0"
  have um: "unat (of_nat MDB_IDL_UM_MAX :: MDB_ID) = MDB_IDL_UM_MAX"
    by (rule unat_of_nat_64) (simp add: MDB_IDL_UM_MAX_def)
  have l': "snd (mdb_midl_shrink True l) = \<lparr>midl_cap = of_nat MDB_IDL_UM_MAX, midl_ids = ?ids\<rparr>"
    using assms(2) by (simp add: mdb_midl_shrink_def)
  have len: "length ?ids = MDB_IDL_UM_MAX" "0 < MDB_IDL_UM_MAX" "?ids ! 0 = ?c"
    using assms(1,2) by (auto simp: midl_wf_def MDB_IDL_UM_MAX_def)
  have "unat (?c + 1) = unat ?c + 1"
    using assms(3) by (subst unat_add_small) (auto simp: MDB_IDL_UM_MAX_def)
  then have c1: "unat (?c + 1) = MDB_IDL_UM_MAX"
    using assms(3) len(2) by simp
  have lt: "\<not> ?c \<ge> of_nat MDB_IDL_UM_MAX"
    using assms(3) len(2) um by (simp add: word_le_nat_alt)
  have a0: "aget ?ids 0 = Some ?c" "aset ?ids 0 (?c + 1) = Some (?ids[0 := ?c + 1])"
      "aset (?ids[0 := ?c + 1]) MDB_IDL_UM_MAX x = None"
    using len by (simp_all add: aget_def aset_def)
  have "\<not> midl_wf \<lparr>midl_cap = of_nat MDB_IDL_UM_MAX, midl_ids = ?ids\<rparr>"
    using len um by (simp add: midl_wf_def)
  with a0 lt c1 show ?thesis
    unfolding l' mdb_midl_append_def by simp
qed

theorem mdb_midl_shrink_loses_a_word_witness:
  "mdb_midl_append True 0
     (snd (mdb_midl_shrink True \<lparr>midl_cap = 131072, midl_ids = 131070 # replicate 131072 0\<rparr>)) 5 = None"
  using mdb_midl_shrink_loses_a_word
    [of "\<lparr>midl_cap = 131072, midl_ids = 131070 # replicate 131072 0\<rparr>" True 0 5]
  by (simp add: midl_wf_def MDB_IDL_UM_MAX_def)

section \<open>Inserting into an ID/pointer list\<close>

definition mid2l_wf :: "'p MDB_ID2 list \<Rightarrow> bool" where
  "mid2l_wf ids \<longleftrightarrow> length ids = MDB_IDL_UM_MAX + 1 \<and> unat (mid (ids ! 0)) \<le> MDB_IDL_UM_MAX \<and>
     sorted_wrt (<) (map mid (mid2l_elems ids))"

lemma mid2l_wf_less: "mid2l_wf ids \<Longrightarrow> unat (mid (ids ! 0)) < length ids"
  by (simp add: mid2l_wf_def)

lemma mdb_mid2l_search_position:
  assumes "mid2l_wf ids"
  shows "\<exists>p. mdb_mid2l_search ids x = Some p \<and> 1 \<le> p \<and> p \<le> unat (mid (ids ! 0)) + 1 \<and>
     (\<forall>i. 1 \<le> i \<and> i < p \<longrightarrow> mid (ids ! i) < x) \<and>
     (\<forall>i. p < i \<and> i \<le> unat (mid (ids ! 0)) \<longrightarrow> x < mid (ids ! i)) \<and>
     (p \<le> unat (mid (ids ! 0)) \<longrightarrow> x \<le> mid (ids ! p))"
proof -
  let ?N = "unat (mid (ids ! 0))"
  have N: "?N < length ids" "?N + 1 < 2 ^ 32" "ids \<noteq> []"
    using assms by (auto simp: mid2l_wf_def MDB_IDL_UM_MAX_def)
  have asc: "mid (ids ! i) < mid (ids ! j)" if "1 \<le> i" "i < j" "j \<le> ?N" for i j
    using assms sorted_wrt_nth_less [of "(<)" "map mid (mid2l_elems ids)" "i - 1" "j - 1"] that N(1)
    by (simp add: mid2l_wf_def nth_mid2l_elems length_mid2l_elems)
  obtain p where "mid2l_search_loop ids x 0 ?N 1 0 = Some p" "0 < p" "p \<le> ?N + 1"
    "\<forall>i. 1 \<le> i \<and> i < p \<longrightarrow> mid (ids ! i) < x" "\<forall>i. p < i \<and> i \<le> ?N \<longrightarrow> x < mid (ids ! i)"
    "p \<le> ?N \<longrightarrow> x \<le> mid (ids ! p)"
    using mid2l_bs.loop_position [of 0 ?N ?N ids x 0 1] N asc
    by (force simp del: One_nat_def)
  then show ?thesis
    using N by (auto simp: mdb_mid2l_search_def aget_def unat_ucast_64_32)
qed

lemma mid2l_shift_ok:
  assumes "x \<le> i" "i < length ids"
  shows "\<exists>ids'. mid2l_shift ids x i = Some ids' \<and> length ids' = length ids \<and>
     (\<forall>k. k \<le> x \<or> i < k \<longrightarrow> ids' ! k = ids ! k) \<and>
     (\<forall>k. x < k \<and> k \<le> i \<longrightarrow> ids' ! k = ids ! (k - 1))"
  using assms
proof (induction i arbitrary: ids)
  case 0
  then show ?case by simp
next
  case (Suc i)
  show ?case
  proof (cases "x \<le> i")
    case True
    let ?ids = "ids[Suc i := ids ! i]"
    obtain ids' where "mid2l_shift ?ids x i = Some ids'" "length ids' = length ids"
      "\<forall>k. k \<le> x \<or> i < k \<longrightarrow> ids' ! k = ?ids ! k" "\<forall>k. x < k \<and> k \<le> i \<longrightarrow> ids' ! k = ?ids ! (k - 1)"
      using Suc.IH [of ?ids] Suc.prems True by auto
    moreover from this have "ids' ! k = ids ! (k - 1)" if "x < k" "k \<le> Suc i" for k
      using that Suc.prems by (cases "k = Suc i") auto
    ultimately show ?thesis
      using True Suc.prems by (auto simp: aget_def aset_def nth_list_update)
  next
    case False
    then show ?thesis using Suc.prems by auto
  qed
qed

text \<open>Splitting a list at a position and inserting there, as positions of an array.\<close>

lemma insort_key_split:
  fixes f :: "'a \<Rightarrow> 'b::linorder"
  assumes "\<forall>y \<in> set xs. f y < f e" "\<forall>y \<in> set ys. f e < f y"
  shows "insort_key f e (xs @ ys) = xs @ e # ys"
  using assms by (induction xs) (cases ys, auto)

text \<open>
  C30. \<open>mdb_mid2l_insert\<close> on a well-formed list (an array of \<open>MDB_IDL_UM_SIZE\<close> entries, ascending):
  a present ID is refused with \<open>-1\<close>, a full list with \<open>-2\<close>, both without a change; otherwise the
  pair is inserted at its place in the order and the list is well formed again.
\<close>

theorem mdb_mid2l_insert_correct:
  assumes "mid2l_wf ids"
  shows "\<exists>rc ids'. mdb_mid2l_insert ids e = Some (rc, ids') \<and> mid2l_wf ids' \<and>
     (if mid e \<in> mid ` set (mid2l_elems ids) then rc = -1 \<and> ids' = ids
      else if unat (mid (ids ! 0)) = MDB_IDL_UM_MAX then rc = -2 \<and> ids' = ids
      else rc = 0 \<and> mid2l_elems ids' = insort_key mid e (mid2l_elems ids))"
proof -
  let ?N = "unat (mid (ids ! 0))" and ?es = "mid2l_elems ids"
  have N: "?N < length ids" "?N < 2 ^ 32" "0 < length ids"
    using assms by (auto simp: mid2l_wf_def MDB_IDL_UM_MAX_def)
  have es: "length ?es = ?N" "\<And>i. i < ?N \<Longrightarrow> ?es ! i = ids ! Suc i"
    using N(1) by (auto simp: length_mid2l_elems nth_mid2l_elems)
  obtain p where p: "mdb_mid2l_search ids (mid e) = Some p" "1 \<le> p" "p \<le> ?N + 1"
    and before: "\<And>i. 1 \<le> i \<Longrightarrow> i < p \<Longrightarrow> mid (ids ! i) < mid e"
    and behind: "\<And>i. p < i \<Longrightarrow> i \<le> ?N \<Longrightarrow> mid e < mid (ids ! i)"
    and at: "p \<le> ?N \<Longrightarrow> mid e \<le> mid (ids ! p)"
    using mdb_mid2l_search_position [OF assms, of "mid e"] by blast
  have present: "mid e \<in> mid ` set ?es \<longleftrightarrow> p \<le> ?N \<and> mid (ids ! p) = mid e"
    (is "?L \<longleftrightarrow> ?R")
  proof
    assume ?L
    then obtain i where "i < ?N" "mid (ids ! Suc i) = mid e"
      using es by (auto simp: in_set_conv_nth)
    then show ?R
      using before [of "Suc i"] behind [of "Suc i"] by (cases "Suc i" p rule: linorder_cases) auto
  next
    assume ?R
    then show ?L
      using es p(2) by (auto simp: in_set_conv_nth image_iff intro!: bexI [of _ "ids ! p"] exI [of _ "p - 1"])
  qed
  show ?thesis
  proof (cases "mid e \<in> mid ` set ?es")
    case True
    then show ?thesis
      using p present N assms by (auto simp: mdb_mid2l_insert_def aget_def)
  next
    case False
    then have nodup: "(if p \<le> ?N then map_option (\<lambda>y. mid y = mid e) (aget ids p) else Some False) = Some False"
      using present N by (auto simp: aget_def)
    show ?thesis
    proof (cases "?N = MDB_IDL_UM_MAX")
      case True
      then show ?thesis
        using False nodup p N assms by (auto simp: mdb_mid2l_insert_def aget_def)
    next
      case room: False
      let ?ids1 = "ids[0 := (ids ! 0)\<lparr>mid := mid (ids ! 0) + 1\<rparr>]"
      have room': "?N < MDB_IDL_UM_MAX" "Suc ?N < length ids"
        using room assms by (auto simp: mid2l_wf_def)
      have cnt: "unat (mid (ids ! 0) + 1) = ?N + 1"
        using room' by (subst unat_add_small) (auto simp: MDB_IDL_UM_MAX_def)
      then have cnt32: "unat (ucast (mid (ids ! 0) + 1) :: uint32) = ?N + 1"
        using room' by (subst unat_ucast_64_32) (auto simp: MDB_IDL_UM_MAX_def)
      have bnd: "?N + 1 < length ?ids1"
        using room' by simp
      obtain ids2 where ids2: "mid2l_shift ?ids1 p (?N + 1) = Some ids2" "length ids2 = length ?ids1"
        "\<And>k. k \<le> p \<or> ?N + 1 < k \<Longrightarrow> ids2 ! k = ?ids1 ! k"
        "\<And>k. p < k \<Longrightarrow> k \<le> ?N + 1 \<Longrightarrow> ids2 ! k = ?ids1 ! (k - 1)"
        using mid2l_shift_ok [OF p(3) bnd] by blast
      let ?ids3 = "ids2[p := e]"
      have res: "mdb_mid2l_insert ids e = Some (0, ?ids3)"
        using p nodup room' N ids2(1,2) cnt32
        by (simp add: mdb_mid2l_insert_def aget_def aset_def)
      have c3: "unat (mid (?ids3 ! 0)) = ?N + 1"
        using ids2(3) [of 0] p(2) N cnt by auto
      have elems3: "mid2l_elems ?ids3 = take (p - 1) ?es @ e # drop (p - 1) ?es"
      proof (rule nth_equalityI)
        show "length (mid2l_elems ?ids3) = length (take (p - 1) ?es @ e # drop (p - 1) ?es)"
          using c3 es p room' ids2(2) by (simp add: length_mid2l_elems)
        fix i assume "i < length (mid2l_elems ?ids3)"
        then have i: "i < ?N + 1"
          using c3 room' ids2(2) by (simp add: length_mid2l_elems)
        then have "mid2l_elems ?ids3 ! i = ?ids3 ! Suc i"
          using c3 room' ids2(2) by (intro nth_mid2l_elems) auto
        then show "mid2l_elems ?ids3 ! i = (take (p - 1) ?es @ e # drop (p - 1) ?es) ! i"
          using i p(2,3) es ids2(2) room' ids2(3) [of "Suc i"] ids2(4) [of "Suc i"]
          by (cases "Suc i" p rule: linorder_cases) (auto simp: nth_append nth_Cons' min_def)
      qed
      have lo: "\<forall>y \<in> set (take (p - 1) ?es). mid y < mid e"
        using before es p by (auto simp: in_set_conv_nth)
      have "mid e < mid (ids ! k)" if "p \<le> k" "k \<le> ?N" for k
        using behind [of k] at present False that by (cases "k = p") auto
      then have hi: "\<forall>y \<in> set (drop (p - 1) ?es). mid e < mid y"
        using es p by (auto simp: in_set_conv_nth)
      have "sorted_wrt (<) (map mid (take (p - 1) ?es @ drop (p - 1) ?es))"
        using assms by (simp add: mid2l_wf_def)
      then have "mid2l_wf ?ids3"
        using assms lo hi c3 elems3 room' ids2(2)
        by (simp add: mid2l_wf_def sorted_wrt_append del: append_take_drop_id)
      moreover have "mid2l_elems ?ids3 = insort_key mid e ?es"
        using insort_key_split [OF lo hi] elems3 by simp
      ultimately show ?thesis
        using res False room by auto
    qed
  qed
qed


text \<open>A full-size array that holds no pairs yet.\<close>

lemma mid2l_wf_empty: "mid2l_wf (\<lparr>mid = 0, mptr = q\<rparr> # replicate MDB_IDL_UM_MAX r)"
  by (simp add: mid2l_wf_def mid2l_elems_def)

theorem mdb_mid2l_insert_correct_witness:
  "\<exists>ids'. mdb_mid2l_insert (\<lparr>mid = 0, mptr = 0\<rparr> # replicate MDB_IDL_UM_MAX \<lparr>mid = 0, mptr = 0\<rparr>)
     \<lparr>mid = 7, mptr = (16 :: nat)\<rparr> = Some (0, ids') \<and> mid2l_elems ids' = [\<lparr>mid = 7, mptr = 16\<rparr>]"
  using mdb_mid2l_insert_correct [OF mid2l_wf_empty, of 0 "\<lparr>mid = 0, mptr = 0\<rparr>" "\<lparr>mid = 7, mptr = (16 :: nat)\<rparr>"]
  by (auto simp: mid2l_elems_def MDB_IDL_UM_MAX_def)

text \<open>
  \<open>mdb_mid2l_append\<close> puts the pair behind the last one; the caller is responsible for the order.
\<close>

lemma mdb_mid2l_append_ok:
  assumes "length ids = MDB_IDL_UM_MAX + 1" "unat (mid (ids ! 0)) < MDB_IDL_UM_MAX"
  shows "\<exists>ids'. mdb_mid2l_append ids e = Some (0, ids') \<and> length ids' = length ids \<and>
     mid2l_elems ids' = mid2l_elems ids @ [e]"
proof -
  let ?N = "unat (mid (ids ! 0))"
  have cnt: "unat (mid (ids ! 0) + 1) = ?N + 1"
    using assms by (subst unat_add_small) (auto simp: MDB_IDL_UM_MAX_def)
  have ne: "ids \<noteq> []" using assms(1) by auto
  let ?ids' = "ids[0 := (ids ! 0)\<lparr>mid := mid (ids ! 0) + 1\<rparr>, ?N + 1 := e]"
  have "mdb_mid2l_append ids e = Some (0, ?ids')"
    using assms cnt ne by (simp add: mdb_mid2l_append_def aget_def aset_def)
  moreover have "mid2l_elems ?ids' = mid2l_elems ids @ [e]"
  proof -
    have c': "unat (mid (?ids' ! 0)) = ?N + 1" "?N + 1 < length ?ids'"
      using assms cnt ne by auto
    show ?thesis
      using assms c' by (intro nth_equalityI)
        (auto simp: length_mid2l_elems nth_mid2l_elems nth_append less_Suc_eq)
  qed
  ultimately show ?thesis by auto
qed

end
