(* ===== verification/Midl_Sort.thy ===== *)
theory Midl_Sort
  imports Midl
begin

text \<open>
  The sorting routine \<open>mdb_midl_sort\<close> of \<open>src/GalaDB/lmdb/midl.c\<close> and its correctness: it sorts
  in place into descending order, stays inside the ID array and inside its 64-entry stack.
\<close>

section \<open>Sorting\<close>

text \<open>
  \<open>mdb_midl_sort\<close>: quicksort with an explicit stack, insertion sort below \<open>SMALL\<close>. The inner
  loop of the insertion sort runs down to index 1, not to the start of the segment. The variables of type \<open>int\<close> are natural
  numbers, since they are never negative where they are used; a sum that leaves the range of \<open>int\<close>, which C leaves undefined, is \<open>None\<close>.
\<close>

definition SMALL :: nat where
  "SMALL = 8"

fun isort_shift :: "MDB_ID list \<Rightarrow> MDB_ID \<Rightarrow> nat \<Rightarrow> (MDB_ID list \<times> nat) option" where
  "isort_shift ids a 0 = Some (ids, 0)"
| "isort_shift ids a (Suc i) =
     (case aget ids (Suc i) of None \<Rightarrow> None
      | Some x \<Rightarrow>
         if x \<ge> a then Some (ids, Suc i)
         else (case aset ids (Suc i + 1) x of None \<Rightarrow> None
               | Some ids' \<Rightarrow> isort_shift ids' a i))"

function isort_loop :: "MDB_ID list \<Rightarrow> nat \<Rightarrow> nat \<Rightarrow> MDB_ID list option" where
  "isort_loop ids j ir =
     (if j \<le> ir then
        (case aget ids j of None \<Rightarrow> None
         | Some a \<Rightarrow>
            (case isort_shift ids a (j - 1) of None \<Rightarrow> None
             | Some (ids', i) \<Rightarrow>
                (case aset ids' (i + 1) a of None \<Rightarrow> None
                 | Some ids'' \<Rightarrow> if j + 1 < 2 ^ 31 then isort_loop ids'' (j + 1) ir else None)))
      else Some ids)"
  by pat_completeness auto
termination
  by (relation "measure (\<lambda>(ids, j, ir). Suc ir - j)") auto

declare isort_loop.simps [simp del]

definition MIDL_SWAP :: "MDB_ID list \<Rightarrow> nat \<Rightarrow> nat \<Rightarrow> MDB_ID list option" where
  "MIDL_SWAP ids a b =
     (case (aget ids a, aget ids b) of
        (Some x, Some y) \<Rightarrow> Some (ids[a := y, b := x]) | _ \<Rightarrow> None)"

text \<open>\<open>if (ids[a] < ids[b]) MIDL_SWAP(ids[a], ids[b])\<close>\<close>

definition swap_if_less :: "MDB_ID list \<Rightarrow> nat \<Rightarrow> nat \<Rightarrow> MDB_ID list option" where
  "swap_if_less ids a b =
     (case (aget ids a, aget ids b) of
        (Some x, Some y) \<Rightarrow> if x < y then MIDL_SWAP ids a b else Some ids | _ \<Rightarrow> None)"

text \<open>\<open>do i++; while (ids[i] > a);\<close> and \<open>do j--; while (ids[j] < a);\<close>\<close>

function scan_up :: "MDB_ID list \<Rightarrow> MDB_ID \<Rightarrow> nat \<Rightarrow> nat option" where
  "scan_up ids a i = (if 2 ^ 31 \<le> i + 1 then None else
     (case aget ids (i + 1) of None \<Rightarrow> None
      | Some x \<Rightarrow> if x > a then scan_up ids a (i + 1) else Some (i + 1)))"
  by pat_completeness auto
termination
  by (relation "measure (\<lambda>(ids, a, i). length ids - i)") (auto simp: aget_Some_iff)

declare scan_up.simps [simp del]

fun scan_down :: "MDB_ID list \<Rightarrow> MDB_ID \<Rightarrow> nat \<Rightarrow> nat option" where
  "scan_down ids a 0 = None"
| "scan_down ids a (Suc j) =
     (case aget ids j of None \<Rightarrow> None
      | Some x \<Rightarrow> if x < a then scan_down ids a j else Some j)"

lemma scan_up_gt: "scan_up ids a i = Some i' \<Longrightarrow> i < i'"
  by (induction ids a i rule: scan_up.induct)
     (subst (asm) scan_up.simps, auto split: option.splits if_splits)

lemma scan_down_lt: "scan_down ids a j = Some j' \<Longrightarrow> j' < j"
  by (induction ids a j rule: scan_down.induct) (auto split: option.splits if_splits)

function partition_loop ::
  "MDB_ID list \<Rightarrow> MDB_ID \<Rightarrow> nat \<Rightarrow> nat \<Rightarrow> (MDB_ID list \<times> nat \<times> nat) option" where
  "partition_loop ids a i j =
     (case scan_up ids a i of None \<Rightarrow> None
      | Some i' \<Rightarrow>
         (case scan_down ids a j of None \<Rightarrow> None
          | Some j' \<Rightarrow>
             if j' < i' then Some (ids, i', j')
             else (case MIDL_SWAP ids i' j' of None \<Rightarrow> None
                   | Some ids' \<Rightarrow> partition_loop ids' a i' j')))"
  by pat_completeness auto
termination
  by (relation "measure (\<lambda>(ids, a, i, j). j - i)")
     (auto dest!: scan_up_gt scan_down_lt)

declare partition_loop.simps [simp del]

text \<open>
  One partitioning step of the segment \<open>l..ir\<close>: the median of three goes to \<open>l + 1\<close>, the
  segment is split around it; the result is the array with the final \<open>i\<close> and \<open>j\<close>.
\<close>

definition midl_partition ::
  "MDB_ID list \<Rightarrow> nat \<Rightarrow> nat \<Rightarrow> (MDB_ID list \<times> nat \<times> nat) option" where
  "midl_partition ids l ir =
     do {
       k \<leftarrow> (if l + ir < 2 ^ 31 then Some ((l + ir) div 2) else None);
       ids1 \<leftarrow> MIDL_SWAP ids k (l + 1);
       ids2 \<leftarrow> swap_if_less ids1 l ir;
       ids3 \<leftarrow> swap_if_less ids2 (l + 1) ir;
       ids4 \<leftarrow> swap_if_less ids3 l (l + 1);
       a \<leftarrow> aget ids4 (l + 1);
       (ids5, i, j) \<leftarrow> partition_loop ids4 a (l + 1) ir;
       x \<leftarrow> aget ids5 j;
       ids6 \<leftarrow> aset ids5 (l + 1) x;
       ids7 \<leftarrow> aset ids6 j a;
       Some (ids7, i, j)
     }"

text \<open>
  The main loop, with \<open>jstack\<close> at most 64. \<open>istack\<close> is the C array of \<open>sizeof(int) * CHAR_BIT * 2 = 64\<close> integers;
  writing past it is \<open>None\<close>.
\<close>

partial_function (option) midl_sort_loop ::
  "MDB_ID list \<Rightarrow> nat \<Rightarrow> nat \<Rightarrow> nat list \<Rightarrow> nat \<Rightarrow> MDB_ID list option" where
  "midl_sort_loop ids l ir istack jstack =
     (if ir < l + SMALL then
        Option.bind (isort_loop ids (l + 1) ir) (\<lambda>ids'.
          if jstack = 0 then Some ids'
          else Option.bind (aget istack jstack) (\<lambda>ir'.
               Option.bind (aget istack (jstack - 1)) (\<lambda>l'.
                 midl_sort_loop ids' l' ir' istack (jstack - 2))))
      else
        Option.bind (midl_partition ids l ir) (\<lambda>(ids', i, j).
          let jstack' = jstack + 2
          in if int ir - int i + 1 \<ge> int j - int l then
               Option.bind (aset istack jstack' ir) (\<lambda>st.
               Option.bind (aset st (jstack' - 1) i) (\<lambda>st'.
                 midl_sort_loop ids' l (j - 1) st' jstack'))
             else
               Option.bind (aset istack jstack' (j - 1)) (\<lambda>st.
               Option.bind (aset st (jstack' - 1) l) (\<lambda>st'.
                 midl_sort_loop ids' i ir st' jstack'))))"

definition mdb_midl_sort :: "MDB_ID list \<Rightarrow> MDB_ID list option" where
  "mdb_midl_sort ids =
     (case aget ids 0 of None \<Rightarrow> None
      | Some c \<Rightarrow> let ir = sint (ucast c :: uint32)
         in if ir - 1 < - (2 ^ 31) then None else midl_sort_loop ids 1 (nat ir) (replicate 64 0) 0)"

section \<open>Rearranging a segment of an array\<close>

definition rearranged :: "nat \<Rightarrow> nat \<Rightarrow> 'a list \<Rightarrow> 'a list \<Rightarrow> bool" where
  "rearranged l r xs ys \<longleftrightarrow> length ys = length xs \<and> mset ys = mset xs \<and>
     (\<forall>p. p < l \<or> r < p \<longrightarrow> p < length xs \<longrightarrow> ys ! p = xs ! p)"

definition desc_on :: "'a::linorder list \<Rightarrow> nat \<Rightarrow> nat \<Rightarrow> bool" where
  "desc_on xs l r \<longleftrightarrow> (\<forall>p q. l \<le> p \<and> p < q \<and> q \<le> r \<longrightarrow> xs ! q \<le> xs ! p)"

lemma rearranged_refl [simp]: "rearranged l r xs xs"
  by (simp add: rearranged_def)

lemma rearranged_trans: "rearranged l r xs ys \<Longrightarrow> rearranged l r ys zs \<Longrightarrow> rearranged l r xs zs"
  by (simp add: rearranged_def)

lemma rearranged_mono:
  "rearranged l r xs ys \<Longrightarrow> l' \<le> l \<Longrightarrow> r \<le> r' \<Longrightarrow> rearranged l' r' xs ys"
  by (simp add: rearranged_def)

lemma rearranged_swap:
  assumes "l \<le> a" "a \<le> r" "l \<le> b" "b \<le> r" "r < length xs"
  shows "rearranged l r xs (xs[a := xs ! b, b := xs ! a])"
  using assms by (auto simp: rearranged_def mset_swap nth_list_update)

text \<open>A rearranged segment holds the same values.\<close>

lemma rearranged_values:
  assumes "rearranged l r xs ys" "l \<le> p" "p \<le> r" "r < length xs"
  shows "\<exists>q. l \<le> q \<and> q \<le> r \<and> ys ! p = xs ! q"
proof -
  let ?seg = "\<lambda>zs. take (Suc r - l) (drop l zs)"
  have split: "zs = take l zs @ ?seg zs @ drop (Suc r) zs" if "length zs = length xs" for zs :: "'a list"
    using that assms(2-4) by (metis append_take_drop_id drop_drop le_SucI le_add_diff_inverse2 le_trans)
  have len: "length ys = length xs"
    using assms(1) by (simp add: rearranged_def)
  have pre: "take l ys = take l xs"
    using assms(1) by (intro nth_equalityI) (auto simp: rearranged_def)
  have post: "drop (Suc r) ys = drop (Suc r) xs"
    using assms(1) by (intro nth_equalityI) (auto simp: rearranged_def)
  have "mset (take l ys @ ?seg ys @ drop (Suc r) ys) = mset (take l xs @ ?seg xs @ drop (Suc r) xs)"
    using split [OF len] split [OF refl] assms(1) by (metis rearranged_def)
  then have "mset (?seg ys) = mset (?seg xs)"
    by (simp add: pre post)
  then have set_eq: "set (?seg ys) = set (?seg xs)"
    by (rule mset_eq_setD)
  have "ys ! p \<in> set (?seg ys)"
    using assms(2-4) len by (auto simp: in_set_conv_nth intro!: exI [of _ "p - l"])
  then obtain k where "k < Suc r - l" "ys ! p = xs ! (l + k)"
    using set_eq assms(4) by (auto simp: in_set_conv_nth)
  then show ?thesis by (intro exI [of _ "l + k"]) auto
qed

lemma rearranged_above:
  assumes "rearranged l r xs ys" "r < length xs" "\<forall>q. l \<le> q \<and> q \<le> r \<longrightarrow> xs ! q \<le> (v :: 'a::linorder)"
  shows "\<forall>q. l \<le> q \<and> q \<le> r \<longrightarrow> ys ! q \<le> v"
  using assms rearranged_values [OF assms(1) _ _ assms(2)] by metis

lemma rearranged_below:
  assumes "rearranged l r xs ys" "r < length xs" "\<forall>q. l \<le> q \<and> q \<le> r \<longrightarrow> (v :: 'a::linorder) \<le> xs ! q"
  shows "\<forall>q. l \<le> q \<and> q \<le> r \<longrightarrow> v \<le> ys ! q"
  using assms rearranged_values [OF assms(1) _ _ assms(2)] by metis

section \<open>Insertion sort of a small segment\<close>

lemma isort_shift_ok:
  assumes "i + 1 < length ids"
  shows "\<exists>ids' k. isort_shift ids a i = Some (ids', k) \<and> k \<le> i \<and> length ids' = length ids \<and>
     ids'[k + 1 := a] = take (k + 1) ids @ a # take (i - k) (drop (k + 1) ids) @ drop (i + 2) ids \<and>
     (\<forall>p. k < p \<and> p \<le> i \<longrightarrow> ids ! p < a) \<and> (0 < k \<longrightarrow> a \<le> ids ! k)"
  using assms
proof (induction i arbitrary: ids)
  case 0
  then show ?case
    by (cases ids) (auto simp: upd_conv_take_nth_drop)
next
  case (Suc i)
  show ?case
  proof (cases "a \<le> ids ! Suc i")
    case True
    with Suc.prems show ?thesis
      by (auto simp: aget_def upd_conv_take_nth_drop)
  next
    case False
    let ?ids = "ids[i + 2 := ids ! Suc i]"
    obtain ids' k where IH: "isort_shift ?ids a i = Some (ids', k)" "k \<le> i"
      "length ids' = length ids"
      "ids'[k + 1 := a] = take (k + 1) ?ids @ a # take (i - k) (drop (k + 1) ?ids) @ drop (i + 2) ?ids"
      "\<forall>p. k < p \<and> p \<le> i \<longrightarrow> ?ids ! p < a" "0 < k \<longrightarrow> a \<le> ?ids ! k"
      using Suc.IH [of ?ids] Suc.prems by auto
    have d: "drop (i + 2) ?ids = ids ! Suc i # drop (i + 3) ids"
      using Suc.prems by (subst Cons_nth_drop_Suc [symmetric]) (auto simp: numeral_3_eq_3)
    have "take (Suc i - k) (drop (k + 1) ids) = take (i - k) (drop (k + 1) ids) @ [ids ! Suc i]"
      using IH(2) Suc.prems by (simp add: Suc_diff_le take_Suc_conv_app_nth)
    then have "ids'[k + 1 := a] =
        take (k + 1) ids @ a # take (Suc i - k) (drop (k + 1) ids) @ drop (Suc i + 2) ids"
      using IH(2,4) d by (simp add: drop_update_swap numeral_3_eq_3)
    moreover have "\<forall>p. k < p \<and> p \<le> Suc i \<longrightarrow> ids ! p < a"
      using IH(5) False by (auto simp: le_Suc_eq)
    ultimately show ?thesis
      using IH False Suc.prems by (auto simp: aget_def aset_def)
  qed
qed

text \<open>One round of the outer loop moves \<open>ids[j]\<close> to position \<open>k + 1\<close>.\<close>

lemma isort_insert_rearranged:
  assumes "k < j" "j < length ids" "l \<le> k + 1" "j \<le> r" "r < length ids"
    and "ids' = take (k + 1) ids @ ids ! j # take (j - 1 - k) (drop (k + 1) ids) @ drop (j + 1) ids"
  shows "rearranged l r ids ids'"
    and "p \<le> k \<Longrightarrow> ids' ! p = ids ! p" and "ids' ! (k + 1) = ids ! j"
    and "k + 1 < p \<Longrightarrow> p \<le> j \<Longrightarrow> ids' ! p = ids ! (p - 1)"
proof -
  have ids: "ids = take (k + 1) ids @ take (j - 1 - k) (drop (k + 1) ids) @ ids ! j # drop (j + 1) ids"
  proof -
    have "drop (k + 1) ids = take (j - 1 - k) (drop (k + 1) ids) @ drop (j - 1 - k) (drop (k + 1) ids)"
      by (rule append_take_drop_id [symmetric])
    also have "drop (j - 1 - k) (drop (k + 1) ids) = ids ! j # drop (j + 1) ids"
      using assms(1,2) by (simp add: Cons_nth_drop_Suc)
    finally show ?thesis by (metis append_take_drop_id)
  qed
  have len: "length ids' = length ids"
    using assms(1,2) by (simp add: assms(6))
  have ms: "mset ids' = mset ids"
    using arg_cong [OF ids, of mset] by (simp add: assms(6))
  have nth: "ids' ! q = (if q \<le> k then ids ! q else if q = k + 1 then ids ! j
      else if q \<le> j then ids ! (q - 1) else ids ! q)" if "q < length ids" for q
    using that assms(1,2) by (auto simp: assms(6) nth_append nth_Cons' min_def intro!: arg_cong [of _ _ "nth ids"])
  show "rearranged l r ids ids'"
    using len ms nth assms by (auto simp: rearranged_def)
  show "p \<le> k \<Longrightarrow> ids' ! p = ids ! p" "ids' ! (k + 1) = ids ! j"
    "k + 1 < p \<Longrightarrow> p \<le> j \<Longrightarrow> ids' ! p = ids ! (p - 1)"
    using nth assms(1,2) by auto
qed

lemma isort_loop_ok:
  assumes "1 \<le> l" "l < j" "j \<le> ir + 1" "ir < length ids" "desc_on ids l (j - 1)"
    and "\<forall>p q. 1 \<le> p \<and> p < l \<and> l \<le> q \<and> q \<le> ir \<longrightarrow> ids ! q \<le> ids ! p" "ir < 2 ^ 30"
  shows "\<exists>ids'. isort_loop ids j ir = Some ids' \<and> rearranged l ir ids ids' \<and> desc_on ids' l ir"
  using assms
proof (induction "ir + 1 - j" arbitrary: ids j)
  case 0
  then show ?case by (subst isort_loop.simps) simp
next
  case (Suc n)
  then have j: "j \<le> ir" "j - 1 + 1 = j" by auto
  obtain ids1 k where sh: "isort_shift ids (ids ! j) (j - 1) = Some (ids1, k)" "k \<le> j - 1"
    "length ids1 = length ids"
    "ids1[k + 1 := ids ! j] =
       take (k + 1) ids @ ids ! j # take (j - 1 - k) (drop (k + 1) ids) @ drop (j + 1) ids"
    "\<forall>p. k < p \<and> p \<le> j - 1 \<longrightarrow> ids ! p < ids ! j" "0 < k \<longrightarrow> ids ! j \<le> ids ! k"
    using isort_shift_ok [of "j - 1" ids "ids ! j"] j Suc.prems by auto
  let ?ids2 = "ids1[k + 1 := ids ! j]"
  have k: "l \<le> k + 1"
  proof (rule ccontr)
    assume "\<not> l \<le> k + 1"
    then have "k < l - 1 \<and> l - 1 \<le> j - 1" "1 \<le> l - 1 \<and> l - 1 < l \<and> l \<le> j \<and> j \<le> ir"
      using Suc.prems(1,2) j by auto
    then have "ids ! (l - 1) < ids ! j" "ids ! j \<le> ids ! (l - 1)"
      using sh(5) Suc.prems(6) by blast+
    then show False by simp
  qed
  have kj: "k < j" "j < length ids"
    using sh(2) Suc.prems j by auto
  note ins = isort_insert_rearranged [OF kj k j(1) Suc.prems(4) sh(4)]
  have "desc_on ?ids2 l j"
    unfolding desc_on_def
  proof (intro allI impI)
    fix p q assume pq: "l \<le> p \<and> p < q \<and> q \<le> j"
    have D: "ids ! q' \<le> ids ! p'" if "l \<le> p'" "p' < q'" "q' \<le> j - 1" for p' q'
      using Suc.prems(5) that by (simp add: desc_on_def)
    consider "q \<le> k" | "q = k + 1" | "p \<le> k" "k + 1 < q" | "p = k + 1" "k + 1 < q" | "k + 1 < p"
      using pq by linarith
    then show "?ids2 ! q \<le> ?ids2 ! p"
    proof cases
      case 1
      then show ?thesis using pq D ins(2) kj by auto
    next
      case 2
      have "ids ! j \<le> ids ! p"
      proof (cases "p = k")
        case False
        then have "ids ! k \<le> ids ! p" using D [of p k] 2 pq kj by auto
        then show ?thesis using sh(6) 2 pq False by (auto intro: order_trans)
      qed (use sh(6) pq Suc.prems(1) in auto)
      then show ?thesis using 2 pq ins(2) [of p] ins(3) by auto
    next
      case 3
      then show ?thesis using pq D [of p "q - 1"] ins(2) [of p] ins(4) [of q] by (cases "p = q - 1") auto
    next
      case 4
      then have "ids ! (q - 1) < ids ! j"
        using pq sh(5) [rule_format, of "q - 1"] by linarith
      then show ?thesis
        using 4 pq ins(3) ins(4) [of q] by auto
    next
      case 5
      then show ?thesis using pq D [of "p - 1" "q - 1"] ins(4) [of p] ins(4) [of q] k by auto
    qed
  qed
  moreover have "\<forall>p q. 1 \<le> p \<and> p < l \<and> l \<le> q \<and> q \<le> ir \<longrightarrow> ?ids2 ! q \<le> ?ids2 ! p"
  proof (intro allI impI)
    fix p q assume pq: "1 \<le> p \<and> p < l \<and> l \<le> q \<and> q \<le> ir"
    then have "?ids2 ! p = ids ! p"
      using ins(1) Suc.prems(4) by (auto simp: rearranged_def)
    then show "?ids2 ! q \<le> ?ids2 ! p"
      using rearranged_above [OF ins(1) Suc.prems(4), of "ids ! p"] Suc.prems(6) pq by simp
  qed
  moreover have n: "n = ir + 1 - (j + 1)"
    using Suc.hyps(2) by simp
  ultimately obtain ids' where "isort_loop ?ids2 (j + 1) ir = Some ids'"
    "rearranged l ir ?ids2 ids'" "desc_on ids' l ir"
    using Suc.hyps(1) [OF n, of ?ids2] Suc.prems j sh(3) by auto
  moreover have "isort_loop ids j ir = isort_loop ?ids2 (j + 1) ir"
    using j kj sh(1,3) Suc.prems(7) by (subst isort_loop.simps) (simp add: aget_def aset_def)
  ultimately show ?case
    using ins(1) by (auto intro: rearranged_trans)
qed

section \<open>Partitioning\<close>

lemma MIDL_SWAP_ok:
  "a < length ids \<Longrightarrow> b < length ids \<Longrightarrow> MIDL_SWAP ids a b = Some (ids[a := ids ! b, b := ids ! a])"
  by (simp add: MIDL_SWAP_def aget_def)

lemma swap_if_less_ok:
  assumes "l \<le> a" "a < b" "b \<le> r" "r < length ids"
  shows "\<exists>ids'. swap_if_less ids a b = Some ids' \<and> rearranged l r ids ids' \<and>
     ids' ! a = max (ids ! a) (ids ! b) \<and> ids' ! b = min (ids ! a) (ids ! b) \<and>
     (\<forall>p. p \<noteq> a \<and> p \<noteq> b \<longrightarrow> ids' ! p = ids ! p)"
  using assms rearranged_swap [of l a r b ids]
  by (cases "ids ! a < ids ! b")
     (auto simp: swap_if_less_def aget_def MIDL_SWAP_ok nth_list_update max_def min_def)

lemma scan_up_ok:
  assumes "i < u" "u < length ids" "ids ! u \<le> a" "u < 2 ^ 30"
  shows "\<exists>i'. scan_up ids a i = Some i' \<and> i < i' \<and> i' \<le> u \<and> ids ! i' \<le> a \<and>
     (\<forall>p. i < p \<and> p < i' \<longrightarrow> a < ids ! p)"
  using assms
proof (induction ids a i rule: scan_up.induct)
  case (1 ids a i)
  show ?case
  proof (cases "a < ids ! (i + 1)")
    case True
    then have "i + 1 < u" using "1.prems" by (cases "i + 1 = u") auto
    then obtain i' where "scan_up ids a (i + 1) = Some i'" "i + 1 < i'" "i' \<le> u" "ids ! i' \<le> a"
      "\<forall>p. i + 1 < p \<and> p < i' \<longrightarrow> a < ids ! p"
      using "1.IH" [of "ids ! (i + 1)"] "1.prems" True by (auto simp: aget_def)
    moreover have "p = i + 1 \<or> i + 1 < p" if "i < p" for p
      using that by auto
    ultimately show ?thesis
      using True "1.prems" by (subst scan_up.simps) (auto simp: aget_def)
  next
    case False
    then show ?thesis
      using "1.prems" by (subst scan_up.simps) (auto simp: aget_def)
  qed
qed

lemma scan_down_ok:
  assumes "v < j" "j \<le> length ids" "a \<le> ids ! v"
  shows "\<exists>j'. scan_down ids a j = Some j' \<and> v \<le> j' \<and> j' < j \<and> a \<le> ids ! j' \<and>
     (\<forall>p. j' < p \<and> p < j \<longrightarrow> ids ! p < a)"
  using assms
proof (induction j)
  case (Suc j)
  show ?case
  proof (cases "ids ! j < a")
    case True
    then have "v < j" using Suc.prems by (cases "v = j") auto
    then obtain j' where "scan_down ids a j = Some j'" "v \<le> j'" "j' < j" "a \<le> ids ! j'"
      "\<forall>p. j' < p \<and> p < j \<longrightarrow> ids ! p < a"
      using Suc.IH Suc.prems by auto
    then show ?thesis
      using True Suc.prems by (auto simp: aget_def less_Suc_eq)
  next
    case False
    then show ?thesis
      using Suc.prems by (auto simp: aget_def)
  qed
qed simp

lemma partition_loop_ok:
  assumes "l + 1 \<le> i" "i \<le> j" "j \<le> ir" "ir < length ids" "i = j \<longrightarrow> l + 1 < i \<and> j < ir" "ir < 2 ^ 30"
    and "\<forall>p. l \<le> p \<and> p \<le> i \<longrightarrow> a \<le> ids ! p" "\<forall>p. j \<le> p \<and> p \<le> ir \<longrightarrow> ids ! p \<le> a"
  shows "\<exists>ids' i' j'. partition_loop ids a i j = Some (ids', i', j') \<and>
     rearranged (l + 2) ir ids ids' \<and> j' < i' \<and> l + 1 \<le> j' \<and> i' \<le> ir \<and>
     (\<forall>p. l \<le> p \<and> p < i' \<longrightarrow> a \<le> ids' ! p) \<and> (\<forall>p. j' < p \<and> p \<le> ir \<longrightarrow> ids' ! p \<le> a)"
  using assms
proof (induction "j - i" arbitrary: ids i j rule: less_induct)
  case less
  let ?u = "if i < j then j else j + 1" and ?v = "if i < j then i else i - 1"
  have "i < ?u" "?u \<le> ir" "ids ! ?u \<le> a" "?v < j" "l + 1 \<le> ?v" "a \<le> ids ! ?v"
    using less.prems by auto
  then obtain i' j' where up: "scan_up ids a i = Some i'" "i < i'" "i' \<le> ir" "ids ! i' \<le> a"
      "\<forall>p. i < p \<and> p < i' \<longrightarrow> a < ids ! p"
    and down: "scan_down ids a j = Some j'" "l + 1 \<le> j'" "j' < j" "a \<le> ids ! j'"
      "\<forall>p. j' < p \<and> p < j \<longrightarrow> ids ! p < a"
    using scan_up_ok [of i ?u ids a] scan_down_ok [of ?v j ids a] less.prems(3,4,6)
    by (auto simp del: One_nat_def)
  have hi: "a \<le> ids ! p" if "l \<le> p" "p < i'" for p
    using less.prems(7) up(5) that by (cases "p \<le> i") (auto intro: less_imp_le)
  have lo: "ids ! p \<le> a" if "j' < p" "p \<le> ir" for p
    using less.prems(8) down(5) that by (cases "j \<le> p") (auto intro: less_imp_le)
  show ?case
  proof (cases "j' < i'")
    case True
    then show ?thesis
      using up down hi lo by (subst partition_loop.simps) auto
  next
    case False
    let ?ids = "ids[i' := ids ! j', j' := ids ! i']"
    have sw: "rearranged (l + 2) ir ids ?ids"
      using False up down less.prems by (intro rearranged_swap) auto
    have b: "i' < length ids" "j' < length ids" "i' \<le> j'"
      using False up(3) down(3) less.prems(3,4) by auto
    have "a \<le> ?ids ! p" if "l \<le> p" "p \<le> i'" for p
      using b hi [of p] hi [of "j'"] down(4) that by (cases "p = i'") (auto simp: nth_list_update)
    moreover have "?ids ! p \<le> a" if "j' \<le> p" "p \<le> ir" for p
      using b lo [of p] up(4) that by (cases "p = j'") (auto simp: nth_list_update)
    moreover have "j' - i' < j - i"
      using up(2) down(3) False by auto
    ultimately obtain ids' i'' j'' where
      "partition_loop ?ids a i' j' = Some (ids', i'', j'')"
      "rearranged (l + 2) ir ?ids ids'" "j'' < i''" "l + 1 \<le> j''" "i'' \<le> ir"
      "\<forall>p. l \<le> p \<and> p < i'' \<longrightarrow> a \<le> ids' ! p" "\<forall>p. j'' < p \<and> p \<le> ir \<longrightarrow> ids' ! p \<le> a"
      using less.hyps [of j' i' ?ids] b up(2,3) down(2,3) less.prems(1,3,4,6) by auto
    moreover have "partition_loop ids a i j = partition_loop ?ids a i' j'"
      using up down False less.prems by (subst partition_loop.simps) (simp add: MIDL_SWAP_ok)
    ultimately show ?thesis
      using sw by (auto intro: rearranged_trans)
  qed
qed

lemma midl_partition_ok:
  assumes "l + 8 \<le> ir" "ir < length ids" "ir < 2 ^ 30"
  shows "\<exists>ids' i j a. midl_partition ids l ir = Some (ids', i, j) \<and> rearranged l ir ids ids' \<and>
     j < i \<and> l + 1 \<le> j \<and> i \<le> ir \<and>
     (\<forall>p. l \<le> p \<and> p < i \<longrightarrow> a \<le> ids' ! p) \<and> (\<forall>p. j \<le> p \<and> p \<le> ir \<longrightarrow> ids' ! p \<le> a)"
proof -
  let ?k = "(l + ir) div 2"
  let ?ids1 = "ids[?k := ids ! (l + 1), l + 1 := ids ! ?k]"
  have bnd: "l \<le> ?k" "?k \<le> ir" "l < l + 1" "l + 1 < ir" "ir < length ?ids1"
    using assms by auto
  have sw1: "MIDL_SWAP ids ?k (l + 1) = Some ?ids1" "rearranged l ir ids ?ids1"
    using assms bnd by (auto intro: MIDL_SWAP_ok rearranged_swap)
  obtain ids2 where s2: "swap_if_less ?ids1 l ir = Some ids2" "rearranged l ir ?ids1 ids2"
    "ids2 ! l = max (?ids1 ! l) (?ids1 ! ir)" "ids2 ! ir = min (?ids1 ! l) (?ids1 ! ir)"
    using swap_if_less_ok [of l l ir ir ?ids1] bnd by auto
  have b2: "ir < length ids2" using s2(2) bnd by (simp add: rearranged_def)
  obtain ids3 where s3: "swap_if_less ids2 (l + 1) ir = Some ids3" "rearranged l ir ids2 ids3"
    "ids3 ! (l + 1) = max (ids2 ! (l + 1)) (ids2 ! ir)" "ids3 ! ir = min (ids2 ! (l + 1)) (ids2 ! ir)"
    "ids3 ! l = ids2 ! l"
    using swap_if_less_ok [of l "l + 1" ir ir ids2] bnd b2 by auto
  have b3: "ir < length ids3" using s3(2) b2 by (simp add: rearranged_def)
  obtain ids4 where s4: "swap_if_less ids3 l (l + 1) = Some ids4" "rearranged l ir ids3 ids4"
    "ids4 ! l = max (ids3 ! l) (ids3 ! (l + 1))" "ids4 ! (l + 1) = min (ids3 ! l) (ids3 ! (l + 1))"
    "ids4 ! ir = ids3 ! ir"
    using swap_if_less_ok [of l l "l + 1" ir ids3] bnd b3 by auto
  have b4: "ir < length ids4" using s4(2) b3 by (simp add: rearranged_def)
  let ?a = "ids4 ! (l + 1)"
  have "ids3 ! ir \<le> ids3 ! l" "ids3 ! ir \<le> ids3 ! (l + 1)"
    unfolding s3 s2 by (simp_all add: min_le_iff_disj le_max_iff_disj)
  then have med: "?a \<le> ids4 ! l" "ids4 ! ir \<le> ?a"
    unfolding s4 by (simp_all add: min_le_iff_disj le_max_iff_disj)
  have start: "\<forall>p. l \<le> p \<and> p \<le> l + 1 \<longrightarrow> ?a \<le> ids4 ! p" "\<forall>p. ir \<le> p \<and> p \<le> ir \<longrightarrow> ids4 ! p \<le> ?a"
    using med by (auto simp: le_Suc_eq)
  have neq: "l + 1 = ir \<longrightarrow> l + 1 < l + 1 \<and> ir < ir"
    using bnd(4) by simp
  obtain ids5 i j where s5: "partition_loop ids4 ?a (l + 1) ir = Some (ids5, i, j)"
    "rearranged (l + 2) ir ids4 ids5" "j < i" "l + 1 \<le> j" "i \<le> ir"
    "\<forall>p. l \<le> p \<and> p < i \<longrightarrow> ?a \<le> ids5 ! p" "\<forall>p. j < p \<and> p \<le> ir \<longrightarrow> ids5 ! p \<le> ?a"
    using partition_loop_ok [OF order_refl less_imp_le [OF bnd(4)] order_refl b4 neq assms(3) start] by metis
  have b5: "ir < length ids5" "ids5 ! (l + 1) = ?a"
    using s5(2) b4 bnd by (auto simp: rearranged_def)
  let ?ids7 = "ids5[l + 1 := ids5 ! j, j := ?a]"
  have sw7: "rearranged l ir ids5 ?ids7"
    using rearranged_swap [of l "l + 1" ir j ids5] b5 s5 bnd by auto
  have acc: "aget ids4 (l + 1) = Some ?a" "aget ids5 j = Some (ids5 ! j)"
      "aset ids5 (l + 1) (ids5 ! j) = Some (ids5[l + 1 := ids5 ! j])"
      "aset (ids5[l + 1 := ids5 ! j]) j ?a = Some ?ids7"
    using b4 b5(1) bnd(4) s5(3,5) by (simp_all add: aget_def aset_def)
  have "l + ir < 2 ^ 31" using assms by simp
  then have "midl_partition ids l ir = Some (?ids7, i, j)"
    by (simp only: midl_partition_def if_True sw1(1) s2(1) s3(1) s4(1) acc s5(1) bind.bind_lunit prod.case)
  moreover have "rearranged l ir ids4 ids5"
    using s5(2) by (rule rearranged_mono) auto
  then have "rearranged l ir ids ?ids7"
    using sw1(2) s2(2) s3(2) s4(2) sw7 by (blast intro: rearranged_trans)
  moreover have "?a \<le> ?ids7 ! p" if "l \<le> p" "p < i" for p
    using s5(3,4,5,6) b5(1) that by (auto simp: nth_list_update)
  moreover have "?ids7 ! p \<le> ?a" if "j \<le> p" "p \<le> ir" for p
    using s5(4,5,7) b5(1) that by (cases "p = j") (auto simp: nth_list_update)
  ultimately show ?thesis
    using s5(3-5) by blast
qed

section \<open>The main loop\<close>

text \<open>
  The segments still to be sorted: the current one and those on the stack, the most recently
  pushed first.
\<close>

fun stacked :: "nat list \<Rightarrow> nat \<Rightarrow> (nat \<times> nat) list" where
  "stacked istack 0 = []"
| "stacked istack (Suc m) = (istack ! (2 * m + 1), istack ! (2 * m + 2)) # stacked istack m"

definition apart :: "nat \<times> nat \<Rightarrow> nat \<times> nat \<Rightarrow> bool" where
  "apart s t \<longleftrightarrow> snd s < fst t \<or> snd t < fst s"

definition seg_size :: "nat \<times> nat \<Rightarrow> nat" where
  "seg_size s = Suc (snd s) - fst s"

text \<open>Every pair of positions is in order unless one pending segment holds both.\<close>

definition desc_but :: "'a::linorder list \<Rightarrow> nat \<Rightarrow> (nat \<times> nat) list \<Rightarrow> bool" where
  "desc_but ids N segs \<longleftrightarrow> (\<forall>p q. 1 \<le> p \<and> p < q \<and> q \<le> N \<longrightarrow>
     ids ! q \<le> ids ! p \<or> (\<exists>s \<in> set segs. fst s \<le> p \<and> q \<le> snd s))"

definition pending_ok :: "nat \<Rightarrow> (nat \<times> nat) list \<Rightarrow> bool" where
  "pending_ok N segs \<longleftrightarrow> sorted_wrt apart segs \<and>
     (\<forall>s \<in> set segs. 1 \<le> fst s \<and> fst s \<le> Suc (snd s) \<and> snd s \<le> N)"

text \<open>The segment at depth \<open>k\<close> of the stack is at most \<open>N div 2 ^ k\<close> long.\<close>

fun sizes_ok :: "nat \<Rightarrow> (nat \<times> nat) list \<Rightarrow> bool" where
  "sizes_ok N [] = True"
| "sizes_ok N (s # segs) = (seg_size s * 2 ^ (length segs) \<le> N \<and> sizes_ok N segs)"

lemma length_stacked [simp]: "length (stacked istack m) = m"
  by (induction m) auto

lemma stacked_update:
  "2 * m < k \<Longrightarrow> stacked (istack[k := v]) m = stacked istack m"
  by (induction m) auto

lemma apart_sub: "apart (l, r) s \<Longrightarrow> l \<le> a \<Longrightarrow> b \<le> r \<Longrightarrow> apart (a, b) s"
  by (auto simp: apart_def)

text \<open>The values of a pending segment lie between those before and those behind it.\<close>

lemma desc_but_around:
  assumes "pending_ok N ((l, ir) # rest)" "desc_but ids N ((l, ir) # rest)" "l \<le> ir"
  shows "1 \<le> p \<Longrightarrow> p < l \<Longrightarrow> l \<le> q \<Longrightarrow> q \<le> ir \<Longrightarrow> ids ! q \<le> ids ! p"
    and "l \<le> p \<Longrightarrow> p \<le> ir \<Longrightarrow> ir < q \<Longrightarrow> q \<le> N \<Longrightarrow> ids ! q \<le> ids ! p"
proof -
  have N: "1 \<le> l" "ir \<le> N" and ap: "\<And>s. s \<in> set rest \<Longrightarrow> ir < fst s \<or> snd s < l"
    using assms(1) by (auto simp: pending_ok_def apart_def)
  show "ids ! q \<le> ids ! p" if "1 \<le> p" "p < l" "l \<le> q" "q \<le> ir"
    using assms(2) [unfolded desc_but_def, rule_format, of p q] ap N that by force
  show "ids ! q \<le> ids ! p" if "l \<le> p" "p \<le> ir" "ir < q" "q \<le> N"
    using assms(2) [unfolded desc_but_def, rule_format, of p q] ap N that by force
qed

text \<open>
  Rearranging the first pending segment and replacing it by \<open>segs\<close> keeps the order of the rest.
\<close>

lemma desc_but_rearranged:
  assumes "pending_ok N ((l, ir) # rest)" "desc_but ids N ((l, ir) # rest)" "l \<le> ir" "N < length ids"
    and "rearranged l ir ids ids'"
    and inside: "\<And>p q. l \<le> p \<Longrightarrow> p < q \<Longrightarrow> q \<le> ir \<Longrightarrow>
      ids' ! q \<le> ids' ! p \<or> (\<exists>s \<in> set segs. fst s \<le> p \<and> q \<le> snd s)"
  shows "desc_but ids' N (segs @ rest)"
  unfolding desc_but_def
proof (intro allI impI)
  fix p q assume pq: "1 \<le> p \<and> p < q \<and> q \<le> N"
  have ir: "ir \<le> N" "ir < length ids"
    using assms(1,4) by (auto simp: pending_ok_def)
  have out: "ids' ! k = ids ! k" if "k < l \<or> ir < k" "k \<le> N" for k
    using assms(4,5) that by (auto simp: rearranged_def)
  note around = desc_but_around [OF assms(1-3)]
  consider "l \<le> p" "q \<le> ir" | "p < l" "l \<le> q" "q \<le> ir" | "l \<le> p" "p \<le> ir" "ir < q"
    | "p < l \<or> ir < p" "q < l \<or> ir < q" using pq by linarith
  then show "ids' ! q \<le> ids' ! p \<or> (\<exists>s \<in> set (segs @ rest). fst s \<le> p \<and> q \<le> snd s)"
  proof cases
    case 1
    then show ?thesis using inside pq by auto
  next
    case 2
    then have "ids' ! q \<le> ids ! p"
      using rearranged_above [OF assms(5) ir(2), of "ids ! p"] around(1) pq by blast
    then show ?thesis using out [of p] 2 pq by auto
  next
    case 3
    then have "ids ! q \<le> ids' ! p"
      using rearranged_below [OF assms(5) ir(2), of "ids ! q"] around(2) pq by blast
    then show ?thesis using out [of q] 3 pq by auto
  next
    case 4
    then show ?thesis
      using assms(2) [unfolded desc_but_def, rule_format, of p q] pq out [of p] out [of q] by auto
  qed
qed

lemma isort_segment:
  assumes "pending_ok N ((l, ir) # rest)" "desc_but ids N ((l, ir) # rest)" "N < length ids" "N < 2 ^ 30"
  shows "\<exists>ids'. isort_loop ids (l + 1) ir = Some ids' \<and> rearranged 1 N ids ids' \<and> desc_but ids' N rest"
proof (cases "l \<le> ir")
  case True
  have b: "1 \<le> l" "ir \<le> N" "ir < length ids" "ir < 2 ^ 30"
    using assms by (auto simp: pending_ok_def)
  have "desc_on ids l (l + 1 - 1)"
    by (auto simp: desc_on_def)
  moreover have "\<forall>p q. 1 \<le> p \<and> p < l \<and> l \<le> q \<and> q \<le> ir \<longrightarrow> ids ! q \<le> ids ! p"
    using desc_but_around(1) [OF assms(1,2) True] by blast
  ultimately obtain ids' where ids': "isort_loop ids (l + 1) ir = Some ids'" "rearranged l ir ids ids'"
    "desc_on ids' l ir"
    using isort_loop_ok [of l "l + 1" ir ids] b True by auto
  have "desc_but ids' N ([] @ rest)"
    using ids'(3) by (intro desc_but_rearranged [OF assms(1,2) True assms(3) ids'(2)])
      (auto simp: desc_on_def)
  then show ?thesis
    using ids' b rearranged_mono [OF ids'(2), of 1 N] by auto
next
  case False
  then have "desc_but ids N rest"
    using assms(2) by (fastforce simp: desc_but_def)
  then show ?thesis
    using False by (subst isort_loop.simps) simp
qed

lemma partition_segment:
  assumes "pending_ok N ((l, ir) # rest)" "desc_but ids N ((l, ir) # rest)" "N < length ids"
    and "l + 8 \<le> ir" "N < 2 ^ 30"
  shows "\<exists>ids' i j. midl_partition ids l ir = Some (ids', i, j) \<and> rearranged 1 N ids ids' \<and>
     j < i \<and> l + 1 \<le> j \<and> i \<le> ir \<and>
     pending_ok N ((l, j - 1) # (i, ir) # rest) \<and> pending_ok N ((i, ir) # (l, j - 1) # rest) \<and>
     desc_but ids' N ((l, j - 1) # (i, ir) # rest) \<and> desc_but ids' N ((i, ir) # (l, j - 1) # rest)"
proof -
  have b: "1 \<le> l" "ir \<le> N" "ir < length ids" "l \<le> ir" "ir < 2 ^ 30"
    using assms by (auto simp: pending_ok_def)
  obtain ids' i j a where P: "midl_partition ids l ir = Some (ids', i, j)" "rearranged l ir ids ids'"
    "j < i" "l + 1 \<le> j" "i \<le> ir" "\<forall>p. l \<le> p \<and> p < i \<longrightarrow> a \<le> ids' ! p"
    "\<forall>p. j \<le> p \<and> p \<le> ir \<longrightarrow> ids' ! p \<le> a"
    using midl_partition_ok [OF assms(4) b(3,5)] by blast
  have "desc_but ids' N ([(l, j - 1), (i, ir)] @ rest)"
  proof (rule desc_but_rearranged [OF assms(1,2) b(4) assms(3) P(2)])
    fix p q assume pq: "l \<le> p" "p < q" "q \<le> ir"
    show "ids' ! q \<le> ids' ! p \<or> (\<exists>s \<in> set [(l, j - 1), (i, ir)]. fst s \<le> p \<and> q \<le> snd s)"
    proof (cases "j \<le> q \<and> p < i")
      case True
      then have "ids' ! q \<le> a" "a \<le> ids' ! p" using P(6,7) pq by auto
      then show ?thesis by (auto intro: order_trans)
    qed (use pq in auto)
  qed
  then have d: "desc_but ids' N ((l, j - 1) # (i, ir) # rest)" by simp
  have "desc_but ids' N ((i, ir) # (l, j - 1) # rest)"
    using d by (auto simp: desc_but_def)
  moreover have "pending_ok N ((l, j - 1) # (i, ir) # rest)" "pending_ok N ((i, ir) # (l, j - 1) # rest)"
    using assms(1) P(3-5) b apart_sub [of l ir _ l "j - 1"] apart_sub [of l ir _ i ir]
    by (auto simp: pending_ok_def) (auto simp: apart_def)
  ultimately show ?thesis
    using P d b rearranged_mono [OF P(2), of 1 N] by blast
qed

definition pending_weight :: "(nat \<times> nat) list \<Rightarrow> nat" where
  "pending_weight segs = sum_list (map (\<lambda>s. 2 * seg_size s + 1) segs)"

lemma push_depth:
  assumes "sizes_ok N (s # rest)" "9 \<le> seg_size s" "N < 2 ^ 31"
  shows "2 * length rest + 2 < 64"
proof (rule ccontr)
  assume "\<not> ?thesis"
  then have "28 \<le> length rest" by simp
  then have "(2::nat) ^ 28 \<le> 2 ^ length rest"
    by (intro power_increasing) auto
  then have "9 * 2 ^ 28 \<le> seg_size s * 2 ^ length rest"
    using assms(2) by (intro mult_le_mono) auto
  then show False using assms(1,3) by simp
qed

lemma sizes_ok_split:
  assumes "sizes_ok N (s # rest)" "seg_size small \<le> seg_size large"
    and "seg_size small + seg_size large \<le> seg_size s"
  shows "sizes_ok N (small # large # rest)"
proof -
  have le: "seg_size s * 2 ^ length rest \<le> N"
    using assms(1) by simp
  have "seg_size large * 2 ^ length rest \<le> N"
    using assms(3) by (intro order_trans [OF mult_le_mono1 le]) simp
  moreover have "2 * seg_size small * 2 ^ length rest \<le> N"
    using assms(2,3) by (intro order_trans [OF mult_le_mono1 le]) simp
  ultimately show ?thesis
    using assms(1) by (simp add: ac_simps)
qed

text \<open>
  The main loop returns on every array: by induction on the weight of the pending segments,
  which drops with every partitioning step and every segment that is sorted.
\<close>

lemma midl_sort_loop_ok:
  assumes "pending_ok N ((l, ir) # stacked istack m)" "desc_but ids N ((l, ir) # stacked istack m)"
    and "sizes_ok N ((l, ir) # stacked istack m)" "N < length ids" "N < 2 ^ 30" "length istack = 64"
    and "2 * m < 64"
  shows "\<exists>ids'. midl_sort_loop ids l ir istack (2 * m) = Some ids' \<and> rearranged 1 N ids ids' \<and>
     desc_on ids' 1 N"
  using assms
proof (induction "pending_weight ((l, ir) # stacked istack m)" arbitrary: ids l ir istack m rule: less_induct)
  case less
  note pend = less.prems(1,2,4)
  have N31: "N < 2 ^ 31" using less.prems(5) by simp
  show ?case
  proof (cases "ir < l + SMALL")
    case True
    obtain ids1 where s1: "isort_loop ids (l + 1) ir = Some ids1" "rearranged 1 N ids ids1"
      "desc_but ids1 N (stacked istack m)"
      using isort_segment [OF pend less.prems(5)] by blast
    show ?thesis
    proof (cases m)
      case 0
      then have "midl_sort_loop ids l ir istack (2 * m) = Some ids1"
        using True s1(1) by (subst midl_sort_loop.simps) simp
      moreover have "desc_on ids1 1 N"
        using s1(3) 0 by (simp add: desc_but_def desc_on_def)
      ultimately show ?thesis using s1(2) by blast
    next
      case (Suc m')
      let ?l = "istack ! (2 * m' + 1)" and ?ir = "istack ! (2 * m' + 2)"
      have st: "stacked istack m = (?l, ?ir) # stacked istack m'" by (simp add: Suc)
      have "pending_weight ((?l, ?ir) # stacked istack m') < pending_weight ((l, ir) # stacked istack m)"
        by (simp add: st pending_weight_def)
      moreover have "pending_ok N ((?l, ?ir) # stacked istack m')" "sizes_ok N ((?l, ?ir) # stacked istack m')"
          "desc_but ids1 N ((?l, ?ir) # stacked istack m')" "N < length ids1"
        using less.prems(1,3,4) s1 st by (auto simp: pending_ok_def rearranged_def)
      ultimately obtain ids' where "midl_sort_loop ids1 ?l ?ir istack (2 * m') = Some ids'"
        "rearranged 1 N ids1 ids'" "desc_on ids' 1 N"
        using less.hyps [of ?l ?ir istack m' ids1] less.prems(5,6,7) Suc by auto
      moreover have "midl_sort_loop ids l ir istack (2 * m) = midl_sort_loop ids1 ?l ?ir istack (2 * m')"
        using True s1(1) Suc less.prems(6,7) by (subst midl_sort_loop.simps) (simp add: aget_def)
      ultimately show ?thesis
        using rearranged_trans [OF s1(2)] by auto
    qed
  next
    case False
    then have big: "l + 8 \<le> ir" by (simp add: SMALL_def)
    let ?rest = "stacked istack m"
    obtain ids1 i j where P: "midl_partition ids l ir = Some (ids1, i, j)" "rearranged 1 N ids ids1"
        "j < i" "l + 1 \<le> j" "i \<le> ir"
      and new: "pending_ok N ((l, j - 1) # (i, ir) # ?rest)" "pending_ok N ((i, ir) # (l, j - 1) # ?rest)"
        "desc_but ids1 N ((l, j - 1) # (i, ir) # ?rest)" "desc_but ids1 N ((i, ir) # (l, j - 1) # ?rest)"
      using partition_segment [OF pend big less.prems(5)] by blast
    have len: "N < length ids1" using P(2) less.prems(4) by (simp add: rearranged_def)
    have depth: "2 * m + 2 < 64"
      using push_depth [OF less.prems(3) _ N31] big by (simp add: seg_size_def)
    have sum: "seg_size (l, j - 1) + seg_size (i, ir) \<le> seg_size (l, ir) - 1"
      using P(3-5) by (simp add: seg_size_def)
    show ?thesis
    proof (cases "int ir - int i + 1 \<ge> int j - int l")
      case True
      let ?st = "istack[2 * m + 2 := ir, 2 * m + 1 := i]"
      have st: "stacked ?st (Suc m) = (i, ir) # ?rest"
        using depth less.prems(6) by (simp add: stacked_update)
      have "seg_size (l, j - 1) \<le> seg_size (i, ir)"
        using True P(3-5) by (simp add: seg_size_def)
      then have "sizes_ok N ((l, j - 1) # stacked ?st (Suc m))"
        unfolding st using less.prems(3) sum by (intro sizes_ok_split [of N "(l, ir)"]) auto
      moreover have "pending_weight ((l, j - 1) # stacked ?st (Suc m)) < pending_weight ((l, ir) # ?rest)"
        unfolding st using sum big by (simp add: pending_weight_def seg_size_def)
      ultimately obtain ids' where "midl_sort_loop ids1 l (j - 1) ?st (2 * Suc m) = Some ids'"
        "rearranged 1 N ids1 ids'" "desc_on ids' 1 N"
        using less.hyps [of l "j - 1" ?st "Suc m" ids1] new(1,3) len less.prems(5,6) depth st by auto
      moreover have "midl_sort_loop ids l ir istack (2 * m) = midl_sort_loop ids1 l (j - 1) ?st (2 * Suc m)"
        using True False P(1) depth less.prems(6) by (subst midl_sort_loop.simps) (simp add: aset_def)
      ultimately show ?thesis
        using rearranged_trans [OF P(2)] by auto
    next
      case ge: False
      let ?st = "istack[2 * m + 2 := j - 1, 2 * m + 1 := l]"
      have st: "stacked ?st (Suc m) = (l, j - 1) # ?rest"
        using depth less.prems(6) by (simp add: stacked_update)
      have "seg_size (i, ir) \<le> seg_size (l, j - 1)"
        using ge P(3-5) by (simp add: seg_size_def)
      then have "sizes_ok N ((i, ir) # stacked ?st (Suc m))"
        unfolding st using less.prems(3) sum by (intro sizes_ok_split [of N "(l, ir)"]) auto
      moreover have "pending_weight ((i, ir) # stacked ?st (Suc m)) < pending_weight ((l, ir) # ?rest)"
        unfolding st using sum big by (simp add: pending_weight_def seg_size_def)
      ultimately obtain ids' where "midl_sort_loop ids1 i ir ?st (2 * Suc m) = Some ids'"
        "rearranged 1 N ids1 ids'" "desc_on ids' 1 N"
        using less.hyps [of i ir ?st "Suc m" ids1] new(2,4) len less.prems(5,6) depth st by auto
      moreover have "midl_sort_loop ids l ir istack (2 * m) = midl_sort_loop ids1 i ir ?st (2 * Suc m)"
        using ge False P(1) depth less.prems(6) by (subst midl_sort_loop.simps) (simp add: aset_def)
      ultimately show ?thesis
        using rearranged_trans [OF P(2)] by auto
    qed
  qed
qed

text \<open>
  C11. \<open>mdb_midl_sort\<close> on a list of fewer than \<open>2 ^ 30\<close> IDs returns, never leaves the ID array or its
  own 64-entry stack, computes no index that overflows \<open>int\<close>, permutes the IDs and leaves them in descending order; the count and
  everything behind the counted IDs are unchanged.
\<close>

theorem mdb_midl_sort_correct:
  assumes "unat (ids ! 0) < length ids" "unat (ids ! 0) < 2 ^ 30"
  shows "\<exists>ids'. mdb_midl_sort ids = Some ids' \<and> ids' ! 0 = ids ! 0 \<and> length ids' = length ids \<and>
     drop (unat (ids ! 0) + 1) ids' = drop (unat (ids ! 0) + 1) ids \<and>
     mset (midl_elems ids') = mset (midl_elems ids) \<and> sorted_wrt (\<ge>) (midl_elems ids')"
proof -
  let ?N = "unat (ids ! 0)"
  have ne: "ids \<noteq> []" using assms(1) by auto
  have ir: "nat (sint (ucast (ids ! 0) :: uint32)) = ?N" "\<not> sint (ucast (ids ! 0) :: uint32) - 1 < - (2 ^ 31)"
  proof -
    have "unat (ucast (ids ! 0) :: uint32) = ?N"
      using assms(2) by (intro unat_ucast_64_32) simp
    then have n: "nat (sint (ucast (ids ! 0) :: uint32)) = ?N"
      using assms(2) by (subst nat_sint_32) simp_all
    moreover have "- (2 ^ 31) \<le> sint x" for x :: uint32 using sint_greater_eq [of x] by simp
    moreover have "?N \<noteq> 0 \<or> sint (ucast (ids ! 0) :: uint32) = 0"
      using \<open>unat (ucast (ids ! 0) :: uint32) = ?N\<close> by (cases "ucast (ids ! 0) = (0 :: uint32)") (auto simp: unat_eq_0)
    then have "0 \<le> sint (ucast (ids ! 0) :: uint32)" using n by linarith
    ultimately show "nat (sint (ucast (ids ! 0) :: uint32)) = ?N" "\<not> sint (ucast (ids ! 0) :: uint32) - 1 < - (2 ^ 31)" by simp_all
  qed
  have "pending_ok ?N ((1, ?N) # stacked (replicate 64 0) 0)"
    "desc_but ids ?N ((1, ?N) # stacked (replicate 64 0) 0)"
    "sizes_ok ?N ((1, ?N) # stacked (replicate 64 0) 0)"
    by (auto simp: pending_ok_def desc_but_def seg_size_def)
  then obtain ids' where ids': "midl_sort_loop ids 1 ?N (replicate 64 0) (2 * 0) = Some ids'"
    "rearranged 1 ?N ids ids'" "desc_on ids' 1 ?N"
    using midl_sort_loop_ok [of ?N 1 ?N "replicate 64 0" 0 ids] assms by auto
  have len: "length ids' = length ids" "ids' ! 0 = ids ! 0" "mset ids' = mset ids"
    using ids'(2) ne by (auto simp: rearranged_def)
  have behind: "drop (?N + 1) ids' = drop (?N + 1) ids"
    using ids'(2) by (intro nth_equalityI) (auto simp: rearranged_def)
  have "mset ((ids' ! 0) # midl_elems ids' @ drop ?N (tl ids')) = mset ((ids ! 0) # midl_elems ids @ drop ?N (tl ids))"
    using midl_elems_count [of ids] midl_elems_count [of ids'] len ne assms(1)
    by (metis length_0_conv)
  then have "mset (midl_elems ids') = mset (midl_elems ids)"
    using len behind by (simp add: drop_Suc)
  moreover have "sorted_wrt (\<ge>) (midl_elems ids')"
    using ids'(3) len assms(1)
    by (auto simp: sorted_wrt_iff_nth_less length_midl_elems nth_midl_elems desc_on_def)
  ultimately show ?thesis
    using ids'(1) len behind ir ne by (auto simp: mdb_midl_sort_def aget_def)
qed

theorem mdb_midl_sort_correct_witness:
  "\<exists>ids'. mdb_midl_sort [3, 4, 9, 7, 8] = Some ids' \<and> sorted_wrt (\<ge>) (midl_elems ids') \<and>
     mset (midl_elems ids') = {#4, 9, 7#}"
  using mdb_midl_sort_correct [of "[3, 4, 9, 7, 8]"]
  by (auto simp: midl_elems_def take_Cons')

end
