(* ===== verification/LuaNumber.thy ===== *)
theory LuaNumber
  imports Prelude
begin

text \<open>
  The numbers of the Lua values the C modules exchange: \<open>lua_Number\<close> is a C \<open>double\<close>, kept here as
  its 64-bit IEEE-754 pattern, and \<open>float\<close> as its 32-bit pattern. The theory defines the C
  conversions the modules use (integer to \<open>double\<close>, \<open>double\<close> to integer, \<open>double\<close> to \<open>float\<close> and
  back, the test \<open>floor(n) == n\<close>), with rounding to nearest, ties to even.
\<close>

type_synonym lua_Number = uint64
type_synonym float32 = uint32

section \<open>Packing and unpacking\<close>

fun bitlen :: "nat \<Rightarrow> nat" where
  "bitlen n = (if n = 0 then 0 else Suc (bitlen (n div 2)))"

declare bitlen.simps [simp del]

definition round_half_even :: "nat \<Rightarrow> nat \<Rightarrow> nat" where
  "round_half_even m s =
     (if s = 0 then m
      else let q = m div 2 ^ s; r = m mod 2 ^ s; half = 2 ^ (s - 1)
           in if r < half \<or> r = half \<and> even q then q else q + 1)"

text \<open>
  A format has \<open>p\<close> bits of precision, the least exponent \<open>q0\<close> of a last place and the pattern
  \<open>infp\<close> of infinity. \<open>ieee_pack\<close> rounds \<open>m * 2 ^ e\<close> and gives the magnitude bits,
  \<open>ieee_unpack\<close> gives the \<open>m\<close> and \<open>e\<close> of finite magnitude bits.
\<close>

definition ieee_pack :: "nat \<Rightarrow> int \<Rightarrow> nat \<Rightarrow> nat \<Rightarrow> int \<Rightarrow> nat" where
  "ieee_pack p q0 infp m e =
     (if m = 0 then 0
      else let q = max (e + int (bitlen m) - int p) q0;
               mant = (if q \<le> e then m * 2 ^ nat (e - q) else round_half_even m (nat (q - e)))
           in min infp (nat (q - q0) * 2 ^ (p - 1) + mant))"

definition ieee_unpack :: "nat \<Rightarrow> int \<Rightarrow> nat \<Rightarrow> nat \<times> int" where
  "ieee_unpack p q0 b =
     (let ex = b div 2 ^ (p - 1); f = b mod 2 ^ (p - 1)
      in if ex = 0 then (f, q0) else (2 ^ (p - 1) + f, q0 + int ex - 1))"

definition DINF :: nat where
  "DINF = 2047 * 2 ^ 52"

definition FINF :: nat where
  "FINF = 255 * 2 ^ 23"

definition dbl_sign :: "lua_Number \<Rightarrow> bool" where
  "dbl_sign d \<longleftrightarrow> bit d 63"

definition dbl_mag :: "lua_Number \<Rightarrow> nat" where
  "dbl_mag d = unat d mod 2 ^ 63"

definition dbl_make :: "bool \<Rightarrow> nat \<Rightarrow> lua_Number" where
  "dbl_make sg mag = of_nat ((if sg then 2 ^ 63 else 0) + mag)"

definition dbl_is_nan :: "lua_Number \<Rightarrow> bool" where
  "dbl_is_nan d \<longleftrightarrow> DINF < dbl_mag d"

definition dbl_is_inf :: "lua_Number \<Rightarrow> bool" where
  "dbl_is_inf d \<longleftrightarrow> dbl_mag d = DINF"

section \<open>Conversions\<close>

definition dbl_of_int :: "int \<Rightarrow> lua_Number" where
  "dbl_of_int k = dbl_make (k < 0) (ieee_pack 53 (- 1074) DINF (nat \<bar>k\<bar>) 0)"

text \<open>The value rounded towards zero; \<open>None\<close> for NaN and the infinities.\<close>

definition dbl_trunc :: "lua_Number \<Rightarrow> int option" where
  "dbl_trunc d =
     (if DINF \<le> dbl_mag d then None
      else case ieee_unpack 53 (- 1074) (dbl_mag d) of (m, e) \<Rightarrow>
        let v = (if 0 \<le> e then m * 2 ^ nat e else m div 2 ^ nat (- e))
        in Some (if dbl_sign d then - int v else int v))"

definition dbl_integral :: "lua_Number \<Rightarrow> bool" where
  "dbl_integral d \<longleftrightarrow> dbl_mag d < DINF \<and>
     (case ieee_unpack 53 (- 1074) (dbl_mag d) of (m, e) \<Rightarrow>
        0 \<le> e \<or> m mod 2 ^ nat (- e) = 0)"

text \<open>\<open>floor(n) == n\<close>: false on NaN, true on the infinities.\<close>

definition dbl_floor_eq :: "lua_Number \<Rightarrow> bool" where
  "dbl_floor_eq d \<longleftrightarrow> dbl_is_inf d \<or> dbl_integral d"

text \<open>\<open>==\<close> on doubles.\<close>

definition dbl_eq :: "lua_Number \<Rightarrow> lua_Number \<Rightarrow> bool" where
  "dbl_eq a b \<longleftrightarrow> \<not> dbl_is_nan a \<and> \<not> dbl_is_nan b \<and> (a = b \<or> dbl_mag a = 0 \<and> dbl_mag b = 0)"

text \<open>\<open>n < 0\<close>.\<close>

definition dbl_neg :: "lua_Number \<Rightarrow> bool" where
  "dbl_neg d \<longleftrightarrow> \<not> dbl_is_nan d \<and> dbl_sign d \<and> dbl_mag d \<noteq> 0"

text \<open>
  \<open>(int64_t)n\<close> and \<open>(uint64_t)n\<close>: \<open>None\<close> where the value is not representable, which C leaves
  undefined.
\<close>

definition dbl_to_int64 :: "lua_Number \<Rightarrow> uint64 option" where
  "dbl_to_int64 d = (case dbl_trunc d of None \<Rightarrow> None
     | Some k \<Rightarrow> if - (2 ^ 63) \<le> k \<and> k < 2 ^ 63 then Some (word_of_int k) else None)"

definition dbl_to_uint64 :: "lua_Number \<Rightarrow> uint64 option" where
  "dbl_to_uint64 d = (case dbl_trunc d of None \<Rightarrow> None
     | Some k \<Rightarrow> if 0 \<le> k \<and> k < 2 ^ 64 then Some (word_of_int k) else None)"

definition flt_of_dbl :: "lua_Number \<Rightarrow> float32" where
  "flt_of_dbl d =
     of_nat ((if dbl_sign d then 2 ^ 31 else 0) +
       (if dbl_is_nan d then FINF + 2 ^ 22
        else if dbl_is_inf d then FINF
        else case ieee_unpack 53 (- 1074) (dbl_mag d) of (m, e) \<Rightarrow> ieee_pack 24 (- 149) FINF m e))"

definition dbl_of_flt :: "float32 \<Rightarrow> lua_Number" where
  "dbl_of_flt f =
     (let mag = unat f mod 2 ^ 31
      in dbl_make (bit f 31)
           (if FINF < mag then DINF + (mag - FINF) * 2 ^ 29
            else if mag = FINF then DINF
            else case ieee_unpack 24 (- 149) mag of (m, e) \<Rightarrow> ieee_pack 53 (- 1074) DINF m e))"

section \<open>Exactness\<close>

lemma bitlen_0 [simp]: "bitlen 0 = 0"
  by (simp add: bitlen.simps)

lemma bitlen_bounds: "0 < n \<Longrightarrow> 2 ^ (bitlen n - 1) \<le> n \<and> n < 2 ^ bitlen n \<and> 0 < bitlen n"
proof (induction n rule: bitlen.induct)
  case (1 n)
  show ?case
  proof (cases "n = 1")
    case True
    then show ?thesis by (simp add: bitlen.simps [of "Suc 0"])
  next
    case False
    with 1 have IH: "2 ^ (bitlen (n div 2) - 1) \<le> n div 2" "n div 2 < 2 ^ bitlen (n div 2)"
        "0 < bitlen (n div 2)"
      by auto
    have "(2::nat) ^ bitlen (n div 2) = 2 * 2 ^ (bitlen (n div 2) - 1)"
      using IH(3) by (cases "bitlen (n div 2)") auto
    moreover have "bitlen n = Suc (bitlen (n div 2))"
      using "1.prems" by (simp add: bitlen.simps [of n])
    moreover have "2 * (n div 2) \<le> n" "n < 2 * (n div 2) + 2"
      by auto
    ultimately show ?thesis
      using IH by (simp, linarith)
  qed
qed

lemma bitlen_le: "n < 2 ^ k \<Longrightarrow> bitlen n \<le> k"
proof (cases "n = 0")
  case False
  assume "n < 2 ^ k"
  with bitlen_bounds [of n] False have "(2::nat) ^ (bitlen n - 1) < 2 ^ k"
    by (meson gr0I le_less_trans)
  then have "bitlen n - 1 < k"
    by (rule power_less_imp_less_exp [rotated]) simp
  then show ?thesis by simp
qed simp

lemma bitlen_eq: "2 ^ k \<le> n \<Longrightarrow> n < 2 ^ Suc k \<Longrightarrow> bitlen n = Suc k"
proof -
  assume a: "2 ^ k \<le> n" "n < 2 ^ Suc k"
  have "0 < n" using a(1) by (cases n) auto
  then have "n < 2 ^ bitlen n" using bitlen_bounds by blast
  with a(1) have "(2::nat) ^ k < 2 ^ bitlen n" by (rule le_less_trans)
  then have "k < bitlen n" by (rule power_less_imp_less_exp [rotated]) simp
  with bitlen_le [OF a(2)] show ?thesis by simp
qed

lemma ieee_pack_exact:
  assumes "0 < m" "e + int (bitlen m) - int p \<le> e" "q0 \<le> e" "q = max (e + int (bitlen m) - int p) q0"
  shows "ieee_pack p q0 infp m e = min infp (nat (q - q0) * 2 ^ (p - 1) + m * 2 ^ nat (e - q))"
proof -
  have "q \<le> e" using assms(2-4) by simp
  then show ?thesis
    using assms(1) by (simp add: ieee_pack_def Let_def flip: assms(4))
qed

text \<open>Unpacking a finite pattern and packing it again gives the pattern.\<close>

lemma ieee_pack_unpack:
  assumes "0 < p" "b \<le> infp"
  shows "(case ieee_unpack p q0 b of (m, e) \<Rightarrow> ieee_pack p q0 infp m e) = b"
proof -
  define h where "h = (2 ^ (p - 1) :: nat)"
  define ex where "ex = b div h"
  define f where "f = b mod h"
  have b: "b = ex * h + f" by (simp add: ex_def f_def)
  have h: "0 < h" and f: "f < h" by (simp_all add: h_def f_def)
  have un: "ieee_unpack p q0 b = (if ex = 0 then (f, q0) else (h + f, q0 + int ex - 1))"
    by (simp add: ieee_unpack_def h_def ex_def f_def Let_def)
  show ?thesis
  proof (cases "ex = 0")
    case True
    then have bf: "b = f" using b by simp
    have "bitlen f \<le> p - 1" using f unfolding h_def by (rule bitlen_le)
    then have "ieee_pack p q0 infp f q0 = min infp f" if "0 < f"
      using that assms(1) ieee_pack_exact [OF that, of q0 p q0 q0 infp] by simp
    moreover have "ieee_pack p q0 infp 0 q0 = 0"
      by (simp add: ieee_pack_def)
    ultimately have "ieee_pack p q0 infp f q0 = f"
      using bf assms(2) by (cases "f = 0") auto
    moreover have "ieee_unpack p q0 b = (f, q0)"
      using un True by simp
    ultimately show ?thesis
      using bf by (simp only: prod.case)
  next
    case False
    have "bitlen (h + f) = Suc (p - 1)"
      using f by (intro bitlen_eq) (auto simp: h_def)
    then have bl: "bitlen (h + f) = p" using assms(1) by simp
    have "ieee_pack p q0 infp (h + f) (q0 + int ex - 1) = min infp ((ex - 1) * h + (h + f))"
      using bl h False ieee_pack_exact [of "h + f" "q0 + int ex - 1" p q0 "q0 + int ex - 1" infp]
      by (simp add: h_def nat_diff_distrib')
    moreover have "(ex - 1) * h + (h + f) = b"
      using False b by (cases ex) auto
    ultimately show ?thesis
      using False assms(2) by (simp add: un)
  qed
qed

lemma dbl_mag_make: "mag < 2 ^ 63 \<Longrightarrow> dbl_mag (dbl_make sg mag) = mag"
  by (simp add: dbl_mag_def dbl_make_def unsigned_of_nat take_bit_nat_eq_self del: of_nat_add)

lemma dbl_sign_make: "mag < 2 ^ 63 \<Longrightarrow> dbl_sign (dbl_make sg mag) = sg"
proof -
  assume "mag < 2 ^ 63"
  then have "bit (mag + (if sg then 2 ^ 63 else 0)) 63 = sg"
    by (auto simp: bit_iff_odd div_add_self2)
  then show ?thesis
    by (simp only: dbl_sign_def dbl_make_def bit_simps add.commute) simp
qed

text \<open>An integer of at most 53 bits is a double exactly.\<close>

lemma ieee_pack_int53:
  assumes "0 < m" "m < 2 ^ 53"
  defines "L \<equiv> bitlen m"
  shows "ieee_pack 53 (- 1074) DINF m 0 = (L + 1021) * 2 ^ 52 + m * 2 ^ (53 - L)"
    and "2 ^ 52 \<le> m * 2 ^ (53 - L)" "m * 2 ^ (53 - L) < 2 ^ 53" "0 < L" "L \<le> 53"
proof -
  show L: "0 < L" "L \<le> 53"
    using bitlen_bounds [OF assms(1)] bitlen_le [OF assms(2)] by (auto simp: L_def)
  have "2 ^ (L - 1) \<le> m" "m < 2 ^ L"
    using bitlen_bounds [OF assms(1)] by (auto simp: L_def)
  then have "2 ^ (L - 1) * 2 ^ (53 - L) \<le> m * 2 ^ (53 - L)" "m * 2 ^ (53 - L) < 2 ^ L * 2 ^ (53 - L)"
    by auto
  moreover have "2 ^ (L - 1) * 2 ^ (53 - L) = (2::nat) ^ 52" "2 ^ L * 2 ^ (53 - L) = (2::nat) ^ 53"
    using L by (simp_all flip: power_add)
  ultimately show mant: "2 ^ 52 \<le> m * 2 ^ (53 - L)" "m * 2 ^ (53 - L) < 2 ^ 53"
    by (metis, metis)
  have q: "max (0 + int L - int 53) (- 1074) = int L - 53"
    using L by (simp add: max_def)
  define M where "M = m * 2 ^ (53 - L)"
  have "(L + 1021) * 2 ^ 52 \<le> (1074 :: nat) * 2 ^ 52"
    using L by (intro mult_le_mono1) simp
  moreover have "M < 2 ^ 53" using mant by (simp add: M_def)
  ultimately have "min DINF ((L + 1021) * 2 ^ 52 + M) = (L + 1021) * 2 ^ 52 + M"
    by (simp add: DINF_def)
  moreover have "nat (int L - 53 - (- 1074)) = L + 1021" "nat (0 - (int L - 53)) = 53 - L"
    using L by auto
  moreover have "int L - 53 = max (0 + int (bitlen m) - int 53) (- 1074)"
    using q by (simp add: L_def)
  ultimately show "ieee_pack 53 (- 1074) DINF m 0 = (L + 1021) * 2 ^ 52 + m * 2 ^ (53 - L)"
    using ieee_pack_exact [of m 0 53 "- 1074" "int L - 53" DINF] assms(1) L
    by (simp add: M_def L_def)
qed

lemma dbl_of_int_exact:
  assumes "\<bar>k\<bar> < 2 ^ 53"
  shows "dbl_trunc (dbl_of_int k) = Some k" "dbl_integral (dbl_of_int k)"
    "\<not> dbl_is_nan (dbl_of_int k)" "\<not> dbl_is_inf (dbl_of_int k)"
proof -
  have "dbl_trunc (dbl_of_int k) = Some k \<and> dbl_integral (dbl_of_int k) \<and> dbl_mag (dbl_of_int k) < DINF"
  proof (cases "k = 0")
    case True
    then show ?thesis
      by (simp add: dbl_of_int_def ieee_pack_def dbl_make_def dbl_trunc_def dbl_integral_def
          dbl_mag_def ieee_unpack_def DINF_def)
  next
    case False
    define m where "m = nat \<bar>k\<bar>"
    define L where "L = bitlen m"
    define M where "M = m * 2 ^ (53 - L)"
    have m: "0 < m" "m < 2 ^ 53" using False assms by (auto simp: m_def)
    have P: "ieee_pack 53 (- 1074) DINF m 0 = (L + 1021) * 2 ^ 52 + M" "2 ^ 52 \<le> M" "M < 2 ^ 53" "L \<le> 53"
      using ieee_pack_int53 [OF m] by (simp_all add: L_def M_def)
    define b where "b = (L + 1021) * 2 ^ 52 + M"
    have "(L + 1021) * 2 ^ 52 \<le> (1074 :: nat) * 2 ^ 52"
      using P(4) by (intro mult_le_mono1) simp
    then have b: "b < DINF" "b < 2 ^ 63" using P(3) by (auto simp: DINF_def b_def)
    have mag: "dbl_mag (dbl_of_int k) = b" "dbl_sign (dbl_of_int k) = (k < 0)"
      unfolding dbl_of_int_def m_def [symmetric] P(1) b_def [symmetric]
      using b(2) by (rule dbl_mag_make, rule dbl_sign_make)
    have "b = (L + 1022) * 2 ^ 52 + (M - 2 ^ 52)" using P(2) by (simp add: b_def)
    moreover have "M - 2 ^ 52 < 2 ^ 52" using P(2,3) by simp
    ultimately have "b div 2 ^ 52 = L + 1022" "b mod 2 ^ 52 = M - 2 ^ 52"
      by (metis div_mult_self3 div_less add.right_neutral power_not_zero zero_neq_numeral, metis mod_mult_self3 mod_less)
    then have un: "ieee_unpack 53 (- 1074) b = (M, int L - 53)"
      using P(2) by (simp add: ieee_unpack_def Let_def)
    have v: "(if 0 \<le> int L - 53 then M * 2 ^ nat (int L - 53) else M div 2 ^ nat (- (int L - 53))) = m"
      using P(4) by (cases "L = 53") (auto simp: M_def nat_diff_distrib')
    have i: "0 \<le> int L - 53 \<or> M mod 2 ^ nat (- (int L - 53)) = 0"
      using P(4) by (cases "L = 53") (auto simp: M_def nat_diff_distrib')
    have "(if k < 0 then - int m else int m) = k" by (simp add: m_def)
    with mag un b(1) v i show ?thesis
      by (simp only: dbl_trunc_def dbl_integral_def Let_def prod.case not_less [symmetric] simp_thms if_False)
  qed
  then show "dbl_trunc (dbl_of_int k) = Some k" "dbl_integral (dbl_of_int k)"
    "\<not> dbl_is_nan (dbl_of_int k)" "\<not> dbl_is_inf (dbl_of_int k)"
    by (auto simp: dbl_is_nan_def dbl_is_inf_def)
qed

lemma dbl_of_int_inj: "\<bar>a\<bar> < 2 ^ 53 \<Longrightarrow> \<bar>b\<bar> < 2 ^ 53 \<Longrightarrow> dbl_of_int a = dbl_of_int b \<longleftrightarrow> a = b"
  using dbl_of_int_exact(1) by (metis option.inject)

section \<open>Integral doubles\<close>

lemma bitlen_unique: "0 < n \<Longrightarrow> 2 ^ k \<le> n * 2 \<Longrightarrow> n < 2 ^ k \<Longrightarrow> bitlen n = k"
  by (cases k) (auto intro!: bitlen_eq)

lemma bitlen_shift: "0 < m \<Longrightarrow> bitlen (m * 2 ^ a) = bitlen m + a"
proof (rule bitlen_unique)
  assume m: "0 < m"
  then have b: "2 ^ (bitlen m - 1) \<le> m" "m < 2 ^ bitlen m" "0 < bitlen m"
    using bitlen_bounds by auto
  show "0 < m * 2 ^ a" using m by simp
  have "2 ^ bitlen m \<le> m * 2" using b(1,3) by (cases "bitlen m") auto
  then have "2 ^ bitlen m * 2 ^ a \<le> m * 2 * 2 ^ a" by (rule mult_le_mono1)
  then show "2 ^ (bitlen m + a) \<le> m * 2 ^ a * 2" by (simp add: power_add ac_simps)
  show "m * 2 ^ a < 2 ^ (bitlen m + a)" using b(2) by (simp add: power_add)
qed

text \<open>The two ways to write a value that needs no rounding pack alike.\<close>

lemma ieee_pack_scale:
  assumes "0 < m" "e + int (bitlen m) - int p \<le> e" "q0 \<le> e"
  shows "ieee_pack p q0 infp (m * 2 ^ a) (e - int a) = ieee_pack p q0 infp m e"
proof -
  define q where "q = max (e + int (bitlen m) - int p) q0"
  have qe: "q \<le> e" using assms(2,3) by (simp add: q_def)
  have q': "max (e - int a + int (bitlen (m * 2 ^ a)) - int p) q0 = q"
    using assms(1) by (simp add: bitlen_shift q_def)
  have mant: "(if q \<le> e - int a then m * 2 ^ a * 2 ^ nat (e - int a - q)
      else round_half_even (m * 2 ^ a) (nat (q - (e - int a)))) = m * 2 ^ nat (e - q)"
  proof (cases "q \<le> e - int a")
    case True
    then have "nat (e - q) = a + nat (e - int a - q)" by simp
    then show ?thesis using True by (simp add: power_add)
  next
    case False
    define s where "s = nat (q - (e - int a))"
    have s: "0 < s" "s \<le> a" "nat (e - q) = a - s" using False qe by (auto simp: s_def)
    have "m * 2 ^ a = (m * 2 ^ (a - s)) * 2 ^ s" using s(2) by (simp flip: power_add)
    then have "m * 2 ^ a mod 2 ^ s = 0" "m * 2 ^ a div 2 ^ s = m * 2 ^ (a - s)"
      by (metis mod_mult_self2_is_0, metis nonzero_mult_div_cancel_right power_not_zero zero_neq_numeral)
    then have "round_half_even (m * 2 ^ a) s = m * 2 ^ (a - s)"
      using s(1) by (simp add: round_half_even_def Let_def)
    then show ?thesis using False s(3) by (simp add: s_def)
  qed
  have "ieee_pack p q0 infp (m * 2 ^ a) (e - int a) = min infp (nat (q - q0) * 2 ^ (p - 1) + m * 2 ^ nat (e - q))"
    using assms(1) mant by (simp add: ieee_pack_def Let_def q')
  then show ?thesis
    using ieee_pack_exact [OF assms q_def] by simp
qed

lemma ieee_unpack_bounds:
  assumes "ieee_unpack p q0 b = (m, e)" "0 < p"
  shows "m < 2 ^ p" "q0 \<le> e" "m = 0 \<longleftrightarrow> b = 0"
proof -
  have f: "b mod 2 ^ (p - 1) < 2 ^ (p - 1)" by simp
  have "(2 :: nat) ^ p = 2 * 2 ^ (p - 1)" using assms(2) by (cases p) auto
  with f have "b mod 2 ^ (p - 1) < 2 ^ p" "2 ^ (p - 1) + b mod 2 ^ (p - 1) < 2 ^ p"
    by linarith+
  then show "m < 2 ^ p" "q0 \<le> e"
    using assms(1) by (auto simp: ieee_unpack_def Let_def split: if_splits)
  show "m = 0 \<longleftrightarrow> b = 0"
    using assms(1) by (auto simp: ieee_unpack_def Let_def split: if_splits)
qed

lemma dbl_make_sign_mag: "dbl_make (dbl_sign d) (dbl_mag d) = d"
proof -
  have "unat d = (if dbl_sign d then 2 ^ 63 else 0) + dbl_mag d"
  proof -
    have "unat d < 2 ^ 64" using unsigned_less [of d, where 'a = nat] by simp
    then have "unat d div 2 ^ 63 < 2" by (simp add: div_less_iff_less_mult)
    moreover have "dbl_sign d = odd (unat d div 2 ^ 63)"
    proof -
      have "bit (unat d) 63 = bit d 63" by (simp add: bit_simps)
      then show ?thesis by (simp only: dbl_sign_def bit_iff_odd [of "unat d"])
    qed
    ultimately have "unat d div 2 ^ 63 = (if dbl_sign d then 1 else 0)"
      by (auto elim: oddE)
    then show ?thesis
      using div_mult_mod_eq [of "unat d" "2 ^ 63"] by (cases "dbl_sign d") (auto simp: dbl_mag_def)
  qed
  then have "dbl_make (dbl_sign d) (dbl_mag d) = of_nat (unat d)"
    by (simp only: dbl_make_def)
  then show ?thesis by simp
qed

text \<open>An integral double other than negative zero is the double of its integer.\<close>

lemma dbl_of_int_trunc:
  assumes "dbl_integral d" "d \<noteq> push_bit 63 1" "dbl_trunc d = Some k"
  shows "dbl_of_int k = d"
proof -
  obtain m e where un: "ieee_unpack 53 (- 1074) (dbl_mag d) = (m, e)" by fastforce
  have mag: "dbl_mag d < DINF" and int: "0 \<le> e \<or> m mod 2 ^ nat (- e) = 0"
    using assms(1) un by (auto simp: dbl_integral_def)
  define v where "v = (if 0 \<le> e then m * 2 ^ nat e else m div 2 ^ nat (- e))"
  have k: "k = (if dbl_sign d then - int v else int v)"
    using assms(3) mag un by (simp add: dbl_trunc_def v_def Let_def split: if_splits)
  have b: "m < 2 ^ 53" "- 1074 \<le> e" "m = 0 \<longleftrightarrow> dbl_mag d = 0"
    using ieee_unpack_bounds [OF un] by auto
  have pk: "ieee_pack 53 (- 1074) DINF m e = dbl_mag d"
    using ieee_pack_unpack [of 53 "dbl_mag d" DINF "- 1074"] mag un by simp
  show ?thesis
  proof (cases "m = 0")
    case True
    then have "dbl_mag d = 0" "v = 0" using b(3) by (auto simp: v_def)
    moreover have "\<not> dbl_sign d"
      using assms(2) dbl_make_sign_mag [of d] \<open>dbl_mag d = 0\<close> by (auto simp: dbl_make_def push_bit_eq_mult)
    ultimately show ?thesis
      using k dbl_make_sign_mag [of d] by (simp add: dbl_of_int_def ieee_pack_def)
  next
    case False
    have bl: "bitlen m \<le> 53" using b(1) by (rule bitlen_le)
    have "ieee_pack 53 (- 1074) DINF v 0 = ieee_pack 53 (- 1074) DINF m e \<and> 0 < v"
    proof (cases "0 \<le> e")
      case True
      then show ?thesis
        using ieee_pack_scale [of m e 53 "- 1074" DINF "nat e"] False bl b(2) by (simp add: v_def)
    next
      case neg: False
      then have mv: "m = v * 2 ^ nat (- e)" using int by (simp add: v_def) (metis dvd_div_mult_self mod_0_imp_dvd)
      then have v0: "0 < v" using False by (cases v) auto
      have "bitlen v + nat (- e) \<le> 53" using bl bitlen_shift [OF v0, of "nat (- e)"] mv by simp
      then show ?thesis
        using ieee_pack_scale [of v 0 53 "- 1074" DINF "nat (- e)"] v0 neg mv by simp
    qed
    moreover have "nat \<bar>k\<bar> = v" "v > 0 \<Longrightarrow> (k < 0) = dbl_sign d"
      using k by (auto split: if_splits)
    ultimately show ?thesis
      using pk dbl_make_sign_mag [of d] by (simp add: dbl_of_int_def)
  qed
qed

text \<open>No integer converts to negative zero.\<close>

lemma dbl_of_int_not_neg_zero: "\<bar>k\<bar> < 2 ^ 53 \<Longrightarrow> dbl_of_int k \<noteq> push_bit 63 1"
proof -
  assume k: "\<bar>k\<bar> < 2 ^ 53"
  have "dbl_of_int 0 = 0" "dbl_trunc (push_bit 63 1) = Some 0"
    by (simp_all add: dbl_of_int_def ieee_pack_def dbl_make_def dbl_trunc_def dbl_mag_def DINF_def
        ieee_unpack_def push_bit_eq_mult)
  then show ?thesis
    using dbl_of_int_exact(1) [OF k] by (cases "k = 0") (auto simp: push_bit_eq_mult)
qed

end
