(* ===== verification/LuaValue.thy ===== *)
theory LuaValue
  imports LuaNumber
begin

text \<open>
  The Lua values the C modules read from and push to the Lua stack. A table is the list of its
  entries in the order in which \<open>lua_next\<close> visits them. Tables have no metatable, and a table is
  a tree: a cyclic table has no representation here.
\<close>

datatype lua_value =
    LNil
  | LBool bool
  | LNumber lua_Number
  | LString "byte list"
  | LTable "(lua_value \<times> lua_value) list"
  | LNull   \<comment> \<open>the light userdata with the null pointer\<close>
  | LUserdata "uint32 option"   \<comment> \<open>other userdata: the first word of the block, if it can be read\<close>
  | LOther   \<comment> \<open>functions, threads\<close>

type_synonym lua_table = "(lua_value \<times> lua_value) list"

text \<open>
  Raw equality of keys: numbers by value, distinct objects never equal (every table that a decoder
  builds is a new object).
\<close>

fun lua_keyeq :: "lua_value \<Rightarrow> lua_value \<Rightarrow> bool" where
  "lua_keyeq (LNumber a) (LNumber b) = dbl_eq a b"
| "lua_keyeq (LTable _) _ = False"
| "lua_keyeq _ (LTable _) = False"
| "lua_keyeq LOther _ = False"
| "lua_keyeq (LUserdata _) _ = False"
| "lua_keyeq a b = (a = b)"

datatype lua_error = LuaNilIndex | LuaNaNIndex

fun tset :: "lua_table \<Rightarrow> lua_value \<Rightarrow> lua_value \<Rightarrow> lua_table" where
  "tset [] k v = (if v = LNil then [] else [(k, v)])"
| "tset ((k', v') # t) k v =
     (if lua_keyeq k' k then (if v = LNil then t else (k', v) # t) else (k', v') # tset t k v)"

text \<open>\<open>lua_settable\<close>: raises on a nil or NaN key, removes the entry on a nil value.\<close>

definition lua_settable :: "lua_table \<Rightarrow> lua_value \<Rightarrow> lua_value \<Rightarrow> lua_error + lua_table" where
  "lua_settable t k v =
     (case k of LNil \<Rightarrow> Inl LuaNilIndex
      | LNumber n \<Rightarrow> if dbl_is_nan n then Inl LuaNaNIndex else Inr (tset t k v)
      | _ \<Rightarrow> Inr (tset t k v))"

fun lua_gettable :: "lua_table \<Rightarrow> lua_value \<Rightarrow> lua_value" where
  "lua_gettable [] k = LNil"
| "lua_gettable ((k', v) # t) k = (if lua_keyeq k' k then v else lua_gettable t k)"

text \<open>
  What a table guarantees: no nil or NaN keys, no nil values, keys pairwise different.
\<close>

fun valid_key :: "lua_value \<Rightarrow> bool" where
  "valid_key LNil = False"
| "valid_key (LNumber n) = (\<not> dbl_is_nan n)"
| "valid_key _ = True"

definition table_wf :: "lua_table \<Rightarrow> bool" where
  "table_wf t \<longleftrightarrow> (\<forall>(k, v) \<in> set t. valid_key k \<and> v \<noteq> LNil) \<and>
     sorted_wrt (\<lambda>x y. \<not> lua_keyeq (fst x) (fst y)) t"

text \<open>An array: the keys are \<open>1..n\<close>, in that order.\<close>

definition proper_array :: "lua_table \<Rightarrow> bool" where
  "proper_array t \<longleftrightarrow> map fst t = map (\<lambda>i. LNumber (dbl_of_int (int i + 1))) [0..<length t]"

lemma dbl_eq_sym: "dbl_eq a b = dbl_eq b a"
  by (auto simp: dbl_eq_def)

lemma lua_settable_ok: "valid_key k \<Longrightarrow> lua_settable t k v = Inr (tset t k v)"
  by (cases k) (auto simp: lua_settable_def)

text \<open>Setting a key that no entry has appends the entry.\<close>

lemma tset_fresh:
  "\<forall>(k', v') \<in> set t. \<not> lua_keyeq k' k \<Longrightarrow> v \<noteq> LNil \<Longrightarrow> tset t k v = t @ [(k, v)]"
  by (induction t k v rule: tset.induct) auto

lemma lua_gettable_entry:
  "sorted_wrt (\<lambda>x y. \<not> lua_keyeq (fst x) (fst y)) t \<Longrightarrow> (k, v) \<in> set t \<Longrightarrow> lua_keyeq k k \<Longrightarrow>
   lua_gettable t k = v"
  by (induction t) auto

end
