(* ===== verification/Msgpack.thy ===== *)
theory Msgpack
  imports LuaValue
begin

text \<open>
  The MessagePack codec of the Lua runtime (\<open>src/LuaObject/lua_cmsgpack.c\<close>): the byte buffer, the
  parsing cursor, the encoders of each Lua type, the decoder, and \<open>pack\<close>/\<open>unpack\<close> themselves.
  \<open>None\<close> stands for behaviour that C leaves undefined: a write outside the buffer, or the
  conversion to \<open>int64_t\<close> of a number that does not fit. Allocation is taken to succeed: the code
  does not check it.
\<close>

section \<open>String buffer\<close>

record mp_buf =
  mp_b :: "byte list"   \<comment> \<open>the allocated block\<close>
  mp_len :: nat
  mp_free :: nat

definition mp_buf_new :: mp_buf where
  "mp_buf_new = \<lparr>mp_b = [], mp_len = 0, mp_free = 0\<rparr>"

text \<open>\<open>junk\<close> is what fresh memory holds.\<close>

definition mp_buf_append :: "byte \<Rightarrow> mp_buf \<Rightarrow> byte list \<Rightarrow> mp_buf option" where
  "mp_buf_append junk buf s =
     (let len = length s;
          buf = (if mp_free buf < len
                 then let newlen = mp_len buf + len
                      in buf\<lparr>mp_b := resize junk (newlen * 2) (mp_b buf), mp_free := newlen\<rparr>
                 else buf)
      in case block_write (mp_b buf) (mp_len buf) s of None \<Rightarrow> None
         | Some b \<Rightarrow> Some \<lparr>mp_b = b, mp_len = mp_len buf + len, mp_free = mp_free buf - len\<rparr>)"

section \<open>Low level encoding\<close>

definition mp_bytes_hdr :: "size_t \<Rightarrow> byte list" where
  "mp_bytes_hdr len =
     (if len < 32 then [0xa0 OR ucast (len AND 0xff)]
      else if len \<le> 0xffff then
        [0xda, ucast (drop_bit 8 (len AND 0xff00)), ucast (len AND 0xff)]
      else
        [0xdb, ucast (drop_bit 24 (len AND 0xff000000)), ucast (drop_bit 16 (len AND 0xff0000)),
         ucast (drop_bit 8 (len AND 0xff00)), ucast (len AND 0xff)])"

definition mp_encode_bytes :: "byte \<Rightarrow> byte list \<Rightarrow> mp_buf \<Rightarrow> mp_buf option" where
  "mp_encode_bytes junk s buf =
     Option.bind (mp_buf_append junk buf (mp_bytes_hdr (of_nat (length s))))
       (\<lambda>buf. mp_buf_append junk buf s)"

text \<open>
  The bytes of a float or double in memory (the machine is little endian), and back.
\<close>

definition le_bytes32 :: "uint32 \<Rightarrow> byte list" where
  "le_bytes32 w = [ucast w, ucast (drop_bit 8 w), ucast (drop_bit 16 w), ucast (drop_bit 24 w)]"

definition le_bytes64 :: "uint64 \<Rightarrow> byte list" where
  "le_bytes64 w =
     [ucast w, ucast (drop_bit 8 w), ucast (drop_bit 16 w), ucast (drop_bit 24 w),
      ucast (drop_bit 32 w), ucast (drop_bit 40 w), ucast (drop_bit 48 w), ucast (drop_bit 56 w)]"

definition le_word32 :: "byte list \<Rightarrow> uint32" where
  "le_word32 b = push_bit 24 (ucast (b ! 3)) OR push_bit 16 (ucast (b ! 2)) OR
     push_bit 8 (ucast (b ! 1)) OR ucast (b ! 0)"

definition le_word64 :: "byte list \<Rightarrow> uint64" where
  "le_word64 b = push_bit 56 (ucast (b ! 7)) OR push_bit 48 (ucast (b ! 6)) OR
     push_bit 40 (ucast (b ! 5)) OR push_bit 32 (ucast (b ! 4)) OR push_bit 24 (ucast (b ! 3)) OR
     push_bit 16 (ucast (b ! 2)) OR push_bit 8 (ucast (b ! 1)) OR ucast (b ! 0)"

text \<open>\<open>memrevifle\<close> on a little endian machine: swap from both ends inwards.\<close>

fun memrev_loop :: "byte list \<Rightarrow> nat \<Rightarrow> nat \<Rightarrow> nat \<Rightarrow> byte list" where
  "memrev_loop b p e 0 = b"
| "memrev_loop b p e (Suc len) = memrev_loop (b[p := b ! e, e := b ! p]) (p + 1) (e - 1) len"

definition memrevifle :: "byte list \<Rightarrow> byte list" where
  "memrevifle b = memrev_loop b 0 (length b - 1) (length b div 2)"

definition mp_encode_double :: "byte \<Rightarrow> lua_Number \<Rightarrow> mp_buf \<Rightarrow> mp_buf option" where
  "mp_encode_double junk d buf =
     (let f = flt_of_dbl d
      in if dbl_eq d (dbl_of_flt f) then mp_buf_append junk buf (0xca # memrevifle (le_bytes32 f))
         else mp_buf_append junk buf (0xcb # memrevifle (le_bytes64 d)))"

definition mp_int_bytes :: "uint64 \<Rightarrow> byte list" where
  "mp_int_bytes n =
     (let s = sint n;
          b8 = ucast (n AND 0xff);
          b16 = [ucast (drop_bit 8 (n AND 0xff00)), b8];
          b32 = [ucast (drop_bit 24 (n AND 0xff000000)), ucast (drop_bit 16 (n AND 0xff0000))] @ b16;
          b64 = [ucast (drop_bit 56 (n AND 0xff00000000000000)),
                 ucast (drop_bit 48 (n AND 0xff000000000000)),
                 ucast (drop_bit 40 (n AND 0xff0000000000)),
                 ucast (drop_bit 32 (n AND 0xff00000000))] @ b32
      in if s \<ge> 0 then
           (if s \<le> 127 then [ucast (n AND 0x7f)]
            else if s \<le> 0xff then [0xcc, b8]
            else if s \<le> 0xffff then 0xcd # b16
            else if s \<le> 0xffffffff then 0xce # b32
            else 0xcf # b64)
         else
           (if s \<ge> - 32 then [ucast n]
            else if s \<ge> - 128 then [0xd0, b8]
            else if s \<ge> - 32768 then 0xd1 # b16
            else if s \<ge> - 2147483648 then 0xd2 # b32
            else 0xd3 # b64))"

definition mp_encode_int :: "byte \<Rightarrow> uint64 \<Rightarrow> mp_buf \<Rightarrow> mp_buf option" where
  "mp_encode_int junk n buf = mp_buf_append junk buf (mp_int_bytes n)"

definition mp_container_bytes :: "byte \<Rightarrow> byte \<Rightarrow> byte \<Rightarrow> uint64 \<Rightarrow> byte list" where
  "mp_container_bytes fix b16 b32 n =
     (if sint n \<le> 15 then [fix OR ucast (n AND 0xf)]
      else if sint n \<le> 65535 then
        [b16, ucast (drop_bit 8 (n AND 0xff00)), ucast (n AND 0xff)]
      else
        [b32, ucast (drop_bit 24 (n AND 0xff000000)), ucast (drop_bit 16 (n AND 0xff0000)),
         ucast (drop_bit 8 (n AND 0xff00)), ucast (n AND 0xff)])"

definition mp_encode_array :: "byte \<Rightarrow> uint64 \<Rightarrow> mp_buf \<Rightarrow> mp_buf option" where
  "mp_encode_array junk n buf = mp_buf_append junk buf (mp_container_bytes 0x90 0xdc 0xdd n)"

definition mp_encode_map :: "byte \<Rightarrow> uint64 \<Rightarrow> mp_buf \<Rightarrow> mp_buf option" where
  "mp_encode_map junk n buf = mp_buf_append junk buf (mp_container_bytes 0x80 0xde 0xdf n)"

section \<open>Encoding of Lua types\<close>

definition mp_encode_lua_bool :: "byte \<Rightarrow> bool \<Rightarrow> mp_buf \<Rightarrow> mp_buf option" where
  "mp_encode_lua_bool junk b buf = mp_buf_append junk buf [if b then 0xc3 else 0xc2]"

definition mp_encode_lua_null :: "byte \<Rightarrow> mp_buf \<Rightarrow> mp_buf option" where
  "mp_encode_lua_null junk buf = mp_buf_append junk buf [0xc0]"

definition mp_encode_lua_number :: "byte \<Rightarrow> lua_Number \<Rightarrow> mp_buf \<Rightarrow> mp_buf option" where
  "mp_encode_lua_number junk n buf =
     (if \<not> dbl_floor_eq n then mp_encode_double junk n buf
      else case dbl_to_int64 n of None \<Rightarrow> None | Some k \<Rightarrow> mp_encode_int junk k buf)"

text \<open>
  The loop of \<open>table_is_an_array\<close>: \<open>idx\<close> holds the last key seen, not the greatest one. \<open>None\<close>
  when a key does not fit into \<open>long\<close>.
\<close>

fun is_array_loop :: "lua_table \<Rightarrow> int \<Rightarrow> int \<Rightarrow> bool option" where
  "is_array_loop [] cnt idx = Some (idx = cnt)"
| "is_array_loop ((k, v) # t) cnt idx =
     (case k of
        LNumber n \<Rightarrow>
          (case dbl_to_int64 n of None \<Rightarrow> None
           | Some w \<Rightarrow>
              if \<not> dbl_eq (dbl_of_int (sint w)) n \<or> sint w < 1 then Some False
              else is_array_loop t (cnt + 1) (sint w))
      | _ \<Rightarrow> Some False)"

definition table_is_an_array :: "lua_table \<Rightarrow> bool option" where
  "table_is_an_array t = is_array_loop t 0 0"

text \<open>
  The loops over the elements take the encoder of the next nesting level as an argument;
  \<open>rawlen\<close> stands for the length operator \<open>lua_rawlen\<close> of the Lua core.
\<close>

primrec array_items ::
  "(lua_value \<Rightarrow> mp_buf \<Rightarrow> mp_buf option) \<Rightarrow> lua_table \<Rightarrow> int \<Rightarrow> nat \<Rightarrow> mp_buf \<Rightarrow> mp_buf option" where
  "array_items enc t j 0 buf = Some buf"
| "array_items enc t j (Suc n) buf =
     Option.bind (enc (lua_gettable t (LNumber (dbl_of_int j))) buf) (array_items enc t (j + 1) n)"

definition mp_encode_lua_table_as_array ::
  "byte \<Rightarrow> (lua_table \<Rightarrow> nat) \<Rightarrow> (lua_value \<Rightarrow> mp_buf \<Rightarrow> mp_buf option) \<Rightarrow> lua_table \<Rightarrow>
   mp_buf \<Rightarrow> mp_buf option" where
  "mp_encode_lua_table_as_array junk rawlen enc t buf =
     Option.bind (mp_encode_array junk (of_nat (rawlen t)) buf) (array_items enc t 1 (rawlen t))"

primrec map_items ::
  "(lua_value \<Rightarrow> mp_buf \<Rightarrow> mp_buf option) \<Rightarrow> lua_table \<Rightarrow> mp_buf \<Rightarrow> mp_buf option" where
  "map_items enc [] buf = Some buf"
| "map_items enc (e # t) buf =
     Option.bind (Option.bind (enc (fst e) buf) (enc (snd e))) (map_items enc t)"

definition mp_encode_lua_table_as_map ::
  "byte \<Rightarrow> (lua_value \<Rightarrow> mp_buf \<Rightarrow> mp_buf option) \<Rightarrow> lua_table \<Rightarrow> mp_buf \<Rightarrow> mp_buf option" where
  "mp_encode_lua_table_as_map junk enc t buf =
     Option.bind (mp_encode_map junk (of_nat (length t)) buf) (map_items enc t)"

definition mp_encode_lua_table ::
  "byte \<Rightarrow> (lua_table \<Rightarrow> nat) \<Rightarrow> (lua_value \<Rightarrow> mp_buf \<Rightarrow> mp_buf option) \<Rightarrow> lua_table \<Rightarrow>
   mp_buf \<Rightarrow> mp_buf option" where
  "mp_encode_lua_table junk rawlen enc t buf =
     (case table_is_an_array t of None \<Rightarrow> None
      | Some True \<Rightarrow> mp_encode_lua_table_as_array junk rawlen enc t buf
      | Some False \<Rightarrow> mp_encode_lua_table_as_map junk enc t buf)"

definition LUACMSGPACK_MAX_NESTING :: nat where
  "LUACMSGPACK_MAX_NESTING = 16"

text \<open>
  \<open>mp_encode_lua_type\<close>: the first argument after \<open>rawlen\<close> is the number of nesting levels left,
  that is \<open>LUACMSGPACK_MAX_NESTING - level\<close>; at level 16 a table is encoded as nil.
\<close>

fun mp_encode_lua_type ::
  "byte \<Rightarrow> (lua_table \<Rightarrow> nat) \<Rightarrow> nat \<Rightarrow> lua_value \<Rightarrow> mp_buf \<Rightarrow> mp_buf option" where
  "mp_encode_lua_type junk rawlen left (LString s) buf = mp_encode_bytes junk s buf"
| "mp_encode_lua_type junk rawlen left (LBool b) buf = mp_encode_lua_bool junk b buf"
| "mp_encode_lua_type junk rawlen left (LNumber n) buf = mp_encode_lua_number junk n buf"
| "mp_encode_lua_type junk rawlen (Suc left) (LTable t) buf =
     mp_encode_lua_table junk rawlen (mp_encode_lua_type junk rawlen left) t buf"
| "mp_encode_lua_type junk rawlen left v buf = mp_encode_lua_null junk buf"

definition mp_pack :: "byte \<Rightarrow> (lua_table \<Rightarrow> nat) \<Rightarrow> lua_value \<Rightarrow> byte list option" where
  "mp_pack junk rawlen v =
     map_option (\<lambda>buf. take (mp_len buf) (mp_b buf))
       (mp_encode_lua_type junk rawlen LUACMSGPACK_MAX_NESTING v mp_buf_new)"

section \<open>Decoding\<close>

record mp_cur =
  cur_p :: "byte list"   \<comment> \<open>the input from the current position to its end\<close>
  cur_left :: nat

definition mp_cur_new :: "byte list \<Rightarrow> mp_cur" where
  "mp_cur_new s = \<lparr>cur_p = s, cur_left = length s\<rparr>"

definition mp_cur_consume :: "mp_cur \<Rightarrow> nat \<Rightarrow> mp_cur" where
  "mp_cur_consume c n = \<lparr>cur_p = drop n (cur_p c),
     cur_left = (if n \<le> cur_left c then cur_left c - n else 2 ^ 64 + cur_left c - n)\<rparr>"

text \<open>
  Why a decoding stops: the two error codes of the cursor, the errors that \<open>lua_settable\<close>
  raises, \<open>MP_OVERREAD\<close>, a read behind the end of the input, and \<open>MP_INT_OVERFLOW\<close>, overflow of
  the \<open>int\<close> that counts the elements of an array.
\<close>

datatype mp_err = MP_CUR_ERROR_EOF | MP_CUR_ERROR_BADFMT | MP_OVERREAD | MP_INT_OVERFLOW | MP_LUA_ERROR lua_error

type_synonym mp_res = "mp_err + lua_value \<times> mp_cur"

definition mp_cur_need :: "mp_cur \<Rightarrow> nat \<Rightarrow> mp_res option \<Rightarrow> mp_res option" where
  "mp_cur_need c n k = (if cur_left c < n then Some (Inl MP_CUR_ERROR_EOF) else k)"

text \<open>The code reads \<open>c->p[0]\<close> to \<open>c->p[n - 1]\<close>: the continuation runs if the input has these bytes.\<close>

definition mp_read :: "mp_cur \<Rightarrow> nat \<Rightarrow> mp_res option \<Rightarrow> mp_res option" where
  "mp_read c n k = (if n \<le> length (cur_p c) then k else Some (Inl MP_OVERREAD))"

text \<open>Push a number and consume \<open>n\<close> bytes.\<close>

definition push_int :: "mp_cur \<Rightarrow> nat \<Rightarrow> int \<Rightarrow> mp_res option" where
  "push_int c n k = Some (Inr (LNumber (dbl_of_int k), mp_cur_consume c n))"

definition push_lstring :: "mp_cur \<Rightarrow> nat \<Rightarrow> size_t \<Rightarrow> mp_res option" where
  "push_lstring c off l =
     (if unat l \<le> length (drop off (cur_p c))
      then Some (Inr (LString (take (unat l) (drop off (cur_p c))), mp_cur_consume c (off + unat l)))
      else Some (Inl MP_OVERREAD))"

text \<open>
  The numbers read behind the type byte, in a continuation of \<open>mp_read\<close>. The lengths of the 16- and 32-bit formats are computed in
  \<open>int\<close> and converted to \<open>size_t\<close>: from \<open>2 ^ 31\<close> on they are sign-extended.
\<close>

definition be16 :: "byte list \<Rightarrow> uint32" where
  "be16 p = push_bit 8 (ucast (p ! 1)) OR ucast (p ! 2)"

definition be32 :: "byte list \<Rightarrow> uint32" where
  "be32 p = push_bit 24 (ucast (p ! 1)) OR push_bit 16 (ucast (p ! 2)) OR
     push_bit 8 (ucast (p ! 3)) OR ucast (p ! 4)"

definition be64 :: "byte list \<Rightarrow> uint64" where
  "be64 p = push_bit 56 (ucast (p ! 1)) OR push_bit 48 (ucast (p ! 2)) OR
     push_bit 40 (ucast (p ! 3)) OR push_bit 32 (ucast (p ! 4)) OR push_bit 24 (ucast (p ! 5)) OR
     push_bit 16 (ucast (p ! 6)) OR push_bit 8 (ucast (p ! 7)) OR ucast (p ! 8)"

text \<open>The loops over the elements; \<open>index++\<close> comes before the element is decoded.\<close>

primrec mp_decode_to_lua_array ::
  "(mp_cur \<Rightarrow> mp_res option) \<Rightarrow> nat \<Rightarrow> int \<Rightarrow> lua_table \<Rightarrow> mp_cur \<Rightarrow> mp_res option" where
  "mp_decode_to_lua_array dec 0 index t c = Some (Inr (LTable t, c))"
| "mp_decode_to_lua_array dec (Suc len) index t c =
     (if index = 2 ^ 31 - 1 then Some (Inl MP_INT_OVERFLOW) else case dec c of None \<Rightarrow> None
      | Some (Inl e) \<Rightarrow> Some (Inl e)
      | Some (Inr (v, c')) \<Rightarrow>
         (case lua_settable t (LNumber (dbl_of_int index)) v of
            Inl e \<Rightarrow> Some (Inl (MP_LUA_ERROR e))
          | Inr t' \<Rightarrow> mp_decode_to_lua_array dec len (index + 1) t' c'))"

primrec mp_decode_to_lua_hash ::
  "(mp_cur \<Rightarrow> mp_res option) \<Rightarrow> nat \<Rightarrow> lua_table \<Rightarrow> mp_cur \<Rightarrow> mp_res option" where
  "mp_decode_to_lua_hash dec 0 t c = Some (Inr (LTable t, c))"
| "mp_decode_to_lua_hash dec (Suc len) t c =
     (case dec c of None \<Rightarrow> None
      | Some (Inl e) \<Rightarrow> Some (Inl e)
      | Some (Inr (k, c')) \<Rightarrow>
         (case dec c' of None \<Rightarrow> None
          | Some (Inl e) \<Rightarrow> Some (Inl e)
          | Some (Inr (v, c'')) \<Rightarrow>
             (case lua_settable t k v of
                Inl e \<Rightarrow> Some (Inl (MP_LUA_ERROR e))
              | Inr t' \<Rightarrow> mp_decode_to_lua_hash dec len t' c'')))"

text \<open>
  One call of \<open>mp_decode_to_lua_type\<close>, with the recursive call as an argument.
\<close>

definition mp_decode_step :: "(mp_cur \<Rightarrow> mp_res option) \<Rightarrow> mp_cur \<Rightarrow> mp_res option" where
  "mp_decode_step dec c = mp_cur_need c 1 (mp_read c 1
     (let p = cur_p c; b = p ! 0
      in if b = 0xcc then mp_cur_need c 2 (mp_read c 2 (push_int c 2 (uint (p ! 1))))
         else if b = 0xd0 then mp_cur_need c 2 (mp_read c 2 (push_int c 2 (sint (p ! 1))))
         else if b = 0xcd then mp_cur_need c 3 (mp_read c 3 (push_int c 3 (uint (be16 p))))
         else if b = 0xd1 then mp_cur_need c 3
           (mp_read c 3 (push_int c 3 (sint ((scast (push_bit 8 (ucast (p ! 1)) :: uint16) :: uint32) OR ucast (p ! 2)))))
         else if b = 0xce then mp_cur_need c 5 (mp_read c 5 (push_int c 5 (uint (be32 p))))
         else if b = 0xd2 then mp_cur_need c 5 (mp_read c 5 (push_int c 5 (sint (be32 p))))
         else if b = 0xcf then mp_cur_need c 9 (mp_read c 9 (push_int c 9 (uint (be64 p))))
         else if b = 0xd3 then mp_cur_need c 9 (mp_read c 9 (push_int c 9 (sint (be64 p))))
         else if b = 0xc0 then Some (Inr (LNil, mp_cur_consume c 1))
         else if b = 0xc3 then Some (Inr (LBool True, mp_cur_consume c 1))
         else if b = 0xc2 then Some (Inr (LBool False, mp_cur_consume c 1))
         else if b = 0xca then mp_cur_need c 5
           (mp_read c 5 (Some (Inr (LNumber (dbl_of_flt (le_word32 (memrevifle (take 4 (drop 1 p))))), mp_cur_consume c 5))))
         else if b = 0xcb then mp_cur_need c 9
           (mp_read c 9 (Some (Inr (LNumber (le_word64 (memrevifle (take 8 (drop 1 p)))), mp_cur_consume c 9))))
         else if b = 0xda then mp_cur_need c 3
           (mp_read c 3 (let l = scast (be16 p) :: size_t in mp_cur_need c (unat (3 + l)) (push_lstring c 3 l)))
         else if b = 0xdb then mp_cur_need c 5
           (mp_read c 5 (let l = scast (be32 p) :: size_t in mp_cur_need c (unat (5 + l)) (push_lstring c 5 l)))
         else if b = 0xdc then mp_cur_need c 3
           (mp_read c 3 (mp_decode_to_lua_array dec (unat (scast (be16 p) :: size_t)) 1 [] (mp_cur_consume c 3)))
         else if b = 0xdd then mp_cur_need c 5
           (mp_read c 5 (mp_decode_to_lua_array dec (unat (scast (be32 p) :: size_t)) 1 [] (mp_cur_consume c 5)))
         else if b = 0xde then mp_cur_need c 3
           (mp_read c 3 (mp_decode_to_lua_hash dec (unat (scast (be16 p) :: size_t)) [] (mp_cur_consume c 3)))
         else if b = 0xdf then mp_cur_need c 5
           (mp_read c 5 (mp_decode_to_lua_hash dec (unat (scast (be32 p) :: size_t)) [] (mp_cur_consume c 5)))
         else if b AND 0x80 = 0 then push_int c 1 (uint b)
         else if b AND 0xe0 = 0xe0 then push_int c 1 (sint b)
         else if b AND 0xe0 = 0xa0 then
           (let l = ucast (b AND 0x1f) :: size_t in mp_cur_need c (unat (1 + l)) (push_lstring c 1 l))
         else if b AND 0xf0 = 0x90 then
           mp_decode_to_lua_array dec (unat (b AND 0xf)) 1 [] (mp_cur_consume c 1)
         else if b AND 0xf0 = 0x80 then
           mp_decode_to_lua_hash dec (unat (b AND 0xf)) [] (mp_cur_consume c 1)
         else Some (Inl MP_CUR_ERROR_BADFMT)))"

text \<open>The recursion; \<open>fuel\<close> bounds its depth and \<open>None\<close> says that it was too small.\<close>

primrec mp_decode_to_lua_type :: "nat \<Rightarrow> mp_cur \<Rightarrow> mp_res option" where
  "mp_decode_to_lua_type 0 c = None"
| "mp_decode_to_lua_type (Suc fuel) c = mp_decode_step (mp_decode_to_lua_type fuel) c"

datatype mp_unpack_err = NeedsString | MissingBytes | BadFormat | ExtraBytes | Overread | IntOverflow | LuaError lua_error

text \<open>
  \<open>mp_unpack\<close>: \<open>tostr\<close> stands for the conversion of a number argument to a string by
  \<open>lua_tolstring\<close>.
\<close>

definition mp_unpack :: "(lua_Number \<Rightarrow> byte list) \<Rightarrow> nat \<Rightarrow> lua_value \<Rightarrow> (mp_unpack_err + lua_value) option" where
  "mp_unpack tostr fuel v =
     (case (case v of LString s \<Rightarrow> Some s | LNumber n \<Rightarrow> Some (tostr n) | _ \<Rightarrow> None) of
        None \<Rightarrow> Some (Inl NeedsString)
      | Some s \<Rightarrow>
         (case mp_decode_to_lua_type fuel (mp_cur_new s) of None \<Rightarrow> None
          | Some (Inl MP_CUR_ERROR_EOF) \<Rightarrow> Some (Inl MissingBytes)
          | Some (Inl MP_CUR_ERROR_BADFMT) \<Rightarrow> Some (Inl BadFormat)
          | Some (Inl MP_OVERREAD) \<Rightarrow> Some (Inl Overread)
          | Some (Inl MP_INT_OVERFLOW) \<Rightarrow> Some (Inl IntOverflow)
          | Some (Inl (MP_LUA_ERROR e)) \<Rightarrow> Some (Inl (LuaError e))
          | Some (Inr (v, c)) \<Rightarrow>
             if cur_left c \<noteq> 0 then Some (Inl ExtraBytes) else Some (Inr v)))"

section \<open>The buffer\<close>

definition mp_buf_inv :: "mp_buf \<Rightarrow> bool" where
  "mp_buf_inv buf \<longleftrightarrow> mp_len buf + mp_free buf \<le> length (mp_b buf)"

definition mp_contents :: "mp_buf \<Rightarrow> byte list" where
  "mp_contents buf = take (mp_len buf) (mp_b buf)"

interpretation mpb: append_buffer mp_buf_inv mp_contents "mp_buf_append junk" for junk
proof
  fix b :: mp_buf and xs :: "byte list"
  assume inv: "mp_buf_inv b"
  show "\<exists>b'. mp_buf_append junk b xs = Some b' \<and> mp_buf_inv b' \<and> mp_contents b' = mp_contents b @ xs"
  proof (cases "mp_free b < length xs")
    case True
    with inv show ?thesis
      by (auto simp: mp_buf_append_def block_write_def mp_buf_inv_def mp_contents_def Let_def take_resize)
  next
    case False
    with inv show ?thesis
      by (auto simp: mp_buf_append_def block_write_def mp_buf_inv_def mp_contents_def Let_def)
  qed
qed

end
