(* ===== verification/Msgpack_Wire.thy ===== *)
theory Msgpack_Wire
  imports Msgpack
begin

text \<open>
  The bytes that \<open>pack\<close> produces, as a function of the value alone: \<open>wire\<close>. The encoders of
  \<open>lua_cmsgpack.c\<close>, which write into a growing buffer, produce exactly these bytes and never
  write outside the buffer. The theory also holds the facts on bytes and words the decoder needs.
\<close>

section \<open>Bytes of words\<close>

text \<open>The bytes of a word, most significant first.\<close>

definition be_bytes32 :: "uint32 \<Rightarrow> byte list" where
  "be_bytes32 w = [ucast (drop_bit 24 w), ucast (drop_bit 16 w), ucast (drop_bit 8 w), ucast w]"

definition be_bytes64 :: "uint64 \<Rightarrow> byte list" where
  "be_bytes64 w =
     [ucast (drop_bit 56 w), ucast (drop_bit 48 w), ucast (drop_bit 40 w), ucast (drop_bit 32 w),
      ucast (drop_bit 24 w), ucast (drop_bit 16 w), ucast (drop_bit 8 w), ucast w]"

lemma memrevifle_4: "memrevifle [a, b, c, d] = [d, c, b, a]"
proof -
  have "memrevifle [a, b, c, d] = memrev_loop [a, b, c, d] 0 3 (Suc (Suc 0))"
    by (simp add: memrevifle_def)
  then show ?thesis by simp
qed

lemma memrevifle_8: "memrevifle [a, b, c, d, e, f, g, h] = [h, g, f, e, d, c, b, a]"
proof -
  have "memrevifle [a, b, c, d, e, f, g, h] = memrev_loop [a, b, c, d, e, f, g, h] 0 7 (Suc (Suc (Suc (Suc 0))))"
    by (simp add: memrevifle_def)
  then show ?thesis by simp
qed

lemma memrevifle_bytes:
  "memrevifle (le_bytes32 v) = be_bytes32 v" "memrevifle (le_bytes64 w) = be_bytes64 w"
  by (simp_all add: le_bytes32_def le_bytes64_def be_bytes32_def be_bytes64_def memrevifle_4 memrevifle_8)

lemma memrevifle_word:
  "le_word32 (memrevifle [a, b, c, d]) = be32 [0, a, b, c, d]"
  "le_word64 (memrevifle [a, b, c, d, e, f, g, h]) = be64 [0, a, b, c, d, e, f, g, h]"
  by (simp_all add: memrevifle_4 memrevifle_8 le_word32_def le_word64_def be32_def be64_def)

lemma byte_mask: "ucast (drop_bit k ((n :: uint64) AND push_bit k (mask 8))) = (ucast (drop_bit k n) :: byte)"
  by (rule bit_eqI) (auto simp: bit_simps dest: bit_imp_le_length)

lemma byte_at: "push_bit k (ucast (ucast (drop_bit k w) :: byte)) = (w :: 'a::len word) AND push_bit k (mask 8)"
  by (rule bit_eqI) (auto simp: bit_simps)

lemma byte_at0: "ucast (ucast w :: byte) = (w :: 'a::len word) AND mask 8"
  by (rule bit_eqI) (auto simp: bit_simps)

lemma all_ones: "(w :: uint32) AND 4294967295 = w" "(v :: uint64) AND 18446744073709551615 = v"
proof -
  have "(4294967295 :: uint32) = - 1" "(18446744073709551615 :: uint64) = - 1" by simp_all
  then show "w AND 4294967295 = w" "v AND 18446744073709551615 = v" by (simp_all only: and.right_neutral)
qed

lemma be64_bytes: "be64 (x # be_bytes64 w @ r) = w"
  by (simp add: be64_def be_bytes64_def nth_Cons' byte_at)
     (simp add: byte_at0 mask_eq_exp_minus_1 push_bit_eq_mult all_ones flip: bit.conj_disj_distrib)

lemma be32_bytes: "be32 (x # be_bytes32 w @ r) = w"
  by (simp add: be32_def be_bytes32_def nth_Cons' byte_at)
     (simp add: byte_at0 mask_eq_exp_minus_1 push_bit_eq_mult all_ones flip: bit.conj_disj_distrib)

lemma ucast_drop: "k + 8 \<le> 32 \<Longrightarrow> (ucast (drop_bit k (n :: uint64)) :: byte) = ucast (drop_bit k (ucast n :: uint32))"
  by (rule bit_eqI) (auto simp: bit_simps)

lemma be32_low: "be32 (x # ucast (drop_bit 24 (n::uint64)) # ucast (drop_bit 16 n) # ucast (drop_bit 8 n) # ucast n # r) = ucast n"
  using be32_bytes [of x "ucast n" r] ucast_drop [of 0 n] by (simp add: be_bytes32_def ucast_drop)

lemma be16_low: "be16 (x # ucast (drop_bit 8 (n::uint64)) # ucast n # r) = take_bit 16 (ucast n)"
  by (rule bit_eqI) (auto simp: be16_def bit_simps nth_Cons')

lemma int16_low: "((scast (push_bit 8 (ucast (ucast (drop_bit 8 (n::uint64)) :: byte)) :: uint16) :: uint32) OR ucast (ucast n :: byte)) = scast (ucast n :: uint16)"
  by (rule bit_eqI) (auto simp: bit_simps min_def)

text \<open>The tests of the decoder on the type byte.\<close>

lemma and_high_bits: 
  fixes b :: byte
  shows "unat (b AND 0x80) = unat b div 128 * 128" "unat (b AND 0xe0) = unat b div 32 * 32"
     "unat (b AND 0xf0) = unat b div 16 * 16" "unat (b AND 0x1f) = unat b mod 32" "unat (b AND 0xf) = unat b mod 16"
proof -
  have M: "(0x80 :: byte) = NOT (mask 7)" "(0xe0 :: byte) = NOT (mask 5)" "(0xf0 :: byte) = NOT (mask 4)"
     "(0x1f :: byte) = mask 5" "(0xf :: byte) = mask 4"
    by (simp_all add: mask_eq_exp_minus_1)
  show "unat (b AND 0x80) = unat b div 128 * 128" "unat (b AND 0xe0) = unat b div 32 * 32"
     "unat (b AND 0xf0) = unat b div 16 * 16" "unat (b AND 0x1f) = unat b mod 32" "unat (b AND 0xf) = unat b mod 16"
    unfolding M unat_and_not_mask unat_and_mask by (simp_all add: minus_mod_eq_div_mult)
qed

lemma byte_tests:
  fixes b :: byte
  shows "b AND 0x80 = 0 \<longleftrightarrow> unat b div 128 = 0"
    "b AND 0xe0 = 0xe0 \<longleftrightarrow> unat b div 32 = 7"
    "b AND 0xe0 = 0xa0 \<longleftrightarrow> unat b div 32 = 5"
    "b AND 0xf0 = 0x90 \<longleftrightarrow> unat b div 16 = 9"
    "b AND 0xf0 = 0x80 \<longleftrightarrow> unat b div 16 = 8"
  by (simp_all only: word_unat_eq_iff and_high_bits) (simp_all)

section \<open>The wire format\<close>

definition wire_number :: "lua_Number \<Rightarrow> byte list option" where
  "wire_number n =
     (if \<not> dbl_floor_eq n
      then Some (if dbl_eq n (dbl_of_flt (flt_of_dbl n)) then 0xca # be_bytes32 (flt_of_dbl n)
                 else 0xcb # be_bytes64 n)
      else map_option mp_int_bytes (dbl_to_int64 n))"

fun wire :: "(lua_table \<Rightarrow> nat) \<Rightarrow> nat \<Rightarrow> lua_value \<Rightarrow> byte list option" where
  "wire rawlen left (LString s) = Some (mp_bytes_hdr (of_nat (length s)) @ s)"
| "wire rawlen left (LBool b) = Some [if b then 0xc3 else 0xc2]"
| "wire rawlen left (LNumber n) = wire_number n"
| "wire rawlen (Suc left) (LTable t) =
     (case table_is_an_array t of None \<Rightarrow> None
      | Some True \<Rightarrow>
          wcat (Some (mp_container_bytes 0x90 0xdc 0xdd (of_nat (rawlen t))))
            (wconcat (map (\<lambda>i. wire rawlen left (lua_gettable t (LNumber (dbl_of_int (int i + 1)))))
               [0..<rawlen t]))
      | Some False \<Rightarrow>
          wcat (Some (mp_container_bytes 0x80 0xde 0xdf (of_nat (length t))))
            (wconcat (map (\<lambda>(k, v). wcat (wire rawlen left k) (wire rawlen left v)) t)))"
| "wire rawlen left v = Some [0xc0]"

lemma array_items_writes:
  assumes "\<And>v. mpb.writes (enc v) (w v)"
  shows "mpb.writes (array_items enc t j n)
     (wconcat (map (\<lambda>i. w (lua_gettable t (LNumber (dbl_of_int (int i + j))))) [0..<n]))"
proof (induction n arbitrary: j)
  case 0
  show ?case using mpb.writes_skip by (simp add: mpb.writes_def)
next
  case (Suc n)
  have "map (\<lambda>i. w (lua_gettable t (LNumber (dbl_of_int (int i + j))))) [0..<Suc n] =
     w (lua_gettable t (LNumber (dbl_of_int j))) #
     map (\<lambda>i. w (lua_gettable t (LNumber (dbl_of_int (int i + (j + 1)))))) [0..<n]"
    by (simp add: upt_conv_Cons flip: map_Suc_upt del: upt_Suc) (simp add: algebra_simps)
  then show ?case
    using mpb.writes_bind [OF assms Suc.IH] by simp
qed

lemma map_items_writes:
  assumes "\<And>v. mpb.writes (enc v) (w v)"
  shows "mpb.writes (map_items enc t) (wconcat (map (\<lambda>(k, v). wcat (w k) (w v)) t))"
proof (induction t)
  case Nil
  show ?case using mpb.writes_skip by (simp add: mpb.writes_def)
next
  case (Cons e t)
  show ?case
    using mpb.writes_bind [OF mpb.writes_bind [OF assms assms] Cons.IH] by (cases e) simp
qed

lemma wire_number_writes: "mpb.writes (mp_encode_lua_number junk n) (wire_number n)"
proof (cases "dbl_floor_eq n")
  case True
  then show ?thesis
    by (cases "dbl_to_int64 n")
       (simp_all add: mp_encode_lua_number_def [abs_def] wire_number_def mp_encode_int_def
         mpb.writes_app mpb.writes_undefined)
next
  case False
  then show ?thesis
    by (simp add: mp_encode_lua_number_def [abs_def] wire_number_def mp_encode_double_def Let_def
        mpb.writes_app memrevifle_bytes)
qed

lemma wire_table_writes:
  assumes enc: "\<And>v. mpb.writes (enc v) (w v)"
  shows "mpb.writes (mp_encode_lua_table junk rawlen enc t)
     (case table_is_an_array t of None \<Rightarrow> None
      | Some True \<Rightarrow>
          wcat (Some (mp_container_bytes 0x90 0xdc 0xdd (of_nat (rawlen t))))
            (wconcat (map (\<lambda>i. w (lua_gettable t (LNumber (dbl_of_int (int i + 1))))) [0..<rawlen t]))
      | Some False \<Rightarrow>
          wcat (Some (mp_container_bytes 0x80 0xde 0xdf (of_nat (length t))))
            (wconcat (map (\<lambda>(k, v). wcat (w k) (w v)) t)))"
proof -
  note arr = mpb.writes_bind [OF mpb.writes_app array_items_writes, of enc w, OF enc]
  note hash = mpb.writes_bind [OF mpb.writes_app map_items_writes, of enc w, OF enc]
  consider "table_is_an_array t = None" | "table_is_an_array t = Some True"
    | "table_is_an_array t = Some False" by (cases "table_is_an_array t") auto
  then show ?thesis
    by cases (simp_all add: mp_encode_lua_table_def [abs_def] mp_encode_lua_table_as_array_def
        mp_encode_lua_table_as_map_def mp_encode_array_def mp_encode_map_def mpb.writes_undefined arr hash)
qed

lemma mp_encode_lua_type_writes:
  "mpb.writes (mp_encode_lua_type junk rawlen left v) (wire rawlen left v)"
proof (induction left arbitrary: v)
  case 0
  show ?case
    using mpb.writes_bind [OF mpb.writes_app mpb.writes_app]
    by (cases v) (simp_all add: mp_encode_bytes_def [abs_def] mp_encode_lua_bool_def mp_encode_lua_null_def
        mpb.writes_app wire_number_writes)
next
  case (Suc left)
  show ?case
    using mpb.writes_bind [OF mpb.writes_app mpb.writes_app] wire_table_writes [OF Suc.IH]
    by (cases v) (simp_all add: mp_encode_bytes_def [abs_def] mp_encode_lua_bool_def mp_encode_lua_null_def
        mpb.writes_app wire_number_writes)
qed

lemma mp_pack_eq_wire: "mp_pack junk rawlen v = wire rawlen LUACMSGPACK_MAX_NESTING v"
proof -
  have "mp_buf_inv mp_buf_new" "mp_contents mp_buf_new = []"
    by (simp_all add: mp_buf_inv_def mp_buf_new_def mp_contents_def)
  then show ?thesis
    using mp_encode_lua_type_writes [of junk rawlen LUACMSGPACK_MAX_NESTING v]
    by (cases "wire rawlen LUACMSGPACK_MAX_NESTING v")
       (auto simp: mp_pack_def mpb.writes_def mp_contents_def)
qed

text \<open>
  C22. The encoder refines the wire format: on a well-formed buffer, whatever fresh memory holds, it
  never writes outside the buffer, keeps it well formed and appends exactly the bytes \<open>wire\<close> of the
  value; its behaviour is undefined exactly where \<open>wire\<close> is, on an integral number or a table key
  outside the range of \<open>int64_t\<close>.
\<close>

theorem mp_encode_lua_type_correct:
  assumes "mp_buf_inv buf"
  shows "case wire rawlen left v of
      None \<Rightarrow> mp_encode_lua_type junk rawlen left v buf = None
    | Some w \<Rightarrow> \<exists>buf'. mp_encode_lua_type junk rawlen left v buf = Some buf' \<and> mp_buf_inv buf' \<and>
        mp_contents buf' = mp_contents buf @ w"
  using mp_encode_lua_type_writes [of junk rawlen left v] assms by (simp add: mpb.writes_def)

theorem mp_encode_lua_type_correct_witness:
  "\<exists>buf'. mp_encode_lua_type 0 length (Suc 0) (LTable [(LString [107], LBool True)])
      \<lparr>mp_b = [1, 2, 3], mp_len = 2, mp_free = 1\<rparr> = Some buf' \<and>
     mp_contents buf' = [1, 2, 0x81, 0xa1, 107, 0xc3]"
  using mp_encode_lua_type_correct [where buf = "\<lparr>mp_b = [1, 2, 3], mp_len = 2, mp_free = 1\<rparr>"
      and rawlen = length and left = "Suc 0" and v = "LTable [(LString [107], LBool True)]" and junk = 0]
  by (auto simp: mp_buf_inv_def mp_contents_def table_is_an_array_def mp_container_bytes_def
      mp_bytes_hdr_def)

end
