(* ===== verification/Msgpack_Decode.thy ===== *)
theory Msgpack_Decode
  imports Msgpack_Wire
begin

text \<open>
  Properties of the MessagePack decoder: what each type byte decodes to, decoding of the wire
  format, totality, and the inputs on which the decoder leaves its input.
\<close>

section \<open>The type byte\<close>

lemma mp_cur_consume_new: "n \<le> length w \<Longrightarrow> mp_cur_consume (mp_cur_new w) n = mp_cur_new (drop n w)"
  by (simp add: mp_cur_consume_def mp_cur_new_def)

lemma cur_new [simp]: "cur_p (mp_cur_new w) = w" "cur_left (mp_cur_new w) = length w"
  by (simp_all add: mp_cur_new_def)

lemma untagged_ne: "unat (b :: byte) < 192 \<or> 224 \<le> unat b \<Longrightarrow> 192 \<le> unat w \<Longrightarrow> unat w < 224 \<Longrightarrow> (b = w) = False"
  by auto

lemma div_nat_iff: "0 < d \<Longrightarrow> (x div d = k) = (k * d \<le> x \<and> x < Suc k * d)" for x d k :: nat
  by (metis less_eq_div_iff_mult_less_eq div_less_iff_less_mult less_Suc_eq_le order_antisym order_refl)

lemma decode_untagged:
  assumes "unat b < 192 \<or> 224 \<le> unat b"
  shows "mp_decode_step dec (mp_cur_new (b # r)) =
     (if unat b < 128 then Some (Inr (LNumber (dbl_of_int (uint b)), mp_cur_new r))
      else if unat b < 144 then mp_decode_to_lua_hash dec (unat b mod 16) [] (mp_cur_new r)
      else if unat b < 160 then mp_decode_to_lua_array dec (unat b mod 16) 1 [] (mp_cur_new r)
      else if unat b < 192 then
        (if length r < unat b mod 32 then Some (Inl MP_CUR_ERROR_EOF)
         else Some (Inr (LString (take (unat b mod 32) r), mp_cur_new (drop (unat b mod 32) r))))
      else Some (Inr (LNumber (dbl_of_int (sint b)), mp_cur_new r)))"
proof -
  have lt: "unat b < 256" using unsigned_less [of b, where 'a = nat] by simp
  have l: "unat (1 + ucast (b AND 0x1f) :: size_t) = 1 + unat b mod 32" "unat (ucast (b AND 0x1f) :: size_t) = unat b mod 32"
  proof -
    show "unat (ucast (b AND 0x1f) :: size_t) = unat b mod 32"
      by (simp add: unat_ucast_up and_high_bits)
    then show "unat (1 + ucast (b AND 0x1f) :: size_t) = 1 + unat b mod 32"
      by (simp add: unat_word_ariths)
  qed
  have ne: "(b = 0xcc) = False" "(b = 0xd0) = False" 
      "(b = 0xcd) = False" "(b = 0xd1) = False" "(b = 0xce) = False" "(b = 0xd2) = False" 
      "(b = 0xcf) = False" "(b = 0xd3) = False" "(b = 0xc0) = False" "(b = 0xc3) = False" 
      "(b = 0xc2) = False" "(b = 0xca) = False" "(b = 0xcb) = False" 
      "(b = 0xda) = False" "(b = 0xdb) = False" "(b = 0xdc) = False" 
      "(b = 0xdd) = False" "(b = 0xde) = False" "(b = 0xdf) = False"
    by (simp_all add: untagged_ne [OF assms])
  have step: "mp_decode_step dec (mp_cur_new (b # r)) =
    (if unat b div 128 = 0 then Some (Inr (LNumber (dbl_of_int (uint b)), mp_cur_new r))
     else if unat b div 32 = 7 then Some (Inr (LNumber (dbl_of_int (sint b)), mp_cur_new r))
     else if unat b div 32 = 5 then
        (if length r < unat b mod 32 then Some (Inl MP_CUR_ERROR_EOF)
         else Some (Inr (LString (take (unat b mod 32) r), mp_cur_new (drop (unat b mod 32) r))))
     else if unat b div 16 = 9 then mp_decode_to_lua_array dec (unat b mod 16) 1 [] (mp_cur_new r)
     else if unat b div 16 = 8 then mp_decode_to_lua_hash dec (unat b mod 16) [] (mp_cur_new r)
     else Some (Inl MP_CUR_ERROR_BADFMT))"
    by (simp only: mp_decode_step_def mp_cur_need_def mp_read_def cur_new nth_Cons_0 Let_def ne if_False byte_tests and_high_bits l)
       (simp add: push_int_def push_lstring_def mp_cur_consume_new l)
  have tests: "(x div 128 = 0) = (x < 128)" "(x div 32 = 7) = (224 \<le> x)" "(x div 32 = 5) = (160 \<le> x \<and> x < 192)"
      "(x div 16 = 9) = (144 \<le> x \<and> x < 160)" "(x div 16 = 8) = (128 \<le> x \<and> x < 144)" if "x < 256" for x :: nat
    using that by (auto simp: div_nat_iff)
  consider "unat b < 128" | "128 \<le> unat b" "unat b < 144" | "144 \<le> unat b" "unat b < 160"
    | "160 \<le> unat b" "unat b < 192" | "224 \<le> unat b" using assms by linarith
  then show ?thesis
    unfolding step tests [OF lt] using lt by cases simp_all
qed

lemma uint_ucast_small: "0 \<le> sint (n :: uint64) \<Longrightarrow> sint n < 2 ^ LENGTH('b) \<Longrightarrow> uint (ucast n :: 'b::len word) = sint n"
proof -
  assume a: "0 \<le> sint n" "sint n < 2 ^ LENGTH('b)"
  have "take_bit LENGTH('b) (uint n) = uint n" if "uint n = sint n"
    using a by (simp add: that take_bit_int_eq_self)
  moreover have "uint n = sint n"
    using a(1) sint_less [of n] uint_sint [of n] by (simp add: take_bit_int_eq_self)
  ultimately show ?thesis by (simp add: unsigned_ucast_eq)
qed

lemma sint_ucast_small:
  assumes "- (2 ^ (LENGTH('b) - 1)) \<le> sint (n :: uint64)" "sint n < 2 ^ (LENGTH('b) - 1)" "LENGTH('b) \<le> 64"
  shows "sint (ucast n :: 'b::len word) = sint n"
proof -
  have "sint (ucast n :: 'b word) = signed_take_bit (LENGTH('b) - 1) (uint n)"
    by (simp add: sint_uint unsigned_ucast_eq signed_take_bit_take_bit)
  also have "\<dots> = signed_take_bit (LENGTH('b) - 1) (sint n)"
    using assms(3) by (simp add: sint_uint signed_take_bit_signed_take_bit)
  also have "\<dots> = sint n"
    using assms(1,2) by (simp add: signed_take_bit_int_eq_self)
  finally show ?thesis .
qed

lemma mask_bytes:
  "ucast (n AND 0xff) = (ucast (n :: uint64) :: byte)"
  "ucast (drop_bit 8 (n AND 0xff00)) = (ucast (drop_bit 8 n) :: byte)"
  "ucast (drop_bit 16 (n AND 0xff0000)) = (ucast (drop_bit 16 n) :: byte)"
  "ucast (drop_bit 24 (n AND 0xff000000)) = (ucast (drop_bit 24 n) :: byte)"
  "ucast (drop_bit 32 (n AND 0xff00000000)) = (ucast (drop_bit 32 n) :: byte)"
  "ucast (drop_bit 40 (n AND 0xff0000000000)) = (ucast (drop_bit 40 n) :: byte)"
  "ucast (drop_bit 48 (n AND 0xff000000000000)) = (ucast (drop_bit 48 n) :: byte)"
  "ucast (drop_bit 56 (n AND 0xff00000000000000)) = (ucast (drop_bit 56 n) :: byte)"
  using byte_mask [of 0 n] byte_mask [of 8 n] byte_mask [of 16 n] byte_mask [of 24 n]
    byte_mask [of 32 n] byte_mask [of 40 n] byte_mask [of 48 n] byte_mask [of 56 n]
  by (simp_all add: mask_eq_exp_minus_1 push_bit_eq_mult)

lemma decode_int_tagged:
  "mp_decode_step dec (mp_cur_new (0xcc # b # r)) = Some (Inr (LNumber (dbl_of_int (uint b)), mp_cur_new r))"
  "mp_decode_step dec (mp_cur_new (0xd0 # b # r)) = Some (Inr (LNumber (dbl_of_int (sint b)), mp_cur_new r))"
  "mp_decode_step dec (mp_cur_new (0xcd # b # c # r)) =
     Some (Inr (LNumber (dbl_of_int (uint (be16 [0, b, c]))), mp_cur_new r))"
  "mp_decode_step dec (mp_cur_new (0xd1 # b # c # r)) =
     Some (Inr (LNumber (dbl_of_int (sint ((scast (push_bit 8 (ucast b) :: uint16) :: uint32) OR ucast c))), mp_cur_new r))"
  "mp_decode_step dec (mp_cur_new (0xce # b # c # d # e # r)) =
     Some (Inr (LNumber (dbl_of_int (uint (be32 [0, b, c, d, e]))), mp_cur_new r))"
  "mp_decode_step dec (mp_cur_new (0xd2 # b # c # d # e # r)) =
     Some (Inr (LNumber (dbl_of_int (sint (be32 [0, b, c, d, e]))), mp_cur_new r))"
  "mp_decode_step dec (mp_cur_new (0xcf # b # c # d # e # f # g # h # i # r)) =
     Some (Inr (LNumber (dbl_of_int (uint (be64 [0, b, c, d, e, f, g, h, i]))), mp_cur_new r))"
  "mp_decode_step dec (mp_cur_new (0xd3 # b # c # d # e # f # g # h # i # r)) =
     Some (Inr (LNumber (dbl_of_int (sint (be64 [0, b, c, d, e, f, g, h, i]))), mp_cur_new r))"
  by (simp_all add: mp_decode_step_def mp_cur_need_def mp_read_def push_int_def mp_cur_consume_new be16_def be32_def be64_def)

lemma decode_other_tagged:
  "mp_decode_step dec (mp_cur_new (0xc0 # r)) = Some (Inr (LNil, mp_cur_new r))"
  "mp_decode_step dec (mp_cur_new (0xc3 # r)) = Some (Inr (LBool True, mp_cur_new r))"
  "mp_decode_step dec (mp_cur_new (0xc2 # r)) = Some (Inr (LBool False, mp_cur_new r))"
  "mp_decode_step dec (mp_cur_new (0xca # b # c # d # e # r)) =
     Some (Inr (LNumber (dbl_of_flt (be32 [0, b, c, d, e])), mp_cur_new r))"
  "mp_decode_step dec (mp_cur_new (0xcb # b # c # d # e # f # g # h # i # r)) =
     Some (Inr (LNumber (be64 [0, b, c, d, e, f, g, h, i]), mp_cur_new r))"
  "mp_decode_step dec (mp_cur_new (0xdc # b # c # r)) =
     mp_decode_to_lua_array dec (unat (scast (be16 [0, b, c]) :: size_t)) 1 [] (mp_cur_new r)"
  "mp_decode_step dec (mp_cur_new (0xdd # b # c # d # e # r)) =
     mp_decode_to_lua_array dec (unat (scast (be32 [0, b, c, d, e]) :: size_t)) 1 [] (mp_cur_new r)"
  "mp_decode_step dec (mp_cur_new (0xde # b # c # r)) =
     mp_decode_to_lua_hash dec (unat (scast (be16 [0, b, c]) :: size_t)) [] (mp_cur_new r)"
  "mp_decode_step dec (mp_cur_new (0xdf # b # c # d # e # r)) =
     mp_decode_to_lua_hash dec (unat (scast (be32 [0, b, c, d, e]) :: size_t)) [] (mp_cur_new r)"
  by (simp_all add: mp_decode_step_def mp_cur_need_def mp_read_def mp_cur_consume_new be16_def be32_def be64_def
      memrevifle_word [unfolded be32_def be64_def, simplified])

lemma decode_str_tagged:
  "mp_decode_step dec (mp_cur_new (0xda # b # c # r)) =
     (let l = scast (be16 [0, b, c]) :: size_t
      in mp_cur_need (mp_cur_new (0xda # b # c # r)) (unat (3 + l)) (push_lstring (mp_cur_new (0xda # b # c # r)) 3 l))"
  "mp_decode_step dec (mp_cur_new (0xdb # b # c # d # e # r)) =
     (let l = scast (be32 [0, b, c, d, e]) :: size_t
      in mp_cur_need (mp_cur_new (0xdb # b # c # d # e # r)) (unat (5 + l)) (push_lstring (mp_cur_new (0xdb # b # c # d # e # r)) 5 l))"
  by (simp_all add: mp_decode_step_def mp_cur_need_def mp_read_def mp_cur_consume_new be16_def be32_def be64_def)

section \<open>Decoding what was encoded\<close>

lemma sint_scast_16: "sint (scast (x :: uint16) :: uint32) = sint x"
proof -
  have "sint x < 2 ^ 15" "- (2 ^ 15) \<le> sint x" using sint_less [of x] sint_greater_eq [of x] by simp_all
  then show ?thesis by (simp add: signed_scast_eq signed_take_bit_int_eq_self)
qed

lemma take_bit_ucast_16: "uint (take_bit 16 (ucast (n :: uint64) :: uint32)) = uint (ucast n :: uint16)"
  by (simp add: unsigned_take_bit_eq unsigned_ucast_eq)

lemmas word_bytes = be16_low [where r = "[]" and x = 0] be32_low [where r = "[]" and x = 0]
  be64_bytes [where r = "[]" and x = 0, unfolded be_bytes64_def, simplified]
  be32_bytes [where r = "[]" and x = 0, unfolded be_bytes32_def, simplified]

lemma uint_of_sint_nonneg: "0 \<le> sint (n :: 'a::len word) \<Longrightarrow> uint n = sint n"
proof -
  assume "0 \<le> sint n"
  moreover have "sint n < 2 ^ LENGTH('a)"
  proof -
    have "sint n < 2 ^ (LENGTH('a) - 1)" using sint_less [of n] by simp
    also have "(2::int) ^ (LENGTH('a) - 1) \<le> 2 ^ LENGTH('a)" by simp
    finally show ?thesis .
  qed
  ultimately show ?thesis using uint_sint [of n] by (simp add: take_bit_int_eq_self)
qed

lemma decode_fixint:
  assumes "- 32 \<le> sint n" "sint n \<le> 127"
  shows "mp_decode_step dec (mp_cur_new (ucast (n :: uint64) # r)) = Some (Inr (LNumber (dbl_of_int (sint n)), mp_cur_new r))"
proof -
  let ?b = "ucast n :: byte"
  have s: "sint ?b = sint n"
    using assms by (intro sint_ucast_small) simp_all
  show ?thesis
  proof (cases "0 \<le> sint n")
    case True
    then have u: "uint ?b = sint n" using assms by (intro uint_ucast_small) simp_all
    have "int (unat ?b) < 128" unfolding uint_nat [symmetric] u using assms(2) by simp
    then have "unat ?b < 128" by linarith
    then show ?thesis using u decode_untagged [of ?b dec r] by (simp del: uint_nat)
  next
    case False
    have "uint ?b = sint n mod 256" using uint_sint [of ?b] by (simp add: s take_bit_eq_mod)
    also have "\<dots> = sint n + 256" using False assms(1) mod_pos_pos_trivial [of "sint n + 256" 256] by simp
    finally have u: "uint ?b = sint n + 256" .
    have "int (unat ?b) \<ge> 224" unfolding uint_nat [symmetric] u using assms(1) by simp
    then have "224 \<le> unat ?b" by linarith
    then show ?thesis using s decode_untagged [of ?b dec r] by simp
  qed
qed

lemma and_7f: "0 \<le> sint (n :: uint64) \<Longrightarrow> sint n \<le> 127 \<Longrightarrow> n AND 0x7f = n"
proof -
  assume a: "0 \<le> sint n" "sint n \<le> 127"
  have "n AND 0x7f = take_bit 7 n" by (simp add: take_bit_eq_mask mask_eq_exp_minus_1)
  moreover have "uint (take_bit 7 n) = uint n"
    using a by (simp add: unsigned_take_bit_eq uint_of_sint_nonneg take_bit_int_eq_self)
  ultimately show ?thesis by (metis unsigned_word_eqI)
qed

lemma decode_int:
  "mp_decode_step dec (mp_cur_new (mp_int_bytes n @ r)) =
     Some (Inr (LNumber (dbl_of_int (sint n)), mp_cur_new r))"
proof (cases "- 32 \<le> sint n \<and> sint n \<le> 127")
  case True
  then have "mp_int_bytes n = [ucast n]"
    using and_7f [of n] by (auto simp: mp_int_bytes_def Let_def)
  then show ?thesis using decode_fixint True by simp
next
  case False
  have u: "uint (ucast n :: byte) = sint n" if "0 \<le> sint n" "sint n \<le> 255" 
    using that by (intro uint_ucast_small) simp_all
  have u16: "uint (ucast n :: uint16) = sint n" if "0 \<le> sint n" "sint n \<le> 65535" 
    using that by (intro uint_ucast_small) simp_all
  have u32: "uint (ucast n :: uint32) = sint n" if "0 \<le> sint n" "sint n \<le> 4294967295" 
    using that by (intro uint_ucast_small) simp_all
  have s8: "sint (ucast n :: byte) = sint n" if "- 128 \<le> sint n" "sint n < 0" 
    using that by (intro sint_ucast_small) simp_all
  have s16: "sint (ucast n :: uint16) = sint n" if "- 32768 \<le> sint n" "sint n < 0" 
    using that by (intro sint_ucast_small) simp_all
  have s32: "sint (ucast n :: uint32) = sint n" if "- 2147483648 \<le> sint n" "sint n < 0" 
    using that by (intro sint_ucast_small) simp_all
  consider "127 < sint n" "sint n \<le> 255" | "255 < sint n" "sint n \<le> 65535" | "65535 < sint n" "sint n \<le> 4294967295"
    | "4294967295 < sint n" | "sint n < -32" "- 128 \<le> sint n" | "sint n < -128" "- 32768 \<le> sint n" 
    | "sint n < -32768" "- 2147483648 \<le> sint n" | "sint n < - 2147483648"
    using False by linarith
  then show ?thesis
    by cases (simp_all add: mp_int_bytes_def Let_def mask_bytes decode_int_tagged word_bytes int16_low
        take_bit_ucast_16 sint_scast_16 u u16 u32 s8 s16 s32 uint_of_sint_nonneg)
qed

lemma and_mask_small: "unat (x :: 'a::len word) < 2 ^ k \<Longrightarrow> x AND mask k = x"
  by (rule unsigned_word_eqI [where 'a = nat]) (simp add: unat_and_mask)

lemma unat_or_low:
  assumes "unat (x :: byte) < 2 ^ k" "w AND mask k = 0" "unat w + 2 ^ k \<le> 256"
  shows "unat (w OR x) = unat w + unat x"
proof -
  have "w AND x = (w AND mask k) AND x"
    using and_mask_small [OF assms(1)] by (metis and.assoc and.commute)
  then have "w OR x = w + x" using assms(2) by (simp add: disjunctive_add_eq_or)
  then show ?thesis using assms(1,3) by (simp add: unat_word_ariths)
qed

lemma fix_bytes:
  "unat (x :: byte) < 32 \<Longrightarrow> unat (0xa0 OR x) = 160 + unat x"
  "unat x < 16 \<Longrightarrow> unat (0x90 OR x) = 144 + unat x"
  "unat x < 16 \<Longrightarrow> unat (0x80 OR x) = 128 + unat x"
  using unat_or_low [of x 5 "0xa0"] unat_or_low [of x 4 "0x90"] unat_or_low [of x 4 "0x80"]
  by (simp_all add: mask_eq_exp_minus_1)

lemma len_facts:
  assumes "len < 2 ^ 31"
  defines "n \<equiv> of_nat len :: uint64"
  shows "sint n = int len" "unat n = len" "unat (scast (ucast n :: uint32) :: size_t) = len"
    "len < 65536 \<Longrightarrow> unat (scast (take_bit 16 (ucast n :: uint32)) :: size_t) = len"
proof -
  show u: "unat n = len" using assms by (simp add: unsigned_of_nat take_bit_nat_eq_self)
  have i: "int len < 2 ^ 31" using assms(1) by (metis of_nat_less_iff of_nat_numeral of_nat_power)
  show "sint n = int len"
    using i u by (subst sint_nonneg_eq) (simp_all add: uint_nat)
  have e: "unat (scast w :: size_t) = len" if "unat w = len" for w :: uint32
  proof -
    have "sint w = int len" using that i by (subst sint_nonneg_eq) (simp_all add: uint_nat)
    then have "(scast w :: size_t) = of_nat len" by (metis of_int_of_nat_eq of_int_sint)
    then show ?thesis using u by (simp add: n_def)
  qed
  have v: "unat (ucast n :: uint32) = len"
    using assms(1) u by (simp add: unsigned_ucast_eq take_bit_nat_eq_self)
  show "unat (scast (ucast n :: uint32) :: size_t) = len"
    by (rule e [OF v])
  show "unat (scast (take_bit 16 (ucast n :: uint32)) :: size_t) = len" if "len < 65536"
    using that v by (intro e) (simp add: unsigned_take_bit_eq take_bit_nat_eq_self)
qed

lemma decode_string:
  assumes "length s < 2 ^ 31"
  shows "mp_decode_step dec (mp_cur_new (mp_bytes_hdr (of_nat (length s)) @ s @ r)) =
     Some (Inr (LString s, mp_cur_new r))"
proof -
  define n where "n = (of_nat (length s) :: uint64)"
  note L = len_facts [OF assms, folded n_def]
  have w: "unat (3 + x) = 3 + unat x" "unat (5 + x) = 5 + unat x" if "unat x = length s" for x :: size_t
    using that assms by (simp_all add: unat_word_ariths)
  have d: "drop (3 + k) (x # y # z # t) = drop k t" "drop (5 + k) (x # y # z # u # v # t) = drop k t"
    for k and x y z u v :: byte and t by (simp_all add: numeral_eq_Suc)
  consider "length s < 32" | "32 \<le> length s" "length s < 65536" | "65536 \<le> length s" by linarith
  then have "mp_decode_step dec (mp_cur_new (mp_bytes_hdr n @ s @ r)) = Some (Inr (LString s, mp_cur_new r))"
  proof cases
    case 1
    let ?b = "0xa0 OR ucast (n AND 0xff) :: byte"
    have "unat (ucast n :: byte) = length s" using 1 L(2) by (simp add: unsigned_ucast_eq take_bit_nat_eq_self)
    then have b: "unat ?b = 160 + length s" using 1 by (simp add: mask_bytes fix_bytes)
    then have m: "unat ?b mod 32 = length s" using 1 by (simp add: mod_add_eq [symmetric])
    have h: "mp_bytes_hdr n = [?b]" using 1 L(2) by (simp add: mp_bytes_hdr_def word_less_nat_alt)
    show ?thesis
      using b 1 decode_untagged [of ?b dec "s @ r", unfolded m] by (simp add: h)
  next
    case 2
    then have h: "mp_bytes_hdr n = [0xda, ucast (drop_bit 8 n), ucast n]"
      using L(2) by (simp add: mp_bytes_hdr_def word_less_nat_alt word_le_nat_alt mask_bytes)
    have l: "unat (scast (take_bit 16 (ucast n :: uint32)) :: size_t) = length s"
      using 2 L(4) by simp
    show ?thesis
      by (simp add: h decode_str_tagged word_bytes Let_def mp_cur_need_def push_lstring_def w [OF l] l d mp_cur_consume_new)
  next
    case 3
    then have h: "mp_bytes_hdr n = [0xdb, ucast (drop_bit 24 n), ucast (drop_bit 16 n), ucast (drop_bit 8 n), ucast n]"
      using L(2) by (simp add: mp_bytes_hdr_def word_less_nat_alt word_le_nat_alt mask_bytes)
    show ?thesis
      by (simp add: h decode_str_tagged word_bytes Let_def mp_cur_need_def push_lstring_def w [OF L(3)] L(3) d mp_cur_consume_new)
  qed
  then show ?thesis by (simp add: n_def)
qed

lemma decode_container:
  assumes "len < 2 ^ 31"
  shows "mp_decode_step dec (mp_cur_new (mp_container_bytes 0x90 0xdc 0xdd (of_nat len) @ r)) =
     mp_decode_to_lua_array dec len 1 [] (mp_cur_new r)"
    "mp_decode_step dec (mp_cur_new (mp_container_bytes 0x80 0xde 0xdf (of_nat len) @ r)) =
     mp_decode_to_lua_hash dec len [] (mp_cur_new r)"
proof -
  define n where "n = (of_nat len :: uint64)"
  note L = len_facts [OF assms, folded n_def]
  have low: "unat (ucast (n AND 0xf) :: byte) = len" if "len \<le> 15"
  proof -
    have "n AND 0xf = n" using and_mask_small [of n 4] that L(2) by (simp add: mask_eq_exp_minus_1)
    then show ?thesis using that L(2) by (simp add: unsigned_ucast_eq take_bit_nat_eq_self)
  qed
  have m: "(144 + len) mod 16 = len" "(128 + len) mod 16 = len" if "len \<le> 15"
    using that by (simp_all add: mod_add_eq [symmetric])
  have fixb: "unat (0x90 OR ucast (n AND 0xf) :: byte) = 144 + len" "unat (0x80 OR ucast (n AND 0xf) :: byte) = 128 + len"
    if "len \<le> 15" using low that fix_bytes(2,3) [of "ucast (n AND 0xf)"] by simp_all
  have fixed: "mp_decode_step dec (mp_cur_new ((0x90 OR ucast (n AND 0xf)) # r)) = mp_decode_to_lua_array dec len 1 [] (mp_cur_new r)"
    "mp_decode_step dec (mp_cur_new ((0x80 OR ucast (n AND 0xf)) # r)) = mp_decode_to_lua_hash dec len [] (mp_cur_new r)"
    if "len \<le> 15"
    using that m [OF that] fixb [OF that] decode_untagged [of "0x90 OR ucast (n AND 0xf)" dec r]
      decode_untagged [of "0x80 OR ucast (n AND 0xf)" dec r] by simp_all
  have c: "len \<le> 15 \<or> (15 < len \<and> len \<le> 65535) \<or> 65535 < len" by linarith
  show "mp_decode_step dec (mp_cur_new (mp_container_bytes 0x90 0xdc 0xdd (of_nat len) @ r)) =
     mp_decode_to_lua_array dec len 1 [] (mp_cur_new r)"
    unfolding n_def [symmetric] using c
    by (elim disjE) (simp_all add: mp_container_bytes_def L fixed mask_bytes decode_other_tagged word_bytes)
  show "mp_decode_step dec (mp_cur_new (mp_container_bytes 0x80 0xde 0xdf (of_nat len) @ r)) =
     mp_decode_to_lua_hash dec len [] (mp_cur_new r)"
    unfolding n_def [symmetric] using c
    by (elim disjE) (simp_all add: mp_container_bytes_def L fixed mask_bytes decode_other_tagged word_bytes)
qed

section \<open>Round trip\<close>

text \<open>
  The values that survive \<open>pack\<close> and \<open>unpack\<close> unchanged: numbers other than negative zero (which
  comes back as zero) whose conversion to \<open>int64_t\<close> is defined when they are integral; strings
  below \<open>2 ^ 31\<close> bytes; tables of fewer than \<open>2 ^ 31 - 1\<close> entries, nested at most \<open>left\<close> deep, whose keys and values survive, and which are
  arrays \<open>1..n\<close> in that order when \<open>table_is_an_array\<close> says array.
\<close>

definition rt_number :: "lua_Number \<Rightarrow> bool" where
  "rt_number n \<longleftrightarrow> n \<noteq> push_bit 63 1 \<and> (dbl_floor_eq n \<longrightarrow> dbl_to_int64 n \<noteq> None)"

fun rt_ok :: "nat \<Rightarrow> lua_value \<Rightarrow> bool" where
  "rt_ok left LNil = True"
| "rt_ok left (LBool b) = True"
| "rt_ok left (LNumber n) = rt_number n"
| "rt_ok left (LString s) = (length s < 2 ^ 31)"
| "rt_ok (Suc left) (LTable t) =
     (table_wf t \<and> length t < 2 ^ 31 - 1 \<and> table_is_an_array t \<noteq> None \<and>
      (table_is_an_array t = Some True \<longrightarrow> proper_array t) \<and>
      (\<forall>e \<in> set t. rt_ok left (fst e) \<and> rt_ok left (snd e)))"
| "rt_ok left v = False"

text \<open>\<open>decodes dec w v\<close>: from any input that starts with \<open>w\<close>, \<open>dec\<close> reads exactly \<open>w\<close> and gives \<open>v\<close>.\<close>

definition decodes :: "(mp_cur \<Rightarrow> mp_res option) \<Rightarrow> byte list \<Rightarrow> lua_value \<Rightarrow> bool" where
  "decodes dec w v \<longleftrightarrow> (\<forall>r. dec (mp_cur_new (w @ r)) = Some (Inr (v, mp_cur_new r)))"

lemma decode_number:
  assumes "rt_number n"
  shows "\<exists>w. wire_number n = Some w \<and> decodes (mp_decode_step dec) w (LNumber n)"
proof (cases "dbl_floor_eq n")
  case True
  then obtain i where i: "dbl_trunc n = Some i" "- (2 ^ 63) \<le> i" "i < 2 ^ 63" "dbl_to_int64 n = Some (word_of_int i)"
    using assms by (auto simp: rt_number_def dbl_to_int64_def split: option.splits if_splits)
  have "sint (word_of_int i :: uint64) = i"
    using i(2,3) by (simp add: signed_of_int signed_take_bit_int_eq_self)
  moreover have "dbl_integral n"
    using True i(1) by (auto simp: dbl_floor_eq_def dbl_is_inf_def dbl_trunc_def split: if_splits)
  then have "dbl_of_int i = n"
    using assms i(1) by (intro dbl_of_int_trunc) (auto simp: rt_number_def)
  ultimately show ?thesis
    using True i(4) decode_int [of dec "word_of_int i"] by (simp add: wire_number_def decodes_def)
next
  case False
  have "dbl_of_flt (flt_of_dbl n) = n" if "dbl_eq n (dbl_of_flt (flt_of_dbl n))"
    using that False by (auto simp: dbl_eq_def dbl_floor_eq_def dbl_integral_def ieee_unpack_def DINF_def)
  with False show ?thesis
    by (simp add: wire_number_def decodes_def be_bytes32_def be_bytes64_def decode_other_tagged word_bytes)
qed

lemma table_wf_settable:
  assumes "table_wf (t0 @ (k, v) # t1)"
  shows "lua_settable t0 k v = Inr (t0 @ [(k, v)])"
proof -
  have "valid_key k" "v \<noteq> LNil" "\<forall>(k', v') \<in> set t0. \<not> lua_keyeq k' k"
    using assms by (auto simp: table_wf_def sorted_wrt_append)
  then show ?thesis by (simp add: lua_settable_ok tset_fresh)
qed

lemma decode_array_items:
  assumes "\<forall>e \<in> set t1. \<exists>w. enc (snd e) = Some w \<and> decodes dec w (snd e)" "table_wf (t0 @ t1)"
    "\<forall>i < length t1. fst (t1 ! i) = LNumber (dbl_of_int (int (length t0 + i) + 1))" "length (t0 @ t1) < 2 ^ 31 - 1"
  shows "\<exists>w. wconcat (map (\<lambda>e. enc (snd e)) t1) = Some w \<and>
     decodes (mp_decode_to_lua_array dec (length t1) (int (length t0) + 1) t0) w (LTable (t0 @ t1))"
  using assms
proof (induction t1 arbitrary: t0)
  case Nil
  then show ?case by (simp add: decodes_def)
next
  case (Cons e t1)
  obtain k v where e: "e = (k, v)" by fastforce
  then have k: "k = LNumber (dbl_of_int (int (length t0) + 1))" using Cons.prems(3) by fastforce
  obtain w1 where w1: "enc v = Some w1" "decodes dec w1 v" using Cons.prems(1) e by auto
  have "\<forall>i < length t1. fst (t1 ! i) = LNumber (dbl_of_int (int (length (t0 @ [e]) + i) + 1))"
  proof (intro allI impI)
    fix i assume "i < length t1"
    then show "fst (t1 ! i) = LNumber (dbl_of_int (int (length (t0 @ [e]) + i) + 1))"
      using Cons.prems(3) [rule_format, of "Suc i"] by (simp add: add.commute add.left_commute)
  qed
  then obtain w2 where w2: "wconcat (map (\<lambda>e. enc (snd e)) t1) = Some w2"
    "decodes (mp_decode_to_lua_array dec (length t1) (int (length (t0 @ [e])) + 1) (t0 @ [e])) w2 (LTable ((t0 @ [e]) @ t1))"
    using Cons.IH [of "t0 @ [e]"] Cons.prems(1,2,4) by auto
  have "lua_settable t0 k v = Inr (t0 @ [e])" using table_wf_settable Cons.prems(2) e by simp
  moreover have "int (length t0) + 1 \<noteq> 2 ^ 31 - 1" using Cons.prems(4) by simp
  ultimately show ?case
    using w1 w2 by (simp add: e decodes_def k add.commute)
qed

lemma decode_hash_items:
  assumes "\<forall>e \<in> set t1. \<exists>w. enc (fst e) = Some w \<and> decodes dec w (fst e)"
    "\<forall>e \<in> set t1. \<exists>w. enc (snd e) = Some w \<and> decodes dec w (snd e)" "table_wf (t0 @ t1)"
  shows "\<exists>w. wconcat (map (\<lambda>(k, v). wcat (enc k) (enc v)) t1) = Some w \<and>
     decodes (mp_decode_to_lua_hash dec (length t1) t0) w (LTable (t0 @ t1))"
  using assms
proof (induction t1 arbitrary: t0)
  case Nil
  then show ?case by (simp add: decodes_def)
next
  case (Cons e t1)
  obtain k v where e: "e = (k, v)" by fastforce
  obtain wk wv where w: "enc k = Some wk" "decodes dec wk k" "enc v = Some wv" "decodes dec wv v"
    using Cons.prems(1,2) e by auto
  obtain w2 where w2: "wconcat (map (\<lambda>(k, v). wcat (enc k) (enc v)) t1) = Some w2"
    "decodes (mp_decode_to_lua_hash dec (length t1) (t0 @ [e])) w2 (LTable ((t0 @ [e]) @ t1))"
    using Cons.IH [of "t0 @ [e]"] Cons.prems by auto
  have "lua_settable t0 k v = Inr (t0 @ [e])" using table_wf_settable Cons.prems(3) e by simp
  then show ?case
    using w w2 by (simp add: e decodes_def)
qed

lemma proper_array_items:
  assumes "proper_array t" "table_wf t"
  shows "map (\<lambda>i. f (lua_gettable t (LNumber (dbl_of_int (int i + 1))))) [0..<length t] = map (\<lambda>e. f (snd e)) t"
proof (rule nth_equalityI)
  fix i assume "i < length (map (\<lambda>i. f (lua_gettable t (LNumber (dbl_of_int (int i + 1))))) [0..<length t])"
  then have i: "i < length t" by simp
  have "map fst t ! i = LNumber (dbl_of_int (int i + 1))"
    using assms(1) i by (simp add: proper_array_def)
  then have e: "(LNumber (dbl_of_int (int i + 1)), snd (t ! i)) \<in> set t"
    using i by (metis nth_map nth_mem prod.collapse)
  then have "\<not> dbl_is_nan (dbl_of_int (int i + 1))"
    using assms(2) by (auto simp: table_wf_def)
  then have "lua_gettable t (LNumber (dbl_of_int (int i + 1))) = snd (t ! i)"
    using assms(2) e by (intro lua_gettable_entry) (auto simp: table_wf_def dbl_eq_def)
  then show "map (\<lambda>i. f (lua_gettable t (LNumber (dbl_of_int (int i + 1))))) [0..<length t] ! i = map (\<lambda>e. f (snd e)) t ! i"
    using i by simp
qed simp

lemma decode_table:
  assumes items: "\<And>v. rt_ok left v \<Longrightarrow> \<exists>w. wire rawlen left v = Some w \<and> decodes dec w v"
    and ok: "rt_ok (Suc left) (LTable t)"
    and rawlen: "\<And>t. proper_array t \<Longrightarrow> rawlen t = length t"
  shows "\<exists>w. wire rawlen (Suc left) (LTable t) = Some w \<and> decodes (mp_decode_step dec) w (LTable t)"
proof (cases "table_is_an_array t = Some True")
  case True
  then have t: "table_wf t" "length t < 2 ^ 31" "proper_array t" "length t < 2 ^ 31 - 1" using ok by auto
  have "\<exists>w. wconcat (map (\<lambda>e. wire rawlen left (snd e)) t) = Some w \<and>
     decodes (mp_decode_to_lua_array dec (length t) (int (length ([] :: lua_table)) + 1) []) w (LTable ([] @ t))"
  proof (rule decode_array_items)
    show "\<forall>e \<in> set t. \<exists>w. wire rawlen left (snd e) = Some w \<and> decodes dec w (snd e)"
      using ok items by simp
    have "map fst t ! i = LNumber (dbl_of_int (int i + 1))" if "i < length t" for i
      using t(3) that by (simp add: proper_array_def)
    then show "\<forall>i < length t. fst (t ! i) = LNumber (dbl_of_int (int (length ([] :: lua_table) + i) + 1))" by simp
  qed (use t in simp_all)
  then show ?thesis
    using True t rawlen [OF t(3)] decode_container(1) [OF t(2)] proper_array_items [OF t(3,1), of "wire rawlen left"]
    by (auto simp: decodes_def)
next
  case False
  then have F: "table_is_an_array t = Some False" and t: "table_wf t" "length t < 2 ^ 31" using ok by auto
  have "\<exists>w. wconcat (map (\<lambda>(k, v). wcat (wire rawlen left k) (wire rawlen left v)) t) = Some w \<and>
     decodes (mp_decode_to_lua_hash dec (length t) []) w (LTable ([] @ t))"
    using ok items t by (intro decode_hash_items [of t "wire rawlen left" dec "[]"]) auto
  then show ?thesis
    using F decode_container(2) [OF t(2)] by (auto simp: decodes_def)
qed

lemma wire_decodes:
  assumes rawlen: "\<And>t. proper_array t \<Longrightarrow> rawlen t = length t"
  shows "rt_ok left v \<Longrightarrow> \<exists>w. wire rawlen left v = Some w \<and> decodes (mp_decode_to_lua_type (Suc left)) w v"
proof (induction left arbitrary: v)
  case 0
  then show ?case
    using decode_string decode_number decode_other_tagged by (cases v) (auto simp: decodes_def)
next
  case (Suc left)
  show ?case
  proof (cases v)
    case (LTable t)
    with Suc decode_table [OF _ _ rawlen, of left "mp_decode_to_lua_type (Suc left)" t] show ?thesis
      by (simp add: decodes_def)
  qed (use Suc.prems decode_string decode_number decode_other_tagged in \<open>auto simp: decodes_def\<close>)
qed

text \<open>
  C9. Round trip: \<open>pack\<close> of a value that satisfies \<open>rt_ok\<close> is defined, \<open>unpack\<close> gives the same value back,
  and with further bytes behind it reports extra bytes. The hypothesis on \<open>rawlen\<close> is what Lua documents of the length
  operator: the length of a table with exactly the keys \<open>1..n\<close> is \<open>n\<close>.
\<close>

theorem mp_unpack_pack:
  assumes "rt_ok LUACMSGPACK_MAX_NESTING v"
    and "\<And>t. proper_array t \<Longrightarrow> rawlen t = length t"
  shows "\<exists>s. mp_pack junk rawlen v = Some s \<and>
     (\<forall>r. mp_unpack tostr (Suc LUACMSGPACK_MAX_NESTING) (LString (s @ r)) =
        Some (if r = [] then Inr v else Inl ExtraBytes))"
proof -
  obtain s where s: "wire rawlen LUACMSGPACK_MAX_NESTING v = Some s"
    "decodes (mp_decode_to_lua_type (Suc LUACMSGPACK_MAX_NESTING)) s v"
    using wire_decodes [OF assms(2,1)] by auto
  then show ?thesis
    by (simp add: mp_pack_eq_wire mp_unpack_def decodes_def)
qed


lemma rt_small_int:
  assumes "\<bar>k\<bar> < 2 ^ 53"
  shows "rt_number (dbl_of_int k)" "\<not> dbl_is_nan (dbl_of_int k)"
    "dbl_to_int64 (dbl_of_int k) = Some (word_of_int k)" "sint (word_of_int k :: uint64) = k"
proof -
  show i64: "dbl_to_int64 (dbl_of_int k) = Some (word_of_int k)"
    using assms dbl_of_int_exact(1) [OF assms] by (auto simp: dbl_to_int64_def)
  have "dbl_of_int k \<noteq> push_bit 63 1" by (rule dbl_of_int_not_neg_zero [OF assms])
  then show "rt_number (dbl_of_int k)"
    by (simp add: rt_number_def i64)
  show "\<not> dbl_is_nan (dbl_of_int k)" by (rule dbl_of_int_exact [OF assms])
  show "sint (word_of_int k :: uint64) = k"
    using assms by (simp add: signed_of_int signed_take_bit_int_eq_self)
qed

lemma dbl_eq_of_int:
  assumes "\<bar>i\<bar> < 2 ^ 53" "\<bar>j\<bar> < 2 ^ 53"
  shows "dbl_eq (dbl_of_int i) (dbl_of_int j) \<longleftrightarrow> i = j"
proof -
  have z: "k = 0" if "dbl_mag (dbl_of_int k) = 0" "\<bar>k\<bar> < 2 ^ 53" for k
    using that dbl_of_int_exact(1) [OF that(2)] by (simp add: dbl_trunc_def DINF_def ieee_unpack_def split: if_splits)
  show ?thesis
    using z [OF _ assms(1)] z [OF _ assms(2)]
      dbl_of_int_exact(3) [OF assms(1)] dbl_of_int_exact(3) [OF assms(2)] dbl_of_int_inj [OF assms]
    by (auto simp: dbl_eq_def)
qed

theorem mp_unpack_pack_witness:
  "\<exists>s. mp_pack 0 length (LTable [(LString [107], LBool True), (LNumber (dbl_of_int 3), LTable [(LNumber (dbl_of_int 1), LString [97])])]) = Some s \<and>
     mp_unpack (\<lambda>_. []) 17 (LString s) =
       Some (Inr (LTable [(LString [107], LBool True), (LNumber (dbl_of_int 3), LTable [(LNumber (dbl_of_int 1), LString [97])])]))"
  (is "\<exists>s. mp_pack 0 length ?v = Some s \<and> _")
proof -
  have "rt_ok (Suc (Suc m)) ?v" for m
    by (simp add: table_wf_def rt_small_int table_is_an_array_def proper_array_def dbl_eq_def)
  from this [of 14] have "rt_ok LUACMSGPACK_MAX_NESTING ?v"
    by (simp add: LUACMSGPACK_MAX_NESTING_def)
  then show ?thesis
    using mp_unpack_pack [of ?v length 0 "\<lambda>_. []"] by (auto simp: LUACMSGPACK_MAX_NESTING_def dest: spec [of _ "[]"])
qed

text \<open>
  \<open>table_is_an_array\<close> compares the number of entries with the last key visited, not with the greatest
  one: a table whose keys are visited in the order \<open>1, 5, 3\<close> is taken for an array of the length Lua reports (3 is a
  valid length: entry 4 is nil), and the entry under key 5 is lost on the way.
\<close>

theorem table_is_an_array_last_key:
  "\<exists>s. table_is_an_array [(LNumber (dbl_of_int 1), LBool True), (LNumber (dbl_of_int 5), LBool True), (LNumber (dbl_of_int 3), LBool True)] = Some True \<and>
   mp_pack junk (\<lambda>t. 3) (LTable [(LNumber (dbl_of_int 1), LBool True), (LNumber (dbl_of_int 5), LBool True), (LNumber (dbl_of_int 3), LBool True)]) = Some s \<and>
   mp_unpack tostr 17 (LString s) = Some (Inr (LTable [(LNumber (dbl_of_int 1), LBool True), (LNumber (dbl_of_int 3), LBool True)]))"
proof -
  let ?t = "[(LNumber (dbl_of_int 1), LBool True), (LNumber (dbl_of_int 5), LBool True), (LNumber (dbl_of_int 3), LBool True)]"
  have arr: "table_is_an_array ?t = Some True"
    by (simp add: table_is_an_array_def rt_small_int dbl_eq_of_int)
  have "mp_container_bytes 0x90 0xdc 0xdd 3 = [0x93]"
    by (simp add: mp_container_bytes_def)
  have "wire (\<lambda>t. 3) (Suc m) (LTable ?t) = Some [0x93, 0xc3, 0xc0, 0xc3]" for m
    using \<open>mp_container_bytes 0x90 0xdc 0xdd 3 = [0x93]\<close>
    by (simp add: arr dbl_eq_of_int upt_rec)
  from this [of 15] have w: "mp_pack junk (\<lambda>t. 3) (LTable ?t) = Some [0x93, 0xc3, 0xc0, 0xc3]"
    by (simp add: mp_pack_eq_wire LUACMSGPACK_MAX_NESTING_def)
  have "mp_decode_to_lua_type (Suc (Suc m)) (mp_cur_new [0x93, 0xc3, 0xc0, 0xc3]) =
     Some (Inr (LTable [(LNumber (dbl_of_int 1), LBool True), (LNumber (dbl_of_int 3), LBool True)], mp_cur_new []))" for m
    using decode_untagged [of "0x93" "mp_decode_to_lua_type (Suc m)" "[0xc3, 0xc0, 0xc3]"]
    by (simp add: decode_other_tagged numeral_3_eq_3 lua_settable_def rt_small_int dbl_eq_of_int)
  from this [of 15] show ?thesis
    using w arr by (simp add: mp_unpack_def)
qed

section \<open>Totality and memory safety of the decoder\<close>

text \<open>
  The only inputs that make the decoder read behind its input hold the 32-bit string header with a
  length of at least \<open>0xfffffffb\<close>.
\<close>

definition overlong :: "byte list \<Rightarrow> bool" where
  "overlong s \<longleftrightarrow> (\<exists>a x b. s = a @ [0xdb, 0xff, 0xff, 0xff, x] @ b \<and> 0xfb \<le> x)"

definition safe_result :: "byte list \<Rightarrow> mp_res option \<Rightarrow> bool" where
  "safe_result s res \<longleftrightarrow>
     (case res of None \<Rightarrow> False
      | Some (Inl e) \<Rightarrow> (e = MP_OVERREAD \<longrightarrow> overlong s) \<and> (e = MP_INT_OVERFLOW \<longrightarrow> 2 ^ 31 - 1 \<le> length s)
      | Some (Inr (v, c)) \<Rightarrow> \<exists>n. 0 < n \<and> n \<le> length s \<and> c = mp_cur_new (drop n s))"

lemma overlong_drop: "overlong (drop n s) \<Longrightarrow> overlong s"
  unfolding overlong_def by (metis append.assoc append_take_drop_id)

lemma safe_if: "(c \<Longrightarrow> safe_result s x) \<Longrightarrow> (\<not> c \<Longrightarrow> safe_result s y) \<Longrightarrow> safe_result s (if c then x else y)"
  by simp

lemma safe_need: "(n \<le> length s \<Longrightarrow> safe_result s k) \<Longrightarrow> safe_result s (mp_cur_need (mp_cur_new s) n k)"
  by (auto simp: mp_cur_need_def safe_result_def)

lemma safe_read: "n \<le> length s \<Longrightarrow> safe_result s k \<Longrightarrow> safe_result s (mp_read (mp_cur_new s) n k)"
  by (simp add: mp_read_def)

lemma safe_push: "0 < n \<Longrightarrow> n \<le> length s \<Longrightarrow> safe_result s (Some (Inr (v, mp_cur_consume (mp_cur_new s) n)))"
  by (auto simp: safe_result_def mp_cur_consume_new)

lemma safe_push_int: "0 < n \<Longrightarrow> n \<le> length s \<Longrightarrow> safe_result s (push_int (mp_cur_new s) n k)"
  by (simp add: push_int_def safe_push)

lemma safe_lstring:
  assumes "0 < off" "off \<le> length s" "off + unat l \<le> length s \<or> overlong s"
  shows "safe_result s (push_lstring (mp_cur_new s) off l)"
proof (cases "unat l \<le> length s - off")
  case True
  then show ?thesis using assms by (auto simp: push_lstring_def intro!: safe_push)
next
  case False
  then show ?thesis using assms by (auto simp: push_lstring_def safe_result_def)
qed

lemma safe_bind:
  assumes dec: "\<And>s'. length s' < length s \<Longrightarrow> safe_result s' (dec (mp_cur_new s'))"
    and m: "0 < m" "m \<le> length s"
    and cont: "\<And>v k. m < k \<Longrightarrow> k \<le> length s \<Longrightarrow> safe_result s (cont v (mp_cur_new (drop k s)))"
  shows "safe_result s (case dec (mp_cur_new (drop m s)) of None \<Rightarrow> None
     | Some (Inl e) \<Rightarrow> Some (Inl e) | Some (Inr (v, c)) \<Rightarrow> cont v c)"
proof -
  have d: "safe_result (drop m s) (dec (mp_cur_new (drop m s)))"
    using m by (intro dec) auto
  then consider e where "dec (mp_cur_new (drop m s)) = Some (Inl e)" "e = MP_OVERREAD \<longrightarrow> overlong s" "e = MP_INT_OVERFLOW \<longrightarrow> 2 ^ 31 - 1 \<le> length s"
    | v k where "dec (mp_cur_new (drop m s)) = Some (Inr (v, mp_cur_new (drop k (drop m s))))"
        "k \<le> length (drop m s)" "0 < k"
    by (cases "dec (mp_cur_new (drop m s))" rule: option.exhaust)
      (auto simp: safe_result_def split: sum.splits dest: overlong_drop intro: le_trans [OF _ diff_le_self])
  then show ?thesis
  proof cases
    case (1 e)
    then show ?thesis by (simp add: safe_result_def)
  next
    case (2 v k)
    then show ?thesis using cont [of "k + m" v] m by simp
  qed
qed

lemma safe_array:
  assumes "\<And>s'. length s' < length s \<Longrightarrow> safe_result s' (dec (mp_cur_new s'))" "0 < m" "m \<le> length s" "i \<le> int m"
  shows "safe_result s (mp_decode_to_lua_array dec n i t (mp_cur_new (drop m s)))"
  using assms(2-4)
proof (induction n arbitrary: i t m)
  case 0
  then show ?case by (auto simp: safe_result_def)
next
  case (Suc n)
  show ?case
    unfolding mp_decode_to_lua_array.simps
  proof (rule safe_if)
    show "safe_result s (Some (Inl MP_INT_OVERFLOW))" if "i = 2 ^ 31 - 1" using that Suc.prems by (auto simp: safe_result_def)
    show "safe_result s (case dec (mp_cur_new (drop m s)) of None \<Rightarrow> None | Some (Inl e) \<Rightarrow> Some (Inl e)
      | Some (Inr (v, c')) \<Rightarrow> (case lua_settable t (LNumber (dbl_of_int i)) v of Inl e \<Rightarrow> Some (Inl (MP_LUA_ERROR e))
          | Inr t' \<Rightarrow> mp_decode_to_lua_array dec n (i + 1) t' c'))"
      using Suc by (intro safe_bind assms(1)) (auto simp: safe_result_def split: sum.split)
  qed
qed

lemma safe_hash:
  assumes "\<And>s'. length s' < length s \<Longrightarrow> safe_result s' (dec (mp_cur_new s'))" "0 < m" "m \<le> length s"
  shows "safe_result s (mp_decode_to_lua_hash dec n t (mp_cur_new (drop m s)))"
  using assms(2,3)
proof (induction n arbitrary: t m)
  case 0
  then show ?case by (auto simp: safe_result_def)
next
  case (Suc n)
  show ?case
    unfolding mp_decode_to_lua_hash.simps
    using Suc by (intro safe_bind assms(1)) (auto simp: safe_result_def split: sum.split)
qed

lemma safe_array_consume:
  assumes "\<And>s'. length s' < length s \<Longrightarrow> safe_result s' (dec (mp_cur_new s'))" "0 < m" "m \<le> length s"
  shows "safe_result s (mp_decode_to_lua_array dec n 1 t (mp_cur_consume (mp_cur_new s) m))"
    "safe_result s (mp_decode_to_lua_hash dec n t (mp_cur_consume (mp_cur_new s) m))"
  using assms safe_array [of s dec m 1 n t] safe_hash [of s dec m n t] by (simp_all add: mp_cur_consume_new)

lemma unat_scast_32_64:
  "unat (scast (w :: uint32) :: size_t) = (if unat w < 2 ^ 31 then unat w else 2 ^ 64 - 2 ^ 32 + unat w)"
proof -
  have lt: "uint w < 2 ^ 32" using unsigned_less [of w, where 'a = int] by simp
  have "uint w div 2 ^ 31 = (if uint w < 2 ^ 31 then 0 else 1)"
    using lt div_pos_pos_trivial [of "uint w" "2 ^ 31"]
      div_pos_pos_trivial [of "uint w - 2 ^ 31" "2 ^ 31"] by (auto simp: div_add_self2)
  then have "bit (uint w) 31 = (\<not> uint w < 2 ^ 31)"
    by (simp add: bit_iff_odd split: if_splits)
  moreover have "sint w = take_bit 32 (uint w) - 2 ^ 32 * of_bool (bit (uint w) 31)"
    by (simp add: sint_uint signed_take_bit_eq_take_bit_minus)
  ultimately have s: "sint w = (if uint w < 2 ^ 31 then uint w else uint w - 2 ^ 32)"
    using lt by (simp add: take_bit_int_eq_self)
  have "uint (scast w :: size_t) = sint w mod 2 ^ 64"
  proof -
    have "(scast w :: size_t) = word_of_int (sint w)" by simp
    then show ?thesis by (simp only: uint_word_of_int) simp
  qed
  also have "\<dots> = (if uint w < 2 ^ 31 then uint w else 2 ^ 64 - 2 ^ 32 + uint w)"
  proof (cases "uint w < 2 ^ 31")
    case False
    have "(uint w - 2 ^ 32 + 2 ^ 64) mod 2 ^ 64 = uint w - 2 ^ 32 + 2 ^ 64"
      using lt by (intro mod_pos_pos_trivial) simp_all
    then have "(uint w - 2 ^ 32) mod 2 ^ 64 = uint w - 2 ^ 32 + 2 ^ 64"
      by (simp only: mod_add_self2)
    then show ?thesis using False s by simp
  qed (use lt s in simp)
  finally have r: "uint (scast w :: size_t) = (if uint w < 2 ^ 31 then uint w else 2 ^ 64 - 2 ^ 32 + uint w)" .
  have "(int (unat w) < int (2 ^ 31)) = (uint w < 2 ^ 31)" by simp
  then have iff: "(unat w < 2 ^ 31) = (uint w < 2 ^ 31)" by (simp only: of_nat_less_iff)
  have "int (unat (scast w :: size_t)) = int (if unat w < 2 ^ 31 then unat w else 2 ^ 64 - 2 ^ 32 + unat w)"
    using r unfolding iff by (cases "uint w < 2 ^ 31") simp_all
  then show ?thesis by (simp only: of_nat_eq_iff)
qed

lemma be16_less: "unat (be16 p) < 2 ^ 16"
proof -
  have "take_bit 16 (be16 p) = be16 p"
    by (rule bit_eqI) (auto simp: be16_def bit_simps dest: bit_imp_le_length)
  then show ?thesis by (metis take_bit_nat_less_exp unsigned_take_bit_eq)
qed

lemma be32_parts:
  "p ! 1 = ucast (drop_bit 24 (be32 p))" "p ! 2 = ucast (drop_bit 16 (be32 p))"
  "p ! 3 = ucast (drop_bit 8 (be32 p))" "p ! 4 = ucast (be32 p)"
  by ((rule bit_eqI, auto simp: be32_def bit_simps dest: bit_imp_le_length)[1])+

lemma safe_str16:
  assumes "3 \<le> length s" "unat (3 + (scast (be16 s) :: size_t)) \<le> length s"
  shows "safe_result s (push_lstring (mp_cur_new s) 3 (scast (be16 s)))"
  using assms be16_less [of s]
  by (intro safe_lstring) (auto simp: unat_word_ariths unat_scast_32_64)

lemma safe_str32:
  assumes "5 \<le> length s" "unat (5 + (scast (be32 s) :: size_t)) \<le> length s" "s ! 0 = 0xdb"
  shows "safe_result s (push_lstring (mp_cur_new s) 5 (scast (be32 s)))"
proof (rule safe_lstring)
  show "5 + unat (scast (be32 s) :: size_t) \<le> length s \<or> overlong s"
  proof (cases "unat (be32 s) < 2 ^ 32 - 5")
    case True
    then show ?thesis using assms(2) by (auto simp: unat_word_ariths unat_scast_32_64 split: if_splits)
  next
    case False
    have "unat (be32 s) < 2 ^ 32" using unsigned_less [of "be32 s", where 'a = nat] by simp
    with False have "unat (be32 s) \<in> {4294967291, 4294967292, 4294967293, 4294967294, 4294967295}" by auto
    then have "be32 s \<in> {4294967291, 4294967292, 4294967293, 4294967294, 4294967295}"
      by (auto simp: word_unat_eq_iff)
    then have "s ! 1 = 0xff" "s ! 2 = 0xff" "s ! 3 = 0xff" "0xfb \<le> s ! 4"
      using be32_parts [of s] by auto
    moreover obtain r where "s = s ! 0 # s ! 1 # s ! 2 # s ! 3 # s ! 4 # r"
      using assms(1) by (auto simp: numeral_eq_Suc Suc_le_length_iff)
    ultimately have "s = [] @ [0xdb, 0xff, 0xff, 0xff, s ! 4] @ r" using assms(3) by simp
    with \<open>0xfb \<le> s ! 4\<close> show ?thesis unfolding overlong_def by blast
  qed
qed (use assms in simp_all)

lemma safe_step:
  assumes "\<And>s'. length s' < length s \<Longrightarrow> safe_result s' (dec (mp_cur_new s'))"
  shows "safe_result s (mp_decode_step dec (mp_cur_new s))"
proof -
  have fixstr: "safe_result s (push_lstring (mp_cur_new s) 1 (ucast (b AND 0x1f)))"
    if "1 \<le> length s" "unat (1 + (ucast (b AND 0x1f) :: size_t)) \<le> length s" for b :: byte
    using that by (intro safe_lstring) (auto simp: unat_word_ariths unat_ucast_up and_high_bits)
  show ?thesis
    unfolding mp_decode_step_def Let_def cur_new
    by (intro safe_need safe_read safe_if safe_push_int safe_push safe_array_consume
        safe_str16 safe_str32 fixstr assms; simp)
       (auto simp: safe_result_def)
qed

lemma decode_safe: "length s < fuel \<Longrightarrow> safe_result s (mp_decode_to_lua_type fuel (mp_cur_new s))"
  by (induction fuel arbitrary: s) (auto intro!: safe_step)

text \<open>More fuel never changes a result.\<close>

definition extends :: "'a option \<Rightarrow> 'a option \<Rightarrow> bool" where
  "extends x y \<longleftrightarrow> (\<forall>r. x = Some r \<longrightarrow> y = Some r)"

lemma extends_refl: "extends x x"
  by (simp add: extends_def)

lemma extends_if: "extends x x' \<Longrightarrow> extends y y' \<Longrightarrow> extends (if c then x else y) (if c then x' else y')"
  by simp

lemma extends_need: "extends x y \<Longrightarrow> extends (mp_cur_need c n x) (mp_cur_need c n y)"
  by (simp add: mp_cur_need_def extends_refl)

lemma extends_read: "extends x y \<Longrightarrow> extends (mp_read c n x) (mp_read c n y)"
  by (simp add: mp_read_def extends_refl)

lemma extends_array:
  assumes "\<And>c. extends (dec c) (dec' c)"
  shows "extends (mp_decode_to_lua_array dec n i t c) (mp_decode_to_lua_array dec' n i t c)"
proof (induction n arbitrary: i t c)
  case (Suc n)
  show ?case
    using assms [of c] Suc by (cases "dec c") (auto simp: extends_def split: sum.splits)
qed (simp add: extends_refl)

lemma extends_hash:
  assumes "\<And>c. extends (dec c) (dec' c)"
  shows "extends (mp_decode_to_lua_hash dec n t c) (mp_decode_to_lua_hash dec' n t c)"
proof (induction n arbitrary: t c)
  case (Suc n)
  show ?case
  proof (cases "dec c")
    case (Some res)
    then have d: "dec' c = Some res" using assms [of c] by (simp add: extends_def)
    show ?thesis
    proof (cases res)
      case (Inr p)
      obtain k c' where "p = (k, c')" by fastforce
      then show ?thesis
        using Inr Some d assms [of c'] Suc by (cases "dec c'") (auto simp: extends_def split: sum.splits)
    qed (simp add: Some d extends_refl)
  qed (simp add: extends_def)
qed (simp add: extends_refl)

lemma extends_step: "(\<And>c. extends (dec c) (dec' c)) \<Longrightarrow> extends (mp_decode_step dec c) (mp_decode_step dec' c)"
  unfolding mp_decode_step_def Let_def
  by (intro extends_need extends_read extends_if extends_array extends_hash extends_refl)

lemma decode_fuel_mono: "fuel \<le> fuel' \<Longrightarrow> extends (mp_decode_to_lua_type fuel c) (mp_decode_to_lua_type fuel' c)"
proof (induction fuel arbitrary: fuel' c)
  case 0
  then show ?case by (simp add: extends_def)
next
  case (Suc fuel)
  then obtain f where "fuel' = Suc f" "fuel \<le> f" by (cases fuel') auto
  with Suc.IH show ?case by (auto intro: extends_step)
qed

text \<open>
  C23. \<open>unpack\<close> always returns: recursion no deeper than the length of the input is enough, and the
  result does not depend on the bound.
\<close>

theorem mp_unpack_total:
  assumes "length s < fuel"
  shows "mp_unpack tostr fuel (LString s) = mp_unpack tostr (Suc (length s)) (LString s) \<and>
     (\<exists>res. mp_unpack tostr fuel (LString s) = Some res)"
proof -
  obtain res where res: "mp_decode_to_lua_type (Suc (length s)) (mp_cur_new s) = Some res"
    using decode_safe [of s "Suc (length s)"] by (auto simp: safe_result_def split: option.splits)
  then have eq: "mp_decode_to_lua_type fuel (mp_cur_new s) = Some res"
    using decode_fuel_mono [of "Suc (length s)" fuel "mp_cur_new s"] assms by (simp add: extends_def)
  show ?thesis
  proof (cases res)
    case (Inl e)
    then show ?thesis using res eq by (cases e) (simp_all add: mp_unpack_def del: mp_decode_to_lua_type.simps)
  next
    case (Inr p)
    then show ?thesis using res eq by (cases p) (simp add: mp_unpack_def del: mp_decode_to_lua_type.simps)
  qed
qed

theorem mp_unpack_total_witness:
  "\<exists>res. mp_unpack (\<lambda>_. []) 8 (LString [0x92, 0xc0, 0xc1]) = Some res"
  by (rule conjunct2 [OF mp_unpack_total]) simp

lemma decode_raw32_overread:
  "mp_decode_step dec (mp_cur_new [0xdb, 0xff, 0xff, 0xff, 0xff]) = Some (Inl MP_OVERREAD)"
proof -
  have "be32 [0, 255, 255, 255, 255] = 4294967295" by (simp add: be32_def)
  moreover have "unat (scast (4294967295 :: uint32) :: size_t) = 2 ^ 64 - 1"
    by (subst unat_scast_32_64) simp
  moreover have "unat (5 + scast (4294967295 :: uint32) :: size_t) = 4"
    by simp
  ultimately show ?thesis
    unfolding decode_str_tagged Let_def mp_cur_need_def push_lstring_def cur_new by simp
qed

text \<open>
  C35. Memory safety of \<open>unpack\<close> up to one format: every read of the decoder, of the type byte, of the fixed-size numbers and lengths behind it and of the bytes of a string,
  is inside the input unless the input holds the header of a 32-bit string whose length is \<open>0xfffffffb\<close> or more; and the
  \<open>int\<close> that counts array elements overflows only on inputs of \<open>2 ^ 31 - 1\<close> bytes or more.
\<close>

theorem mp_unpack_overread_only:
  shows "(mp_unpack tostr fuel (LString s) = Some (Inl Overread) \<longrightarrow> (\<exists>a x b. s = a @ [0xdb, 0xff, 0xff, 0xff, x] @ b \<and> 0xfb \<le> x)) \<and>
    (mp_unpack tostr fuel (LString s) = Some (Inl IntOverflow) \<longrightarrow> 2 ^ 31 - 1 \<le> length s)"
proof -
  have r: "safe_result s (Some (Inl e))" if "mp_decode_to_lua_type fuel (mp_cur_new s) = Some (Inl e)" for e
  proof -
    have "extends (mp_decode_to_lua_type fuel (mp_cur_new s)) (mp_decode_to_lua_type (fuel + Suc (length s)) (mp_cur_new s))"
      by (rule decode_fuel_mono) simp
    then have "mp_decode_to_lua_type (fuel + Suc (length s)) (mp_cur_new s) = Some (Inl e)" using that by (simp add: extends_def)
    then show ?thesis using decode_safe [of s "fuel + Suc (length s)"] by (simp del: mp_decode_to_lua_type.simps)
  qed
  have "mp_unpack tostr fuel (LString s) = Some (Inl Overread) \<Longrightarrow> mp_decode_to_lua_type fuel (mp_cur_new s) = Some (Inl MP_OVERREAD)"
    "mp_unpack tostr fuel (LString s) = Some (Inl IntOverflow) \<Longrightarrow> mp_decode_to_lua_type fuel (mp_cur_new s) = Some (Inl MP_INT_OVERFLOW)"
    by (auto simp: mp_unpack_def split: option.splits sum.splits mp_err.splits if_splits)
  then show ?thesis using r by (auto simp: safe_result_def overlong_def)
qed

theorem mp_unpack_overread_only_witness:
  "\<exists>a x b. [0xdb, 0xff, 0xff, 0xff, 0xff :: byte] = a @ [0xdb, 0xff, 0xff, 0xff, x] @ b \<and> 0xfb \<le> x"
  using mp_unpack_overread_only [of "\<lambda>_. []" "Suc 0" "[0xdb, 0xff, 0xff, 0xff, 0xff]"]
  by (simp add: mp_unpack_def decode_raw32_overread)

text \<open>
  The length of a 32-bit string is sign-extended and \<open>5 + l\<close> wraps around: the five bytes
  \<open>db ff ff ff ff\<close> pass the length check, and \<open>lua_pushlstring\<close> is called for \<open>2 ^ 64 - 1\<close> bytes.
\<close>

theorem mp_unpack_raw32_overread:
  "mp_unpack tostr (Suc fuel) (LString [0xdb, 0xff, 0xff, 0xff, 0xff]) = Some (Inl Overread)"
  by (simp add: mp_unpack_def decode_raw32_overread)

end
