(* ===== verification/Rfc1321.thy ===== *)
theory Rfc1321
  imports Complex_Main Prelude
begin

text \<open>
  The MD5 message digest as RFC 1321 defines it, independently of the code: the auxiliary functions, the table made from the sine function,
  the steps of the four rounds with the index and shift tables of section 3.4, the padding, and the byte order of words. Words are decoded and encoded arithmetically.
  The second part computes the table: no constant of it is taken from the code.
\<close>

section \<open>The definition\<close>

type_synonym rfc_regs = "uint32 \<times> uint32 \<times> uint32 \<times> uint32"

definition rfc_F :: "uint32 \<Rightarrow> uint32 \<Rightarrow> uint32 \<Rightarrow> uint32" where
  "rfc_F X Y Z = (X AND Y) OR (NOT X AND Z)"

definition rfc_G :: "uint32 \<Rightarrow> uint32 \<Rightarrow> uint32 \<Rightarrow> uint32" where
  "rfc_G X Y Z = (X AND Z) OR (Y AND NOT Z)"

definition rfc_H :: "uint32 \<Rightarrow> uint32 \<Rightarrow> uint32 \<Rightarrow> uint32" where
  "rfc_H X Y Z = X XOR Y XOR Z"

definition rfc_I :: "uint32 \<Rightarrow> uint32 \<Rightarrow> uint32 \<Rightarrow> uint32" where
  "rfc_I X Y Z = Y XOR (X OR NOT Z)"

text \<open>\<open>T[i]\<close>, for \<open>i\<close> from 1 to 64: the integer part of 4294967296 times \<open>abs(sin(i))\<close>, with \<open>i\<close> in radians\<close>

definition rfc_T :: "nat \<Rightarrow> uint32" where
  "rfc_T i = of_int \<lfloor>4294967296 * \<bar>sin (real i)\<bar>\<rfloor>"

text \<open>The operations \<open>[abcd k s i]\<close> of the rounds, in order: the index \<open>k\<close> into the block and the shift \<open>s\<close>\<close>

definition rfc_k :: "nat list" where
  "rfc_k = [0, 1, 2, 3, 4, 5, 6, 7, 8, 9, 10, 11, 12, 13, 14, 15,
     1, 6, 11, 0, 5, 10, 15, 4, 9, 14, 3, 8, 13, 2, 7, 12,
     5, 8, 11, 14, 1, 4, 7, 10, 13, 0, 3, 6, 9, 12, 15, 2,
     0, 7, 14, 5, 12, 3, 10, 1, 8, 15, 6, 13, 4, 11, 2, 9]"

definition rfc_s :: "nat list" where
  "rfc_s = concat (map (\<lambda>s. s @ s @ s @ s) [[7, 12, 17, 22], [5, 9, 14, 20], [4, 11, 16, 23], [6, 10, 15, 21]])"

definition rfc_f :: "nat \<Rightarrow> uint32 \<Rightarrow> uint32 \<Rightarrow> uint32 \<Rightarrow> uint32" where
  "rfc_f i = [rfc_F, rfc_G, rfc_H, rfc_I] ! (i div 16)"

text \<open>\<open>a = b + ((a + f(b,c,d) + X[k] + T[i]) <<< s)\<close>; the next operation has the registers rotated by one place.\<close>

fun rfc_step :: "uint32 list \<Rightarrow> nat \<Rightarrow> rfc_regs \<Rightarrow> rfc_regs" where
  "rfc_step X i (a, b, c, d) =
     (d, b + word_rotl (rfc_s ! i) (a + rfc_f i b c d + X ! (rfc_k ! i) + rfc_T (Suc i)), b, c)"

definition rfc_compress :: "uint32 list \<Rightarrow> rfc_regs \<Rightarrow> rfc_regs" where
  "rfc_compress X AA = (case AA of (A, B, C, D) \<Rightarrow> case fold (rfc_step X) [0..<64] AA of (a, b, c, d) \<Rightarrow> (A + a, B + b, C + c, D + d))"

text \<open>A word is four bytes with the low-order byte first.\<close>

definition rfc_word :: "byte list \<Rightarrow> uint32" where
  "rfc_word bs = (\<Sum>i<4. of_nat (256 ^ i * unat (bs ! i)))"

definition rfc_bytes :: "nat \<Rightarrow> nat \<Rightarrow> byte list" where
  "rfc_bytes n v = map (\<lambda>i. of_nat (v div 256 ^ i)) [0..<n]"

definition rfc_block :: "byte list \<Rightarrow> uint32 list" where
  "rfc_block bs = map (\<lambda>i. rfc_word (drop (4 * i) bs)) [0..<16]"

definition rfc_init :: rfc_regs where
  "rfc_init = (rfc_word [0x01, 0x23, 0x45, 0x67], rfc_word [0x89, 0xab, 0xcd, 0xef],
     rfc_word [0xfe, 0xdc, 0xba, 0x98], rfc_word [0x76, 0x54, 0x32, 0x10])"

text \<open>
  A one bit, zeros until the length is eight bytes short of a multiple of 64, and the length in bits before the padding, as eight
  bytes; of a length beyond \<open>2 ^ 64\<close> only the low-order 64 bits.
\<close>

definition rfc_zeros :: "nat \<Rightarrow> nat" where
  "rfc_zeros n = (LEAST z. (n + 1 + z) mod 64 = 56)"

definition rfc_pad :: "byte list \<Rightarrow> byte list" where
  "rfc_pad msg = msg @ 0x80 # replicate (rfc_zeros (length msg)) 0 @ rfc_bytes 8 (8 * length msg)"

function rfc_blocks :: "byte list \<Rightarrow> rfc_regs \<Rightarrow> rfc_regs" where
  "rfc_blocks bs d = (if bs = [] then d else rfc_blocks (drop 64 bs) (rfc_compress (rfc_block bs) d))"
  by pat_completeness auto
termination
  by (relation "measure (\<lambda>(bs, d). length bs)") auto

declare rfc_blocks.simps [simp del]

definition md5_rfc :: "byte list \<Rightarrow> byte list" where
  "md5_rfc msg = (case rfc_blocks (rfc_pad msg) rfc_init of (a, b, c, d) \<Rightarrow>
     rfc_bytes 4 (unat a) @ rfc_bytes 4 (unat b) @ rfc_bytes 4 (unat c) @ rfc_bytes 4 (unat d))"

lemma rfc_blocks_Nil: "rfc_blocks [] d = d"
  by (simp add: rfc_blocks.simps)

lemma rfc_zeros_eq: "rfc_zeros n = (119 - n mod 64) mod 64"
proof -
  define r where "r = n mod 64"
  have r: "r < 64" "(n + 1 + z) mod 64 = (r + 1 + z) mod 64" for z
    unfolding r_def by (simp, metis add.assoc mod_add_left_eq)
  have q: "(119 - r) mod 64 = (if r \<le> 55 then 55 - r else 119 - r)"
  proof (cases "r \<le> 55")
    case True
    then have "119 - r = 64 + (55 - r)" by simp
    then show ?thesis using True by (simp only: mod_add_self1) simp
  qed simp
  show ?thesis
    unfolding rfc_zeros_def r(2) r_def [symmetric]
  proof (rule Least_equality)
    show "(r + 1 + (119 - r) mod 64) mod 64 = 56" unfolding q using r(1) by (auto simp: mod_if)
    fix z assume "(r + 1 + z) mod 64 = 56"
    then obtain k where "r + 1 + z = 64 * k + 56" by (metis mult_div_mod_eq)
    moreover have "55 < r \<Longrightarrow> 1 \<le> k" using calculation r(1) by (cases k) auto
    ultimately show "(119 - r) mod 64 \<le> z" unfolding q by (cases "r \<le> 55"; cases k) auto
  qed
qed

section \<open>The table\<close>

text \<open>
  Sine and cosine of the integers in fixed point with 60 binary digits, from those of 1 by the addition theorems. The errors add up.
\<close>

definition fix_one :: int where
  "fix_one = 2 ^ 60"

definition sin_1 :: int where
  "sin_1 = 970149993887725315"

definition cos_1 :: int where
  "cos_1 = 622926147424044488"

primrec sin_cos :: "nat \<Rightarrow> int \<times> int" where
  "sin_cos 0 = (0, fix_one)"
| "sin_cos (Suc n) = (case sin_cos n of (s, c) \<Rightarrow> ((s * cos_1 + c * sin_1) div fix_one, (c * cos_1 - s * sin_1) div fix_one))"

definition fix_approx :: "real \<Rightarrow> int \<Rightarrow> real \<Rightarrow> bool" where
  "fix_approx x s e \<longleftrightarrow> \<bar>2 ^ 60 * x - of_int s\<bar> \<le> e"

lemma cos_bound: "\<bar>cos x - (\<Sum>m<n. cos_coeff m * x ^ m)\<bar> \<le> inverse (fact n) * \<bar>x\<bar> ^ n"
proof -
  obtain t where "cos x = (\<Sum>m<n. cos_coeff m * x ^ m) + cos (t + 1 / 2 * real n * pi) / fact n * x ^ n"
    using Maclaurin_cos_expansion [of x n] by blast
  then have "\<bar>cos x - (\<Sum>m<n. cos_coeff m * x ^ m)\<bar> = \<bar>cos (t + 1 / 2 * real n * pi)\<bar> * (\<bar>x\<bar> ^ n / fact n)"
    by (simp add: abs_mult power_abs)
  also have "\<dots> \<le> 1 * (\<bar>x\<bar> ^ n / fact n)" by (intro mult_right_mono) auto
  finally show ?thesis by (simp add: divide_inverse mult.commute)
qed

text \<open>A sum of rounded terms.\<close>

lemma sum_rounded:
  assumes "\<bar>x - (\<Sum>m<n. real_of_int (sg m) / fact m)\<bar> \<le> inverse (fact n)" and "\<And>m. \<bar>sg m\<bar> \<le> 1" and "2 ^ 60 \<le> (fact n :: real)"
  shows "fix_approx x (\<Sum>m<n. sg m * (fix_one div fact m)) (real n + 1)"
proof -
  have f: "\<bar>2 ^ 60 / fact m - of_int (fix_one div fact m)\<bar> \<le> (1 :: real)" for m
  proof -
    have "real_of_int (fix_one div fact m) = of_int \<lfloor>2 ^ 60 / (fact m :: real)\<rfloor>"
      using floor_divide_of_int_eq [of fix_one "fact m", where ?'a = real] by (simp add: fix_one_def)
    then show ?thesis by linarith
  qed
  define d where "d m = 2 ^ 60 * (real_of_int (sg m) / fact m) - of_int (sg m * (fix_one div fact m))" for m
  have "\<bar>d m\<bar> \<le> 1" for m
  proof -
    have "d m = of_int (sg m) * (2 ^ 60 / fact m - of_int (fix_one div fact m))" by (simp add: d_def algebra_simps)
    moreover have "\<bar>real_of_int (sg m)\<bar> \<le> 1" using assms(2) [of m] by linarith
    ultimately show ?thesis using mult_mono [of "\<bar>real_of_int (sg m)\<bar>" 1 "\<bar>2 ^ 60 / fact m - of_int (fix_one div fact m)\<bar>" "1 :: real"] f [of m]
      by (simp add: abs_mult)
  qed
  then have "(\<Sum>m<n. \<bar>d m\<bar>) \<le> (\<Sum>m<n. 1)" by (intro sum_mono)
  then have "\<bar>\<Sum>m<n. d m\<bar> \<le> real n" by (intro order_trans [OF sum_abs]) simp
  moreover have "\<bar>2 ^ 60 * (x - (\<Sum>m<n. real_of_int (sg m) / fact m))\<bar> \<le> 1"
  proof -
    have "\<bar>2 ^ 60 * (x - (\<Sum>m<n. real_of_int (sg m) / fact m))\<bar> \<le> 2 ^ 60 * inverse (fact n)"
      unfolding abs_mult using assms(1) by (simp add: mult_left_mono)
    also have "\<dots> \<le> 1" using assms(3) by (simp add: divide_simps)
    finally show ?thesis .
  qed
  ultimately show ?thesis
    unfolding fix_approx_def d_def by (simp add: sum_subtractf sum_distrib_left right_diff_distrib)
qed

lemma fact_22: "2 ^ 60 \<le> (fact 22 :: real)"
proof -
  have "2 ^ 60 \<le> (fact 22 :: nat)" by (simp add: fact_numeral)
  then show ?thesis by (metis of_nat_fact of_nat_le_iff of_nat_numeral of_nat_power)
qed

lemma sin_1_approx: "fix_approx (sin 1) sin_1 23"
proof -
  define sg :: "nat \<Rightarrow> int" where "sg m = (if even m then 0 else (- 1) ^ ((m - 1) div 2))" for m
  have "sin_1 = (\<Sum>m<22. sg m * (fix_one div fact m))" by (simp add: lessThan_nat_numeral sg_def sin_1_def fix_one_def fact_numeral)
  moreover have "sin_coeff m = real_of_int (sg m) / fact m" for m by (simp add: sin_coeff_def sg_def)
  then have "\<bar>sin 1 - (\<Sum>m<22. real_of_int (sg m) / fact m)\<bar> \<le> inverse (fact 22)"
    using Maclaurin_sin_bound [of 1 22] by simp
  then have "fix_approx (sin 1) (\<Sum>m<22. sg m * (fix_one div fact m)) (real 22 + 1)"
    using fact_22 by (intro sum_rounded) (auto simp: sg_def power_abs)
  ultimately show ?thesis by simp
qed

lemma cos_1_approx: "fix_approx (cos 1) cos_1 23"
proof -
  define sg :: "nat \<Rightarrow> int" where "sg m = (if even m then (- 1) ^ (m div 2) else 0)" for m
  have "cos_1 = (\<Sum>m<22. sg m * (fix_one div fact m))" by (simp add: lessThan_nat_numeral sg_def cos_1_def fix_one_def fact_numeral)
  moreover have "cos_coeff m = real_of_int (sg m) / fact m" for m by (simp add: cos_coeff_def sg_def)
  then have "\<bar>cos 1 - (\<Sum>m<22. real_of_int (sg m) / fact m)\<bar> \<le> inverse (fact 22)"
    using cos_bound [of 1 22] by simp
  then have "fix_approx (cos 1) (\<Sum>m<22. sg m * (fix_one div fact m)) (real 22 + 1)"
    using fact_22 by (intro sum_rounded) (auto simp: sg_def power_abs)
  ultimately show ?thesis by simp
qed

lemma fix_div: "\<bar>real_of_int a / 2 ^ 60 - of_int (a div fix_one)\<bar> \<le> 1"
proof -
  have "real_of_int (a div fix_one) = of_int \<lfloor>of_int a / (2 ^ 60 :: real)\<rfloor>"
    using floor_divide_of_int_eq [of a fix_one, where ?'a = real] by (simp add: fix_one_def)
  then show ?thesis by linarith
qed

text \<open>Sine and cosine are the parts of a complex number of absolute value 1, so that a multiplication does not enlarge the error.\<close>

definition fix_complex :: "int \<times> int \<Rightarrow> complex" where
  "fix_complex p = Complex (of_int (snd p)) (of_int (fst p))"

lemma cis_1_approx: "cmod (2 ^ 60 * cis 1 - fix_complex (sin_1, cos_1)) \<le> 46"
proof -
  have "cmod (2 ^ 60 * cis 1 - fix_complex (sin_1, cos_1)) \<le> \<bar>2 ^ 60 * cos 1 - of_int cos_1\<bar> + \<bar>2 ^ 60 * sin 1 - of_int sin_1\<bar>"
    using cmod_le [of "2 ^ 60 * cis 1 - fix_complex (sin_1, cos_1)"] by (simp add: fix_complex_def)
  then show ?thesis using sin_1_approx cos_1_approx unfolding fix_approx_def by linarith
qed

lemma sin_cos_step: "cmod (fix_complex (sin_cos n) * fix_complex (sin_1, cos_1) / 2 ^ 60 - fix_complex (sin_cos (Suc n))) \<le> 2"
proof -
  obtain s c where sc: "sin_cos n = (s, c)" by (cases "sin_cos n")
  let ?z = "fix_complex (sin_cos n) * fix_complex (sin_1, cos_1) / 2 ^ 60 - fix_complex (sin_cos (Suc n))"
  have p: "(2 ^ 60 :: complex) = of_real (2 ^ 60)" by simp
  have "?z = Complex (of_int (c * cos_1 - s * sin_1) / 2 ^ 60 - of_int ((c * cos_1 - s * sin_1) div fix_one))
      (of_int (s * cos_1 + c * sin_1) / 2 ^ 60 - of_int ((s * cos_1 + c * sin_1) div fix_one))"
    unfolding p by (simp add: sc fix_complex_def complex_eq_iff Re_divide_of_real Im_divide_of_real add.commute del: of_real_power of_real_numeral)
  then have "cmod ?z \<le> \<bar>of_int (c * cos_1 - s * sin_1) / 2 ^ 60 - of_int ((c * cos_1 - s * sin_1) div fix_one)\<bar> +
      \<bar>of_int (s * cos_1 + c * sin_1) / 2 ^ 60 - of_int ((s * cos_1 + c * sin_1) div fix_one)\<bar>"
    using cmod_le [of ?z] by (simp only: complex.sel)
  then show ?thesis using fix_div [of "c * cos_1 - s * sin_1"] fix_div [of "s * cos_1 + c * sin_1"] by linarith
qed

lemma sin_cos_approx: "n \<le> 64 \<Longrightarrow> cmod (2 ^ 60 * cis (real n) - fix_complex (sin_cos n)) \<le> 94 * real n"
proof (induction n)
  case 0
  show ?case by (simp add: fix_complex_def fix_one_def complex_eq_iff)
next
  case (Suc n)
  let ?K = "2 ^ 60 :: complex" and ?z = "fix_complex (sin_cos n)" and ?w = "fix_complex (sin_1, cos_1)"
  have IH: "cmod (?K * cis n - ?z) \<le> 94 * real n" using Suc by simp
  have "cmod ?z \<le> cmod (?K * cis n) + cmod (?K * cis n - ?z)" by (metis norm_minus_commute norm_triangle_sub)
  also have "\<dots> \<le> 2 ^ 60 + 94 * real n" using IH by (simp add: norm_mult norm_power)
  also have "\<dots> \<le> 2 * 2 ^ 60" using Suc.prems by simp
  finally have z: "cmod (?z / ?K) \<le> 2" by (simp add: norm_divide norm_power)
  have "?K * cis (Suc n) - ?z * ?w / ?K = cis 1 * (?K * cis n - ?z) + ?z / ?K * (?K * cis 1 - ?w)"
    by (simp add: field_simps cis_mult)
  then have "cmod (?K * cis (Suc n) - ?z * ?w / ?K) \<le> cmod (?K * cis n - ?z) + cmod (?z / ?K) * cmod (?K * cis 1 - ?w)"
    using norm_triangle_ineq [of "cis 1 * (?K * cis n - ?z)" "?z / ?K * (?K * cis 1 - ?w)"] by (simp add: norm_mult)
  also have "\<dots> \<le> 94 * real n + 2 * 46" using IH z cis_1_approx by (intro add_mono mult_mono) auto
  finally show ?case
    using sin_cos_step [of n] norm_triangle_ineq [of "?K * cis (Suc n) - ?z * ?w / ?K" "?z * ?w / ?K - fix_complex (sin_cos (Suc n))"]
    by simp
qed

text \<open>
  The integer part is found when the approximation is not too close to an integer. \<open>table_from\<close> compares a list of numbers
  with the values from some index on, carrying sine and cosine along.
\<close>

definition table_entry :: "int \<Rightarrow> int \<Rightarrow> bool" where
  "table_entry s v \<longleftrightarrow> v * fix_one + 6016 * 2 ^ 32 \<le> \<bar>s\<bar> * 2 ^ 32 \<and> \<bar>s\<bar> * 2 ^ 32 + 6016 * 2 ^ 32 < (v + 1) * fix_one"

fun table_from :: "int \<Rightarrow> int \<Rightarrow> int list \<Rightarrow> bool" where
  "table_from s c [] \<longleftrightarrow> True"
| "table_from s c (v # vs) \<longleftrightarrow> table_entry s v \<and>
     table_from ((s * cos_1 + c * sin_1) div fix_one) ((c * cos_1 - s * sin_1) div fix_one) vs"

lemma table_entry_floor:
  assumes "table_entry (fst (sin_cos i)) v" "i \<le> 64"
  shows "\<lfloor>4294967296 * \<bar>sin (real i)\<bar>\<rfloor> = v"
proof -
  let ?K = "2 ^ 60 :: real" and ?s = "real_of_int (fst (sin_cos i))"
  have "\<bar>?K * sin i - ?s\<bar> \<le> cmod (2 ^ 60 * cis (real i) - fix_complex (sin_cos i))"
    using abs_Im_le_cmod [of "2 ^ 60 * cis (real i) - fix_complex (sin_cos i)"] by (simp add: fix_complex_def)
  then have "\<bar>?K * sin i - ?s\<bar> \<le> 6016" using sin_cos_approx [OF assms(2)] assms(2) by simp
  then have "\<bar>?K * \<bar>sin i\<bar> - \<bar>?s\<bar>\<bar> \<le> 6016" by (auto simp: abs_if split: if_splits)
  moreover have "real_of_int (v * 2 ^ 60 + 6016 * 2 ^ 32) \<le> of_int (\<bar>fst (sin_cos i)\<bar> * 2 ^ 32)"
    "real_of_int (\<bar>fst (sin_cos i)\<bar> * 2 ^ 32 + 6016 * 2 ^ 32) < of_int ((v + 1) * 2 ^ 60)"
    using assms(1) unfolding table_entry_def fix_one_def of_int_le_iff of_int_less_iff by simp_all
  ultimately show ?thesis by (intro floor_unique) (simp_all add: field_simps)
qed

lemma table_from_entry: "table_from s c vs \<Longrightarrow> sin_cos i = (s, c) \<Longrightarrow> j < length vs \<Longrightarrow> table_entry (fst (sin_cos (i + j))) (vs ! j)"
proof (induction s c vs arbitrary: i j rule: table_from.induct)
  case (2 s c v vs)
  show ?case
  proof (cases j)
    case (Suc j')
    have "sin_cos (Suc i) = ((s * cos_1 + c * sin_1) div fix_one, (c * cos_1 - s * sin_1) div fix_one)" using "2.prems"(2) by simp
    then show ?thesis using "2.IH" [of "Suc i" j'] "2.prems" Suc by simp
  qed (use "2.prems" in simp)
qed simp

text \<open>The 64 values, checked against the sine function.\<close>

definition rfc_table :: "int list" where
  "rfc_table =
    [0xd76aa478, 0xe8c7b756, 0x242070db, 0xc1bdceee, 0xf57c0faf, 0x4787c62a, 0xa8304613, 0xfd469501,
     0x698098d8, 0x8b44f7af, 0xffff5bb1, 0x895cd7be, 0x6b901122, 0xfd987193, 0xa679438e, 0x49b40821,
     0xf61e2562, 0xc040b340, 0x265e5a51, 0xe9b6c7aa, 0xd62f105d, 0x02441453, 0xd8a1e681, 0xe7d3fbc8,
     0x21e1cde6, 0xc33707d6, 0xf4d50d87, 0x455a14ed, 0xa9e3e905, 0xfcefa3f8, 0x676f02d9, 0x8d2a4c8a,
     0xfffa3942, 0x8771f681, 0x6d9d6122, 0xfde5380c, 0xa4beea44, 0x4bdecfa9, 0xf6bb4b60, 0xbebfbc70,
     0x289b7ec6, 0xeaa127fa, 0xd4ef3085, 0x04881d05, 0xd9d4d039, 0xe6db99e5, 0x1fa27cf8, 0xc4ac5665,
     0xf4292244, 0x432aff97, 0xab9423a7, 0xfc93a039, 0x655b59c3, 0x8f0ccc92, 0xffeff47d, 0x85845dd1,
     0x6fa87e4f, 0xfe2ce6e0, 0xa3014314, 0x4e0811a1, 0xf7537e82, 0xbd3af235, 0x2ad7d2bb, 0xeb86d391]"

lemma rfc_table_check: "table_from sin_1 cos_1 rfc_table"
  by (simp add: rfc_table_def table_entry_def fix_one_def sin_1_def cos_1_def)

lemma length_rfc_table: "length rfc_table = 64"
  by (simp add: rfc_table_def)

lemma rfc_T_table:
  assumes "j < 64"
  shows "rfc_T (Suc j) = of_int (rfc_table ! j)"
proof -
  have "sin_cos 1 = (sin_1, cos_1)" by (simp add: fix_one_def sin_1_def cos_1_def)
  then have "table_entry (fst (sin_cos (1 + j))) (rfc_table ! j)"
    using assms rfc_table_check by (intro table_from_entry) (simp_all add: length_rfc_table)
  then show ?thesis using table_entry_floor [of "1 + j" "rfc_table ! j"] assms by (simp add: rfc_T_def)
qed

section \<open>A test vector\<close>

text \<open>
  The steps on integers, which evaluate fast; they give the digest of the string \<open>abc\<close> in the test suite of the RFC, and so a check of the
  definitions above.
\<close>

definition int_f :: "nat \<Rightarrow> int \<Rightarrow> int \<Rightarrow> int \<Rightarrow> int" where
  "int_f r x y z = (if r = 0 then (x AND y) OR ((2 ^ 32 - 1 - x) AND z) else if r = 1 then (x AND z) OR (y AND (2 ^ 32 - 1 - z))
     else if r = 2 then x XOR y XOR z else y XOR (x OR (2 ^ 32 - 1 - z)))"

fun int_step :: "int list \<Rightarrow> (nat \<times> nat \<times> nat \<times> int) \<Rightarrow> int \<times> int \<times> int \<times> int \<Rightarrow> int \<times> int \<times> int \<times> int" where
  "int_step X (r, k, s, v) (a, b, c, d) = (let x = (a + int_f r b c d + X ! k + v) mod 2 ^ 32
     in (d, (b + ((x * 2 ^ s) mod 2 ^ 32 OR x div 2 ^ (32 - s))) mod 2 ^ 32, b, c))"

fun regs_of_int :: "int \<times> int \<times> int \<times> int \<Rightarrow> rfc_regs" where
  "regs_of_int (a, b, c, d) = (of_int a, of_int b, of_int c, of_int d)"

fun int_regs :: "rfc_regs \<Rightarrow> int \<times> int \<times> int \<times> int" where
  "int_regs (a, b, c, d) = (uint a, uint b, uint c, uint d)"

lemma take_bit_of_uint_32: "take_bit 32 (uint (x :: uint32)) = uint x"
  using uint_lt2p [of x] by (simp add: take_bit_int_eq_self)

lemma uint_not_32: "uint (NOT x :: uint32) = 2 ^ 32 - 1 - uint x"
  using take_bit_of_uint_32 [of x] by (simp add: unsigned_not_eq take_bit_not_eq_mask_diff mask_eq_exp_minus_1)

lemma int_f_rfc: "i < 64 \<Longrightarrow> uint (rfc_f i x y z) = int_f (i div 16) (uint x) (uint y) (uint z)"
proof -
  assume "i < 64"
  then consider "i div 16 = 0" | "i div 16 = 1" | "i div 16 = 2" | "i div 16 = 3" by linarith
  then show ?thesis
    by cases (simp_all add: rfc_f_def int_f_def rfc_F_def rfc_G_def rfc_H_def rfc_I_def uint_and uint_or uint_xor uint_not_32 [simplified])
qed

lemma uint_rotl_32:
  assumes "0 < s" "s < 32"
  shows "uint (word_rotl s (x :: uint32)) = (uint x * 2 ^ s) mod 2 ^ 32 OR uint x div 2 ^ (32 - s)"
proof (rule bit_eqI)
  fix n
  have r: "(uint x * 2 ^ s) mod 2 ^ 32 = take_bit 32 (push_bit s (uint x))" "uint x div 2 ^ (32 - s) = drop_bit (32 - s) (uint x)"
    by (simp_all add: take_bit_eq_mod push_bit_eq_mult drop_bit_eq_div)
  have out: "\<not> bit x m" if "32 \<le> m" for m using that by (auto dest: bit_imp_le_length)
  show "bit (uint (word_rotl s x)) n \<longleftrightarrow> bit ((uint x * 2 ^ s) mod 2 ^ 32 OR uint x div 2 ^ (32 - s)) n"
  proof (cases "n < 32")
    case True
    then have "(n + (32 - s)) mod 32 = (if s \<le> n then n - s else 32 - s + n)" using assms by (auto simp: mod_if)
    then show ?thesis unfolding r using True assms out [of "32 - s + n"] by (auto simp: bit_simps)
  next
    case False
    then show ?thesis unfolding r using assms out [of "32 - s + n"] out [of n] by (auto simp: bit_simps)
  qed
qed

definition int_ops :: "(nat \<times> nat \<times> nat \<times> int) list" where
  "int_ops = map (\<lambda>i. (i div 16, rfc_k ! i, rfc_s ! i, rfc_table ! i)) [0..<64]"

lemma int_step_rfc:
  assumes "i < 64" "length X = 16"
  shows "int_step (map uint X) (int_ops ! i) (int_regs d) = int_regs (rfc_step X i d)"
proof -
  have s: "0 < rfc_s ! i" "rfc_s ! i < 32" "rfc_k ! i < 16"
  proof -
    have "list_all (\<lambda>s. 0 < s \<and> s < 32) rfc_s" "list_all (\<lambda>k. k < 16) rfc_k" "length rfc_s = 64" "length rfc_k = 64" by code_simp+
    then show "0 < rfc_s ! i" "rfc_s ! i < 32" "rfc_k ! i < 16" using assms(1) by (auto simp: list_all_length)
  qed
  have v: "rfc_table ! i = uint (rfc_T (Suc i))"
  proof -
    have "list_all (\<lambda>v. 0 \<le> v \<and> v < 2 ^ 32) rfc_table" by (simp add: rfc_table_def)
    then have "0 \<le> rfc_table ! i" "rfc_table ! i < 2 ^ 32" using assms(1) by (auto simp: list_all_length length_rfc_table)
    then show ?thesis using assms(1) by (simp add: rfc_T_table uint_word_of_int)
  qed
  obtain a b c e where d: "d = (a, b, c, e)" by (cases d)
  define x where "x = a + rfc_f i b c e + X ! (rfc_k ! i) + rfc_T (Suc i)"
  have x: "uint x = (uint a + int_f (i div 16) (uint b) (uint c) (uint e) + map uint X ! (rfc_k ! i) + rfc_table ! i) mod 2 ^ 32"
    unfolding x_def using s(3) assms(2) by (simp add: uint_word_ariths mod_simps int_f_rfc [OF assms(1)] v)
  have "rfc_step X i d = (e, b + word_rotl (rfc_s ! i) x, b, c)" by (simp add: d x_def)
  moreover have "int_step (map uint X) (int_ops ! i) (int_regs d) = (uint e, (uint b + uint (word_rotl (rfc_s ! i) x)) mod 2 ^ 32, uint b, uint c)"
    unfolding uint_rotl_32 [OF s(1,2)] x using assms(1) by (simp add: d int_ops_def Let_def)
  ultimately show ?thesis by (simp add: uint_word_ariths(1))
qed

lemma int_steps_rfc:
  assumes "length X = 16" "\<forall>i\<in>set is. i < 64"
  shows "int_regs (fold (rfc_step X) is d) = fold (int_step (map uint X)) (map ((!) int_ops) is) (int_regs d)"
  using assms(2)
proof (induction "is" arbitrary: d)
  case (Cons i "is")
  then show ?case using int_step_rfc [of i X d] assms(1) by simp
qed simp

lemma abc_steps: "fold (int_step [0x80636261, 0, 0, 0, 0, 0, 0, 0, 0, 0, 0, 0, 0, 0, 24, 0]) int_ops (0x67452301, 0xefcdab89, 0x98badcfe, 0x10325476) =
    (0x310ade8f, 0xc08226b3, 0xe484b9d8, 0x624d8cb2)"
  by (simp add: int_ops_def upt_rec rfc_k_def rfc_s_def rfc_table_def int_f_def)

lemma rfc_init_eq: "rfc_init = (0x67452301, 0xefcdab89, 0x98badcfe, 0x10325476)"
  by (simp add: rfc_init_def rfc_word_def lessThan_nat_numeral)

lemmas replicate_numeral = trans [OF arg_cong [where f = "\<lambda>n. replicate n x", OF numeral_eq_Suc] replicate_Suc] for x

lemma rfc_block_abc: "rfc_block (rfc_pad [0x61, 0x62, 0x63]) = [0x80636261, 0, 0, 0, 0, 0, 0, 0, 0, 0, 0, 0, 0, 0, 24, 0]" "drop 64 (rfc_pad [0x61, 0x62, 0x63]) = []"
  by (simp_all add: rfc_block_def rfc_pad_def rfc_zeros_eq rfc_bytes_def rfc_word_def lessThan_nat_numeral upt_rec replicate_numeral)

lemma md5_rfc_abc: "md5_rfc [0x61, 0x62, 0x63] =
    [0x90, 0x01, 0x50, 0x98, 0x3c, 0xd2, 0x4f, 0xb0, 0xd6, 0x96, 0x3f, 0x7d, 0x28, 0xe1, 0x7f, 0x72]"
proof -
  let ?X = "[0x80636261, 0, 0, 0, 0, 0, 0, 0, 0, 0, 0, 0, 0, 0, 24, 0] :: uint32 list"
  obtain a b c d where s: "fold (rfc_step ?X) [0..<64] rfc_init = (a, b, c, d)" by (cases "fold (rfc_step ?X) [0..<64] rfc_init")
  have "map ((!) int_ops) [0..<64] = int_ops" by (rule nth_equalityI) (simp_all add: int_ops_def)
  then have "int_regs (a, b, c, d) = (0x310ade8f, 0xc08226b3, 0xe484b9d8, 0x624d8cb2)"
    using int_steps_rfc [of ?X "[0..<64]" rfc_init] abc_steps by (simp add: s del: int_regs.simps(1)) (simp add: rfc_init_eq)
  then have "a = 0x310ade8f" "b = 0xc08226b3" "c = 0xe484b9d8" "d = 0x624d8cb2" by (simp_all add: word_uint_eq_iff)
  then have "rfc_compress ?X rfc_init = (0x98500190, 0xb04fd23c, 0x7d3f96d6, 0x727fe128)" unfolding rfc_compress_def s by (simp add: rfc_init_eq)
  moreover have "rfc_pad [0x61, 0x62, 0x63] \<noteq> []" by (simp add: rfc_pad_def)
  ultimately have "rfc_blocks (rfc_pad [0x61, 0x62, 0x63]) rfc_init = (0x98500190, 0xb04fd23c, 0x7d3f96d6, 0x727fe128)"
    by (subst rfc_blocks.simps) (simp add: rfc_block_abc rfc_blocks_Nil)
  then show ?thesis by (simp add: md5_rfc_def rfc_bytes_def upt_rec)
qed

end
