(* ===== verification/Md5.thy ===== *)
theory Md5
  imports Rfc1321
begin

text \<open>
  The hash function of the encryption module (\<open>src/Lib/lua-encryption/md5.c\<close>), and its equivalence with the
  definition of RFC 1321 in the theory \<open>Rfc1321\<close> for messages below 4 GiB.
\<close>

section \<open>Basic functions\<close>

definition rotate_w :: "uint32 \<Rightarrow> nat \<Rightarrow> uint32" where
  "rotate_w D num = push_bit num D OR drop_bit (32 - num) D"

definition md5_F :: "uint32 \<Rightarrow> uint32 \<Rightarrow> uint32 \<Rightarrow> uint32" where
  "md5_F x y z = (x AND y) OR (NOT x AND z)"

definition md5_G :: "uint32 \<Rightarrow> uint32 \<Rightarrow> uint32 \<Rightarrow> uint32" where
  "md5_G x y z = (x AND z) OR (y AND NOT z)"

definition md5_H :: "uint32 \<Rightarrow> uint32 \<Rightarrow> uint32 \<Rightarrow> uint32" where
  "md5_H x y z = x XOR y XOR z"

definition md5_I :: "uint32 \<Rightarrow> uint32 \<Rightarrow> uint32 \<Rightarrow> uint32" where
  "md5_I x y z = y XOR (x OR NOT z)"

definition md5_T :: "uint32 list" where
  "md5_T =
    [0xd76aa478, 0xe8c7b756, 0x242070db, 0xc1bdceee, 0xf57c0faf, 0x4787c62a, 0xa8304613, 0xfd469501,
     0x698098d8, 0x8b44f7af, 0xffff5bb1, 0x895cd7be, 0x6b901122, 0xfd987193, 0xa679438e, 0x49b40821,
     0xf61e2562, 0xc040b340, 0x265e5a51, 0xe9b6c7aa, 0xd62f105d, 0x02441453, 0xd8a1e681, 0xe7d3fbc8,
     0x21e1cde6, 0xc33707d6, 0xf4d50d87, 0x455a14ed, 0xa9e3e905, 0xfcefa3f8, 0x676f02d9, 0x8d2a4c8a,
     0xfffa3942, 0x8771f681, 0x6d9d6122, 0xfde5380c, 0xa4beea44, 0x4bdecfa9, 0xf6bb4b60, 0xbebfbc70,
     0x289b7ec6, 0xeaa127fa, 0xd4ef3085, 0x04881d05, 0xd9d4d039, 0xe6db99e5, 0x1fa27cf8, 0xc4ac5665,
     0xf4292244, 0x432aff97, 0xab9423a7, 0xfc93a039, 0x655b59c3, 0x8f0ccc92, 0xffeff47d, 0x85845dd1,
     0x6fa87e4f, 0xfe2ce6e0, 0xa3014314, 0x4e0811a1, 0xf7537e82, 0xbd3af235, 0x2ad7d2bb, 0xeb86d391]"

text \<open>The digest registers \<open>d[0..3]\<close>.\<close>

type_synonym md5_state = "uint32 \<times> uint32 \<times> uint32 \<times> uint32"

definition word32_bytes :: "uint32 \<Rightarrow> byte list" where
  "word32_bytes v =
     [ucast (v AND 0xff), ucast (drop_bit 8 v AND 0xff), ucast (drop_bit 8 (drop_bit 8 v) AND 0xff),
      ucast (drop_bit 8 (drop_bit 8 (drop_bit 8 v)) AND 0xff)]"

fun word32tobytes :: "md5_state \<Rightarrow> byte list" where
  "word32tobytes (d0, d1, d2, d3) =
     word32_bytes d0 @ word32_bytes d1 @ word32_bytes d2 @ word32_bytes d3"

definition inic_digest :: md5_state where
  "inic_digest = (0x67452301, 0xEFCDAB89, 0x98BADCFE, 0x10325476)"

section \<open>Compression\<close>

text \<open>
  One line of \<open>digest\<close>: \<open>a = a + f(b, c, d) + x + t; a = rotate(a, s); a += b;\<close>.
\<close>

definition md5_op ::
  "(uint32 \<Rightarrow> uint32 \<Rightarrow> uint32 \<Rightarrow> uint32) \<Rightarrow> uint32 \<Rightarrow> uint32 \<Rightarrow> uint32 \<Rightarrow> uint32 \<Rightarrow> uint32 \<Rightarrow> uint32 \<Rightarrow> nat \<Rightarrow> uint32"
  where
  "md5_op f a b c d x t s = rotate_w (a + f b c d + x + t) s + b"

text \<open>The bodies of the four loops of \<open>digest\<close>; \<open>j\<close> is 0, 4, 8, 12.\<close>

fun passo1 :: "uint32 list \<Rightarrow> nat \<Rightarrow> md5_state \<Rightarrow> md5_state" where
  "passo1 m j (d0, d1, d2, d3) =
     (let d0 = md5_op md5_F d0 d1 d2 d3 (m ! j) (md5_T ! j) 7;
          d3 = md5_op md5_F d3 d0 d1 d2 (m ! (j + 1)) (md5_T ! (j + 1)) 12;
          d2 = md5_op md5_F d2 d3 d0 d1 (m ! (j + 2)) (md5_T ! (j + 2)) 17;
          d1 = md5_op md5_F d1 d2 d3 d0 (m ! (j + 3)) (md5_T ! (j + 3)) 22
      in (d0, d1, d2, d3))"

fun passo2 :: "uint32 list \<Rightarrow> nat \<Rightarrow> md5_state \<Rightarrow> md5_state" where
  "passo2 m j (d0, d1, d2, d3) =
     (let d0 = md5_op md5_G d0 d1 d2 d3 (m ! ((5 * j + 1) mod 16)) (md5_T ! (j + 16)) 5;
          d3 = md5_op md5_G d3 d0 d1 d2 (m ! ((5 * (j + 1) + 1) mod 16)) (md5_T ! (j + 0 + 17)) 9;
          d2 = md5_op md5_G d2 d3 d0 d1 (m ! ((5 * (j + 2) + 1) mod 16)) (md5_T ! (j + 1 + 17)) 14;
          d1 = md5_op md5_G d1 d2 d3 d0 (m ! ((5 * (j + 3) + 1) mod 16)) (md5_T ! (j + 2 + 17)) 20
      in (d0, d1, d2, d3))"

fun passo3 :: "uint32 list \<Rightarrow> nat \<Rightarrow> md5_state \<Rightarrow> md5_state" where
  "passo3 m j (d0, d1, d2, d3) =
     (let d0 = md5_op md5_H d0 d1 d2 d3 (m ! ((3 * j + 5) mod 16)) (md5_T ! (j + 32)) 4;
          d3 = md5_op md5_H d3 d0 d1 d2 (m ! ((3 * (j + 1) + 5) mod 16)) (md5_T ! (j + 0 + 33)) 11;
          d2 = md5_op md5_H d2 d3 d0 d1 (m ! ((3 * (j + 2) + 5) mod 16)) (md5_T ! (j + 1 + 33)) 16;
          d1 = md5_op md5_H d1 d2 d3 d0 (m ! ((3 * (j + 3) + 5) mod 16)) (md5_T ! (j + 2 + 33)) 23
      in (d0, d1, d2, d3))"

fun passo4 :: "uint32 list \<Rightarrow> nat \<Rightarrow> md5_state \<Rightarrow> md5_state" where
  "passo4 m j (d0, d1, d2, d3) =
     (let d0 = md5_op md5_I d0 d1 d2 d3 (m ! ((7 * j) mod 16)) (md5_T ! (j + 48)) 6;
          d3 = md5_op md5_I d3 d0 d1 d2 (m ! ((7 * (j + 1)) mod 16)) (md5_T ! (j + 0 + 49)) 10;
          d2 = md5_op md5_I d2 d3 d0 d1 (m ! ((7 * (j + 2)) mod 16)) (md5_T ! (j + 1 + 49)) 15;
          d1 = md5_op md5_I d1 d2 d3 d0 (m ! ((7 * (j + 3)) mod 16)) (md5_T ! (j + 2 + 49)) 21
      in (d0, d1, d2, d3))"

definition digest :: "uint32 list \<Rightarrow> md5_state \<Rightarrow> md5_state" where
  "digest m d =
     fold (passo4 m) [0, 4, 8, 12] (fold (passo3 m) [0, 4, 8, 12]
       (fold (passo2 m) [0, 4, 8, 12] (fold (passo1 m) [0, 4, 8, 12] d)))"

section \<open>Padding and the main loop\<close>

definition bytestoword32 :: "byte list \<Rightarrow> uint32 list" where
  "bytestoword32 pt = map (\<lambda>i. let j = i * 4 in
       push_bit 8 (push_bit 8 (push_bit 8 (ucast (pt ! (j + 3))) OR ucast (pt ! (j + 2)))
         OR ucast (pt ! (j + 1))) OR ucast (pt ! j)) [0..<16]"

definition put_length :: "uint32 list \<Rightarrow> uint64 \<Rightarrow> uint32 list" where
  "put_length x len =
     x[14 := ucast (push_bit 3 len AND 0xFFFFFFFF), 15 := ucast (drop_bit (32 - 3) len AND 0x7)]"

text \<open>\<open>converte\<close>: \<open>pt\<close> is the rest of the message; the result is \<open>new_status\<close> and \<open>x\<close>.\<close>

definition converte :: "byte list \<Rightarrow> nat \<Rightarrow> nat \<Rightarrow> nat \<times> uint32 list" where
  "converte pt num old_status =
     (let (new_status, pt) =
        (if num < 64 then
           let buff = take num pt @ replicate (64 - num) 0
           in (1, if old_status = 0 then buff[num := 0x80] else buff)
         else (0, pt))
      in (if num \<le> 64 - 9 then 2 else new_status, bytestoword32 pt))"

fun add_state :: "md5_state \<Rightarrow> md5_state \<Rightarrow> md5_state" where
  "add_state (a0, a1, a2, a3) (b0, b1, b2, b3) = (a0 + b0, a1 + b1, a2 + b2, a3 + b3)"

text \<open>The loop of \<open>md5\<close>.\<close>

function md5_loop :: "byte list \<Rightarrow> nat \<Rightarrow> nat \<Rightarrow> md5_state \<Rightarrow> md5_state" where
  "md5_loop src i status d =
     (if status = 2 then d
      else let numbytes = (if length src - i \<ge> 64 then 64 else length src - i);
               (status', wbuff) = converte (drop i src) numbytes status;
               wbuff' = (if status' = 2 then put_length wbuff (of_nat (length src)) else wbuff)
           in md5_loop src (i + numbytes) status' (add_state (digest wbuff' d) d))"
  by pat_completeness auto
termination
  by (relation "measure (\<lambda>(src, i, status, d). (length src - i) + of_bool (status \<noteq> 2))")
     (auto simp: converte_def Let_def split: if_splits)

declare md5_loop.simps [simp del]

definition md5 :: "byte list \<Rightarrow> byte list" where
  "md5 src = word32tobytes (md5_loop src 0 0 inic_digest)"

section \<open>The steps are those of RFC 1321\<close>

lemma md5_functions: "md5_F = rfc_F" "md5_G = rfc_G" "md5_H = rfc_H" "md5_I = rfc_I"
  by (simp_all add: fun_eq_iff md5_F_def md5_G_def md5_H_def md5_I_def rfc_F_def rfc_G_def rfc_H_def rfc_I_def)

lemma md5_T_rfc: "j < 64 \<Longrightarrow> rfc_T (Suc j) = md5_T ! j"
proof -
  have "md5_T = map of_int rfc_table" by (simp add: md5_T_def rfc_table_def)
  then have "md5_T ! j = map of_int rfc_table ! j" by (rule arg_cong)
  then show "j < 64 \<Longrightarrow> rfc_T (Suc j) = md5_T ! j" by (simp add: rfc_T_table length_rfc_table)
qed

lemma rfc_step_T: "i < 64 \<Longrightarrow>
    rfc_step m i (a, b, c, d) = (d, b + word_rotl (rfc_s ! i) (a + rfc_f i b c d + m ! (rfc_k ! i) + md5_T ! i), b, c)"
  by (simp add: md5_T_rfc)

lemma inic_digest_rfc: "inic_digest = rfc_init"
  by (simp add: inic_digest_def rfc_init_eq)

lemma rotate_w_rotl:
  assumes n: "0 < n" "n < 32"
  shows "rotate_w w n = word_rotl n w"
proof (rule bit_word_eqI)
  fix k assume k: "k < LENGTH(32)"
  show "bit (rotate_w w n) k = bit (word_rotl n w) k"
  proof (cases "n \<le> k")
    case True
    then have "(k + (32 - n)) mod 32 = k - n" using n k by (simp add: mod_if)
    moreover have "\<not> bit w (32 - n + k)" using True n by (auto dest: bit_imp_le_length)
    ultimately show ?thesis using n k True by (simp add: rotate_w_def bit_simps)
  next
    case False
    then have "(k + (32 - n)) mod 32 = 32 - n + k" using n k by simp
    then show ?thesis using n k False by (simp add: rotate_w_def bit_simps)
  qed
qed

lemma md5_op_rotl: "0 < s \<Longrightarrow> s < 32 \<Longrightarrow> md5_op f a b c d x t s = b + word_rotl s (a + f b c d + x + t)"
  by (simp add: md5_op_def rotate_w_rotl add.commute)

lemma rfc_group1: "j \<in> {0, 4, 8, 12} \<Longrightarrow> fold (rfc_step m) [j, j + 1, j + 2, j + 3] d = passo1 m j d"
  by (cases d; elim insertE emptyE) (simp_all add: md5_op_rotl rfc_f_def rfc_k_def rfc_s_def rfc_step_T md5_functions Let_def numeral_2_eq_2 del: rfc_step.simps)

lemma rfc_group2:
  "j \<in> {0, 4, 8, 12} \<Longrightarrow> fold (rfc_step m) [16 + j, 16 + j + 1, 16 + j + 2, 16 + j + 3] d = passo2 m j d"
  by (cases d; elim insertE emptyE) (simp_all add: md5_op_rotl rfc_f_def rfc_k_def rfc_s_def rfc_step_T md5_functions Let_def del: rfc_step.simps)

lemma rfc_group3:
  "j \<in> {0, 4, 8, 12} \<Longrightarrow> fold (rfc_step m) [32 + j, 32 + j + 1, 32 + j + 2, 32 + j + 3] d = passo3 m j d"
  by (cases d; elim insertE emptyE) (simp_all add: md5_op_rotl rfc_f_def rfc_k_def rfc_s_def rfc_step_T md5_functions Let_def del: rfc_step.simps)

lemma rfc_group4:
  "j \<in> {0, 4, 8, 12} \<Longrightarrow> fold (rfc_step m) [48 + j, 48 + j + 1, 48 + j + 2, 48 + j + 3] d = passo4 m j d"
  by (cases d; elim insertE emptyE) (simp_all add: md5_op_rotl rfc_f_def rfc_k_def rfc_s_def rfc_step_T md5_functions Let_def del: rfc_step.simps)

lemma upt_64: "[0..<64] =
    concat (map (\<lambda>j. [j, j + 1, j + 2, j + 3]) [0, 4, 8, 12]) @
    concat (map (\<lambda>j. [16 + j, 16 + j + 1, 16 + j + 2, 16 + j + 3]) [0, 4, 8, 12]) @
    concat (map (\<lambda>j. [32 + j, 32 + j + 1, 32 + j + 2, 32 + j + 3]) [0, 4, 8, 12]) @
    concat (map (\<lambda>j. [48 + j, 48 + j + 1, 48 + j + 2, 48 + j + 3]) [0, 4, 8, 12])"
  by (simp add: upt_rec)

lemma fold_concat_map: "(\<And>j d. j \<in> set js \<Longrightarrow> fold f (g j) d = h j d) \<Longrightarrow> fold f (concat (map g js)) d = fold h js d"
  by (induction js arbitrary: d) auto

lemma digest_rfc: "digest m d = fold (rfc_step m) [0..<64] d"
proof -
  have "fold (rfc_step m) (concat (map (\<lambda>j. [j, j + 1, j + 2, j + 3]) [0, 4, 8, 12])) d = fold (passo1 m) [0, 4, 8, 12] d"
    "fold (rfc_step m) (concat (map (\<lambda>j. [16 + j, 16 + j + 1, 16 + j + 2, 16 + j + 3]) [0, 4, 8, 12])) d = fold (passo2 m) [0, 4, 8, 12] d"
    "fold (rfc_step m) (concat (map (\<lambda>j. [32 + j, 32 + j + 1, 32 + j + 2, 32 + j + 3]) [0, 4, 8, 12])) d = fold (passo3 m) [0, 4, 8, 12] d"
    "fold (rfc_step m) (concat (map (\<lambda>j. [48 + j, 48 + j + 1, 48 + j + 2, 48 + j + 3]) [0, 4, 8, 12])) d = fold (passo4 m) [0, 4, 8, 12] d" for d
    by (rule fold_concat_map, rule rfc_group1 rfc_group2 rfc_group3 rfc_group4, simp)+
  then show ?thesis
    unfolding upt_64 fold_append comp_apply digest_def by (simp only:)
qed

section \<open>Byte order\<close>

definition le_bytes :: "nat \<Rightarrow> uint64 \<Rightarrow> byte list" where
  "le_bytes n w = map (\<lambda>i. ucast (drop_bit (8 * i) w)) [0..<n]"

lemma le_bytes_rfc: "rfc_bytes 8 n = le_bytes 8 (of_nat n)"
proof -
  have "of_nat (n div 256 ^ i) = (ucast (drop_bit (8 * i) (of_nat n :: uint64)) :: byte)" if "i < 8" for i
  proof (rule bit_word_eqI)
    fix k assume "k < LENGTH(8)"
    moreover have "n div 256 ^ i = drop_bit (8 * i) n" by (simp add: drop_bit_eq_div power_mult)
    ultimately show "bit (of_nat (n div 256 ^ i) :: byte) k = bit (ucast (drop_bit (8 * i) (of_nat n :: uint64)) :: byte) k"
      using that by (simp add: bit_simps)
  qed
  then show ?thesis by (simp add: rfc_bytes_def le_bytes_def)
qed

lemma word32_bytes_rfc: "word32_bytes v = rfc_bytes 4 (unat v)"
proof -
  have "of_nat (unat v div 256 ^ i) = (ucast (drop_bit (8 * i) v AND 0xff) :: byte)" for i
  proof (rule bit_word_eqI)
    fix k assume "k < LENGTH(8)"
    moreover have "unat v div 256 ^ i = drop_bit (8 * i) (unat v)" by (simp add: drop_bit_eq_div power_mult)
    moreover have m: "(0xff :: uint32) = mask 8" by (simp add: mask_eq_exp_minus_1)
    ultimately show "bit (of_nat (unat v div 256 ^ i) :: byte) k = bit (ucast (drop_bit (8 * i) v AND 0xff) :: byte) k"
      unfolding m by (simp add: bit_simps)
  qed
  from this [of 0] this [of 1] this [of 2] this [of 3] show ?thesis
    by (simp add: word32_bytes_def rfc_bytes_def upt_rec drop_bit_drop_bit)
qed

lemma push_or_byte: "push_bit 8 x OR ucast (b :: byte) = 256 * x + (ucast b :: uint32)"
proof -
  have "push_bit 8 x + (ucast b :: uint32) = push_bit 8 x OR ucast b"
    by (rule disjunctive_add) (auto simp: bit_simps dest: bit_imp_le_length)
  then show ?thesis by (simp add: push_bit_eq_mult mult.commute)
qed

lemma bytestoword32_rfc:
  assumes "64 \<le> length bs"
  shows "bytestoword32 bs = rfc_block bs"
proof -
  have "(let j = i * 4 in push_bit 8 (push_bit 8 (push_bit 8 (ucast (bs ! (j + 3))) OR ucast (bs ! (j + 2)))
         OR ucast (bs ! (j + 1))) OR ucast (bs ! j)) = rfc_word (drop (4 * i) bs)" if "i < 16" for i
  proof -
    have "drop (4 * i) bs ! k = bs ! (i * 4 + k)" for k using assms that by (simp add: mult.commute)
    then show ?thesis unfolding push_or_byte Let_def
      by (simp add: rfc_word_def lessThan_nat_numeral algebra_simps)
  qed
  then show ?thesis by (simp add: bytestoword32_def rfc_block_def del: push_bit_of_0)
qed

section \<open>The loop\<close>

lemma compress_digest: "add_state (digest m d) d = rfc_compress m d"
  by (cases d; cases "fold (rfc_step m) [0..<64] d") (simp add: rfc_compress_def digest_rfc add.commute)

lemma length_bytestoword32 [simp]: "length (bytestoword32 bs) = 16"
  by (simp add: bytestoword32_def)

lemma length_put_length [simp]: "length (put_length x len) = length x"
  by (simp add: put_length_def)

lemma bytestoword32_take: "bytestoword32 (take 64 bs) = bytestoword32 bs"
  by (auto simp: bytestoword32_def Let_def)

lemma le_word_of_bytes:
  "push_bit 8 (push_bit 8 (push_bit 8 (ucast (ucast (drop_bit 24 w) :: byte)) OR
     ucast (ucast (drop_bit 16 w) :: byte)) OR ucast (ucast (drop_bit 8 w) :: byte)) OR
     ucast (ucast w :: byte) = (ucast (w :: uint64) :: uint32)"
proof (rule bit_word_eqI)
  fix n assume "n < LENGTH(32)"
  then consider "n < 8" | "8 \<le> n" "n < 16" | "16 \<le> n" "n < 24" | "24 \<le> n" "n < 32" by force
  then show "bit (push_bit 8 (push_bit 8 (push_bit 8 (ucast (ucast (drop_bit 24 w) :: byte)) OR
     ucast (ucast (drop_bit 16 w) :: byte)) OR ucast (ucast (drop_bit 8 w) :: byte)) OR
     ucast (ucast w :: byte) :: uint32) n = bit (ucast w :: uint32) n"
    by cases (auto simp: bit_simps)
qed

text \<open>The two length words are the words of the last eight bytes of the padding.\<close>

lemma put_length_bytes:
  assumes "length blk = 56" "len < 2 ^ 32"
  shows "put_length (bytestoword32 (blk @ z)) (of_nat len) =
     bytestoword32 (blk @ le_bytes 8 (of_nat (8 * len)))"
proof -
  define w where "w = (of_nat (8 * len) :: uint64)"
  have w: "w = push_bit 3 (of_nat len)" by (simp add: push_bit_eq_mult w_def)
  have b: "le_bytes 8 w ! i = ucast (drop_bit (8 * i) w)" if "i < 8" for i
    using that by (simp add: le_bytes_def)
  have lo: "bytestoword32 (blk @ le_bytes 8 w) ! 14 = ucast w"
    using assms(1) le_word_of_bytes [of w] by (simp add: bytestoword32_def nth_append Let_def b)
  have hi: "bytestoword32 (blk @ le_bytes 8 w) ! 15 = ucast (drop_bit 32 w)"
    using assms(1) le_word_of_bytes [of "drop_bit 32 w"] by (simp add: bytestoword32_def nth_append Let_def b)
  have nb: "k < 32" if "bit len k" for k
  proof (rule ccontr)
    assume "\<not> k < 32"
    then have "(2::nat) ^ 32 \<le> 2 ^ k" using power_increasing [of 32 k "2 :: nat"] by simp
    then have "len div 2 ^ k = 0" using assms(2) by simp
    then show False using that by (simp add: bit_iff_odd)
  qed
  have eq: "put_length (bytestoword32 (blk @ z)) (of_nat len) ! i = bytestoword32 (blk @ le_bytes 8 w) ! i" if "i < 16" for i
  proof -
    consider "i < 14" | "i = 14" | "i = 15" using \<open>i < 16\<close> by linarith
    then show ?thesis
    proof cases
      case 1
      then have "i * 4 + 3 < 56" by simp
      then show ?thesis using 1 assms(1) by (simp add: put_length_def bytestoword32_def nth_append Let_def)
    next
      case 2
      have "ucast (w AND 0xFFFFFFFF) = (ucast w :: uint32)"
      proof -
        have "(0xFFFFFFFF :: uint64) = mask 32" by (simp add: mask_eq_exp_minus_1)
        then show ?thesis by (simp only:) (rule bit_eqI, simp only: bit_simps, auto)
      qed
      then show ?thesis using 2 lo w by (simp add: put_length_def bytestoword32_def)
    next
      case 3
      have "ucast (drop_bit 29 (of_nat len :: uint64) AND 0x7) = (ucast (drop_bit 32 w) :: uint32)"
      proof -
        have m: "(7 :: uint64) = mask 3" by (simp add: mask_eq_exp_minus_1)
        show ?thesis
          unfolding w m by (rule bit_eqI) (auto simp: bit_simps dest: nb)
      qed
      then show ?thesis using 3 hi by (simp add: put_length_def bytestoword32_def)
    qed
  qed
  show ?thesis
    unfolding w_def [symmetric] by (rule nth_equalityI) (simp_all add: eq)
qed

text \<open>The last block or the last two blocks.\<close>

lemma rfc_blocks_step: "64 \<le> length bs \<Longrightarrow>
    rfc_blocks bs d = rfc_blocks (drop 64 bs) (rfc_compress (bytestoword32 bs) d)"
  by (subst rfc_blocks.simps) (auto simp: bytestoword32_rfc)

lemma md5_loop_done: "md5_loop src i 2 d = d"
  by (simp add: md5_loop.simps)

lemma length_le_bytes [simp]: "length (le_bytes n w) = n"
  by (simp add: le_bytes_def)

lemma md5_loop_last:
  assumes "i \<le> length src" "length src - i \<le> 55" "length src < 2 ^ 32" "status \<noteq> 2"
  shows "md5_loop src i status d =
     rfc_blocks (drop i src @ (if status = 0 then 0x80 else 0) # replicate (55 - (length src - i)) 0 @
       le_bytes 8 (of_nat (8 * length src))) d"
proof -
  let ?r = "length src - i" and ?b = "if status = 0 then 0x80 else 0 :: byte"
  let ?blk = "drop i src @ ?b # replicate (55 - ?r) 0"
  let ?w = "of_nat (8 * length src) :: uint64"
  have buff: "(if status = 0 then (take ?r (drop i src) @ replicate (64 - ?r) 0)[?r := 0x80]
      else take ?r (drop i src) @ replicate (64 - ?r) 0) = ?blk @ replicate 8 0"
  proof -
    have "replicate (64 - ?r) (0::byte) = 0 # replicate (55 - ?r) 0 @ replicate 8 0"
    proof -
      have "64 - ?r = Suc (55 - ?r + 8)" using assms(2) by simp
      then show ?thesis by (simp only: replicate_Suc replicate_add)
    qed
    then show ?thesis by (simp add: list_update_append)
  qed
  have "converte (drop i src) ?r status = (2, bytestoword32 (?blk @ replicate 8 0))"
    unfolding converte_def Let_def buff [symmetric] using assms(2) by simp
  then have "md5_loop src i status d =
      rfc_compress (put_length (bytestoword32 (?blk @ replicate 8 0)) (of_nat (length src))) d"
    using assms by (subst md5_loop.simps) (simp add: Let_def compress_digest md5_loop_done)
  also have "put_length (bytestoword32 (?blk @ replicate 8 0)) (of_nat (length src)) = bytestoword32 (?blk @ le_bytes 8 ?w)"
    using assms by (intro put_length_bytes) simp_all
  also have "rfc_compress (bytestoword32 (?blk @ le_bytes 8 ?w)) d = rfc_blocks (?blk @ le_bytes 8 ?w) d"
    using assms by (simp add: rfc_blocks_step rfc_blocks_Nil)
  finally show ?thesis by simp
qed

lemma md5_loop_full:
  assumes "i + 64 \<le> length src" "status \<noteq> 2"
  shows "md5_loop src i status d = md5_loop src (i + 64) 0 (rfc_compress (bytestoword32 (drop i src)) d)"
proof -
  have "64 \<le> length src - i" using assms(1) by simp
  then show ?thesis
    using assms(2) by (subst md5_loop.simps) (simp add: converte_def Let_def compress_digest)
qed

lemma md5_loop_split:
  assumes "i \<le> length src" "56 \<le> length src - i" "length src - i < 64"
  shows "md5_loop src i 0 d = md5_loop src (length src) 1
     (rfc_compress (bytestoword32 (drop i src @ 0x80 # replicate (63 - (length src - i)) 0)) d)"
proof -
  let ?r = "length src - i"
  have "64 - ?r = Suc (63 - ?r)" using assms(3) by simp
  then have "(take ?r (drop i src) @ replicate (64 - ?r) 0)[?r := 0x80] = drop i src @ 0x80 # replicate (63 - ?r) 0"
    by (simp add: list_update_append)
  then show ?thesis
    using assms by (subst md5_loop.simps) (simp add: converte_def Let_def compress_digest)
qed

lemma md5_loop_rfc:
  assumes "64 dvd i" "i \<le> length src" "length src < 2 ^ 32"
  shows "md5_loop src i 0 d = rfc_blocks (drop i (rfc_pad src)) d"
  using assms
proof (induction "length src - i" arbitrary: i d rule: less_induct)
  case less
  let ?len = "length src"
  let ?r = "?len - i" and ?w = "le_bytes 8 (of_nat (8 * ?len))"
  have pad: "drop i (rfc_pad src) = drop i src @ 0x80 # replicate ((119 - ?len mod 64) mod 64) 0 @ ?w"
    using less.prems by (simp add: rfc_pad_def rfc_zeros_eq le_bytes_rfc)
  have m: "?len mod 64 = ?r mod 64"
    using less.prems by (metis dvd_minus_mod le_add_diff_inverse mod_add_left_eq add_0 dvd_imp_mod_0)
  consider "64 \<le> ?r" | "56 \<le> ?r" "?r < 64" | "?r \<le> 55" by linarith
  then show ?case
  proof cases
    case 1
    have "md5_loop src i 0 d = md5_loop src (i + 64) 0 (rfc_compress (bytestoword32 (drop i src)) d)"
      using 1 by (intro md5_loop_full) simp_all
    also have "\<dots> = rfc_blocks (drop (i + 64) (rfc_pad src)) (rfc_compress (bytestoword32 (drop i src)) d)"
      using less.prems 1 by (intro less.hyps) auto
    also have "bytestoword32 (drop i src) = bytestoword32 (drop i (rfc_pad src))"
      using 1 bytestoword32_take [of "drop i src"] bytestoword32_take [of "drop i (rfc_pad src)"] by (simp add: pad)
    also have "drop (i + 64) (rfc_pad src) = drop 64 (drop i (rfc_pad src))"
      by (simp add: add.commute)
    finally show ?thesis
      using pad rfc_blocks_step [of "drop i (rfc_pad src)" d] 1 by simp
  next
    case 2
    then have "(119 - ?r) = (63 - ?r) + Suc 55" by simp
    then have z: "replicate (119 - ?r) (0::byte) = replicate (63 - ?r) 0 @ 0 # replicate 55 0"
      by (simp only: replicate_add replicate_Suc)
    have "(119 - ?len mod 64) mod 64 = 119 - ?r" using m 2 by simp
    then have pad': "drop i (rfc_pad src) = (drop i src @ 0x80 # replicate (63 - ?r) 0) @ (0 # replicate 55 0 @ ?w)"
      unfolding pad by (simp only: z) simp
    let ?d = "rfc_compress (bytestoword32 (drop i src @ 0x80 # replicate (63 - ?r) 0)) d"
    have "md5_loop src i 0 d = rfc_blocks (0 # replicate 55 0 @ ?w) ?d"
      using 2 less.prems md5_loop_last [of ?len src 1 ?d] by (subst md5_loop_split) simp_all
    moreover have "length (drop i src @ 0x80 # replicate (63 - ?r) (0::byte)) = 64" using 2 by simp
    then have "take 64 (drop i (rfc_pad src)) = drop i src @ 0x80 # replicate (63 - ?r) 0"
      "drop 64 (drop i (rfc_pad src)) = 0 # replicate 55 0 @ ?w"
      unfolding pad' by (metis append_eq_conv_conj, metis append_eq_conv_conj)
    moreover have "64 \<le> length (drop i (rfc_pad src))" unfolding pad' using 2 by simp
    ultimately show ?thesis
      using rfc_blocks_step [of "drop i (rfc_pad src)" d] bytestoword32_take [of "drop i (rfc_pad src)"] by (simp only:)
  next
    case 3
    have "?len mod 64 = ?r" using m 3 by simp
    moreover have "119 - ?r = 64 + (55 - ?r)" using 3 by simp
    then have "(119 - ?r) mod 64 = 55 - ?r" by (simp only: mod_add_self1) simp
    ultimately have "(119 - ?len mod 64) mod 64 = 55 - ?r" by (simp only:)
    then show ?thesis
      using 3 less.prems md5_loop_last [of i src 0 d] by (simp add: pad)
  qed
qed

text \<open>
  C17. \<open>md5\<close> is the MD5 function of RFC 1321 on every message of fewer than \<open>2 ^ 32\<close> bytes: the loop
  with its three states, the unrolled rounds, the table of constants and the length words agree with padding the whole message
  and compressing it block by block with the constants that the RFC takes from the sine function. The witness is the digest of \<open>abc\<close> in the test suite of the RFC.
\<close>

theorem md5_rfc1321:
  assumes "length msg < 2 ^ 32"
  shows "md5 msg = md5_rfc msg"
  using assms md5_loop_rfc [of 0 msg]
  by (cases "rfc_blocks (rfc_pad msg) rfc_init") (simp add: md5_def md5_rfc_def inic_digest_rfc word32_bytes_rfc)

theorem md5_rfc1321_witness: "md5 [0x61, 0x62, 0x63] = md5_rfc [0x61, 0x62, 0x63] \<and>
  md5 [0x61, 0x62, 0x63] = [0x90, 0x01, 0x50, 0x98, 0x3c, 0xd2, 0x4f, 0xb0, 0xd6, 0x96, 0x3f, 0x7d, 0x28, 0xe1, 0x7f, 0x72]"
  using md5_rfc1321 [of "[0x61, 0x62, 0x63]"] md5_rfc_abc by simp

text \<open>
  \<open>put_length\<close> keeps only three bits of the high half of the bit count: a message of 4 GiB gets the
  length words of the empty message, where RFC 1321 has the count \<open>2 ^ 35\<close>.
\<close>

theorem put_length_4GiB: "put_length x (2 ^ 32) = put_length x 0"
  by (simp add: put_length_def)

end
