(* ===== verification/Lua_Md5.thy ===== *)
theory Lua_Md5
  imports Md5
begin

text \<open>
  The encryption module of the Lua runtime (\<open>src/Lib/lua-encryption/lua_md5.c\<close>): the hash, the
  exclusive-or of strings, and the stream cipher that uses MD5 in cipher-feedback mode. A result
  \<open>None\<close> stands for a write outside the \<open>block\<close> array on the stack.
\<close>

section \<open>Operations\<close>

datatype md5_error =
    LengthsMustBeEqual
  | KeyTooLong
  | SeedTooLong
  | InvalidCyphered

definition lmd5 :: "byte list \<Rightarrow> byte list" where
  "lmd5 message = take 16 (md5 message)"

definition ex_or :: "byte list \<Rightarrow> byte list \<Rightarrow> md5_error + byte list" where
  "ex_or s1 s2 = (if length s1 = length s2 then Inr (map2 (XOR) s1 s2) else Inl LengthsMustBeEqual)"

definition MAXKEY :: nat where
  "MAXKEY = 256"

definition BLOCKSIZE :: nat where
  "BLOCKSIZE = 16"

text \<open>The third argument, or the bytes of the current time when there is none.\<close>

definition checkseed :: "byte list \<Rightarrow> byte list option \<Rightarrow> byte list" where
  "checkseed now seed = (case seed of None \<Rightarrow> now | Some s \<Rightarrow> s)"

definition initblock ::
  "byte list \<Rightarrow> byte list \<Rightarrow> byte list \<Rightarrow> (md5_error + nat \<times> byte list) option" where
  "initblock key seed block =
     (if length key > MAXKEY then Some (Inl KeyTooLong)
      else do {
        block \<leftarrow> block_write block 0 (replicate BLOCKSIZE 0);
        block \<leftarrow> block_write block 0 seed;
        block \<leftarrow> block_write block BLOCKSIZE key;
        Some (Inr (length key + BLOCKSIZE, block))
      })"

text \<open>
  The two stream loops. In each round \<open>i\<close> bytes are left to the message; the first \<open>i\<close> bytes of the
  block are replaced by cipher text.
\<close>

function codestream :: "byte list \<Rightarrow> byte list \<Rightarrow> nat \<Rightarrow> byte list option" where
  "codestream msg block lblock =
     (if msg = [] then Some []
      else let i = min BLOCKSIZE (length msg);
               code = map2 (XOR) (take i (md5 (take lblock block))) (take i msg)
           in Option.bind (block_write block 0 code)
                (\<lambda>block'. map_option ((@) code) (codestream (drop i msg) block' lblock)))"
  by pat_completeness auto
termination
  by (relation "measure (\<lambda>(msg, block, lblock). length msg)") (auto simp: BLOCKSIZE_def)

function decodestream :: "byte list \<Rightarrow> byte list \<Rightarrow> nat \<Rightarrow> byte list option" where
  "decodestream cypher block lblock =
     (if cypher = [] then Some []
      else let i = min BLOCKSIZE (length cypher);
               code = map2 (XOR) (take i (md5 (take lblock block))) (take i cypher)
           in Option.bind (block_write block 0 (take i cypher))
                (\<lambda>block'. map_option ((@) code) (decodestream (drop i cypher) block' lblock)))"
  by pat_completeness auto
termination
  by (relation "measure (\<lambda>(cypher, block, lblock). length cypher)") (auto simp: BLOCKSIZE_def)

declare codestream.simps [simp del] decodestream.simps [simp del]

definition crypt ::
  "byte \<Rightarrow> byte list \<Rightarrow> byte list \<Rightarrow> byte list \<Rightarrow> byte list option \<Rightarrow> (md5_error + byte list) option" where
  "crypt junk now msg key seed_arg =
     (let seed = checkseed now seed_arg; lseed = length seed
      in if lseed > BLOCKSIZE then Some (Inl SeedTooLong)
         else do {
           block \<leftarrow> block_write (replicate (BLOCKSIZE + MAXKEY) junk) 0 [of_nat lseed];
           block \<leftarrow> block_write block 1 seed;
           let prefix = take (lseed + 1) block;
           r \<leftarrow> initblock key seed block;
           (case r of
              Inl e \<Rightarrow> Some (Inl e)
            | Inr (lblock, block) \<Rightarrow>
                map_option (\<lambda>c. Inr (prefix @ c)) (codestream msg block lblock))
         })"

text \<open>
  \<open>decrypt\<close>: the first byte is a \<open>char\<close>, sign-extended to \<open>size_t\<close>; the string is followed by a zero
  byte, so that the empty string has the first byte 0.
\<close>

definition decrypt :: "byte \<Rightarrow> byte list \<Rightarrow> byte list \<Rightarrow> (md5_error + byte list) option" where
  "decrypt junk cyphertext key =
     (let lseed = scast ((cyphertext @ [0]) ! 0) :: size_t
      in if \<not> (of_nat (length cyphertext) \<ge> lseed + 1 \<and> lseed \<le> of_nat BLOCKSIZE)
         then Some (Inl InvalidCyphered)
         else do {
           let seed = take (unat lseed) (drop 1 cyphertext);
           r \<leftarrow> initblock key seed (replicate (BLOCKSIZE + MAXKEY) junk);
           (case r of
              Inl e \<Rightarrow> Some (Inl e)
            | Inr (lblock, block) \<Rightarrow>
                map_option Inr (decodestream (drop (unat (lseed + 1)) cyphertext) block lblock))
         })"

section \<open>Round trip\<close>

lemma length_md5 [simp]: "length (md5 msg) = 16"
  by (cases "md5_loop msg 0 0 inic_digest") (simp add: md5_def word32_bytes_def)

lemma map2_xor_cancel:
  "length xs = length ys \<Longrightarrow> map2 (XOR) xs (map2 (XOR) xs (ys :: byte list)) = ys"
  by (induction xs ys rule: list_induct2) (simp_all flip: xor.assoc)

text \<open>
  \<open>decodestream\<close> undoes \<open>codestream\<close> from a block with the same first \<open>lblock\<close> bytes: both loops put
  the cipher text into the block.
\<close>

lemma decodestream_codestream:
  "BLOCKSIZE \<le> lblock \<Longrightarrow> lblock \<le> length block \<Longrightarrow> lblock \<le> length block2 \<Longrightarrow>
   take lblock block2 = take lblock block \<Longrightarrow>
   \<exists>c. codestream msg block lblock = Some c \<and> length c = length msg \<and> decodestream c block2 lblock = Some msg"
proof (induction msg block lblock arbitrary: block2 rule: codestream.induct)
  case (1 msg block lblock)
  show ?case
  proof (cases "msg = []")
    case True
    then show ?thesis by (simp add: codestream.simps decodestream.simps)
  next
    case False
    define i where "i = min BLOCKSIZE (length msg)"
    define code where "code = map2 (XOR) (take i (md5 (take lblock block))) (take i msg)"
    have i: "0 < i" "i \<le> BLOCKSIZE" "i \<le> length msg"
      using False by (auto simp: i_def BLOCKSIZE_def)
    have code: "length code = i" using i by (simp add: code_def BLOCKSIZE_def)
    have bw: "block_write block 0 code = Some (code @ drop i block)"
      "block_write block2 0 code = Some (code @ drop i block2)"
      using "1.prems" i code by (simp_all add: block_write_def)
    have same: "take lblock (code @ drop i block2) = take lblock (code @ drop i block)"
      using "1.prems"(4) code by (simp add: take_drop [of "lblock - i"] drop_take [symmetric])
    obtain c where c: "codestream (drop i msg) (code @ drop i block) lblock = Some c"
      "length c = length msg - i" "decodestream c (code @ drop i block2) lblock = Some (drop i msg)"
      using "1.IH" [OF False i_def code_def bw(1) _ _ _ same] "1.prems" code i by auto
    have enc: "codestream msg block lblock = Some (code @ c)"
      using False bw(1) c(1) by (subst codestream.simps) (simp add: Let_def flip: i_def code_def)
    have len: "min BLOCKSIZE (length (code @ c)) = i"
      using code c(2) i by (simp add: i_def)
    have take: "take i (code @ c) = code" "drop i (code @ c) = c" using code by simp_all
    have "map2 (XOR) (take i (md5 (take lblock block2))) code = take i msg"
      unfolding code_def "1.prems"(4) using i by (intro map2_xor_cancel) (simp add: BLOCKSIZE_def)
    moreover have "code @ c \<noteq> []" using code i(1) by auto
    ultimately have "decodestream (code @ c) block2 lblock = Some msg"
      unfolding decodestream.simps [of "code @ c" block2 lblock] Let_def len take
      using bw(2) c(3) by (simp only: if_False bind.bind_lunit append_take_drop_id option.map)
    with enc code c(2) i(3) show ?thesis by simp
  qed
qed

text \<open>\<open>initblock\<close> fills the block from seed and key alone.\<close>

lemma initblock_ok:
  assumes "length key \<le> MAXKEY" "length seed \<le> BLOCKSIZE" "length block = BLOCKSIZE + MAXKEY"
  shows "\<exists>rest. initblock key seed block = Some (Inr (length key + BLOCKSIZE,
     seed @ replicate (BLOCKSIZE - length seed) 0 @ key @ rest)) \<and> length rest = MAXKEY - length key"
proof -
  have "block_write block 0 (replicate BLOCKSIZE 0) = Some (replicate BLOCKSIZE 0 @ drop BLOCKSIZE block)"
    using assms by (simp add: block_write_def)
  moreover have "block_write (replicate BLOCKSIZE 0 @ drop BLOCKSIZE block) 0 seed =
      Some (seed @ replicate (BLOCKSIZE - length seed) 0 @ drop BLOCKSIZE block)"
    using assms by (simp add: block_write_def)
  moreover have "block_write (seed @ replicate (BLOCKSIZE - length seed) 0 @ drop BLOCKSIZE block) BLOCKSIZE key =
      Some (seed @ replicate (BLOCKSIZE - length seed) 0 @ key @ drop (BLOCKSIZE + length key) block)"
    using assms by (simp add: block_write_def add.commute)
  ultimately show ?thesis
    using assms by (simp add: initblock_def)
qed

lemma codestream_total: "BLOCKSIZE \<le> lblock \<Longrightarrow> lblock \<le> length block \<Longrightarrow> \<exists>c. codestream msg block lblock = Some c"
  using decodestream_codestream [of lblock block block msg] by auto

lemma decodestream_total: "BLOCKSIZE \<le> length block \<Longrightarrow> \<exists>m. decodestream c block lblock = Some m"
proof (induction c block lblock rule: decodestream.induct)
  case (1 c block lblock)
  then show ?case
    by (subst decodestream.simps) (auto simp: Let_def block_write_def)
qed

text \<open>The first byte as a length.\<close>

lemma scast_seed_length: "n \<le> BLOCKSIZE \<Longrightarrow> scast (of_nat n :: byte) = (of_nat n :: size_t)"
proof -
  assume "n \<le> BLOCKSIZE"
  then have "n \<le> 16" by (simp add: BLOCKSIZE_def)
  then have "sint (of_nat n :: byte) = int n"
    by (subst sint_nonneg_eq) (simp_all add: unsigned_of_nat take_bit_nat_eq_self)
  then have "(word_of_int (sint (of_nat n :: byte)) :: size_t) = of_nat n" by simp
  then show ?thesis by simp
qed

lemma crypt_prefix:
  assumes "length seed \<le> BLOCKSIZE"
  shows "\<exists>b1 b2. block_write (replicate (BLOCKSIZE + MAXKEY) junk) 0 [x] = Some b1 \<and>
     block_write b1 1 seed = Some b2 \<and> take (length seed + 1) b2 = x # seed \<and> length b2 = BLOCKSIZE + MAXKEY"
  using assms by (auto simp: block_write_def BLOCKSIZE_def MAXKEY_def)

text \<open>
  C24. \<open>decrypt(crypt(msg, key, seed), key) == msg\<close>, as the comment on \<open>decrypt\<close> promises: for a key of at
  most 256 bytes and a seed of at most 16 (given or taken from the clock), \<open>crypt\<close> succeeds with one
  byte for the seed length, the seed, and as many bytes as the message has, and \<open>decrypt\<close> gives the
  message back, whatever the uninitialised parts of the two blocks hold.
\<close>

theorem decrypt_crypt:
  assumes "length key \<le> MAXKEY" "length (checkseed now seed) \<le> BLOCKSIZE" "length msg < 2 ^ 63"
  shows "\<exists>c. crypt junk now msg key seed = Some (Inr c) \<and> length c = length msg + length (checkseed now seed) + 1 \<and>
     decrypt junk' c key = Some (Inr msg)"
proof -
  define s where "s = checkseed now seed"
  let ?blk = "\<lambda>rest. s @ replicate (BLOCKSIZE - length s) 0 @ key @ rest" and ?l = "length key + BLOCKSIZE"
  obtain b1 b2 where b: "block_write (replicate (BLOCKSIZE + MAXKEY) junk) 0 [of_nat (length s)] = Some b1"
     "block_write b1 1 s = Some b2" "take (length s + 1) b2 = of_nat (length s) # s" "length b2 = BLOCKSIZE + MAXKEY"
    using crypt_prefix assms(2) s_def by metis
  obtain r1 where r1: "initblock key s b2 = Some (Inr (?l, ?blk r1))"
    using initblock_ok [OF assms(1), of s b2] assms(2) b(4) by (auto simp: s_def)
  obtain r2 where r2: "initblock key s (replicate (BLOCKSIZE + MAXKEY) junk') = Some (Inr (?l, ?blk r2))"
    using initblock_ok [OF assms(1), of s "replicate (BLOCKSIZE + MAXKEY) junk'"] assms(2) by (auto simp: s_def)
  obtain c where c: "codestream msg (?blk r1) ?l = Some c" "length c = length msg" "decodestream c (?blk r2) ?l = Some msg"
    using decodestream_codestream [of ?l "?blk r1" "?blk r2" msg] assms(2) by (auto simp: s_def)
  let ?c = "of_nat (length s) # s @ c"
  have enc: "crypt junk now msg key seed = Some (Inr ?c)"
    using assms(2) b r1 c(1) by (simp add: crypt_def Let_def s_def)
  have n16: "length s \<le> 16" using assms(2) by (simp add: s_def BLOCKSIZE_def)
  have l: "unat (of_nat (length s) :: size_t) = length s" "unat (of_nat (length s) + 1 :: size_t) = length s + 1"
    "unat (of_nat (length ?c) :: size_t) = length ?c"
    using n16 assms(3) c(2) by (simp_all add: unat_word_ariths unsigned_of_nat take_bit_nat_eq_self)
  have first: "scast ((?c @ [0]) ! 0) = (of_nat (length s) :: size_t)"
    using scast_seed_length [of "length s"] assms(2) by (simp add: s_def)
  have guard: "of_nat (length s) + 1 \<le> (of_nat (length ?c) :: size_t)" "(of_nat (length s) :: size_t) \<le> of_nat BLOCKSIZE"
    unfolding word_le_nat_alt l using n16 by (simp_all add: BLOCKSIZE_def)
  have "decrypt junk' ?c key = Some (Inr msg)"
    unfolding decrypt_def first Let_def l using guard r2 c(3) by simp
  with enc c(2) show ?thesis by (simp add: s_def)
qed

theorem decrypt_crypt_witness:
  "\<exists>c. crypt 0 [] [104, 105] [107] (Some [1, 2]) = Some (Inr c) \<and> decrypt 7 c [107] = Some (Inr [104, 105])"
  using decrypt_crypt [of "[107]" "[]" "Some [1, 2]" "[104, 105]" 0 7]
  by (auto simp: MAXKEY_def BLOCKSIZE_def checkseed_def)

lemma initblock_total:
  assumes "length seed \<le> BLOCKSIZE" "length block = BLOCKSIZE + MAXKEY"
  shows "initblock key seed block = Some (Inl KeyTooLong) \<and> length key > MAXKEY \<or>
    (\<exists>b. initblock key seed block = Some (Inr (length key + BLOCKSIZE, b)) \<and> length key \<le> MAXKEY \<and>
       length key + BLOCKSIZE \<le> length b)"
proof (cases "length key \<le> MAXKEY")
  case True
  then show ?thesis using initblock_ok [OF True assms] assms(1) by auto
next
  case False
  then show ?thesis by (simp add: initblock_def)
qed

text \<open>
  \<open>crypt\<close> never writes outside its block and fails only as documented: with "seed too long" exactly
  on a seed of more than 16 bytes, else with "key too long" exactly on a key of more than 256.
\<close>

theorem crypt_total:
  "\<exists>r. crypt junk now msg key seed = Some r \<and>
     (r = Inl SeedTooLong \<longleftrightarrow> length (checkseed now seed) > BLOCKSIZE) \<and>
     (r = Inl KeyTooLong \<longleftrightarrow> length (checkseed now seed) \<le> BLOCKSIZE \<and> length key > MAXKEY) \<and>
     r \<notin> {Inl LengthsMustBeEqual, Inl InvalidCyphered}"
proof (cases "length (checkseed now seed) \<le> BLOCKSIZE")
  case True
  let ?s = "checkseed now seed"
  obtain b1 b2 where b: "block_write (replicate (BLOCKSIZE + MAXKEY) junk) 0 [of_nat (length ?s)] = Some b1"
     "block_write b1 1 ?s = Some b2" "length b2 = BLOCKSIZE + MAXKEY"
    using crypt_prefix [OF True] by metis
  from initblock_total [OF True b(3), of key] show ?thesis
  proof (elim disjE exE conjE)
    fix bl assume "initblock key ?s b2 = Some (Inr (length key + BLOCKSIZE, bl))" "length key \<le> MAXKEY"
      "length key + BLOCKSIZE \<le> length bl"
    then show ?thesis
      using True b codestream_total [of "length key + BLOCKSIZE" bl msg] by (auto simp: crypt_def Let_def)
  qed (use True b in \<open>auto simp: crypt_def Let_def\<close>)
qed (simp add: crypt_def)

lemma decrypt_total: "\<exists>r. decrypt junk c key = Some r"
proof -
  define lseed where "lseed = (scast ((c @ [0]) ! 0) :: size_t)"
  show ?thesis
  proof (cases "of_nat (length c) \<ge> lseed + 1 \<and> lseed \<le> of_nat BLOCKSIZE")
    case True
    then have "unat lseed \<le> BLOCKSIZE" by (simp add: word_le_nat_alt BLOCKSIZE_def)
    then have "length (take (unat lseed) (drop 1 c)) \<le> BLOCKSIZE" by simp
    from initblock_total [OF this, of "replicate (BLOCKSIZE + MAXKEY) junk" key] True show ?thesis
      using decodestream_total by (fastforce simp: decrypt_def Let_def simp flip: lseed_def)
  qed (simp add: decrypt_def Let_def flip: lseed_def)
qed

lemma ex_or_involution: "ex_or a b = Inr c \<Longrightarrow> ex_or c b = Inr a"
proof -
  assume "ex_or a b = Inr c"
  then have "length a = length b" "c = map2 (XOR) a b" by (auto simp: ex_or_def split: if_splits)
  then show ?thesis
    by (induction a b arbitrary: c rule: list_induct2) (auto simp: ex_or_def xor.assoc)
qed

end
