(* ===== verification/Struct.thy ===== *)
theory Struct
  imports LuaValue
begin

text \<open>
  The library for packing and unpacking binary structures (\<open>src/Lib/lua-struct/struct.c\<close>). A format
  is a C string, here the list of its characters. A computation ends with a value or with a
  \<open>struct_err\<close>: an error the code raises, or one of the \<open>UB\<close> constructors where the C code has
  undefined behaviour: an \<open>int\<close> overflow in \<open>getnum\<close>, the conversion of a number that does not fit,
  a read outside the data string. The limit of the Lua stack is not modelled.
\<close>

section \<open>Formats\<close>

datatype struct_err =
    NumberSize | IntegralSize | InvalidFormat char | BadArgument | StringTooLong | DataTooShort
  | NeedsPreviousSize | UnfinishedString | NoFixedSize
  | UB_Overflow | UB_Conversion | UB_Read

datatype endian = BIG | LITTLE

text \<open>The \<open>Header\<close>; its member \<open>align\<close> is never read.\<close>

record header =
  h_endian :: endian

text \<open>\<open>defaultoptions\<close> on a little endian machine.\<close>

definition defaultoptions :: header where
  "defaultoptions = \<lparr>h_endian = LITTLE\<rparr>"

definition isdigit :: "char \<Rightarrow> bool" where
  "isdigit c \<longleftrightarrow> c \<in> set ''0123456789''"

definition INT_MAX :: int where
  "INT_MAX = 2147483647"

text \<open>
  The loop of \<open>getnum\<close>: \<open>a = a*10 + *((*fmt)++) - '0'\<close>, evaluated from the left in \<open>int\<close>.
\<close>

fun getnum_loop :: "int \<Rightarrow> string \<Rightarrow> struct_err + int \<times> string" where
  "getnum_loop a [] = Inr (a, [])"
| "getnum_loop a (c # cs) =
     (if isdigit c then
        (if a * 10 + of_char c > INT_MAX then Inl UB_Overflow
         else getnum_loop (a * 10 + of_char c - 48) cs)
      else Inr (a, c # cs))"

definition getnum :: "string \<Rightarrow> int \<Rightarrow> struct_err + int \<times> string" where
  "getnum fmt df =
     (case fmt of [] \<Rightarrow> Inr (df, fmt)
      | c # _ \<Rightarrow> if \<not> isdigit c then Inr (df, fmt) else getnum_loop 0 fmt)"

text \<open>\<open>optsize\<close>: the size of an option and the rest of the format.\<close>

definition optsize :: "char \<Rightarrow> string \<Rightarrow> struct_err + nat \<times> string" where
  "optsize opt fmt =
     (if opt \<in> set ''Bb'' then Inr (1, fmt)
      else if opt \<in> set ''Hh'' then Inr (2, fmt)
      else if opt \<in> set ''Ll'' then
        ebind (getnum fmt 8) (\<lambda>(n, fmt).
          if n \<noteq> 4 \<and> n \<noteq> 8 then Inl NumberSize else Inr (nat n, fmt))
      else if opt = CHR ''x'' then ebind (getnum fmt 1) (\<lambda>(n, fmt). Inr (nat n, fmt))
      else if opt = CHR ''c'' then ebind (getnum fmt 0) (\<lambda>(n, fmt). Inr (nat n, fmt))
      else if opt \<in> set ''iI'' then
        ebind (getnum fmt 4) (\<lambda>(n, fmt).
          if n \<noteq> 4 \<and> n \<noteq> 8 then Inl IntegralSize else Inr (nat n, fmt))
      else Inr (0, fmt))"

definition controloptions :: "char \<Rightarrow> header \<Rightarrow> struct_err + header" where
  "controloptions opt h =
     (if opt = CHR '' '' then Inr h
      else if opt = CHR ''>'' then Inr (h\<lparr>h_endian := BIG\<rparr>)
      else if opt = CHR ''<'' then Inr (h\<lparr>h_endian := LITTLE\<rparr>)
      else Inl (InvalidFormat opt))"

definition is_int_opt :: "char \<Rightarrow> bool" where
  "is_int_opt opt \<longleftrightarrow> opt \<in> set ''bBhHlLiI''"

section \<open>Packing\<close>

text \<open>
  Arguments: \<open>tonum\<close> and \<open>tostr\<close> are the conversions between numbers and strings of the Lua core.
\<close>

definition checknumber :: "(byte list \<Rightarrow> lua_Number option) \<Rightarrow> lua_value option \<Rightarrow> struct_err + lua_Number" where
  "checknumber tonum v =
     (case v of Some (LNumber n) \<Rightarrow> Inr n
      | Some (LString s) \<Rightarrow> (case tonum s of Some n \<Rightarrow> Inr n | None \<Rightarrow> Inl BadArgument)
      | _ \<Rightarrow> Inl BadArgument)"

definition checklstring :: "(lua_Number \<Rightarrow> byte list) \<Rightarrow> lua_value option \<Rightarrow> struct_err + byte list" where
  "checklstring tostr v =
     (case v of Some (LString s) \<Rightarrow> Inr s | Some (LNumber n) \<Rightarrow> Inr (tostr n) | _ \<Rightarrow> Inl BadArgument)"

text \<open>The two loops of \<open>putinteger\<close> over the array \<open>buff\<close>.\<close>

fun put_little :: "nat \<Rightarrow> nat \<Rightarrow> uint64 \<Rightarrow> byte list \<Rightarrow> byte list" where
  "put_little i 0 v buff = buff"
| "put_little i (Suc n) v buff = put_little (i + 1) n (drop_bit 8 v) (buff[i := ucast (v AND 0xff)])"

fun put_big :: "nat \<Rightarrow> uint64 \<Rightarrow> byte list \<Rightarrow> byte list" where
  "put_big 0 v buff = buff"
| "put_big (Suc i) v buff = put_big i (drop_bit 8 v) (buff[i := ucast (v AND 0xff)])"

definition putinteger :: "lua_Number \<Rightarrow> endian \<Rightarrow> nat \<Rightarrow> struct_err + byte list" where
  "putinteger n en sz =
     (case (if dbl_neg n then dbl_to_int64 n else dbl_to_uint64 n) of
        None \<Rightarrow> Inl UB_Conversion
      | Some v \<Rightarrow>
         Inr (take sz (case en of LITTLE \<Rightarrow> put_little 0 sz v (replicate 8 0)
                         | BIG \<Rightarrow> put_big sz v (replicate 8 0))))"

lemma getnum_loop_length: "getnum_loop a fmt = Inr (n, fmt') \<Longrightarrow> length fmt' \<le> length fmt"
  by (induction a fmt rule: getnum_loop.induct) (fastforce split: if_splits)+

lemma getnum_length: "getnum fmt df = Inr (n, fmt') \<Longrightarrow> length fmt' \<le> length fmt"
  by (auto simp: getnum_def dest: getnum_loop_length split: list.splits if_splits simp del: getnum_loop.simps)

lemma optsize_length: "optsize opt fmt = Inr (n, fmt') \<Longrightarrow> length fmt' \<le> length fmt"
  by (auto simp: optsize_def ebind_Inr_iff dest!: getnum_length split: if_splits)

text \<open>
  The loop of \<open>b_pack\<close>: \<open>args\<close> are the arguments not yet used and \<open>out\<close> is the buffer.
\<close>

function b_pack_loop ::
  "(byte list \<Rightarrow> lua_Number option) \<Rightarrow> (lua_Number \<Rightarrow> byte list) \<Rightarrow> string \<Rightarrow> header \<Rightarrow> lua_value list \<Rightarrow>
   byte list \<Rightarrow> struct_err + byte list" where
  "b_pack_loop tonum tostr [] h args out = Inr out"
| "b_pack_loop tonum tostr (opt # fmt) h args out =
     ebind (optsize opt fmt) (\<lambda>(sz, fmt').
       let arg = (case args of [] \<Rightarrow> None | a # _ \<Rightarrow> Some a)
       in if is_int_opt opt then
            ebind (checknumber tonum arg) (\<lambda>n.
            ebind (putinteger n (h_endian h) sz) (\<lambda>bs.
              b_pack_loop tonum tostr fmt' h (tl args) (out @ bs)))
          else if opt = CHR ''x'' then
            b_pack_loop tonum tostr fmt' h args (out @ replicate sz 0)
          else if opt = CHR ''c'' \<or> opt = CHR ''s'' then
            ebind (checklstring tostr arg) (\<lambda>s.
              let sz = (if sz = 0 then length s else sz)
              in if \<not> length s \<le> sz then Inl StringTooLong
                 else b_pack_loop tonum tostr fmt' h (tl args)
                   (out @ s @ replicate (sz - length s) 0 @ (if opt = CHR ''s'' then [0] else [])))
          else ebind (controloptions opt h) (\<lambda>h'. b_pack_loop tonum tostr fmt' h' args out))"
  by pat_completeness auto
termination
  by (relation "measure (\<lambda>(tonum, tostr, fmt, h, args, out). length fmt)")
     (auto dest!: optsize_length simp: le_imp_less_Suc)

definition b_pack ::
  "(byte list \<Rightarrow> lua_Number option) \<Rightarrow> (lua_Number \<Rightarrow> byte list) \<Rightarrow> string \<Rightarrow> lua_value list \<Rightarrow>
   struct_err + byte list" where
  "b_pack tonum tostr fmt args = b_pack_loop tonum tostr fmt defaultoptions args []"

section \<open>Unpacking\<close>

text \<open>\<open>getinteger\<close> on the bytes of the integer in memory order.\<close>

definition get_bytes :: "byte list \<Rightarrow> uint64" where
  "get_bytes bs = fold (\<lambda>b l. push_bit 8 l OR ucast b) bs 0"

definition getinteger :: "byte list \<Rightarrow> endian \<Rightarrow> bool \<Rightarrow> nat \<Rightarrow> lua_Number" where
  "getinteger buff en issigned sz =
     (let l = (case en of BIG \<Rightarrow> get_bytes (take sz buff) | LITTLE \<Rightarrow> get_bytes (rev (take sz buff)))
      in if \<not> issigned then dbl_of_int (uint l)
         else let mask = push_bit (sz * 8 - 1) (NOT 0) :: uint64;
                  l = (if l AND mask \<noteq> 0 then l OR mask else l)
              in dbl_of_int (sint l))"

definition read_data :: "byte list \<Rightarrow> size_t \<Rightarrow> nat \<Rightarrow> struct_err + byte list" where
  "read_data data pos n =
     (if unat pos + n \<le> length data then Inr (take n (drop (unat pos) data)) else Inl UB_Read)"

definition islower :: "char \<Rightarrow> bool" where
  "islower c \<longleftrightarrow> c \<in> set ''abcdefghijklmnopqrstuvwxyz''"

text \<open>\<open>lua_isnumber\<close> and \<open>lua_tonumber\<close>.\<close>

definition tonumber :: "(byte list \<Rightarrow> lua_Number option) \<Rightarrow> lua_value \<Rightarrow> lua_Number option" where
  "tonumber tonum v = (case v of LNumber n \<Rightarrow> Some n | LString s \<Rightarrow> tonum s | _ \<Rightarrow> None)"

text \<open>
  The loop of \<open>b_unpack\<close>. \<open>stk\<close> is the Lua stack above the format, top first; at the start it holds the
  data string, and an option \<open>c0\<close> pops whatever is on top.
\<close>

function b_unpack_loop ::
  "(byte list \<Rightarrow> lua_Number option) \<Rightarrow> byte list \<Rightarrow> string \<Rightarrow> header \<Rightarrow> size_t \<Rightarrow> lua_value list \<Rightarrow>
   struct_err + size_t \<times> lua_value list" where
  "b_unpack_loop tonum data [] h pos stk = Inr (pos, stk)"
| "b_unpack_loop tonum data (opt # fmt) h pos stk =
     ebind (optsize opt fmt) (\<lambda>(sz, fmt').
       if \<not> pos + of_nat sz \<le> of_nat (length data) then Inl DataTooShort
       else if is_int_opt opt then
         ebind (read_data data pos sz) (\<lambda>bs.
           b_unpack_loop tonum data fmt' h (pos + of_nat sz)
             (LNumber (getinteger bs (h_endian h) (islower opt) sz) # stk))
       else if opt = CHR ''x'' then
         b_unpack_loop tonum data fmt' h (pos + of_nat sz) (LNumber (dbl_of_int (- 1)) # stk)
       else if opt = CHR ''c'' then
         (if sz = 0 then
            (case Option.bind (case stk of [] \<Rightarrow> None | v # _ \<Rightarrow> Some v) (tonumber tonum) of
               None \<Rightarrow> Inl NeedsPreviousSize
             | Some n \<Rightarrow>
                (case dbl_to_uint64 n of None \<Rightarrow> Inl UB_Conversion
                 | Some w \<Rightarrow>
                    if \<not> pos + w \<le> of_nat (length data) then Inl DataTooShort
                    else ebind (read_data data pos (unat w)) (\<lambda>bs.
                      b_unpack_loop tonum data fmt' h (pos + w) (LString bs # tl stk))))
          else ebind (read_data data pos sz) (\<lambda>bs.
            b_unpack_loop tonum data fmt' h (pos + of_nat sz) (LString bs # stk)))
       else if opt = CHR ''s'' then
         ebind (read_data data pos (length data - unat pos)) (\<lambda>rest.
           if 0 \<notin> set rest then Inl UnfinishedString
           else let s = takeWhile (\<lambda>b. b \<noteq> 0) rest
                in b_unpack_loop tonum data fmt' h (pos + of_nat (length s + 1)) (LString s # stk))
       else ebind (controloptions opt h) (\<lambda>h'. b_unpack_loop tonum data fmt' h' (pos + of_nat sz) stk))"
  by pat_completeness auto
termination
  by (relation "measure (\<lambda>(tonum, data, fmt, h, pos, stk). length fmt)")
     (auto dest!: optsize_length simp: le_imp_less_Suc)

text \<open>
  \<open>b_unpack\<close> returns the \<open>lua_gettop(L) - 2\<close> topmost values, the position after the data last.
\<close>

definition b_unpack ::
  "(byte list \<Rightarrow> lua_Number option) \<Rightarrow> string \<Rightarrow> byte list \<Rightarrow> int \<Rightarrow> struct_err + lua_value list" where
  "b_unpack tonum fmt data init =
     ebind (b_unpack_loop tonum data fmt defaultoptions (word_of_int (init - 1)) [LString data])
       (\<lambda>(pos, stk).
          let stk' = LNumber (dbl_of_int (sint (pos + 1))) # stk
          in Inr (rev (take (length stk' - 1) stk')))"

section \<open>Size of a format\<close>

definition isalnum :: "char \<Rightarrow> bool" where
  "isalnum c \<longleftrightarrow> isdigit c \<or> islower c \<or> c \<in> set ''ABCDEFGHIJKLMNOPQRSTUVWXYZ''"

function b_size_loop :: "string \<Rightarrow> header \<Rightarrow> nat \<Rightarrow> struct_err + nat" where
  "b_size_loop [] h pos = Inr pos"
| "b_size_loop (opt # fmt) h pos =
     ebind (optsize opt fmt) (\<lambda>(sz, fmt').
       if opt = CHR ''s'' then Inl NoFixedSize
       else if opt = CHR ''c'' \<and> sz = 0 then Inl NoFixedSize
       else ebind (if \<not> isalnum opt then controloptions opt h else Inr h) (\<lambda>h'.
         b_size_loop fmt' h' (pos + sz)))"
  by pat_completeness auto
termination
  by (relation "measure (\<lambda>(fmt, h, pos). length fmt)")
     (auto dest!: optsize_length simp: le_imp_less_Suc)

definition b_size :: "string \<Rightarrow> struct_err + nat" where
  "b_size fmt = b_size_loop fmt defaultoptions 0"

end
