(* ===== verification/Struct_Proofs.thy ===== *)
theory Struct_Proofs
  imports Struct
begin

text \<open>
  Properties of the structure library: the round trip of \<open>pack\<close> and \<open>unpack\<close>, the agreement of \<open>size\<close> with
  \<open>pack\<close>, and the reads of \<open>unpack\<close>.
\<close>

section \<open>Integers\<close>

abbreviation byte_of :: "uint64 \<Rightarrow> nat \<Rightarrow> byte" where
  "byte_of v k \<equiv> ucast (drop_bit (8 * k) v)"

lemma ucast_and_ff: "ucast (v AND 0xff) = (ucast (v :: uint64) :: byte)"
proof -
  have m: "(0xff :: uint64) = mask 8" by (simp add: mask_eq_exp_minus_1)
  show ?thesis unfolding m by (rule bit_eqI) (auto simp: bit_simps)
qed

lemma map_byte_Suc: "map (byte_of v) [0..<Suc n] = ucast v # map (byte_of (drop_bit 8 v)) [0..<n]"
  by (simp add: upt_conv_Cons drop_bit_drop_bit del: upt_Suc flip: map_Suc_upt) (simp add: algebra_simps)

lemma put_little_bytes: "i + n \<le> length buff \<Longrightarrow>
   put_little i n v buff = take i buff @ map (byte_of v) [0..<n] @ drop (i + n) buff"
proof (induction n arbitrary: i v buff)
  case (Suc n)
  have "put_little i (Suc n) v buff = put_little (i + 1) n (drop_bit 8 v) (buff[i := ucast v])"
    by (simp add: ucast_and_ff)
  also have "\<dots> = take (i + 1) (buff[i := ucast v]) @ map (byte_of (drop_bit 8 v)) [0..<n] @ drop (i + 1 + n) buff"
    using Suc.prems by (subst Suc.IH) simp_all
  also have "take (i + 1) (buff[i := ucast v]) = take i buff @ [ucast v]"
    using Suc.prems by (simp add: take_Suc_conv_app_nth)
  finally show ?case by (simp only: map_byte_Suc) simp
qed simp

lemma put_big_bytes: "n \<le> length buff \<Longrightarrow> put_big n v buff = rev (map (byte_of v) [0..<n]) @ drop n buff"
proof (induction n arbitrary: v buff)
  case (Suc n)
  have "put_big (Suc n) v buff = put_big n (drop_bit 8 v) (buff[n := ucast v])"
    by (simp add: ucast_and_ff)
  also have "\<dots> = rev (map (byte_of (drop_bit 8 v)) [0..<n]) @ drop n (buff[n := ucast v])"
    using Suc.prems by (subst Suc.IH) simp_all
  also have "drop n (buff[n := ucast v]) = ucast v # drop (Suc n) buff"
    using Suc.prems by (metis Cons_nth_drop_Suc Suc_le_lessD drop_update_cancel length_list_update lessI nth_list_update_eq)
  finally show ?case by (simp only: map_byte_Suc) simp
qed simp

lemma get_bytes_snoc: "get_bytes (bs @ [b]) = push_bit 8 (get_bytes bs) OR ucast b"
  by (simp add: get_bytes_def)

lemma get_bytes_bytes: "get_bytes (rev (map (byte_of v) [0..<n])) = take_bit (8 * n) v"
proof (induction n arbitrary: v)
  case 0
  show ?case by (simp add: get_bytes_def)
next
  case (Suc n)
  have "get_bytes (rev (map (byte_of v) [0..<Suc n])) = push_bit 8 (take_bit (8 * n) (drop_bit 8 v)) OR ucast (ucast v :: byte)"
    by (simp only: map_byte_Suc rev.simps get_bytes_snoc Suc.IH)
  also have "\<dots> = take_bit (8 * Suc n) v"
    by (rule bit_eqI) (auto simp: bit_simps)
  finally show ?case .
qed

lemma sign_extend:
  fixes v :: uint64
  assumes "0 < s" "s \<le> 8"
  defines "l \<equiv> take_bit (8 * s) v" and "m \<equiv> push_bit (s * 8 - 1) (NOT 0) :: uint64"
  shows "(if l AND m \<noteq> 0 then l OR m else l) = signed_take_bit (8 * s - 1) v"
proof -
  have b: "bit (l AND m) k \<longleftrightarrow> k = 8 * s - 1 \<and> bit v (8 * s - 1)" for k
  proof (cases "k = 8 * s - 1")
    case True
    then show ?thesis using assms(1,2) by (auto simp: l_def m_def bit_simps mult.commute)
  next
    case False
    then have "\<not> (k < 8 * s \<and> 8 * s - 1 \<le> k)" by linarith
    then show ?thesis using False by (auto simp: l_def m_def bit_simps mult.commute)
  qed
  have nz: "l AND m \<noteq> 0 \<longleftrightarrow> bit v (8 * s - 1)"
    using b by (metis bit_0_eq bot_apply bot_bool_def bit_eqI)
  show ?thesis
    unfolding nz
  proof (rule bit_word_eqI)
    fix k assume k: "k < LENGTH(64)"
    have "k < 8 * s - 1 \<or> k = 8 * s - 1 \<or> 8 * s \<le> k" by linarith
    then show "bit (if bit v (8 * s - 1) then l OR m else l) k = bit (signed_take_bit (8 * s - 1) v) k"
      using assms(1,2) k by (elim disjE) (auto simp: l_def m_def bit_simps min_def mult.commute)
  qed
qed

lemma signed_take_bit_id:
  assumes "- (2 ^ n) \<le> k" "k < 2 ^ n" "n < 64"
  shows "signed_take_bit n (word_of_int k :: uint64) = word_of_int k"
proof -
  have "signed_take_bit n k = k" using assms by (simp add: signed_take_bit_int_eq_self)
  then have "bit k m = bit k (min n m)" for m
    by (metis bit_signed_take_bit_iff possible_bit_int)
  then show ?thesis
    using assms(3) by (intro bit_word_eqI) (auto simp: bit_simps min_def)
qed

text \<open>An integer that fits the option.\<close>

definition int_range :: "bool \<Rightarrow> nat \<Rightarrow> int \<Rightarrow> bool" where
  "int_range issigned s k \<longleftrightarrow>
     (if issigned then - (2 ^ (8 * s - 1)) \<le> k \<and> k < 2 ^ (8 * s - 1) else 0 \<le> k \<and> k < 2 ^ (8 * s))"

definition fits_int :: "lua_Number \<Rightarrow> bool \<Rightarrow> nat \<Rightarrow> bool" where
  "fits_int n issigned s \<longleftrightarrow> n \<noteq> push_bit 63 1 \<and> dbl_integral n \<and>
     (case dbl_trunc n of None \<Rightarrow> False | Some k \<Rightarrow> int_range issigned s k)"

lemma dbl_trunc_sign:
  "dbl_trunc n = Some k \<Longrightarrow> (if dbl_neg n then k \<le> 0 else 0 \<le> k)"
  by (auto simp: dbl_trunc_def dbl_neg_def dbl_is_nan_def ieee_unpack_def Let_def split: if_splits)

lemma getinteger_putinteger:
  assumes "fits_int n issigned s" "s \<in> {1, 2, 4, 8}"
  shows "\<exists>bs. putinteger n en s = Inr bs \<and> length bs = s \<and> getinteger bs en issigned s = n"
proof -
  obtain k where k: "dbl_trunc n = Some k" "int_range issigned s k"
    using assms(1) by (auto simp: fits_int_def split: option.splits)
  have s: "0 < s" "s \<le> 8" using assms(2) by auto
  have n: "dbl_of_int k = n" using assms(1) k(1) by (intro dbl_of_int_trunc) (auto simp: fits_int_def)
  let ?v = "word_of_int k :: uint64"
  have bnd: "k < 2 ^ 64" "- (2 ^ 63) \<le> k" "k \<le> 0 \<Longrightarrow> k < 2 ^ 63"
    using k(2) assms(2) by (auto simp: int_range_def split: if_splits)
  have "(if dbl_neg n then dbl_to_int64 n else dbl_to_uint64 n) = Some ?v"
    using k(1) bnd dbl_trunc_sign [OF k(1)] by (auto simp: dbl_to_int64_def dbl_to_uint64_def)
  moreover define bs where "bs = (case en of LITTLE \<Rightarrow> map (byte_of ?v) [0..<s] | BIG \<Rightarrow> rev (map (byte_of ?v) [0..<s]))"
  ultimately have "putinteger n en s = Inr bs"
    using s by (simp add: putinteger_def put_little_bytes put_big_bytes split: endian.split)
  moreover have "length bs = s" by (simp add: bs_def split: endian.split)
  moreover have "getinteger bs en issigned s = n"
  proof -
    have l: "(case en of BIG \<Rightarrow> get_bytes (take s bs) | LITTLE \<Rightarrow> get_bytes (rev (take s bs))) = take_bit (8 * s) ?v"
      by (simp add: bs_def get_bytes_bytes split: endian.split)
    show ?thesis
    proof (cases issigned)
      case True
      then have r: "- (2 ^ (8 * s - 1)) \<le> k" "k < 2 ^ (8 * s - 1)" using k(2) by (simp_all add: int_range_def)
      have "sint ?v = k"
        using bnd r assms(2) by (auto simp: signed_of_int signed_take_bit_int_eq_self)
      moreover have "signed_take_bit (8 * s - 1) ?v = ?v"
        using signed_take_bit_id [OF r] s by simp
      ultimately show ?thesis
        unfolding getinteger_def Let_def l sign_extend [OF s] using True n by simp
    next
      case False
      then have r: "0 \<le> k" "k < 2 ^ (8 * s)" using k(2) by (simp_all add: int_range_def)
      then have "uint (take_bit (8 * s) ?v) = k"
        using bnd(1) by (simp add: unsigned_take_bit_eq uint_word_of_int_eq take_bit_int_eq_self)
      then show ?thesis using False n by (simp add: getinteger_def l Let_def)
    qed
  qed
  ultimately show ?thesis by blast
qed

section \<open>Round trip\<close>

lemma optsize_int: "is_int_opt opt \<Longrightarrow> optsize opt fmt = Inr (s, fmt') \<Longrightarrow> s \<in> {1, 2, 4, 8}"
proof -
  assume "is_int_opt opt" and o: "optsize opt fmt = Inr (s, fmt')"
  then have "opt = CHR ''b'' \<or> opt = CHR ''B'' \<or> opt = CHR ''h'' \<or> opt = CHR ''H'' \<or> opt = CHR ''l'' \<or>
      opt = CHR ''L'' \<or> opt = CHR ''i'' \<or> opt = CHR ''I''"
    by (simp add: is_int_opt_def)
  then show ?thesis
    using o by (elim disjE; simp add: optsize_def ebind_Inr_iff; fastforce split: if_splits)
qed

text \<open>
  Arguments that \<open>unpack\<close> gives back: an integer in the range of its option, a string without zero
  bytes for \<open>s\<close>, a string of exactly \<open>n\<close> bytes for \<open>cn\<close>.
\<close>

function fits :: "string \<Rightarrow> lua_value list \<Rightarrow> bool" where
  "fits [] args = (args = [])"
| "fits (opt # fmt) args =
     (case optsize opt fmt of Inl _ \<Rightarrow> False
      | Inr (s, fmt') \<Rightarrow>
         if is_int_opt opt then
           (case args of LNumber n # args' \<Rightarrow> fits_int n (islower opt) s \<and> fits fmt' args' | _ \<Rightarrow> False)
         else if opt = CHR ''c'' then
           (case args of LString bs # args' \<Rightarrow> 0 < s \<and> length bs = s \<and> fits fmt' args' | _ \<Rightarrow> False)
         else if opt = CHR ''s'' then
           (case args of LString bs # args' \<Rightarrow> 0 \<notin> set bs \<and> fits fmt' args' | _ \<Rightarrow> False)
         else opt \<in> set '' <>'' \<and> fits fmt' args)"
  by pat_completeness auto
termination
  by (relation "measure (\<lambda>(fmt, args). length fmt)") (auto dest!: optsize_length)

lemma read_data_at: "length (pre @ w @ post) < 2 ^ 63 \<Longrightarrow> length w = n \<Longrightarrow>
    read_data (pre @ w @ post) (of_nat (length pre)) n = Inr w"
  by (simp add: read_data_def unsigned_of_nat take_bit_nat_eq_self)

lemma pos_add: "a + b \<le> c \<Longrightarrow> c < 2 ^ 63 \<Longrightarrow> (of_nat a + of_nat b :: size_t) \<le> of_nat c"
  by (simp add: word_le_nat_alt unsigned_of_nat take_bit_nat_eq_self flip: of_nat_add)

lemma takeWhile_zero: "0 \<notin> set s \<Longrightarrow> takeWhile (\<lambda>b. b \<noteq> 0) (s @ 0 # r) = s"
  by (subst takeWhile_append2) auto

text \<open>One option: what \<open>pack\<close> writes for it, \<open>unpack\<close> reads back.\<close>

definition rt_from :: "string \<Rightarrow> header \<Rightarrow> lua_value list \<Rightarrow> byte list \<Rightarrow> bool" where
  "rt_from fmt h args w \<longleftrightarrow>
     (\<forall>tonum tostr out. b_pack_loop tonum tostr fmt h args out = Inr (out @ w)) \<and>
     (\<forall>tonum pre post stk. length (pre @ w @ post) < 2 ^ 63 \<longrightarrow>
        b_unpack_loop tonum (pre @ w @ post) fmt h (of_nat (length pre)) stk =
          Inr (of_nat (length pre + length w), rev args @ stk))"

lemma rt_unpack: "rt_from fmt h args w \<Longrightarrow> length (pre @ w @ post) < 2 ^ 63 \<Longrightarrow>
    b_unpack_loop tonum (pre @ w @ post) fmt h (of_nat (length pre)) stk =
      Inr (of_nat (length pre + length w), rev args @ stk)"
  by (simp add: rt_from_def)

lemma rt_int:
  assumes "optsize opt fmt = Inr (s, fmt')" "is_int_opt opt" "fits_int n (islower opt) s"
    and rest: "rt_from fmt' h args w"
  shows "\<exists>w. rt_from (opt # fmt) h (LNumber n # args) w"
proof -
  have s: "s \<in> {1, 2, 4, 8}" using optsize_int [OF assms(2,1)] .
  obtain bs where bs: "putinteger n (h_endian h) s = Inr bs" "length bs = s"
    "getinteger bs (h_endian h) (islower opt) s = n"
    using getinteger_putinteger [OF assms(3) s] by blast
  have "b_unpack_loop tonum (pre @ (bs @ w) @ post) (opt # fmt) h (of_nat (length pre)) stk =
      Inr (of_nat (length pre + length (bs @ w)), rev (LNumber n # args) @ stk)"
    if l: "length (pre @ (bs @ w) @ post) < 2 ^ 63" for tonum pre post stk
  proof -
    have "read_data (pre @ bs @ (w @ post)) (of_nat (length pre)) s = Inr bs"
      using l bs(2) by (intro read_data_at) simp_all
    moreover have "(of_nat (length pre) + of_nat s :: size_t) \<le> of_nat (length (pre @ bs @ w @ post))"
      using l bs(2) by (intro pos_add) simp_all
    moreover have "b_unpack_loop tonum (pre @ bs @ w @ post) fmt' h (of_nat (length pre) + of_nat s) (LNumber n # stk) =
      Inr (of_nat (length pre + length (bs @ w)), rev args @ LNumber n # stk)"
      using rt_unpack [OF rest, of "pre @ bs" post tonum "LNumber n # stk"] l bs(2) by (simp add: add.assoc)
    ultimately show ?thesis
      using assms(1,2) bs(3) by simp
  qed
  then have "rt_from (opt # fmt) h (LNumber n # args) (bs @ w)"
    using rest assms(1,2) bs(1) by (simp add: rt_from_def checknumber_def del: of_nat_add)
  then show ?thesis by blast
qed

lemma not_int_opt [simp]: "\<not> is_int_opt (CHR ''c'')" "\<not> is_int_opt (CHR ''s'')" "\<not> is_int_opt (CHR ''x'')"
    "\<not> is_int_opt (CHR '' '')" "\<not> is_int_opt (CHR ''<'')" "\<not> is_int_opt (CHR ''>'')"
  by (simp_all add: is_int_opt_def)

lemma optsize_plain [simp]: "optsize (CHR ''s'') fmt = Inr (0, fmt)" "optsize (CHR '' '') fmt = Inr (0, fmt)"
    "optsize (CHR ''<'') fmt = Inr (0, fmt)" "optsize (CHR ''>'') fmt = Inr (0, fmt)"
  by (simp_all add: optsize_def)

lemma rt_chars:
  assumes "optsize (CHR ''c'') fmt = Inr (s, fmt')" "0 < s" "length bs = s" and rest: "rt_from fmt' h args w"
  shows "\<exists>w. rt_from (CHR ''c'' # fmt) h (LString bs # args) w"
proof -
  have "b_unpack_loop tonum (pre @ (bs @ w) @ post) (CHR ''c'' # fmt) h (of_nat (length pre)) stk =
      Inr (of_nat (length pre + length (bs @ w)), rev (LString bs # args) @ stk)"
    if l: "length (pre @ (bs @ w) @ post) < 2 ^ 63" for tonum pre post stk
  proof -
    have "read_data (pre @ bs @ (w @ post)) (of_nat (length pre)) s = Inr bs"
      using l assms(3) by (intro read_data_at) simp_all
    moreover have "(of_nat (length pre) + of_nat s :: size_t) \<le> of_nat (length (pre @ bs @ w @ post))"
      using l assms(3) by (intro pos_add) simp_all
    moreover have "b_unpack_loop tonum (pre @ bs @ w @ post) fmt' h (of_nat (length pre) + of_nat s) (LString bs # stk) =
      Inr (of_nat (length pre + length (bs @ w)), rev args @ LString bs # stk)"
      using rt_unpack [OF rest, of "pre @ bs" post tonum "LString bs # stk"] l assms(3) by (simp add: add.assoc)
    ultimately show ?thesis
      using assms(1,2) by simp
  qed
  then have "rt_from (CHR ''c'' # fmt) h (LString bs # args) (bs @ w)"
    using rest assms(1,2,3) by (simp add: rt_from_def checklstring_def del: of_nat_add)
  then show ?thesis by blast
qed

lemma rt_string:
  assumes "0 \<notin> set bs" and rest: "rt_from fmt h args w"
  shows "\<exists>w. rt_from (CHR ''s'' # fmt) h (LString bs # args) w"
proof -
  have "b_unpack_loop tonum (pre @ (bs @ 0 # w) @ post) (CHR ''s'' # fmt) h (of_nat (length pre)) stk =
      Inr (of_nat (length pre + length (bs @ 0 # w)), rev (LString bs # args) @ stk)"
    if l: "length (pre @ (bs @ 0 # w) @ post) < 2 ^ 63" for tonum pre post stk
  proof -
    let ?d = "pre @ bs @ 0 # w @ post"
    have u: "unat (of_nat (length pre) :: size_t) = length pre"
      using l by (simp add: unsigned_of_nat take_bit_nat_eq_self)
    have "read_data ?d (of_nat (length pre)) (length ?d - length pre) = Inr (bs @ 0 # w @ post)"
      using l read_data_at [of pre "bs @ 0 # w @ post" "[]"] by simp
    moreover have "(of_nat (length pre) + of_nat 0 :: size_t) \<le> of_nat (length ?d)"
      using l by (intro pos_add) simp_all
    moreover have "takeWhile (\<lambda>b. b \<noteq> 0) (bs @ 0 # w @ post) = bs"
      using takeWhile_zero [OF assms(1)] by simp
    moreover have "b_unpack_loop tonum ?d fmt h (of_nat (length pre) + of_nat (length bs + 1)) (LString bs # stk) =
      Inr (of_nat (length pre + length (bs @ 0 # w)), rev args @ LString bs # stk)"
      using rt_unpack [OF rest, of "pre @ bs @ [0]" post tonum "LString bs # stk"] l by (simp add: ac_simps)
    ultimately show ?thesis
      by (simp add: u)
  qed
  then have "rt_from (CHR ''s'' # fmt) h (LString bs # args) (bs @ 0 # w)"
    using rest by (simp add: rt_from_def checklstring_def del: of_nat_add)
  then show ?thesis by blast
qed

lemma rt_control:
  assumes "opt \<in> set '' <>''" "\<And>h. rt_from fmt h args (w h)"
  shows "\<exists>w. rt_from (opt # fmt) h args w"
proof -
  have le: "(of_nat (length pre) :: size_t) \<le> of_nat (length (pre @ v @ post))" if "length (pre @ v @ post) < 2 ^ 63"
    for pre v post :: "byte list" using that pos_add [of "length pre" 0 "length (pre @ v @ post)"] by simp
  from assms(1) consider "opt = CHR '' ''" | "opt = CHR ''<''" | "opt = CHR ''>''" by auto
  then show ?thesis
  proof cases
    case 1
    then have "rt_from (opt # fmt) h args (w h)"
      using assms(2) [of h] le by (simp add: rt_from_def controloptions_def)
    then show ?thesis by blast
  next
    case 2
    then have "rt_from (opt # fmt) h args (w (h\<lparr>h_endian := LITTLE\<rparr>))"
      using assms(2) [of "h\<lparr>h_endian := LITTLE\<rparr>"] le by (simp add: rt_from_def controloptions_def)
    then show ?thesis by blast
  next
    case 3
    then have "rt_from (opt # fmt) h args (w (h\<lparr>h_endian := BIG\<rparr>))"
      using assms(2) [of "h\<lparr>h_endian := BIG\<rparr>"] le by (simp add: rt_from_def controloptions_def)
    then show ?thesis by blast
  qed
qed

lemma fits_rt: "fits fmt args \<Longrightarrow> \<exists>w. rt_from fmt h args w"
proof (induction fmt arbitrary: args h rule: measure_induct_rule [of length])
  case (less fmt)
  show ?case
  proof (cases fmt)
    case Nil
    with less.prems show ?thesis by (auto simp: rt_from_def)
  next
    case (Cons opt fmt1)
    with less.prems obtain s fmt' where o: "optsize opt fmt1 = Inr (s, fmt')"
      by (auto split: sum.splits)
    have IH: "\<And>args h. fits fmt' args \<Longrightarrow> \<exists>w. rt_from fmt' h args w"
      using optsize_length [OF o] Cons by (intro less.IH) auto
    note fit = less.prems [unfolded Cons fits.simps o sum.case prod.case]
    show ?thesis
    proof (cases "is_int_opt opt")
      case True
      with fit obtain n args' where "args = LNumber n # args'" "fits_int n (islower opt) s" "fits fmt' args'"
        by (auto split: list.splits lua_value.splits)
      with IH rt_int [OF o True] Cons show ?thesis by blast
    next
      case not_int: False
      consider "opt = CHR ''c''" | "opt = CHR ''s''" | "opt \<noteq> CHR ''c''" "opt \<noteq> CHR ''s''" by blast
      then show ?thesis
      proof cases
        case 1
        with fit obtain bs args' where "args = LString bs # args'" "0 < s" "length bs = s" "fits fmt' args'"
          by (auto split: list.splits lua_value.splits)
        with IH rt_chars [OF o [unfolded 1]] Cons 1 show ?thesis by blast
      next
        case 2
        with fit obtain bs args' where "args = LString bs # args'" "0 \<notin> set bs" "fits fmt' args'"
          by (auto split: list.splits lua_value.splits)
        with IH rt_string 2 o Cons show ?thesis by fastforce
      next
        case 3
        with fit not_int have ctl: "opt \<in> set '' <>''" "fits fmt' args" by simp_all
        then have "fmt' = fmt1" using o by auto
        then obtain w where "\<And>h. rt_from fmt1 h args (w h)" using IH [OF ctl(2)] by metis
        with rt_control ctl(1) Cons show ?thesis by blast
      qed
    qed
  qed
qed

text \<open>
  C21. Round trip: on arguments that fit the format (\<open>fits\<close>: integers in the range of their option,
  zero-free strings for \<open>s\<close>, strings of the exact length for \<open>cn\<close>, any switches of byte order), \<open>pack\<close>
  succeeds, and \<open>unpack\<close> with the same format gives the arguments back, followed by the position
  behind the data.
\<close>

theorem b_unpack_pack:
  assumes "fits fmt args"
  shows "\<exists>s. b_pack tonum tostr fmt args = Inr s \<and>
     (length s < 2 ^ 62 \<longrightarrow>
      b_unpack tonum fmt s 1 = Inr (args @ [LNumber (dbl_of_int (int (length s) + 1))]))"
proof -
  obtain w where w: "rt_from fmt defaultoptions args w" using fits_rt [OF assms] by blast
  have pos: "sint (of_nat (length w) + 1 :: size_t) = int (length w) + 1" if "length w < 2 ^ 62"
  proof -
    have "int (length w) < int (2 ^ 62)" using that by (simp only: of_nat_less_iff)
    then have "sint (word_of_int (int (length w) + 1) :: size_t) = int (length w) + 1"
      by (subst signed_of_int) (simp add: signed_take_bit_int_eq_self)
    then show ?thesis by simp
  qed
  have "b_unpack_loop tonum w fmt defaultoptions 0 [LString w] = Inr (of_nat (length w), rev args @ [LString w])"
    if "length w < 2 ^ 62" using rt_unpack [OF w, of "[]" "[]" tonum] that by simp
  then show ?thesis
    using w pos by (auto simp: b_pack_def rt_from_def b_unpack_def Let_def)
qed

theorem b_unpack_pack_witness:
  "\<exists>s. b_pack (\<lambda>_. None) (\<lambda>_. []) ''>hs<I'' [LNumber (dbl_of_int (- 2)), LString [104, 105], LNumber (dbl_of_int 70000)] = Inr s"
proof -
  have "fits ''>hs<I'' [LNumber (dbl_of_int (- 2)), LString [104, 105], LNumber (dbl_of_int 70000)]"
    using dbl_of_int_not_neg_zero [of "- 2"] dbl_of_int_not_neg_zero [of 70000]
    by (simp add: fits_int_def dbl_of_int_exact int_range_def is_int_opt_def optsize_def islower_def getnum_def)
  then show ?thesis using b_unpack_pack by blast
qed

section \<open>Sizes\<close>

lemma length_putinteger: "putinteger n en s = Inr bs \<Longrightarrow> s \<le> 8 \<Longrightarrow> length bs = s"
proof -
  have "length (put_little i k v b) = length b" for i k v b
    by (induction i k v b rule: put_little.induct) simp_all
  moreover have "length (put_big k v b) = length b" for k v b
    by (induction k v b rule: put_big.induct) simp_all
  ultimately show "putinteger n en s = Inr bs \<Longrightarrow> s \<le> 8 \<Longrightarrow> length bs = s"
    by (auto simp: putinteger_def split: option.splits endian.splits)
qed

lemma b_pack_loop_size:
  "b_size_loop fmt h pos = Inr n \<Longrightarrow> b_pack_loop tonum tostr fmt h' args out = Inr s \<Longrightarrow>
   length s + pos = length out + n"
proof (induction fmt arbitrary: h h' args out pos rule: measure_induct_rule [of length])
  case (less fmt)
  show ?case
  proof (cases fmt)
    case Nil
    with less.prems show ?thesis by simp
  next
    case (Cons opt fmt1)
    with less.prems(1) obtain k fmt' where o: "optsize opt fmt1 = Inr (k, fmt')"
      by (auto simp: ebind_Inr_iff)
    have IH: "\<And>h h' args out pos. b_size_loop fmt' h pos = Inr n \<Longrightarrow>
        b_pack_loop tonum tostr fmt' h' args out = Inr s \<Longrightarrow> length s + pos = length out + n"
      using optsize_length [OF o] Cons by (intro less.IH) auto
    obtain h1 where size: "opt \<noteq> CHR ''s''" "\<not> (opt = CHR ''c'' \<and> k = 0)" "b_size_loop fmt' h1 (pos + k) = Inr n"
      using less.prems(1) o Cons by (auto simp: ebind_Inr_iff split: if_splits)
    note pack = less.prems(2) [unfolded Cons b_pack_loop.simps o ebind_simps prod.case Let_def]
    have "\<exists>h2 args2 out2. b_pack_loop tonum tostr fmt' h2 args2 out2 = Inr s \<and> length out2 = length out + k"
    proof (cases "is_int_opt opt")
      case True
      have "k \<le> 8" using optsize_int [OF True o] by auto
      moreover obtain m bs where "putinteger m (h_endian h') k = Inr bs"
        "b_pack_loop tonum tostr fmt' h' (tl args) (out @ bs) = Inr s"
        using pack True by (auto simp: ebind_Inr_iff)
      ultimately show ?thesis
        using length_putinteger by (intro exI [of _ h'] exI [of _ "tl args"] exI [of _ "out @ bs"]) simp
    next
      case False
      consider "opt = CHR ''x''" | "opt = CHR ''c''" | "opt \<noteq> CHR ''x''" "opt \<noteq> CHR ''c''" by blast
      then show ?thesis
      proof cases
        case 1
        then show ?thesis
          using pack by (intro exI [of _ h'] exI [of _ args] exI [of _ "out @ replicate k 0"]) simp
      next
        case 2
        then obtain bs where "length bs \<le> k" "b_pack_loop tonum tostr fmt' h' (tl args)
            (out @ bs @ replicate (k - length bs) 0) = Inr s"
          using pack size(2) by (auto simp: ebind_Inr_iff split: if_splits)
        then show ?thesis
          by (intro exI [of _ h'] exI [of _ "tl args"] exI [of _ "out @ bs @ replicate (k - length bs) 0"]) simp
      next
        case 3
        then obtain h2 where "controloptions opt h' = Inr h2" "b_pack_loop tonum tostr fmt' h2 args out = Inr s"
          using pack False size(1) by (auto simp: ebind_Inr_iff)
        moreover from this have "k = 0" using o by (auto simp: controloptions_def split: if_splits)
        ultimately show ?thesis by auto
      qed
    qed
    with IH [OF size(3)] show ?thesis by fastforce
  qed
qed

text \<open>
  When \<open>size\<close> gives a size for a format, every string that \<open>pack\<close> produces with it has that length.
\<close>

theorem b_size_b_pack:
  assumes "b_size fmt = Inr n" "b_pack tonum tostr fmt args = Inr s"
  shows "length s = n"
  using b_pack_loop_size [of fmt defaultoptions 0 n] assms by (fastforce simp: b_size_def b_pack_def)

theorem b_size_b_pack_witness:
  "\<exists>s. b_pack (\<lambda>_. None) (\<lambda>_. []) ''xc2'' [LString [7]] = Inr s \<and> length s = 3"
proof -
  have "b_size ''xc2'' = Inr 3" "b_pack (\<lambda>_. None) (\<lambda>_. []) ''xc2'' [LString [7]] = Inr [0, 7, 0]"
    by (simp_all add: b_size_def b_pack_def optsize_def getnum_def isdigit_def INT_MAX_def isalnum_def
        islower_def checklstring_def)
  with b_size_b_pack show ?thesis by blast
qed

section \<open>Reads of unpack\<close>

lemma getnum_loop_bound: "getnum_loop a fmt = Inr (n, fmt') \<Longrightarrow> 0 \<le> a \<Longrightarrow> a \<le> INT_MAX \<Longrightarrow> n \<le> INT_MAX"
proof (induction a fmt rule: getnum_loop.induct)
  case (2 a c cs)
  then show ?case by (auto simp: isdigit_def INT_MAX_def split: if_splits)
qed simp

lemma optsize_bound: "optsize opt fmt = Inr (s, fmt') \<Longrightarrow> s < 2 ^ 31"
proof -
  assume o: "optsize opt fmt = Inr (s, fmt')"
  have g: "n < 2 ^ 31" if "getnum fmt df = Inr (n, fmt')" "df \<in> {0, 1, 4, 8}" for df n
    using that getnum_loop_bound [of 0 fmt n fmt']
    by (auto simp: getnum_def INT_MAX_def split: list.splits if_splits simp del: getnum_loop.simps)
  have X: "s < 2 ^ 31" if "ebind (getnum fmt df) (\<lambda>(n, fmt). if P n then Inl e else Inr (nat n, fmt)) = Inr (s, fmt')"
    "df \<in> {0, 1, 4, 8}" for P e df
    using that g [of df] by (auto simp: ebind_Inr_iff split: if_splits)
  have chain: "s < 2 ^ 31" if "(if a then Inr (1, fmt) else if b then Inr (2, fmt) else if c then x else if d then y
      else if e then z else if f then w else Inr (0, fmt)) = Inr (s, fmt')"
    "x = Inr (s, fmt') \<Longrightarrow> s < 2 ^ 31" "y = Inr (s, fmt') \<Longrightarrow> s < 2 ^ 31" "z = Inr (s, fmt') \<Longrightarrow> s < 2 ^ 31"
    "w = Inr (s, fmt') \<Longrightarrow> s < 2 ^ 31" for a b c d e f x y z w
    using that by (auto split: if_splits)
  show ?thesis
    by (rule chain [OF o [unfolded optsize_def]])
       (use X [of 8] X [of 4] X [of 1 "\<lambda>_. False"] X [of 0 "\<lambda>_. False"] in simp_all)
qed

text \<open>No option \<open>c0\<close>.\<close>

function no_c0 :: "string \<Rightarrow> bool" where
  "no_c0 [] = True"
| "no_c0 (opt # fmt) =
     (case optsize opt fmt of Inl _ \<Rightarrow> True
      | Inr (s, fmt') \<Rightarrow> \<not> (opt = CHR ''c'' \<and> s = 0) \<and> no_c0 fmt')"
  by pat_completeness auto
termination
  by (relation "measure length") (auto dest!: optsize_length)

lemma pos_add_unat:
  assumes "pos + of_nat s \<le> (of_nat len :: size_t)" "s < 2 ^ 31" "len < 2 ^ 62" "unat pos < 2 ^ 63"
  shows "unat pos + s \<le> len" "unat (pos + of_nat s) = unat pos + s"
proof -
  show u: "unat (pos + of_nat s) = unat pos + s"
    using assms by (simp add: unat_word_ariths unsigned_of_nat take_bit_nat_eq_self)
  show "unat pos + s \<le> len"
    using assms(1,3) by (simp add: word_le_nat_alt u unsigned_of_nat take_bit_nat_eq_self)
qed

lemma getnum_err: "getnum fmt df \<noteq> Inl UB_Read"
proof -
  have "getnum_loop a fmt \<noteq> Inl UB_Read" for a
    by (induction a fmt rule: getnum_loop.induct) simp_all
  then show ?thesis by (auto simp: getnum_def split: list.split simp del: getnum_loop.simps)
qed

lemma ebind_err: "m \<noteq> Inl e \<Longrightarrow> (\<And>x. m = Inr x \<Longrightarrow> f x \<noteq> Inl e) \<Longrightarrow> ebind m f \<noteq> Inl e"
  by (cases m) auto

lemma if_err: "x \<noteq> Inl e \<Longrightarrow> y \<noteq> Inl e \<Longrightarrow> (if c then x else y) \<noteq> Inl e"
  by simp

lemma optsize_err: "optsize opt fmt \<noteq> Inl UB_Read"
  unfolding optsize_def by (intro if_err ebind_err getnum_err) (auto split: prod.split)

lemma controloptions_err: "controloptions opt h \<noteq> Inl UB_Read"
  by (simp add: controloptions_def)

lemma b_unpack_loop_safe:
  "no_c0 fmt \<Longrightarrow> length data < 2 ^ 62 \<Longrightarrow> unat pos < 2 ^ 63 \<Longrightarrow>
   b_unpack_loop tonum data fmt h pos stk \<noteq> Inl UB_Read"
proof (induction fmt arbitrary: h pos stk rule: measure_induct_rule [of length])
  case (less fmt)
  show ?case
  proof (cases fmt)
    case (Cons opt fmt1)
    show ?thesis
    proof (cases "optsize opt fmt1")
      case (Inl e)
      then show ?thesis using Cons optsize_err [of opt fmt1] by auto
    next
      case (Inr p)
      obtain s fmt' where p: "p = (s, fmt')" by fastforce
      note o = Inr [unfolded p]
      have nc: "\<not> (opt = CHR ''c'' \<and> s = 0)" and nc': "no_c0 fmt'"
        using less.prems(1) Cons o by auto
      have IH: "b_unpack_loop tonum data fmt' h pos stk \<noteq> Inl UB_Read" if "unat pos < 2 ^ 63" for h pos stk
        using optsize_length [OF o] Cons by (intro less.IH nc' less.prems(2) that) simp
      show ?thesis
      proof (cases "pos + of_nat s \<le> of_nat (length data)")
        case True
        note P = pos_add_unat [OF True optsize_bound [OF o] less.prems(2,3)]
        have rd: "read_data data pos s = Inr (take s (drop (unat pos) data))"
          using P(1) by (simp add: read_data_def)
        have n: "unat (pos + of_nat s) < 2 ^ 63"
          using P less.prems(2) by simp
        have rest: "read_data data pos (length data - unat pos) = Inr (drop (unat pos) data)"
          using P(1) by (simp add: read_data_def)
        have str: "unat (pos + of_nat (length (takeWhile (\<lambda>b. b \<noteq> 0) (drop (unat pos) data)) + 1)) < 2 ^ 63"
        proof -
          have "length (takeWhile (\<lambda>b. b \<noteq> 0) (drop (unat pos) data)) \<le> length data - unat pos"
            using length_takeWhile_le [of _ "drop (unat pos) data"] by simp
          then show ?thesis
            using P(1) less.prems(2)
            by (simp add: unat_word_ariths unsigned_of_nat take_bit_nat_eq_self del: of_nat_Suc)
        qed
        consider "is_int_opt opt \<or> opt = CHR ''x'' \<or> opt = CHR ''c''" | "opt = CHR ''s''"
          | "\<not> is_int_opt opt" "opt \<noteq> CHR ''x''" "opt \<noteq> CHR ''c''" "opt \<noteq> CHR ''s''" by blast
        then show ?thesis
        proof cases
          case 1
          with Cons o True rd nc IH [OF n] show ?thesis by auto
        next
          case 2
          with Cons o True rest IH [OF str] show ?thesis by (simp add: Let_def)
        next
          case 3
          with Cons o True controloptions_err [of opt h] IH [OF n] show ?thesis
            by (cases "controloptions opt h") auto
        qed
      qed (use Cons o in simp)
    qed
  qed simp
qed

text \<open>
  C32. From position 1 on, \<open>unpack\<close> never reads outside the data string, whatever the format (without \<open>c0\<close>)
  and the data: the check \<open>pos+size <= ld\<close> in \<open>size_t\<close> is enough as long as nothing wraps around.
\<close>

theorem b_unpack_safe:
  assumes "no_c0 fmt" "length data < 2 ^ 62" "1 \<le> init" "init < 2 ^ 63"
  shows "b_unpack tonum fmt data init \<noteq> Inl UB_Read"
proof -
  have "unat (word_of_int (init - 1) :: size_t) < 2 ^ 63"
  proof -
    have "(word_of_int (init - 1) :: size_t) = of_nat (nat (init - 1))"
      using assms(3) by (simp only: of_nat_nat)
    moreover have "nat (init - 1) < 2 ^ 63" using assms(3,4) by simp
    ultimately show ?thesis by (simp only: unsigned_of_nat) (simp add: take_bit_nat_eq_self)
  qed
  then have "b_unpack_loop tonum data fmt defaultoptions (word_of_int (init - 1)) [LString data] \<noteq> Inl UB_Read"
    using assms(1,2) by (intro b_unpack_loop_safe)
  then show ?thesis
    unfolding b_unpack_def by (intro ebind_err) (auto simp: Let_def)
qed

theorem b_unpack_safe_witness: "b_unpack (\<lambda>_. None) ''Bc2'' [1, 2] 2 \<noteq> Inl UB_Read"
  by (rule b_unpack_safe) (simp_all add: optsize_def getnum_def isdigit_def INT_MAX_def)

text \<open>An \<open>int\<close> below zero, as a \<open>size_t\<close>.\<close>

lemma size_t_neg:
  assumes "- (2 ^ 63) \<le> x" and "x < 0"
  shows "uint (word_of_int x :: size_t) = 2 ^ 64 + x"
proof -
  have "x mod 2 ^ 64 = (x + 2 ^ 64) mod 2 ^ 64" by simp
  also have "\<dots> = x + 2 ^ 64" using assms by (intro mod_pos_pos_trivial) simp_all
  finally show ?thesis by (simp add: unsigned_of_int take_bit_eq_mod)
qed

lemma size_t_le_length:
  assumes "length data < 2 ^ 62" and "- (2 ^ 63) \<le> x" and "x < 2 ^ 63"
  shows "(word_of_int x :: size_t) \<le> of_nat (length data) \<longleftrightarrow> 0 \<le> x \<and> x \<le> int (length data)"
proof -
  have d: "uint (of_nat (length data) :: size_t) = int (length data)"
    using assms(1) by (simp add: unsigned_of_nat take_bit_nat_eq_self)
  show ?thesis
  proof (cases "x < 0")
    case True
    then show ?thesis using size_t_neg [OF assms(2)] assms(1,2) by (simp add: word_le_def d)
  next
    case False
    then have "uint (word_of_int x :: size_t) = x" using assms(3) by (simp add: unsigned_of_int take_bit_int_eq_self)
    then show ?thesis using False by (simp add: word_le_def d)
  qed
qed

text \<open>
  C38. A start position below 1 is not refused by itself: \<open>pos\<close> becomes a \<open>size_t\<close> close to \<open>2 ^ 64\<close>, and \<open>pos+size\<close> wraps around.
  Whenever the format starts with an integer option whose \<open>n\<close> bytes begin before the data string and end inside it
  or at its start, \<open>unpack\<close> reads the bytes before the string; otherwise it reports that the data are too short.
\<close>

theorem b_unpack_before_start:
  assumes "is_int_opt opt" and "optsize opt fmt = Inr (n, fmt')" and "- (2 ^ 62) \<le> init" and "init \<le> 0" and "length data < 2 ^ 62"
  shows "b_unpack tonum (opt # fmt) data init =
    Inl (if 0 \<le> init - 1 + int n \<and> init - 1 + int n \<le> int (length data) then UB_Read else DataTooShort)"
proof -
  let ?pos = "word_of_int (init - 1) :: size_t"
  have n: "n \<in> {1, 2, 4, 8}" by (rule optsize_int [OF assms(1,2)])
  have "uint ?pos = 2 ^ 64 + (init - 1)" using assms(3,4) by (intro size_t_neg) simp_all
  then have "length data < unat ?pos" using assms(3,5) by (simp add: unat_eq_nat_uint del: uint_nat)
  then have rd: "read_data data ?pos n = Inl UB_Read" by (simp add: read_data_def)
  have "?pos + of_nat n \<le> of_nat (length data) \<longleftrightarrow> 0 \<le> init - 1 + int n \<and> init - 1 + int n \<le> int (length data)"
    using size_t_le_length [OF assms(5), of "init - 1 + int n"] assms(3,4) n by auto
  then show ?thesis using assms(1,2) rd by (simp add: b_unpack_def)
qed

theorem b_unpack_before_start_witness:
  "b_unpack (\<lambda>_. None) ''i4b'' [5, 6, 7] 0 = Inl UB_Read \<and> b_unpack (\<lambda>_. None) ''i4b'' [5, 6] 0 = Inl DataTooShort"
  using b_unpack_before_start [of "CHR ''i''" "''4b''" 4 "''b''" 0 "[5, 6, 7]" "\<lambda>_. None"]
    b_unpack_before_start [of "CHR ''i''" "''4b''" 4 "''b''" 0 "[5, 6]" "\<lambda>_. None"]
  by (simp add: is_int_opt_def optsize_def getnum_def isdigit_def INT_MAX_def)

end
