(* ===== verification/Cstub_Mem.thy ===== *)
theory Cstub_Mem
  imports Prelude
begin

text \<open>
  The memory and string functions of \<open>Stub/cstub.c\<close>. The C runtime has a memory of bytes, a
  partial map from addresses below \<open>2 ^ 64\<close>, and \<open>errno\<close>; the rest of the process (files,
  semaphores, the operating system) is the extension of the record. The functions of
  \<open><string.h>\<close> are modelled on this memory: an access to an unmapped address and an overlap the
  C standard forbids are faults. The results of \<open>strcmp\<close> and its relatives are only
  fixed up to their sign by the standard, so the difference of two bytes is a parameter.
\<close>

subsection \<open>Memory and calls\<close>

type_synonym ptr = nat

abbreviation (input) NULL :: ptr where "NULL \<equiv> 0"

type_synonym memory = "ptr \<rightharpoonup> byte"

datatype fault = Unmapped ptr | Overlap | Int_Range

record crt =
  errno :: int
  mem :: memory

type_synonym ('r, 'o) call = "'o crt_scheme \<Rightarrow> fault + 'r \<times> 'o crt_scheme"

definition ENULLARG :: int where "ENULLARG = 1024"
definition EBADF :: int where "EBADF = 9"
definition EEXIST :: int where "EEXIST = 17"

text \<open>\<open>ISNULL\<close> over the arguments a wrapper tests, with the value it returns.\<close>

definition if_null :: "ptr list \<Rightarrow> 'r \<Rightarrow> ('r, 'o) call \<Rightarrow> ('r, 'o) call" where
  "if_null ps r k w = (if NULL \<in> set ps then Inr (r, w\<lparr>errno := ENULLARG\<rparr>) else k w)"

definition load :: "memory \<Rightarrow> ptr \<Rightarrow> fault + byte" where
  "load m p = (case m p of None \<Rightarrow> Inl (Unmapped p) | Some b \<Rightarrow> Inr b)"

definition store :: "memory \<Rightarrow> ptr \<Rightarrow> byte \<Rightarrow> fault + memory" where
  "store m p b = (if m p = None then Inl (Unmapped p) else Inr (m(p \<mapsto> b)))"

fun loads :: "memory \<Rightarrow> ptr \<Rightarrow> nat \<Rightarrow> fault + byte list" where
  "loads m p 0 = Inr []"
| "loads m p (Suc n) = ebind (load m p) (\<lambda>b. ebind (loads m (p + 1) n) (\<lambda>bs. Inr (b # bs)))"

fun stores :: "memory \<Rightarrow> ptr \<Rightarrow> byte list \<Rightarrow> fault + memory" where
  "stores m p [] = Inr m"
| "stores m p (b # bs) = ebind (store m p b) (\<lambda>m. stores m (p + 1) bs)"

text \<open>The string at an address, without its terminator.\<close>

function cstr :: "memory \<Rightarrow> ptr \<Rightarrow> fault + byte list" where
  "cstr m p = (if 2 ^ 64 \<le> p then Inl (Unmapped p) else
     ebind (load m p) (\<lambda>b. if b = 0 then Inr [] else ebind (cstr m (p + 1)) (\<lambda>s. Inr (b # s))))"
  by pat_completeness auto
termination
  by (relation "measure (\<lambda>(m, p). 2 ^ 64 - p)") auto

declare cstr.simps [simp del]

text \<open>The characters of an array of at most \<open>n\<close> characters, up to its terminator.\<close>

fun cstrn :: "memory \<Rightarrow> ptr \<Rightarrow> nat \<Rightarrow> fault + byte list" where
  "cstrn m p 0 = Inr []"
| "cstrn m p (Suc n) =
     ebind (load m p) (\<lambda>b. if b = 0 then Inr [] else ebind (cstrn m (p + 1) n) (\<lambda>s. Inr (b # s)))"

definition disjoint_ranges :: "ptr \<Rightarrow> nat \<Rightarrow> ptr \<Rightarrow> nat \<Rightarrow> bool" where
  "disjoint_ranges p k q l \<longleftrightarrow> k = 0 \<or> l = 0 \<or> p + k \<le> q \<or> q + l \<le> p"

text \<open>Writing a list of bytes that was read from a range that must not overlap the target.\<close>

definition write_to :: "ptr \<Rightarrow> byte list \<Rightarrow> ptr \<Rightarrow> nat \<Rightarrow> (ptr, 'o) call" where
  "write_to dest bs src k w =
     (if disjoint_ranges dest (length bs) src k
      then ebind (stores (mem w) dest bs) (\<lambda>m. Inr (dest, w\<lparr>mem := m\<rparr>)) else Inl Overlap)"

subsection \<open>The functions of the standard library\<close>

definition c_memset :: "ptr \<Rightarrow> int \<Rightarrow> nat \<Rightarrow> (ptr, 'o) call" where
  "c_memset s c n w =
     ebind (stores (mem w) s (replicate n (word_of_int c))) (\<lambda>m. Inr (s, w\<lparr>mem := m\<rparr>))"

definition c_memcpy :: "ptr \<Rightarrow> ptr \<Rightarrow> nat \<Rightarrow> (ptr, 'o) call" where
  "c_memcpy dest src n w = ebind (loads (mem w) src n) (\<lambda>bs. write_to dest bs src n w)"

definition c_strcpy :: "ptr \<Rightarrow> ptr \<Rightarrow> (ptr, 'o) call" where
  "c_strcpy dest src w =
     ebind (cstr (mem w) src) (\<lambda>s. write_to dest (s @ [0]) src (length s + 1) w)"

definition c_strncpy :: "ptr \<Rightarrow> ptr \<Rightarrow> nat \<Rightarrow> (ptr, 'o) call" where
  "c_strncpy dest src n w = ebind (cstrn (mem w) src n)
     (\<lambda>s. write_to dest (s @ replicate (n - length s) 0) src (min n (length s + 1)) w)"

fun memchr_loop :: "memory \<Rightarrow> ptr \<Rightarrow> byte \<Rightarrow> nat \<Rightarrow> fault + ptr" where
  "memchr_loop m p c 0 = Inr NULL"
| "memchr_loop m p c (Suc n) =
     ebind (load m p) (\<lambda>b. if b = c then Inr p else memchr_loop m (p + 1) c n)"

definition c_memchr :: "ptr \<Rightarrow> int \<Rightarrow> nat \<Rightarrow> (ptr, 'o) call" where
  "c_memchr s c n w = ebind (memchr_loop (mem w) s (word_of_int c) n) (\<lambda>p. Inr (p, w))"

fun index_of :: "('a \<Rightarrow> bool) \<Rightarrow> 'a list \<Rightarrow> nat option" where
  "index_of P [] = None"
| "index_of P (x # xs) = (if P x then Some 0 else map_option Suc (index_of P xs))"

definition ptr_at :: "ptr \<Rightarrow> nat option \<Rightarrow> ptr" where
  "ptr_at p i = (case i of None \<Rightarrow> NULL | Some k \<Rightarrow> p + k)"

definition c_strchr :: "ptr \<Rightarrow> int \<Rightarrow> (ptr, 'o) call" where
  "c_strchr s c w = ebind (cstr (mem w) s)
     (\<lambda>bs. Inr (ptr_at s (index_of ((=) (word_of_int c)) (bs @ [0])), w))"

definition c_strrchr :: "ptr \<Rightarrow> int \<Rightarrow> (ptr, 'o) call" where
  "c_strrchr s c w = ebind (cstr (mem w) s)
     (\<lambda>bs. Inr (ptr_at s (map_option (\<lambda>i. length bs - i)
                 (index_of ((=) (word_of_int c)) (rev (bs @ [0])))), w))"

fun prefixb :: "'a list \<Rightarrow> 'a list \<Rightarrow> bool" where
  "prefixb [] ys = True"
| "prefixb (x # xs) [] = False"
| "prefixb (x # xs) (y # ys) = (x = y \<and> prefixb xs ys)"

fun find_sub :: "'a list \<Rightarrow> 'a list \<Rightarrow> nat option" where
  "find_sub n [] = (if n = [] then Some 0 else None)"
| "find_sub n (x # xs) = (if prefixb n (x # xs) then Some 0 else map_option Suc (find_sub n xs))"

definition c_strstr :: "ptr \<Rightarrow> ptr \<Rightarrow> (ptr, 'o) call" where
  "c_strstr haystack needle w = ebind (cstr (mem w) haystack) (\<lambda>h. ebind (cstr (mem w) needle)
     (\<lambda>n. Inr (ptr_at haystack (find_sub n h), w)))"

definition c_strlen :: "ptr \<Rightarrow> (nat, 'o) call" where
  "c_strlen s w = ebind (cstr (mem w) s) (\<lambda>bs. Inr (length bs, w))"

text \<open>
  The comparison of two byte sequences: the difference of the first two bytes that differ.
\<close>

fun cmp_bytes :: "(byte \<Rightarrow> byte \<Rightarrow> int) \<Rightarrow> byte list \<Rightarrow> byte list \<Rightarrow> int" where
  "cmp_bytes diff (x # xs) (y # ys) = (if x = y then cmp_bytes diff xs ys else diff x y)"
| "cmp_bytes diff _ _ = 0"

definition c_strcmp :: "(byte \<Rightarrow> byte \<Rightarrow> int) \<Rightarrow> ptr \<Rightarrow> ptr \<Rightarrow> (int, 'o) call" where
  "c_strcmp diff s1 s2 w = ebind (cstr (mem w) s1) (\<lambda>a. ebind (cstr (mem w) s2)
     (\<lambda>b. Inr (cmp_bytes diff (a @ [0]) (b @ [0]), w)))"

definition c_strncmp :: "(byte \<Rightarrow> byte \<Rightarrow> int) \<Rightarrow> ptr \<Rightarrow> ptr \<Rightarrow> nat \<Rightarrow> (int, 'o) call" where
  "c_strncmp diff s1 s2 n w = ebind (cstrn (mem w) s1 n) (\<lambda>a. ebind (cstrn (mem w) s2 n)
     (\<lambda>b. Inr (cmp_bytes diff (take n (a @ [0])) (take n (b @ [0])), w)))"

definition c_memcmp :: "(byte \<Rightarrow> byte \<Rightarrow> int) \<Rightarrow> ptr \<Rightarrow> ptr \<Rightarrow> nat \<Rightarrow> (int, 'o) call" where
  "c_memcmp diff s1 s2 n w = ebind (loads (mem w) s1 n) (\<lambda>a. ebind (loads (mem w) s2 n)
     (\<lambda>b. Inr (cmp_bytes diff a b, w)))"

definition append_to :: "ptr \<Rightarrow> byte list \<Rightarrow> ptr \<Rightarrow> nat \<Rightarrow> (ptr, 'o) call" where
  "append_to dest s src k w = ebind (cstr (mem w) dest) (\<lambda>d.
     if disjoint_ranges dest (length d + length s + 1) src k
     then ebind (stores (mem w) (dest + length d) (s @ [0])) (\<lambda>m. Inr (dest, w\<lparr>mem := m\<rparr>))
     else Inl Overlap)"

definition c_strcat :: "ptr \<Rightarrow> ptr \<Rightarrow> (ptr, 'o) call" where
  "c_strcat dest src w = ebind (cstr (mem w) src) (\<lambda>s. append_to dest s src (length s + 1) w)"

definition c_strncat :: "ptr \<Rightarrow> ptr \<Rightarrow> nat \<Rightarrow> (ptr, 'o) call" where
  "c_strncat dest src n w =
     ebind (cstrn (mem w) src n) (\<lambda>s. append_to dest s src (min n (length s + 1)) w)"

text \<open>Character classes of the C locale.\<close>

definition is_space :: "byte \<Rightarrow> bool" where
  "is_space b \<longleftrightarrow> b = 0x20 \<or> 9 \<le> b \<and> b \<le> 13"

definition is_digit :: "byte \<Rightarrow> bool" where
  "is_digit b \<longleftrightarrow> 0x30 \<le> b \<and> b \<le> 0x39"

definition c_toupper :: "int \<Rightarrow> int" where
  "c_toupper c = (if 0x61 \<le> c \<and> c \<le> 0x7A then c - 0x20 else c)"

definition c_tolower :: "int \<Rightarrow> int" where
  "c_tolower c = (if 0x41 \<le> c \<and> c \<le> 0x5A then c + 0x20 else c)"

definition lower_byte :: "byte \<Rightarrow> byte" where
  "lower_byte b = word_of_int (c_tolower (uint b))"

definition c_strcasecmp :: "(byte \<Rightarrow> byte \<Rightarrow> int) \<Rightarrow> ptr \<Rightarrow> ptr \<Rightarrow> (int, 'o) call" where
  "c_strcasecmp diff s1 s2 w = ebind (cstr (mem w) s1) (\<lambda>a. ebind (cstr (mem w) s2)
     (\<lambda>b. Inr (cmp_bytes diff (map lower_byte (a @ [0])) (map lower_byte (b @ [0])), w)))"

definition c_strncasecmp :: "(byte \<Rightarrow> byte \<Rightarrow> int) \<Rightarrow> ptr \<Rightarrow> ptr \<Rightarrow> nat \<Rightarrow> (int, 'o) call" where
  "c_strncasecmp diff s1 s2 n w = ebind (cstrn (mem w) s1 n) (\<lambda>a. ebind (cstrn (mem w) s2 n)
     (\<lambda>b. Inr (cmp_bytes diff (take n (map lower_byte (a @ [0]))) (take n (map lower_byte (b @ [0]))), w)))"

text \<open>\<open>atoi\<close>: white space, a sign, digits; a value outside \<open>int\<close> is undefined behaviour.\<close>

fun digits_value :: "int \<Rightarrow> byte list \<Rightarrow> int" where
  "digits_value acc [] = acc"
| "digits_value acc (b # bs) =
     (if is_digit b then digits_value (10 * acc + (uint b - 0x30)) bs else acc)"

definition atoi_value :: "byte list \<Rightarrow> int" where
  "atoi_value s = (case dropWhile is_space s of
     [] \<Rightarrow> 0
   | b # bs \<Rightarrow> if b = 0x2D then - digits_value 0 bs
              else if b = 0x2B then digits_value 0 bs else digits_value 0 (b # bs))"

definition c_atoi :: "ptr \<Rightarrow> (int, 'o) call" where
  "c_atoi nptr w = ebind (cstr (mem w) nptr) (\<lambda>s.
     if - (2 ^ 31) \<le> atoi_value s \<and> atoi_value s < 2 ^ 31 then Inr (atoi_value s, w) else Inl Int_Range)"

text \<open>Network byte order, on a host of either byte order.\<close>

definition swap16 :: "uint16 \<Rightarrow> uint16" where
  "swap16 v = push_bit 8 v OR drop_bit 8 v"

definition c_htons :: "bool \<Rightarrow> uint16 \<Rightarrow> uint16" where
  "c_htons big_endian v = (if big_endian then v else swap16 v)"

subsection \<open>The wrappers\<close>

definition CRT_memset :: "ptr \<Rightarrow> int \<Rightarrow> nat \<Rightarrow> (ptr, 'o) call" where
  "CRT_memset s c n = if_null [s] NULL (\<lambda>w. if n > 0 then c_memset s c n w else Inr (s, w))"

definition CRT_memcpy :: "ptr \<Rightarrow> ptr \<Rightarrow> nat \<Rightarrow> (ptr, 'o) call" where
  "CRT_memcpy dest src n =
     if_null [dest, src] NULL (\<lambda>w. if n > 0 then c_memcpy dest src n w else Inr (dest, w))"

definition CRT_strcpy :: "ptr \<Rightarrow> ptr \<Rightarrow> (ptr, 'o) call" where
  "CRT_strcpy dest src = if_null [dest, src] NULL (c_strcpy dest src)"

definition CRT_strncpy :: "ptr \<Rightarrow> ptr \<Rightarrow> nat \<Rightarrow> (ptr, 'o) call" where
  "CRT_strncpy dest src n =
     if_null [dest, src] NULL (\<lambda>w. if n > 0 then c_strncpy dest src n w else Inr (dest, w))"

definition CRT_memchr :: "ptr \<Rightarrow> int \<Rightarrow> nat \<Rightarrow> (ptr, 'o) call" where
  "CRT_memchr s c n = if_null [s] NULL (c_memchr s c n)"

definition CRT_strchr :: "ptr \<Rightarrow> int \<Rightarrow> (ptr, 'o) call" where
  "CRT_strchr s c = if_null [s] NULL (c_strchr s c)"

definition CRT_strrchr :: "ptr \<Rightarrow> 8 word \<Rightarrow> (ptr, 'o) call" where
  "CRT_strrchr s c = if_null [s] NULL (c_strrchr s (sint c))"

definition CRT_strstr :: "ptr \<Rightarrow> ptr \<Rightarrow> (ptr, 'o) call" where
  "CRT_strstr haystack needle = if_null [haystack, needle] NULL (c_strstr haystack needle)"

definition CRT_strlen :: "ptr \<Rightarrow> (nat, 'o) call" where
  "CRT_strlen s = if_null [s] 0 (c_strlen s)"

definition CRT_strcmp :: "(byte \<Rightarrow> byte \<Rightarrow> int) \<Rightarrow> ptr \<Rightarrow> ptr \<Rightarrow> (int, 'o) call" where
  "CRT_strcmp diff s1 s2 w =
     (if s1 = NULL \<and> s2 = NULL then Inr (0, w) else if_null [s1, s2] (-1) (c_strcmp diff s1 s2) w)"

definition CRT_strncmp :: "(byte \<Rightarrow> byte \<Rightarrow> int) \<Rightarrow> ptr \<Rightarrow> ptr \<Rightarrow> nat \<Rightarrow> (int, 'o) call" where
  "CRT_strncmp diff s1 s2 n w =
     (if s1 = NULL \<and> s2 = NULL then Inr (0, w) else if_null [s1, s2] (-1) (c_strncmp diff s1 s2 n) w)"

definition CRT_memcmp :: "(byte \<Rightarrow> byte \<Rightarrow> int) \<Rightarrow> ptr \<Rightarrow> ptr \<Rightarrow> nat \<Rightarrow> (int, 'o) call" where
  "CRT_memcmp diff s1 s2 n w =
     (if s1 = NULL \<and> s2 = NULL then Inr (0, w) else if_null [s1, s2] (-1) (c_memcmp diff s1 s2 n) w)"

definition CRT_strcat :: "ptr \<Rightarrow> ptr \<Rightarrow> (ptr, 'o) call" where
  "CRT_strcat dest src = if_null [dest, src] NULL (c_strcat dest src)"

definition CRT_strncat :: "ptr \<Rightarrow> ptr \<Rightarrow> nat \<Rightarrow> (ptr, 'o) call" where
  "CRT_strncat dest src n = if_null [dest, src] NULL (c_strncat dest src n)"

definition CRT_bzero :: "ptr \<Rightarrow> nat \<Rightarrow> (unit, 'o) call" where
  "CRT_bzero s n =
     if_null [s] () (\<lambda>w. ebind (stores (mem w) s (replicate n 0)) (\<lambda>m. Inr ((), w\<lparr>mem := m\<rparr>)))"

definition CRT_atoi :: "ptr \<Rightarrow> (int, 'o) call" where
  "CRT_atoi nptr = if_null [nptr] (-1) (c_atoi nptr)"

definition CRT_toupper :: "int \<Rightarrow> int" where
  "CRT_toupper c = c_toupper c"

definition CRT_tolower :: "int \<Rightarrow> int" where
  "CRT_tolower c = c_tolower c"

definition CRT_strcasecmp :: "(byte \<Rightarrow> byte \<Rightarrow> int) \<Rightarrow> ptr \<Rightarrow> ptr \<Rightarrow> (int, 'o) call" where
  "CRT_strcasecmp diff s1 s2 = c_strcasecmp diff s1 s2"

definition CRT_strncasecmp :: "(byte \<Rightarrow> byte \<Rightarrow> int) \<Rightarrow> ptr \<Rightarrow> ptr \<Rightarrow> nat \<Rightarrow> (int, 'o) call" where
  "CRT_strncasecmp diff s1 s2 n = c_strncasecmp diff s1 s2 n"

definition CRT_htons :: "bool \<Rightarrow> uint16 \<Rightarrow> uint16" where
  "CRT_htons big_endian hostshort = c_htons big_endian hostshort"

definition CRT_ntohs :: "bool \<Rightarrow> uint16 \<Rightarrow> uint16" where
  "CRT_ntohs big_endian netshort = c_htons big_endian netshort"

subsection \<open>Ranges of memory\<close>

definition mem_upd :: "memory \<Rightarrow> ptr \<Rightarrow> byte list \<Rightarrow> memory" where
  "mem_upd m p bs = (\<lambda>a. if p \<le> a \<and> a < p + length bs then Some (bs ! (a - p)) else m a)"

definition mapped :: "memory \<Rightarrow> ptr \<Rightarrow> nat \<Rightarrow> bool" where
  "mapped m p n \<longleftrightarrow> (\<forall>i<n. m (p + i) \<noteq> None)"

definition bytes_at :: "memory \<Rightarrow> ptr \<Rightarrow> byte list \<Rightarrow> bool" where
  "bytes_at m p bs \<longleftrightarrow> (\<forall>i<length bs. m (p + i) = Some (bs ! i))"

definition is_cstr :: "memory \<Rightarrow> ptr \<Rightarrow> byte list \<Rightarrow> bool" where
  "is_cstr m p s \<longleftrightarrow> 0 \<notin> set s \<and> p + length s < 2 ^ 64 \<and> bytes_at m p (s @ [0])"

lemma mapped_0 [simp]: "mapped m p 0"
  by (simp add: mapped_def)

lemma mapped_Suc: "mapped m p (Suc n) \<longleftrightarrow> m p \<noteq> None \<and> mapped m (p + 1) n"
  unfolding mapped_def by (simp add: All_less_Suc2)

lemma mapped_upd [simp]: "mapped m q n \<Longrightarrow> mapped (m(p \<mapsto> b)) q n"
  by (auto simp: mapped_def)

lemma bytes_at_Nil [simp]: "bytes_at m p []"
  by (simp add: bytes_at_def)

lemma bytes_at_Cons: "bytes_at m p (b # bs) \<longleftrightarrow> m p = Some b \<and> bytes_at m (p + 1) bs"
  unfolding bytes_at_def by (simp add: All_less_Suc2)

lemma mem_upd_Nil [simp]: "mem_upd m p [] = m"
  by (rule ext) (auto simp: mem_upd_def)

lemma mem_upd_Cons: "mem_upd m p (b # bs) = mem_upd (m(p \<mapsto> b)) (p + 1) bs"
  by (rule ext) (auto simp: mem_upd_def nth_Cons' not_le)

lemma bytes_at_mem_upd: "bytes_at (mem_upd m p bs) p bs"
  by (simp add: bytes_at_def mem_upd_def)

lemma mem_upd_outside: "a < p \<or> p + length bs \<le> a \<Longrightarrow> mem_upd m p bs a = m a"
  by (auto simp: mem_upd_def)

lemma bytes_at_disjoint:
  "bytes_at m q s \<Longrightarrow> disjoint_ranges p (length bs) q (length s) \<Longrightarrow> bytes_at (mem_upd m p bs) q s"
  by (auto simp: bytes_at_def disjoint_ranges_def mem_upd_def)

lemma stores_mapped: "mapped m p (length bs) \<Longrightarrow> stores m p bs = Inr (mem_upd m p bs)"
  by (induction bs arbitrary: m p) (auto simp: mapped_Suc store_def mem_upd_Cons)

lemma loads_bytes: "bytes_at m p bs \<Longrightarrow> loads m p (length bs) = Inr bs"
  by (induction bs arbitrary: p) (auto simp: bytes_at_Cons load_def)

lemma cstr_is_cstr: "is_cstr m p s \<Longrightarrow> cstr m p = Inr s"
proof (induction s arbitrary: p)
  case Nil
  then show ?case by (simp add: is_cstr_def bytes_at_Cons load_def cstr.simps)
next
  case (Cons b s)
  then have "is_cstr m (p + 1) s" by (simp add: is_cstr_def bytes_at_Cons)
  with Cons show ?case
    by (subst cstr.simps) (simp add: is_cstr_def bytes_at_Cons load_def)
qed

lemma cstr_Inr_is_cstr: "cstr m p = Inr s \<Longrightarrow> is_cstr m p s"
proof (induction s arbitrary: p)
  case Nil
  then show ?case
    by (subst (asm) cstr.simps)
      (auto simp: is_cstr_def bytes_at_Cons load_def ebind_Inr_iff split: if_splits option.splits)
next
  case (Cons b s)
  from Cons.prems have "p < 2 ^ 64" "m p = Some b" "b \<noteq> 0" "cstr m (p + 1) = Inr s"
    by (subst (asm) cstr.simps, auto simp: load_def ebind_Inr_iff split: if_splits option.splits)+
  with Cons.IH [of "p + 1"] show ?case by (simp add: is_cstr_def bytes_at_Cons)
qed

lemma cstr_Inr_iff: "cstr m p = Inr s \<longleftrightarrow> is_cstr m p s"
  using cstr_is_cstr cstr_Inr_is_cstr by blast

lemma is_cstr_unique: "is_cstr m p s \<Longrightarrow> is_cstr m p t \<Longrightarrow> s = t"
  by (metis cstr_is_cstr sum.inject(2))

lemma is_cstr_mem_upd:
  "0 \<notin> set s \<Longrightarrow> p + length s < 2 ^ 64 \<Longrightarrow> is_cstr (mem_upd m p (s @ [0])) p s"
  by (simp add: is_cstr_def bytes_at_mem_upd)

lemma is_cstr_disjoint:
  "is_cstr m q s \<Longrightarrow> disjoint_ranges p (length bs) q (length s + 1) \<Longrightarrow> is_cstr (mem_upd m p bs) q s"
  by (simp add: is_cstr_def bytes_at_disjoint)

lemma if_null_nonnull [simp]: "NULL \<notin> set ps \<Longrightarrow> if_null ps r k w = k w"
  by (simp add: if_null_def)

lemma c_strcpy_ok:
  assumes "is_cstr (mem w) src s" and "mapped (mem w) dest (length s + 1)"
    and "disjoint_ranges dest (length s + 1) src (length s + 1)"
  shows "c_strcpy dest src w = Inr (dest, w\<lparr>mem := mem_upd (mem w) dest (s @ [0])\<rparr>)"
  using assms by (simp add: c_strcpy_def cstr_is_cstr write_to_def stores_mapped)

lemma cmp_bytes_refl [simp]: "cmp_bytes diff a a = 0"
  by (induction a) auto

text \<open>
  \<open>CRT_strcpy\<close> copies: for a string \<open>s\<close> at \<open>src\<close> and a disjoint target with room for it and
  its terminator, the call returns \<open>dest\<close>, only the bytes of the target change, and afterwards
  \<open>CRT_strlen\<close> gives the length of \<open>s\<close> for it and \<open>CRT_strcmp\<close> finds the two strings equal.
\<close>

theorem CRT_strcpy_correct:
  assumes "is_cstr (mem w) src s" and "src \<noteq> NULL" and "dest \<noteq> NULL"
    and "mapped (mem w) dest (length s + 1)" and "dest + length s < 2 ^ 64"
    and "disjoint_ranges dest (length s + 1) src (length s + 1)"
  shows "\<exists>w'. CRT_strcpy dest src w = Inr (dest, w') \<and> errno w' = errno w \<and>
    (\<forall>a. a < dest \<or> dest + length s < a \<longrightarrow> mem w' a = mem w a) \<and>
    CRT_strlen dest w' = Inr (length s, w') \<and> CRT_strcmp diff dest src w' = Inr (0, w')"
proof -
  define w' where "w' = w\<lparr>mem := mem_upd (mem w) dest (s @ [0])\<rparr>"
  have "0 \<notin> set s" using assms(1) by (simp add: is_cstr_def)
  then have dest': "cstr (mem w') dest = Inr s"
    using assms(5) by (simp add: w'_def cstr_is_cstr is_cstr_mem_upd)
  have src': "cstr (mem w') src = Inr s"
    using assms(1,6) by (simp add: w'_def cstr_is_cstr is_cstr_disjoint)
  have "CRT_strcpy dest src w = Inr (dest, w')"
    using assms by (simp add: CRT_strcpy_def c_strcpy_ok w'_def)
  moreover have "CRT_strlen dest w' = Inr (length s, w')"
    using dest' assms(3) by (simp add: CRT_strlen_def c_strlen_def)
  moreover have "CRT_strcmp diff dest src w' = Inr (0, w')"
    using dest' src' assms(2,3) by (simp add: CRT_strcmp_def c_strcmp_def)
  ultimately show ?thesis
    by (auto simp: w'_def mem_upd_outside)
qed

definition sample :: "crt" where
  "sample = \<lparr>errno = 0, mem = [100 \<mapsto> 0x61, 101 \<mapsto> 0x62, 102 \<mapsto> 0, 200 \<mapsto> 0x62, 201 \<mapsto> 0, 202 \<mapsto> 7]\<rparr>"

lemma sample_cstr: "is_cstr (mem sample) 100 [0x61, 0x62]" "is_cstr (mem sample) 200 [0x62]"
  by (simp_all add: is_cstr_def bytes_at_Cons sample_def)

lemma sample_room: "mapped (mem sample) 200 (length [0x61 :: byte, 0x62] + 1)"
  by (simp add: mapped_Suc sample_def numeral_eq_Suc)

theorem CRT_strcpy_correct_witness:
  "\<exists>w'. CRT_strcpy 200 100 sample = Inr (200, w') \<and> CRT_strlen 200 w' = Inr (2, w')"
  using CRT_strcpy_correct [OF sample_cstr(1) _ _ sample_room, of "\<lambda>x y. uint x - uint y"]
  by (force simp: disjoint_ranges_def)

subsection \<open>Comparison\<close>

definition sign_law :: "(byte \<Rightarrow> byte \<Rightarrow> int) \<Rightarrow> bool" where
  "sign_law diff \<longleftrightarrow> (\<forall>x y. x \<noteq> y \<longrightarrow> (if x < y then diff x y < 0 else 0 < diff x y))"

lemma sign_lawD:
  assumes "sign_law diff" and "x \<noteq> y"
  shows "diff x y \<noteq> 0" and "diff x y < 0 \<longleftrightarrow> x < y"
  using assms unfolding sign_law_def by (metis order_less_irrefl, metis order_less_asym)

lemma cmp_bytes_strings:
  assumes "sign_law diff" and "0 \<notin> set a" and "0 \<notin> set b"
  shows "cmp_bytes diff (a @ [0]) (b @ [0]) = 0 \<longleftrightarrow> a = b"
    and "cmp_bytes diff (a @ [0]) (b @ [0]) < 0 \<longleftrightarrow> (a, b) \<in> lexord {(x, y). x < y}"
  using assms(2,3)
proof (induction a arbitrary: b)
  case Nil
  {
    case 1
    then show ?case by (cases b) (auto simp: sign_lawD [OF assms(1)])
  next
    case 2
    then show ?case by (cases b) (auto simp: sign_lawD [OF assms(1)] word_gt_0)
  }
next
  case (Cons x a)
  {
    case 1
    then show ?case using Cons(1) by (cases b) (auto simp: sign_lawD [OF assms(1)])
  next
    case 2
    then show ?case using Cons(2) by (cases b) (auto simp: sign_lawD [OF assms(1)])
  }
qed

text \<open>
  \<open>CRT_strcmp\<close> on two strings orders them lexicographically by their bytes as unsigned
  numbers: 0 exactly for equal strings, negative exactly when the first is smaller.
\<close>

theorem CRT_strcmp_order:
  assumes "sign_law diff" and "s1 \<noteq> NULL" and "s2 \<noteq> NULL"
    and "is_cstr (mem w) s1 a" and "is_cstr (mem w) s2 b"
  shows "\<exists>r. CRT_strcmp diff s1 s2 w = Inr (r, w) \<and> (r = 0 \<longleftrightarrow> a = b) \<and>
    (r < 0 \<longleftrightarrow> (a, b) \<in> lexord {(x, y). x < y})"
proof -
  have "0 \<notin> set a" "0 \<notin> set b" using assms(4,5) by (simp_all add: is_cstr_def)
  with assms show ?thesis
    by (simp add: CRT_strcmp_def c_strcmp_def cstr_is_cstr cmp_bytes_strings)
qed

lemma sign_law_difference: "sign_law (\<lambda>x y. uint x - uint y)"
  by (auto simp: sign_law_def word_less_def) (metis linorder_cases word_uint_eq_iff)

theorem CRT_strcmp_order_witness:
  "\<exists>r < 0. CRT_strcmp (\<lambda>x y. uint x - uint y) 100 200 sample = Inr (r, sample)"
  using CRT_strcmp_order [OF sign_law_difference _ _ sample_cstr] by auto

text \<open>
  With one null argument the result is -1 on either side, so a null pointer
  is below every string and every string below it: the comparison is not antisymmetric, and a
  sort or a search tree that uses it on values that may be null has no consistent order.
\<close>

theorem CRT_strcmp_null_not_antisymmetric:
  "s \<noteq> NULL \<Longrightarrow>
    CRT_strcmp diff s NULL w = Inr (-1, w\<lparr>errno := ENULLARG\<rparr>) \<and>
    CRT_strcmp diff NULL s w = Inr (-1, w\<lparr>errno := ENULLARG\<rparr>) \<and>
    CRT_strcmp diff NULL NULL w = Inr (0, w)"
  by (simp add: CRT_strcmp_def if_null_def)

theorem CRT_strcmp_null_not_antisymmetric_witness:
  "CRT_strcmp (\<lambda>x y. uint x - uint y) 100 NULL sample = Inr (-1, sample\<lparr>errno := ENULLARG\<rparr>)"
  using CRT_strcmp_null_not_antisymmetric [of 100 "\<lambda>x y. uint x - uint y" sample] by simp

text \<open>\<open>CRT_strcasecmp\<close> passes a null pointer on, and the comparison reads through it.\<close>

lemma CRT_strcasecmp_null: "mem w NULL = None \<Longrightarrow> CRT_strcasecmp diff NULL s w = Inl (Unmapped NULL)"
  by (simp add: CRT_strcasecmp_def c_strcasecmp_def cstr.simps [of _ 0] load_def)

subsection \<open>Searching\<close>

lemma index_of_Some: "index_of P xs = Some i \<Longrightarrow> i < length xs \<and> P (xs ! i) \<and> (\<forall>j<i. \<not> P (xs ! j))"
proof (induction xs arbitrary: i)
  case (Cons x xs)
  then show ?case by (cases i) (auto split: if_splits simp: nth_Cons' less_Suc_eq_0_disj)
qed simp

lemma index_of_None: "index_of P xs = None \<longleftrightarrow> (\<forall>x\<in>set xs. \<not> P x)"
  by (induction xs) auto

lemma prefixb_take: "prefixb n h \<longleftrightarrow> take (length n) h = n"
  by (induction n h rule: prefixb.induct) auto

lemma find_sub_Some:
  "find_sub n h = Some i \<Longrightarrow> i \<le> length h \<and> take (length n) (drop i h) = n \<and>
     (\<forall>j<i. take (length n) (drop j h) \<noteq> n)"
proof (induction n h arbitrary: i rule: find_sub.induct)
  case (2 n x xs)
  then show ?case
    by (cases i) (auto split: if_splits simp: prefixb_take less_Suc_eq_0_disj)
qed (auto split: if_splits)

lemma find_sub_None: "find_sub n h = None \<Longrightarrow> take (length n) (drop j h) \<noteq> n"
proof (induction n h arbitrary: j rule: find_sub.induct)
  case (2 n x xs)
  then show ?case
    by (cases j) (auto split: if_splits simp: prefixb_take)
qed (auto split: if_splits)

text \<open>
  \<open>CRT_strstr\<close> on two strings returns null exactly when the needle occurs nowhere in the
  haystack, and otherwise the address of the first occurrence.
\<close>

theorem CRT_strstr_first:
  assumes "haystack \<noteq> NULL" and "needle \<noteq> NULL"
    and "is_cstr (mem w) haystack h" and "is_cstr (mem w) needle n"
  shows "\<exists>r. CRT_strstr haystack needle w = Inr (r, w) \<and>
    (if \<exists>i\<le>length h. take (length n) (drop i h) = n
     then haystack \<le> r \<and> take (length n) (drop (r - haystack) h) = n \<and>
       (\<forall>j<r - haystack. take (length n) (drop j h) \<noteq> n)
     else r = NULL)"
proof (cases "find_sub n h")
  case None
  with find_sub_None [OF None] assms show ?thesis
    by (simp add: CRT_strstr_def c_strstr_def cstr_is_cstr ptr_at_def)
next
  case (Some i)
  with find_sub_Some [OF Some] assms show ?thesis
    by (auto simp: CRT_strstr_def c_strstr_def cstr_is_cstr ptr_at_def)
qed

theorem CRT_strstr_first_witness: "CRT_strstr 100 200 sample = Inr (101, sample)"
proof -
  have at: "r = 101" if "100 \<le> r" "take 1 (drop (r - 100) [0x61, 0x62 :: byte]) = [0x62]"
    for r :: nat
    using that by (cases "r - 100") (auto simp: numeral_eq_Suc drop_Cons' split: if_splits)
  have "\<exists>i\<le>length [0x61, 0x62 :: byte]. take (length [0x62 :: byte]) (drop i [0x61, 0x62]) = [0x62 :: byte]"
    by (rule exI [of _ 1]) simp
  with CRT_strstr_first [OF _ _ sample_cstr] obtain r where
    "CRT_strstr 100 200 sample = Inr (r, sample)" "100 \<le> r"
    "take (length [0x62 :: byte]) (drop (r - 100) [0x61, 0x62 :: byte]) = [0x62]"
    by (simp only: if_True) auto
  with at show ?thesis by simp
qed

subsection \<open>Bounded copies\<close>

lemma cstrn_is_cstr: "is_cstr m p s \<Longrightarrow> cstrn m p n = Inr (take n s)"
proof (induction m p n arbitrary: s rule: cstrn.induct)
  case (2 m p n)
  then show ?case
    by (cases s) (auto simp: is_cstr_def bytes_at_Cons load_def)
qed simp

text \<open>
  \<open>CRT_strncpy\<close> of a string \<open>s\<close> to a disjoint target writes exactly \<open>n\<close> bytes, the first
  bytes of \<open>s\<close> filled up with zeros, and nothing else: when \<open>s\<close> has \<open>n\<close> or more characters, the
  target is not terminated.
\<close>

theorem CRT_strncpy_exact:
  assumes "is_cstr (mem w) src s" and "src \<noteq> NULL" and "dest \<noteq> NULL"
    and "mapped (mem w) dest n" and "disjoint_ranges dest n src (length s + 1)"
  shows "\<exists>w'. CRT_strncpy dest src n w = Inr (dest, w') \<and> errno w' = errno w \<and>
    bytes_at (mem w') dest (take n s @ replicate (n - length s) 0) \<and>
    (\<forall>a. a < dest \<or> dest + n \<le> a \<longrightarrow> mem w' a = mem w a) \<and>
    (n \<le> length s \<longrightarrow> (\<forall>i<n. mem w' (dest + i) \<noteq> Some 0))"
proof -
  define bs where "bs = take n s @ replicate (n - length s) 0"
  define w' where "w' = w\<lparr>mem := mem_upd (mem w) dest bs\<rparr>"
  have len: "length bs = n" by (simp add: bs_def)
  have fill: "n - length (take n s) = n - length s" by simp
  have "disjoint_ranges dest n src (min n (length (take n s) + 1))"
    using assms(5) by (auto simp: disjoint_ranges_def)
  then have "write_to dest bs src (min n (length (take n s) + 1)) w = Inr (dest, w')"
    using assms(4) len by (simp add: write_to_def stores_mapped w'_def)
  then have "c_strncpy dest src n w = Inr (dest, w')"
    using assms(1) unfolding bs_def fill [symmetric] by (simp add: c_strncpy_def cstrn_is_cstr)
  then have "CRT_strncpy dest src n w = Inr (dest, w')"
    using assms(2,3) by (auto simp: CRT_strncpy_def w'_def bs_def)
  moreover have "bytes_at (mem w') dest bs" by (simp add: w'_def bytes_at_mem_upd)
  moreover have "mem w' (dest + i) \<noteq> Some 0" if "n \<le> length s" "i < n" for i
  proof -
    have "s ! i \<in> set s" using that by simp
    then have "s ! i \<noteq> 0" using assms(1) by (auto simp: is_cstr_def)
    then show ?thesis using that len by (simp add: w'_def mem_upd_def bs_def)
  qed
  ultimately show ?thesis
    using len by (auto simp: w'_def bs_def mem_upd_outside)
qed

theorem CRT_strncpy_exact_witness:
  "\<exists>w'. CRT_strncpy 200 100 2 sample = Inr (200, w') \<and> mem w' 200 \<noteq> Some 0"
proof -
  have "mapped (mem sample) 200 2"
    by (simp add: mapped_Suc sample_def numeral_eq_Suc)
  moreover have "disjoint_ranges 200 2 100 (length [0x61 :: byte, 0x62] + 1)"
    by (simp add: disjoint_ranges_def)
  ultimately obtain w' where "CRT_strncpy 200 100 2 sample = Inr (200, w')"
    and "2 \<le> length [0x61 :: byte, 0x62] \<longrightarrow> (\<forall>i<2. mem w' (200 + i) \<noteq> Some 0)"
    using CRT_strncpy_exact [OF sample_cstr(1), of 200 2] zero_neq_numeral by metis
  then show ?thesis by (intro exI [of _ w']) (auto dest: spec [of _ 0])
qed

end
