(* ===== verification/Cstub.thy ===== *)
theory Cstub
  imports Cstub_Mem LuaNumber
begin

text \<open>
  The guarded wrappers of \<open>Stub/cstub.c\<close> around the calls of the operating system and of the
  C library. The wrapped call is an argument of the definition, a function from the state of the
  process to a result and a new state; a variable argument list is one value of any type. What a
  wrapper adds is the treatment of null pointers and of the descriptor -1: the contract
  \<open>guarded_call\<close> states it once, and every wrapper interprets it. The wrappers that only pass
  their arguments on have no behaviour of their own and are not repeated here.
\<close>

definition if_bad_fd :: "int \<Rightarrow> 'r \<Rightarrow> ('r, 'o) call \<Rightarrow> ('r, 'o) call" where
  "if_bad_fd fd r k w = (if fd = -1 then Inr (r, w\<lparr>errno := EBADF\<rparr>) else k w)"

subsection \<open>File descriptors\<close>

definition CRT_open ::
  "(ptr \<Rightarrow> int \<Rightarrow> int \<Rightarrow> (int, 'o) call) \<Rightarrow> ptr \<Rightarrow> int \<Rightarrow> int \<Rightarrow> (int, 'o) call" where
  "CRT_open os_open pathname flags mode = if_null [pathname] (-1) (os_open pathname flags mode)"

definition CRT_creat ::
  "(ptr \<Rightarrow> int \<Rightarrow> (int, 'o) call) \<Rightarrow> ptr \<Rightarrow> int \<Rightarrow> (int, 'o) call" where
  "CRT_creat os_creat pathname mode = if_null [pathname] (-1) (os_creat pathname mode)"

definition CRT_close ::
  "(int \<Rightarrow> (int, 'o) call) \<Rightarrow> int \<Rightarrow> (int, 'o) call" where
  "CRT_close os_close fd = if_bad_fd fd (-1) (os_close fd)"

definition CRT_read ::
  "(int \<Rightarrow> ptr \<Rightarrow> nat \<Rightarrow> (int, 'o) call) \<Rightarrow> int \<Rightarrow> ptr \<Rightarrow> nat \<Rightarrow> (int, 'o) call" where
  "CRT_read os_read fd buf cnt = if_null [buf] (-1) (if_bad_fd fd 0 (os_read fd buf cnt))"

definition CRT_write ::
  "(int \<Rightarrow> ptr \<Rightarrow> nat \<Rightarrow> (int, 'o) call) \<Rightarrow> int \<Rightarrow> ptr \<Rightarrow> nat \<Rightarrow> (int, 'o) call" where
  "CRT_write os_write fd buf cnt = if_null [buf] (-1) (if_bad_fd fd 0 (os_write fd buf cnt))"

definition CRT_fstat ::
  "(int \<Rightarrow> ptr \<Rightarrow> (int, 'o) call) \<Rightarrow> int \<Rightarrow> ptr \<Rightarrow> (int, 'o) call" where
  "CRT_fstat os_fstat filedes buf = if_null [buf] (-1) (if_bad_fd filedes (-1) (os_fstat filedes buf))"

definition CRT_access ::
  "(ptr \<Rightarrow> int \<Rightarrow> (int, 'o) call) \<Rightarrow> ptr \<Rightarrow> int \<Rightarrow> (int, 'o) call" where
  "CRT_access os_access pathname mode = if_null [pathname] (-1) (os_access pathname mode)"

definition CRT_readv ::
  "(int \<Rightarrow> ptr \<Rightarrow> int \<Rightarrow> (int, 'o) call) \<Rightarrow> int \<Rightarrow> ptr \<Rightarrow> int \<Rightarrow> (int, 'o) call" where
  "CRT_readv os_readv fd vector cnt = if_null [vector] (-1) (if_bad_fd fd 0 (os_readv fd vector cnt))"

definition CRT_writev ::
  "(int \<Rightarrow> ptr \<Rightarrow> int \<Rightarrow> (int, 'o) call) \<Rightarrow> int \<Rightarrow> ptr \<Rightarrow> int \<Rightarrow> (int, 'o) call" where
  "CRT_writev os_writev fd vector cnt = if_null [vector] (-1) (if_bad_fd fd 0 (os_writev fd vector cnt))"

definition CRT_lseek ::
  "(int \<Rightarrow> int \<Rightarrow> int \<Rightarrow> (int, 'o) call) \<Rightarrow> int \<Rightarrow> int \<Rightarrow> int \<Rightarrow> (int, 'o) call" where
  "CRT_lseek os_lseek fildes offset whence = if_bad_fd fildes (-1) (os_lseek fildes offset whence)"

subsection \<open>Streams\<close>

definition CRT_fopen ::
  "(ptr \<Rightarrow> ptr \<Rightarrow> (ptr, 'o) call) \<Rightarrow> ptr \<Rightarrow> ptr \<Rightarrow> (ptr, 'o) call" where
  "CRT_fopen os_fopen path mode = if_null [path, mode] NULL (os_fopen path mode)"

definition CRT_fdopen ::
  "(int \<Rightarrow> ptr \<Rightarrow> (ptr, 'o) call) \<Rightarrow> int \<Rightarrow> ptr \<Rightarrow> (ptr, 'o) call" where
  "CRT_fdopen os_fdopen fildes mode = if_null [mode] NULL (if_bad_fd fildes NULL (os_fdopen fildes mode))"

definition CRT_fclose ::
  "(ptr \<Rightarrow> (int, 'o) call) \<Rightarrow> ptr \<Rightarrow> (int, 'o) call" where
  "CRT_fclose os_fclose fp = if_null [fp] (-1) (os_fclose fp)"

definition CRT_fflush ::
  "(ptr \<Rightarrow> (int, 'o) call) \<Rightarrow> ptr \<Rightarrow> (int, 'o) call" where
  "CRT_fflush os_fflush stream = if_null [stream] (-1) (os_fflush stream)"

definition CRT_fprintf ::
  "(ptr \<Rightarrow> ptr \<Rightarrow> 'va \<Rightarrow> (int, 'o) call) \<Rightarrow> ptr \<Rightarrow> ptr \<Rightarrow> 'va \<Rightarrow> (int, 'o) call" where
  "CRT_fprintf os_vfprintf stream format va = if_null [stream, format] (-1) (os_vfprintf stream format va)"

definition CRT_fread ::
  "(ptr \<Rightarrow> nat \<Rightarrow> nat \<Rightarrow> ptr \<Rightarrow> (nat, 'o) call) \<Rightarrow> ptr \<Rightarrow> nat \<Rightarrow> nat \<Rightarrow> ptr \<Rightarrow> (nat, 'o) call" where
  "CRT_fread os_fread ptr sz nmemb stream = if_null [ptr, stream] 0 (os_fread ptr sz nmemb stream)"

definition CRT_fwrite ::
  "(ptr \<Rightarrow> nat \<Rightarrow> nat \<Rightarrow> ptr \<Rightarrow> (nat, 'o) call) \<Rightarrow> ptr \<Rightarrow> nat \<Rightarrow> nat \<Rightarrow> ptr \<Rightarrow> (nat, 'o) call" where
  "CRT_fwrite os_fwrite ptr sz nmemb stream = if_null [ptr, stream] 0 (os_fwrite ptr sz nmemb stream)"

definition CRT_feof ::
  "(ptr \<Rightarrow> (int, 'o) call) \<Rightarrow> ptr \<Rightarrow> (int, 'o) call" where
  "CRT_feof os_feof stream = if_null [stream] (-1) (os_feof stream)"

definition CRT_fileno ::
  "(ptr \<Rightarrow> (int, 'o) call) \<Rightarrow> ptr \<Rightarrow> (int, 'o) call" where
  "CRT_fileno os_fileno stream = if_null [stream] (-1) (os_fileno stream)"

definition CRT_fgets ::
  "(ptr \<Rightarrow> int \<Rightarrow> ptr \<Rightarrow> (ptr, 'o) call) \<Rightarrow> ptr \<Rightarrow> int \<Rightarrow> ptr \<Rightarrow> (ptr, 'o) call" where
  "CRT_fgets os_fgets s sz stream = if_null [stream, s] NULL (os_fgets s sz stream)"

definition CRT_fputs ::
  "(ptr \<Rightarrow> ptr \<Rightarrow> (int, 'o) call) \<Rightarrow> ptr \<Rightarrow> ptr \<Rightarrow> (int, 'o) call" where
  "CRT_fputs os_fputs s stream = if_null [stream, s] (-1) (os_fputs s stream)"

definition CRT_ferror ::
  "(ptr \<Rightarrow> (int, 'o) call) \<Rightarrow> ptr \<Rightarrow> (int, 'o) call" where
  "CRT_ferror os_ferror stream = if_null [stream] (-1) (os_ferror stream)"

definition CRT_rewind ::
  "(ptr \<Rightarrow> (unit, 'o) call) \<Rightarrow> ptr \<Rightarrow> (unit, 'o) call" where
  "CRT_rewind os_rewind stream = if_null [stream] () (os_rewind stream)"

definition CRT_setvbuf ::
  "(ptr \<Rightarrow> ptr \<Rightarrow> int \<Rightarrow> nat \<Rightarrow> (int, 'o) call) \<Rightarrow> ptr \<Rightarrow> ptr \<Rightarrow> int \<Rightarrow> nat \<Rightarrow> (int, 'o) call" where
  "CRT_setvbuf os_setvbuf stream buf mode sz = if_null [stream] (-1) (os_setvbuf stream buf mode sz)"

definition CRT_popen ::
  "(ptr \<Rightarrow> ptr \<Rightarrow> (ptr, 'o) call) \<Rightarrow> ptr \<Rightarrow> ptr \<Rightarrow> (ptr, 'o) call" where
  "CRT_popen os_popen command type = if_null [command] NULL (os_popen command type)"

definition CRT_pclose ::
  "(ptr \<Rightarrow> (int, 'o) call) \<Rightarrow> ptr \<Rightarrow> (int, 'o) call" where
  "CRT_pclose os_pclose stream = if_null [stream] (-1) (os_pclose stream)"

definition CRT_sprintf ::
  "(ptr \<Rightarrow> ptr \<Rightarrow> 'va \<Rightarrow> (int, 'o) call) \<Rightarrow> ptr \<Rightarrow> ptr \<Rightarrow> 'va \<Rightarrow> (int, 'o) call" where
  "CRT_sprintf os_vsprintf str format va = if_null [str, format] 0 (os_vsprintf str format va)"

definition CRT_snprintf ::
  "(ptr \<Rightarrow> nat \<Rightarrow> ptr \<Rightarrow> 'va \<Rightarrow> (int, 'o) call) \<Rightarrow> ptr \<Rightarrow> nat \<Rightarrow> ptr \<Rightarrow> 'va \<Rightarrow> (int, 'o) call" where
  "CRT_snprintf os_vsnprintf str sz format va =
     if_null [str, format] 0 (\<lambda>w. if sz = 0 then Inr (0, w) else os_vsnprintf str sz format va w)"

definition CRT_vsnprintf ::
  "(ptr \<Rightarrow> nat \<Rightarrow> ptr \<Rightarrow> 'va \<Rightarrow> (int, 'o) call) \<Rightarrow> ptr \<Rightarrow> nat \<Rightarrow> ptr \<Rightarrow> 'va \<Rightarrow> (int, 'o) call" where
  "CRT_vsnprintf os_vsnprintf str sz format ap =
     if_null [str, format] 0 (\<lambda>w. if sz = 0 then Inr (0, w) else os_vsnprintf str sz format ap w)"

definition CRT_scanf ::
  "(ptr \<Rightarrow> 'va \<Rightarrow> (int, 'o) call) \<Rightarrow> ptr \<Rightarrow> 'va \<Rightarrow> (int, 'o) call" where
  "CRT_scanf os_vscanf format va = if_null [format] 0 (os_vscanf format va)"

definition CRT_fscanf ::
  "(ptr \<Rightarrow> ptr \<Rightarrow> 'va \<Rightarrow> (int, 'o) call) \<Rightarrow> ptr \<Rightarrow> ptr \<Rightarrow> 'va \<Rightarrow> (int, 'o) call" where
  "CRT_fscanf os_vfscanf stream format va = if_null [stream, format] (-1) (os_vfscanf stream format va)"

definition CRT_sscanf ::
  "(ptr \<Rightarrow> ptr \<Rightarrow> 'va \<Rightarrow> (int, 'o) call) \<Rightarrow> ptr \<Rightarrow> ptr \<Rightarrow> 'va \<Rightarrow> (int, 'o) call" where
  "CRT_sscanf os_vsscanf str format va = if_null [str, format] 0 (os_vsscanf str format va)"

subsection \<open>Directories and names\<close>

definition CRT_opendir ::
  "(ptr \<Rightarrow> (ptr, 'o) call) \<Rightarrow> ptr \<Rightarrow> (ptr, 'o) call" where
  "CRT_opendir os_opendir name = if_null [name] NULL (os_opendir name)"

definition CRT_readdir ::
  "(ptr \<Rightarrow> (ptr, 'o) call) \<Rightarrow> ptr \<Rightarrow> (ptr, 'o) call" where
  "CRT_readdir os_readdir dir = if_null [dir] NULL (os_readdir dir)"

definition CRT_closedir ::
  "(ptr \<Rightarrow> (int, 'o) call) \<Rightarrow> ptr \<Rightarrow> (int, 'o) call" where
  "CRT_closedir os_closedir dir = if_null [dir] (-1) (os_closedir dir)"

definition CRT_mkdir ::
  "(ptr \<Rightarrow> int \<Rightarrow> (int, 'o) call) \<Rightarrow> ptr \<Rightarrow> int \<Rightarrow> (int, 'o) call" where
  "CRT_mkdir os_mkdir pathname mode = if_null [pathname] (-1) (os_mkdir pathname mode)"

definition CRT_remove ::
  "(ptr \<Rightarrow> (int, 'o) call) \<Rightarrow> ptr \<Rightarrow> (int, 'o) call" where
  "CRT_remove os_remove pathname = if_null [pathname] (-1) (os_remove pathname)"

definition CRT_rename ::
  "(ptr \<Rightarrow> ptr \<Rightarrow> (int, 'o) call) \<Rightarrow> ptr \<Rightarrow> ptr \<Rightarrow> (int, 'o) call" where
  "CRT_rename os_rename oldpath newpath = if_null [oldpath, newpath] (-1) (os_rename oldpath newpath)"

definition CRT_unlink ::
  "(ptr \<Rightarrow> (int, 'o) call) \<Rightarrow> ptr \<Rightarrow> (int, 'o) call" where
  "CRT_unlink os_unlink pathname = if_null [pathname] (-1) (os_unlink pathname)"

definition CRT_ftok ::
  "(ptr \<Rightarrow> int \<Rightarrow> (int, 'o) call) \<Rightarrow> ptr \<Rightarrow> int \<Rightarrow> (int, 'o) call" where
  "CRT_ftok os_ftok pathname proj_id = if_null [pathname] (-1) (os_ftok pathname proj_id)"

subsection \<open>Environment, time and errors\<close>

definition CRT_atof ::
  "(ptr \<Rightarrow> (lua_Number, 'o) call) \<Rightarrow> ptr \<Rightarrow> (lua_Number, 'o) call" where
  "CRT_atof os_atof str = if_null [str] (dbl_of_int (-1)) (os_atof str)"

definition CRT_getenv ::
  "(ptr \<Rightarrow> (ptr, 'o) call) \<Rightarrow> ptr \<Rightarrow> (ptr, 'o) call" where
  "CRT_getenv os_getenv envvar = if_null [envvar] NULL (os_getenv envvar)"

definition CRT_free ::
  "(ptr \<Rightarrow> (unit, 'o) call) \<Rightarrow> ptr \<Rightarrow> (unit, 'o) call" where
  "CRT_free os_free ptr = if_null [ptr] () (os_free ptr)"

definition CRT_atexit ::
  "(ptr \<Rightarrow> (int, 'o) call) \<Rightarrow> ptr \<Rightarrow> (int, 'o) call" where
  "CRT_atexit os_atexit function = if_null [function] (-1) (os_atexit function)"

definition CRT_localtime ::
  "(ptr \<Rightarrow> (ptr, 'o) call) \<Rightarrow> ptr \<Rightarrow> (ptr, 'o) call" where
  "CRT_localtime os_localtime timep = if_null [timep] NULL (os_localtime timep)"

definition CRT_localtime_r ::
  "(ptr \<Rightarrow> ptr \<Rightarrow> (ptr, 'o) call) \<Rightarrow> ptr \<Rightarrow> ptr \<Rightarrow> (ptr, 'o) call" where
  "CRT_localtime_r os_localtime_r timep result = if_null [timep] NULL (os_localtime_r timep result)"

definition CRT_ftime ::
  "(ptr \<Rightarrow> (int, 'o) call) \<Rightarrow> ptr \<Rightarrow> (int, 'o) call" where
  "CRT_ftime os_ftime tp = if_null [tp] (-1) (os_ftime tp)"

definition CRT_strerror_r ::
  "(int \<Rightarrow> ptr \<Rightarrow> nat \<Rightarrow> (int, 'o) call) \<Rightarrow> int \<Rightarrow> ptr \<Rightarrow> nat \<Rightarrow> (int, 'o) call" where
  "CRT_strerror_r os_strerror_r errnum buf buflen = if_null [buf] (-1) (os_strerror_r errnum buf buflen)"

definition CRT_getrlimit ::
  "(int \<Rightarrow> ptr \<Rightarrow> (int, 'o) call) \<Rightarrow> int \<Rightarrow> ptr \<Rightarrow> (int, 'o) call" where
  "CRT_getrlimit os_getrlimit resource rlim = if_null [rlim] (-1) (os_getrlimit resource rlim)"

definition CRT_setrlimit ::
  "(int \<Rightarrow> ptr \<Rightarrow> (int, 'o) call) \<Rightarrow> int \<Rightarrow> ptr \<Rightarrow> (int, 'o) call" where
  "CRT_setrlimit os_setrlimit resource rlim = if_null [rlim] (-1) (os_setrlimit resource rlim)"

subsection \<open>Shared memory, semaphores and events\<close>

definition CRT_shmdt ::
  "(ptr \<Rightarrow> (int, 'o) call) \<Rightarrow> ptr \<Rightarrow> (int, 'o) call" where
  "CRT_shmdt os_shmdt shmaddr = if_null [shmaddr] (-1) (os_shmdt shmaddr)"

definition CRT_munmap ::
  "(ptr \<Rightarrow> nat \<Rightarrow> (int, 'o) call) \<Rightarrow> ptr \<Rightarrow> nat \<Rightarrow> (int, 'o) call" where
  "CRT_munmap os_munmap addr len = if_null [addr] (-1) (os_munmap addr len)"

definition CRT_shm_open ::
  "(ptr \<Rightarrow> int \<Rightarrow> int \<Rightarrow> (int, 'o) call) \<Rightarrow> ptr \<Rightarrow> int \<Rightarrow> int \<Rightarrow> (int, 'o) call" where
  "CRT_shm_open os_shm_open name oflag mode = if_null [name] (-1) (os_shm_open name oflag mode)"

definition CRT_shm_unlink ::
  "(ptr \<Rightarrow> (int, 'o) call) \<Rightarrow> ptr \<Rightarrow> (int, 'o) call" where
  "CRT_shm_unlink os_shm_unlink name = if_null [name] (-1) (os_shm_unlink name)"

definition CRT_sem_open ::
  "ptr \<Rightarrow> (ptr \<Rightarrow> int \<Rightarrow> int \<Rightarrow> int \<Rightarrow> (ptr, 'o) call) \<Rightarrow> ptr \<Rightarrow> int \<Rightarrow> int \<Rightarrow> int \<Rightarrow> (ptr, 'o) call" where
  "CRT_sem_open sem_failed os_sem_open name oflag mode value =
     if_null [name] sem_failed (os_sem_open name oflag mode value)"

definition CRT_sem_unlink ::
  "(ptr \<Rightarrow> (int, 'o) call) \<Rightarrow> ptr \<Rightarrow> (int, 'o) call" where
  "CRT_sem_unlink os_sem_unlink name = if_null [name] (-1) (os_sem_unlink name)"

definition CRT_msync ::
  "(ptr \<Rightarrow> nat \<Rightarrow> int \<Rightarrow> (int, 'o) call) \<Rightarrow> ptr \<Rightarrow> nat \<Rightarrow> int \<Rightarrow> (int, 'o) call" where
  "CRT_msync os_msync start len flags = if_null [start] (-1) (os_msync start len flags)"

definition CRT_mlock ::
  "(ptr \<Rightarrow> nat \<Rightarrow> (int, 'o) call) \<Rightarrow> ptr \<Rightarrow> nat \<Rightarrow> (int, 'o) call" where
  "CRT_mlock os_mlock addr len = if_null [addr] (-1) (os_mlock addr len)"

definition CRT_munlock ::
  "(ptr \<Rightarrow> nat \<Rightarrow> (int, 'o) call) \<Rightarrow> ptr \<Rightarrow> nat \<Rightarrow> (int, 'o) call" where
  "CRT_munlock os_munlock addr len = if_null [addr] (-1) (os_munlock addr len)"

definition CRT_poll ::
  "(ptr \<Rightarrow> nat \<Rightarrow> int \<Rightarrow> (int, 'o) call) \<Rightarrow> ptr \<Rightarrow> nat \<Rightarrow> int \<Rightarrow> (int, 'o) call" where
  "CRT_poll os_poll fds nfds timeout = if_null [fds] (-1) (os_poll fds nfds timeout)"

definition CRT_epoll_wait ::
  "(int \<Rightarrow> ptr \<Rightarrow> int \<Rightarrow> int \<Rightarrow> (int, 'o) call) \<Rightarrow> int \<Rightarrow> ptr \<Rightarrow> int \<Rightarrow> int \<Rightarrow> (int, 'o) call" where
  "CRT_epoll_wait os_epoll_wait epfd events maxevents timeout =
     if_null [events] (-1) (os_epoll_wait epfd events maxevents timeout)"

definition CRT_epoll_ctl ::
  "(int \<Rightarrow> int \<Rightarrow> int \<Rightarrow> ptr \<Rightarrow> (int, 'o) call) \<Rightarrow> int \<Rightarrow> int \<Rightarrow> int \<Rightarrow> ptr \<Rightarrow> (int, 'o) call" where
  "CRT_epoll_ctl os_epoll_ctl epfd op fd event = if_null [event] (-1) (os_epoll_ctl epfd op fd event)"

definition CRT_epoll_create ::
  "(int \<Rightarrow> (int, 'o) call) \<Rightarrow> int \<Rightarrow> (int, 'o) call" where
  "CRT_epoll_create os_epoll_create sz =
     (\<lambda>w. if sz < 0 then Inr (-1, w\<lparr>errno := ENULLARG\<rparr>) else os_epoll_create sz w)"

definition CRT_pollset_ctl ::
  "(int \<Rightarrow> ptr \<Rightarrow> int \<Rightarrow> (int, 'o) call) \<Rightarrow> int \<Rightarrow> ptr \<Rightarrow> int \<Rightarrow> (int, 'o) call" where
  "CRT_pollset_ctl os_pollset_ctl ps pollctl_array array_length =
     if_null [pollctl_array] (-1) (os_pollset_ctl ps pollctl_array array_length)"

definition CRT_pollset_query ::
  "(int \<Rightarrow> ptr \<Rightarrow> (int, 'o) call) \<Rightarrow> int \<Rightarrow> ptr \<Rightarrow> (int, 'o) call" where
  "CRT_pollset_query os_pollset_query ps pollfd_query =
     if_null [pollfd_query] (-1) (os_pollset_query ps pollfd_query)"

definition CRT_pollset_poll ::
  "(int \<Rightarrow> ptr \<Rightarrow> int \<Rightarrow> int \<Rightarrow> (int, 'o) call) \<Rightarrow> int \<Rightarrow> ptr \<Rightarrow> int \<Rightarrow> int \<Rightarrow> (int, 'o) call" where
  "CRT_pollset_poll os_pollset_poll ps polldata_array array_length timeout =
     if_null [polldata_array] (-1) (os_pollset_poll ps polldata_array array_length timeout)"

subsection \<open>Addresses\<close>

definition CRT_gethostbyname ::
  "(ptr \<Rightarrow> (ptr, 'o) call) \<Rightarrow> ptr \<Rightarrow> (ptr, 'o) call" where
  "CRT_gethostbyname os_gethostbyname name = if_null [name] NULL (os_gethostbyname name)"

definition CRT_getsockname ::
  "(int \<Rightarrow> ptr \<Rightarrow> ptr \<Rightarrow> (int, 'o) call) \<Rightarrow> int \<Rightarrow> ptr \<Rightarrow> ptr \<Rightarrow> (int, 'o) call" where
  "CRT_getsockname os_getsockname s name namelen = if_null [name] (-1) (os_getsockname s name namelen)"

definition CRT_inet_ntop ::
  "(int \<Rightarrow> ptr \<Rightarrow> ptr \<Rightarrow> int \<Rightarrow> (ptr, 'o) call) \<Rightarrow> int \<Rightarrow> ptr \<Rightarrow> ptr \<Rightarrow> int \<Rightarrow> (ptr, 'o) call" where
  "CRT_inet_ntop os_inet_ntop af src dst cnt = if_null [src, dst] NULL (os_inet_ntop af src dst cnt)"

subsection \<open>Threads\<close>

definition CRT_pthread_mutex_init ::
  "(ptr \<Rightarrow> ptr \<Rightarrow> (int, 'o) call) \<Rightarrow> ptr \<Rightarrow> ptr \<Rightarrow> (int, 'o) call" where
  "CRT_pthread_mutex_init os_pthread_mutex_init mutex mutexattr =
     if_null [mutex] (-1) (os_pthread_mutex_init mutex mutexattr)"

definition CRT_pthread_mutex_destroy ::
  "(ptr \<Rightarrow> (int, 'o) call) \<Rightarrow> ptr \<Rightarrow> (int, 'o) call" where
  "CRT_pthread_mutex_destroy os_pthread_mutex_destroy mutex =
     if_null [mutex] (-1) (os_pthread_mutex_destroy mutex)"

definition CRT_pthread_mutex_lock ::
  "(ptr \<Rightarrow> (int, 'o) call) \<Rightarrow> ptr \<Rightarrow> (int, 'o) call" where
  "CRT_pthread_mutex_lock os_pthread_mutex_lock mutex = if_null [mutex] (-1) (os_pthread_mutex_lock mutex)"

definition CRT_pthread_mutex_unlock ::
  "(ptr \<Rightarrow> (int, 'o) call) \<Rightarrow> ptr \<Rightarrow> (int, 'o) call" where
  "CRT_pthread_mutex_unlock os_pthread_mutex_unlock mutex =
     if_null [mutex] (-1) (os_pthread_mutex_unlock mutex)"

definition CRT_pthread_mutex_trylock ::
  "(ptr \<Rightarrow> (int, 'o) call) \<Rightarrow> ptr \<Rightarrow> (int, 'o) call" where
  "CRT_pthread_mutex_trylock os_pthread_mutex_trylock mutex =
     if_null [mutex] (-1) (os_pthread_mutex_trylock mutex)"

definition CRT_pthread_mutex_timedlock ::
  "bool \<Rightarrow> (ptr \<Rightarrow> ptr \<Rightarrow> (int, 'o) call) \<Rightarrow> (ptr \<Rightarrow> (int, 'o) call) \<Rightarrow> ptr \<Rightarrow> ptr \<Rightarrow> (int, 'o) call" where
  "CRT_pthread_mutex_timedlock freebsd os_pthread_mutex_timedlock os_pthread_mutex_lock mutex abs_timeout =
     if_null [mutex, abs_timeout] (-1) 
       (if freebsd then os_pthread_mutex_timedlock mutex abs_timeout else os_pthread_mutex_lock mutex)"

definition CRT_pthread_condattr_init ::
  "(ptr \<Rightarrow> (int, 'o) call) \<Rightarrow> ptr \<Rightarrow> (int, 'o) call" where
  "CRT_pthread_condattr_init os_pthread_condattr_init attr =
     if_null [attr] (-1) (os_pthread_condattr_init attr)"

definition CRT_pthread_condattr_destroy ::
  "(ptr \<Rightarrow> (int, 'o) call) \<Rightarrow> ptr \<Rightarrow> (int, 'o) call" where
  "CRT_pthread_condattr_destroy os_pthread_condattr_destroy attr =
     if_null [attr] (-1) (os_pthread_condattr_destroy attr)"

definition CRT_pthread_condattr_setpshared ::
  "(ptr \<Rightarrow> int \<Rightarrow> (int, 'o) call) \<Rightarrow> ptr \<Rightarrow> int \<Rightarrow> (int, 'o) call" where
  "CRT_pthread_condattr_setpshared os_pthread_condattr_setpshared attr pshared =
     if_null [attr] (-1) (os_pthread_condattr_setpshared attr pshared)"

definition CRT_pthread_cond_init ::
  "(ptr \<Rightarrow> ptr \<Rightarrow> (int, 'o) call) \<Rightarrow> ptr \<Rightarrow> ptr \<Rightarrow> (int, 'o) call" where
  "CRT_pthread_cond_init os_pthread_cond_init cond cond_attr =
     if_null [cond] (-1) (os_pthread_cond_init cond cond_attr)"

definition CRT_pthread_cond_destroy ::
  "(ptr \<Rightarrow> (int, 'o) call) \<Rightarrow> ptr \<Rightarrow> (int, 'o) call" where
  "CRT_pthread_cond_destroy os_pthread_cond_destroy cond =
     if_null [cond] (-1) (os_pthread_cond_destroy cond)"

definition CRT_pthread_cond_wait ::
  "(ptr \<Rightarrow> ptr \<Rightarrow> (int, 'o) call) \<Rightarrow> ptr \<Rightarrow> ptr \<Rightarrow> (int, 'o) call" where
  "CRT_pthread_cond_wait os_pthread_cond_wait cond mutex =
     if_null [cond, mutex] (-1) (os_pthread_cond_wait cond mutex)"

definition CRT_pthread_cond_timedwait ::
  "(ptr \<Rightarrow> ptr \<Rightarrow> ptr \<Rightarrow> (int, 'o) call) \<Rightarrow> ptr \<Rightarrow> ptr \<Rightarrow> ptr \<Rightarrow> (int, 'o) call" where
  "CRT_pthread_cond_timedwait os_pthread_cond_timedwait cond mutex abstime =
     if_null [cond, mutex, abstime] (-1) (os_pthread_cond_timedwait cond mutex abstime)"

definition CRT_pthread_cond_signal ::
  "(ptr \<Rightarrow> (int, 'o) call) \<Rightarrow> ptr \<Rightarrow> (int, 'o) call" where
  "CRT_pthread_cond_signal os_pthread_cond_signal cond = if_null [cond] (-1) (os_pthread_cond_signal cond)"

definition CRT_pthread_cond_broadcast ::
  "(ptr \<Rightarrow> (int, 'o) call) \<Rightarrow> ptr \<Rightarrow> (int, 'o) call" where
  "CRT_pthread_cond_broadcast os_pthread_cond_broadcast cond =
     if_null [cond] (-1) (os_pthread_cond_broadcast cond)"

definition CRT_pthread_mutexattr_destroy ::
  "(ptr \<Rightarrow> (int, 'o) call) \<Rightarrow> ptr \<Rightarrow> (int, 'o) call" where
  "CRT_pthread_mutexattr_destroy os_pthread_mutexattr_destroy attr =
     if_null [attr] (-1) (os_pthread_mutexattr_destroy attr)"

definition CRT_pthread_mutexattr_init ::
  "(ptr \<Rightarrow> (int, 'o) call) \<Rightarrow> ptr \<Rightarrow> (int, 'o) call" where
  "CRT_pthread_mutexattr_init os_pthread_mutexattr_init attr =
     if_null [attr] (-1) (os_pthread_mutexattr_init attr)"

definition CRT_pthread_mutexattr_gettype ::
  "(ptr \<Rightarrow> ptr \<Rightarrow> (int, 'o) call) \<Rightarrow> ptr \<Rightarrow> ptr \<Rightarrow> (int, 'o) call" where
  "CRT_pthread_mutexattr_gettype os_pthread_mutexattr_gettype attr type =
     if_null [attr, type] (-1) (os_pthread_mutexattr_gettype attr type)"

definition CRT_pthread_mutexattr_settype ::
  "(ptr \<Rightarrow> int \<Rightarrow> (int, 'o) call) \<Rightarrow> ptr \<Rightarrow> int \<Rightarrow> (int, 'o) call" where
  "CRT_pthread_mutexattr_settype os_pthread_mutexattr_settype attr type =
     if_null [attr] (-1) (os_pthread_mutexattr_settype attr type)"

definition CRT_pthread_mutexattr_setpshared ::
  "(ptr \<Rightarrow> int \<Rightarrow> (int, 'o) call) \<Rightarrow> ptr \<Rightarrow> int \<Rightarrow> (int, 'o) call" where
  "CRT_pthread_mutexattr_setpshared os_pthread_mutexattr_setpshared attr pshared =
     if_null [attr] (-1) (os_pthread_mutexattr_setpshared attr pshared)"

definition CRT_pthread_attr_init ::
  "(ptr \<Rightarrow> (int, 'o) call) \<Rightarrow> ptr \<Rightarrow> (int, 'o) call" where
  "CRT_pthread_attr_init os_pthread_attr_init attr = if_null [attr] (-1) (os_pthread_attr_init attr)"

definition CRT_pthread_attr_destroy ::
  "(ptr \<Rightarrow> (int, 'o) call) \<Rightarrow> ptr \<Rightarrow> (int, 'o) call" where
  "CRT_pthread_attr_destroy os_pthread_attr_destroy attr =
     if_null [attr] (-1) (os_pthread_attr_destroy attr)"

definition CRT_pthread_attr_setstacksize ::
  "(ptr \<Rightarrow> nat \<Rightarrow> (int, 'o) call) \<Rightarrow> ptr \<Rightarrow> nat \<Rightarrow> (int, 'o) call" where
  "CRT_pthread_attr_setstacksize os_pthread_attr_setstacksize attr stacksize =
     if_null [attr] (-1) (os_pthread_attr_setstacksize attr stacksize)"

definition CRT_pthread_attr_setdetachstate ::
  "(ptr \<Rightarrow> int \<Rightarrow> (int, 'o) call) \<Rightarrow> ptr \<Rightarrow> int \<Rightarrow> (int, 'o) call" where
  "CRT_pthread_attr_setdetachstate os_pthread_attr_setdetachstate attr detachstate =
     if_null [attr] (-1) (os_pthread_attr_setdetachstate attr detachstate)"

subsection \<open>Creating a directory with its parents\<close>

text \<open>
  \<open>szTemp\<close> is the address of the local buffer of 1024 bytes; \<open>p\<close> and \<open>len\<close> are the variables of
  the loop.
\<close>

fun mkdir_ex_loop :: "(ptr \<Rightarrow> int \<Rightarrow> (int, 'o) call) \<Rightarrow> ptr \<Rightarrow> int \<Rightarrow> ptr \<Rightarrow> nat \<Rightarrow> int \<Rightarrow> (int, 'o) call" where
  "mkdir_ex_loop os_mkdir szTemp mode p 0 rc w = Inr (rc, w)"
| "mkdir_ex_loop os_mkdir szTemp mode p (Suc len) rc w =
     ebind (load (mem w) p) (\<lambda>c.
       if c = 0x2F then
         ebind (store (mem w) p 0x30) (\<lambda>m.
         ebind (os_mkdir szTemp mode (w\<lparr>mem := m\<rparr>)) (\<lambda>(rc, w).
           if rc = -1 then Inr (if errno w = EEXIST then 0 else rc, w)
           else mkdir_ex_loop os_mkdir szTemp mode (p - 1) len rc w))
       else mkdir_ex_loop os_mkdir szTemp mode (p - 1) len rc w)"

definition CRT_mkdir_ex :: "(ptr \<Rightarrow> int \<Rightarrow> (int, 'o) call) \<Rightarrow> ptr \<Rightarrow> ptr \<Rightarrow> int \<Rightarrow> (int, 'o) call" where
  "CRT_mkdir_ex os_mkdir szTemp pathname mode = if_null [pathname] (-1) (\<lambda>w.
     ebind (CRT_memset szTemp 0 1024 w) (\<lambda>(_, w).
     ebind (CRT_strcpy szTemp pathname w) (\<lambda>(_, w).
     ebind (CRT_strlen szTemp w) (\<lambda>(len, w).
       mkdir_ex_loop os_mkdir szTemp mode (szTemp + len) len 0 w))))"

end
