(* ===== verification/Cstub_Proofs.thy ===== *)
theory Cstub_Proofs
  imports Cstub
begin

text \<open>
  Correctness of the wrappers of \<open>Stub/cstub.c\<close>. The locale \<open>guarded_call\<close> states what a family of
  wrappers promises and proves it for sequences of calls; the file descriptor calls and the thread
  calls interpret it. The last part follows \<open>CRT_mkdir_ex\<close> through its loop.
\<close>

subsection \<open>What the wrappers share\<close>

definition nofault :: "('r, 'o) call \<Rightarrow> bool" where
  "nofault k \<longleftrightarrow> (\<forall>w. \<exists>r w'. k w = Inr (r, w'))"

text \<open>A client makes a sequence of calls and collects their results.\<close>

primrec run_calls :: "('a \<Rightarrow> ('r, 'o) call) \<Rightarrow> 'a list \<Rightarrow> ('r list, 'o) call" where
  "run_calls f [] w = Inr ([], w)"
| "run_calls f (x # xs) w =
     ebind (f x w) (\<lambda>(r, w). ebind (run_calls f xs w) (\<lambda>(rs, w). Inr (r # rs, w)))"

text \<open>
  The contract of a family of wrappers: \<open>guard\<close> says which calls are refused, with the error and
  the result, and \<open>target\<close> which call of the library the others become.
\<close>

locale guarded_call =
  fixes wrapper :: "('a \<Rightarrow> ('r, 'o) call) \<Rightarrow> 'a \<Rightarrow> ('r, 'o) call"
    and guard :: "'a \<Rightarrow> (int \<times> 'r) option"
    and target :: "'a \<Rightarrow> 'a"
  assumes rejected: "guard x = Some (e, r) \<Longrightarrow> wrapper f x w = Inr (r, w\<lparr>errno := e\<rparr>)"
    and passed: "guard x = None \<Longrightarrow> wrapper f x w = f (target x) w"
    and target_valid: "guard x = None \<Longrightarrow> guard (target x) = None"
begin

lemma only_valid: "(\<And>y. guard y = None \<Longrightarrow> f y = g y) \<Longrightarrow> wrapper f x w = wrapper g x w"
  using target_valid by (cases "guard x") (auto simp: passed rejected)

lemma run_only_valid:
  assumes "\<And>y. guard y = None \<Longrightarrow> f y = g y"
  shows "run_calls (wrapper f) xs w = run_calls (wrapper g) xs w"
proof (induction xs arbitrary: w)
  case (Cons x xs)
  then show ?case using only_valid [of f g x w, OF assms] by (auto intro!: ebind_cong)
qed simp

lemma wrapper_nofault:
  assumes "\<And>y. guard y = None \<Longrightarrow> nofault (f y)"
  shows "\<exists>r w'. wrapper f x w = Inr (r, w')"
  using assms [of "target x"] target_valid [of x]
  by (cases "guard x") (auto simp: passed rejected nofault_def)

lemma run_nofault:
  assumes "\<And>y. guard y = None \<Longrightarrow> nofault (f y)"
  shows "\<exists>rs w'. run_calls (wrapper f) xs w = Inr (rs, w') \<and> length rs = length xs"
proof (induction xs arbitrary: w)
  case (Cons x xs)
  obtain r w' where "wrapper f x w = Inr (r, w')"
    using wrapper_nofault [of f x w] assms by blast
  then show ?case using Cons [of w'] by auto
qed simp

lemma run_rejected:
  assumes "\<forall>x\<in>set xs. guard x \<noteq> None"
  shows "\<exists>e. run_calls (wrapper f) xs w =
    Inr (map (\<lambda>x. snd (the (guard x))) xs, w\<lparr>errno := e\<rparr>)"
  using assms
proof (induction xs arbitrary: w)
  case Nil
  then show ?case by (intro exI [of _ "errno w"]) simp
next
  case (Cons x xs)
  then obtain e r where "guard x = Some (e, r)" by auto
  then show ?case using Cons.IH [of "w\<lparr>errno := e\<rparr>"] Cons.prems by (auto simp: rejected)
qed

end

definition null_guard :: "ptr list \<Rightarrow> 'r \<Rightarrow> (int \<times> 'r) option" where
  "null_guard ps r = (if NULL \<in> set ps then Some (ENULLARG, r) else None)"

definition fd_guard :: "int \<Rightarrow> 'r \<Rightarrow> (int \<times> 'r) option" where
  "fd_guard fd r = (if fd = -1 then Some (EBADF, r) else None)"

definition then_guard :: "(int \<times> 'r) option \<Rightarrow> (int \<times> 'r) option \<Rightarrow> (int \<times> 'r) option" where
  "then_guard a b = (case a of None \<Rightarrow> b | Some _ \<Rightarrow> a)"

lemmas guard_defs = null_guard_def fd_guard_def then_guard_def if_null_def if_bad_fd_def

subsection \<open>The family of file descriptor calls\<close>

datatype fd_call =
    Open ptr int int
  | Creat ptr int
  | Close int
  | Read int ptr nat
  | Write int ptr nat
  | Fstat int ptr
  | Access ptr int
  | Readv int ptr int
  | Writev int ptr int
  | Lseek int int int

definition crt_fd :: "(fd_call \<Rightarrow> (int, 'o) call) \<Rightarrow> fd_call \<Rightarrow> (int, 'o) call" where
  "crt_fd os c = (case c of
     Open pathname flags mode \<Rightarrow> CRT_open (\<lambda>pathname flags mode. os (Open pathname flags mode)) pathname flags mode
   | Creat pathname mode \<Rightarrow> CRT_creat (\<lambda>pathname mode. os (Creat pathname mode)) pathname mode
   | Close fd \<Rightarrow> CRT_close (\<lambda>fd. os (Close fd)) fd
   | Read fd buf cnt \<Rightarrow> CRT_read (\<lambda>fd buf cnt. os (Read fd buf cnt)) fd buf cnt
   | Write fd buf cnt \<Rightarrow> CRT_write (\<lambda>fd buf cnt. os (Write fd buf cnt)) fd buf cnt
   | Fstat filedes buf \<Rightarrow> CRT_fstat (\<lambda>filedes buf. os (Fstat filedes buf)) filedes buf
   | Access pathname mode \<Rightarrow> CRT_access (\<lambda>pathname mode. os (Access pathname mode)) pathname mode
   | Readv fd vector cnt \<Rightarrow> CRT_readv (\<lambda>fd vector cnt. os (Readv fd vector cnt)) fd vector cnt
   | Writev fd vector cnt \<Rightarrow> CRT_writev (\<lambda>fd vector cnt. os (Writev fd vector cnt)) fd vector cnt
   | Lseek fildes offset whence \<Rightarrow> CRT_lseek (\<lambda>fildes offset whence. os (Lseek fildes offset whence)) fildes offset whence)"

definition fd_call_guard :: "fd_call \<Rightarrow> (int \<times> int) option" where
  "fd_call_guard c = (case c of
     Open pathname flags mode \<Rightarrow> null_guard [pathname] (-1)
   | Creat pathname mode \<Rightarrow> null_guard [pathname] (-1)
   | Close fd \<Rightarrow> fd_guard fd (-1)
   | Read fd buf cnt \<Rightarrow> then_guard (null_guard [buf] (-1)) (fd_guard fd 0)
   | Write fd buf cnt \<Rightarrow> then_guard (null_guard [buf] (-1)) (fd_guard fd 0)
   | Fstat filedes buf \<Rightarrow> then_guard (null_guard [buf] (-1)) (fd_guard filedes (-1))
   | Access pathname mode \<Rightarrow> null_guard [pathname] (-1)
   | Readv fd vector cnt \<Rightarrow> then_guard (null_guard [vector] (-1)) (fd_guard fd 0)
   | Writev fd vector cnt \<Rightarrow> then_guard (null_guard [vector] (-1)) (fd_guard fd 0)
   | Lseek fildes offset whence \<Rightarrow> fd_guard fildes (-1))"

lemmas crt_fd_defs = CRT_open_def CRT_creat_def CRT_close_def CRT_read_def CRT_write_def CRT_fstat_def CRT_access_def CRT_readv_def CRT_writev_def CRT_lseek_def

interpretation fd: guarded_call crt_fd fd_call_guard id
proof
  fix f :: "fd_call \<Rightarrow> (int, 'o) call" and x e r w
  show "fd_call_guard x = Some (e, r) \<Longrightarrow> crt_fd f x w = Inr (r, w\<lparr>errno := e\<rparr>)"
    by (cases x) (auto simp: crt_fd_def fd_call_guard_def crt_fd_defs guard_defs split: if_splits)
  show "fd_call_guard x = None \<Longrightarrow> crt_fd f x w = f (id x) w"
    by (cases x) (auto simp: crt_fd_def fd_call_guard_def crt_fd_defs guard_defs split: if_splits)
qed simp

subsection \<open>The family of thread calls\<close>

datatype thread_call =
    MutexInit ptr ptr
  | MutexDestroy ptr
  | MutexLock ptr
  | MutexUnlock ptr
  | MutexTrylock ptr
  | MutexTimedlock ptr ptr
  | CondattrInit ptr
  | CondattrDestroy ptr
  | CondattrSetpshared ptr int
  | CondInit ptr ptr
  | CondDestroy ptr
  | CondWait ptr ptr
  | CondTimedwait ptr ptr ptr
  | CondSignal ptr
  | CondBroadcast ptr
  | MutexattrDestroy ptr
  | MutexattrInit ptr
  | MutexattrGettype ptr ptr
  | MutexattrSettype ptr int
  | MutexattrSetpshared ptr int
  | AttrInit ptr
  | AttrDestroy ptr
  | AttrSetstacksize ptr nat
  | AttrSetdetachstate ptr int

definition crt_thread :: "bool \<Rightarrow> (thread_call \<Rightarrow> (int, 'o) call) \<Rightarrow> thread_call \<Rightarrow> (int, 'o) call" where
  "crt_thread freebsd os c = (case c of
     MutexInit mutex mutexattr \<Rightarrow> CRT_pthread_mutex_init (\<lambda>mutex mutexattr. os (MutexInit mutex mutexattr)) mutex mutexattr
   | MutexDestroy mutex \<Rightarrow> CRT_pthread_mutex_destroy (\<lambda>mutex. os (MutexDestroy mutex)) mutex
   | MutexLock mutex \<Rightarrow> CRT_pthread_mutex_lock (\<lambda>mutex. os (MutexLock mutex)) mutex
   | MutexUnlock mutex \<Rightarrow> CRT_pthread_mutex_unlock (\<lambda>mutex. os (MutexUnlock mutex)) mutex
   | MutexTrylock mutex \<Rightarrow> CRT_pthread_mutex_trylock (\<lambda>mutex. os (MutexTrylock mutex)) mutex
   | MutexTimedlock mutex abs_timeout \<Rightarrow>
       CRT_pthread_mutex_timedlock freebsd (\<lambda>mutex abs_timeout. os (MutexTimedlock mutex abs_timeout)) (\<lambda>mutex. os (MutexLock mutex)) mutex abs_timeout
   | CondattrInit attr \<Rightarrow> CRT_pthread_condattr_init (\<lambda>attr. os (CondattrInit attr)) attr
   | CondattrDestroy attr \<Rightarrow> CRT_pthread_condattr_destroy (\<lambda>attr. os (CondattrDestroy attr)) attr
   | CondattrSetpshared attr pshared \<Rightarrow> CRT_pthread_condattr_setpshared (\<lambda>attr pshared. os (CondattrSetpshared attr pshared)) attr pshared
   | CondInit cond cond_attr \<Rightarrow> CRT_pthread_cond_init (\<lambda>cond cond_attr. os (CondInit cond cond_attr)) cond cond_attr
   | CondDestroy cond \<Rightarrow> CRT_pthread_cond_destroy (\<lambda>cond. os (CondDestroy cond)) cond
   | CondWait cond mutex \<Rightarrow> CRT_pthread_cond_wait (\<lambda>cond mutex. os (CondWait cond mutex)) cond mutex
   | CondTimedwait cond mutex abstime \<Rightarrow> CRT_pthread_cond_timedwait (\<lambda>cond mutex abstime. os (CondTimedwait cond mutex abstime)) cond mutex abstime
   | CondSignal cond \<Rightarrow> CRT_pthread_cond_signal (\<lambda>cond. os (CondSignal cond)) cond
   | CondBroadcast cond \<Rightarrow> CRT_pthread_cond_broadcast (\<lambda>cond. os (CondBroadcast cond)) cond
   | MutexattrDestroy attr \<Rightarrow> CRT_pthread_mutexattr_destroy (\<lambda>attr. os (MutexattrDestroy attr)) attr
   | MutexattrInit attr \<Rightarrow> CRT_pthread_mutexattr_init (\<lambda>attr. os (MutexattrInit attr)) attr
   | MutexattrGettype attr type \<Rightarrow> CRT_pthread_mutexattr_gettype (\<lambda>attr type. os (MutexattrGettype attr type)) attr type
   | MutexattrSettype attr type \<Rightarrow> CRT_pthread_mutexattr_settype (\<lambda>attr type. os (MutexattrSettype attr type)) attr type
   | MutexattrSetpshared attr pshared \<Rightarrow> CRT_pthread_mutexattr_setpshared (\<lambda>attr pshared. os (MutexattrSetpshared attr pshared)) attr pshared
   | AttrInit attr \<Rightarrow> CRT_pthread_attr_init (\<lambda>attr. os (AttrInit attr)) attr
   | AttrDestroy attr \<Rightarrow> CRT_pthread_attr_destroy (\<lambda>attr. os (AttrDestroy attr)) attr
   | AttrSetstacksize attr stacksize \<Rightarrow> CRT_pthread_attr_setstacksize (\<lambda>attr stacksize. os (AttrSetstacksize attr stacksize)) attr stacksize
   | AttrSetdetachstate attr detachstate \<Rightarrow> CRT_pthread_attr_setdetachstate (\<lambda>attr detachstate. os (AttrSetdetachstate attr detachstate)) attr detachstate)"

definition thread_call_guard :: "thread_call \<Rightarrow> (int \<times> int) option" where
  "thread_call_guard c = (case c of
     MutexInit mutex mutexattr \<Rightarrow> null_guard [mutex] (-1)
   | MutexDestroy mutex \<Rightarrow> null_guard [mutex] (-1)
   | MutexLock mutex \<Rightarrow> null_guard [mutex] (-1)
   | MutexUnlock mutex \<Rightarrow> null_guard [mutex] (-1)
   | MutexTrylock mutex \<Rightarrow> null_guard [mutex] (-1)
   | MutexTimedlock mutex abs_timeout \<Rightarrow> null_guard [mutex, abs_timeout] (-1)
   | CondattrInit attr \<Rightarrow> null_guard [attr] (-1)
   | CondattrDestroy attr \<Rightarrow> null_guard [attr] (-1)
   | CondattrSetpshared attr pshared \<Rightarrow> null_guard [attr] (-1)
   | CondInit cond cond_attr \<Rightarrow> null_guard [cond] (-1)
   | CondDestroy cond \<Rightarrow> null_guard [cond] (-1)
   | CondWait cond mutex \<Rightarrow> null_guard [cond, mutex] (-1)
   | CondTimedwait cond mutex abstime \<Rightarrow> null_guard [cond, mutex, abstime] (-1)
   | CondSignal cond \<Rightarrow> null_guard [cond] (-1)
   | CondBroadcast cond \<Rightarrow> null_guard [cond] (-1)
   | MutexattrDestroy attr \<Rightarrow> null_guard [attr] (-1)
   | MutexattrInit attr \<Rightarrow> null_guard [attr] (-1)
   | MutexattrGettype attr type \<Rightarrow> null_guard [attr, type] (-1)
   | MutexattrSettype attr type \<Rightarrow> null_guard [attr] (-1)
   | MutexattrSetpshared attr pshared \<Rightarrow> null_guard [attr] (-1)
   | AttrInit attr \<Rightarrow> null_guard [attr] (-1)
   | AttrDestroy attr \<Rightarrow> null_guard [attr] (-1)
   | AttrSetstacksize attr stacksize \<Rightarrow> null_guard [attr] (-1)
   | AttrSetdetachstate attr detachstate \<Rightarrow> null_guard [attr] (-1))"

definition thread_target :: "bool \<Rightarrow> thread_call \<Rightarrow> thread_call" where
  "thread_target freebsd c =
     (case c of MutexTimedlock mutex _ \<Rightarrow> if freebsd then c else MutexLock mutex | _ \<Rightarrow> c)"

lemmas crt_thread_defs =
  CRT_pthread_mutex_init_def CRT_pthread_mutex_destroy_def CRT_pthread_mutex_lock_def CRT_pthread_mutex_unlock_def CRT_pthread_mutex_trylock_def CRT_pthread_mutex_timedlock_def CRT_pthread_condattr_init_def CRT_pthread_condattr_destroy_def CRT_pthread_condattr_setpshared_def CRT_pthread_cond_init_def CRT_pthread_cond_destroy_def CRT_pthread_cond_wait_def CRT_pthread_cond_timedwait_def CRT_pthread_cond_signal_def CRT_pthread_cond_broadcast_def CRT_pthread_mutexattr_destroy_def CRT_pthread_mutexattr_init_def CRT_pthread_mutexattr_gettype_def CRT_pthread_mutexattr_settype_def CRT_pthread_mutexattr_setpshared_def CRT_pthread_attr_init_def CRT_pthread_attr_destroy_def CRT_pthread_attr_setstacksize_def CRT_pthread_attr_setdetachstate_def

interpretation thread: guarded_call "crt_thread freebsd" thread_call_guard "thread_target freebsd" for freebsd
proof
  fix f :: "thread_call \<Rightarrow> (int, 'o) call" and x e r w
  show "thread_call_guard x = Some (e, r) \<Longrightarrow> crt_thread freebsd f x w = Inr (r, w\<lparr>errno := e\<rparr>)"
    by (cases x) (auto simp: crt_thread_def thread_call_guard_def crt_thread_defs guard_defs split: if_splits)
  show "thread_call_guard x = None \<Longrightarrow> crt_thread freebsd f x w = f (thread_target freebsd x) w"
    by (cases x) (auto simp: crt_thread_def thread_call_guard_def thread_target_def crt_thread_defs guard_defs split: if_splits)
  show "thread_call_guard x = None \<Longrightarrow> thread_call_guard (thread_target freebsd x) = None"
    by (cases x) (auto simp: thread_call_guard_def thread_target_def guard_defs split: if_splits)
qed

subsection \<open>Sessions\<close>

text \<open>
  C33. A program that makes its file descriptor calls through the wrappers is safe against null
  pointers and the descriptor -1: if the system calls themselves never fault on arguments that
  the guards accept, then no sequence of wrapped calls faults, whatever the arguments; and what
  a system call would do on an argument that a guard refuses has no influence on the session.
\<close>

theorem CRT_fd_session_safe:
  assumes "\<And>c. fd_call_guard c = None \<Longrightarrow> nofault (os c)"
  shows "(\<exists>rs w'. run_calls (crt_fd os) cs w = Inr (rs, w') \<and> length rs = length cs) \<and>
    (\<forall>os'. (\<forall>c. fd_call_guard c = None \<longrightarrow> os' c = os c) \<longrightarrow>
      run_calls (crt_fd os') cs w = run_calls (crt_fd os) cs w)"
proof
  show "\<exists>rs w'. run_calls (crt_fd os) cs w = Inr (rs, w') \<and> length rs = length cs"
    using assms by (rule fd.run_nofault)
  show "\<forall>os'. (\<forall>c. fd_call_guard c = None \<longrightarrow> os' c = os c) \<longrightarrow>
      run_calls (crt_fd os') cs w = run_calls (crt_fd os) cs w"
    by (intro allI impI fd.run_only_valid) simp
qed

text \<open>A system whose calls fault on what the guards refuse.\<close>

definition strict_fd :: "fd_call \<Rightarrow> (int, unit) call" where
  "strict_fd c w = (if fd_call_guard c = None then Inr (3, w) else Inl (Unmapped 0))"

theorem CRT_fd_session_safe_witness:
  "\<exists>rs w'. run_calls (crt_fd strict_fd) [Open 0 1 2, Read (-1) 64 8, Close (-1), Close 3] sample =
     Inr (rs, w') \<and> length rs = 4"
proof -
  have "\<And>c. fd_call_guard c = None \<Longrightarrow> nofault (strict_fd c)"
    by (simp add: nofault_def strict_fd_def)
  from conjunct1 [OF CRT_fd_session_safe [of strict_fd
      "[Open 0 1 2, Read (-1) 64 8, Close (-1), Close 3]" sample, OF this]]
  show ?thesis by (simp add: eval_nat_numeral del: run_calls.simps)
qed

text \<open>
  A sequence of calls that are all refused changes nothing but \<open>errno\<close>. \<open>CRT_read\<close>,
  \<open>CRT_write\<close> and their vector forms then answer 0 for the descriptor -1, which a caller takes
  for the end of the file or an empty write, where \<open>CRT_close\<close>, \<open>CRT_lseek\<close> and \<open>CRT_fstat\<close>
  answer -1.
\<close>

theorem CRT_fd_refused:
  assumes "buf \<noteq> NULL" and "vector \<noteq> NULL"
  shows "\<exists>e. run_calls (crt_fd os) [Read (-1) buf n, Write (-1) buf n, Readv (-1) vector k,
      Writev (-1) vector k, Close (-1), Lseek (-1) off wh, Fstat (-1) buf] w =
    Inr ([0, 0, 0, 0, -1, -1, -1], w\<lparr>errno := e\<rparr>)"
  using fd.run_rejected [of "[Read (-1) buf n, Write (-1) buf n, Readv (-1) vector k,
      Writev (-1) vector k, Close (-1), Lseek (-1) off wh, Fstat (-1) buf]"] assms
  by (simp add: fd_call_guard_def guard_defs)

theorem CRT_fd_refused_witness:
  "\<exists>e. run_calls (crt_fd strict_fd) [Read (-1) 64 8, Write (-1) 64 8, Readv (-1) 64 1,
      Writev (-1) 64 1, Close (-1), Lseek (-1) 0 0, Fstat (-1) 64] sample =
    Inr ([0, 0, 0, 0, -1, -1, -1], sample\<lparr>errno := e\<rparr>)"
  using CRT_fd_refused [of 64 64] by simp

text \<open>
  The same for the thread calls. Outside FreeBSD, \<open>CRT_pthread_mutex_timedlock\<close> with valid
  arguments is \<open>pthread_mutex_lock\<close>: its result and its effect do not depend on the time limit, and
  a caller waits for as long as the mutex is held.
\<close>

theorem CRT_thread_session_safe:
  assumes "\<And>c. thread_call_guard c = None \<Longrightarrow> nofault (os c)"
  shows "(\<exists>rs w'. run_calls (crt_thread freebsd os) cs w = Inr (rs, w') \<and> length rs = length cs) \<and>
    (\<forall>os'. (\<forall>c. thread_call_guard c = None \<longrightarrow> os' c = os c) \<longrightarrow>
      run_calls (crt_thread freebsd os') cs w = run_calls (crt_thread freebsd os) cs w) \<and>
    (mutex \<noteq> NULL \<and> t \<noteq> NULL \<longrightarrow> crt_thread False os (MutexTimedlock mutex t) w = os (MutexLock mutex) w)"
proof (intro conjI)
  show "\<exists>rs w'. run_calls (crt_thread freebsd os) cs w = Inr (rs, w') \<and> length rs = length cs"
    using assms by (rule thread.run_nofault)
  show "\<forall>os'. (\<forall>c. thread_call_guard c = None \<longrightarrow> os' c = os c) \<longrightarrow>
      run_calls (crt_thread freebsd os') cs w = run_calls (crt_thread freebsd os) cs w"
    by (intro allI impI thread.run_only_valid) simp
  show "mutex \<noteq> NULL \<and> t \<noteq> NULL \<longrightarrow> crt_thread False os (MutexTimedlock mutex t) w = os (MutexLock mutex) w"
    by (simp add: crt_thread_def CRT_pthread_mutex_timedlock_def)
qed

definition strict_thread :: "thread_call \<Rightarrow> (int, unit) call" where
  "strict_thread c w = (if thread_call_guard c = None then Inr (0, w) else Inl (Unmapped 0))"

theorem CRT_thread_session_safe_witness:
  "\<exists>rs w'. run_calls (crt_thread False strict_thread) [MutexInit 8 0, MutexTimedlock 8 16, MutexLock 0]
     sample = Inr (rs, w') \<and> length rs = 3"
proof -
  have "\<And>c. thread_call_guard c = None \<Longrightarrow> nofault (strict_thread c)"
    by (simp add: nofault_def strict_thread_def)
  from conjunct1 [OF CRT_thread_session_safe [of strict_thread False
      "[MutexInit 8 0, MutexTimedlock 8 16, MutexLock 0]" sample, OF this]]
  show ?thesis by (simp add: eval_nat_numeral del: run_calls.simps)
qed

subsection \<open>Directories\<close>

lemma mapped_mem_upd: "mapped m q n \<Longrightarrow> mapped (mem_upd m p bs) q n"
  by (auto simp: mapped_def mem_upd_def)

lemma is_cstr_update:
  assumes "is_cstr m p t" and "i < length t" and "b \<noteq> 0"
  shows "is_cstr (m(p + i \<mapsto> b)) p (t[i := b])"
proof -
  have "bytes_at (m(p + i \<mapsto> b)) p ((t @ [0])[i := b])"
    using assms(1) unfolding is_cstr_def bytes_at_def by (auto simp: nth_list_update)
  moreover have "set (t[i := b]) \<subseteq> insert b (set t)" by (rule set_update_subset_insert)
  ultimately show ?thesis
    using assms by (auto simp: is_cstr_def list_update_append)
qed

definition recording_mkdir ::
  "(byte list \<Rightarrow> int \<times> int) \<Rightarrow> ptr \<Rightarrow> int \<Rightarrow> (int, byte list list) call" where
  "recording_mkdir res path mode w = ebind (cstr (mem w) path)
     (\<lambda>s. Inr (fst (res s), w\<lparr>errno := snd (res s), crt.more := crt.more w @ [s]\<rparr>))"

definition slash_lost :: "byte list \<Rightarrow> byte list \<Rightarrow> bool" where
  "slash_lost t u \<longleftrightarrow> length u = length t \<and> (\<exists>i<length t. t ! i = 0x2F \<and> u ! i = 0x30)"

lemma slash_lost_update: "i < length t \<Longrightarrow> t ! i = 0x2F \<Longrightarrow> slash_lost t (t[i := 0x30])"
  by (auto simp: slash_lost_def)

lemma slash_lost_trans: "slash_lost (t[i := 0x30]) u \<Longrightarrow> slash_lost t u"
proof -
  have "t ! j = 0x2F" if "j < length t" "t[i := 0x30] ! j = (0x2F :: byte)" for j
    using that by (cases "i = j") auto
  then show "slash_lost (t[i := 0x30]) u \<Longrightarrow> slash_lost t u"
    by (auto simp: slash_lost_def)
qed

lemma load_cstr:
  "is_cstr m p t \<Longrightarrow> i \<le> length t \<Longrightarrow> load m (p + i) = Inr ((t @ [0]) ! i)"
  unfolding is_cstr_def bytes_at_def load_def by (auto simp del: length_append_singleton)

lemma mkdir_ex_loop_paths:
  assumes "is_cstr (mem w) q t" and "n \<le> length t"
  shows "\<exists>rc' w' ps. mkdir_ex_loop (recording_mkdir res) q mode (q + n) n rc w = Inr (rc', w') \<and>
    crt.more w' = crt.more w @ ps \<and> (\<forall>u\<in>set ps. slash_lost t u) \<and>
    (0x2F \<notin> set (tl t) \<longrightarrow> ps = [] \<and> rc' = rc)"
  using assms
proof (induction n arbitrary: t rc w)
  case 0
  then show ?case by auto
next
  case (Suc n)
  let ?c = "(t @ [0]) ! Suc n"
  have ld: "load (mem w) (q + Suc n) = Inr ?c"
    using load_cstr [OF Suc.prems] .
  show ?case
  proof (cases "?c = 0x2F")
    case False
    with Suc ld show ?thesis by simp
  next
    case True
    then have i: "Suc n < length t" "t ! Suc n = 0x2F"
      using Suc.prems(2) by (auto simp: nth_append less_Suc_eq_le split: if_splits)
    let ?t = "t[Suc n := 0x30]" and ?m = "(mem w)(q + Suc n \<mapsto> 0x30)"
    let ?w = "w\<lparr>mem := ?m, errno := snd (res ?t), crt.more := crt.more w @ [?t]\<rparr>"
    have t': "is_cstr ?m q ?t"
      using is_cstr_update [OF Suc.prems(1) i(1)] by simp
    have st: "store (mem w) (q + Suc n) 0x30 = Inr ?m"
      using ld by (auto simp: store_def load_def split: option.splits)
    have rec: "recording_mkdir res q mode (w\<lparr>mem := ?m\<rparr>) = Inr (fst (res ?t), ?w)"
      using cstr_is_cstr [OF t'] by (simp add: recording_mkdir_def)
    have notin: "0x2F \<in> set (tl t)"
      using i by (cases t) (auto simp: in_set_conv_nth)
    show ?thesis
    proof (cases "fst (res ?t) = -1")
      case True
      then show ?thesis
        using ld st rec notin i by (auto simp: slash_lost_update \<open>?c = 0x2F\<close> simp del: add_Suc_right)
    next
      case False
      have "is_cstr (mem ?w) q ?t" "n \<le> length ?t"
        using t' Suc.prems(2) by simp_all
      from Suc.IH [OF this] obtain rc' w' ps where ih:
        "mkdir_ex_loop (recording_mkdir res) q mode (q + n) n (fst (res ?t)) ?w = Inr (rc', w')"
        "crt.more w' = crt.more ?w @ ps" "\<forall>u\<in>set ps. slash_lost ?t u"
        by blast
      have "mkdir_ex_loop (recording_mkdir res) q mode (q + Suc n) (Suc n) rc w = Inr (rc', w')"
        using ld st rec False ih(1) \<open>?c = 0x2F\<close> by (simp del: add_Suc_right add: diff_add_assoc)
      moreover have "\<forall>u\<in>set (?t # ps). slash_lost t u"
        using ih(3) slash_lost_update [OF i] slash_lost_trans by auto
      ultimately show ?thesis using ih(2) notin by (intro exI [of _ rc'] exI [of _ w'] exI [of _ "?t # ps"]) simp
    qed
  qed
qed


text \<open>
  C34. \<open>CRT_mkdir_ex\<close> is meant to create the parents of a path one by one, but it overwrites a
  slash with the digit 0 instead of the terminator. Whatever \<open>mkdir\<close> answers, every path the
  function passes to it has the length of the requested path and a \<open>0\<close> where that has a
  slash: neither the directory nor any of its parents is ever requested. For a path with no slash
  after its first character nothing is requested at all, and the function reports success.
\<close>

theorem CRT_mkdir_ex_paths:
  assumes "is_cstr (mem w) pathname s" and "pathname \<noteq> NULL" and "length s < 1024"
    and "szTemp \<noteq> NULL" and "mapped (mem w) szTemp 1024" and "szTemp + 1024 \<le> 2 ^ 64"
    and "disjoint_ranges szTemp 1024 pathname (length s + 1)"
  shows "\<exists>rc w' ps. CRT_mkdir_ex (recording_mkdir res) szTemp pathname mode w = Inr (rc, w') \<and>
    crt.more w' = crt.more w @ ps \<and>
    (\<forall>u\<in>set ps. length u = length s \<and> (\<exists>i<length s. s ! i = 0x2F \<and> u ! i = 0x30)) \<and>
    (0x2F \<notin> set (tl s) \<longrightarrow> ps = [] \<and> rc = 0)"
proof -
  define w1 where "w1 = w\<lparr>mem := mem_upd (mem w) szTemp (replicate 1024 0)\<rparr>"
  define w2 where "w2 = w1\<lparr>mem := mem_upd (mem w1) szTemp (s @ [0])\<rparr>"
  have set: "CRT_memset szTemp 0 1024 w = Inr (szTemp, w1)"
    using assms(4,5) by (simp add: CRT_memset_def c_memset_def stores_mapped w1_def)
  have "is_cstr (mem w1) pathname s"
    using assms(1,7) by (simp add: w1_def is_cstr_disjoint)
  moreover have "mapped (mem w1) szTemp (length s + 1)"
    using assms(3) mapped_mem_upd [OF assms(5)] by (simp add: w1_def mapped_def)
  moreover have "disjoint_ranges szTemp (length s + 1) pathname (length s + 1)"
    using assms(3,7) by (auto simp: disjoint_ranges_def)
  ultimately have cpy: "CRT_strcpy szTemp pathname w1 = Inr (szTemp, w2)"
    using assms(2,4) by (simp add: CRT_strcpy_def c_strcpy_ok w2_def)
  have "0 \<notin> set s" using assms(1) by (simp add: is_cstr_def)
  then have s2: "is_cstr (mem w2) szTemp s"
    using assms(3,6) by (simp add: w2_def is_cstr_mem_upd)
  then have len: "CRT_strlen szTemp w2 = Inr (length s, w2)"
    using assms(4) by (simp add: CRT_strlen_def c_strlen_def cstr_is_cstr)
  have "crt.more w2 = crt.more w" by (simp add: w2_def w1_def)
  then show ?thesis
    using mkdir_ex_loop_paths [OF s2 order_refl, of res mode 0] assms(2) set cpy len
    by (simp add: CRT_mkdir_ex_def slash_lost_def)
qed


text \<open>The path \<open>a/b\<close> in a memory where everything else is mapped and zero.\<close>

definition path_world :: "byte list list crt_scheme" where
  "path_world = \<lparr>errno = 0, mem = (\<lambda>a. Some 0)(5000 \<mapsto> 0x61, 5001 \<mapsto> 0x2F, 5002 \<mapsto> 0x62), \<dots> = []\<rparr>"

theorem CRT_mkdir_ex_paths_witness:
  "\<exists>rc w' ps. CRT_mkdir_ex (recording_mkdir (\<lambda>s. (0, 0))) 100 5000 0 path_world = Inr (rc, w') \<and>
    crt.more w' = ps \<and> (\<forall>u\<in>set ps. u ! 1 = 0x30)"
proof -
  have s: "is_cstr (mem path_world) 5000 [0x61, 0x2F, 0x62]"
    by (simp add: is_cstr_def bytes_at_Cons path_world_def)
  have m: "mapped (mem path_world) 100 1024"
    by (simp add: mapped_def path_world_def)
  have "u ! 1 = 0x30" if "\<exists>i<3. [0x61, 0x2F, 0x62 :: byte] ! i = 0x2F \<and> u ! i = 0x30" for u :: "byte list"
  proof -
    from that obtain i where i: "i < 3" "[0x61, 0x2F, 0x62 :: byte] ! i = 0x2F" "u ! i = 0x30"
      by blast
    from i(1) consider "i = 0" | "i = 1" | "i = 2" by linarith
    then show ?thesis using i(2,3) by cases simp_all
  qed
  moreover have "crt.more path_world = []"
    by (simp add: path_world_def)
  ultimately show ?thesis
    using CRT_mkdir_ex_paths [OF s _ _ _ m, of "\<lambda>s. (0, 0)" 0] by (fastforce simp: disjoint_ranges_def)
qed

end
