(* ===== verification/Mdb_Page.thy ===== *)
theory Mdb_Page
  imports Cstub_Mem
begin

text \<open>
  The page layer of the storage engine, \<open>GalaDB/lmdb/mdb.c\<close>: the layout of a page and of its nodes,
  the comparison functions of keys, the search in a page, adding and deleting nodes,
  and the copy of a page. A page is its header fields and the array of its bytes; the
  index array and the nodes are read and written in these bytes, as in the program. An access
  outside the page is the fault \<open>Page_Bounds\<close>, a failed assertion the fault \<open>Assert_Fail\<close>, a null
  pointer \<open>Null_Deref\<close>, a recursion that does not end \<open>No_End\<close>. Sizes are
  those of a 64 bit little endian machine.
\<close>

subsection \<open>Pages\<close>

datatype mdb_fault = Page_Bounds | Assert_Fail | Null_Deref | No_End

record mdb_page =
  mp_pgno :: nat
  mp_pad :: nat
  mp_flags :: uint16
  mp_lower :: nat
  mp_upper :: nat
  mp_mem :: "byte list"

definition PAGEHDRSZ :: nat where "PAGEHDRSZ = 16"
definition NODESIZE :: nat where "NODESIZE = 8"

definition P_BRANCH :: uint16 where "P_BRANCH = 0x01"
definition P_LEAF :: uint16 where "P_LEAF = 0x02"
definition P_OVERFLOW :: uint16 where "P_OVERFLOW = 0x04"
definition P_DIRTY :: uint16 where "P_DIRTY = 0x10"
definition P_LEAF2 :: uint16 where "P_LEAF2 = 0x20"

definition F_BIGDATA :: uint32 where "F_BIGDATA = 0x01"
definition MDB_RESERVE :: uint32 where "MDB_RESERVE = 0x10000"
definition MDB_TXN_ERROR :: uint32 where "MDB_TXN_ERROR = 0x02"
definition MDB_PAGE_FULL :: int where "MDB_PAGE_FULL = -30786"

definition F_ISSET :: "'a::len word \<Rightarrow> 'a word \<Rightarrow> bool" where
  "F_ISSET w f \<longleftrightarrow> (w AND f) = f"

definition EVEN :: "nat \<Rightarrow> nat" where
  "EVEN n = (n + 1) div 2 * 2"

text \<open>Conversion to the unsigned 16 bit type of offsets.\<close>

definition indx_t :: "int \<Rightarrow> nat" where
  "indx_t x = nat (x mod 2 ^ 16)"

definition IS_LEAF :: "mdb_page \<Rightarrow> bool" where "IS_LEAF p = F_ISSET (mp_flags p) P_LEAF"
definition IS_LEAF2 :: "mdb_page \<Rightarrow> bool" where "IS_LEAF2 p = F_ISSET (mp_flags p) P_LEAF2"
definition IS_BRANCH :: "mdb_page \<Rightarrow> bool" where "IS_BRANCH p = F_ISSET (mp_flags p) P_BRANCH"
definition IS_OVERFLOW :: "mdb_page \<Rightarrow> bool" where "IS_OVERFLOW p = F_ISSET (mp_flags p) P_OVERFLOW"

definition NUMKEYS :: "mdb_page \<Rightarrow> nat" where
  "NUMKEYS p = (mp_lower p + (2 ^ 32 - PAGEHDRSZ)) mod 2 ^ 32 div 2"

definition SIZELEFT :: "mdb_page \<Rightarrow> nat" where
  "SIZELEFT p = indx_t (int (mp_upper p) - int (mp_lower p))"

definition OVPAGES :: "nat \<Rightarrow> nat \<Rightarrow> nat" where
  "OVPAGES sz psize = (PAGEHDRSZ - 1 + sz) div psize + 1"

definition rd16 :: "byte list \<Rightarrow> nat \<Rightarrow> mdb_fault + nat" where
  "rd16 m off = (if off + 1 < length m then Inr (unat (m ! off) + 256 * unat (m ! (off + 1))) else Inl Page_Bounds)"

definition wr16 :: "byte list \<Rightarrow> nat \<Rightarrow> nat \<Rightarrow> mdb_fault + byte list" where
  "wr16 m off v = (if off + 1 < length m
     then Inr (m[off := word_of_nat v, off + 1 := word_of_nat (v div 256)]) else Inl Page_Bounds)"

definition wr_bytes :: "byte list \<Rightarrow> nat \<Rightarrow> byte list \<Rightarrow> mdb_fault + byte list" where
  "wr_bytes m off s = (case block_write m off s of None \<Rightarrow> Inl Page_Bounds | Some m' \<Rightarrow> Inr m')"

definition rd_bytes :: "byte list \<Rightarrow> nat \<Rightarrow> nat \<Rightarrow> mdb_fault + byte list" where
  "rd_bytes m off n = (if off + n \<le> length m then Inr (take n (drop off m)) else Inl Page_Bounds)"

definition memmove :: "byte list \<Rightarrow> nat \<Rightarrow> nat \<Rightarrow> nat \<Rightarrow> mdb_fault + byte list" where
  "memmove m dst src n = ebind (rd_bytes m src n) (wr_bytes m dst)"

subsection \<open>Nodes\<close>

definition mp_ptrs :: "byte list \<Rightarrow> nat \<Rightarrow> mdb_fault + nat" where
  "mp_ptrs m i = rd16 m (PAGEHDRSZ + 2 * i)"

definition set_ptr :: "byte list \<Rightarrow> nat \<Rightarrow> nat \<Rightarrow> mdb_fault + byte list" where
  "set_ptr m i v = wr16 m (PAGEHDRSZ + 2 * i) v"

text \<open>The fields \<open>mn_lo\<close>, \<open>mn_hi\<close>, \<open>mn_flags\<close> and \<open>mn_ksize\<close> of the node at an offset.\<close>

definition mn_lo :: "byte list \<Rightarrow> nat \<Rightarrow> mdb_fault + nat" where "mn_lo m node = rd16 m node"
definition mn_hi :: "byte list \<Rightarrow> nat \<Rightarrow> mdb_fault + nat" where "mn_hi m node = rd16 m (node + 2)"
definition mn_flags :: "byte list \<Rightarrow> nat \<Rightarrow> mdb_fault + nat" where "mn_flags m node = rd16 m (node + 4)"
definition mn_ksize :: "byte list \<Rightarrow> nat \<Rightarrow> mdb_fault + nat" where "mn_ksize m node = rd16 m (node + 6)"

definition NODEDSZ :: "byte list \<Rightarrow> nat \<Rightarrow> mdb_fault + nat" where
  "NODEDSZ m node = ebind (mn_lo m node) (\<lambda>lo. ebind (mn_hi m node) (\<lambda>hi. Inr (lo + 65536 * hi)))"

definition SETDSZ :: "byte list \<Rightarrow> nat \<Rightarrow> nat \<Rightarrow> mdb_fault + byte list" where
  "SETDSZ m node sz = ebind (wr16 m node (sz mod 2 ^ 16)) (\<lambda>m. wr16 m (node + 2) (sz div 2 ^ 16 mod 2 ^ 16))"

definition NODEPGNO :: "byte list \<Rightarrow> nat \<Rightarrow> mdb_fault + nat" where
  "NODEPGNO m node = ebind (mn_lo m node) (\<lambda>lo. ebind (mn_hi m node) (\<lambda>hi. ebind (mn_flags m node)
     (\<lambda>fl. Inr (lo + 2 ^ 16 * hi + 2 ^ 32 * fl))))"

definition SETPGNO :: "byte list \<Rightarrow> nat \<Rightarrow> nat \<Rightarrow> mdb_fault + byte list" where
  "SETPGNO m node pgno = ebind (wr16 m node (pgno mod 2 ^ 16)) (\<lambda>m.
     ebind (wr16 m (node + 2) (pgno div 2 ^ 16 mod 2 ^ 16)) (\<lambda>m.
     wr16 m (node + 4) (pgno div 2 ^ 32 mod 2 ^ 16)))"

definition NODEKEY :: "byte list \<Rightarrow> nat \<Rightarrow> mdb_fault + byte list" where
  "NODEKEY m node = ebind (mn_ksize m node) (\<lambda>ks. rd_bytes m (node + NODESIZE) ks)"

definition LEAF2KEY :: "byte list \<Rightarrow> nat \<Rightarrow> nat \<Rightarrow> mdb_fault + byte list" where
  "LEAF2KEY m i ks = rd_bytes m (PAGEHDRSZ + i * ks) ks"

subsection \<open>Cursors\<close>

text \<open>
  What the operations on a page use of a cursor: the page at the top of its stack and the index
  there, its database, and the sizes and flags of the environment and the transaction.
\<close>

record mdb_db =
  md_pad :: nat
  md_branch_pages :: nat
  md_leaf_pages :: nat
  md_overflow_pages :: nat

record mdb_cursor =
  mc_pg :: mdb_page
  mc_ki :: nat
  mc_db :: mdb_db
  me_psize :: nat
  me_nodemax :: nat
  mt_flags :: uint32

text \<open>A \<open>MDB_val\<close>: a size, and the bytes that can be read at its address.\<close>

record mdb_val =
  mv_size :: nat
  mv_data :: "byte list"

definition val_bytes :: "mdb_val \<Rightarrow> nat \<Rightarrow> mdb_fault + byte list" where
  "val_bytes v n = rd_bytes (mv_data v) 0 n"

text \<open>
  \<open>page_alloc fl num\<close> stands for \<open>mdb_page_alloc\<close> in a transaction with the flags \<open>fl\<close>: an error code or a chain of
  \<open>num\<close> pages, and the flags of the transaction afterwards, in which a failure sets \<open>MDB_TXN_ERROR\<close>.
\<close>

type_synonym page_allocator = "uint32 \<Rightarrow> nat \<Rightarrow> (int + mdb_page) \<times> uint32"

definition mdb_page_new ::
  "page_allocator \<Rightarrow> mdb_cursor \<Rightarrow> uint16 \<Rightarrow> nat \<Rightarrow> (int + mdb_page) \<times> mdb_cursor" where
  "mdb_page_new page_alloc mc flags num = (case page_alloc (mt_flags mc) num of
     (Inl rc, fl) \<Rightarrow> (Inl rc, mc\<lparr>mt_flags := fl\<rparr>)
   | (Inr np, fl) \<Rightarrow>
     let mc = mc\<lparr>mt_flags := fl\<rparr>;
         np = np\<lparr>mp_flags := flags OR P_DIRTY, mp_lower := PAGEHDRSZ, mp_upper := indx_t (int (me_psize mc))\<rparr>;
         db = mc_db mc
     in if IS_BRANCH np then (Inr np, mc\<lparr>mc_db := db\<lparr>md_branch_pages := md_branch_pages db + 1\<rparr>\<rparr>)
        else if IS_LEAF np then (Inr np, mc\<lparr>mc_db := db\<lparr>md_leaf_pages := md_leaf_pages db + 1\<rparr>\<rparr>)
        else if IS_OVERFLOW np then
          (Inr (np\<lparr>mp_lower := num mod 2 ^ 16, mp_upper := num div 2 ^ 16 mod 2 ^ 16\<rparr>),
           mc\<lparr>mc_db := db\<lparr>md_overflow_pages := md_overflow_pages db + num\<rparr>\<rparr>)
        else (Inr np, mc))"

subsection \<open>Sizes\<close>

definition mdb_leaf_size :: "nat \<Rightarrow> mdb_val \<Rightarrow> mdb_val \<Rightarrow> nat" where
  "mdb_leaf_size nodemax key data =
     (let sz = NODESIZE + mv_size key + mv_size data;
          sz = (if sz > nodemax then sz - mv_size data + 8 else sz)
      in EVEN (sz + 2))"

definition mdb_branch_size :: "mdb_val option \<Rightarrow> nat" where
  "mdb_branch_size key = NODESIZE + (case key of None \<Rightarrow> 0 | Some k \<Rightarrow> mv_size k) + 2"

subsection \<open>Adding a node\<close>

text \<open>\<open>for (i = NUMKEYS(mp); i > indx; i--) mp->mp_ptrs[i] = mp->mp_ptrs[i - 1]\<close>\<close>

fun ptrs_up :: "nat \<Rightarrow> nat \<Rightarrow> byte list \<Rightarrow> mdb_fault + byte list" where
  "ptrs_up 0 indx m = Inr m"
| "ptrs_up (Suc i) indx m =
     (if Suc i > indx then ebind (mp_ptrs m i) (\<lambda>v. ebind (set_ptr m (Suc i) v) (ptrs_up i indx)) else Inr m)"

datatype reserved = No_Reserve | In_Page nat | In_Overflow nat

type_synonym add_result = "int \<times> mdb_cursor \<times> mdb_page option \<times> reserved"

definition ksize_of :: "mdb_val option \<Rightarrow> nat" where
  "ksize_of key = (case key of None \<Rightarrow> 0 | Some k \<Rightarrow> mv_size k)"

definition node_add_leaf2 :: "mdb_cursor \<Rightarrow> nat \<Rightarrow> mdb_val option \<Rightarrow> mdb_fault + add_result" where
  "node_add_leaf2 mc indx key =
     (let mp = mc_pg mc; ksize = md_pad (mc_db mc); ptr = PAGEHDRSZ + indx * ksize;
          dif = int (NUMKEYS mp) - int indx
      in ebind (if dif > 0 then memmove (mp_mem mp) (ptr + ksize) ptr (nat dif * ksize) else Inr (mp_mem mp)) (\<lambda>m.
         case key of None \<Rightarrow> Inl Page_Bounds | Some k \<Rightarrow>
         ebind (val_bytes k ksize) (\<lambda>kb. ebind (wr_bytes m ptr kb) (\<lambda>m.
         Inr (0, mc\<lparr>mc_pg := mp\<lparr>mp_mem := m, mp_lower := indx_t (int (mp_lower mp) + 2),
                                mp_upper := indx_t (int (mp_upper mp) - (int ksize - 2))\<rparr>\<rparr>, None, No_Reserve)))))"

definition pgno_bytes :: "nat \<Rightarrow> byte list" where
  "pgno_bytes pgno = map (\<lambda>k. word_of_nat (pgno div 256 ^ k)) [0..<8]"

text \<open>The data of a leaf node: on the page, or on the overflow page \<open>ofp\<close>.\<close>

definition write_data ::
  "byte list \<Rightarrow> nat \<Rightarrow> uint32 \<Rightarrow> mdb_val \<Rightarrow> mdb_val \<Rightarrow> mdb_page option \<Rightarrow>
    mdb_fault + byte list \<times> mdb_page option \<times> reserved" where
  "write_data m node flags k d ofp = (let at = node + NODESIZE + mv_size k in
     case ofp of
       None \<Rightarrow>
         if F_ISSET flags F_BIGDATA then
           ebind (val_bytes d 8) (\<lambda>b. ebind (wr_bytes m at b) (\<lambda>m. Inr (m, None, No_Reserve)))
         else if F_ISSET flags MDB_RESERVE then Inr (m, None, In_Page at)
         else ebind (val_bytes d (mv_size d)) (\<lambda>b. ebind (wr_bytes m at b) (\<lambda>m. Inr (m, None, No_Reserve)))
     | Some op \<Rightarrow>
         ebind (wr_bytes m at (pgno_bytes (mp_pgno op))) (\<lambda>m.
         if F_ISSET flags MDB_RESERVE then Inr (m, ofp, In_Overflow PAGEHDRSZ)
         else ebind (val_bytes d (mv_size d)) (\<lambda>b. ebind (wr_bytes (mp_mem op) PAGEHDRSZ b) (\<lambda>om.
              Inr (m, Some (op\<lparr>mp_mem := om\<rparr>), No_Reserve)))))"

definition node_update ::
  "mdb_cursor \<Rightarrow> nat \<Rightarrow> mdb_val option \<Rightarrow> mdb_val option \<Rightarrow> nat \<Rightarrow> uint32 \<Rightarrow> mdb_page option \<Rightarrow> nat \<Rightarrow>
    mdb_fault + add_result" where
  "node_update mc indx key data pgno flags ofp node_size = (let mp = mc_pg mc in
     ebind (ptrs_up (NUMKEYS mp) indx (mp_mem mp)) (\<lambda>m.
     let ofs = indx_t (int (mp_upper mp) - int node_size) in
     if ofs < mp_lower mp + 2 then Inl Assert_Fail else
     ebind (set_ptr m indx ofs) (\<lambda>m.
     let mp = mp\<lparr>mp_upper := ofs, mp_lower := indx_t (int (mp_lower mp) + 2)\<rparr> in
     ebind (mp_ptrs m indx) (\<lambda>node.
     ebind (wr16 m (node + 6) (ksize_of key mod 2 ^ 16)) (\<lambda>m.
     ebind (wr16 m (node + 4) (unat flags mod 2 ^ 16)) (\<lambda>m.
     ebind (if IS_LEAF mp then SETDSZ m node (case data of None \<Rightarrow> 0 | Some d \<Rightarrow> mv_size d)
            else SETPGNO m node pgno) (\<lambda>m.
     ebind (case key of None \<Rightarrow> Inr m
            | Some k \<Rightarrow> ebind (val_bytes k (mv_size k)) (wr_bytes m (node + NODESIZE))) (\<lambda>m.
     if IS_LEAF mp then
       (case (key, data) of
          (Some k, Some d) \<Rightarrow>
            ebind (write_data m node flags k d ofp) (\<lambda>(m, ofp, res).
              Inr (0, mc\<lparr>mc_pg := mp\<lparr>mp_mem := m\<rparr>\<rparr>, ofp, res))
        | _ \<Rightarrow> Inl Assert_Fail)
     else Inr (0, mc\<lparr>mc_pg := mp\<lparr>mp_mem := m\<rparr>\<rparr>, None, No_Reserve)))))))))"

definition node_add_full :: "mdb_cursor \<Rightarrow> mdb_fault + add_result" where
  "node_add_full mc =
     Inr (MDB_PAGE_FULL, mc\<lparr>mt_flags := mt_flags mc OR MDB_TXN_ERROR\<rparr>, None, No_Reserve)"

definition mdb_node_add ::
  "page_allocator \<Rightarrow> mdb_cursor \<Rightarrow> nat \<Rightarrow> mdb_val option \<Rightarrow> mdb_val option \<Rightarrow> nat \<Rightarrow> uint32 \<Rightarrow>
    mdb_fault + add_result" where
  "mdb_node_add page_alloc mc indx key data pgno flags =
     (let mp = mc_pg mc;
          room = int (SIZELEFT mp) - 2;
          size0 = NODESIZE + ksize_of key;
          finish = (\<lambda>node_size. if int node_size > room then node_add_full mc
                     else node_update mc indx key data pgno flags None node_size)
      in if mp_upper mp < mp_lower mp then Inl Assert_Fail
         else if IS_LEAF2 mp then node_add_leaf2 mc indx key
         else if IS_LEAF mp then
           (case data of None \<Rightarrow> Inl Assert_Fail
            | Some d \<Rightarrow>
                if F_ISSET flags F_BIGDATA then finish (EVEN (size0 + 8))
                else if size0 + mv_size d > me_nodemax mc then
                  (let node_size = EVEN (size0 + 8) in
                   if int node_size > room then node_add_full mc
                   else case mdb_page_new page_alloc mc P_OVERFLOW (OVPAGES (mv_size d) (me_psize mc)) of
                          (Inl rc, mc) \<Rightarrow> Inr (rc, mc, None, No_Reserve)
                        | (Inr ofp, mc) \<Rightarrow>
                            node_update mc indx key data pgno (flags OR F_BIGDATA) (Some ofp) node_size)
                else finish (EVEN (size0 + mv_size d)))
         else finish (EVEN size0))"

subsection \<open>Deleting a node\<close>

text \<open>
  \<open>k\<close> iterations are left of the loop that removes the entry \<open>indx\<close> of the index array and moves
  the offsets below \<open>ptr\<close> up by \<open>sz\<close>.
\<close>

fun ptrs_del :: "nat \<Rightarrow> nat \<Rightarrow> nat \<Rightarrow> nat \<Rightarrow> nat \<Rightarrow> nat \<Rightarrow> byte list \<Rightarrow> mdb_fault + byte list" where
  "ptrs_del 0 i j indx ptr sz m = Inr m"
| "ptrs_del (Suc k) i j indx ptr sz m =
     (if i \<noteq> indx then
        ebind (mp_ptrs m i) (\<lambda>v. ebind (set_ptr m j v) (\<lambda>m. ebind (mp_ptrs m i) (\<lambda>v.
        ebind (if v < ptr then ebind (mp_ptrs m j) (\<lambda>u. set_ptr m j ((u + sz) mod 2 ^ 16)) else Inr m)
          (ptrs_del k (Suc i) (Suc j) indx ptr sz))))
      else ptrs_del k (Suc i) j indx ptr sz m)"

definition node_size_at :: "mdb_page \<Rightarrow> nat \<Rightarrow> mdb_fault + nat" where
  "node_size_at mp node = ebind (mn_ksize (mp_mem mp) node) (\<lambda>ks.
     ebind (if IS_LEAF mp then ebind (mn_flags (mp_mem mp) node) (\<lambda>fl.
              if F_ISSET (word_of_nat fl :: uint32) F_BIGDATA then Inr 8 else NODEDSZ (mp_mem mp) node)
            else Inr 0)
       (\<lambda>ds. Inr (EVEN (NODESIZE + ks + ds))))"

definition mdb_node_del :: "mdb_cursor \<Rightarrow> nat \<Rightarrow> mdb_fault + mdb_cursor" where
  "mdb_node_del mc ksize = (let mp = mc_pg mc; indx = mc_ki mc; numkeys = NUMKEYS mp in
     if \<not> indx < numkeys then Inl Assert_Fail
     else if IS_LEAF2 mp then
       (let x = numkeys - 1 - indx; base = PAGEHDRSZ + indx * ksize in
        ebind (if x \<noteq> 0 then memmove (mp_mem mp) base (base + ksize) (x * ksize) else Inr (mp_mem mp)) (\<lambda>m.
        Inr (mc\<lparr>mc_pg := mp\<lparr>mp_mem := m, mp_lower := indx_t (int (mp_lower mp) - 2),
                            mp_upper := indx_t (int (mp_upper mp) + (int ksize - 2))\<rparr>\<rparr>)))
     else
       ebind (mp_ptrs (mp_mem mp) indx) (\<lambda>ptr.
       ebind (node_size_at mp ptr) (\<lambda>sz.
       ebind (ptrs_del numkeys 0 0 indx ptr sz (mp_mem mp)) (\<lambda>m.
       if ptr < mp_upper mp then Inl Page_Bounds else
       ebind (memmove m (mp_upper mp + sz) (mp_upper mp) (ptr - mp_upper mp)) (\<lambda>m.
       Inr (mc\<lparr>mc_pg := mp\<lparr>mp_mem := m, mp_lower := indx_t (int (mp_lower mp) - 2),
                           mp_upper := indx_t (int (mp_upper mp) + int sz)\<rparr>\<rparr>))))))"

subsection \<open>Copying a page\<close>

definition align_down :: "nat \<Rightarrow> nat" where
  "align_down n = n div 8 * 8"

text \<open>\<open>memcpy(dst, src, n)\<close> of the first \<open>n\<close> bytes, the header included.\<close>

definition copy_head :: "mdb_page \<Rightarrow> mdb_page \<Rightarrow> nat \<Rightarrow> mdb_fault + mdb_page" where
  "copy_head dst src n = ebind (rd_bytes (mp_mem src) 0 n) (\<lambda>b. ebind (wr_bytes (mp_mem dst) 0 b) (\<lambda>m.
     if n < PAGEHDRSZ then Inl Page_Bounds else Inr (src\<lparr>mp_mem := m\<rparr>)))"

definition mdb_page_copy :: "mdb_page \<Rightarrow> mdb_page \<Rightarrow> nat \<Rightarrow> mdb_fault + mdb_page" where
  "mdb_page_copy dst src psize =
     (let upper = mp_upper src; lower = mp_lower src;
          unused = align_down (indx_t (int upper - int lower))
      in if unused \<noteq> 0 \<and> \<not> IS_LEAF2 src then
           (let upper = align_down upper in
            ebind (copy_head dst src (align_down (lower + 7))) (\<lambda>dst.
            ebind (rd_bytes (mp_mem src) upper (psize - upper)) (\<lambda>b.
            ebind (wr_bytes (mp_mem dst) upper b) (\<lambda>m. Inr (dst\<lparr>mp_mem := m\<rparr>)))))
         else copy_head dst src (psize - unused))"

end
