(* ===== verification/Mdb_Node.thy ===== *)
theory Mdb_Node
  imports Mdb_Page
begin

text \<open>
  Correctness of the operations on the nodes of a page. A page is well-formed (\<open>wf_page\<close>) when its
  nodes lie in the area above \<open>mp_upper\<close> and do not overlap; \<open>page_nodes\<close> is the list of their
  bytes in the order of the index array. Adding, deleting and copying keep the page well-formed
  and act on that list as insertion, removal and identity.
\<close>

subsection \<open>Bytes of a page\<close>

definition le16 :: "byte list \<Rightarrow> nat \<Rightarrow> nat" where
  "le16 m off = unat (m ! off) + 256 * unat (m ! (off + 1))"

definition b16 :: "nat \<Rightarrow> byte list" where
  "b16 v = [word_of_nat v, word_of_nat (v div 256)]"

definition patch :: "'a list \<Rightarrow> nat \<Rightarrow> 'a list \<Rightarrow> 'a list" where
  "patch m off s = map (\<lambda>k. if off \<le> k \<and> k < off + length s then s ! (k - off) else m ! k) [0..<length m]"

named_theorems page_simps \<open>access to the bytes of a page\<close>

lemma length_patch [simp]: "length (patch m off s) = length m"
  by (simp add: patch_def)

lemma nth_patch [page_simps]:
  "k < length m \<Longrightarrow> patch m off s ! k = (if off \<le> k \<and> k < off + length s then s ! (k - off) else m ! k)"
  by (simp add: patch_def)

lemma length_b16 [simp]: "length (b16 v) = 2"
  by (simp add: b16_def)

lemma le16_less: "le16 m off < 65536"
proof -
  have "unat (m ! off) < 2 ^ LENGTH(8)" "unat (m ! (off + 1)) < 2 ^ LENGTH(8)"
    by (rule unsigned_less)+
  then show ?thesis by (simp add: le16_def)
qed

lemma le16_b16: "v < 65536 \<Longrightarrow> le16 (b16 v) 0 = v"
  by (simp add: le16_def b16_def unsigned_of_nat take_bit_eq_mod)

lemma le16_cong:
  "m ! off = m' ! off' \<Longrightarrow> m ! (off + 1) = m' ! (off' + 1) \<Longrightarrow> le16 m off = le16 m' off'"
  by (simp add: le16_def)

lemma le16_patch_in: "a \<le> off \<Longrightarrow> off + 2 \<le> a + length s \<Longrightarrow> a + length s \<le> length m \<Longrightarrow>
    le16 (patch m a s) off = le16 s (off - a)"
  by (auto simp: le16_def nth_patch Suc_diff_le)

lemma le16_patch_out: "off + 1 < length m \<Longrightarrow> off + 2 \<le> a \<or> a + length s \<le> off \<Longrightarrow>
    le16 (patch m a s) off = le16 m off"
  by (auto simp: le16_def nth_patch)

lemma rd16_in [page_simps]: "off + 1 < length m \<Longrightarrow> rd16 m off = Inr (le16 m off)"
  by (simp add: rd16_def le16_def)

lemma wr_bytes_in [page_simps]: "off + length s \<le> length m \<Longrightarrow> wr_bytes m off s = Inr (patch m off s)"
  by (auto simp: wr_bytes_def block_write_def nth_patch nth_append intro!: nth_equalityI)

lemma wr16_in [page_simps]: "off + 1 < length m \<Longrightarrow> wr16 m off v = Inr (patch m off (b16 v))"
  by (auto simp: wr16_def b16_def nth_patch nth_list_update nth_Cons' intro!: nth_equalityI)

lemma rd_bytes_in [page_simps]: "off + n \<le> length m \<Longrightarrow> rd_bytes m off n = Inr (take n (drop off m))"
  by (simp add: rd_bytes_def)

lemma patch_append: "patch (patch m a xs) (a + length xs) ys = patch m a (xs @ ys)"
  by (rule nth_equalityI) (auto simp: nth_patch nth_append)

lemma patch_prepend: "patch (patch m (a + length xs) ys) a xs = patch m a (xs @ ys)"
  by (rule nth_equalityI) (auto simp: nth_patch nth_append)

lemma patch_twice: "patch (patch m a xs) a xs' = patch m a (xs' @ drop (length xs') xs)"
  by (rule nth_equalityI) (auto simp: nth_patch nth_append)

lemma take_drop_patch: "a + length s \<le> length m \<Longrightarrow> take (length s) (drop a (patch m a s)) = s"
  by (rule nth_equalityI) (auto simp: nth_patch)

subsection \<open>Nodes of a page\<close>

definition slot :: "byte list \<Rightarrow> nat \<Rightarrow> nat" where
  "slot m i = le16 m (PAGEHDRSZ + 2 * i)"

definition node_len :: "bool \<Rightarrow> byte list \<Rightarrow> nat \<Rightarrow> nat" where
  "node_len leaf m node = EVEN (NODESIZE + le16 m (node + 6) +
     (if leaf then if odd (le16 m (node + 4)) then 8 else le16 m node + 65536 * le16 m (node + 2) else 0))"

definition node_bytes :: "bool \<Rightarrow> byte list \<Rightarrow> nat \<Rightarrow> byte list" where
  "node_bytes leaf m node = take (node_len leaf m node) (drop node m)"

definition page_nodes :: "mdb_page \<Rightarrow> byte list list" where
  "page_nodes p = map (\<lambda>i. node_bytes (IS_LEAF p) (mp_mem p) (slot (mp_mem p) i)) [0..<NUMKEYS p]"

definition slots_ok :: "bool \<Rightarrow> byte list \<Rightarrow> nat \<Rightarrow> nat \<Rightarrow> bool" where
  "slots_ok leaf m n upper \<longleftrightarrow>
     (\<forall>i<n. upper \<le> slot m i \<and> even (slot m i) \<and> slot m i + node_len leaf m (slot m i) \<le> length m) \<and>
     (\<forall>i<n. \<forall>j<n. i \<noteq> j \<longrightarrow> slot m i + node_len leaf m (slot m i) \<le> slot m j \<or>
        slot m j + node_len leaf m (slot m j) \<le> slot m i)"

definition wf_page :: "nat \<Rightarrow> mdb_page \<Rightarrow> bool" where
  "wf_page psize p \<longleftrightarrow> length (mp_mem p) = psize \<and> even psize \<and> psize \<le> 0x8000 \<and>
     PAGEHDRSZ \<le> mp_lower p \<and> even (mp_lower p) \<and> mp_lower p \<le> mp_upper p \<and> even (mp_upper p) \<and>
     mp_upper p \<le> psize \<and> \<not> IS_LEAF2 p \<and> slots_ok (IS_LEAF p) (mp_mem p) (NUMKEYS p) (mp_upper p)"

lemma node_len_ge: "NODESIZE \<le> node_len leaf m node"
  by (simp add: node_len_def EVEN_def NODESIZE_def)

lemma even_node_len: "even (node_len leaf m node)"
  by (simp add: node_len_def EVEN_def)

lemma node_len_cong:
  assumes "\<And>k. k < 8 \<Longrightarrow> m' ! (node' + k) = m ! (node + k)"
  shows "node_len leaf m' node' = node_len leaf m node"
proof -
  have "le16 m' (node' + k) = le16 m (node + k)" if "k \<le> 6" for k
    using assms [of k] assms [of "k + 1"] that by (auto simp: le16_def)
  from this [of 0] this [of 2] this [of 4] this [of 6] show ?thesis
    by (simp add: node_len_def)
qed

lemma node_bytes_cong:
  assumes "\<And>k. k < node_len leaf m node \<Longrightarrow> m' ! (node' + k) = m ! (node + k)"
    and "node + node_len leaf m node \<le> length m" and "node' + node_len leaf m node \<le> length m'"
  shows "node_len leaf m' node' = node_len leaf m node"
    and "node_bytes leaf m' node' = node_bytes leaf m node"
proof -
  have "8 \<le> node_len leaf m node"
    using node_len_ge [of leaf m node] by (simp add: NODESIZE_def)
  then show len: "node_len leaf m' node' = node_len leaf m node"
    by (intro node_len_cong assms(1)) simp
  show "node_bytes leaf m' node' = node_bytes leaf m node"
    unfolding node_bytes_def len
    by (rule nth_equalityI) (use assms in auto)
qed

lemma NUMKEYS_eq:
  "PAGEHDRSZ \<le> mp_lower p \<Longrightarrow> mp_lower p < 2 ^ 32 \<Longrightarrow> NUMKEYS p = (mp_lower p - PAGEHDRSZ) div 2"
  unfolding NUMKEYS_def PAGEHDRSZ_def by (simp add: mod_if)

lemma numkeys: "wf_page psize p \<Longrightarrow> mp_lower p = PAGEHDRSZ + 2 * NUMKEYS p"
proof -
  assume "wf_page psize p"
  then have "mp_lower p < 2 ^ 32" "PAGEHDRSZ \<le> mp_lower p" "even (mp_lower p)"
    by (auto simp: wf_page_def)
  moreover have "even PAGEHDRSZ" by (simp add: PAGEHDRSZ_def)
  ultimately show ?thesis by (simp add: NUMKEYS_eq)
qed

subsection \<open>Inserting and removing an entry of the index array\<close>

definition nodes_of :: "bool \<Rightarrow> byte list \<Rightarrow> nat \<Rightarrow> byte list list" where
  "nodes_of leaf m n = map (\<lambda>i. node_bytes leaf m (slot m i)) [0..<n]"

lemma page_nodes_of: "page_nodes p = nodes_of (IS_LEAF p) (mp_mem p) (NUMKEYS p)"
  by (simp add: page_nodes_def nodes_of_def)

lemma slots_okD:
  assumes "slots_ok leaf m n upper" and "i < n"
  shows "upper \<le> slot m i" and "even (slot m i)" and "slot m i + node_len leaf m (slot m i) \<le> length m"
    and "j < n \<Longrightarrow> i \<noteq> j \<Longrightarrow> slot m i + node_len leaf m (slot m i) \<le> slot m j \<or>
        slot m j + node_len leaf m (slot m j) \<le> slot m i"
  using assms by (auto simp: slots_ok_def)

lemma slots_insert:
  assumes ok: "slots_ok leaf m n upper" and "indx \<le> n" and len: "length m' = length m"
    and slots: "\<And>j. j \<le> n \<Longrightarrow>
      slot m' j = (if j < indx then slot m j else if j = indx then ofs else slot m (j - 1))"
    and same: "\<And>k. upper \<le> k \<Longrightarrow> k < length m \<Longrightarrow> m' ! k = m ! k"
    and new: "ofs + node_len leaf m' ofs = upper" "even ofs" "upper \<le> length m"
  shows "slots_ok leaf m' (Suc n) ofs"
    and "nodes_of leaf m' (Suc n) =
      take indx (nodes_of leaf m n) @ node_bytes leaf m' ofs # drop indx (nodes_of leaf m n)"
proof -
  define old where "old j = (if j < indx then j else j - 1)" for j
  have old: "old j < n" "slot m' j = slot m (old j)" if "j \<le> n" "j \<noteq> indx" for j
    using that assms(2) slots [OF that(1)] by (auto simp: old_def)
  have inj: "old i \<noteq> old j" if "i \<noteq> j" "i \<noteq> indx" "j \<noteq> indx" for i j
    using that by (auto simp: old_def split: if_splits)
  have keep: "node_len leaf m' (slot m i) = node_len leaf m (slot m i)"
    "node_bytes leaf m' (slot m i) = node_bytes leaf m (slot m i)" if "i < n" for i
    using slots_okD [OF ok that] len by (auto intro!: node_bytes_cong same)
  have at: "slot m' indx = ofs" using slots [OF assms(2)] by simp
  show "slots_ok leaf m' (Suc n) ofs"
    unfolding slots_ok_def
  proof (intro conjI allI impI)
    fix i assume i: "i < Suc n"
    show "ofs \<le> slot m' i" "even (slot m' i)" "slot m' i + node_len leaf m' (slot m' i) \<le> length m'"
      using slots_okD [OF ok old(1) [of i]] old [of i] keep [OF old(1) [of i]] at new i len
      by (cases "i = indx"; simp)+
  next
    fix i j assume ij: "i < Suc n" "j < Suc n" "i \<noteq> j"
    show "slot m' i + node_len leaf m' (slot m' i) \<le> slot m' j \<or>
        slot m' j + node_len leaf m' (slot m' j) \<le> slot m' i"
    proof (cases "i = indx \<or> j = indx")
      case True
      then show ?thesis
        using slots_okD(1) [OF ok old(1) [of i]] slots_okD(1) [OF ok old(1) [of j]]
          old(2) [of i] old(2) [of j] ij at new(1) by auto
    next
      case False
      then show ?thesis
        using slots_okD(4) [OF ok old(1) [of i] old(1) [of j] inj] old [of i] old [of j] keep ij by simp
    qed
  qed
  show "nodes_of leaf m' (Suc n) =
      take indx (nodes_of leaf m n) @ node_bytes leaf m' ofs # drop indx (nodes_of leaf m n)"
  proof (rule nth_equalityI)
    fix j assume "j < length (nodes_of leaf m' (Suc n))"
    then have j: "j \<le> n" by (simp add: nodes_of_def)
    show "nodes_of leaf m' (Suc n) ! j =
        (take indx (nodes_of leaf m n) @ node_bytes leaf m' ofs # drop indx (nodes_of leaf m n)) ! j"
    proof (cases "j = indx")
      case True
      then show ?thesis using at assms(2) by (simp add: nodes_of_def nth_append del: upt_Suc)
    next
      case False
      then show ?thesis
        using old [OF j False] keep(2) j assms(2)
        by (auto simp: nodes_of_def nth_append old_def nth_Cons' simp del: upt_Suc)
    qed
  qed (use assms(2) in \<open>simp add: nodes_of_def\<close>)
qed

lemma slots_remove:
  assumes ok: "slots_ok leaf m n upper" and "indx < n" and len: "length m' = length m"
    and ptr: "ptr = slot m indx" and sz: "sz = node_len leaf m ptr"
    and slots: "\<And>j. j < n - 1 \<Longrightarrow> slot m' j =
      (let s = slot m (if j < indx then j else Suc j) in if s < ptr then s + sz else s)"
    and moved: "\<And>k. upper \<le> k \<Longrightarrow> k < ptr \<Longrightarrow> m' ! (k + sz) = m ! k"
    and same: "\<And>k. ptr + sz \<le> k \<Longrightarrow> k < length m \<Longrightarrow> m' ! k = m ! k"
  shows "slots_ok leaf m' (n - 1) (upper + sz)"
    and "nodes_of leaf m' (n - 1) = take indx (nodes_of leaf m n) @ drop (Suc indx) (nodes_of leaf m n)"
proof -
  define old where "old j = (if j < indx then j else Suc j)" for j
  define sh where "sh s = (if s < ptr then s + sz else s)" for s
  have old: "old j < n" "old j \<noteq> indx" "slot m' j = sh (slot m (old j))" if "j < n - 1" for j
    using that slots [OF that] by (auto simp: old_def sh_def Let_def)
  have inj: "old i \<noteq> old j" if "i \<noteq> j" for i j
    using that by (auto simp: old_def split: if_splits)
  have apart: "slot m i + node_len leaf m (slot m i) \<le> ptr \<and> slot m i < ptr \<or> ptr + sz \<le> slot m i"
    if "i < n" "i \<noteq> indx" for i
    using slots_okD(4) [OF ok that(1) assms(2) that(2)] node_len_ge [of leaf m "slot m i"]
    by (auto simp: ptr sz NODESIZE_def)
  have bound: "ptr + sz \<le> length m"
    using slots_okD(3) [OF ok assms(2)] by (simp add: ptr sz)
  have keep: "node_len leaf m' (sh (slot m i)) = node_len leaf m (slot m i)"
    "node_bytes leaf m' (sh (slot m i)) = node_bytes leaf m (slot m i)" if i: "i < n" "i \<noteq> indx" for i
  proof -
    note lim = slots_okD(1,3) [OF ok i(1)]
    have "m' ! (sh (slot m i) + k) = m ! (slot m i + k)" if k: "k < node_len leaf m (slot m i)" for k
    proof (cases "slot m i < ptr")
      case True
      then show ?thesis
        using moved [of "slot m i + k"] apart [OF i] lim k by (simp add: sh_def add.commute add.left_commute)
    next
      case False
      then show ?thesis
        using same [of "slot m i + k"] apart [OF i] lim k by (simp add: sh_def)
    qed
    moreover have "sh (slot m i) + node_len leaf m (slot m i) \<le> length m'"
      using apart [OF i] lim bound len by (auto simp: sh_def)
    ultimately show "node_len leaf m' (sh (slot m i)) = node_len leaf m (slot m i)"
      "node_bytes leaf m' (sh (slot m i)) = node_bytes leaf m (slot m i)"
      using lim by (auto intro!: node_bytes_cong)
  qed
  have ev: "even sz" by (simp add: sz even_node_len)
  show "slots_ok leaf m' (n - 1) (upper + sz)"
    unfolding slots_ok_def
  proof (intro conjI allI impI)
    fix i assume "i < n - 1"
    note i = old [OF this]
    note lim = slots_okD(1,2,3) [OF ok i(1)]
    show "upper + sz \<le> slot m' i"
      using i(3) apart [OF i(1,2)] lim slots_okD(1) [OF ok assms(2)] ptr by (auto simp: sh_def)
    show "even (slot m' i)"
      using i(3) lim ev by (simp add: sh_def)
    show "slot m' i + node_len leaf m' (slot m' i) \<le> length m'"
      using i(3) keep [OF i(1,2)] apart [OF i(1,2)] lim bound len by (auto simp: sh_def)
  next
    fix i j assume "i < n - 1" "j < n - 1" "i \<noteq> j"
    note i = old [OF this(1)] and j = old [OF this(2)] and ne = inj [OF this(3)]
    show "slot m' i + node_len leaf m' (slot m' i) \<le> slot m' j \<or>
        slot m' j + node_len leaf m' (slot m' j) \<le> slot m' i"
      using slots_okD(4) [OF ok i(1) j(1) ne] keep(1) [OF i(1,2)] keep(1) [OF j(1,2)]
        apart [OF i(1,2)] apart [OF j(1,2)] i(3) j(3) by (auto simp: sh_def)
  qed
  show "nodes_of leaf m' (n - 1) = take indx (nodes_of leaf m n) @ drop (Suc indx) (nodes_of leaf m n)"
  proof (rule nth_equalityI)
    fix j assume "j < length (nodes_of leaf m' (n - 1))"
    then have j: "j < n - 1" by (simp add: nodes_of_def)
    then show "nodes_of leaf m' (n - 1) ! j =
        (take indx (nodes_of leaf m n) @ drop (Suc indx) (nodes_of leaf m n)) ! j"
      using old [OF j] keep(2) assms(2) by (auto simp: nodes_of_def nth_append old_def)
  qed (use assms(2) in \<open>simp add: nodes_of_def\<close>)
qed

subsection \<open>The loops over the index array\<close>

lemma slot_less: "slot m i < 65536"
  by (simp add: slot_def le16_less)

lemma mp_ptrs_in [page_simps]: "PAGEHDRSZ + 2 * i + 1 < length m \<Longrightarrow> mp_ptrs m i = Inr (slot m i)"
  by (simp add: mp_ptrs_def rd16_in slot_def)

lemma set_ptr_in [page_simps]:
  "PAGEHDRSZ + 2 * i + 1 < length m \<Longrightarrow> set_ptr m i v = Inr (patch m (PAGEHDRSZ + 2 * i) (b16 v))"
  by (simp add: set_ptr_def wr16_in)

lemma slot_set:
  assumes "PAGEHDRSZ + 2 * i + 1 < length m" and "PAGEHDRSZ + 2 * j + 1 < length m" and "v < 65536"
  shows "slot (patch m (PAGEHDRSZ + 2 * i) (b16 v)) j = (if j = i then v else slot m j)"
proof (cases "j = i")
  case True
  then show ?thesis using assms by (simp add: slot_def le16_patch_in le16_b16)
next
  case False
  then show ?thesis using assms by (auto simp: slot_def intro!: le16_patch_out)
qed

lemma ptrs_up_ok:
  assumes "PAGEHDRSZ + 2 * n + 1 < length m"
  shows "\<exists>m'. ptrs_up n indx m = Inr m' \<and> length m' = length m \<and>
    (\<forall>j. PAGEHDRSZ + 2 * j + 1 < length m \<longrightarrow>
       slot m' j = (if indx < j \<and> j \<le> n then slot m (j - 1) else slot m j)) \<and>
    (\<forall>k<length m. PAGEHDRSZ + 2 * n + 2 \<le> k \<longrightarrow> m' ! k = m ! k)"
  using assms
proof (induction n arbitrary: m)
  case 0
  then show ?case by auto
next
  case (Suc i)
  show ?case
  proof (cases "indx < Suc i")
    case True
    define m1 where "m1 = patch m (PAGEHDRSZ + 2 * Suc i) (b16 (slot m i))"
    have run: "ptrs_up (Suc i) indx m = ptrs_up i indx m1"
      using Suc.prems True by (simp add: page_simps m1_def)
    have sl: "slot m1 j = (if j = Suc i then slot m i else slot m j)"
      if "PAGEHDRSZ + 2 * j + 1 < length m" for j
      unfolding m1_def by (rule slot_set) (use Suc.prems that in \<open>auto simp: slot_less\<close>)
    have out: "m1 ! k = m ! k" if "k < length m" "PAGEHDRSZ + 2 * Suc i + 2 \<le> k" for k
      using that by (simp add: m1_def nth_patch)
    obtain m' where m': "ptrs_up i indx m1 = Inr m'" "length m' = length m1"
      "\<And>j. PAGEHDRSZ + 2 * j + 1 < length m1 \<Longrightarrow>
         slot m' j = (if indx < j \<and> j \<le> i then slot m1 (j - 1) else slot m1 j)"
      "\<And>k. k < length m1 \<Longrightarrow> PAGEHDRSZ + 2 * i + 2 \<le> k \<Longrightarrow> m' ! k = m1 ! k"
      using Suc.IH [of m1] Suc.prems by (auto simp: m1_def)
    have len: "length m1 = length m" by (simp add: m1_def)
    have "slot m' j = (if indx < j \<and> j \<le> Suc i then slot m (j - 1) else slot m j)"
      if "PAGEHDRSZ + 2 * j + 1 < length m" for j
      using m'(3) [of j] sl [of j] sl [of "j - 1"] that len True by (auto simp: le_Suc_eq)
    moreover have "m' ! k = m ! k" if "k < length m" "PAGEHDRSZ + 2 * Suc i + 2 \<le> k" for k
      using m'(4) [of k] out [OF that] that len by simp
    ultimately show ?thesis using run m'(1,2) len by auto
  qed auto
qed

lemma ptrs_del_ok:
  assumes "PAGEHDRSZ + 2 * (i + k) \<le> length m" and "j = (if i \<le> indx then i else i - 1)"
    and "indx < i + k"
  shows "\<exists>m'. ptrs_del k i j indx ptr sz m = Inr m' \<and> length m' = length m \<and>
    (\<forall>t<i + k - 1. slot m' t = (if t < j then slot m t else
       let s = slot m (if t < indx then t else Suc t) in if s < ptr then (s + sz) mod 65536 else s)) \<and>
    (\<forall>x<length m. PAGEHDRSZ + 2 * (i + k) \<le> x \<longrightarrow> m' ! x = m ! x)"
  using assms
proof (induction k arbitrary: i j m)
  case 0
  then show ?case by auto
next
  case (Suc k)
  show ?case
  proof (cases "i = indx")
    case True
    have "PAGEHDRSZ + 2 * (Suc i + k) \<le> length m" "j = (if Suc i \<le> indx then Suc i else Suc i - 1)"
      using Suc.prems True by auto
    show ?thesis
    proof (cases k)
      case 0
      then show ?thesis using True Suc.prems by auto
    next
      case (Suc k')
      then show ?thesis
        using True Suc.IH [of "Suc i" m j] Suc.prems by simp
    qed
  next
    case False
    let ?f = "\<lambda>s. if s < ptr then (s + sz) mod 65536 else s"
    define v where "v = slot m i"
    define m1 where "m1 = patch m (PAGEHDRSZ + 2 * j) (b16 (?f v))"
    have j: "j \<le> i" "Suc j = (if Suc i \<le> indx then Suc i else Suc i - 1)"
      "(if j < indx then j else Suc j) = i"
      using Suc.prems(2) False by auto
    have v: "v < 65536" by (simp add: v_def slot_less)
    have inb: "PAGEHDRSZ + 2 * j + 1 < length m" "PAGEHDRSZ + 2 * i + 1 < length m"
      using Suc.prems(1) j(1) by auto
    let ?mA = "patch m (PAGEHDRSZ + 2 * j) (b16 v)"
    have A: "slot ?mA i = v" "slot ?mA j = v"
      using slot_set [OF inb(1) inb(2) v] slot_set [OF inb(1) inb(1) v] by (auto simp: v_def)
    have "patch ?mA (PAGEHDRSZ + 2 * j) (b16 ((v + sz) mod 65536)) =
        patch m (PAGEHDRSZ + 2 * j) (b16 ((v + sz) mod 65536))"
      by (simp add: patch_twice)
    then have run: "ptrs_del (Suc k) i j indx ptr sz m = ptrs_del k (Suc i) (Suc j) indx ptr sz m1"
      using False inb A by (simp add: page_simps m1_def v_def [symmetric])
    have len: "length m1 = length m" by (simp add: m1_def)
    have sl: "slot m1 t = (if t = j then ?f v else slot m t)" if "PAGEHDRSZ + 2 * t + 1 < length m" for t
      unfolding m1_def by (rule slot_set) (use inb that v in auto)
    have "PAGEHDRSZ + 2 * (Suc i + k) \<le> length m1" "indx < Suc i + k"
      using Suc.prems len by auto
    from Suc.IH [OF this(1) j(2) this(2)] obtain m' where
      m': "ptrs_del k (Suc i) (Suc j) indx ptr sz m1 = Inr m'" "length m' = length m1"
      "\<And>t. t < Suc i + k - 1 \<Longrightarrow> slot m' t = (if t < Suc j then slot m1 t else
         let s = slot m1 (if t < indx then t else Suc t) in ?f s)"
      "\<And>x. x < length m1 \<Longrightarrow> PAGEHDRSZ + 2 * (Suc i + k) \<le> x \<Longrightarrow> m' ! x = m1 ! x"
      by blast
    have "slot m' t = (if t < j then slot m t else
         let s = slot m (if t < indx then t else Suc t) in ?f s)" if t: "t < i + Suc k - 1" for t
    proof -
      consider "t < j" | "t = j" | "j < t" by linarith
      then show ?thesis
      proof cases
        case 1
        then show ?thesis using m'(3) [of t] sl [of t] t Suc.prems(1) by simp
      next
        case 2
        then have "slot m' t = ?f v"
          using m'(3) [of t] sl [of t] t Suc.prems(1) by simp
        then show ?thesis unfolding 2 j(3) by (simp add: v_def Let_def)
      next
        case 3
        let ?s = "if t < indx then t else Suc t"
        have "PAGEHDRSZ + 2 * ?s + 1 < length m" "?s \<noteq> j"
          using t 3 Suc.prems(1) by auto
        then show ?thesis using m'(3) [of t] sl [of ?s] t 3 by (simp add: Let_def)
      qed
    qed
    moreover have "m' ! x = m ! x" if "x < length m" "PAGEHDRSZ + 2 * (i + Suc k) \<le> x" for x
      using m'(4) [of x] that len j(1) by (simp add: m1_def nth_patch)
    ultimately show ?thesis using run m'(1,2) len by auto
  qed
qed


subsection \<open>The contents of a node\<close>

definition node_hdr :: "nat \<Rightarrow> nat \<Rightarrow> nat \<Rightarrow> nat \<Rightarrow> byte list" where
  "node_hdr lo hi fl ks = b16 lo @ b16 hi @ b16 fl @ b16 ks"

lemma length_node_hdr [simp]: "length (node_hdr lo hi fl ks) = 8"
  by (simp add: node_hdr_def)

lemma le16_hdr:
  assumes "lo < 65536" and "hi < 65536" and "fl < 65536" and "ks < 65536"
  shows "le16 (node_hdr lo hi fl ks @ xs) 0 = lo" and "le16 (node_hdr lo hi fl ks @ xs) 2 = hi"
    and "le16 (node_hdr lo hi fl ks @ xs) 4 = fl" and "le16 (node_hdr lo hi fl ks @ xs) 6 = ks"
  using assms le16_b16 [of lo] le16_b16 [of hi] le16_b16 [of fl] le16_b16 [of ks]
  by (simp_all add: node_hdr_def b16_def le16_def)

text \<open>A leaf node with data on the page, a leaf node that refers to an overflow page, a branch node.\<close>

definition leaf_node :: "nat \<Rightarrow> nat \<Rightarrow> byte list \<Rightarrow> byte list \<Rightarrow> byte list" where
  "leaf_node fl dsz k d = node_hdr (dsz mod 2 ^ 16) (dsz div 2 ^ 16 mod 2 ^ 16) fl (length k) @ k @ d"

definition branch_node :: "nat \<Rightarrow> byte list \<Rightarrow> byte list" where
  "branch_node pgno k =
     node_hdr (pgno mod 2 ^ 16) (pgno div 2 ^ 16 mod 2 ^ 16) (pgno div 2 ^ 32 mod 2 ^ 16) (length k) @ k"

lemma node_len_leaf:
  assumes "length k < 65536" and "fl < 65536" and "dsz < 2 ^ 32"
  shows "node_len True (leaf_node fl dsz k d) 0 = EVEN (8 + length k + (if odd fl then 8 else dsz))"
proof -
  have "dsz mod 65536 + 65536 * (dsz div 65536 mod 65536) = dsz"
    using assms(3) by (simp add: mod_less less_mult_imp_div_less mult.commute)
  moreover have "dsz mod 2 ^ 16 < 65536" "dsz div 2 ^ 16 mod 2 ^ 16 < 65536" by simp_all
  ultimately show ?thesis
    using assms(1,2) unfolding leaf_node_def node_len_def add_0
    by (simp add: le16_hdr NODESIZE_def)
qed

lemma node_len_branch:
  "length k < 65536 \<Longrightarrow> node_len False (branch_node pgno k) 0 = EVEN (8 + length k)"
  unfolding branch_node_def node_len_def add_0 by (simp add: le16_hdr NODESIZE_def)

subsection \<open>Adding\<close>

lemma IS_LEAF_update [simp]:
  "IS_LEAF (p\<lparr>mp_upper := u\<rparr>) = IS_LEAF p" "IS_LEAF (p\<lparr>mp_lower := l\<rparr>) = IS_LEAF p"
  "IS_LEAF (p\<lparr>mp_mem := m\<rparr>) = IS_LEAF p" "IS_LEAF2 (p\<lparr>mp_upper := u\<rparr>) = IS_LEAF2 p"
  "IS_LEAF2 (p\<lparr>mp_lower := l\<rparr>) = IS_LEAF2 p" "IS_LEAF2 (p\<lparr>mp_mem := m\<rparr>) = IS_LEAF2 p"
  by (simp_all add: IS_LEAF_def IS_LEAF2_def)

lemma indx_t_small: "0 \<le> x \<Longrightarrow> x < 65536 \<Longrightarrow> indx_t x = nat x"
  by (simp add: indx_t_def)

lemma sizeleft: "wf_page psize p \<Longrightarrow> SIZELEFT p = mp_upper p - mp_lower p"
  by (simp add: SIZELEFT_def wf_page_def indx_t_small nat_diff_distrib of_nat_diff)

lemma add_core:
  assumes wf: "wf_page psize p" and indx: "indx \<le> NUMKEYS p"
    and room: "mp_lower p + 2 \<le> ofs" and size: "ofs + node_len (IS_LEAF p) node 0 = mp_upper p"
    and fits: "8 \<le> length node" "length node \<le> node_len (IS_LEAF p) node 0"
  shows "\<exists>m0 m1 p' pad. ptrs_up (NUMKEYS p) indx (mp_mem p) = Inr m0 \<and> set_ptr m0 indx ofs = Inr m1 \<and>
    length m1 = psize \<and> slot m1 indx = ofs \<and>
    p' = p\<lparr>mp_upper := ofs, mp_lower := mp_lower p + 2, mp_mem := patch m1 ofs node\<rparr> \<and>
    wf_page psize p' \<and> length pad = node_len (IS_LEAF p) node 0 - length node \<and>
    page_nodes p' = take indx (page_nodes p) @ (node @ pad) # drop indx (page_nodes p)"
proof -
  let ?m = "mp_mem p" and ?n = "NUMKEYS p" and ?leaf = "IS_LEAF p"
  have len: "length ?m = psize" "psize \<le> 0x8000" "mp_upper p \<le> psize" "even psize"
    and ok: "slots_ok ?leaf ?m ?n (mp_upper p)" and low: "mp_lower p = PAGEHDRSZ + 2 * ?n"
    using wf numkeys [OF wf] by (auto simp: wf_page_def)
  have in_n: "PAGEHDRSZ + 2 * ?n + 1 < length ?m" using low room size len by linarith
  obtain m0 where m0: "ptrs_up ?n indx ?m = Inr m0" "length m0 = length ?m"
    "\<And>j. PAGEHDRSZ + 2 * j + 1 < length ?m \<Longrightarrow>
       slot m0 j = (if indx < j \<and> j \<le> ?n then slot ?m (j - 1) else slot ?m j)"
    "\<And>k. k < length ?m \<Longrightarrow> PAGEHDRSZ + 2 * ?n + 2 \<le> k \<Longrightarrow> m0 ! k = ?m ! k"
    using ptrs_up_ok [OF in_n] by blast
  define m1 where "m1 = patch m0 (PAGEHDRSZ + 2 * indx) (b16 ofs)"
  define m' where "m' = patch m1 ofs node"
  have in_i: "PAGEHDRSZ + 2 * indx + 1 < length m0" using in_n indx m0(2) by linarith
  have ofs: "ofs < 65536" "ofs + length node \<le> length m1"
    using size fits len m0(2) by (simp_all add: m1_def)
  have st: "set_ptr m0 indx ofs = Inr m1" using in_i by (simp add: set_ptr_in m1_def)
  have sl1: "slot m1 j = (if j < indx then slot ?m j else if j = indx then ofs else slot ?m (j - 1))"
    if "j \<le> ?n" for j
    using slot_set [OF in_i, of j ofs] m0(2) m0(3) [of j] that in_n ofs(1) by (auto simp: m1_def)
  have "slot m' j = slot m1 j" if "j \<le> ?n" for j
    unfolding m'_def slot_def
    by (rule le16_patch_out) (use that in_n low room m0(2) in \<open>auto simp: m1_def\<close>)
  then have slots: "slot m' j = (if j < indx then slot ?m j else if j = indx then ofs else slot ?m (j - 1))"
    if "j \<le> ?n" for j using sl1 that by simp
  have nl: "node_len ?leaf m' ofs = node_len ?leaf node 0"
    by (rule node_len_cong) (use fits ofs in \<open>simp add: m'_def nth_patch\<close>)
  have same: "m' ! k = ?m ! k" if "mp_upper p \<le> k" "k < length ?m" for k
    using that size fits(2) room low indx m0(2) m0(4) [of k]
    by (simp add: m'_def m1_def nth_patch)
  have "even (mp_upper p)" using wf by (simp add: wf_page_def)
  then have ev: "even ofs" using size even_node_len [of ?leaf node 0] by (metis even_add)
  have lm: "length m' = length ?m" using m0(2) by (simp add: m'_def m1_def)
  have upl: "mp_upper p \<le> length ?m" using len by simp
  have size': "ofs + node_len ?leaf m' ofs = mp_upper p" using size nl by simp
  have ins: "slots_ok ?leaf m' (Suc ?n) ofs"
    "nodes_of ?leaf m' (Suc ?n) =
      take indx (nodes_of ?leaf ?m ?n) @ node_bytes ?leaf m' ofs # drop indx (nodes_of ?leaf ?m ?n)"
    by (rule slots_insert [OF ok indx lm _ _ size' ev upl]; simp add: slots same)+
  define p' where "p' = p\<lparr>mp_upper := ofs, mp_lower := mp_lower p + 2, mp_mem := m'\<rparr>"
  have nk: "NUMKEYS p' = Suc ?n"
    using low len in_n NUMKEYS_eq [of p'] by (simp add: p'_def)
  have wf': "wf_page psize p'"
    using ins(1) wf nk room lm size ev unfolding wf_page_def by (simp add: p'_def)
  define pad where "pad = take (node_len ?leaf node 0 - length node) (drop (ofs + length node) m')"
  have "take (node_len ?leaf node 0) (drop ofs m') =
      take (length node) (drop ofs m') @ pad"
    using take_add [of "length node" "node_len ?leaf node 0 - length node" "drop ofs m'"] fits(2)
    by (simp add: pad_def add.commute)
  then have nb: "node_bytes ?leaf m' ofs = node @ pad"
    using take_drop_patch [OF ofs(2)] nl by (simp add: node_bytes_def m'_def)
  have "page_nodes p' = take indx (page_nodes p) @ (node @ pad) # drop indx (page_nodes p)"
    using ins(2) nb nk len by (simp add: page_nodes_of p'_def)
  moreover have "length pad = node_len ?leaf node 0 - length node"
    using size fits len lm by (simp add: pad_def)
  ultimately show ?thesis
    using m0(1) st wf' sl1 [OF indx] m0(2) len(1) by (auto simp: p'_def m'_def m1_def)
qed

lemma patch_hdr:
  "patch (patch (patch (patch m (a + 6) (b16 ks)) (a + 4) (b16 fl)) a (b16 lo)) (a + 2) (b16 hi) =
     patch m a (node_hdr lo hi fl ks)"
proof -
  have e: "a + 4 + length (b16 fl) = a + 6" "a + length (b16 lo) = a + 2"
    "a + length (b16 lo @ b16 hi) = a + 4" by simp_all
  show ?thesis
    using patch_prepend [of m "a + 4" "b16 fl" "b16 ks"] patch_append [of _ a "b16 lo" "b16 hi"]
      patch_prepend [of m a "b16 lo @ b16 hi" "b16 fl @ b16 ks"]
    unfolding e by (simp add: node_hdr_def)
qed

lemma patch_hdr_top:
  "patch (patch m a (node_hdr lo hi fl ks)) (a + 4) (b16 tp) = patch m a (node_hdr lo hi tp ks)"
proof -
  have "patch (patch m a (node_hdr lo hi fl ks)) (a + 4) (b16 tp) =
      patch (patch (patch m a (b16 lo @ b16 hi)) (a + 4) (b16 fl @ b16 ks)) (a + 4) (b16 tp)"
    using patch_append [of m a "b16 lo @ b16 hi" "b16 fl @ b16 ks"] by (simp add: node_hdr_def)
  also have "\<dots> = patch (patch m a (b16 lo @ b16 hi)) (a + 4) (b16 tp @ b16 ks)"
    by (simp add: patch_twice)
  also have "\<dots> = patch m a (node_hdr lo hi tp ks)"
    using patch_append [of m a "b16 lo @ b16 hi" "b16 tp @ b16 ks"] by (simp add: node_hdr_def)
  finally show ?thesis .
qed

lemma SETDSZ_hdr:
  assumes "a + 8 \<le> length m"
  shows "SETDSZ (patch (patch m (a + 6) (b16 ks)) (a + 4) (b16 fl)) a dsz =
    Inr (patch m a (node_hdr (dsz mod 2 ^ 16) (dsz div 2 ^ 16 mod 2 ^ 16) fl ks))"
  using assms by (simp add: SETDSZ_def wr16_in patch_hdr del: add_2_eq_Suc')

lemma SETPGNO_hdr:
  assumes "a + 8 \<le> length m"
  shows "SETPGNO (patch (patch m (a + 6) (b16 ks)) (a + 4) (b16 fl)) a pgno =
    Inr (patch m a (node_hdr (pgno mod 2 ^ 16) (pgno div 2 ^ 16 mod 2 ^ 16) (pgno div 2 ^ 32 mod 2 ^ 16) ks))"
  using assms by (simp add: SETPGNO_def wr16_in patch_hdr patch_hdr_top del: add_2_eq_Suc')

lemma patch_key:
  "patch (patch m a (node_hdr lo hi fl ks)) (a + NODESIZE) kb = patch m a (node_hdr lo hi fl ks @ kb)"
  using patch_append [of m a "node_hdr lo hi fl ks" kb] by (simp add: NODESIZE_def)

text \<open>A value whose size is the number of bytes at its address.\<close>

definition whole :: "mdb_val \<Rightarrow> bool" where
  "whole v \<longleftrightarrow> length (mv_data v) = mv_size v"

lemma val_bytes_whole [page_simps]: "whole v \<Longrightarrow> val_bytes v (mv_size v) = Inr (mv_data v)"
  by (simp add: val_bytes_def rd_bytes_def whole_def)

lemma node_update_leaf:
  assumes wf: "wf_page psize p" and p: "mc_pg mc = p" "IS_LEAF p" "indx \<le> NUMKEYS p"
    and key: "whole k" "mv_size k < 65536" and data: "mv_size d < 2 ^ 32"
    and sz: "sz = EVEN (8 + mv_size k + (if odd (unat flags) then 8 else mv_size d))"
    and room: "mp_lower p + 2 + sz \<le> mp_upper p" and fits: "8 + mv_size k + length dat \<le> sz"
    and wd: "\<And>m node. length m = psize \<Longrightarrow> node + sz \<le> psize \<Longrightarrow> write_data m node flags k d ofp =
      ebind (wr_bytes m (node + NODESIZE + mv_size k) dat) (\<lambda>m. Inr (m, ofp', res))"
  shows "\<exists>p' pad. node_update mc indx (Some k) (Some d) pgno flags ofp sz =
      Inr (0, mc\<lparr>mc_pg := p'\<rparr>, ofp', res) \<and> wf_page psize p' \<and>
      length pad = sz - (8 + mv_size k + length dat) \<and>
      page_nodes p' = take indx (page_nodes p) @
        (leaf_node (unat flags mod 2 ^ 16) (mv_size d) (mv_data k) dat @ pad) # drop indx (page_nodes p)"
proof -
  let ?fl = "unat flags mod 2 ^ 16" and ?kb = "mv_data k"
  define node where "node = leaf_node ?fl (mv_size d) ?kb dat"
  define ofs where "ofs = mp_upper p - sz"
  have kb: "length ?kb = mv_size k" using key(1) by (simp add: whole_def)
  have "odd ?fl = odd (unat flags)" by (simp add: even_mod_2_iff dvd_mod_iff)
  then have nl: "node_len True node 0 = sz"
    using key(2) data kb by (simp add: node_def node_len_leaf sz)
  have ln: "length node = 8 + mv_size k + length dat" by (simp add: node_def leaf_node_def kb)
  have pre: "mp_lower p + 2 \<le> ofs" "ofs + node_len (IS_LEAF p) node 0 = mp_upper p" "8 \<le> length node"
    "length node \<le> node_len (IS_LEAF p) node 0"
    using nl ln p(2) room fits by (simp_all add: ofs_def)
  obtain m0 m1 p' pad where core: "ptrs_up (NUMKEYS p) indx (mp_mem p) = Inr m0"
    "set_ptr m0 indx ofs = Inr m1" "length m1 = psize" "slot m1 indx = ofs"
    "p' = p\<lparr>mp_upper := ofs, mp_lower := mp_lower p + 2, mp_mem := patch m1 ofs node\<rparr>"
    "wf_page psize p'" "length pad = sz - length node"
    "page_nodes p' = take indx (page_nodes p) @ (node @ pad) # drop indx (page_nodes p)"
    using add_core [OF wf p(3) pre] nl p(2) by auto
  have lim: "mp_upper p \<le> psize" "psize \<le> 0x8000" "mp_lower p = PAGEHDRSZ + 2 * NUMKEYS p"
    using wf numkeys [OF wf] by (auto simp: wf_page_def)
  have ofs: "indx_t (int (mp_upper p) - int sz) = ofs" "indx_t (int (mp_lower p) + 2) = mp_lower p + 2"
    "\<not> ofs < mp_lower p + 2" "ofs + sz \<le> psize"
    using room lim by (simp_all add: ofs_def indx_t_small nat_diff_distrib)
  have at: "mp_ptrs m1 indx = Inr ofs"
    using p(3) lim room core(3,4) by (simp add: mp_ptrs_in)
  have b: "ofs + 8 + mv_size k + length dat \<le> length m1"
    using ofs(4) fits core(3) by simp
  have w: "wr16 m1 (ofs + 6) v = Inr (patch m1 (ofs + 6) (b16 v))"
    "wr16 (patch m1 (ofs + 6) x) (ofs + 4) v = Inr (patch (patch m1 (ofs + 6) x) (ofs + 4) (b16 v))" for v x
    using b by (simp_all add: wr16_in)
  have "wr_bytes (patch m1 ofs (node_hdr lo hi fl ks)) (ofs + NODESIZE) ?kb =
      Inr (patch m1 ofs (node_hdr lo hi fl ks @ ?kb))" for lo hi fl ks
    using b kb by (simp add: wr_bytes_in patch_key NODESIZE_def [symmetric])
  moreover have "wr_bytes (patch m1 ofs (node_hdr lo hi fl ks @ ?kb)) (ofs + NODESIZE + mv_size k) dat =
      Inr (patch m1 ofs (node_hdr lo hi fl ks @ ?kb @ dat))" for lo hi fl ks
    using b kb patch_append [of m1 ofs "node_hdr lo hi fl ks @ ?kb" dat]
    by (simp add: wr_bytes_in NODESIZE_def add.assoc)
  ultimately have "node_update mc indx (Some k) (Some d) pgno flags ofp sz =
      Inr (0, mc\<lparr>mc_pg := p'\<rparr>, ofp', res)"
    using core(1-3) at w b SETDSZ_hdr [of ofs m1] wd ofs p key kb
    by (simp add: node_update_def Let_def ksize_of_def val_bytes_whole core(5) node_def leaf_node_def)
  then show ?thesis using core(6-8) ln by (auto simp: node_def)
qed


lemma node_update_branch:
  assumes wf: "wf_page psize p" and p: "mc_pg mc = p" "\<not> IS_LEAF p" "indx \<le> NUMKEYS p"
    and key: "\<And>k. key = Some k \<Longrightarrow> whole k" "ksize_of key < 65536"
    and sz: "sz = EVEN (8 + ksize_of key)" and room: "mp_lower p + 2 + sz \<le> mp_upper p"
    and kb: "kb = (case key of None \<Rightarrow> [] | Some k \<Rightarrow> mv_data k)"
  shows "\<exists>p' pad. node_update mc indx key data pgno flags ofp sz =
      Inr (0, mc\<lparr>mc_pg := p'\<rparr>, None, No_Reserve) \<and> wf_page psize p' \<and>
      length pad = sz - (8 + ksize_of key) \<and>
      page_nodes p' = take indx (page_nodes p) @ (branch_node pgno kb @ pad) # drop indx (page_nodes p)"
proof -
  define node where "node = branch_node pgno kb"
  define ofs where "ofs = mp_upper p - sz"
  have kl: "length kb = ksize_of key"
    using key(1) kb by (auto simp: whole_def ksize_of_def split: option.splits)
  then have nl: "node_len False node 0 = sz"
    using key(2) by (simp add: node_def node_len_branch sz)
  have ln: "length node = 8 + ksize_of key" by (simp add: node_def branch_node_def kl)
  have szb: "8 + ksize_of key \<le> sz" by (simp add: sz EVEN_def)
  have pre: "mp_lower p + 2 \<le> ofs" "ofs + node_len (IS_LEAF p) node 0 = mp_upper p" "8 \<le> length node"
    "length node \<le> node_len (IS_LEAF p) node 0"
    using nl ln p(2) room szb by (simp_all add: ofs_def)
  obtain m0 m1 p' pad where core: "ptrs_up (NUMKEYS p) indx (mp_mem p) = Inr m0"
    "set_ptr m0 indx ofs = Inr m1" "length m1 = psize" "slot m1 indx = ofs"
    "p' = p\<lparr>mp_upper := ofs, mp_lower := mp_lower p + 2, mp_mem := patch m1 ofs node\<rparr>"
    "wf_page psize p'" "length pad = sz - length node"
    "page_nodes p' = take indx (page_nodes p) @ (node @ pad) # drop indx (page_nodes p)"
    using add_core [OF wf p(3) pre] nl p(2) by auto
  have lim: "mp_upper p \<le> psize" "psize \<le> 0x8000" "mp_lower p = PAGEHDRSZ + 2 * NUMKEYS p"
    using wf numkeys [OF wf] by (auto simp: wf_page_def)
  have ofs: "indx_t (int (mp_upper p) - int sz) = ofs" "indx_t (int (mp_lower p) + 2) = mp_lower p + 2"
    "\<not> ofs < mp_lower p + 2" "ofs + sz \<le> psize"
    using room lim by (simp_all add: ofs_def indx_t_small nat_diff_distrib)
  have at: "mp_ptrs m1 indx = Inr ofs"
    using p(3) lim room core(3,4) by (simp add: mp_ptrs_in)
  have b: "ofs + 8 + ksize_of key \<le> length m1"
    using ofs(4) szb core(3) by simp
  have w: "wr16 m1 (ofs + 6) v = Inr (patch m1 (ofs + 6) (b16 v))"
    "wr16 (patch m1 (ofs + 6) x) (ofs + 4) v = Inr (patch (patch m1 (ofs + 6) x) (ofs + 4) (b16 v))" for v x
    using b by (simp_all add: wr16_in)
  have "(case key of None \<Rightarrow> Inr (patch m1 ofs (node_hdr lo hi fl ks))
        | Some k \<Rightarrow> ebind (val_bytes k (mv_size k)) (wr_bytes (patch m1 ofs (node_hdr lo hi fl ks)) (ofs + NODESIZE))) =
      Inr (patch m1 ofs (node_hdr lo hi fl ks @ kb))" for lo hi fl ks
    using b kb key(1) kl
    by (cases key) (simp_all add: val_bytes_whole wr_bytes_in patch_key NODESIZE_def [symmetric] ksize_of_def)
  then have "node_update mc indx key data pgno flags ofp sz = Inr (0, mc\<lparr>mc_pg := p'\<rparr>, None, No_Reserve)"
    using core(1-3) at w b SETPGNO_hdr [of ofs m1] ofs p key(2) kl
    by (simp add: node_update_def Let_def core(5) node_def branch_node_def)
  then show ?thesis using core(6-8) ln by (auto simp: node_def)
qed

lemma EVEN_add2: "EVEN (n + 2) = EVEN n + 2"
  by (simp add: EVEN_def)

lemma isset_bigdata: "F_ISSET flags F_BIGDATA \<longleftrightarrow> odd (unat flags)"
proof -
  have "bit flags 0 \<longleftrightarrow> bit (unat flags) 0"
    by (simp only: bit_unsigned_iff) simp
  then have "odd flags \<longleftrightarrow> odd (unat flags)" by (simp only: bit_0)
  then show ?thesis
    by (simp add: F_ISSET_def F_BIGDATA_def and_one_eq odd_iff_mod_2_eq_one)
qed


lemma leaf_size_inline:
  "8 + mv_size k + mv_size d \<le> nodemax \<Longrightarrow>
    mdb_leaf_size nodemax k d = EVEN (8 + mv_size k + mv_size d) + 2"
  using EVEN_add2 [of "8 + mv_size k + mv_size d"] by (simp add: mdb_leaf_size_def NODESIZE_def Let_def)

lemma node_add_leaf_run:
  assumes "wf_page (me_psize mc) (mc_pg mc)" and "IS_LEAF (mc_pg mc)"
    and "\<not> F_ISSET flags F_BIGDATA" and "8 + mv_size k + mv_size d \<le> me_nodemax mc"
  shows "mdb_node_add page_alloc mc indx (Some k) (Some d) pgno flags =
    (if mdb_leaf_size (me_nodemax mc) k d \<le> SIZELEFT (mc_pg mc)
     then node_update mc indx (Some k) (Some d) pgno flags None (EVEN (8 + mv_size k + mv_size d))
     else node_add_full mc)"
  using assms leaf_size_inline [OF assms(4)]
  by (auto simp: wf_page_def mdb_node_add_def Let_def ksize_of_def NODESIZE_def)

lemma node_add_leaf_fits:
  assumes "wf_page (me_psize mc) (mc_pg mc)" and "IS_LEAF (mc_pg mc)" and "indx \<le> NUMKEYS (mc_pg mc)"
    and "whole k" and "whole d" and "\<not> F_ISSET flags F_BIGDATA" and "\<not> F_ISSET flags MDB_RESERVE"
    and "8 + mv_size k + mv_size d \<le> me_nodemax mc" and "me_nodemax mc < 65536"
    and "mdb_leaf_size (me_nodemax mc) k d \<le> SIZELEFT (mc_pg mc)"
  shows "\<exists>p' pad. mdb_node_add page_alloc mc indx (Some k) (Some d) pgno flags =
        Inr (0, mc\<lparr>mc_pg := p'\<rparr>, None, No_Reserve) \<and> wf_page (me_psize mc) p' \<and> length pad \<le> 1 \<and>
        page_nodes p' = take indx (page_nodes (mc_pg mc)) @
          (leaf_node (unat flags mod 2 ^ 16) (mv_size d) (mv_data k) (mv_data d) @ pad) #
          drop indx (page_nodes (mc_pg mc))"
proof -
  let ?p = "mc_pg mc"
  define sz where "sz = EVEN (8 + mv_size k + mv_size d)"
  have "write_data m node flags k d None =
      ebind (wr_bytes m (node + NODESIZE + mv_size k) (mv_data d)) (\<lambda>m. Inr (m, None, No_Reserve))" for m node
    using assms(5-7) by (simp add: write_data_def Let_def val_bytes_whole)
  moreover have "8 + mv_size k + length (mv_data d) \<le> sz" "sz \<le> 8 + mv_size k + length (mv_data d) + 1"
    using assms(5) by (simp_all add: whole_def sz_def EVEN_def)
  moreover have "mp_lower ?p + 2 + sz \<le> mp_upper ?p"
    using assms(1,10) leaf_size_inline [OF assms(8)] sizeleft by (auto simp: sz_def wf_page_def)
  moreover have "even (unat flags)" using assms(6) by (simp add: isset_bigdata)
  ultimately show ?thesis
    using node_update_leaf [OF assms(1) refl assms(2,3,4), of d sz flags "mv_data d" None None No_Reserve pgno]
      assms(8,9,10) node_add_leaf_run [OF assms(1,2,6,8)] by (auto simp: sz_def)
qed

text \<open>
  C6. \<open>mdb_node_add\<close> on a leaf page with data that goes on the page. If the free space is at least
  \<open>mdb_leaf_size\<close>, the call succeeds, the page stays well-formed, and its nodes are the old ones
  with the new node, which holds the flags, the key and the data, inserted at the given index.
  Otherwise the call reports \<open>MDB_PAGE_FULL\<close>, marks the transaction as failed and leaves the
  page as it is.
\<close>

theorem mdb_node_add_leaf:
  assumes "wf_page (me_psize mc) (mc_pg mc)" and "IS_LEAF (mc_pg mc)" and "indx \<le> NUMKEYS (mc_pg mc)"
    and "whole k" and "whole d" and "\<not> F_ISSET flags F_BIGDATA" and "\<not> F_ISSET flags MDB_RESERVE"
    and "8 + mv_size k + mv_size d \<le> me_nodemax mc" and "me_nodemax mc < 65536"
  shows "if mdb_leaf_size (me_nodemax mc) k d \<le> SIZELEFT (mc_pg mc)
    then \<exists>p' pad. mdb_node_add page_alloc mc indx (Some k) (Some d) pgno flags =
        Inr (0, mc\<lparr>mc_pg := p'\<rparr>, None, No_Reserve) \<and> wf_page (me_psize mc) p' \<and> length pad \<le> 1 \<and>
        page_nodes p' = take indx (page_nodes (mc_pg mc)) @
          (leaf_node (unat flags mod 2 ^ 16) (mv_size d) (mv_data k) (mv_data d) @ pad) #
          drop indx (page_nodes (mc_pg mc))
    else mdb_node_add page_alloc mc indx (Some k) (Some d) pgno flags =
        Inr (MDB_PAGE_FULL, mc\<lparr>mt_flags := mt_flags mc OR MDB_TXN_ERROR\<rparr>, None, No_Reserve)"
  using node_add_leaf_fits [OF assms] node_add_leaf_run [OF assms(1,2,6,8)]
  by (simp add: node_add_full_def)

text \<open>
  \<open>mdb_node_add\<close> on a branch page inserts a node with the key (empty for a null key) and the
  page number at the given index. Every caller that finds \<open>mdb_branch_size\<close> bytes free
  succeeds: although that size is not rounded up, the free space of a well-formed page is even.
\<close>

theorem mdb_node_add_branch:
  assumes "wf_page (me_psize mc) (mc_pg mc)" and "\<not> IS_LEAF (mc_pg mc)" and "indx \<le> NUMKEYS (mc_pg mc)"
    and "\<And>k. key = Some k \<Longrightarrow> whole k" and "mdb_branch_size key \<le> SIZELEFT (mc_pg mc)"
  shows "\<exists>p' pad. mdb_node_add page_alloc mc indx key data pgno flags =
      Inr (0, mc\<lparr>mc_pg := p'\<rparr>, None, No_Reserve) \<and> wf_page (me_psize mc) p' \<and> length pad \<le> 1 \<and>
      page_nodes p' = take indx (page_nodes (mc_pg mc)) @
        (branch_node pgno (case key of None \<Rightarrow> [] | Some k \<Rightarrow> mv_data k) @ pad) #
        drop indx (page_nodes (mc_pg mc))"
proof -
  let ?p = "mc_pg mc"
  define sz where "sz = EVEN (8 + ksize_of key)"
  have wf: "\<not> IS_LEAF2 ?p" "mp_lower ?p \<le> mp_upper ?p" "even (mp_lower ?p)" "even (mp_upper ?p)"
    "mp_upper ?p \<le> 0x8000"
    and left: "SIZELEFT ?p = mp_upper ?p - mp_lower ?p"
    using assms(1) sizeleft by (auto simp: wf_page_def)
  have "8 + ksize_of key + 2 \<le> SIZELEFT ?p" "even (SIZELEFT ?p)"
    using assms(5) wf left by (simp_all add: mdb_branch_size_def ksize_of_def NODESIZE_def)
  then have room: "sz + 2 \<le> SIZELEFT ?p"
    unfolding sz_def EVEN_def by presburger
  have "sz \<le> 8 + ksize_of key + 1" by (simp add: sz_def EVEN_def)
  moreover have "mdb_node_add page_alloc mc indx key data pgno flags =
      node_update mc indx key data pgno flags None sz"
    using assms(2) wf room by (simp add: mdb_node_add_def Let_def NODESIZE_def sz_def)
  moreover have "mp_lower ?p + 2 + sz \<le> mp_upper ?p" "ksize_of key < 65536"
    using room left wf by (simp_all add: sz_def EVEN_def)
  ultimately show ?thesis
    using node_update_branch [OF assms(1) refl assms(2,3,4), of key sz _ data pgno flags None]
    by (auto simp: sz_def)
qed

lemma ovpages_enough: "0 < psize \<Longrightarrow> PAGEHDRSZ + n \<le> OVPAGES n psize * psize"
proof -
  assume "0 < psize"
  then have "PAGEHDRSZ - 1 + n < (PAGEHDRSZ - 1 + n) div psize * psize + psize"
    by (metis add.commute dividend_less_div_times)
  then show ?thesis by (simp add: OVPAGES_def PAGEHDRSZ_def)
qed

text \<open>
  C28. Data that would make the node larger than \<open>me_nodemax\<close> goes to overflow pages: the call
  allocates \<open>OVPAGES\<close> pages, which are enough, writes the data behind their header, and
  inserts a node with the flag \<open>F_BIGDATA\<close>, the size of the data and the number of the overflow page.
  When no page can be allocated the error is returned, and nothing of the cursor has changed but the flags of the
  transaction, which are in both cases as \<open>mdb_page_alloc\<close> leaves them.
\<close>

theorem mdb_node_add_overflow:
  assumes "wf_page (me_psize mc) (mc_pg mc)" and "IS_LEAF (mc_pg mc)" and "indx \<le> NUMKEYS (mc_pg mc)"
    and "whole k" and "whole d" and "\<not> F_ISSET flags F_BIGDATA" and "\<not> F_ISSET flags MDB_RESERVE"
    and "me_nodemax mc < 8 + mv_size k + mv_size d" and "mv_size d < 2 ^ 32"
    and "mdb_leaf_size (me_nodemax mc) k d \<le> SIZELEFT (mc_pg mc)"
    and "\<And>np fl. page_alloc (mt_flags mc) (OVPAGES (mv_size d) (me_psize mc)) = (Inr np, fl) \<Longrightarrow>
      length (mp_mem np) = OVPAGES (mv_size d) (me_psize mc) * me_psize mc"
  shows "case page_alloc (mt_flags mc) (OVPAGES (mv_size d) (me_psize mc)) of
      (Inl rc, fl) \<Rightarrow> mdb_node_add page_alloc mc indx (Some k) (Some d) pgno flags =
          Inr (rc, mc\<lparr>mt_flags := fl\<rparr>, None, No_Reserve)
    | (Inr np, fl) \<Rightarrow> \<exists>mc' ofp pad. mdb_node_add page_alloc mc indx (Some k) (Some d) pgno flags =
          Inr (0, mc', Some ofp, No_Reserve) \<and> wf_page (me_psize mc) (mc_pg mc') \<and> length pad \<le> 1 \<and>
        page_nodes (mc_pg mc') = take indx (page_nodes (mc_pg mc)) @
          (leaf_node (unat (flags OR F_BIGDATA) mod 2 ^ 16) (mv_size d) (mv_data k) (pgno_bytes (mp_pgno np)) @ pad) #
          drop indx (page_nodes (mc_pg mc)) \<and>
        take (mv_size d) (drop PAGEHDRSZ (mp_mem ofp)) = mv_data d \<and>
        md_overflow_pages (mc_db mc') = md_overflow_pages (mc_db mc) + OVPAGES (mv_size d) (me_psize mc) \<and> mt_flags mc' = fl"
proof -
  let ?p = "mc_pg mc" and ?num = "OVPAGES (mv_size d) (me_psize mc)"
  define sz where "sz = EVEN (8 + mv_size k + 8)"
  have ls: "mdb_leaf_size (me_nodemax mc) k d = sz + 2"
    using assms(8) EVEN_add2 [of "8 + mv_size k + 8"]
    by (simp add: mdb_leaf_size_def NODESIZE_def Let_def sz_def)
  have wf: "\<not> IS_LEAF2 ?p" "mp_lower ?p \<le> mp_upper ?p" "mp_upper ?p \<le> 0x8000" "0 < me_psize mc"
    and left: "SIZELEFT ?p = mp_upper ?p - mp_lower ?p"
    using assms(1) sizeleft by (auto simp: wf_page_def PAGEHDRSZ_def)
  have room: "mp_lower ?p + 2 + sz \<le> mp_upper ?p" using assms(10) ls left wf by simp
  have run: "mdb_node_add page_alloc mc indx (Some k) (Some d) pgno flags =
      (case mdb_page_new page_alloc mc P_OVERFLOW ?num of
         (Inl rc, mc) \<Rightarrow> Inr (rc, mc, None, No_Reserve)
       | (Inr ofp, mc) \<Rightarrow> node_update mc indx (Some k) (Some d) pgno (flags OR F_BIGDATA) (Some ofp) sz)"
    using assms(2,6,8,10) wf ls
    by (auto simp: mdb_node_add_def Let_def ksize_of_def NODESIZE_def sz_def split: sum.splits prod.splits)
  obtain r fl where pa: "page_alloc (mt_flags mc) ?num = (r, fl)" by fastforce
  show ?thesis
  proof (cases r)
    case (Inl rc)
    then show ?thesis using run pa by (simp add: mdb_page_new_def)
  next
    case (Inr np)
    define mc1 where "mc1 = mc\<lparr>mt_flags := fl, mc_db := (mc_db mc)\<lparr>md_overflow_pages := md_overflow_pages (mc_db mc) + ?num\<rparr>\<rparr>"
    define op where "op = np\<lparr>mp_flags := P_OVERFLOW OR P_DIRTY, mp_lower := ?num mod 2 ^ 16,
      mp_upper := ?num div 2 ^ 16 mod 2 ^ 16\<rparr>"
    define ofp where "ofp = op\<lparr>mp_mem := patch (mp_mem op) PAGEHDRSZ (mv_data d)\<rparr>"
    have new: "mdb_page_new page_alloc mc P_OVERFLOW ?num = (Inr op, mc1)"
      using Inr pa by (simp add: mdb_page_new_def Let_def IS_BRANCH_def IS_LEAF_def IS_OVERFLOW_def F_ISSET_def
          P_BRANCH_def P_LEAF_def P_OVERFLOW_def P_DIRTY_def mc1_def op_def)
    have big: "PAGEHDRSZ + length (mv_data d) \<le> length (mp_mem op)"
      using assms(5) assms(11) [of np fl] pa Inr ovpages_enough [OF wf(4), of "mv_size d"] by (simp add: op_def whole_def)
    have "F_ISSET (flags OR F_BIGDATA) F_BIGDATA"
      by (auto simp: F_ISSET_def bit_simps intro: bit_eqI)
    then have fl: "odd (unat (flags OR F_BIGDATA))" by (simp add: isset_bigdata)
    have res: "\<not> F_ISSET (flags OR F_BIGDATA) MDB_RESERVE"
      using assms(7) by (simp add: F_ISSET_def F_BIGDATA_def MDB_RESERVE_def bit.conj_disj_distrib2)
    have "write_data m node (flags OR F_BIGDATA) k d (Some op) =
        ebind (wr_bytes m (node + NODESIZE + mv_size k) (pgno_bytes (mp_pgno np)))
          (\<lambda>m. Inr (m, Some ofp, No_Reserve))" for m node
      using big assms(5) res
      by (simp add: write_data_def Let_def val_bytes_whole wr_bytes_in ofp_def op_def)
    moreover have "8 + mv_size k + length (pgno_bytes (mp_pgno np)) \<le> sz" "sz \<le> 8 + mv_size k + 8 + 1"
      by (simp_all add: sz_def EVEN_def pgno_bytes_def)
    moreover have "mv_size k < 65536" using room wf by (simp add: sz_def EVEN_def)
    moreover have "take (mv_size d) (drop PAGEHDRSZ (mp_mem ofp)) = mv_data d"
      using take_drop_patch [OF big] assms(5) by (simp add: ofp_def whole_def)
    ultimately show ?thesis
      using node_update_leaf [OF assms(1), of mc1 indx k d sz "flags OR F_BIGDATA" "pgno_bytes (mp_pgno np)" "Some op" "Some ofp" No_Reserve pgno]
        assms(2-4,9) room run new fl pa Inr
      by (auto simp: sz_def mc1_def pgno_bytes_def)
  qed
qed

subsection \<open>Deleting\<close>

lemma node_size_at_len:
  assumes "node + 8 \<le> length (mp_mem p)"
  shows "node_size_at p node = Inr (node_len (IS_LEAF p) (mp_mem p) node)"
proof -
  have "F_ISSET (word_of_nat (le16 m n) :: uint32) F_BIGDATA \<longleftrightarrow> odd (le16 m n)" for m n
    using le16_less [of m n] by (simp add: isset_bigdata unsigned_of_nat take_bit_nat_eq_self)
  then show ?thesis
    using assms
    by (simp add: node_size_at_def mn_ksize_def mn_flags_def NODEDSZ_def mn_lo_def mn_hi_def rd16_in
        node_len_def del: add_2_eq_Suc')
qed

lemma memmove_in:
  "src + n \<le> length m \<Longrightarrow> dst + n \<le> length m \<Longrightarrow> memmove m dst src n = Inr (patch m dst (take n (drop src m)))"
  by (simp add: memmove_def rd_bytes_in wr_bytes_in)

lemma del_core:
  assumes wf: "wf_page psize p" and indx: "indx < NUMKEYS p"
    and ptr: "ptr = slot (mp_mem p) indx" and sz: "sz = node_len (IS_LEAF p) (mp_mem p) ptr"
  shows "\<exists>m1 m' p'. ptrs_del (NUMKEYS p) 0 0 indx ptr sz (mp_mem p) = Inr m1 \<and>
    memmove m1 (mp_upper p + sz) (mp_upper p) (ptr - mp_upper p) = Inr m' \<and>
    p' = p\<lparr>mp_mem := m', mp_lower := mp_lower p - 2, mp_upper := mp_upper p + sz\<rparr> \<and>
    wf_page psize p' \<and>
    page_nodes p' = take indx (page_nodes p) @ drop (Suc indx) (page_nodes p)"
proof -
  let ?m = "mp_mem p" and ?n = "NUMKEYS p" and ?leaf = "IS_LEAF p" and ?up = "mp_upper p"
  have len: "length ?m = psize" "psize \<le> 0x8000" "?up \<le> psize" "even ?up"
    and ok: "slots_ok ?leaf ?m ?n ?up" and low: "mp_lower p = PAGEHDRSZ + 2 * ?n" "mp_lower p \<le> ?up"
    using wf numkeys [OF wf] by (auto simp: wf_page_def)
  note lim = slots_okD(1-3) [OF ok indx, folded ptr, folded sz]
  have "PAGEHDRSZ + 2 * (0 + ?n) \<le> length ?m" "0 = (if 0 \<le> indx then 0 else 0 - 1 :: nat)" "indx < 0 + ?n"
    using len low indx by simp_all
  from ptrs_del_ok [OF this, of ptr sz] obtain m1 where
    m1: "ptrs_del ?n 0 0 indx ptr sz ?m = Inr m1" "length m1 = length ?m"
    "\<And>t. t < ?n - 1 \<Longrightarrow> slot m1 t = (let s = slot ?m (if t < indx then t else Suc t) in
        if s < ptr then (s + sz) mod 65536 else s)"
    "\<And>x. x < length ?m \<Longrightarrow> PAGEHDRSZ + 2 * ?n \<le> x \<Longrightarrow> m1 ! x = ?m ! x"
    by auto
  define m' where "m' = patch m1 (?up + sz) (take (ptr - ?up) (drop ?up m1))"
  have mv: "memmove m1 (?up + sz) ?up (ptr - ?up) = Inr m'"
    unfolding m'_def by (rule memmove_in) (use lim m1(2) in auto)
  have lm: "length m' = length ?m" using m1(2) by (simp add: m'_def)
  have slots: "slot m' j = (let s = slot ?m (if j < indx then j else Suc j) in if s < ptr then s + sz else s)"
    if "j < ?n - 1" for j
  proof -
    have "slot m' j = slot m1 j"
      unfolding m'_def slot_def by (rule le16_patch_out) (use that low len m1(2) in auto)
    moreover have "(s + sz) mod 65536 = s + sz" if "s < ptr" for s
      using that lim len by simp
    ultimately show ?thesis using m1(3) [OF that] by (simp add: Let_def)
  qed
  have moved: "m' ! (k + sz) = ?m ! k" if "?up \<le> k" "k < ptr" for k
    using that lim low m1(2) m1(4) [of k] by (simp add: m'_def nth_patch)
  have same: "m' ! k = ?m ! k" if "ptr + sz \<le> k" "k < length ?m" for k
    using that lim low m1(2) m1(4) [of k] by (simp add: m'_def nth_patch)
  have rm: "slots_ok ?leaf m' (?n - 1) (?up + sz)"
    "nodes_of ?leaf m' (?n - 1) = take indx (nodes_of ?leaf ?m ?n) @ drop (Suc indx) (nodes_of ?leaf ?m ?n)"
    by (rule slots_remove [OF ok indx lm ptr sz]; simp add: slots moved same)+
  define p' where "p' = p\<lparr>mp_mem := m', mp_lower := mp_lower p - 2, mp_upper := ?up + sz\<rparr>"
  have nk: "NUMKEYS p' = ?n - 1"
    using low len indx NUMKEYS_eq [of p'] by (simp add: p'_def)
  have "even sz" by (simp add: sz even_node_len)
  then have "wf_page psize p'"
    using wf rm(1) nk lm lim len low indx unfolding wf_page_def by (simp add: p'_def) linarith
  then show ?thesis
    using m1(1) mv rm(2) nk by (auto simp: page_nodes_of p'_def)
qed

lemma node_del_ok:
  assumes "wf_page psize (mc_pg mc)" and "mc_ki mc < NUMKEYS (mc_pg mc)"
  shows "\<exists>p'. mdb_node_del mc ksize = Inr (mc\<lparr>mc_pg := p'\<rparr>) \<and> wf_page psize p' \<and>
    page_nodes p' = take (mc_ki mc) (page_nodes (mc_pg mc)) @ drop (Suc (mc_ki mc)) (page_nodes (mc_pg mc))"
proof -
  let ?p = "mc_pg mc"
  define ptr where "ptr = slot (mp_mem ?p) (mc_ki mc)"
  define sz where "sz = node_len (IS_LEAF ?p) (mp_mem ?p) ptr"
  have len: "length (mp_mem ?p) = psize" "psize \<le> 0x8000" "mp_lower ?p \<le> mp_upper ?p" "mp_upper ?p \<le> psize"
    "\<not> IS_LEAF2 ?p" and ok: "slots_ok (IS_LEAF ?p) (mp_mem ?p) (NUMKEYS ?p) (mp_upper ?p)"
    and low: "mp_lower ?p = PAGEHDRSZ + 2 * NUMKEYS ?p"
    using assms(1) numkeys [OF assms(1)] by (auto simp: wf_page_def)
  note lim = slots_okD(1-3) [OF ok assms(2), folded ptr_def, folded sz_def]
  have "8 \<le> sz" using node_len_ge by (simp add: sz_def NODESIZE_def)
  then have "node_size_at ?p ptr = Inr sz"
    using lim by (simp add: node_size_at_len sz_def)
  moreover have "mp_ptrs (mp_mem ?p) (mc_ki mc) = Inr ptr"
    using low len assms(2) by (simp add: mp_ptrs_in ptr_def)
  moreover have "indx_t (int (mp_lower ?p) - 2) = mp_lower ?p - 2"
    "indx_t (int (mp_upper ?p) + int sz) = mp_upper ?p + sz"
    using lim len low assms(2) by (simp_all add: indx_t_small)
  ultimately show ?thesis
    using del_core [OF assms ptr_def sz_def] lim assms(2) len(5)
    by (auto simp: mdb_node_del_def Let_def)
qed


text \<open>
  C7. \<open>mdb_node_del\<close> removes the node at the index of the cursor from a well-formed page and keeps
  all others, in their order and with their contents, although it moves them in the page to
  close the gap; the page stays well-formed, and no byte outside the page is touched.
\<close>

theorem mdb_node_del_correct:
  assumes "wf_page psize (mc_pg mc)" and "mc_ki mc < NUMKEYS (mc_pg mc)"
  shows "\<exists>p'. mdb_node_del mc ksize = Inr (mc\<lparr>mc_pg := p'\<rparr>) \<and> wf_page psize p' \<and>
    page_nodes p' = take (mc_ki mc) (page_nodes (mc_pg mc)) @ drop (Suc (mc_ki mc)) (page_nodes (mc_pg mc))"
  using assms by (rule node_del_ok)

lemma length_page_nodes [simp]: "length (page_nodes p) = NUMKEYS p"
  by (simp add: page_nodes_def)

text \<open>
  Adding a node to a leaf page and deleting it again gives back the nodes of the page.
\<close>

theorem mdb_node_add_del:
  assumes "wf_page (me_psize mc) (mc_pg mc)" and "IS_LEAF (mc_pg mc)" and "indx \<le> NUMKEYS (mc_pg mc)"
    and "whole k" and "whole d" and "\<not> F_ISSET flags F_BIGDATA" and "\<not> F_ISSET flags MDB_RESERVE"
    and "8 + mv_size k + mv_size d \<le> me_nodemax mc" and "me_nodemax mc < 65536"
    and "mdb_leaf_size (me_nodemax mc) k d \<le> SIZELEFT (mc_pg mc)"
  shows "\<exists>mc1 p'. mdb_node_add page_alloc mc indx (Some k) (Some d) pgno flags =
      Inr (0, mc1, None, No_Reserve) \<and>
    mdb_node_del (mc1\<lparr>mc_ki := indx\<rparr>) 0 = Inr (mc1\<lparr>mc_ki := indx, mc_pg := p'\<rparr>) \<and>
    wf_page (me_psize mc) p' \<and> page_nodes p' = page_nodes (mc_pg mc)"
proof -
  obtain p1 pad where add: "mdb_node_add page_alloc mc indx (Some k) (Some d) pgno flags =
        Inr (0, mc\<lparr>mc_pg := p1\<rparr>, None, No_Reserve)" "wf_page (me_psize mc) p1"
    and nodes: "page_nodes p1 = take indx (page_nodes (mc_pg mc)) @
          (leaf_node (unat flags mod 2 ^ 16) (mv_size d) (mv_data k) (mv_data d) @ pad) #
          drop indx (page_nodes (mc_pg mc))"
    using node_add_leaf_fits [OF assms] by blast
  have "NUMKEYS p1 = Suc (NUMKEYS (mc_pg mc))"
    using arg_cong [OF nodes, of length] assms(3) by simp
  then obtain p' where "mdb_node_del (mc\<lparr>mc_pg := p1, mc_ki := indx\<rparr>) 0 =
      Inr (mc\<lparr>mc_pg := p1, mc_ki := indx, mc_pg := p'\<rparr>)" "wf_page (me_psize mc) p'"
    "page_nodes p' = take indx (page_nodes p1) @ drop (Suc indx) (page_nodes p1)"
    using node_del_ok [of "me_psize mc" "mc\<lparr>mc_pg := p1, mc_ki := indx\<rparr>" 0] add(2) assms(3) by auto
  then show ?thesis
    using add(1) nodes assms(3) by (intro exI [of _ "mc\<lparr>mc_pg := p1\<rparr>"] exI [of _ p']) simp
qed

subsection \<open>Copying\<close>

lemma wf_page_transfer:
  assumes "wf_page psize p" and "length m' = psize"
    and "\<And>k. k < mp_lower p \<or> mp_upper p \<le> k \<Longrightarrow> k < psize \<Longrightarrow> m' ! k = mp_mem p ! k"
  shows "wf_page psize (p\<lparr>mp_mem := m'\<rparr>)" and "page_nodes (p\<lparr>mp_mem := m'\<rparr>) = page_nodes p"
proof -
  let ?m = "mp_mem p" and ?n = "NUMKEYS p" and ?leaf = "IS_LEAF p"
  have len: "length ?m = psize" "mp_lower p \<le> mp_upper p" "mp_upper p \<le> psize"
    and ok: "slots_ok ?leaf ?m ?n (mp_upper p)" and low: "mp_lower p = PAGEHDRSZ + 2 * ?n"
    using assms(1) numkeys [OF assms(1)] by (auto simp: wf_page_def)
  have slot: "slot m' i = slot ?m i" if "i < ?n" for i
    unfolding slot_def by (rule le16_cong; rule assms(3)) (use that low len in auto)
  have keep: "node_len ?leaf m' (slot ?m i) = node_len ?leaf ?m (slot ?m i)"
    "node_bytes ?leaf m' (slot ?m i) = node_bytes ?leaf ?m (slot ?m i)" if "i < ?n" for i
    using slots_okD [OF ok that] assms(2) len by (auto intro!: node_bytes_cong assms(3))
  have nk: "NUMKEYS (p\<lparr>mp_mem := m'\<rparr>) = ?n" by (simp add: NUMKEYS_def)
  have "slots_ok ?leaf m' ?n (mp_upper p)"
    using ok slot keep assms(2) len(1) unfolding slots_ok_def by auto
  then show "wf_page psize (p\<lparr>mp_mem := m'\<rparr>)"
    using assms(1,2) nk by (simp add: wf_page_def)
  show "page_nodes (p\<lparr>mp_mem := m'\<rparr>) = page_nodes p"
    using slot keep(2) nk by (auto simp: page_nodes_def)
qed

text \<open>
  C29. \<open>mdb_page_copy\<close> may leave out the unused middle of a page, but the copy is well-formed and
  has the same header and the same nodes.
\<close>

theorem mdb_page_copy_correct:
  assumes "wf_page psize src" and "length (mp_mem dst) = psize"
  shows "\<exists>p. mdb_page_copy dst src psize = Inr p \<and> wf_page psize p \<and> page_nodes p = page_nodes src \<and>
    p\<lparr>mp_mem := mp_mem src\<rparr> = src"
proof -
  have len: "length (mp_mem src) = psize" "PAGEHDRSZ \<le> mp_lower src" "mp_lower src \<le> mp_upper src"
    "mp_upper src \<le> psize" "psize \<le> 0x8000" "\<not> IS_LEAF2 src"
    using assms(1) by (auto simp: wf_page_def)
  define unused where "unused = mp_upper src - mp_lower src"
  have un: "indx_t (int (mp_upper src) - int (mp_lower src)) = unused"
    using len by (simp add: indx_t_small unused_def nat_diff_distrib)
  have al: "align_down n \<le> n" "n < align_down n + 8" for n
    by (simp_all add: align_down_def)
  show ?thesis
  proof (cases "align_down unused = 0")
    case True
    have "patch (mp_mem dst) 0 (take psize (mp_mem src)) = mp_mem src"
      by (rule nth_equalityI) (use assms len in \<open>auto simp: nth_patch\<close>)
    then have "mdb_page_copy dst src psize = Inr src"
      using True un len assms(2)
      by (simp add: mdb_page_copy_def Let_def copy_head_def rd_bytes_in wr_bytes_in)
    then show ?thesis using assms(1) by simp
  next
    case False
    define l where "l = align_down (mp_lower src + 7)"
    define u where "u = align_down (mp_upper src)"
    define m' where "m' = patch (patch (mp_mem dst) 0 (take l (mp_mem src))) u (drop u (mp_mem src))"
    have "8 \<le> unused" using False al [of unused] by (simp add: align_down_def)
    then have b: "mp_lower src \<le> l" "l \<le> psize" "u \<le> mp_upper src" "u \<le> psize"
      using al [of "mp_lower src + 7"] al [of "mp_upper src"] len by (auto simp: l_def u_def unused_def)
    have "mdb_page_copy dst src psize = Inr (src\<lparr>mp_mem := m'\<rparr>)"
      using False un len assms(2) b
      by (simp add: mdb_page_copy_def Let_def copy_head_def rd_bytes_in wr_bytes_in m'_def
          flip: l_def u_def)
    moreover have "m' ! k = mp_mem src ! k" if "k < mp_lower src \<or> mp_upper src \<le> k" "k < psize" for k
      using that b len assms(2) by (auto simp: m'_def nth_patch)
    ultimately show ?thesis
      using wf_page_transfer [OF assms(1), of m'] assms(2) by (auto simp: m'_def)
  qed
qed

subsection \<open>Examples\<close>

text \<open>A page of 64 bytes without nodes, one with a single node that has an empty key, and cursors on them.\<close>

definition empty_page :: "uint16 \<Rightarrow> mdb_page" where
  "empty_page flags = \<lparr>mp_pgno = 5, mp_pad = 0, mp_flags = flags, mp_lower = 16, mp_upper = 64, mp_mem = replicate 64 0\<rparr>"

definition one_page :: mdb_page where
  "one_page = \<lparr>mp_pgno = 5, mp_pad = 0, mp_flags = P_LEAF, mp_lower = 18, mp_upper = 56,
     mp_mem = replicate 16 0 @ [56, 0] @ replicate 46 0\<rparr>"

definition cursor_on :: "mdb_page \<Rightarrow> mdb_cursor" where
  "cursor_on p = \<lparr>mc_pg = p, mc_ki = 0, mc_db = \<lparr>md_pad = 0, md_branch_pages = 0, md_leaf_pages = 1, md_overflow_pages = 0\<rparr>,
     me_psize = 64, me_nodemax = 40, mt_flags = 0\<rparr>"

definition val :: "byte list \<Rightarrow> mdb_val" where
  "val bs = \<lparr>mv_size = length bs, mv_data = bs\<rparr>"

lemma cursor_on_simps [simp]:
  "mc_pg (cursor_on p) = p" "mc_ki (cursor_on p) = 0" "me_psize (cursor_on p) = 64" "me_nodemax (cursor_on p) = 40"
  by (simp_all add: cursor_on_def)

lemma val_simps [simp]: "mv_size (val bs) = length bs" "mv_data (val bs) = bs" "whole (val bs)"
  by (simp_all add: val_def whole_def)

lemma empty_page_ok:
  "wf_page 64 (empty_page P_LEAF)" "wf_page 64 (empty_page P_BRANCH)"
  "IS_LEAF (empty_page P_LEAF)" "\<not> IS_LEAF (empty_page P_BRANCH)"
  "NUMKEYS (empty_page flags) = 0" "SIZELEFT (empty_page flags) = 48"
  by (simp_all add: wf_page_def empty_page_def NUMKEYS_def SIZELEFT_def indx_t_def PAGEHDRSZ_def IS_LEAF_def
      IS_LEAF2_def F_ISSET_def P_LEAF_def P_LEAF2_def P_BRANCH_def slots_ok_def)

lemma one_page_slot: "slot (mp_mem one_page) 0 = 56" "node_len leaf (mp_mem one_page) 56 = 8"
  by (simp_all add: one_page_def slot_def le16_def node_len_def PAGEHDRSZ_def NODESIZE_def EVEN_def nth_append)

lemma one_page_keys: "NUMKEYS one_page = 1"
  by (simp add: one_page_def NUMKEYS_def PAGEHDRSZ_def)

lemma one_page_ok: "wf_page 64 one_page"
  using one_page_slot one_page_keys
  by (auto simp: wf_page_def slots_ok_def) (simp_all add: one_page_def PAGEHDRSZ_def IS_LEAF2_def F_ISSET_def P_LEAF_def P_LEAF2_def)

lemma empty_page_nodes [simp]: "page_nodes (empty_page flags) = []"
  by (simp add: page_nodes_def empty_page_ok)

lemma flags_0 [simp]: "\<not> F_ISSET 0 F_BIGDATA" "\<not> F_ISSET 0 MDB_RESERVE"
  by (simp_all add: F_ISSET_def F_BIGDATA_def MDB_RESERVE_def)

lemma leaf_size_5: "mdb_leaf_size 40 (val [1, 2]) (val [7, 8, 9]) = 16"
  by (simp add: mdb_leaf_size_def NODESIZE_def EVEN_def)

theorem mdb_node_add_leaf_witness:
  "\<exists>p' pad. mdb_node_add (\<lambda>fl n. (Inl 12, fl OR MDB_TXN_ERROR)) (cursor_on (empty_page P_LEAF)) 0 (Some (val [1, 2])) (Some (val [7, 8, 9])) 0 0 =
      Inr (0, (cursor_on (empty_page P_LEAF))\<lparr>mc_pg := p'\<rparr>, None, No_Reserve) \<and>
    page_nodes p' = [leaf_node 0 3 [1, 2] [7, 8, 9] @ pad]"
  using mdb_node_add_leaf [of "cursor_on (empty_page P_LEAF)" 0 "val [1, 2]" "val [7, 8, 9]" 0 "\<lambda>fl n. (Inl 12, fl OR MDB_TXN_ERROR)" 0]
  by (auto simp: empty_page_ok leaf_size_5 numeral_3_eq_3)

theorem mdb_node_add_branch_witness:
  "\<exists>p' pad. mdb_node_add (\<lambda>fl n. (Inl 12, fl OR MDB_TXN_ERROR)) (cursor_on (empty_page P_BRANCH)) 0 (Some (val [1, 2, 3])) None 77 0 =
      Inr (0, (cursor_on (empty_page P_BRANCH))\<lparr>mc_pg := p'\<rparr>, None, No_Reserve) \<and>
    page_nodes p' = [branch_node 77 [1, 2, 3] @ pad]"
  using mdb_node_add_branch [of "cursor_on (empty_page P_BRANCH)" 0 "Some (val [1, 2, 3])" "\<lambda>fl n. (Inl 12, fl OR MDB_TXN_ERROR)" None 77 0]
  by (auto simp: empty_page_ok mdb_branch_size_def NODESIZE_def)

theorem mdb_node_add_overflow_witness:
  "\<exists>mc' ofp. mdb_node_add (\<lambda>fl n. (Inr ((empty_page 0)\<lparr>mp_mem := replicate (n * 64) 0\<rparr>), fl)) (cursor_on (empty_page P_LEAF)) 0
      (Some (val [1, 2])) (Some (val (replicate 100 7))) 0 0 = Inr (0, mc', Some ofp, No_Reserve) \<and>
    take 100 (drop PAGEHDRSZ (mp_mem ofp)) = replicate 100 7"
proof -
  have "mdb_leaf_size 40 (val [1, 2]) (val (replicate 100 7)) \<le> 48"
    by (simp add: mdb_leaf_size_def NODESIZE_def EVEN_def)
  then show ?thesis
    using mdb_node_add_overflow [of "cursor_on (empty_page P_LEAF)" 0 "val [1, 2]" "val (replicate 100 7)" 0
        "\<lambda>fl n. (Inr ((empty_page 0)\<lparr>mp_mem := replicate (n * 64) 0\<rparr>), fl)" 0]
    by (auto simp: empty_page_ok)
qed

theorem mdb_node_del_correct_witness:
  "\<exists>p'. mdb_node_del (cursor_on one_page) 0 = Inr ((cursor_on one_page)\<lparr>mc_pg := p'\<rparr>) \<and> page_nodes p' = []"
  using mdb_node_del_correct [of 64 "cursor_on one_page" 0] by (auto simp: one_page_ok one_page_keys)

theorem mdb_node_add_del_witness:
  "\<exists>mc1 p'. mdb_node_add (\<lambda>fl n. (Inl 12, fl OR MDB_TXN_ERROR)) (cursor_on (empty_page P_LEAF)) 0 (Some (val [1, 2])) (Some (val [7, 8, 9])) 0 0 =
      Inr (0, mc1, None, No_Reserve) \<and>
    mdb_node_del (mc1\<lparr>mc_ki := 0\<rparr>) 0 = Inr (mc1\<lparr>mc_ki := 0, mc_pg := p'\<rparr>) \<and> page_nodes p' = []"
  using mdb_node_add_del [of "cursor_on (empty_page P_LEAF)" 0 "val [1, 2]" "val [7, 8, 9]" 0 "\<lambda>fl n. (Inl 12, fl OR MDB_TXN_ERROR)" 0]
  by (auto simp: empty_page_ok leaf_size_5 numeral_3_eq_3)

theorem mdb_page_copy_correct_witness:
  "\<exists>p. mdb_page_copy (empty_page 0) one_page 64 = Inr p \<and> wf_page 64 p \<and> page_nodes p = page_nodes one_page"
  using mdb_page_copy_correct [OF one_page_ok, of "empty_page 0"] by (auto simp: empty_page_def)

end
