(* ===== verification/Mdb_Search.thy ===== *)
theory Mdb_Search
  imports Mdb_Node "HOL-Library.List_Lexorder"
begin

text \<open>
  The comparison functions of keys and the binary search in a page, \<open>mdb_node_search\<close>. The
  locale \<open>key_order\<close> states what the search needs of a comparison; the comparisons of the
  program interpret it.
\<close>

subsection \<open>Comparison functions\<close>

text \<open>A key is the list of its bytes; \<open>diff\<close> is the result of \<open>memcmp\<close> for two bytes that differ.\<close>

definition mdb_cmp_memn :: "(byte \<Rightarrow> byte \<Rightarrow> int) \<Rightarrow> byte list \<Rightarrow> byte list \<Rightarrow> int" where
  "mdb_cmp_memn diff a b =
     (let len_diff = int (length a) - int (length b);
          len = (if len_diff > 0 then length b else length a) mod 2 ^ 32;
          len_diff = (if len_diff > 0 then 1 else len_diff);
          d = cmp_bytes diff (take len a) (take len b)
      in if d \<noteq> 0 then d else if len_diff < 0 then -1 else len_diff)"

text \<open>\<open>while (p1 > p1_lim)\<close>; the positions \<open>p1\<close> and \<open>p2\<close> are counted from the start of the keys.\<close>

fun memnr_loop :: "byte list \<Rightarrow> byte list \<Rightarrow> nat \<Rightarrow> nat \<Rightarrow> nat \<Rightarrow> int \<Rightarrow> int" where
  "memnr_loop a b p1 p2 lim len_diff =
     (if p1 > lim then
        (let d = uint (a ! (p1 - 1)) - uint (b ! (p2 - 1)) in
         if d \<noteq> 0 then d else memnr_loop a b (p1 - 1) (p2 - 1) lim len_diff)
      else if len_diff < 0 then -1 else len_diff)"

declare memnr_loop.simps [simp del]

definition mdb_cmp_memnr :: "byte list \<Rightarrow> byte list \<Rightarrow> int" where
  "mdb_cmp_memnr a b =
     (let len_diff = int (length a) - int (length b)
      in memnr_loop a b (length a) (length b) (if len_diff > 0 then nat len_diff else 0)
           (if len_diff > 0 then 1 else len_diff))"

text \<open>The little endian number in the first \<open>n\<close> bytes.\<close>

fun le_value :: "byte list \<Rightarrow> nat" where
  "le_value [] = 0"
| "le_value (b # bs) = unat b + 256 * le_value bs"

definition cmp_num :: "nat \<Rightarrow> byte list \<Rightarrow> byte list \<Rightarrow> mdb_fault + int" where
  "cmp_num n a b = ebind (rd_bytes a 0 n) (\<lambda>x. ebind (rd_bytes b 0 n) (\<lambda>y.
     Inr (if le_value x < le_value y then -1 else if le_value x > le_value y then 1 else 0)))"

definition mdb_cmp_long :: "byte list \<Rightarrow> byte list \<Rightarrow> mdb_fault + int" where
  "mdb_cmp_long a b = cmp_num 8 a b"

definition mdb_cmp_int :: "byte list \<Rightarrow> byte list \<Rightarrow> mdb_fault + int" where
  "mdb_cmp_int a b = cmp_num 4 a b"

text \<open>The loop reads 16 bit units from the end, both keys at the size of the first.\<close>

fun cint_loop :: "byte list \<Rightarrow> byte list \<Rightarrow> nat \<Rightarrow> mdb_fault + int" where
  "cint_loop a b u =
     (if u < 2 then Inl Page_Bounds
      else ebind (rd16 a (u - 2)) (\<lambda>x. ebind (rd16 b (u - 2)) (\<lambda>y.
        if x = y \<and> u - 2 > 0 then cint_loop a b (u - 2) else Inr (int x - int y))))"

declare cint_loop.simps [simp del]

definition mdb_cmp_cint :: "byte list \<Rightarrow> byte list \<Rightarrow> mdb_fault + int" where
  "mdb_cmp_cint a b = cint_loop a b (length a)"

datatype cmp_func =
    Cmp_memn "byte \<Rightarrow> byte \<Rightarrow> int" | Cmp_memnr | Cmp_int | Cmp_long | Cmp_cint
  | Cmp_user "byte list \<Rightarrow> byte list \<Rightarrow> int"

definition run_cmp :: "cmp_func \<Rightarrow> byte list \<Rightarrow> byte list \<Rightarrow> mdb_fault + int" where
  "run_cmp f a b = (case f of
     Cmp_memn diff \<Rightarrow> Inr (mdb_cmp_memn diff a b)
   | Cmp_memnr \<Rightarrow> Inr (mdb_cmp_memnr a b)
   | Cmp_int \<Rightarrow> mdb_cmp_int a b
   | Cmp_long \<Rightarrow> mdb_cmp_long a b
   | Cmp_cint \<Rightarrow> mdb_cmp_cint a b
   | Cmp_user g \<Rightarrow> Inr (g a b))"

subsection \<open>Search\<close>

text \<open>
  The loop, with the key of entry \<open>i\<close> given by \<open>nodekey\<close>; the result is the last index that was
  tried and the result of its comparison.
\<close>

function search_loop ::
  "(byte list \<Rightarrow> byte list \<Rightarrow> mdb_fault + int) \<Rightarrow> (nat \<Rightarrow> mdb_fault + byte list) \<Rightarrow> byte list \<Rightarrow>
    int \<Rightarrow> int \<Rightarrow> nat \<Rightarrow> int \<Rightarrow> mdb_fault + nat \<times> int" where
  "search_loop cmp nodekey key low high i rc =
     (if low \<le> high then
        (let i = nat ((low + high) div 2) in
         ebind (nodekey i) (\<lambda>nk. ebind (cmp key nk) (\<lambda>rc.
           if rc = 0 then Inr (i, rc)
           else if rc > 0 then search_loop cmp nodekey key ((low + high) div 2 + 1) high i rc
           else search_loop cmp nodekey key low ((low + high) div 2 - 1) i rc)))
      else Inr (i, rc))"
  by pat_completeness auto
termination
  by (relation "measure (\<lambda>(_, _, _, low, high, _, _). nat (high - low + 1))") auto

declare search_loop.simps [simp del]

definition node_key :: "mdb_page \<Rightarrow> nat \<Rightarrow> mdb_fault + byte list" where
  "node_key mp i = ebind (mp_ptrs (mp_mem mp) i) (NODEKEY (mp_mem mp))"

text \<open>The function that compares on this page.\<close>

definition page_cmp :: "mdb_page \<Rightarrow> cmp_func \<Rightarrow> mdb_fault + cmp_func" where
  "page_cmp mp f = (if (case f of Cmp_cint \<Rightarrow> IS_BRANCH mp | _ \<Rightarrow> False)
     then ebind (mp_ptrs (mp_mem mp) 1) (\<lambda>node. ebind (mn_ksize (mp_mem mp) node) (\<lambda>ks.
            Inr (if ks = 8 then Cmp_long else Cmp_int)))
     else Inr f)"

text \<open>
  The result is the index of the entry, if there is one, whether it matches exactly, and the cursor.
  The address the program computes for the entry behind the last one, and then discards, is left out.
\<close>

definition mdb_node_search ::
  "cmp_func \<Rightarrow> mdb_cursor \<Rightarrow> byte list \<Rightarrow> mdb_fault + nat option \<times> bool \<times> mdb_cursor" where
  "mdb_node_search md_cmp mc key = (let mp = mc_pg mc; nkeys = NUMKEYS mp in
     ebind (page_cmp mp md_cmp) (\<lambda>cmp.
     ebind (search_loop (run_cmp cmp)
              (if IS_LEAF2 mp then (\<lambda>i. LEAF2KEY (mp_mem mp) i (md_pad (mc_db mc))) else node_key mp) key
              (if IS_LEAF mp then 0 else 1) (int nkeys - 1) 0 0) (\<lambda>(i, rc).
     let i = (if rc > 0 then i + 1 else i) in
     Inr (if i \<ge> nkeys then None else Some i, rc = 0 \<and> nkeys > 0, mc\<lparr>mc_ki := i\<rparr>))))"

subsection \<open>The keys of a page\<close>

definition page_keys :: "mdb_page \<Rightarrow> byte list list" where
  "page_keys p = map (\<lambda>i. let node = slot (mp_mem p) i in
     take (le16 (mp_mem p) (node + 6)) (drop (node + NODESIZE) (mp_mem p))) [0..<NUMKEYS p]"

lemma node_key_in:
  assumes wf: "wf_page psize p" and "i < NUMKEYS p"
  shows "node_key p i = Inr (let node = slot (mp_mem p) i in
    take (le16 (mp_mem p) (node + 6)) (drop (node + NODESIZE) (mp_mem p)))"
proof -
  let ?m = "mp_mem p" and ?node = "slot (mp_mem p) i"
  have ok: "slots_ok (IS_LEAF p) ?m (NUMKEYS p) (mp_upper p)" "mp_lower p \<le> mp_upper p" "mp_upper p \<le> length ?m"
    and low: "mp_lower p = PAGEHDRSZ + 2 * NUMKEYS p"
    using wf numkeys [OF wf] by (auto simp: wf_page_def)
  have "NODESIZE + le16 ?m (?node + 6) \<le> node_len (IS_LEAF p) ?m ?node"
    unfolding node_len_def EVEN_def by simp
  then have "?node + NODESIZE + le16 ?m (?node + 6) \<le> length ?m"
    using slots_okD(3) [OF ok(1) assms(2)] by linarith
  moreover have "PAGEHDRSZ + 2 * i + 1 < length ?m" using low ok(2,3) assms(2) by linarith
  ultimately show ?thesis
    by (simp add: node_key_def mp_ptrs_in NODEKEY_def mn_ksize_def rd16_in rd_bytes_in NODESIZE_def Let_def)
qed

subsection \<open>Orders\<close>

text \<open>What the search needs of a comparison: it is total and transitive on the keys of a database.\<close>

locale key_order =
  fixes cmp :: "byte list \<Rightarrow> byte list \<Rightarrow> mdb_fault + int"
    and valid :: "byte list \<Rightarrow> bool"
  assumes total: "valid a \<Longrightarrow> valid b \<Longrightarrow> \<exists>r. cmp a b = Inr r"
    and anti: "valid a \<Longrightarrow> valid b \<Longrightarrow> cmp a b = Inr r \<Longrightarrow> \<exists>s. cmp b a = Inr s \<and> sgn s = - sgn r"
    and trans_le: "valid a \<Longrightarrow> valid b \<Longrightarrow> valid c \<Longrightarrow> cmp a b = Inr r \<Longrightarrow> r \<le> 0 \<Longrightarrow> cmp b c = Inr s \<Longrightarrow>
      s \<le> 0 \<Longrightarrow> \<exists>t\<le>0. cmp a c = Inr t"
begin

definition below :: "byte list \<Rightarrow> byte list \<Rightarrow> bool" where
  "below a b \<longleftrightarrow> (\<exists>r<0. cmp a b = Inr r)"

definition upto :: "byte list \<Rightarrow> byte list \<Rightarrow> bool" where
  "upto a b \<longleftrightarrow> (\<exists>r\<le>0. cmp a b = Inr r)"

lemma below_upto: "below a b \<Longrightarrow> upto a b"
  unfolding below_def upto_def using less_imp_le by blast

lemma below_upto_trans:
  assumes v: "valid a" "valid b" "valid c" and "below a b" and "upto b c"
  shows "below a c"
proof -
  obtain r s where r: "cmp a b = Inr r" "r < 0" and s: "cmp b c = Inr s" "s \<le> 0"
    using assms by (auto simp: below_def upto_def)
  then obtain t where t: "cmp a c = Inr t" "t \<le> 0"
    using trans_le [OF v r(1) _ s] by auto
  have "t \<noteq> 0"
  proof
    assume "t = 0"
    then have "cmp c a = Inr 0" using anti [OF v(1,3) t(1)] by (auto simp: sgn_if split: if_splits)
    then obtain q where "cmp b a = Inr q" "q \<le> 0" using trans_le [OF v(2,3,1) s] by auto
    then show False using anti [OF v(1,2) r(1)] r(2) by (auto simp: sgn_if split: if_splits)
  qed
  with t show ?thesis by (auto simp: below_def)
qed

lemma not_upto: "valid a \<Longrightarrow> valid b \<Longrightarrow> \<not> upto a b \<longleftrightarrow> below b a"
  using total [of a b] anti [of a b] anti [of b a]
  by (fastforce simp: below_def upto_def sgn_if split: if_splits)

text \<open>
  \<open>position\<close> is the index of the first of the entries from \<open>base\<close> on that is not below the key.
\<close>

definition position :: "byte list list \<Rightarrow> byte list \<Rightarrow> nat \<Rightarrow> nat \<Rightarrow> bool" where
  "position ks key base i \<longleftrightarrow> base \<le> i \<and> i \<le> length ks \<and> (\<forall>j. base \<le> j \<and> j < i \<longrightarrow> below (ks ! j) key) \<and>
     (\<forall>j. i \<le> j \<and> j < length ks \<longrightarrow> upto key (ks ! j))"

definition ordered :: "byte list list \<Rightarrow> nat \<Rightarrow> bool" where
  "ordered ks base \<longleftrightarrow> (\<forall>i j. base \<le> i \<and> i < j \<and> j < length ks \<longrightarrow> below (ks ! i) (ks ! j))"

lemma search_loop_position:
  assumes "valid key" and "\<forall>k\<in>set ks. valid k" and "ordered ks base"
    and "\<And>i. i < length ks \<Longrightarrow> nodekey i = Inr (ks ! i)"
    and "int base \<le> low" and "low \<le> high + 1" and "high < int (length ks)"
    and "\<And>j. base \<le> j \<Longrightarrow> int j < low \<Longrightarrow> below (ks ! j) key"
    and "\<And>j. high < int j \<Longrightarrow> j < length ks \<Longrightarrow> below key (ks ! j)"
    and "high < low \<Longrightarrow> low = int (if rc > 0 then i + 1 else i) \<and> rc \<noteq> 0"
  shows "\<exists>i' rc'. search_loop cmp nodekey key low high i rc = Inr (i', rc') \<and>
    position ks key base (if rc' > 0 then i' + 1 else i') \<and>
    (rc' = 0 \<longleftrightarrow> (if rc' > 0 then i' + 1 else i') < length ks \<and> cmp key (ks ! (if rc' > 0 then i' + 1 else i')) = Inr 0)"
  using assms(5-10)
proof (induction "nat (high - low + 1)" arbitrary: low high i rc rule: less_induct)
  case less
  note inv = less.prems
  show ?case
  proof (cases "low \<le> high")
    case False
    let ?p = "if rc > 0 then i + 1 else i"
    have low: "low = int ?p" "rc \<noteq> 0" "high = int ?p - 1"
      using inv(2,6) False by auto
    have "position ks key base ?p"
      using inv(1,3,4) below_upto [OF inv(5)] low by (auto simp: position_def split: if_splits)
    moreover have "\<not> (?p < length ks \<and> cmp key (ks ! ?p) = Inr 0)"
      using inv(5) [of ?p] low(3) by (auto simp: below_def)
    ultimately show ?thesis
      using False low(2) by (subst search_loop.simps) auto
  next
    case True
    define mid where "mid = (low + high) div 2"
    define m where "m = nat mid"
    have mid: "low \<le> mid" "mid \<le> high" "mid = int m" "base \<le> m" "m < length ks"
      using True inv(1,3) by (auto simp: mid_def m_def)
    have vm: "valid (ks ! m)" using mid(5) assms(2) by simp
    obtain r where r: "cmp key (ks ! m) = Inr r" using total [OF assms(1) vm] by blast
    obtain s where s: "cmp (ks ! m) key = Inr s" "sgn s = - sgn r" using anti [OF assms(1) vm r] by blast
    have lower: "below (ks ! j) key" if "base \<le> j" "j \<le> m" "r \<ge> 0" "j < m \<or> r > 0" for j
    proof (cases "j = m")
      case True
      then show ?thesis using s that by (auto simp: below_def sgn_if split: if_splits)
    next
      case False
      have "below (ks ! j) (ks ! m)" using assms(3) that False mid(5) by (auto simp: ordered_def)
      moreover have "upto (ks ! m) key" using s that by (auto simp: upto_def sgn_if split: if_splits)
      ultimately show ?thesis using below_upto_trans [of "ks ! j" "ks ! m" key] vm assms(1,2) that mid(5) by simp
    qed
    have upper: "upto key (ks ! j)" "r < 0 \<Longrightarrow> below key (ks ! j)" if "m \<le> j" "j < length ks" "r \<le> 0" for j
    proof -
      have vj: "valid (ks ! j)" using that assms(2) by simp
      have "j = m \<or> below (ks ! m) (ks ! j)"
        using assms(3) that mid(4) by (cases "j = m") (auto simp: ordered_def)
      then have mj: "j = m \<or> upto (ks ! m) (ks ! j)" by (auto simp: below_def upto_def)
      then show "upto key (ks ! j)"
        using r that trans_le [OF assms(1) vm vj r] by (auto simp: upto_def)
      show "below key (ks ! j)" if "r < 0"
        using r that mj below_upto_trans [OF assms(1) vm vj] by (auto simp: below_def)
    qed
    have step: "search_loop cmp nodekey key low high i rc =
        (if r = 0 then Inr (m, r) else if r > 0 then search_loop cmp nodekey key (mid + 1) high m r
         else search_loop cmp nodekey key low (mid - 1) m r)"
      using True assms(4) [OF mid(5)] r
      by (subst search_loop.simps) (simp add: Let_def flip: mid_def m_def)
    consider "r = 0" | "r > 0" | "r < 0" by linarith
    then show ?thesis
    proof cases
      case 1
      have "position ks key base m"
        using lower upper(1) 1 mid(4,5) by (auto simp: position_def)
      then show ?thesis using step 1 r mid(5) by auto
    next
      case 2
      have "\<exists>i' rc'. search_loop cmp nodekey key (mid + 1) high m r = Inr (i', rc') \<and>
        position ks key base (if rc' > 0 then i' + 1 else i') \<and>
        (rc' = 0 \<longleftrightarrow> (if rc' > 0 then i' + 1 else i') < length ks \<and>
          cmp key (ks ! (if rc' > 0 then i' + 1 else i')) = Inr 0)"
        by (rule less.hyps) (use mid inv 2 lower in auto)
      then show ?thesis using step 2 by simp
    next
      case 3
      have "\<exists>i' rc'. search_loop cmp nodekey key low (mid - 1) m r = Inr (i', rc') \<and>
        position ks key base (if rc' > 0 then i' + 1 else i') \<and>
        (rc' = 0 \<longleftrightarrow> (if rc' > 0 then i' + 1 else i') < length ks \<and>
          cmp key (ks ! (if rc' > 0 then i' + 1 else i')) = Inr 0)"
        by (rule less.hyps) (use mid inv 3 upper(2) in auto)
      then show ?thesis using step 3 by simp
    qed
  qed
qed

lemma node_search_position:
  assumes wf: "wf_page psize (mc_pg mc)" and cmp: "page_cmp (mc_pg mc) f = Inr g" "run_cmp g = cmp"
    and ks: "ks = page_keys (mc_pg mc)" and base: "base = (if IS_LEAF (mc_pg mc) then 0 else 1)"
    and "valid key" and "\<forall>k\<in>set ks. valid k" and "ordered ks base"
    and "base < length ks \<or> ks = [] \<and> base = 0"
  shows "\<exists>i ex. mdb_node_search f mc key =
      Inr (if i < length ks then Some i else None, ex, mc\<lparr>mc_ki := i\<rparr>) \<and>
    position ks key base i \<and> (ex \<longleftrightarrow> i < length ks \<and> cmp key (ks ! i) = Inr 0)"
proof -
  have leaf2: "\<not> IS_LEAF2 (mc_pg mc)" using wf by (simp add: wf_page_def)
  have len: "length ks = NUMKEYS (mc_pg mc)" by (simp add: ks page_keys_def)
  have nk: "node_key (mc_pg mc) i = Inr (ks ! i)" if "i < length ks" for i
    using node_key_in [OF wf] that by (simp add: ks page_keys_def)
  show ?thesis
  proof (cases "base < length ks")
    case False
    then have "ks = []" "base = 0" using assms(9) by auto
    then show ?thesis
      using leaf2 len cmp base
      by (intro exI [of _ 0] exI [of _ False])
        (simp add: mdb_node_search_def Let_def search_loop.simps position_def split: if_splits)
  next
    case True
    have "\<exists>i' rc'. search_loop cmp (node_key (mc_pg mc)) key (int base) (int (length ks) - 1) 0 0 = Inr (i', rc') \<and>
      position ks key base (if rc' > 0 then i' + 1 else i') \<and>
      (rc' = 0 \<longleftrightarrow> (if rc' > 0 then i' + 1 else i') < length ks \<and>
         cmp key (ks ! (if rc' > 0 then i' + 1 else i')) = Inr 0)"
      by (rule search_loop_position) (use assms(6-8) nk True in auto)
    then obtain i' rc' where loop:
      "search_loop cmp (node_key (mc_pg mc)) key (int base) (int (length ks) - 1) 0 0 = Inr (i', rc')"
      "position ks key base (if rc' > 0 then i' + 1 else i')"
      "rc' = 0 \<longleftrightarrow> (if rc' > 0 then i' + 1 else i') < length ks \<and>
         cmp key (ks ! (if rc' > 0 then i' + 1 else i')) = Inr 0"
      by blast
    have b: "(if IS_LEAF (mc_pg mc) then 0 else 1) = int base" by (simp add: base)
    have "0 < length ks" using True by linarith
    then have "mdb_node_search f mc key =
        Inr (if (if rc' > 0 then i' + 1 else i') < length ks then Some (if rc' > 0 then i' + 1 else i') else None,
             rc' = 0, mc\<lparr>mc_ki := (if rc' > 0 then i' + 1 else i')\<rparr>)"
      using leaf2 cmp loop(1) unfolding mdb_node_search_def Let_def b len [symmetric]
      by (simp add: not_le)
    then show ?thesis using loop(2,3) by blast
  qed
qed

end


subsection \<open>The comparison functions are orders\<close>

lemma key_orderI:
  fixes f :: "byte list \<Rightarrow> 'b::linorder"
  assumes "\<And>a b. valid a \<Longrightarrow> valid b \<Longrightarrow> \<exists>r. cmp a b = Inr r \<and> (r < 0 \<longleftrightarrow> f a < f b) \<and> (r = 0 \<longleftrightarrow> f a = f b)"
  shows "key_order cmp valid"
proof
  fix a b assume "valid a" "valid b"
  then show "\<exists>r. cmp a b = Inr r" using assms by blast
next
  fix a b r assume "valid a" "valid b" "cmp a b = Inr r"
  then obtain s where "r < 0 \<longleftrightarrow> f a < f b" "r = 0 \<longleftrightarrow> f a = f b"
    and s: "cmp b a = Inr s" "s < 0 \<longleftrightarrow> f b < f a" "s = 0 \<longleftrightarrow> f b = f a"
    using assms [of a b] assms [of b a] by auto
  then have "r < 0 \<and> s > 0 \<or> r = 0 \<and> s = 0 \<or> r > 0 \<and> s < 0"
    by (metis linorder_less_linear order_less_asym)
  then show "\<exists>s. cmp b a = Inr s \<and> sgn s = - sgn r"
    using s(1) by auto
next
  fix a b c r s
  assume v: "valid a" "valid b" "valid c" and "cmp a b = Inr r" "r \<le> 0" "cmp b c = Inr s" "s \<le> 0"
  then have "f a \<le> f b" "f b \<le> f c"
    using assms [OF v(1,2)] assms [OF v(2,3)] by (auto simp: order.order_iff_strict)
  then have "f a \<le> f c" by (rule order_trans)
  then show "\<exists>t\<le>0. cmp a c = Inr t"
    using assms [OF v(1,3)] by (auto simp: order.order_iff_strict)
qed

lemma cmp_bytes_take: "n = min (length a) (length b) \<Longrightarrow> cmp_bytes diff (take n a) (take n b) = cmp_bytes diff a b"
  by (induction diff a b arbitrary: n rule: cmp_bytes.induct) auto

lemma memn_eq:
  assumes "length a < 2 ^ 32" and "length b < 2 ^ 32"
  shows "mdb_cmp_memn diff a b =
    (if cmp_bytes diff a b \<noteq> 0 then cmp_bytes diff a b else sgn (int (length a) - int (length b)))"
proof -
  have len: "(if int (length a) - int (length b) > 0 then length b else length a) mod 2 ^ 32 =
      min (length a) (length b)"
    using assms by auto
  show ?thesis
    unfolding mdb_cmp_memn_def Let_def len cmp_bytes_take [OF refl] by (simp add: sgn_if)
qed

definition lex_cmp :: "(byte \<Rightarrow> byte \<Rightarrow> int) \<Rightarrow> byte list \<Rightarrow> byte list \<Rightarrow> int" where
  "lex_cmp diff a b =
     (if cmp_bytes diff a b \<noteq> 0 then cmp_bytes diff a b else sgn (int (length a) - int (length b)))"

lemma lex_cmp_simps:
  "lex_cmp diff [] [] = 0" "lex_cmp diff [] (y # ys) = -1" "lex_cmp diff (x # xs) [] = 1"
  "sign_law diff \<Longrightarrow> lex_cmp diff (x # xs) (y # ys) = (if x = y then lex_cmp diff xs ys else diff x y)"
  using sign_lawD(1) [of diff x y] by (auto simp: lex_cmp_def)

lemma lex_cmp_less: "sign_law diff \<Longrightarrow> lex_cmp diff a b < 0 \<longleftrightarrow> a < b"
proof (induction a arbitrary: b)
  case Nil
  then show ?case by (cases b) (simp_all add: lex_cmp_simps)
next
  case (Cons x a)
  then show ?case by (cases b) (auto simp: lex_cmp_simps sign_lawD)
qed

lemma lex_cmp_eq: "sign_law diff \<Longrightarrow> lex_cmp diff a b = 0 \<longleftrightarrow> a = b"
proof (induction a arbitrary: b)
  case Nil
  then show ?case by (cases b) (simp_all add: lex_cmp_simps)
next
  case (Cons x a)
  then show ?case by (cases b) (auto simp: lex_cmp_simps sign_lawD)
qed

lemma mdb_cmp_memn_lex:
  assumes "sign_law diff" and "length a < 2 ^ 32" and "length b < 2 ^ 32"
  shows "mdb_cmp_memn diff a b < 0 \<longleftrightarrow> a < b" and "mdb_cmp_memn diff a b = 0 \<longleftrightarrow> a = b"
  using lex_cmp_less [OF assms(1), of a b] lex_cmp_eq [OF assms(1), of a b]
  unfolding memn_eq [OF assms(2,3)] lex_cmp_def .


lemma key_order_memn:
  "sign_law diff \<Longrightarrow> key_order (run_cmp (Cmp_memn diff)) (\<lambda>a. length a < 2 ^ 32)"
  by (rule key_orderI [where f = "\<lambda>a. a"]) (simp add: run_cmp_def mdb_cmp_memn_lex)

interpretation memn: key_order "run_cmp (Cmp_memn (\<lambda>x y. uint x - uint y))" "\<lambda>a. length a < 2 ^ 32"
  by (rule key_order_memn [OF sign_law_difference])

subsubsection \<open>Reverse order\<close>

abbreviation byte_diff :: "byte \<Rightarrow> byte \<Rightarrow> int" where
  "byte_diff x y \<equiv> uint x - uint y"

lemma rev_take_Suc: "p < length a \<Longrightarrow> rev (take (Suc p) a) = a ! p # rev (take p a)"
  by (simp add: take_Suc_conv_app_nth)

lemma memnr_loop_eq:
  assumes "p1 \<le> length a" and "p2 \<le> length b" and "lim \<le> p1" and "p1 - lim \<le> p2"
  shows "memnr_loop a b p1 p2 lim ld =
    (let d = cmp_bytes byte_diff (take (p1 - lim) (rev (take p1 a))) (take (p1 - lim) (rev (take p2 b)))
     in if d \<noteq> 0 then d else if ld < 0 then -1 else ld)"
  using assms
proof (induction "p1 - lim" arbitrary: p1 p2)
  case 0
  then show ?case by (subst memnr_loop.simps) simp
next
  case (Suc k)
  obtain q1 q2 where q: "p1 = Suc q1" "p2 = Suc q2"
    using Suc.hyps(2) Suc.prems(4) by (metis Suc_le_D diff_Suc_1 diff_0_eq_0 nat.exhaust not_less_eq_eq le0 zero_less_Suc)
  then have k: "k = q1 - lim" "lim \<le> q1" "Suc q1 - lim = Suc (q1 - lim)" using Suc.hyps(2) by auto
  have ih: "memnr_loop a b q1 q2 lim ld =
    (let d = cmp_bytes byte_diff (take (q1 - lim) (rev (take q1 a))) (take (q1 - lim) (rev (take q2 b)))
     in if d \<noteq> 0 then d else if ld < 0 then -1 else ld)"
    by (rule Suc.hyps(1)) (use k q Suc.prems in auto)
  show ?case
  proof (cases "a ! q1 = b ! q2")
    case True
    then have "memnr_loop a b p1 p2 lim ld = memnr_loop a b q1 q2 lim ld"
      using q k by (subst memnr_loop.simps) simp
    then show ?thesis
      using True ih Suc.prems q k by (simp add: rev_take_Suc)
  next
    case False
    then have "byte_diff (a ! q1) (b ! q2) \<noteq> 0" by (simp add: word_uint_eq_iff)
    then show ?thesis
      using False q k Suc.prems by (subst memnr_loop.simps) (simp add: rev_take_Suc Let_def)
  qed
qed

lemma memnr_rev:
  assumes "length a < 2 ^ 32" and "length b < 2 ^ 32"
  shows "mdb_cmp_memnr a b = mdb_cmp_memn byte_diff (rev a) (rev b)"
proof -
  define lim where "lim = length a - length b"
  have lim: "(if int (length a) - int (length b) > 0 then nat (int (length a) - int (length b)) else 0) = lim"
    by (auto simp: lim_def)
  have "length a - lim = min (length (rev a)) (length (rev b))" by (auto simp: lim_def)
  then have "cmp_bytes byte_diff (take (length a - lim) (rev a)) (take (length a - lim) (rev b)) =
      cmp_bytes byte_diff (rev a) (rev b)"
    by (rule cmp_bytes_take)
  moreover have "length a - lim \<le> length b" "lim \<le> length a" by (auto simp: lim_def)
  ultimately have "memnr_loop a b (length a) (length b) lim ld =
      (if cmp_bytes byte_diff (rev a) (rev b) \<noteq> 0 then cmp_bytes byte_diff (rev a) (rev b)
       else if ld < 0 then -1 else ld)" for ld
    using memnr_loop_eq [of "length a" a "length b" b lim ld] by (simp add: Let_def)
  then show ?thesis
    using assms unfolding mdb_cmp_memnr_def Let_def lim by (simp add: memn_eq sgn_if)
qed

text \<open>
  \<open>mdb_cmp_memnr\<close> is \<open>mdb_cmp_memn\<close> on the reversed keys.
\<close>

theorem mdb_cmp_memnr_rev:
  assumes "length a < 2 ^ 32" and "length b < 2 ^ 32"
  shows "mdb_cmp_memnr a b = mdb_cmp_memn byte_diff (rev a) (rev b)"
  using assms by (rule memnr_rev)

lemma key_order_memnr: "key_order (run_cmp Cmp_memnr) (\<lambda>a. length a < 2 ^ 32)"
proof (rule key_orderI [where f = rev])
  fix a b :: "byte list" assume "length a < 2 ^ 32" "length b < 2 ^ 32"
  then show "\<exists>r. run_cmp Cmp_memnr a b = Inr r \<and> (r < 0 \<longleftrightarrow> rev a < rev b) \<and> (r = 0 \<longleftrightarrow> rev a = rev b)"
    using mdb_cmp_memn_lex [OF sign_law_difference, of "rev a" "rev b"]
    by (simp add: run_cmp_def memnr_rev)
qed

interpretation memnr: key_order "run_cmp Cmp_memnr" "\<lambda>a. length a < 2 ^ 32"
  by (rule key_order_memnr)

subsubsection \<open>Integers\<close>

lemma le_value_append: "le_value (xs @ ys) = le_value xs + 256 ^ length xs * le_value ys"
  by (induction xs) (auto simp: algebra_simps)

lemma le_value_less: "le_value xs < 256 ^ length xs"
proof (induction xs)
  case (Cons x xs)
  have "unat x < 2 ^ LENGTH(8)" by (rule unsigned_less)
  then have "unat x < 256" by simp
  moreover have "256 * le_value xs + 256 \<le> 256 * 256 ^ length xs" using Cons by simp
  ultimately show ?case by simp
qed simp

lemma le_value_snoc2:
  assumes "2 \<le> u" and "u \<le> length a"
  shows "le_value (take u a) = le_value (take (u - 2) a) + 256 ^ (u - 2) * le16 a (u - 2)"
proof -
  have "take u a = take (u - 2) a @ [a ! (u - 2), a ! (u - 1)]"
    using assms take_Suc_conv_app_nth [of "u - 1" a] take_Suc_conv_app_nth [of "u - 2" a]
    by (simp add: Suc_diff_le numeral_2_eq_2 Suc_diff_Suc)
  moreover have "u - 1 = u - 2 + 1" "length (take (u - 2) a) = u - 2" using assms by simp_all
  ultimately show ?thesis by (simp only: le_value_append le16_def) simp
qed

lemma digit_less:
  fixes x y P L M :: nat
  assumes "L < P" and "M < P"
  shows "L + P * x < M + P * y \<longleftrightarrow> x < y \<or> x = y \<and> L < M"
    and "L + P * x = M + P * y \<longleftrightarrow> x = y \<and> L = M"
proof -
  have lt: "L + P * x < M + P * y" if "L < P" "x < y" for L M x y :: nat
  proof -
    have "L + P * x < P * Suc x" using that by simp
    also have "\<dots> \<le> P * y" using that by (intro mult_le_mono2) simp
    finally show ?thesis by simp
  qed
  show "L + P * x < M + P * y \<longleftrightarrow> x < y \<or> x = y \<and> L < M"
    "L + P * x = M + P * y \<longleftrightarrow> x = y \<and> L = M"
    using lt [OF assms(1), of x y M] lt [OF assms(2), of y x L] by (cases x y rule: linorder_cases; auto)+
qed

lemma cint_loop_value:
  assumes "even u" and "2 \<le> u" and "u \<le> length a" and "u \<le> length b"
  shows "\<exists>r. cint_loop a b u = Inr r \<and> (r < 0 \<longleftrightarrow> le_value (take u a) < le_value (take u b)) \<and>
    (r = 0 \<longleftrightarrow> le_value (take u a) = le_value (take u b))"
  using assms
proof (induction u rule: less_induct)
  case (less u)
  let ?x = "le16 a (u - 2)" and ?y = "le16 b (u - 2)" and ?P = "256 ^ (u - 2) :: nat"
  have len: "length (take (u - 2) a) = u - 2" "length (take (u - 2) b) = u - 2"
    using less.prems(3,4) by simp_all
  have va: "le_value (take u a) = le_value (take (u - 2) a) + ?P * ?x" "le_value (take (u - 2) a) < ?P"
    and vb: "le_value (take u b) = le_value (take (u - 2) b) + ?P * ?y" "le_value (take (u - 2) b) < ?P"
    using le_value_snoc2 [OF less.prems(2,3)] le_value_snoc2 [OF less.prems(2,4)]
      le_value_less [of "take (u - 2) a"] le_value_less [of "take (u - 2) b"] less.prems(3,4) len
    by (simp_all only:)
  have step: "cint_loop a b u =
      (if ?x = ?y \<and> u - 2 > 0 then cint_loop a b (u - 2) else Inr (int ?x - int ?y))"
    using less.prems by (subst cint_loop.simps) (simp add: rd16_in)
  note cmp = digit_less [OF va(2) vb(2), of ?x ?y]
  show ?case
  proof (cases "?x = ?y \<and> u - 2 > 0")
    case True
    then have "2 \<le> u - 2" using less.prems(1,2) by (auto elim!: evenE)
    then show ?thesis
      using less.IH [of "u - 2"] True less.prems step unfolding va(1) vb(1) cmp by fastforce
  next
    case False
    have "?x = ?y \<Longrightarrow> le_value (take (u - 2) a) = le_value (take (u - 2) b)"
      using False less.prems(2) by simp
    moreover have "cint_loop a b u = Inr (int ?x - int ?y)"
      by (subst step) (simp only: False if_False)
    ultimately show ?thesis unfolding va(1) vb(1) cmp by (intro exI [of _ "int ?x - int ?y"]) auto
  qed
qed

lemma key_order_cint: "even n \<Longrightarrow> 2 \<le> n \<Longrightarrow> key_order (run_cmp Cmp_cint) (\<lambda>a. length a = n)"
proof (rule key_orderI [where f = le_value])
  fix a b :: "byte list" assume "even n" "2 \<le> n" "length a = n" "length b = n"
  then show "\<exists>r. run_cmp Cmp_cint a b = Inr r \<and> (r < 0 \<longleftrightarrow> le_value a < le_value b) \<and> (r = 0 \<longleftrightarrow> le_value a = le_value b)"
    using cint_loop_value [of n a b] by (simp add: run_cmp_def mdb_cmp_cint_def)
qed

interpretation cint4: key_order "run_cmp Cmp_cint" "\<lambda>a. length a = 4"
  by (rule key_order_cint) simp_all

interpretation cint8: key_order "run_cmp Cmp_cint" "\<lambda>a. length a = 8"
  by (rule key_order_cint) simp_all

text \<open>
  On a branch page \<open>mdb_node_search\<close> replaces \<open>mdb_cmp_cint\<close> by \<open>mdb_cmp_int\<close> or \<open>mdb_cmp_long\<close>.
  On keys of 4 and of 8 bytes the results have the same sign, so the search is the same.
\<close>

theorem mdb_cmp_cint_int_long:
  "(length a = 4 \<and> length b = 4 \<longrightarrow>
     (\<exists>r s. mdb_cmp_cint a b = Inr r \<and> mdb_cmp_int a b = Inr s \<and> sgn r = s)) \<and>
   (length a = 8 \<and> length b = 8 \<longrightarrow>
     (\<exists>r s. mdb_cmp_cint a b = Inr r \<and> mdb_cmp_long a b = Inr s \<and> sgn r = s))"
proof -
  have "\<exists>r s. mdb_cmp_cint a b = Inr r \<and> cmp_num n a b = Inr s \<and> sgn r = s"
    if n: "length a = n" "length b = n" "even n" "2 \<le> n" for n
  proof -
    obtain r where r: "cint_loop a b n = Inr r" "r < 0 \<longleftrightarrow> le_value a < le_value b"
      "r = 0 \<longleftrightarrow> le_value a = le_value b"
      using cint_loop_value [OF n(3,4), of a b] n(1,2) by auto
    have "cmp_num n a b = Inr (sgn r)"
      using r(2,3) n
      by (cases "le_value a" "le_value b" rule: linorder_cases) (simp_all add: cmp_num_def rd_bytes_in)
    then show ?thesis using r(1) n(1) by (simp add: mdb_cmp_cint_def)
  qed
  from this [of 4] this [of 8] show ?thesis
    by (auto simp: mdb_cmp_int_def mdb_cmp_long_def)
qed

subsection \<open>Correctness of the search\<close>

lemma page_keys_short: "k \<in> set (page_keys p) \<Longrightarrow> length k < 2 ^ 32"
proof -
  assume "k \<in> set (page_keys p)"
  then obtain i where k: "k = take (le16 (mp_mem p) (slot (mp_mem p) i + 6))
      (drop (slot (mp_mem p) i + NODESIZE) (mp_mem p))"
    by (auto simp: page_keys_def Let_def)
  have "length k \<le> le16 (mp_mem p) (slot (mp_mem p) i + 6)" unfolding k by simp
  then show ?thesis using le16_less [of "mp_mem p" "slot (mp_mem p) i + 6"] by simp
qed

text \<open>
  C8. \<open>mdb_node_search\<close> on a well-formed page whose keys ascend (from the second on, for a branch
  page with at least two nodes) stays inside the page, returns the smallest entry that is not
  below the key, or none, sets the index of the cursor to it, and reports an exact match
  precisely when the entry has the key.
\<close>

theorem mdb_node_search_correct:
  assumes "wf_page psize (mc_pg mc)" and "sign_law diff" and "length key < 2 ^ 32"
    and "base = (if IS_LEAF (mc_pg mc) then 0 else 1)" and "IS_LEAF (mc_pg mc) \<or> 2 \<le> NUMKEYS (mc_pg mc)"
    and "ks = page_keys (mc_pg mc)" and "sorted_wrt (<) (drop base ks)"
  shows "\<exists>i. mdb_node_search (Cmp_memn diff) mc key =
      Inr (if i < length ks then Some i else None, i < length ks \<and> ks ! i = key, mc\<lparr>mc_ki := i\<rparr>) \<and>
    base \<le> i \<and> i \<le> length ks \<and> (\<forall>j. base \<le> j \<and> j < i \<longrightarrow> ks ! j < key) \<and>
    (\<forall>j. i \<le> j \<and> j < length ks \<longrightarrow> key \<le> ks ! j)"
proof -
  let ?cmp = "run_cmp (Cmp_memn diff)"
  note ko = key_order_memn [OF assms(2)]
  have short: "length k < 2 ^ 32" if "k \<in> set ks" for k using that page_keys_short assms(6) by auto
  have lt: "key_order.below ?cmp a b \<longleftrightarrow> a < b" "key_order.upto ?cmp a b \<longleftrightarrow> a \<le> b" "?cmp a b = Inr 0 \<longleftrightarrow> a = b"
    if "length a < 2 ^ 32" "length b < 2 ^ 32" for a b
    using mdb_cmp_memn_lex [OF assms(2) that]
    by (auto simp: key_order.below_def [OF ko] key_order.upto_def [OF ko] run_cmp_def le_less)
  have ord: "key_order.ordered ?cmp ks base"
    unfolding key_order.ordered_def [OF ko]
  proof (intro allI impI)
    fix i j assume ij: "base \<le> i \<and> i < j \<and> j < length ks"
    then have "i - base < j - base" "j - base < length (drop base ks)" by auto
    then have "drop base ks ! (i - base) < drop base ks ! (j - base)"
      by (rule sorted_wrt_nth_less [OF assms(7)])
    then show "key_order.below ?cmp (ks ! i) (ks ! j)"
      using ij short by (simp add: lt)
  qed
  have pc: "page_cmp (mc_pg mc) (Cmp_memn diff) = Inr (Cmp_memn diff)"
    by (simp add: page_cmp_def)
  have ne: "base < length ks \<or> ks = [] \<and> base = 0"
    using assms(4,5,6) by (auto simp: page_keys_def)
  obtain i ex where found: "mdb_node_search (Cmp_memn diff) mc key =
      Inr (if i < length ks then Some i else None, ex, mc\<lparr>mc_ki := i\<rparr>)"
    "key_order.position ?cmp ks key base i" "ex \<longleftrightarrow> i < length ks \<and> ?cmp key (ks ! i) = Inr 0"
    using key_order.node_search_position [OF ko assms(1) pc refl assms(6,4,3) _ ord ne] short by blast
  have "ex \<longleftrightarrow> i < length ks \<and> ks ! i = key"
    using found(3) assms(3) short by (auto simp: lt)
  then show ?thesis
    using found(1,2) assms(3) short unfolding key_order.position_def [OF ko]
    by (intro exI [of _ i]) (auto simp: lt)
qed

subsection \<open>Examples\<close>

theorem mdb_cmp_memnr_rev_witness:
  "mdb_cmp_memnr [1, 2] [3, 1] = mdb_cmp_memn byte_diff [2, 1] [1, 3]"
  using mdb_cmp_memnr_rev [of "[1, 2]" "[3, 1]"] by simp

theorem mdb_cmp_cint_int_long_witness:
  "\<exists>r s. mdb_cmp_cint [1, 2, 3, 4] [5, 6, 7, 8] = Inr r \<and> mdb_cmp_int [1, 2, 3, 4] [5, 6, 7, 8] = Inr s \<and> sgn r = s"
  using mdb_cmp_cint_int_long [of "[1, 2, 3, 4]" "[5, 6, 7, 8]"] by simp

theorem mdb_node_search_correct_witness:
  "\<exists>i. mdb_node_search (Cmp_memn byte_diff) (cursor_on one_page) [9] =
     Inr (if i < 1 then Some i else None, i < 1 \<and> page_keys one_page ! i = [9], (cursor_on one_page)\<lparr>mc_ki := i\<rparr>)"
proof -
  have "IS_LEAF one_page" by (simp add: one_page_def IS_LEAF_def F_ISSET_def P_LEAF_def)
  moreover have "sorted_wrt (<) (drop 0 (page_keys one_page))" "length (page_keys one_page) = 1"
    by (simp_all add: page_keys_def one_page_keys)
  ultimately show ?thesis
    using mdb_node_search_correct [of 64 "cursor_on one_page" byte_diff "[9]" 0 "page_keys one_page"]
    by (auto simp: one_page_ok sign_law_difference)
qed

end
