(* ===== verification/Mdb_Cursor.thy ===== *)
theory Mdb_Cursor
  imports Mdb_Search Midl
begin

text \<open>
  The cursors of the storage engine, \<open>GalaDB/lmdb/mdb.c\<close>: finding the page of a number, the descent from the root
  of a tree to a leaf, the step to a sibling, and the operations that position a cursor. A cursor keeps
  the pages from the root to a leaf and an index in each, in arrays of \<open>CURSOR_STACK\<close> entries. An operation gives its
  return code and the cursor, which carries its transaction; only the flags of the transaction and the
  records of the databases change in it.

  A cursor of a database with \<open>MDB_DUPSORT\<close> has a second cursor for the values of a key. The record \<open>mdb_mcursor\<close> adds it to
  the fields of \<open>mdb_tcursor\<close>. The code runs the same functions on both kinds of cursors; here a function is
  defined once, with what it does through \<open>mc_xcursor\<close> as a record of functions \<open>dup_ops\<close>, and is then used for sub-cursors,
  whose \<open>mc_xcursor\<close> is a null pointer, and for the cursors of a program. \<open>mdb_page_touch\<close>, which copies pages before they
  are modified, is an argument; the operations that read do not call it.
\<close>

subsection \<open>Constants\<close>

definition CURSOR_STACK :: nat where "CURSOR_STACK = 32"
definition P_INVALID :: nat where "P_INVALID = 2 ^ 64 - 1"
definition MAIN_DBI :: nat where "MAIN_DBI = 1"

definition C_INITIALIZED :: uint32 where "C_INITIALIZED = 0x01"
definition C_EOF :: uint32 where "C_EOF = 0x02"
definition C_SUB :: uint32 where "C_SUB = 0x04"
definition C_DEL :: uint32 where "C_DEL = 0x08"

definition F_SUBDATA :: uint32 where "F_SUBDATA = 0x02"
definition F_DUPDATA :: uint32 where "F_DUPDATA = 0x04"

definition MDB_TXN_RDONLY :: uint32 where "MDB_TXN_RDONLY = 0x01"
definition MDB_WRITEMAP :: uint32 where "MDB_WRITEMAP = 0x80000"
definition MDB_DUPSORT :: uint16 where "MDB_DUPSORT = 0x04"
definition MDB_INTEGERKEY :: uint16 where "MDB_INTEGERKEY = 0x08"
definition MDB_DUPFIXED :: uint16 where "MDB_DUPFIXED = 0x10"
definition MDB_INTEGERDUP :: uint16 where "MDB_INTEGERDUP = 0x20"
definition PERSISTENT_FLAGS :: uint16 where "PERSISTENT_FLAGS = 0x7fff"
definition DB_DIRTY :: byte where "DB_DIRTY = 0x01"
definition DB_STALE :: byte where "DB_STALE = 0x02"
definition DB_VALID :: byte where "DB_VALID = 0x08"

definition MDB_PS_MODIFY :: uint32 where "MDB_PS_MODIFY = 1"
definition MDB_PS_ROOTONLY :: uint32 where "MDB_PS_ROOTONLY = 2"
definition MDB_PS_FIRST :: uint32 where "MDB_PS_FIRST = 4"
definition MDB_PS_LAST :: uint32 where "MDB_PS_LAST = 8"

definition MDB_NOTFOUND :: int where "MDB_NOTFOUND = -30798"
definition MDB_PAGE_NOTFOUND :: int where "MDB_PAGE_NOTFOUND = -30797"
definition MDB_CORRUPTED :: int where "MDB_CORRUPTED = -30796"
definition MDB_CURSOR_FULL :: int where "MDB_CURSOR_FULL = -30787"
definition MDB_INCOMPATIBLE :: int where "MDB_INCOMPATIBLE = -30784"
definition MDB_BAD_TXN :: int where "MDB_BAD_TXN = -30782"
definition MDB_BAD_VALSIZE :: int where "MDB_BAD_VALSIZE = -30781"
definition EINVAL :: int where "EINVAL = 22"

datatype MDB_cursor_op = MDB_FIRST | MDB_FIRST_DUP | MDB_GET_BOTH | MDB_GET_BOTH_RANGE | MDB_GET_CURRENT | MDB_GET_MULTIPLE
  | MDB_LAST | MDB_LAST_DUP | MDB_NEXT | MDB_NEXT_DUP | MDB_NEXT_MULTIPLE | MDB_NEXT_NODUP | MDB_PREV | MDB_PREV_DUP
  | MDB_PREV_NODUP | MDB_SET | MDB_SET_KEY | MDB_SET_RANGE

subsection \<open>Transactions\<close>

record mdb_tdb = mdb_db +
  md_flags :: uint16
  md_depth :: nat
  md_entries :: nat
  md_root :: nat

record mdb_dbx =
  md_name :: "byte list"
  md_cmp :: cmp_func
  md_dcmp :: "cmp_func option"

text \<open>
  What a transaction and each of its parents has of modified pages: the dirty list, and the pages written early.
\<close>

record txn_level =
  dirty_list :: "mdb_page MDB_ID2 list"
  mt_spill_pgs :: "MDB_ID list option"

text \<open>
  A transaction: its flags and the flags of the environment, the levels from the transaction to its outermost parent, the
  pages of the mapped file, and the tables of databases. The page of an overflow chain holds the bytes of the whole chain.
\<close>

record mdb_txn =
  tx_flags :: uint32
  me_flags :: uint32
  mt_next_pgno :: nat
  mt_levels :: "txn_level list"
  me_map :: "nat \<Rightarrow> mdb_page"
  mt_dbs :: "mdb_tdb list"
  mt_dbxs :: "mdb_dbx list"
  mt_dbflags :: "byte list"

definition txn_error :: "mdb_txn \<Rightarrow> mdb_txn" where
  "txn_error txn = txn\<lparr>tx_flags := tx_flags txn OR MDB_TXN_ERROR\<rparr>"

definition of_arr :: "'a option \<Rightarrow> mdb_fault + 'a" where
  "of_arr r = (case r of None \<Rightarrow> Inl Page_Bounds | Some x \<Rightarrow> Inr x)"

definition spill_has :: "txn_level \<Rightarrow> nat \<Rightarrow> mdb_fault + bool" where
  "spill_has L pgno = (case mt_spill_pgs L of None \<Rightarrow> Inr False
     | Some sp \<Rightarrow> let pn = push_bit 1 (word_of_nat pgno) :: MDB_ID in
         ebind (of_arr (mdb_midl_search sp pn)) (\<lambda>x. ebind (of_arr (aget sp 0)) (\<lambda>c.
         if x \<le> unat c then ebind (of_arr (aget sp x)) (\<lambda>v. Inr (v = pn)) else Inr False)))"

definition dirty_find :: "txn_level \<Rightarrow> nat \<Rightarrow> mdb_fault + mdb_page option" where
  "dirty_find L pgno = (let dl = dirty_list L; pn = word_of_nat pgno in
     ebind (of_arr (aget dl 0)) (\<lambda>e0.
     if mid e0 \<noteq> 0 then ebind (of_arr (mdb_mid2l_search dl pn)) (\<lambda>x.
       if x \<le> unat (mid e0) then ebind (of_arr (aget dl x)) (\<lambda>e. Inr (if mid e = pn then Some (mptr e) else None)) else Inr None)
     else Inr None))"

fun page_get_levels :: "(nat \<Rightarrow> mdb_page) \<Rightarrow> txn_level list \<Rightarrow> nat \<Rightarrow> nat \<Rightarrow> mdb_fault + (mdb_page \<times> nat) option" where
  "page_get_levels pages [] level pgno = Inr None"
| "page_get_levels pages (L # Ls) level pgno = ebind (spill_has L pgno) (\<lambda>spilled.
     if spilled then Inr (Some (pages pgno, level))
     else ebind (dirty_find L pgno) (\<lambda>r. case r of
       Some p \<Rightarrow> Inr (Some (p, level))
     | None \<Rightarrow> page_get_levels pages Ls (level + 1) pgno))"

text \<open>The page and its level, or \<open>None\<close> for \<open>MDB_PAGE_NOTFOUND\<close>.\<close>

definition mdb_page_get :: "mdb_txn \<Rightarrow> nat \<Rightarrow> mdb_fault + (mdb_page \<times> nat) option \<times> mdb_txn" where
  "mdb_page_get txn pgno =
     ebind (if (tx_flags txn AND MDB_TXN_RDONLY) OR (me_flags txn AND MDB_WRITEMAP) = 0
            then page_get_levels (me_map txn) (mt_levels txn) 1 pgno else Inr None) (\<lambda>r.
     case r of Some q \<Rightarrow> Inr (Some q, txn)
     | None \<Rightarrow> if pgno < mt_next_pgno txn then Inr (Some (me_map txn pgno, 0), txn)
               else Inr (None, txn_error txn))"

subsection \<open>Cursors\<close>

record mdb_tcursor =
  tc_txn :: mdb_txn
  tc_dbi :: nat
  tc_db :: mdb_tdb
  tc_dbx :: mdb_dbx
  tc_dbflag :: byte
  tc_snum :: nat
  tc_top :: nat
  tc_flags :: uint32
  tc_pg :: "mdb_page option list"
  tc_ki :: "nat list"

record mdb_mcursor = mdb_tcursor +
  mc_xcursor :: "mdb_tcursor option"

definition page_at :: "'a mdb_tcursor_scheme \<Rightarrow> nat \<Rightarrow> mdb_fault + mdb_page" where
  "page_at mc l = ebind (of_arr (aget (tc_pg mc) l)) (\<lambda>p. case p of None \<Rightarrow> Inl Null_Deref | Some p \<Rightarrow> Inr p)"

definition top_page :: "'a mdb_tcursor_scheme \<Rightarrow> mdb_fault + mdb_page" where
  "top_page mc = page_at mc (tc_top mc)"

definition top_ki :: "'a mdb_tcursor_scheme \<Rightarrow> mdb_fault + nat" where
  "top_ki mc = of_arr (aget (tc_ki mc) (tc_top mc))"

definition set_ki :: "'a mdb_tcursor_scheme \<Rightarrow> nat \<Rightarrow> mdb_fault + 'a mdb_tcursor_scheme" where
  "set_ki mc i = ebind (of_arr (aset (tc_ki mc) (tc_top mc) i)) (\<lambda>ki. Inr (mc\<lparr>tc_ki := ki\<rparr>))"

definition set_flags :: "uint32 \<Rightarrow> 'a mdb_tcursor_scheme \<Rightarrow> 'a mdb_tcursor_scheme" where
  "set_flags f mc = mc\<lparr>tc_flags := tc_flags mc OR f\<rparr>"

definition clr_flags :: "uint32 \<Rightarrow> 'a mdb_tcursor_scheme \<Rightarrow> 'a mdb_tcursor_scheme" where
  "clr_flags f mc = mc\<lparr>tc_flags := tc_flags mc AND NOT f\<rparr>"

definition has_flag :: "uint32 \<Rightarrow> 'a mdb_tcursor_scheme \<Rightarrow> bool" where
  "has_flag f mc \<longleftrightarrow> tc_flags mc AND f \<noteq> 0"

definition mdb_cursor_pop :: "'a mdb_tcursor_scheme \<Rightarrow> 'a mdb_tcursor_scheme" where
  "mdb_cursor_pop mc = (if tc_snum mc \<noteq> 0 then
     let mc = mc\<lparr>tc_snum := tc_snum mc - 1\<rparr> in if tc_snum mc \<noteq> 0 then mc\<lparr>tc_top := tc_top mc - 1\<rparr> else mc
     else mc)"

definition mdb_cursor_push :: "'a mdb_tcursor_scheme \<Rightarrow> mdb_page \<Rightarrow> mdb_fault + int \<times> 'a mdb_tcursor_scheme" where
  "mdb_cursor_push mc mp =
     (if tc_snum mc \<ge> CURSOR_STACK then Inr (MDB_CURSOR_FULL, mc\<lparr>tc_txn := txn_error (tc_txn mc)\<rparr>)
      else let mc = mc\<lparr>tc_top := tc_snum mc, tc_snum := tc_snum mc + 1\<rparr> in
        ebind (of_arr (aset (tc_pg mc) (tc_top mc) (Some mp))) (\<lambda>pg.
        ebind (set_ki (mc\<lparr>tc_pg := pg\<rparr>) 0) (\<lambda>mc. Inr (0, mc))))"

text \<open>\<open>mdb_page_get\<close> for the transaction of a cursor.\<close>

definition cursor_page_get :: "'a mdb_tcursor_scheme \<Rightarrow> nat \<Rightarrow> mdb_fault + mdb_page option \<times> 'a mdb_tcursor_scheme" where
  "cursor_page_get mc pgno = ebind (mdb_page_get (tc_txn mc) pgno) (\<lambda>(r, txn). Inr (map_option fst r, mc\<lparr>tc_txn := txn\<rparr>))"

definition child_pgno :: "mdb_page \<Rightarrow> nat \<Rightarrow> mdb_fault + nat" where
  "child_pgno mp i = ebind (mp_ptrs (mp_mem mp) i) (NODEPGNO (mp_mem mp))"

text \<open>\<open>mdb_node_search\<close> on the top page of the cursor.\<close>

definition page_view :: "'a mdb_tcursor_scheme \<Rightarrow> mdb_page \<Rightarrow> mdb_cursor" where
  "page_view mc mp = \<lparr>mc_pg = mp, mc_ki = 0, mc_db = mdb_db.truncate (tc_db mc), me_psize = 0, me_nodemax = 0, mt_flags = tx_flags (tc_txn mc)\<rparr>"

definition cursor_node_search ::
  "'a mdb_tcursor_scheme \<Rightarrow> byte list option \<Rightarrow> mdb_fault + nat option \<times> bool \<times> 'a mdb_tcursor_scheme" where
  "cursor_node_search mc key = (case key of None \<Rightarrow> Inl Null_Deref | Some key \<Rightarrow>
     ebind (top_page mc) (\<lambda>mp. ebind (mdb_node_search (md_cmp (tc_dbx mc)) (page_view mc mp) key) (\<lambda>(r, exact, v).
     ebind (set_ki mc (mc_ki v)) (\<lambda>mc. Inr (r, exact, mc)))))"

subsection \<open>Descent\<close>

definition branch_index ::
  "'a mdb_tcursor_scheme \<Rightarrow> mdb_page \<Rightarrow> byte list option \<Rightarrow> uint32 \<Rightarrow> mdb_fault + nat \<times> 'a mdb_tcursor_scheme" where
  "branch_index mc mp key flags =
     (if flags AND (MDB_PS_FIRST OR MDB_PS_LAST) \<noteq> 0 then
        Inr (if flags AND MDB_PS_LAST \<noteq> 0 then indx_t (int (NUMKEYS mp) - 1) else 0, mc)
      else ebind (cursor_node_search mc key) (\<lambda>(node, exact, mc). case node of
          None \<Rightarrow> Inr (indx_t (int (NUMKEYS mp) - 1), mc)
        | Some _ \<Rightarrow> ebind (top_ki mc) (\<lambda>i. if exact then Inr (i, mc) else if i > 0 then Inr (i - 1, mc) else Inl Assert_Fail)))"

text \<open>
  Every round of the loop ends it or pushes a page, and the stack is limited: the fuel \<open>CURSOR_STACK + 1\<close> is enough.
\<close>

fun mdb_page_search_root :: "nat \<Rightarrow> ('a mdb_tcursor_scheme \<Rightarrow> mdb_fault + int \<times> 'a mdb_tcursor_scheme) \<Rightarrow>
    'a mdb_tcursor_scheme \<Rightarrow> byte list option \<Rightarrow> uint32 \<Rightarrow> mdb_fault + int \<times> 'a mdb_tcursor_scheme" where
  "mdb_page_search_root 0 touch mc key flags = Inl No_End"
| "mdb_page_search_root (Suc n) touch mc key flags = ebind (top_page mc) (\<lambda>mp.
     if IS_BRANCH mp then
       if \<not> NUMKEYS mp > 1 then Inl Assert_Fail
       else ebind (branch_index mc mp key flags) (\<lambda>(i, mc).
         if \<not> i < NUMKEYS mp then Inl Assert_Fail
         else ebind (child_pgno mp i) (\<lambda>pgno. ebind (cursor_page_get mc pgno) (\<lambda>(r, mc). case r of
             None \<Rightarrow> Inr (MDB_PAGE_NOTFOUND, mc)
           | Some mp \<Rightarrow> ebind (set_ki mc i) (\<lambda>mc. ebind (mdb_cursor_push mc mp) (\<lambda>(rc, mc).
               if rc \<noteq> 0 then Inr (rc, mc)
               else if flags AND MDB_PS_MODIFY \<noteq> 0 then ebind (touch mc) (\<lambda>(rc, mc).
                 if rc \<noteq> 0 then Inr (rc, mc) else mdb_page_search_root n touch mc key flags)
               else mdb_page_search_root n touch mc key flags)))))
     else if \<not> IS_LEAF mp then Inr (MDB_CORRUPTED, mc\<lparr>tc_txn := txn_error (tc_txn mc)\<rparr>)
     else Inr (0, clr_flags C_EOF (set_flags C_INITIALIZED mc)))"

definition mdb_page_search_lowest :: "('a mdb_tcursor_scheme \<Rightarrow> mdb_fault + int \<times> 'a mdb_tcursor_scheme) \<Rightarrow>
    'a mdb_tcursor_scheme \<Rightarrow> mdb_fault + int \<times> 'a mdb_tcursor_scheme" where
  "mdb_page_search_lowest touch mc = ebind (top_page mc) (\<lambda>mp. ebind (child_pgno mp 0) (\<lambda>pgno.
     ebind (cursor_page_get mc pgno) (\<lambda>(r, mc). case r of None \<Rightarrow> Inr (MDB_PAGE_NOTFOUND, mc)
     | Some mp \<Rightarrow> ebind (set_ki mc 0) (\<lambda>mc. ebind (mdb_cursor_push mc mp) (\<lambda>(rc, mc).
         if rc \<noteq> 0 then Inr (rc, mc)
         else mdb_page_search_root (CURSOR_STACK + 1) touch mc None MDB_PS_FIRST)))))"

subsection \<open>Reading a node\<close>

definition node_flag :: "byte list \<Rightarrow> nat \<Rightarrow> uint32 \<Rightarrow> mdb_fault + bool" where
  "node_flag m node f = ebind (mn_flags m node) (\<lambda>fl. Inr (F_ISSET (word_of_nat fl) f))"

definition NODEDATA :: "byte list \<Rightarrow> nat \<Rightarrow> mdb_fault + nat" where
  "NODEDATA m node = ebind (mn_ksize m node) (\<lambda>ks. Inr (node + NODESIZE + ks))"

text \<open>The data of the node at an offset of a page; \<open>None\<close> when the return code is not 0.\<close>

definition mdb_node_read :: "mdb_txn \<Rightarrow> byte list \<Rightarrow> nat \<Rightarrow> mdb_fault + int \<times> mdb_txn \<times> byte list option" where
  "mdb_node_read txn m leaf = ebind (node_flag m leaf F_BIGDATA) (\<lambda>big. ebind (NODEDSZ m leaf) (\<lambda>sz. ebind (NODEDATA m leaf) (\<lambda>d.
     if \<not> big then ebind (rd_bytes m d sz) (\<lambda>bs. Inr (0, txn, Some bs))
     else ebind (rd_bytes m d 8) (\<lambda>pg. ebind (mdb_page_get txn (le_value pg)) (\<lambda>(r, txn). case r of
         None \<Rightarrow> Inr (MDB_PAGE_NOTFOUND, txn, None)
       | Some (omp, _) \<Rightarrow> ebind (rd_bytes (mp_mem omp) PAGEHDRSZ sz) (\<lambda>bs. Inr (0, txn, Some bs)))))))"

subsection \<open>Search from the root\<close>

definition page_search_from :: "('a mdb_tcursor_scheme \<Rightarrow> mdb_fault + int \<times> 'a mdb_tcursor_scheme) \<Rightarrow>
    ('a mdb_tcursor_scheme \<Rightarrow> mdb_fault + int \<times> 'a mdb_tcursor_scheme) \<Rightarrow>
    'a mdb_tcursor_scheme \<Rightarrow> byte list option \<Rightarrow> uint32 \<Rightarrow> mdb_fault + int \<times> 'a mdb_tcursor_scheme" where
  "page_search_from refresh touch mc key flags =
     (if F_ISSET (tx_flags (tc_txn mc)) MDB_TXN_ERROR then Inr (MDB_BAD_TXN, mc)
      else ebind (if tc_dbflag mc AND DB_STALE \<noteq> 0 then refresh mc else Inr (0, mc)) (\<lambda>(rc, mc).
        if rc \<noteq> 0 then Inr (rc, mc)
        else let root = md_root (tc_db mc) in
          if root = P_INVALID then Inr (MDB_NOTFOUND, mc)
          else if \<not> root > 1 then Inl Assert_Fail
          else ebind (of_arr (aget (tc_pg mc) 0)) (\<lambda>p0.
            ebind (if p0 = None \<or> mp_pgno (the p0) \<noteq> root
                   then ebind (cursor_page_get mc root) (\<lambda>(r, mc). case r of None \<Rightarrow> Inr (MDB_PAGE_NOTFOUND, mc)
                     | Some p \<Rightarrow> Inr (0, mc\<lparr>tc_pg := (tc_pg mc)[0 := Some p]\<rparr>))
                   else Inr (0, mc)) (\<lambda>(rc, mc).
            if rc \<noteq> 0 then Inr (rc, mc)
            else let mc = mc\<lparr>tc_snum := 1, tc_top := 0\<rparr> in
              ebind (if flags AND MDB_PS_MODIFY \<noteq> 0 then touch mc else Inr (0, mc)) (\<lambda>(rc, mc).
              if rc \<noteq> 0 then Inr (rc, mc)
              else if flags AND MDB_PS_ROOTONLY \<noteq> 0 then Inr (0, mc)
              else mdb_page_search_root (CURSOR_STACK + 1) touch mc key flags)))))"

text \<open>
  The fields that \<open>mdb_cursor_init\<close> sets. The code leaves \<open>mc_ki\<close> and all but the first entry of \<open>mc_pg\<close> as the memory is; they are
  written before they are read.
\<close>

definition cursor_fields :: "mdb_txn \<Rightarrow> nat \<Rightarrow> mdb_fault + mdb_tcursor" where
  "cursor_fields txn dbi = ebind (of_arr (aget (mt_dbs txn) dbi)) (\<lambda>db. ebind (of_arr (aget (mt_dbxs txn) dbi)) (\<lambda>dbx.
     ebind (of_arr (aget (mt_dbflags txn) dbi)) (\<lambda>f.
     Inr \<lparr>tc_txn = txn, tc_dbi = dbi, tc_db = db, tc_dbx = dbx, tc_dbflag = f, tc_snum = 0, tc_top = 0, tc_flags = 0,
          tc_pg = replicate CURSOR_STACK None, tc_ki = replicate CURSOR_STACK 0\<rparr>)))"

text \<open>The record of a database in the bytes of a node, \<open>memcpy(mc->mc_db, data.mv_data, sizeof(MDB_db))\<close>\<close>

definition db_of_bytes :: "byte list \<Rightarrow> mdb_fault + mdb_tdb" where
  "db_of_bytes b = ebind (rd_bytes b 0 48) (\<lambda>b. let at = (\<lambda>off n. le_value (take n (drop off b))) in
     Inr \<lparr>md_pad = at 0 4, md_branch_pages = at 8 8, md_leaf_pages = at 16 8, md_overflow_pages = at 24 8,
          md_flags = word_of_nat (at 4 2), md_depth = at 6 2, md_entries = at 32 8, md_root = at 40 8\<rparr>)"

text \<open>
  A stale record is read again from the main database. A cursor of the main database whose own record is
  stale would start the search for it again, without end.
\<close>

definition refresh_root :: "(mdb_tcursor \<Rightarrow> mdb_fault + int \<times> mdb_tcursor) \<Rightarrow> 'a mdb_tcursor_scheme \<Rightarrow>
    mdb_fault + int \<times> 'a mdb_tcursor_scheme" where
  "refresh_root touch mc = ebind (cursor_fields (tc_txn mc) MAIN_DBI) (\<lambda>mc2.
     if md_flags (tc_db mc2) AND MDB_DUPSORT \<noteq> 0 then Inl Assert_Fail
     else if tc_dbflag mc2 AND DB_STALE \<noteq> 0 then Inl No_End
     else let name = md_name (tc_dbx mc) in
       ebind (page_search_from (\<lambda>_. Inl No_End) touch mc2 (Some name) 0) (\<lambda>(rc, mc2).
       let mc = mc\<lparr>tc_txn := tc_txn mc2\<rparr> in
       if rc \<noteq> 0 then Inr (rc, mc)
       else ebind (cursor_node_search mc2 (Some name)) (\<lambda>(leaf, exact, mc2).
         if \<not> exact then Inr (MDB_NOTFOUND, mc)
         else ebind (top_page mc2) (\<lambda>mp. ebind (mp_ptrs (mp_mem mp) (the leaf)) (\<lambda>node.
           ebind (mdb_node_read (tc_txn mc) (mp_mem mp) node) (\<lambda>(rc, txn, data).
           let mc = mc\<lparr>tc_txn := txn\<rparr> in
           if rc \<noteq> 0 then Inr (rc, mc)
           else ebind (rd_bytes (the data) 4 2) (\<lambda>fl.
             if md_flags (tc_db mc) AND PERSISTENT_FLAGS \<noteq> word_of_nat (le_value fl) then Inr (MDB_INCOMPATIBLE, mc)
             else ebind (db_of_bytes (the data)) (\<lambda>db.
               let flag = tc_dbflag mc AND NOT DB_STALE; txn = tc_txn mc in
               Inr (0, mc\<lparr>tc_db := db, tc_dbflag := flag,
                 tc_txn := txn\<lparr>mt_dbs := (mt_dbs txn)[tc_dbi mc := db], mt_dbflags := (mt_dbflags txn)[tc_dbi mc := flag]\<rparr>\<rparr>))))))))) "

definition mdb_page_search :: "(mdb_tcursor \<Rightarrow> mdb_fault + int \<times> mdb_tcursor) \<Rightarrow>
    ('a mdb_tcursor_scheme \<Rightarrow> mdb_fault + int \<times> 'a mdb_tcursor_scheme) \<Rightarrow>
    'a mdb_tcursor_scheme \<Rightarrow> byte list option \<Rightarrow> uint32 \<Rightarrow> mdb_fault + int \<times> 'a mdb_tcursor_scheme" where
  "mdb_page_search touch2 touch mc key flags = page_search_from (refresh_root touch2) touch mc key flags"

text \<open>The search of an operation that reads.\<close>

definition read_search :: "'a mdb_tcursor_scheme \<Rightarrow> byte list option \<Rightarrow> uint32 \<Rightarrow> mdb_fault + int \<times> 'a mdb_tcursor_scheme" where
  "read_search mc key flags = mdb_page_search (\<lambda>_. Inl No_End) (\<lambda>_. Inl No_End) mc key flags"

subsection \<open>Siblings\<close>

function mdb_cursor_sibling :: "'a mdb_tcursor_scheme \<Rightarrow> bool \<Rightarrow> mdb_fault + int \<times> 'a mdb_tcursor_scheme" where
  "mdb_cursor_sibling mc move_right =
     (if tc_snum mc < 2 then Inr (MDB_NOTFOUND, mc)
      else let mc = mdb_cursor_pop mc in
        ebind (top_page mc) (\<lambda>mp. ebind (top_ki mc) (\<lambda>ki.
        ebind (if (if move_right then ki + 1 \<ge> NUMKEYS mp else ki = 0) then
                 ebind (mdb_cursor_sibling mc move_right) (\<lambda>(rc, mc).
                   Inr (rc, if rc \<noteq> 0 then mc\<lparr>tc_top := tc_top mc + 1, tc_snum := tc_snum mc + 1\<rparr> else mc))
               else ebind (set_ki mc (if move_right then ki + 1 else ki - 1)) (\<lambda>mc. Inr (0, mc))) (\<lambda>(rc, mc).
        if rc \<noteq> 0 then Inr (rc, mc)
        else ebind (top_page mc) (\<lambda>mp. if \<not> IS_BRANCH mp then Inl Assert_Fail
          else ebind (top_ki mc) (\<lambda>ki. ebind (child_pgno mp ki) (\<lambda>pgno. ebind (cursor_page_get mc pgno) (\<lambda>(r, mc). case r of
              None \<Rightarrow> Inr (MDB_PAGE_NOTFOUND, clr_flags (C_INITIALIZED OR C_EOF) mc)
            | Some mp \<Rightarrow> ebind (mdb_cursor_push mc mp) (\<lambda>(_, mc).
                if \<not> move_right then ebind (set_ki mc (indx_t (int (NUMKEYS mp) - 1))) (\<lambda>mc. Inr (0, mc))
                else Inr (0, mc)))))))))) "
  by pat_completeness auto
termination
  by (relation "measure (\<lambda>(mc, _). tc_snum mc)") (auto simp: mdb_cursor_pop_def Let_def)

declare mdb_cursor_sibling.simps [simp del]

end
