(* ===== verification/Mdb_Cursor_Ops.thy ===== *)
theory Mdb_Cursor_Ops
  imports Mdb_Cursor
begin

text \<open>
  The operations that position a cursor and return a key and its data. A result is the return code, the cursor, and what is
  stored through the pointers to the key and the data, if anything. \<open>wk\<close> and \<open>wd\<close> say whether these pointers are
  not null.
\<close>

type_synonym 'c item = "int \<times> 'c \<times> byte list option \<times> byte list option"

text \<open>What is stored when a second call, which stores \<open>new\<close> if anything, follows a call that stored \<open>old\<close>.\<close>

definition stored :: "'b option \<Rightarrow> 'b option \<Rightarrow> 'b option" where
  "stored new old = (case new of None \<Rightarrow> old | Some x \<Rightarrow> Some x)"

lemma stored_simps [simp]: "stored None y = y" "stored (Some x) y = Some x"
  by (simp_all add: stored_def)

subsection \<open>What an operation does through the cursor of duplicates\<close>

record 'c dup_ops =
  dup_null :: "'c \<Rightarrow> bool"
  dup_clear :: "'c \<Rightarrow> mdb_fault + 'c"
  dup_flags :: "'c \<Rightarrow> mdb_fault + uint32"
  dup_init1 :: "'c \<Rightarrow> byte list \<Rightarrow> nat \<Rightarrow> mdb_fault + 'c"
  dup_next :: "'c \<Rightarrow> bool \<Rightarrow> mdb_fault + int \<times> 'c \<times> byte list option"
  dup_prev :: "'c \<Rightarrow> bool \<Rightarrow> mdb_fault + int \<times> 'c \<times> byte list option"
  dup_first :: "'c \<Rightarrow> bool \<Rightarrow> mdb_fault + int \<times> 'c \<times> byte list option"
  dup_last :: "'c \<Rightarrow> bool \<Rightarrow> mdb_fault + int \<times> 'c \<times> byte list option"
  dup_current :: "'c \<Rightarrow> byte list option \<Rightarrow> mdb_fault + int \<times> 'c \<times> byte list option"
  dup_set :: "'c \<Rightarrow> byte list \<Rightarrow> bool \<Rightarrow> mdb_fault + int \<times> 'c \<times> byte list option"
  dup_multi :: "'c \<Rightarrow> mdb_fault + 'c \<times> byte list"

type_synonym 'a mops = "'a mdb_tcursor_scheme dup_ops"

subsection \<open>Moving\<close>

definition leaf2_item :: "'a mdb_tcursor_scheme \<Rightarrow> mdb_page \<Rightarrow> bool \<Rightarrow> mdb_fault + 'a mdb_tcursor_scheme item" where
  "leaf2_item mc mp wk = (if \<not> wk then Inl Null_Deref
     else ebind (top_ki mc) (\<lambda>ki. ebind (LEAF2KEY (mp_mem mp) ki (md_pad (tc_db mc))) (\<lambda>k. Inr (0, mc, Some k, None))))"

definition MDB_GET_KEY :: "mdb_page \<Rightarrow> nat \<Rightarrow> bool \<Rightarrow> mdb_fault + byte list option" where
  "MDB_GET_KEY mp leaf wk = (if wk then ebind (NODEKEY (mp_mem mp) leaf) (\<lambda>k. Inr (Some k)) else Inr None)"

definition cursor_node_read :: "'a mdb_tcursor_scheme \<Rightarrow> mdb_page \<Rightarrow> nat \<Rightarrow> mdb_fault + int \<times> 'a mdb_tcursor_scheme \<times> byte list option" where
  "cursor_node_read mc mp leaf = ebind (mdb_node_read (tc_txn mc) (mp_mem mp) leaf) (\<lambda>(rc, txn, d). Inr (rc, mc\<lparr>tc_txn := txn\<rparr>, d))"

text \<open>The end of \<open>mdb_cursor_next\<close> and \<open>mdb_cursor_prev\<close>: the item the cursor is on.\<close>

definition cursor_item :: "'a mops \<Rightarrow> ('a mdb_tcursor_scheme \<Rightarrow> bool \<Rightarrow> mdb_fault + int \<times> 'a mdb_tcursor_scheme \<times> byte list option) \<Rightarrow>
    'a mdb_tcursor_scheme \<Rightarrow> mdb_page \<Rightarrow> bool \<Rightarrow> bool \<Rightarrow> mdb_fault + 'a mdb_tcursor_scheme item" where
  "cursor_item ops dup_edge mc mp wk wd =
     (if IS_LEAF2 mp then leaf2_item mc mp wk
      else if \<not> IS_LEAF mp then Inl Assert_Fail
      else ebind (top_ki mc) (\<lambda>ki. ebind (mp_ptrs (mp_mem mp) ki) (\<lambda>leaf. ebind (node_flag (mp_mem mp) leaf F_DUPDATA) (\<lambda>dup.
        ebind (if dup then dup_init1 ops mc (mp_mem mp) leaf else Inr mc) (\<lambda>mc.
        ebind (if wd then ebind (cursor_node_read mc mp leaf) (\<lambda>(rc, mc, d).
                 if rc = 0 \<and> dup then ebind (dup_edge mc True) (\<lambda>(rc, mc, d'). Inr (rc, mc, stored d' d)) else Inr (rc, mc, d))
               else Inr (0, mc, None)) (\<lambda>(rc, mc, d).
        if rc \<noteq> 0 then Inr (rc, mc, None, d)
        else ebind (MDB_GET_KEY mp leaf wk) (\<lambda>k. Inr (0, mc, k, d))))))))"

text \<open>
  The beginning of \<open>mdb_cursor_next\<close> and \<open>mdb_cursor_prev\<close> on a database with duplicates: the next value of the same key, on the
  left, or the cursor with which to go on to the next key.
\<close>

definition next_dup :: "'a mops \<Rightarrow> 'a mdb_tcursor_scheme \<Rightarrow> mdb_page \<Rightarrow> bool \<Rightarrow> bool \<Rightarrow> MDB_cursor_op \<Rightarrow>
    mdb_fault + 'a mdb_tcursor_scheme item + 'a mdb_tcursor_scheme" where
  "next_dup ops mc mp wk wd op =
     (if md_flags (tc_db mc) AND MDB_DUPSORT \<noteq> 0 then
        ebind (top_ki mc) (\<lambda>ki. ebind (mp_ptrs (mp_mem mp) ki) (\<lambda>leaf. ebind (node_flag (mp_mem mp) leaf F_DUPDATA) (\<lambda>dup.
        if dup then
          if op = MDB_NEXT \<or> op = MDB_NEXT_DUP then ebind (dup_next ops mc wd) (\<lambda>(rc, mc, d).
            if op \<noteq> MDB_NEXT \<or> rc \<noteq> MDB_NOTFOUND then
              ebind (if rc = 0 then MDB_GET_KEY mp leaf wk else Inr None) (\<lambda>k. Inr (Inl (rc, mc, k, d)))
            else Inr (Inr mc))
          else Inr (Inr mc)
        else ebind (dup_clear ops mc) (\<lambda>mc. if op = MDB_NEXT_DUP then Inr (Inl (MDB_NOTFOUND, mc, None, None)) else Inr (Inr mc)))))
      else Inr (Inr mc))"

definition cursor_next :: "'a mops \<Rightarrow> 'a mdb_tcursor_scheme \<Rightarrow> bool \<Rightarrow> bool \<Rightarrow> MDB_cursor_op \<Rightarrow> mdb_fault + 'a mdb_tcursor_scheme item" where
  "cursor_next ops mc wk wd op =
     (if has_flag C_EOF mc then Inr (MDB_NOTFOUND, mc, None, None)
      else if \<not> has_flag C_INITIALIZED mc then Inl Assert_Fail
      else ebind (top_page mc) (\<lambda>mp. ebind (next_dup ops mc mp wk wd op) (\<lambda>r. case r of Inl res \<Rightarrow> Inr res
      | Inr mc \<Rightarrow>
          if has_flag C_DEL mc then cursor_item ops (dup_first ops) mc mp wk wd
          else ebind (top_ki mc) (\<lambda>ki.
            if ki + 1 \<ge> NUMKEYS mp then ebind (mdb_cursor_sibling mc True) (\<lambda>(rc, mc).
              if rc \<noteq> 0 then Inr (rc, set_flags C_EOF mc, None, None)
              else ebind (top_page mc) (\<lambda>mp. cursor_item ops (dup_first ops) mc mp wk wd))
            else ebind (set_ki mc (ki + 1)) (\<lambda>mc. cursor_item ops (dup_first ops) mc mp wk wd)))))"

definition prev_dup :: "'a mops \<Rightarrow> 'a mdb_tcursor_scheme \<Rightarrow> mdb_page \<Rightarrow> bool \<Rightarrow> bool \<Rightarrow> MDB_cursor_op \<Rightarrow>
    mdb_fault + 'a mdb_tcursor_scheme item + 'a mdb_tcursor_scheme" where
  "prev_dup ops mc mp wk wd op =
     (if md_flags (tc_db mc) AND MDB_DUPSORT \<noteq> 0 then
        ebind (top_ki mc) (\<lambda>ki. ebind (mp_ptrs (mp_mem mp) ki) (\<lambda>leaf. ebind (node_flag (mp_mem mp) leaf F_DUPDATA) (\<lambda>dup.
        if dup then
          if op = MDB_PREV \<or> op = MDB_PREV_DUP then ebind (dup_prev ops mc wd) (\<lambda>(rc, mc, d).
            if op \<noteq> MDB_PREV \<or> rc \<noteq> MDB_NOTFOUND then
              ebind (if rc = 0 then MDB_GET_KEY mp leaf wk else Inr None) (\<lambda>k. Inr (Inl (rc, mc, k, d)))
            else Inr (Inr mc))
          else ebind (dup_clear ops mc) (\<lambda>mc. if op = MDB_PREV_DUP then Inr (Inl (MDB_NOTFOUND, mc, None, None)) else Inr (Inr mc))
        else Inr (Inr mc))))
      else Inr (Inr mc))"

definition cursor_prev :: "'a mops \<Rightarrow> 'a mdb_tcursor_scheme \<Rightarrow> bool \<Rightarrow> bool \<Rightarrow> MDB_cursor_op \<Rightarrow> mdb_fault + 'a mdb_tcursor_scheme item" where
  "cursor_prev ops mc wk wd op =
     (if \<not> has_flag C_INITIALIZED mc then Inl Assert_Fail
      else ebind (top_page mc) (\<lambda>mp. ebind (prev_dup ops mc mp wk wd op) (\<lambda>r. case r of Inl res \<Rightarrow> Inr res
      | Inr mc \<Rightarrow> ebind (top_ki mc) (\<lambda>ki.
          if ki = 0 then ebind (mdb_cursor_sibling mc False) (\<lambda>(rc, mc).
            if rc \<noteq> 0 then Inr (rc, mc, None, None)
            else ebind (top_page mc) (\<lambda>mp. ebind (set_ki mc (indx_t (int (NUMKEYS mp) - 1))) (\<lambda>mc.
              cursor_item ops (dup_last ops) (clr_flags C_EOF mc) mp wk wd)))
          else ebind (set_ki mc (ki - 1)) (\<lambda>mc. cursor_item ops (dup_last ops) (clr_flags C_EOF mc) mp wk wd)))))"

text \<open>The end of \<open>mdb_cursor_first\<close> and \<open>mdb_cursor_last\<close>.\<close>

definition edge_item :: "'a mops \<Rightarrow> ('a mdb_tcursor_scheme \<Rightarrow> bool \<Rightarrow> mdb_fault + int \<times> 'a mdb_tcursor_scheme \<times> byte list option) \<Rightarrow>
    'a mdb_tcursor_scheme \<Rightarrow> mdb_page \<Rightarrow> nat \<Rightarrow> bool \<Rightarrow> bool \<Rightarrow> mdb_fault + 'a mdb_tcursor_scheme item" where
  "edge_item ops dup_edge mc mp ki wk wd =
     (if IS_LEAF2 mp then leaf2_item mc mp wk
      else ebind (mp_ptrs (mp_mem mp) ki) (\<lambda>leaf.
        ebind (if wd then ebind (node_flag (mp_mem mp) leaf F_DUPDATA) (\<lambda>dup.
                 if dup then ebind (dup_init1 ops mc (mp_mem mp) leaf) (\<lambda>mc. dup_edge mc True)
                 else cursor_node_read mc mp leaf)
               else Inr (0, mc, None)) (\<lambda>(rc, mc, d).
        if rc \<noteq> 0 then Inr (rc, mc, None, d)
        else ebind (MDB_GET_KEY mp leaf wk) (\<lambda>k. Inr (0, mc, k, d)))))"

definition clear_dup :: "'a mops \<Rightarrow> 'a mdb_tcursor_scheme \<Rightarrow> mdb_fault + 'a mdb_tcursor_scheme" where
  "clear_dup ops mc = (if dup_null ops mc then Inr mc else dup_clear ops mc)"

definition cursor_first :: "'a mops \<Rightarrow> 'a mdb_tcursor_scheme \<Rightarrow> bool \<Rightarrow> bool \<Rightarrow> mdb_fault + 'a mdb_tcursor_scheme item" where
  "cursor_first ops mc wk wd = ebind (clear_dup ops mc) (\<lambda>mc.
     ebind (if \<not> has_flag C_INITIALIZED mc \<or> tc_top mc \<noteq> 0 then read_search mc None MDB_PS_FIRST else Inr (0, mc)) (\<lambda>(rc, mc).
     if rc \<noteq> 0 then Inr (rc, mc, None, None)
     else ebind (top_page mc) (\<lambda>mp. if \<not> IS_LEAF mp then Inl Assert_Fail
       else ebind (set_ki (clr_flags C_EOF (set_flags C_INITIALIZED mc)) 0) (\<lambda>mc.
         edge_item ops (dup_first ops) mc mp 0 wk wd))))"

definition cursor_last :: "'a mops \<Rightarrow> 'a mdb_tcursor_scheme \<Rightarrow> bool \<Rightarrow> bool \<Rightarrow> mdb_fault + 'a mdb_tcursor_scheme item" where
  "cursor_last ops mc wk wd = ebind (clear_dup ops mc) (\<lambda>mc.
     ebind (if \<not> has_flag C_EOF mc then
              ebind (if \<not> has_flag C_INITIALIZED mc \<or> tc_top mc \<noteq> 0 then read_search mc None MDB_PS_LAST else Inr (0, mc)) (\<lambda>(rc, mc).
              if rc \<noteq> 0 then Inr (rc, mc)
              else ebind (top_page mc) (\<lambda>mp. if \<not> IS_LEAF mp then Inl Assert_Fail else Inr (0, mc)))
            else Inr (0, mc)) (\<lambda>(rc, mc).
     if rc \<noteq> 0 then Inr (rc, mc, None, None)
     else ebind (top_page mc) (\<lambda>mp. let ki = indx_t (int (NUMKEYS mp) - 1) in
       ebind (set_ki mc ki) (\<lambda>mc. edge_item ops (dup_last ops) (set_flags (C_INITIALIZED OR C_EOF) mc) mp ki wk wd))))"

subsection \<open>Positioning\<close>

definition key_at :: "'a mdb_tcursor_scheme \<Rightarrow> mdb_page \<Rightarrow> nat \<Rightarrow> mdb_fault + byte list" where
  "key_at mc mp i = (if mp_flags mp AND P_LEAF2 \<noteq> 0 then LEAF2KEY (mp_mem mp) i (md_pad (tc_db mc)) else node_key mp i)"

text \<open>
  \<open>mdb_cursor_set\<close> from the label \<open>set1\<close> on, with the index of \<open>leaf\<close> on the page. \<open>data\<close> is the value at the pointer to the
  data, \<open>None\<close> if the pointer is null.
\<close>

definition set_data :: "'a mops \<Rightarrow> 'a mdb_tcursor_scheme \<Rightarrow> mdb_page \<Rightarrow> nat \<Rightarrow> bool \<Rightarrow> byte list \<Rightarrow> MDB_cursor_op \<Rightarrow>
    mdb_fault + bool \<times> int \<times> 'a mdb_tcursor_scheme \<times> byte list option" where
  "set_data ops mc mp leaf dup data op =
     (if dup then
        if op = MDB_SET \<or> op = MDB_SET_KEY \<or> op = MDB_SET_RANGE then ebind (dup_first ops mc True) (\<lambda>(rc, mc, d). Inr (False, rc, mc, d))
        else ebind (dup_set ops mc data (op = MDB_GET_BOTH)) (\<lambda>(rc, mc, d). Inr (rc \<noteq> 0, rc, mc, d))
      else if op = MDB_GET_BOTH \<or> op = MDB_GET_BOTH_RANGE then
        ebind (cursor_node_read mc mp leaf) (\<lambda>(rc, mc, d2). if rc \<noteq> 0 then Inr (True, rc, mc, None)
        else case md_dcmp (tc_dbx mc) of None \<Rightarrow> Inl Null_Deref | Some dcmp \<Rightarrow>
          ebind (run_cmp dcmp data (the d2)) (\<lambda>rc.
          if rc \<noteq> 0 then if op = MDB_GET_BOTH \<or> rc > 0 then Inr (True, MDB_NOTFOUND, mc, None) else Inr (False, 0, mc, d2)
          else Inr (False, 0, mc, None)))
      else ebind (clear_dup ops mc) (\<lambda>mc. ebind (cursor_node_read mc mp leaf) (\<lambda>(rc, mc, d). Inr (rc \<noteq> 0, rc, mc, d))))"

definition set1 :: "'a mops \<Rightarrow> 'a mdb_tcursor_scheme \<Rightarrow> mdb_page \<Rightarrow> nat \<Rightarrow> byte list option \<Rightarrow> MDB_cursor_op \<Rightarrow>
    mdb_fault + 'a mdb_tcursor_scheme item" where
  "set1 ops mc mp leaf data op = (let mc = clr_flags C_EOF (set_flags C_INITIALIZED mc) in
     if IS_LEAF2 mp then leaf2_item mc mp True
     else ebind (mp_ptrs (mp_mem mp) leaf) (\<lambda>leaf. ebind (node_flag (mp_mem mp) leaf F_DUPDATA) (\<lambda>dup.
       ebind (if dup then dup_init1 ops mc (mp_mem mp) leaf else Inr mc) (\<lambda>mc.
       ebind (case data of None \<Rightarrow> Inr (False, 0, mc, None) | Some data \<Rightarrow> set_data ops mc mp leaf dup data op) (\<lambda>(ret, rc, mc, d).
       if ret then Inr (rc, mc, None, d)
       else ebind (MDB_GET_KEY mp leaf (op = MDB_SET_RANGE \<or> op = MDB_SET_KEY)) (\<lambda>k. Inr (rc, mc, k, d)))))))"

definition set2 :: "'a mops \<Rightarrow> 'a mdb_tcursor_scheme \<Rightarrow> mdb_page \<Rightarrow> byte list \<Rightarrow> byte list option \<Rightarrow> MDB_cursor_op \<Rightarrow> bool \<Rightarrow>
    mdb_fault + 'a mdb_tcursor_scheme item" where
  "set2 ops mc mp key data op exactp = ebind (cursor_node_search mc (Some key)) (\<lambda>(leaf, exact, mc).
     if exactp \<and> \<not> exact then Inr (MDB_NOTFOUND, mc, None, None)
     else case leaf of Some i \<Rightarrow> set1 ops mc mp i data op
     | None \<Rightarrow> ebind (mdb_cursor_sibling mc True) (\<lambda>(rc, mc). if rc \<noteq> 0 then Inr (rc, mc, None, None)
         else ebind (top_page mc) (\<lambda>mp. if \<not> IS_LEAF mp then Inl Assert_Fail else set1 ops mc mp 0 data op)))"

text \<open>\<open>for (i=0; i<mc->mc_top; i++) if (mc->mc_ki[i] < NUMKEYS(mc->mc_pg[i])-1) break;\<close>, from \<open>i\<close> on: whether it breaks\<close>

fun right_sibs :: "'a mdb_tcursor_scheme \<Rightarrow> nat \<Rightarrow> nat \<Rightarrow> mdb_fault + bool" where
  "right_sibs mc i 0 = Inr False"
| "right_sibs mc i (Suc n) = ebind (of_arr (aget (tc_ki mc) i)) (\<lambda>ki. ebind (page_at mc i) (\<lambda>p.
     if ki < (NUMKEYS p + (2 ^ 32 - 1)) mod 2 ^ 32 then Inr True else right_sibs mc (i + 1) n))"

definition search_set :: "'a mops \<Rightarrow> 'a mdb_tcursor_scheme \<Rightarrow> byte list \<Rightarrow> byte list option \<Rightarrow> MDB_cursor_op \<Rightarrow> bool \<Rightarrow>
    mdb_fault + 'a mdb_tcursor_scheme item" where
  "search_set ops mc key data op exactp = ebind (read_search mc (Some key) 0) (\<lambda>(rc, mc).
     if rc \<noteq> 0 then Inr (rc, mc, None, None)
     else ebind (top_page mc) (\<lambda>mp. if \<not> IS_LEAF mp then Inl Assert_Fail else set2 ops mc mp key data op exactp))"

text \<open>The test whether the cursor is on the right page already.\<close>

definition set_here :: "'a mops \<Rightarrow> 'a mdb_tcursor_scheme \<Rightarrow> byte list \<Rightarrow> byte list option \<Rightarrow> MDB_cursor_op \<Rightarrow> bool \<Rightarrow>
    mdb_fault + 'a mdb_tcursor_scheme item" where
  "set_here ops mc key data op exactp = ebind (top_page mc) (\<lambda>mp. let nkeys = NUMKEYS mp; cmp = run_cmp (md_cmp (tc_dbx mc)) in
     if nkeys = 0 then ebind (set_ki mc 0) (\<lambda>mc. Inr (MDB_NOTFOUND, mc, None, None))
     else
       let leftmost = (if tc_top mc = 0 then ebind (set_ki mc 0) (\<lambda>mc.
              if op = MDB_SET_RANGE then set1 ops mc mp 0 data op else Inr (MDB_NOTFOUND, mc, None, None))
            else search_set ops mc key data op exactp);
           rightmost = ebind (right_sibs mc 0 (tc_top mc)) (\<lambda>more.
              if \<not> more then ebind (set_ki mc nkeys) (\<lambda>mc. Inr (MDB_NOTFOUND, mc, None, None)) else leftmost)
       in ebind (key_at mc mp 0) (\<lambda>nodekey. ebind (cmp key nodekey) (\<lambda>rc.
         if rc = 0 then ebind (set_ki mc 0) (\<lambda>mc. set1 ops mc mp 0 data op)
         else if rc > 0 then
           if nkeys > 1 then ebind (key_at mc mp (nkeys - 1)) (\<lambda>nodekey. ebind (cmp key nodekey) (\<lambda>rc.
             if rc = 0 then ebind (set_ki mc (nkeys - 1)) (\<lambda>mc. set1 ops mc mp (nkeys - 1) data op)
             else if rc < 0 then ebind (top_ki mc) (\<lambda>ki.
               if ki < nkeys then ebind (key_at mc mp ki) (\<lambda>nodekey. ebind (cmp key nodekey) (\<lambda>rc.
                 if rc = 0 then set1 ops mc mp ki data op else set2 ops mc mp key data op exactp))
               else set2 ops mc mp key data op exactp)
             else rightmost))
           else rightmost
         else leftmost)))"

definition cursor_set :: "'a mops \<Rightarrow> 'a mdb_tcursor_scheme \<Rightarrow> byte list \<Rightarrow> byte list option \<Rightarrow> MDB_cursor_op \<Rightarrow> bool \<Rightarrow>
    mdb_fault + 'a mdb_tcursor_scheme item" where
  "cursor_set ops mc key data op exactp =
     (if length key = 0 then Inr (MDB_BAD_VALSIZE, mc, None, None)
      else ebind (clear_dup ops mc) (\<lambda>mc.
        if has_flag C_INITIALIZED mc then set_here ops mc key data op exactp
        else search_set ops mc key data op exactp))"

subsection \<open>The interface\<close>

definition get_current :: "'a mops \<Rightarrow> 'a mdb_tcursor_scheme \<Rightarrow> byte list option \<Rightarrow> byte list option \<Rightarrow> mdb_fault + 'a mdb_tcursor_scheme item" where
  "get_current ops mc key data =
     (if \<not> has_flag C_INITIALIZED mc then Inr (EINVAL, mc, None, None)
      else ebind (top_page mc) (\<lambda>mp. ebind (top_ki mc) (\<lambda>ki. let nkeys = NUMKEYS mp in
        if nkeys = 0 \<or> ki \<ge> nkeys then ebind (set_ki mc nkeys) (\<lambda>mc. Inr (MDB_NOTFOUND, mc, None, None))
        else if IS_LEAF2 mp then leaf2_item mc mp (key \<noteq> None)
        else ebind (mp_ptrs (mp_mem mp) ki) (\<lambda>leaf. ebind (MDB_GET_KEY mp leaf (key \<noteq> None)) (\<lambda>k.
          ebind (if data \<noteq> None then ebind (node_flag (mp_mem mp) leaf F_DUPDATA) (\<lambda>dup.
                   if dup then ebind (if has_flag C_DEL mc then dup_init1 ops mc (mp_mem mp) leaf else Inr mc) (\<lambda>mc. dup_current ops mc data)
                   else cursor_node_read mc mp leaf)
                 else Inr (0, mc, None)) (\<lambda>(rc, mc, d). Inr (rc, mc, k, d)))))))"

text \<open>\<open>fetchm\<close>\<close>

definition fetch_multiple :: "'a mops \<Rightarrow> 'a mdb_tcursor_scheme \<Rightarrow> byte list option \<Rightarrow> mdb_fault + 'a mdb_tcursor_scheme item" where
  "fetch_multiple ops mc k = ebind (dup_multi ops mc) (\<lambda>(mc, d). Inr (0, mc, k, Some d))"

definition move_dup :: "'a mops \<Rightarrow> ('a mdb_tcursor_scheme \<Rightarrow> bool \<Rightarrow> mdb_fault + int \<times> 'a mdb_tcursor_scheme \<times> byte list option) \<Rightarrow>
    'a mdb_tcursor_scheme \<Rightarrow> byte list option \<Rightarrow> mdb_fault + 'a mdb_tcursor_scheme item" where
  "move_dup ops mfunc mc data =
     (if data = None \<or> \<not> has_flag C_INITIALIZED mc then Inr (EINVAL, mc, None, None)
      else if dup_null ops mc then Inr (MDB_INCOMPATIBLE, mc, None, None)
      else ebind (dup_flags ops mc) (\<lambda>f. if f AND C_INITIALIZED = 0 then Inr (EINVAL, mc, None, None)
        else ebind (mfunc mc True) (\<lambda>(rc, mc, d). Inr (rc, mc, None, d))))"

definition prev_op :: "'a mops \<Rightarrow> 'a mdb_tcursor_scheme \<Rightarrow> bool \<Rightarrow> bool \<Rightarrow> MDB_cursor_op \<Rightarrow> mdb_fault + 'a mdb_tcursor_scheme item" where
  "prev_op ops mc wk wd op =
     (if \<not> has_flag C_INITIALIZED mc then ebind (cursor_last ops mc wk wd) (\<lambda>(rc, mc, k, d).
        if rc \<noteq> 0 then Inr (rc, mc, k, d)
        else ebind (top_ki mc) (\<lambda>ki. ebind (set_ki (set_flags C_INITIALIZED mc) (indx_t (int ki + 1))) (\<lambda>mc.
          ebind (cursor_prev ops mc wk wd op) (\<lambda>(rc, mc, k', d'). Inr (rc, mc, stored k' k, stored d' d)))))
      else cursor_prev ops mc wk wd op)"

definition get_op :: "'a mops \<Rightarrow> 'a mdb_tcursor_scheme \<Rightarrow> byte list option \<Rightarrow> byte list option \<Rightarrow> MDB_cursor_op \<Rightarrow>
    mdb_fault + 'a mdb_tcursor_scheme item" where
  "get_op ops mc key data op =
     (let wk = (key \<noteq> None); wd = (data \<noteq> None);
          setk = (\<lambda>mc. case key of None \<Rightarrow> Inr (EINVAL, mc, None, None) | Some k \<Rightarrow> cursor_set ops mc k data op (op \<noteq> MDB_SET_RANGE))
      in case op of
        MDB_GET_CURRENT \<Rightarrow> get_current ops mc key data
      | MDB_GET_BOTH \<Rightarrow> if \<not> wd then Inr (EINVAL, mc, None, None) else if dup_null ops mc then Inr (MDB_INCOMPATIBLE, mc, None, None) else setk mc
      | MDB_GET_BOTH_RANGE \<Rightarrow> if \<not> wd then Inr (EINVAL, mc, None, None) else if dup_null ops mc then Inr (MDB_INCOMPATIBLE, mc, None, None) else setk mc
      | MDB_SET \<Rightarrow> setk mc
      | MDB_SET_KEY \<Rightarrow> setk mc
      | MDB_SET_RANGE \<Rightarrow> setk mc
      | MDB_GET_MULTIPLE \<Rightarrow>
          if \<not> wd \<or> \<not> has_flag C_INITIALIZED mc then Inr (EINVAL, mc, None, None)
          else if md_flags (tc_db mc) AND MDB_DUPFIXED = 0 then Inr (MDB_INCOMPATIBLE, mc, None, None)
          else ebind (dup_flags ops mc) (\<lambda>f. if f AND C_INITIALIZED = 0 \<or> f AND C_EOF \<noteq> 0 then Inr (0, mc, None, None)
            else fetch_multiple ops mc None)
      | MDB_NEXT_MULTIPLE \<Rightarrow>
          if \<not> wd then Inr (EINVAL, mc, None, None)
          else if md_flags (tc_db mc) AND MDB_DUPFIXED = 0 then Inr (MDB_INCOMPATIBLE, mc, None, None)
          else ebind (if \<not> has_flag C_INITIALIZED mc then cursor_first ops mc wk wd else cursor_next ops mc wk wd MDB_NEXT_DUP) (\<lambda>(rc, mc, k, d).
            if rc \<noteq> 0 then Inr (rc, mc, k, d)
            else ebind (dup_flags ops mc) (\<lambda>f. if f AND C_INITIALIZED \<noteq> 0 then fetch_multiple ops mc k else Inr (MDB_NOTFOUND, mc, k, d)))
      | MDB_NEXT \<Rightarrow> if \<not> has_flag C_INITIALIZED mc then cursor_first ops mc wk wd else cursor_next ops mc wk wd op
      | MDB_NEXT_DUP \<Rightarrow> if \<not> has_flag C_INITIALIZED mc then cursor_first ops mc wk wd else cursor_next ops mc wk wd op
      | MDB_NEXT_NODUP \<Rightarrow> if \<not> has_flag C_INITIALIZED mc then cursor_first ops mc wk wd else cursor_next ops mc wk wd op
      | MDB_FIRST \<Rightarrow> cursor_first ops mc wk wd
      | MDB_FIRST_DUP \<Rightarrow> move_dup ops (dup_first ops) mc data
      | MDB_LAST \<Rightarrow> cursor_last ops mc wk wd
      | MDB_LAST_DUP \<Rightarrow> move_dup ops (dup_last ops) mc data
      | _ \<Rightarrow> \<comment> \<open>\<open>MDB_PREV\<close>, \<open>MDB_PREV_DUP\<close>, \<open>MDB_PREV_NODUP\<close>\<close>
          prev_op ops mc wk wd op)"

definition cursor_get :: "'a mops \<Rightarrow> 'a mdb_tcursor_scheme \<Rightarrow> byte list option \<Rightarrow> byte list option \<Rightarrow> MDB_cursor_op \<Rightarrow>
    mdb_fault + 'a mdb_tcursor_scheme item" where
  "cursor_get ops mc key data op =
     (if tx_flags (tc_txn mc) AND MDB_TXN_ERROR \<noteq> 0 then Inr (MDB_BAD_TXN, mc, None, None)
      else ebind (get_op ops mc key data op) (\<lambda>(rc, mc, k, d).
        Inr (rc, if has_flag C_DEL mc then mc\<lparr>tc_flags := tc_flags mc XOR C_DEL\<rparr> else mc, k, d)))"

subsection \<open>Sub-cursors\<close>

definition sub_ops :: "unit mops" where
  "sub_ops = \<lparr>dup_null = \<lambda>_. True, dup_clear = \<lambda>_. Inl Null_Deref, dup_flags = \<lambda>_. Inl Null_Deref, dup_init1 = \<lambda>_ _ _. Inl Null_Deref,
     dup_next = \<lambda>_ _. Inl Null_Deref, dup_prev = \<lambda>_ _. Inl Null_Deref, dup_first = \<lambda>_ _. Inl Null_Deref, dup_last = \<lambda>_ _. Inl Null_Deref,
     dup_current = \<lambda>_ _. Inl Null_Deref, dup_set = \<lambda>_ _ _. Inl Null_Deref, dup_multi = \<lambda>_. Inl Null_Deref\<rparr>"

definition keep_key :: "mdb_fault + 'c item \<Rightarrow> mdb_fault + int \<times> 'c \<times> byte list option" where
  "keep_key r = ebind r (\<lambda>(rc, mc, k, d). Inr (rc, mc, k))"

text \<open>A call on \<open>mc->mc_xcursor->mx_cursor\<close>, which shares the transaction.\<close>

definition via_x :: "(mdb_tcursor \<Rightarrow> mdb_fault + int \<times> mdb_tcursor \<times> byte list option) \<Rightarrow> mdb_mcursor \<Rightarrow>
    mdb_fault + int \<times> mdb_mcursor \<times> byte list option" where
  "via_x f mc = (case mc_xcursor mc of None \<Rightarrow> Inl Null_Deref
     | Some x \<Rightarrow> ebind (f (x\<lparr>tc_txn := tc_txn mc\<rparr>)) (\<lambda>(rc, x, k). Inr (rc, mc\<lparr>mc_xcursor := Some x, tc_txn := tc_txn x\<rparr>, k)))"

text \<open>The sub-page at an offset of a page.\<close>

definition sub_page :: "byte list \<Rightarrow> nat \<Rightarrow> mdb_fault + mdb_page" where
  "sub_page m off = ebind (rd_bytes m off PAGEHDRSZ) (\<lambda>h. let at = (\<lambda>i n. le_value (take n (drop i h))) in
     Inr \<lparr>mp_pgno = at 0 8, mp_pad = at 8 2, mp_flags = word_of_nat (at 10 2), mp_lower = at 12 2, mp_upper = at 14 2, mp_mem = drop off m\<rparr>)"

text \<open>
  A sub-cursor compares with the comparison for data of its database, which every database with duplicates has; a null pointer there is a
  fault when it is copied here, and in the code when it is called. \<open>junk\<close> is what the memory of the sub-cursor holds before.
\<close>

definition mdb_xcursor_init0 :: "mdb_tcursor \<Rightarrow> mdb_mcursor \<Rightarrow> mdb_fault + mdb_tcursor" where
  "mdb_xcursor_init0 junk mc = (case md_dcmp (tc_dbx mc) of None \<Rightarrow> Inl Null_Deref
     | Some f \<Rightarrow> Inr (junk\<lparr>tc_txn := tc_txn mc, tc_dbi := tc_dbi mc, tc_snum := 0, tc_top := 0, tc_flags := C_SUB,
         tc_dbx := \<lparr>md_name = [], md_cmp = f, md_dcmp = None\<rparr>\<rparr>))"

definition mdb_xcursor_init1 :: "mdb_mcursor \<Rightarrow> byte list \<Rightarrow> nat \<Rightarrow> mdb_fault + mdb_mcursor" where
  "mdb_xcursor_init1 mc m node = (case mc_xcursor mc of None \<Rightarrow> Inl Null_Deref | Some mx \<Rightarrow>
     ebind (mn_flags m node) (\<lambda>fl. ebind (NODEDATA m node) (\<lambda>d.
     ebind (if (word_of_nat fl :: uint32) AND F_SUBDATA \<noteq> 0 then
              ebind (rd_bytes m d 48) (\<lambda>b. ebind (db_of_bytes b) (\<lambda>db.
              Inr (mx\<lparr>tc_db := db, tc_pg := (tc_pg mx)[0 := None], tc_snum := 0, tc_top := 0, tc_flags := C_SUB\<rparr>)))
            else ebind (sub_page m d) (\<lambda>fp. ebind (top_page mc) (\<lambda>mp.
              let fixed = (md_flags (tc_db mc) AND MDB_DUPFIXED \<noteq> 0);
                  db = \<lparr>md_pad = (if fixed then mp_pad fp else mp_pad mp), md_branch_pages = 0, md_leaf_pages = 1, md_overflow_pages = 0,
                        md_flags = (if fixed then if md_flags (tc_db mc) AND MDB_INTEGERDUP \<noteq> 0 then MDB_DUPFIXED OR MDB_INTEGERKEY else MDB_DUPFIXED else 0),
                        md_depth = 1, md_entries = NUMKEYS fp, md_root = mp_pgno fp\<rparr>
              in Inr (mx\<lparr>tc_db := db, tc_snum := 1, tc_top := 0, tc_flags := C_INITIALIZED OR C_SUB,
                   tc_pg := (tc_pg mx)[0 := Some fp], tc_ki := (tc_ki mx)[0 := 0]\<rparr>)))) (\<lambda>mx.
     let dbx = tc_dbx mx;
         cmp = (case md_cmp dbx of Cmp_int \<Rightarrow> if md_pad (tc_db mx) = 8 then Cmp_long else Cmp_int | f \<Rightarrow> f)
     in Inr (mc\<lparr>mc_xcursor := Some (mx\<lparr>tc_dbflag := DB_VALID OR DB_DIRTY, tc_dbx := dbx\<lparr>md_cmp := cmp\<rparr>\<rparr>)\<rparr>)))))"

definition x_multi :: "mdb_mcursor \<Rightarrow> mdb_fault + mdb_mcursor \<times> byte list" where
  "x_multi mc = (case mc_xcursor mc of None \<Rightarrow> Inl Null_Deref | Some mx \<Rightarrow>
     ebind (top_page mx) (\<lambda>mp. ebind (rd_bytes (mp_mem mp) PAGEHDRSZ (NUMKEYS mp * md_pad (tc_db mx))) (\<lambda>d.
     ebind (set_ki mx (indx_t (int (NUMKEYS mp) - 1))) (\<lambda>mx. Inr (mc\<lparr>mc_xcursor := Some mx\<rparr>, d)))))"

definition main_ops :: "mdb_mcursor dup_ops" where
  "main_ops = \<lparr>dup_null = \<lambda>mc. mc_xcursor mc = None,
     dup_clear = \<lambda>mc. case mc_xcursor mc of None \<Rightarrow> Inl Null_Deref | Some x \<Rightarrow> Inr (mc\<lparr>mc_xcursor := Some (clr_flags (C_INITIALIZED OR C_EOF) x)\<rparr>),
     dup_flags = \<lambda>mc. case mc_xcursor mc of None \<Rightarrow> Inl Null_Deref | Some x \<Rightarrow> Inr (tc_flags x),
     dup_init1 = mdb_xcursor_init1,
     dup_next = \<lambda>mc w. via_x (\<lambda>x. keep_key (cursor_next sub_ops x w False MDB_NEXT)) mc,
     dup_prev = \<lambda>mc w. via_x (\<lambda>x. keep_key (cursor_prev sub_ops x w False MDB_PREV)) mc,
     dup_first = \<lambda>mc w. via_x (\<lambda>x. keep_key (cursor_first sub_ops x w False)) mc,
     dup_last = \<lambda>mc w. via_x (\<lambda>x. keep_key (cursor_last sub_ops x w False)) mc,
     dup_current = \<lambda>mc d. via_x (\<lambda>x. keep_key (cursor_get sub_ops x d None MDB_GET_CURRENT)) mc,
     dup_set = \<lambda>mc d e. via_x (\<lambda>x. keep_key (cursor_set sub_ops x d None MDB_SET_RANGE e)) mc,
     dup_multi = x_multi\<rparr>"

subsection \<open>The functions of the library\<close>

definition mdb_cursor_next :: "mdb_mcursor \<Rightarrow> bool \<Rightarrow> bool \<Rightarrow> MDB_cursor_op \<Rightarrow> mdb_fault + mdb_mcursor item" where
  "mdb_cursor_next = cursor_next main_ops"

definition mdb_cursor_prev :: "mdb_mcursor \<Rightarrow> bool \<Rightarrow> bool \<Rightarrow> MDB_cursor_op \<Rightarrow> mdb_fault + mdb_mcursor item" where
  "mdb_cursor_prev = cursor_prev main_ops"

definition mdb_cursor_set :: "mdb_mcursor \<Rightarrow> byte list \<Rightarrow> byte list option \<Rightarrow> MDB_cursor_op \<Rightarrow> bool \<Rightarrow> mdb_fault + mdb_mcursor item" where
  "mdb_cursor_set = cursor_set main_ops"

definition mdb_cursor_first :: "mdb_mcursor \<Rightarrow> bool \<Rightarrow> bool \<Rightarrow> mdb_fault + mdb_mcursor item" where
  "mdb_cursor_first = cursor_first main_ops"

definition mdb_cursor_last :: "mdb_mcursor \<Rightarrow> bool \<Rightarrow> bool \<Rightarrow> mdb_fault + mdb_mcursor item" where
  "mdb_cursor_last = cursor_last main_ops"

definition mdb_cursor_get :: "mdb_mcursor option \<Rightarrow> byte list option \<Rightarrow> byte list option \<Rightarrow> MDB_cursor_op \<Rightarrow>
    mdb_fault + int \<times> mdb_mcursor option \<times> byte list option \<times> byte list option" where
  "mdb_cursor_get mc key data op = (case mc of None \<Rightarrow> Inr (EINVAL, None, None, None)
     | Some mc \<Rightarrow> ebind (cursor_get main_ops mc key data op) (\<lambda>(rc, mc, k, d). Inr (rc, Some mc, k, d)))"

definition mdb_cursor_init :: "mdb_tcursor option \<Rightarrow> mdb_txn \<Rightarrow> nat \<Rightarrow> mdb_fault + mdb_mcursor" where
  "mdb_cursor_init mx txn dbi = ebind (cursor_fields txn dbi) (\<lambda>c. let mc = mdb_tcursor.extend c (mdb_mcursor.fields None) in
     ebind (if md_flags (tc_db mc) AND MDB_DUPSORT \<noteq> 0 then (case mx of None \<Rightarrow> Inl Assert_Fail
              | Some junk \<Rightarrow> ebind (mdb_xcursor_init0 junk mc) (\<lambda>x. Inr (mc\<lparr>mc_xcursor := Some x\<rparr>)))
            else Inr mc) (\<lambda>mc.
     if tc_dbflag mc AND DB_STALE \<noteq> 0 then ebind (read_search mc None MDB_PS_ROOTONLY) (\<lambda>(_, mc). Inr mc) else Inr mc))"

text \<open>\<open>mdb_get\<close>, with the contents \<open>junk\<close> of the sub-cursor on its stack; the result is the return code, the transaction and the data.\<close>

definition mdb_get :: "mdb_tcursor \<Rightarrow> mdb_txn \<Rightarrow> nat \<Rightarrow> byte list option \<Rightarrow> byte list option \<Rightarrow> mdb_fault + int \<times> mdb_txn \<times> byte list option" where
  "mdb_get junk txn dbi key data = (case (key, data) of (Some k, Some d) \<Rightarrow>
       if dbi = 0 \<or> dbi \<ge> length (mt_dbs txn) then Inr (EINVAL, txn, None)
       else ebind (of_arr (aget (mt_dbflags txn) dbi)) (\<lambda>f.
         if f AND DB_VALID = 0 then Inr (EINVAL, txn, None)
         else if tx_flags txn AND MDB_TXN_ERROR \<noteq> 0 then Inr (MDB_BAD_TXN, txn, None)
         else ebind (mdb_cursor_init (Some junk) txn dbi) (\<lambda>mc.
           ebind (mdb_cursor_set mc k (Some d) MDB_SET True) (\<lambda>(rc, mc, _, d). Inr (rc, tc_txn mc, d))))
     | _ \<Rightarrow> Inr (EINVAL, txn, None))"

text \<open>\<open>mdb_cursor_count\<close>; the second component is what it stores.\<close>

definition mdb_cursor_count :: "mdb_mcursor option \<Rightarrow> bool \<Rightarrow> mdb_fault + int \<times> nat option" where
  "mdb_cursor_count mc countp = (case mc of None \<Rightarrow> Inr (EINVAL, None) | Some mc \<Rightarrow>
     if \<not> countp then Inr (EINVAL, None)
     else case mc_xcursor mc of None \<Rightarrow> Inr (MDB_INCOMPATIBLE, None) | Some mx \<Rightarrow>
       ebind (top_page mc) (\<lambda>mp. ebind (top_ki mc) (\<lambda>ki. ebind (mp_ptrs (mp_mem mp) ki) (\<lambda>leaf.
       ebind (node_flag (mp_mem mp) leaf F_DUPDATA) (\<lambda>dup.
       if \<not> dup then Inr (0, Some 1)
       else if \<not> has_flag C_INITIALIZED mx then Inr (EINVAL, None) else Inr (0, Some (md_entries (tc_db mx))))))))"

end
