(* ===== verification/Mdb_Versions.thy ===== *)
theory Mdb_Versions
  imports Mdb_Cursor
begin

text \<open>
  Which version of a page a transaction sees. A write transaction keeps the pages it has modified in its dirty list, and the numbers of
  those it has written early in its spill list; a nested transaction sees the pages of its parents where it has none of its own.
\<close>

text \<open>The invariants of the lists of a transaction.\<close>

definition level_ok :: "txn_level \<Rightarrow> bool" where
  "level_ok L \<longleftrightarrow> mid2l_wf (dirty_list L) \<and> (case mt_spill_pgs L of None \<Rightarrow> True
     | Some sp \<Rightarrow> unat (sp ! 0) < length sp \<and> unat (sp ! 0) + 1 < 2 ^ 32 \<and> sorted_wrt (>) (midl_elems sp))"

definition spilled :: "txn_level \<Rightarrow> nat \<Rightarrow> bool" where
  "spilled L pgno \<longleftrightarrow> (case mt_spill_pgs L of None \<Rightarrow> False | Some sp \<Rightarrow> push_bit 1 (word_of_nat pgno) \<in> set (midl_elems sp))"

definition dirty_page :: "txn_level \<Rightarrow> nat \<Rightarrow> mdb_page option" where
  "dirty_page L pgno = map_option mptr (find (\<lambda>e. mid e = word_of_nat pgno) (mid2l_elems (dirty_list L)))"

text \<open>The innermost level that has the page, and its version of it.\<close>

fun newest :: "(nat \<Rightarrow> mdb_page) \<Rightarrow> txn_level list \<Rightarrow> nat \<Rightarrow> nat \<Rightarrow> (mdb_page \<times> nat) option" where
  "newest pages [] level pgno = None"
| "newest pages (L # Ls) level pgno = (if spilled L pgno then Some (pages pgno, level)
     else case dirty_page L pgno of Some p \<Rightarrow> Some (p, level) | None \<Rightarrow> newest pages Ls (level + 1) pgno)"

lemma spill_has_spilled:
  assumes "level_ok L"
  shows "spill_has L pgno = Inr (spilled L pgno)"
proof (cases "mt_spill_pgs L")
  case None
  then show ?thesis by (simp add: spill_has_def spilled_def)
next
  case (Some sp)
  define pn :: MDB_ID where "pn = push_bit 1 (word_of_nat pgno)"
  have sp: "unat (sp ! 0) < length sp" "unat (sp ! 0) + 1 < 2 ^ 32" "sorted_wrt (>) (midl_elems sp)"
    using assms Some by (simp_all add: level_ok_def)
  obtain p where "mdb_midl_search sp pn = Some p" "p \<le> unat (sp ! 0) + 1" "pn \<in> set (midl_elems sp) \<longleftrightarrow> p \<le> unat (sp ! 0) \<and> sp ! p = pn"
    using midl_search_split [OF sp, of pn] by blast
  moreover have "0 < length sp" using sp(1) by linarith
  ultimately show ?thesis
    using sp(1) unfolding spill_has_def spilled_def Let_def pn_def [symmetric] by (auto simp: Some of_arr_def aget_def)
qed

lemma find_skip: "\<forall>x\<in>set xs. \<not> P x \<Longrightarrow> find P (xs @ ys) = find P ys"
  by (induction xs) auto

lemma dirty_find_page:
  assumes "level_ok L"
  shows "dirty_find L pgno = Inr (dirty_page L pgno)"
proof -
  let ?dl = "dirty_list L" and ?pn = "word_of_nat pgno :: MDB_ID"
  let ?N = "unat (mid (?dl ! 0))"
  have wf: "mid2l_wf ?dl" using assms by (simp add: level_ok_def)
  note N = mid2l_wf_less [OF wf]
  have ne: "0 < length ?dl" using N by linarith
  obtain p where p: "mdb_mid2l_search ?dl ?pn = Some p" "1 \<le> p" "p \<le> ?N + 1" "\<forall>i. 1 \<le> i \<and> i < p \<longrightarrow> mid (?dl ! i) < ?pn"
    "\<forall>i. p < i \<and> i \<le> ?N \<longrightarrow> ?pn < mid (?dl ! i)"
    using mdb_mid2l_search_position [OF wf, of ?pn] by blast
  have run: "dirty_find L pgno = Inr (if p \<le> ?N \<and> mid (?dl ! p) = ?pn then Some (mptr (?dl ! p)) else None)"
    using p(1,2) N ne by (auto simp: dirty_find_def Let_def of_arr_def aget_def)
  show ?thesis
  proof (cases "p \<le> ?N \<and> mid (?dl ! p) = ?pn")
    case True
    let ?es = "mid2l_elems ?dl"
    have pN: "p - 1 < ?N" "Suc (p - 1) = p" using True p(2) by linarith+
    have split: "?es = take (p - 1) ?es @ ?dl ! p # drop p ?es"
      using id_take_nth_drop [of "p - 1" ?es] N pN(1) unfolding pN(2) length_mid2l_elems [OF N] nth_mid2l_elems [OF pN(1) N] by simp
    have "\<forall>e\<in>set (take (p - 1) ?es). \<not> mid e = ?pn"
    proof
      fix e assume "e \<in> set (take (p - 1) ?es)"
      then obtain i where "i < p - 1" "e = ?es ! i" by (auto simp: in_set_conv_nth)
      then have "e = ?dl ! Suc i" "Suc i < p" using nth_mid2l_elems [OF _ N, of i] pN(1) by simp_all
      then show "\<not> mid e = ?pn" using p(4) by fastforce
    qed
    then have "find (\<lambda>e. mid e = ?pn) (take (p - 1) ?es @ ?dl ! p # drop p ?es) = Some (?dl ! p)"
      using True by (subst find_skip) auto
    then show ?thesis using run True split by (simp add: dirty_page_def)
  next
    case False
    have "mid e \<noteq> ?pn" if e: "e \<in> set (mid2l_elems ?dl)" for e
    proof -
      obtain i where i: "i < ?N" "e = ?dl ! Suc i" using e N by (auto simp: in_set_conv_nth length_mid2l_elems nth_mid2l_elems)
      consider "Suc i < p" | "Suc i = p" | "p < Suc i" by linarith
      then show ?thesis using i p(4,5) False by cases auto
    qed
    then have "find (\<lambda>e. mid e = ?pn) (mid2l_elems ?dl) = None" by (auto simp: find_None_iff)
    then show ?thesis using run False by (auto simp: dirty_page_def)
  qed
qed

lemma page_get_levels_newest:
  "list_all level_ok Ls \<Longrightarrow> page_get_levels pages Ls level pgno = Inr (newest pages Ls level pgno)"
  by (induction Ls arbitrary: level) (auto simp: spill_has_spilled dirty_find_page split: option.splits)

text \<open>
  C19. A write transaction gets the version of a page of the innermost transaction, from itself to its outermost parent, that has modified the
  page, the modified copy or, when that was spilled, the page of the map, together with the level. A page that none has modified, and every page of a read
  transaction or with \<open>MDB_WRITEMAP\<close>, comes from the map; a page number that is not allocated is an error and marks the transaction as failed.
\<close>

theorem mdb_page_get_newest:
  assumes "list_all level_ok (mt_levels txn)"
  shows "mdb_page_get txn pgno =
    Inr (let v = (if tx_flags txn AND MDB_TXN_RDONLY = 0 \<and> me_flags txn AND MDB_WRITEMAP = 0 then newest (me_map txn) (mt_levels txn) 1 pgno else None)
         in if v \<noteq> None then (v, txn) else if pgno < mt_next_pgno txn then (Some (me_map txn pgno, 0), txn) else (None, txn_error txn))"
  using page_get_levels_newest [OF assms, of "me_map txn" 1 pgno]
  by (auto simp: mdb_page_get_def or_eq_0_iff split: option.splits)

text \<open>A write transaction with one modified page.\<close>

definition dirty_level :: txn_level where
  "dirty_level = \<lparr>dirty_list = \<lparr>mid = 1, mptr = one_page\<rparr> # \<lparr>mid = 7, mptr = empty_page P_LEAF\<rparr> # replicate (MDB_IDL_UM_MAX - 1) \<lparr>mid = 0, mptr = one_page\<rparr>,
     mt_spill_pgs = Some [1, 6]\<rparr>"

definition dirty_txn :: mdb_txn where
  "dirty_txn = \<lparr>tx_flags = 0, me_flags = 0, mt_next_pgno = 9, mt_levels = [dirty_level], me_map = (\<lambda>_. one_page), mt_dbs = [], mt_dbxs = [], mt_dbflags = []\<rparr>"

theorem mdb_page_get_newest_witness:
  "mdb_page_get dirty_txn 7 = Inr (Some (empty_page P_LEAF, 1), dirty_txn) \<and> mdb_page_get dirty_txn 3 = Inr (Some (one_page, 1), dirty_txn) \<and>
   mdb_page_get dirty_txn 8 = Inr (Some (one_page, 0), dirty_txn) \<and> mdb_page_get dirty_txn 9 = Inr (None, txn_error dirty_txn)"
proof -
  have el: "mid2l_elems (dirty_list dirty_level) = [\<lparr>mid = 7, mptr = empty_page P_LEAF\<rparr>]" "midl_elems [1, 6] = [6]"
    by (simp_all add: dirty_level_def mid2l_elems_def midl_elems_def)
  have sp: "mt_spill_pgs dirty_level = Some [1, 6]" by (simp add: dirty_level_def)
  have "level_ok dirty_level"
    unfolding level_ok_def mid2l_wf_def el(1) sp by (simp add: el(2)) (simp add: dirty_level_def MDB_IDL_UM_MAX_def)
  then have ok: "list_all level_ok (mt_levels dirty_txn)" by (simp add: dirty_txn_def)
  have new: "newest (me_map dirty_txn) (mt_levels dirty_txn) 1 n = (if n = 3 then Some (one_page, 1) else if n = 7 then Some (empty_page P_LEAF, 1) else None)"
    if "n \<in> {3, 7, 8, 9}" for n
    using that by (auto simp: dirty_txn_def spilled_def dirty_page_def el sp)
  have f: "tx_flags dirty_txn = 0" "me_flags dirty_txn = 0" "mt_next_pgno dirty_txn = 9" "me_map dirty_txn = (\<lambda>_. one_page)" by (simp_all add: dirty_txn_def)
  show ?thesis
    using mdb_page_get_newest [OF ok, of 7] mdb_page_get_newest [OF ok, of 3] mdb_page_get_newest [OF ok, of 8] mdb_page_get_newest [OF ok, of 9]
      new [of 7] new [of 3] new [of 8] new [of 9] f by simp
qed

end
