(* ===== verification/Mdb_Tree.thy ===== *)
theory Mdb_Tree
  imports Mdb_Cursor_Ops Mdb_Versions
begin

text \<open>
  The trees that cursors move in. \<open>ptree\<close> is a tree of pages, \<open>tree_ok\<close> says that a transaction sees the pages of the tree behind
  the page numbers in its branch pages. A position in a tree is the list of the indices from the root downwards; \<open>paths\<close>
  lists the positions at a depth in order. \<open>stk\<close> says that the stack of a cursor is at a position.
  The lemmas show that a descent reaches a leaf and that \<open>mdb_cursor_sibling\<close> goes to the adjacent position.
\<close>

subsection \<open>Trees of pages\<close>

datatype ptree = PLeaf (page: mdb_page) | PNode (page: mdb_page) (kids: "ptree list")

definition width :: "ptree \<Rightarrow> nat" where
  "width t = NUMKEYS (page t)"

fun sub :: "ptree \<Rightarrow> nat list \<Rightarrow> ptree" where
  "sub t [] = t"
| "sub t (i # is) = sub (kids t ! i) is"

lemma sub_snoc [simp]: "sub t (is @ [i]) = kids (sub t is) ! i"
  by (induction t "is" rule: sub.induct) auto

lemma sub_append: "sub t (is @ js) = sub (sub t is) js"
  by (induction t "is" rule: sub.induct) auto

text \<open>The nodes of a leaf have no duplicates, and the transaction can read their data.\<close>

definition node_ok :: "mdb_txn \<Rightarrow> mdb_page \<Rightarrow> nat \<Rightarrow> bool" where
  "node_ok txn p i \<longleftrightarrow> node_flag (mp_mem p) (slot (mp_mem p) i) F_DUPDATA = Inr False \<and>
     (case mdb_node_read txn (mp_mem p) (slot (mp_mem p) i) of Inr (rc, txn', Some d) \<Rightarrow> rc = 0 \<and> txn' = txn | _ \<Rightarrow> False)"

definition sees :: "mdb_txn \<Rightarrow> mdb_page \<Rightarrow> nat \<Rightarrow> mdb_page \<Rightarrow> bool" where
  "sees txn p i q \<longleftrightarrow> (case child_pgno p i of Inr n \<Rightarrow> (case mdb_page_get txn n of Inr (Some (q', _), txn') \<Rightarrow> q' = q \<and> txn' = txn | _ \<Rightarrow> False)
     | Inl _ \<Rightarrow> False)"

fun tree_ok :: "mdb_txn \<Rightarrow> nat \<Rightarrow> ptree \<Rightarrow> bool" where
  "tree_ok txn h (PLeaf p) \<longleftrightarrow> h = 0 \<and> wf_page (length (mp_mem p)) p \<and> IS_LEAF p \<and> \<not> IS_BRANCH p \<and> 1 \<le> NUMKEYS p \<and>
     list_all (node_ok txn p) [0..<NUMKEYS p]"
| "tree_ok txn h (PNode p ts) \<longleftrightarrow> 0 < h \<and> wf_page (length (mp_mem p)) p \<and> IS_BRANCH p \<and> \<not> IS_LEAF p \<and> 2 \<le> NUMKEYS p \<and>
     length ts = NUMKEYS p \<and> list_all (\<lambda>i. sees txn p i (page (ts ! i))) [0..<NUMKEYS p] \<and> list_all (tree_ok txn (h - 1)) ts"

lemma tree_ok_leaf:
  "tree_ok txn 0 t \<Longrightarrow> \<exists>p. t = PLeaf p \<and> wf_page (length (mp_mem p)) p \<and> IS_LEAF p \<and> \<not> IS_BRANCH p \<and> \<not> IS_LEAF2 p \<and>
     1 \<le> NUMKEYS p \<and> (\<forall>i<NUMKEYS p. node_ok txn p i)"
  by (cases t) (auto simp: list_all_iff wf_page_def)

lemma tree_ok_branch:
  "tree_ok txn h t \<Longrightarrow> 0 < h \<Longrightarrow> \<exists>p ts. t = PNode p ts \<and> wf_page (length (mp_mem p)) p \<and> IS_BRANCH p \<and> \<not> IS_LEAF p \<and> 2 \<le> NUMKEYS p \<and>
     length ts = NUMKEYS p \<and> (\<forall>i<NUMKEYS p. sees txn p i (page (ts ! i)) \<and> tree_ok txn (h - 1) (ts ! i))"
  by (cases t) (auto simp: list_all_iff)

lemma width_pos: "tree_ok txn h t \<Longrightarrow> 0 < width t"
  by (cases t) (auto simp: width_def)

lemma kid_ok: "tree_ok txn h t \<Longrightarrow> 0 < h \<Longrightarrow> i < width t \<Longrightarrow> tree_ok txn (h - 1) (kids t ! i)"
  by (cases t) (auto simp: width_def list_all_iff)

subsection \<open>Positions\<close>

text \<open>The positions one step below the positions \<open>xs\<close>, where \<open>f\<close> is the number of branches at a position.\<close>

definition ext :: "(nat list \<Rightarrow> nat) \<Rightarrow> nat list list \<Rightarrow> nat list list" where
  "ext f xs = concat (map (\<lambda>x. map (\<lambda>i. x @ [i]) [0..<f x]) xs)"

text \<open>The position before or behind the place between \<open>us\<close> and \<open>vs\<close>.\<close>

definition adj :: "bool \<Rightarrow> 'a list \<Rightarrow> 'a list \<Rightarrow> 'a option" where
  "adj right us vs = (case if right then vs else rev us of [] \<Rightarrow> None | b # _ \<Rightarrow> Some b)"

lemma ext_simps [simp]: "ext f [] = []" "ext f (x # xs) = map (\<lambda>i. x @ [i]) [0..<f x] @ ext f xs"
  "ext f (xs @ ys) = ext f xs @ ext f ys"
  by (simp_all add: ext_def)

lemma upt_split: "c < n \<Longrightarrow> [0..<n] = [0..<c] @ c # [Suc c..<n]"
  using upt_add_eq_append [of 0 c "n - c"] by (simp add: upt_conv_Cons)

lemma map_upt_split: "map g [0..<n] = us @ y # vs \<Longrightarrow>
  length us < n \<and> y = g (length us) \<and> us = map g [0..<length us] \<and> vs = map g [Suc (length us)..<n]"
proof -
  assume eq: "map g [0..<n] = us @ y # vs"
  have "length (map g [0..<n]) = length (us @ y # vs)" by (simp only: eq)
  then have len: "n = length us + Suc (length vs)" by simp
  have "[0..<n] = [0..<length us] @ length us # [Suc (length us)..<n]" by (rule upt_split) (simp add: len)
  then have "map g [0..<length us] @ g (length us) # map g [Suc (length us)..<n] = us @ y # vs"
    using eq by simp
  then show ?thesis using len by (auto simp: append_eq_append_conv)
qed

lemma ext_split:
  "ext f xs = us @ y # vs \<Longrightarrow> \<exists>us' x vs' i. xs = us' @ x # vs' \<and> i < f x \<and> y = x @ [i] \<and>
     us = ext f us' @ map (\<lambda>i. x @ [i]) [0..<i] \<and> vs = map (\<lambda>i. x @ [i]) [Suc i..<f x] @ ext f vs'"
proof (induction xs arbitrary: us)
  case (Cons x xs)
  let ?m = "map (\<lambda>i. x @ [i]) [0..<f x]"
  from Cons.prems have eq: "?m @ ext f xs = us @ y # vs" by simp
  then consider (here) ws where "?m = us @ y # ws" "vs = ws @ ext f xs"
    | (later) ws where "us = ?m @ ws" "ext f xs = ws @ y # vs"
    by (auto simp: append_eq_append_conv2 append_eq_Cons_conv)
  then show ?case
  proof cases
    case here
    with map_upt_split [OF here(1)] show ?thesis
      by (intro exI [of _ "[]"] exI [of _ x] exI [of _ xs] exI [of _ "length us"]) auto
  next
    case later
    from Cons.IH [OF later(2)] obtain us' x' vs' i where
      "xs = us' @ x' # vs'" "i < f x'" "y = x' @ [i]" "ws = ext f us' @ map (\<lambda>i. x' @ [i]) [0..<i]"
      "vs = map (\<lambda>i. x' @ [i]) [Suc i..<f x'] @ ext f vs'" by blast
    then show ?thesis using later(1)
      by (intro exI [of _ "x # us'"] exI [of _ x'] exI [of _ vs'] exI [of _ i]) simp
  qed
qed simp

lemma adj_simps [simp]: "adj True us [] = None" "adj True us (v # vs) = Some v" "adj False [] vs = None"
  "adj False (us @ [u]) vs = Some u"
  by (simp_all add: adj_def)

lemma adj_ext:
  assumes "\<forall>x\<in>set (us @ vs). 0 < f x" and "i < f x"
  shows "adj right (ext f us @ map (\<lambda>i. x @ [i]) [0..<i]) (map (\<lambda>i. x @ [i]) [Suc i..<f x] @ ext f vs) =
    (if if right then i + 1 < f x else 0 < i then Some (x @ [if right then i + 1 else i - 1])
     else map_option (\<lambda>b. b @ [if right then 0 else f b - 1]) (adj right us vs))"
proof (cases right)
  case True
  then show ?thesis using assms by (cases vs) (auto simp: upt_conv_Cons)
next
  case False
  show ?thesis
  proof (cases i)
    case 0
    have "ext f (us @ [b]) = (ext f us @ map (\<lambda>i. b @ [i]) [0..<f b - 1]) @ [b @ [f b - 1]]" if "0 < f b" for us b
      using that by (cases "f b") simp_all
    then show ?thesis using False 0 assms(1) by (cases us rule: rev_cases) (simp_all add: adj_def del: ext_simps(3))
  next
    case (Suc n)
    have "ext f us @ map (\<lambda>i. x @ [i]) [0..<i] = (ext f us @ map (\<lambda>i. x @ [i]) [0..<n]) @ [x @ [n]]"
      using Suc by simp
    then show ?thesis using False Suc by (simp only: adj_simps if_False) simp
  qed
qed

text \<open>The positions at a depth, from left to right.\<close>

primrec paths :: "ptree \<Rightarrow> nat \<Rightarrow> nat list list" where
  "paths t 0 = [[]]"
| "paths t (Suc d) = ext (\<lambda>is. width (sub t is)) (paths t d)"

lemma length_paths: "is \<in> set (paths t d) \<Longrightarrow> length is = d"
  by (induction d arbitrary: "is") (auto simp: ext_def)

lemma paths_snoc: "is @ [i] \<in> set (paths t (Suc d)) \<longleftrightarrow> is \<in> set (paths t d) \<and> i < width (sub t is)"
  by (fastforce simp: ext_def)

lemma sub_ok: "tree_ok txn h t \<Longrightarrow> d \<le> h \<Longrightarrow> is \<in> set (paths t d) \<Longrightarrow> tree_ok txn (h - d) (sub t is)"
proof (induction d arbitrary: "is")
  case (Suc d)
  then obtain js i where "is": "is = js @ [i]" "js \<in> set (paths t d)" "i < width (sub t js)"
    by (auto simp: ext_def)
  have "tree_ok txn (h - d) (sub t js)" using Suc "is" by simp
  then show ?case using kid_ok [of txn "h - d" "sub t js" i] "is" Suc.prems(2) by simp
qed simp

lemma paths_pos: "tree_ok txn h t \<Longrightarrow> d \<le> h \<Longrightarrow> \<forall>is\<in>set (paths t d). 0 < width (sub t is)"
  using sub_ok width_pos by blast

text \<open>The same positions, counted from the root.\<close>

lemma paths_Cons: "paths t (Suc d) = concat (map (\<lambda>i. map (Cons i) (paths (kids t ! i) d)) [0..<width t])"
proof (induction d)
  case 0
  have "concat (map (\<lambda>i. [[i]]) xs) = map (\<lambda>i. [i]) xs" for xs :: "nat list" by (induction xs) simp_all
  then show ?case by simp
next
  case (Suc d)
  have "ext (\<lambda>is. width (sub t is)) (map (Cons i) xs) = map (Cons i) (ext (\<lambda>is. width (sub (kids t ! i) is)) xs)" for i xs
    by (induction xs) simp_all
  moreover have "ext f (concat (map g xs)) = concat (map (\<lambda>x. ext f (g x)) xs)" for f g and xs :: "nat list"
    by (induction xs) simp_all
  ultimately show ?case using Suc by simp
qed

definition edge :: "bool \<Rightarrow> ptree \<Rightarrow> nat" where
  "edge right t = (if right then 0 else width t - 1)"

text \<open>The place beside the index \<open>i\<close> of the position \<open>a\<close>, which has the positions \<open>us\<close> before it and \<open>vs\<close> behind it.\<close>

definition beside :: "bool \<Rightarrow> ptree \<Rightarrow> nat list \<Rightarrow> nat \<Rightarrow> nat list list \<Rightarrow> nat list list \<Rightarrow> (nat list \<times> nat) option" where
  "beside right t a i us vs = (if if right then i + 1 < width (sub t a) else 0 < i then Some (a, if right then i + 1 else i - 1)
     else map_option (\<lambda>b. (b, edge right (sub t b))) (adj right us vs))"

lemma adj_mem: "adj right us vs = Some b \<Longrightarrow> b \<in> set us \<union> set vs"
  by (auto simp: adj_def split: list.splits if_splits dest: arg_cong [where f = rev])

lemma beside_adj:
  assumes "\<forall>is\<in>set (paths t d). 0 < width (sub t is)" and "paths t (Suc d) = us @ (a @ [i]) # vs"
  shows "\<exists>us' vs'. paths t d = us' @ a # vs' \<and> i < width (sub t a) \<and>
    (\<forall>right. adj right us vs = map_option (\<lambda>(b, j). b @ [j]) (beside right t a i us' vs'))"
proof -
  let ?f = "\<lambda>is. width (sub t is)"
  obtain us' x vs' j where split: "paths t d = us' @ x # vs'" "j < ?f x" "a @ [i] = x @ [j]"
    "us = ext ?f us' @ map (\<lambda>i. x @ [i]) [0..<j]" "vs = map (\<lambda>i. x @ [i]) [Suc j..<?f x] @ ext ?f vs'"
    using ext_split [of ?f "paths t d" us "a @ [i]" vs] assms(2) by auto
  have "\<forall>y\<in>set (us' @ vs'). 0 < ?f y" using assms(1) split(1) by auto
  from adj_ext [OF this split(2)] split(3)
  have "adj right us vs = map_option (\<lambda>(b, j). b @ [j]) (beside right t a i us' vs')" for right
    unfolding split(4,5) beside_def by (auto simp: edge_def option.map_comp o_def)
  then show ?thesis using split(1-3) by auto
qed

subsection \<open>The stack of a cursor\<close>

definition stk :: "'a mdb_tcursor_scheme \<Rightarrow> ptree \<Rightarrow> nat list \<Rightarrow> bool" where
  "stk mc t a \<longleftrightarrow> length (tc_pg mc) = CURSOR_STACK \<and> length (tc_ki mc) = CURSOR_STACK \<and> length a < CURSOR_STACK \<and>
     tc_top mc = length a \<and> tc_snum mc = length a + 1 \<and>
     (\<forall>l\<le>length a. tc_pg mc ! l = Some (page (sub t (take l a)))) \<and> (\<forall>l<length a. tc_ki mc ! l = a ! l)"

lemma stkD:
  assumes "stk mc t a"
  shows "length (tc_pg mc) = CURSOR_STACK" "length (tc_ki mc) = CURSOR_STACK" "length a < CURSOR_STACK"
    "tc_top mc = length a" "tc_snum mc = Suc (length a)"
    "l \<le> length a \<Longrightarrow> tc_pg mc ! l = Some (page (sub t (take l a)))" "l < length a \<Longrightarrow> tc_ki mc ! l = a ! l"
  using assms by (auto simp: stk_def)

text \<open>The operations change only the pages, the indices and their number.\<close>

definition moved :: "'a mdb_tcursor_scheme \<Rightarrow> 'a mdb_tcursor_scheme \<Rightarrow> bool" where
  "moved mc mc' \<longleftrightarrow> tc_txn mc' = tc_txn mc \<and> tc_dbi mc' = tc_dbi mc \<and> tc_db mc' = tc_db mc \<and> tc_dbx mc' = tc_dbx mc \<and>
     tc_dbflag mc' = tc_dbflag mc \<and> tc_flags mc' = tc_flags mc \<and> mdb_tcursor.more mc' = mdb_tcursor.more mc"

lemma moved_simps [simp]: "moved mc mc" "moved mc (mc\<lparr>tc_pg := pg\<rparr>)" "moved mc (mc\<lparr>tc_ki := ki\<rparr>)" "moved mc (mc\<lparr>tc_snum := sn\<rparr>)"
  "moved mc (mc\<lparr>tc_top := tp\<rparr>)"
  by (simp_all add: moved_def)

lemma moved_trans: "moved a b \<Longrightarrow> moved b c \<Longrightarrow> moved a c"
  by (simp add: moved_def)

lemma top_page_stk: "stk mc t a \<Longrightarrow> top_page mc = Inr (page (sub t a))"
  by (auto simp: top_page_def page_at_def of_arr_def aget_def stk_def)

lemma top_ki_stk: "stk mc t a \<Longrightarrow> top_ki mc = Inr (tc_ki mc ! length a)"
  by (auto simp: top_ki_def of_arr_def aget_def stk_def)

lemma set_ki_stk:
  assumes "stk mc t a"
  shows "set_ki mc i = Inr (mc\<lparr>tc_ki := (tc_ki mc)[length a := i]\<rparr>)" and "stk (mc\<lparr>tc_ki := (tc_ki mc)[length a := i]\<rparr>) t a"
  using assms by (auto simp: set_ki_def of_arr_def aset_def stk_def)

lemma push_stk:
  assumes "stk mc t a" and "Suc (length a) < CURSOR_STACK" and "tc_ki mc ! length a = i"
  shows "\<exists>mc'. mdb_cursor_push mc (page (kids (sub t a) ! i)) = Inr (0, mc') \<and> stk mc' t (a @ [i]) \<and> moved mc mc' \<and>
    tc_ki mc' ! Suc (length a) = 0"
proof -
  note st = stkD [OF assms(1)]
  let ?mc = "mc\<lparr>tc_top := Suc (length a), tc_snum := Suc (Suc (length a)), tc_pg := (tc_pg mc)[Suc (length a) := Some (page (kids (sub t a) ! i))],
    tc_ki := (tc_ki mc)[Suc (length a) := 0]\<rparr>"
  have run: "mdb_cursor_push mc (page (kids (sub t a) ! i)) = Inr (0, ?mc)"
    using st(1-5) assms(2) by (simp add: mdb_cursor_push_def set_ki_def of_arr_def aset_def Let_def)
  have pg: "(tc_pg mc)[Suc (length a) := Some (page (kids (sub t a) ! i))] ! l = Some (page (sub t (take l (a @ [i]))))"
    if "l \<le> Suc (length a)" for l
    using that st(1) st(6) [of l] assms(2) by (cases "l = Suc (length a)") auto
  have ki: "(tc_ki mc)[Suc (length a) := 0] ! l = (a @ [i]) ! l" if "l < Suc (length a)" for l
    using that st(2) st(7) [of l] assms(3) by (auto simp: nth_append less_Suc_eq)
  have "stk ?mc t (a @ [i])" using st(1,2) assms(2) pg ki by (simp add: stk_def)
  moreover have "moved mc ?mc" by (simp add: moved_def)
  ultimately show ?thesis using run st(2) assms(2) by (intro exI [of _ ?mc]) simp
qed

lemma cursor_page_get_sees:
  assumes "sees (tc_txn mc) p i q"
  shows "\<exists>n. child_pgno p i = Inr n \<and> cursor_page_get mc n = Inr (Some q, mc)"
proof -
  obtain n l where "child_pgno p i = Inr n" "mdb_page_get (tc_txn mc) n = Inr (Some (q, l), tc_txn mc)"
    using assms by (auto simp: sees_def split: sum.splits option.splits prod.splits)
  then show ?thesis by (simp add: cursor_page_get_def)
qed

text \<open>The step from a branch page to one of its children.\<close>

lemma down_stk:
  assumes ok: "tree_ok (tc_txn mc) h t" and "h < CURSOR_STACK" and st: "stk mc t a" and a: "a \<in> set (paths t d)" "d < h"
    and i: "i < width (sub t a)" "tc_ki mc ! d = i"
  shows "\<exists>n mc'. child_pgno (page (sub t a)) i = Inr n \<and> cursor_page_get mc n = Inr (Some (page (kids (sub t a) ! i)), mc) \<and>
    mdb_cursor_push mc (page (kids (sub t a) ! i)) = Inr (0, mc') \<and> stk mc' t (a @ [i]) \<and> moved mc mc' \<and> tc_ki mc' ! Suc d = 0 \<and>
    a @ [i] \<in> set (paths t (Suc d)) \<and> IS_BRANCH (page (sub t a))"
proof -
  have len: "length a = d" by (rule length_paths [OF a(1)])
  have "tree_ok (tc_txn mc) (h - d) (sub t a)" using sub_ok [OF ok _ a(1)] a(2) by simp
  then obtain p ts where "sub t a = PNode p ts" "IS_BRANCH p" "sees (tc_txn mc) p i (page (ts ! i))"
    using tree_ok_branch [of "tc_txn mc" "h - d" "sub t a"] a(2) i(1) by (auto simp: width_def)
  moreover obtain mc' where "mdb_cursor_push mc (page (kids (sub t a) ! i)) = Inr (0, mc')" "stk mc' t (a @ [i])" "moved mc mc'"
    "tc_ki mc' ! Suc d = 0"
    using push_stk [OF st, of i] len a(2) assms(2) i(2) by auto
  ultimately show ?thesis
    using cursor_page_get_sees [of mc p i "page (ts ! i)"] a(1) i(1) paths_snoc [of a i t d] by auto
qed

lemma pop_stk:
  assumes "stk mc t (a @ [i])"
  shows "mdb_cursor_pop mc = mc\<lparr>tc_snum := Suc (length a), tc_top := length a\<rparr>" and "stk (mdb_cursor_pop mc) t a"
    and "tc_ki (mdb_cursor_pop mc) ! length a = i" and "moved mc (mdb_cursor_pop mc)"
proof -
  note st = stkD [OF assms]
  show pop: "mdb_cursor_pop mc = mc\<lparr>tc_snum := Suc (length a), tc_top := length a\<rparr>"
    using st(4,5) by (simp add: mdb_cursor_pop_def Let_def)
  show "stk (mdb_cursor_pop mc) t a"
    unfolding pop stk_def
  proof (simp add: st(1,2), intro conjI allI impI)
    show "length a < CURSOR_STACK" using st(3) by simp
    show "tc_pg mc ! l = Some (page (sub t (take l a)))" if "l \<le> length a" for l using that st(6) [of l] by simp
    show "tc_ki mc ! l = a ! l" if "l < length a" for l using that st(7) [of l] by (simp add: nth_append)
  qed
  show "tc_ki (mdb_cursor_pop mc) ! length a = i" using st(7) [of "length a"] by (simp add: pop)
  show "moved mc (mdb_cursor_pop mc)" unfolding pop by (simp add: moved_def)
qed

subsection \<open>Siblings\<close>

lemma wf_numkeys: "wf_page psize p \<Longrightarrow> NUMKEYS p < 65536"
proof -
  assume wf: "wf_page psize p"
  have "2 * NUMKEYS p \<le> mp_lower p" using numkeys [OF wf] by simp
  moreover have "mp_lower p \<le> 0x8000" using wf by (auto simp: wf_page_def)
  ultimately show ?thesis by linarith
qed

lemma width_small: "tree_ok txn h t \<Longrightarrow> width t < 65536"
  by (cases t) (auto simp: width_def dest: wf_numkeys)

lemma indx_last: "0 < n \<Longrightarrow> n < 65536 \<Longrightarrow> indx_t (int n - 1) = n - 1"
  by (simp add: indx_t_small nat_diff_distrib)

text \<open>The end of \<open>mdb_cursor_sibling\<close>, when the index of the parent is set.\<close>

lemma sibling_down:
  assumes ok: "tree_ok (tc_txn mc) h t" and "h < CURSOR_STACK" and st: "stk mc t b" and b: "b \<in> set (paths t d)" "d < h"
    and j: "j < width (sub t b)" "tc_ki mc ! d = j"
  shows "\<exists>mc'. ebind (top_page mc) (\<lambda>mp. if \<not> IS_BRANCH mp then Inl Assert_Fail
          else ebind (top_ki mc) (\<lambda>ki. ebind (child_pgno mp ki) (\<lambda>pgno. ebind (cursor_page_get mc pgno) (\<lambda>(r, mc). case r of
              None \<Rightarrow> Inr (MDB_PAGE_NOTFOUND, clr_flags (C_INITIALIZED OR C_EOF) mc)
            | Some mp \<Rightarrow> ebind (mdb_cursor_push mc mp) (\<lambda>(_, mc).
                if \<not> right then ebind (set_ki mc (indx_t (int (NUMKEYS mp) - 1))) (\<lambda>mc. Inr (0, mc))
                else Inr (0, mc)))))) = Inr (0, mc') \<and>
    stk mc' t (b @ [j]) \<and> moved mc mc' \<and> tc_ki mc' ! Suc d = edge right (sub t (b @ [j]))"
proof -
  have len: "length b = d" by (rule length_paths [OF b(1)])
  from down_stk [OF assms] obtain n mc' where down: "child_pgno (page (sub t b)) j = Inr n"
    "cursor_page_get mc n = Inr (Some (page (kids (sub t b) ! j)), mc)"
    "mdb_cursor_push mc (page (kids (sub t b) ! j)) = Inr (0, mc')" "stk mc' t (b @ [j])" "moved mc mc'" "tc_ki mc' ! Suc d = 0"
    "b @ [j] \<in> set (paths t (Suc d))" "IS_BRANCH (page (sub t b))" by blast
  have "tree_ok (tc_txn mc) (h - Suc d) (sub t (b @ [j]))" using sub_ok [OF ok _ down(7)] b(2) by simp
  from width_pos [OF this] width_small [OF this]
  have last: "indx_t (int (NUMKEYS (page (kids (sub t b) ! j))) - 1) = edge False (sub t (b @ [j]))"
    by (simp add: indx_last edge_def width_def)
  note ki = set_ki_stk [OF down(4)]
  have kl: "Suc d < length (tc_ki mc')" using stkD(2,3) [OF down(4)] len by simp
  show ?thesis
    using down(1-6,8) top_page_stk [OF st] top_ki_stk [OF st] j(2) len last ki kl
    by (cases right) (simp_all add: edge_def moved_def)
qed

lemma sibling_unfold:
  assumes "stk mc t (c @ [i])"
  shows "mdb_cursor_sibling mc right =
      ebind (if (if right then i + 1 \<ge> width (sub t c) else i = 0) then
               ebind (mdb_cursor_sibling (mdb_cursor_pop mc) right) (\<lambda>(rc, mc).
                   Inr (rc, if rc \<noteq> 0 then mc\<lparr>tc_top := tc_top mc + 1, tc_snum := tc_snum mc + 1\<rparr> else mc))
             else ebind (set_ki (mdb_cursor_pop mc) (if right then i + 1 else i - 1)) (\<lambda>mc. Inr (0, mc))) (\<lambda>(rc, mc).
        if rc \<noteq> 0 then Inr (rc, mc)
        else ebind (top_page mc) (\<lambda>mp. if \<not> IS_BRANCH mp then Inl Assert_Fail
          else ebind (top_ki mc) (\<lambda>ki. ebind (child_pgno mp ki) (\<lambda>pgno. ebind (cursor_page_get mc pgno) (\<lambda>(r, mc). case r of
              None \<Rightarrow> Inr (MDB_PAGE_NOTFOUND, clr_flags (C_INITIALIZED OR C_EOF) mc)
            | Some mp \<Rightarrow> ebind (mdb_cursor_push mc mp) (\<lambda>(_, mc).
                if \<not> right then ebind (set_ki mc (indx_t (int (NUMKEYS mp) - 1))) (\<lambda>mc. Inr (0, mc))
                else Inr (0, mc)))))))"
proof -
  note pop = pop_stk [OF assms]
  have "\<not> tc_snum mc < 2" using stkD(5) [OF assms] by simp
  then show ?thesis
    by (subst mdb_cursor_sibling.simps) (simp add: Let_def top_page_stk [OF pop(2)] top_ki_stk [OF pop(2)] pop(3) width_def)
qed

text \<open>The parent has another child on that side.\<close>

lemma sibling_near:
  assumes ok: "tree_ok (tc_txn mc) h t" "h < CURSOR_STACK" and st: "stk mc t (c @ [i])" and c: "c \<in> set (paths t d)" "d < h"
    and near: "if right then i + 1 < width (sub t c) else 0 < i" "i < width (sub t c)" and j: "j = (if right then i + 1 else i - 1)"
  shows "\<exists>mc'. mdb_cursor_sibling mc right = Inr (0, mc') \<and> stk mc' t (c @ [j]) \<and> moved mc mc' \<and> tc_ki mc' ! Suc d = edge right (sub t (c @ [j]))"
proof -
  let ?mc1 = "mdb_cursor_pop mc"
  note pop = pop_stk [OF st]
  have len: "length c = d" by (rule length_paths [OF c(1)])
  define mc2 where "mc2 = ?mc1\<lparr>tc_ki := (tc_ki ?mc1)[d := j]\<rparr>"
  have ki: "set_ki ?mc1 j = Inr mc2" "stk mc2 t c" using set_ki_stk [OF pop(2), of j] len by (auto simp: mc2_def)
  have jw: "j < width (sub t c)" using near by (auto simp: j split: if_splits)
  have k2: "tc_ki mc2 ! d = j" using stkD(2,3) [OF pop(2)] len by (simp add: mc2_def)
  have ok2: "tree_ok (tc_txn mc2) h t" and m2: "moved mc mc2" using ok(1) pop(4) by (simp_all add: mc2_def moved_def)
  have "\<not> (if right then i + 1 \<ge> width (sub t c) else i = 0)" using near(1) by (auto split: if_splits)
  with sibling_down [OF ok2 ok(2) ki(2) c jw k2, of right] obtain mc' where
    "mdb_cursor_sibling mc right = Inr (0, mc')" "stk mc' t (c @ [j])" "moved mc2 mc'" "tc_ki mc' ! Suc d = edge right (sub t (c @ [j]))"
    unfolding sibling_unfold [OF st] j [symmetric] by (simp only: if_False ebind_simps ki(1) prod.case) auto
  then show ?thesis using moved_trans [OF m2] by blast
qed

text \<open>The parent has no other child on that side: the search goes on from the sibling of the parent, if it has one.\<close>

lemma sibling_far:
  assumes ok: "tree_ok (tc_txn mc) h t" "h < CURSOR_STACK" and st: "stk mc t (c @ [i])" and d: "length c = d" "d < h"
    and far: "\<not> (if right then i + 1 < width (sub t c) else 0 < i)"
  shows "mdb_cursor_sibling (mdb_cursor_pop mc) right = Inr (MDB_NOTFOUND, mdb_cursor_pop mc) \<Longrightarrow> mdb_cursor_sibling mc right = Inr (MDB_NOTFOUND, mc)"
    and "mdb_cursor_sibling (mdb_cursor_pop mc) right = Inr (0, mc2) \<Longrightarrow> stk mc2 t b \<Longrightarrow> moved (mdb_cursor_pop mc) mc2 \<Longrightarrow>
      tc_ki mc2 ! d = edge right (sub t b) \<Longrightarrow> b \<in> set (paths t d) \<Longrightarrow>
      \<exists>mc'. mdb_cursor_sibling mc right = Inr (0, mc') \<and> stk mc' t (b @ [edge right (sub t b)]) \<and> moved mc mc' \<and>
        tc_ki mc' ! Suc d = edge right (sub t (b @ [edge right (sub t b)]))"
proof -
  let ?mc1 = "mdb_cursor_pop mc"
  note pop = pop_stk [OF st]
  have up: "(if right then i + 1 \<ge> width (sub t c) else i = 0) = True" using far by (auto split: if_splits)
  show "mdb_cursor_sibling mc right = Inr (MDB_NOTFOUND, mc)" if sib: "mdb_cursor_sibling ?mc1 right = Inr (MDB_NOTFOUND, ?mc1)"
  proof -
    have "?mc1\<lparr>tc_top := tc_top ?mc1 + 1, tc_snum := tc_snum ?mc1 + 1\<rparr> = mc" using stkD(4,5) [OF st] by (simp add: pop(1))
    then show ?thesis using sib unfolding sibling_unfold [OF st] up by (simp add: MDB_NOTFOUND_def)
  qed
  show "\<exists>mc'. mdb_cursor_sibling mc right = Inr (0, mc') \<and> stk mc' t (b @ [edge right (sub t b)]) \<and> moved mc mc' \<and>
      tc_ki mc' ! Suc d = edge right (sub t (b @ [edge right (sub t b)]))"
    if mc2: "mdb_cursor_sibling ?mc1 right = Inr (0, mc2)" "stk mc2 t b" "moved ?mc1 mc2" "tc_ki mc2 ! d = edge right (sub t b)" and b: "b \<in> set (paths t d)"
  proof -
    have ok2: "tree_ok (tc_txn mc2) h t" using ok(1) pop(4) mc2(3) by (simp add: moved_def)
    have "edge right (sub t b) < width (sub t b)" using paths_pos [OF ok(1), of d] b d(2) by (auto simp: edge_def)
    from sibling_down [OF ok2 ok(2) mc2(2) b d(2) this mc2(4), of right] obtain mc' where
      "mdb_cursor_sibling mc right = Inr (0, mc')" "stk mc' t (b @ [edge right (sub t b)])" "moved mc2 mc'"
      "tc_ki mc' ! Suc d = edge right (sub t (b @ [edge right (sub t b)]))"
      unfolding sibling_unfold [OF st] up by (simp only: if_True ebind_simps mc2(1) prod.case) auto
    then show ?thesis using moved_trans [OF moved_trans [OF pop(4) mc2(3)]] by blast
  qed
qed

text \<open>
  The cursor goes to the adjacent position at its depth, at the edge of the page it finds there. If there is none, it stays.
\<close>

lemma sibling_stk:
  assumes "tree_ok (tc_txn mc) h t" and "h < CURSOR_STACK" and "stk mc t a" and "length a \<le> h"
    and "paths t (length a) = us @ a # vs"
  shows "case adj right us vs of
      None \<Rightarrow> mdb_cursor_sibling mc right = Inr (MDB_NOTFOUND, mc)
    | Some b \<Rightarrow> \<exists>mc'. mdb_cursor_sibling mc right = Inr (0, mc') \<and> stk mc' t b \<and> moved mc mc' \<and> tc_ki mc' ! length a = edge right (sub t b)"
  using assms
proof (induction a arbitrary: mc us vs rule: rev_induct)
  case Nil
  then have "us = []" "vs = []" by (auto simp: Cons_eq_append_conv)
  moreover have "tc_snum mc < 2" using stkD(5) [OF Nil.prems(3)] by simp
  ultimately show ?case by (subst mdb_cursor_sibling.simps) (cases right; simp)
next
  case (snoc i c)
  let ?d = "length c" and ?mc1 = "mdb_cursor_pop mc"
  note st = snoc.prems(3) and pop = pop_stk [OF snoc.prems(3)]
  have dh: "?d < h" using snoc.prems(4) by simp
  obtain us' vs' where split: "paths t ?d = us' @ c # vs'" "i < width (sub t c)" and next_: "adj right us vs = map_option (\<lambda>(b, j). b @ [j]) (beside right t c i us' vs')"
    using beside_adj [OF paths_pos [OF snoc.prems(1) less_imp_le [OF dh]], of us c i vs] snoc.prems(5) by auto
  show ?case
  proof (cases "if right then i + 1 < width (sub t c) else 0 < i")
    case True
    have "adj right us vs = Some (c @ [if right then i + 1 else i - 1])" unfolding next_ beside_def if_P [OF True] by simp
    then show ?thesis using sibling_near [OF snoc.prems(1,2) st _ dh True split(2) refl] split(1) by simp
  next
    case False
    have next0: "adj right us vs = map_option (\<lambda>b. b @ [edge right (sub t b)]) (adj right us' vs')"
      unfolding next_ beside_def if_not_P [OF False] by (simp add: option.map_comp o_def)
    note far = sibling_far [OF snoc.prems(1,2) st refl dh False]
    have ih: "case adj right us' vs' of None \<Rightarrow> mdb_cursor_sibling ?mc1 right = Inr (MDB_NOTFOUND, ?mc1)
      | Some b \<Rightarrow> \<exists>mc'. mdb_cursor_sibling ?mc1 right = Inr (0, mc') \<and> stk mc' t b \<and> moved ?mc1 mc' \<and> tc_ki mc' ! ?d = edge right (sub t b)"
      by (rule snoc.IH [OF _ snoc.prems(2) pop(2) less_imp_le [OF dh] split(1)]) (use snoc.prems(1) in \<open>simp add: pop(1)\<close>)
    show ?thesis
    proof (cases "adj right us' vs'")
      case None
      then show ?thesis using ih far(1) next0 by simp
    next
      case (Some b)
      then have "b \<in> set (paths t ?d)" using adj_mem [OF Some] split(1) by auto
      then show ?thesis using ih Some next0 far(2) [of _ b] by auto
    qed
  qed
qed

subsection \<open>Descent\<close>

primrec path_by :: "(ptree \<Rightarrow> nat) \<Rightarrow> nat \<Rightarrow> ptree \<Rightarrow> nat list" where
  "path_by pick 0 t = []"
| "path_by pick (Suc h) t = pick t # path_by pick h (kids t ! pick t)"

text \<open>
  \<open>mdb_page_search_root\<close> reaches a leaf, when the index in each branch page is the one that \<open>pick\<close> gives. The stack is deep enough, and so
  is the fuel.
\<close>

lemma search_root_stk:
  assumes "tree_ok (tc_txn mc) h t" and "h < CURSOR_STACK" and "stk mc t a" and "a \<in> set (paths t d)" and "d + e = h" and "e < n"
    and "flags AND MDB_PS_MODIFY = 0"
    and pick: "\<And>mc' d a'. moved mc mc' \<Longrightarrow> stk mc' t a' \<Longrightarrow> a' \<in> set (paths t d) \<Longrightarrow> d < h \<Longrightarrow> pick (sub t a') < width (sub t a') \<and>
      (\<exists>k. branch_index mc' (page (sub t a')) key flags = Inr (pick (sub t a'), mc'\<lparr>tc_ki := (tc_ki mc')[d := k]\<rparr>))"
  shows "\<exists>mc'. mdb_page_search_root n touch mc key flags = Inr (0, clr_flags C_EOF (set_flags C_INITIALIZED mc')) \<and>
    stk mc' t (a @ path_by pick e (sub t a)) \<and> moved mc mc' \<and> a @ path_by pick e (sub t a) \<in> set (paths t h)"
  using assms
proof (induction e arbitrary: mc a d n)
  case 0
  have "tree_ok (tc_txn mc) 0 (sub t a)" using sub_ok [OF 0(1) _ 0(4)] 0(5) by simp
  then obtain p where "sub t a = PLeaf p" "IS_LEAF p" "\<not> IS_BRANCH p" using tree_ok_leaf by blast
  then have "mdb_page_search_root n touch mc key flags = Inr (0, clr_flags C_EOF (set_flags C_INITIALIZED mc))"
    using top_page_stk [OF 0(3)] 0(6) by (cases n) simp_all
  then show ?case using 0 by auto
next
  case (Suc e)
  obtain m where n: "n = Suc m" "e < m" using Suc.prems(6) by (cases n) auto
  have len: "length a = d" by (rule length_paths [OF Suc.prems(4)])
  have "tree_ok (tc_txn mc) (h - d) (sub t a)" using sub_ok [OF Suc.prems(1) _ Suc.prems(4)] Suc.prems(5) by simp
  then obtain p ts where node: "sub t a = PNode p ts" "IS_BRANCH p" "2 \<le> NUMKEYS p"
    and sees: "\<And>i. i < NUMKEYS p \<Longrightarrow> sees (tc_txn mc) p i (page (ts ! i))"
    using tree_ok_branch [of "tc_txn mc" "h - d" "sub t a"] Suc.prems(5) by auto
  let ?i = "pick (sub t a)"
  obtain k where i: "?i < width (sub t a)" "branch_index mc p key flags = Inr (?i, mc\<lparr>tc_ki := (tc_ki mc)[d := k]\<rparr>)"
    using Suc.prems(8) [of mc a d] Suc.prems(3,4,5) node(1) by auto
  define mc1 where "mc1 = mc\<lparr>tc_ki := (tc_ki mc)[d := k]\<rparr>"
  define mc2 where "mc2 = mc1\<lparr>tc_ki := (tc_ki mc1)[d := ?i]\<rparr>"
  have st1: "stk mc1 t a" using set_ki_stk(2) [OF Suc.prems(3)] len by (simp add: mc1_def)
  have ki: "set_ki mc1 ?i = Inr mc2" and st2: "stk mc2 t a" using set_ki_stk [OF st1] len by (simp_all add: mc2_def)
  have mv: "moved mc mc2" "tc_txn mc1 = tc_txn mc" "tc_txn mc2 = tc_txn mc" by (simp_all add: mc1_def mc2_def moved_def)
  have k2: "tc_ki mc2 ! d = ?i" using stkD(2,3) [OF st1] len by (simp add: mc2_def)
  have d: "d < h" using Suc.prems(5) by simp
  obtain pn mc' where down: "child_pgno p ?i = Inr pn" "cursor_page_get mc2 pn = Inr (Some (page (ts ! ?i)), mc2)"
    "mdb_cursor_push mc2 (page (ts ! ?i)) = Inr (0, mc')" "stk mc' t (a @ [?i])" "moved mc2 mc'" "a @ [?i] \<in> set (paths t (Suc d))"
    using down_stk [OF _ Suc.prems(2) st2 Suc.prems(4) d i(1) k2] Suc.prems(1) mv(3) node(1) by auto
  have get1: "cursor_page_get mc1 pn = Inr (Some (page (ts ! ?i)), mc1)"
    using cursor_page_get_sees [of mc1 p ?i "page (ts ! ?i)"] sees [of ?i] i(1) down(1) mv(2) node(1) by (auto simp: width_def)
  have run: "mdb_page_search_root n touch mc key flags = mdb_page_search_root m touch mc' key flags"
    using node i top_page_stk [OF Suc.prems(3)] down(1,3) get1 ki Suc.prems(7) n(1)
    by (simp add: width_def flip: mc1_def)
  have mv': "moved mc mc'" by (rule moved_trans [OF mv(1) down(5)])
  have "\<exists>mc''. mdb_page_search_root m touch mc' key flags = Inr (0, clr_flags C_EOF (set_flags C_INITIALIZED mc'')) \<and>
    stk mc'' t ((a @ [?i]) @ path_by pick e (sub t (a @ [?i]))) \<and> moved mc' mc'' \<and> (a @ [?i]) @ path_by pick e (sub t (a @ [?i])) \<in> set (paths t h)"
  proof (rule Suc.IH [OF _ Suc.prems(2) down(4,6) _ n(2) Suc.prems(7)])
    show "tree_ok (tc_txn mc') h t" using Suc.prems(1) mv' by (simp add: moved_def)
    show "Suc d + e = h" using Suc.prems(5) by simp
  qed (use Suc.prems(8) moved_trans [OF mv'] in blast)
  then show ?case using run moved_trans [OF mv'] by auto
qed

declare mdb_page_search_root.simps [simp del]

lemma path_by_edge:
  "tree_ok txn h t \<Longrightarrow> (\<exists>vs. paths t h = path_by (edge True) h t # vs) \<and> (\<exists>us. paths t h = us @ [path_by (edge False) h t])"
proof (induction h arbitrary: t)
  case (Suc h)
  have w: "0 < width t" by (rule width_pos [OF Suc.prems])
  have ok: "tree_ok txn h (kids t ! i)" if "i < width t" for i using kid_ok [OF Suc.prems _ that] by simp
  obtain vs where vs: "paths (kids t ! 0) h = path_by (edge True) h (kids t ! 0) # vs" using Suc.IH ok w by blast
  obtain us where us: "paths (kids t ! (width t - 1)) h = us @ [path_by (edge False) h (kids t ! (width t - 1))]"
    using Suc.IH ok [of "width t - 1"] w by fastforce
  have "[0..<width t] = 0 # [1..<width t]" using w by (simp add: upt_conv_Cons)
  then have "\<exists>vs. paths t (Suc h) = path_by (edge True) (Suc h) t # vs"
    unfolding paths_Cons using vs by (simp add: edge_def)
  moreover have "[0..<width t] = [0..<width t - 1] @ [width t - 1]" using w upt_Suc_append [of 0 "width t - 1"] by simp
  then have "\<exists>us. paths t (Suc h) = us @ [path_by (edge False) (Suc h) t]"
    unfolding paths_Cons using us by (simp add: edge_def)
  ultimately show ?case by blast
qed simp

end
