(* ===== verification/Mdb_Walk.thy ===== *)
theory Mdb_Walk
  imports Mdb_Tree
begin

text \<open>
  Moving a cursor through a database without duplicates. \<open>entries\<close> lists the keys and data of a tree from left to right. The locale
  \<open>plain_cursor\<close> has the operations on cursors that use no cursor of duplicates, for the cursors of a program and
  for sub-cursors. A scan with \<open>MDB_NEXT\<close> or \<open>MDB_PREV\<close> visits all entries, in order, and ends.
\<close>

subsection \<open>Entries\<close>

definition node_entry :: "mdb_txn \<Rightarrow> mdb_page \<Rightarrow> nat \<Rightarrow> byte list \<times> byte list" where
  "node_entry txn p i = (page_keys p ! i, case mdb_node_read txn (mp_mem p) (slot (mp_mem p) i) of Inr (_, _, Some d) \<Rightarrow> d | _ \<Rightarrow> [])"

fun entries :: "mdb_txn \<Rightarrow> ptree \<Rightarrow> (byte list \<times> byte list) list" where
  "entries txn (PLeaf p) = map (node_entry txn p) [0..<NUMKEYS p]"
| "entries txn (PNode p ts) = concat (map (entries txn) ts)"

text \<open>The entry at the index \<open>i\<close> of the leaf at a position.\<close>

abbreviation entry_at :: "mdb_txn \<Rightarrow> ptree \<Rightarrow> nat list \<Rightarrow> nat \<Rightarrow> byte list \<times> byte list" where
  "entry_at txn t a i \<equiv> node_entry txn (page (sub t a)) i"

lemma entries_paths:
  "tree_ok txn h t \<Longrightarrow> entries txn t = map (\<lambda>is. entry_at txn t (butlast is) (last is)) (paths t (Suc h))"
proof (induction h arbitrary: t)
  case 0
  then obtain p where t: "t = PLeaf p" using tree_ok_leaf by blast
  show ?case by (simp add: t ext_def width_def)
next
  case (Suc h)
  then obtain p ts where t: "t = PNode p ts" "length ts = NUMKEYS p" "\<And>i. i < NUMKEYS p \<Longrightarrow> tree_ok txn h (ts ! i)"
    using tree_ok_branch [OF Suc.prems] by auto
  have ne: "is \<noteq> []" if "is \<in> set (paths u (Suc h))" for u "is" using length_paths [OF that] by auto
  have "map (\<lambda>is. entry_at txn t (butlast is) (last is)) (map (Cons i) (paths (ts ! i) (Suc h))) = entries txn (ts ! i)" if "i < NUMKEYS p" for i
    unfolding Suc.IH [OF t(3) [OF that]] map_map by (rule map_cong [OF refl]) (use ne t(1) in auto)
  then have "map (\<lambda>is. entry_at txn t (butlast is) (last is)) (paths t (Suc (Suc h))) = concat (map (\<lambda>i. entries txn (ts ! i)) [0..<NUMKEYS p])"
    unfolding paths_Cons [of t "Suc h"] map_concat map_map o_def
    by (intro arg_cong [where f = concat] map_cong [OF refl]) (auto simp: t(1) width_def)
  also have "map (\<lambda>i. entries txn (ts ! i)) [0..<NUMKEYS p] = map (entries txn) ts"
    by (rule nth_equalityI) (simp_all add: t(2))
  finally show ?case by (simp add: t(1))
qed

text \<open>What the operations read of a leaf.\<close>

lemma leaf_node:
  assumes "tree_ok txn 0 t" and "i < width t"
  shows "mp_ptrs (mp_mem (page t)) i = Inr (slot (mp_mem (page t)) i)"
    and "NODEKEY (mp_mem (page t)) (slot (mp_mem (page t)) i) = Inr (fst (node_entry txn (page t) i))"
    and "node_flag (mp_mem (page t)) (slot (mp_mem (page t)) i) F_DUPDATA = Inr False"
    and "mdb_node_read txn (mp_mem (page t)) (slot (mp_mem (page t)) i) = Inr (0, txn, Some (snd (node_entry txn (page t) i)))"
proof -
  obtain p where p: "t = PLeaf p" "wf_page (length (mp_mem p)) p" and node: "node_ok txn p i" and i: "i < NUMKEYS p"
    using tree_ok_leaf [OF assms(1)] assms(2) by (auto simp: width_def)
  have "PAGEHDRSZ + 2 * i + 1 < length (mp_mem p)"
    using numkeys [OF p(2)] p(2) i by (auto simp: wf_page_def)
  then show ptr: "mp_ptrs (mp_mem (page t)) i = Inr (slot (mp_mem (page t)) i)" by (simp add: p(1) mp_ptrs_in)
  have "node_key p i = Inr (page_keys p ! i)" using node_key_in [OF p(2) i] i by (simp add: page_keys_def)
  then show "NODEKEY (mp_mem (page t)) (slot (mp_mem (page t)) i) = Inr (fst (node_entry txn (page t) i))"
    using ptr by (simp add: p(1) node_key_def node_entry_def)
  show "node_flag (mp_mem (page t)) (slot (mp_mem (page t)) i) F_DUPDATA = Inr False"
    using node by (simp add: node_ok_def p(1))
  show "mdb_node_read txn (mp_mem (page t)) (slot (mp_mem (page t)) i) = Inr (0, txn, Some (snd (node_entry txn (page t) i)))"
    using node by (auto simp: node_ok_def p(1) node_entry_def split: sum.splits prod.splits option.splits)
qed

definition opt_if :: "bool \<Rightarrow> 'a \<Rightarrow> 'a option" where
  "opt_if w x = (if w then Some x else None)"

lemma cursor_item_leaf:
  assumes ok: "tree_ok (tc_txn mc) 0 u" and i: "i < width u" and ki: "top_ki mc = Inr i"
  shows "cursor_item ops e mc (page u) wk wd =
    Inr (0, mc, opt_if wk (fst (node_entry (tc_txn mc) (page u) i)), opt_if wd (snd (node_entry (tc_txn mc) (page u) i)))"
proof -
  obtain p where "u = PLeaf p" "IS_LEAF p" "\<not> IS_LEAF2 p" using tree_ok_leaf [OF ok] by auto
  then show ?thesis
    using leaf_node [OF ok i] ki by (simp add: cursor_item_def cursor_node_read_def MDB_GET_KEY_def opt_if_def)
qed

lemma edge_item_leaf:
  assumes ok: "tree_ok (tc_txn mc) 0 u" and i: "i < width u"
  shows "edge_item ops e mc (page u) i wk wd =
    Inr (0, mc, opt_if wk (fst (node_entry (tc_txn mc) (page u) i)), opt_if wd (snd (node_entry (tc_txn mc) (page u) i)))"
proof -
  obtain p where "u = PLeaf p" "\<not> IS_LEAF2 p" using tree_ok_leaf [OF ok] by auto
  then show ?thesis
    using leaf_node [OF ok i] by (simp add: edge_item_def cursor_node_read_def MDB_GET_KEY_def opt_if_def)
qed

subsection \<open>Cursors of a database\<close>

text \<open>What a transaction sees of a database without duplicates: the tree of the database, of the given height, or no tree.\<close>

definition db_ok :: "mdb_txn \<Rightarrow> mdb_tdb \<Rightarrow> nat \<Rightarrow> ptree option \<Rightarrow> bool" where
  "db_ok txn db h t \<longleftrightarrow> md_flags db AND MDB_DUPSORT = 0 \<and> tx_flags txn AND MDB_TXN_ERROR = 0 \<and> (case t of
     None \<Rightarrow> md_root db = P_INVALID
   | Some t \<Rightarrow> 1 < md_root db \<and> md_root db \<noteq> P_INVALID \<and> h < CURSOR_STACK \<and> tree_ok txn h t \<and>
       (case mdb_page_get txn (md_root db) of Inr (Some (p, _), txn') \<Rightarrow> p = page t \<and> txn' = txn | _ \<Rightarrow> False))"

definition all_entries :: "mdb_txn \<Rightarrow> ptree option \<Rightarrow> (byte list \<times> byte list) list" where
  "all_entries txn t = (case t of None \<Rightarrow> [] | Some t \<Rightarrow> entries txn t)"

text \<open>A cursor of the database before it is positioned, and after.\<close>

definition cursor_base :: "'a mdb_tcursor_scheme \<Rightarrow> nat \<Rightarrow> ptree option \<Rightarrow> bool" where
  "cursor_base mc h t \<longleftrightarrow> db_ok (tc_txn mc) (tc_db mc) h t \<and> tc_dbflag mc AND DB_STALE = 0 \<and> \<not> has_flag C_DEL mc \<and>
     length (tc_pg mc) = CURSOR_STACK \<and> length (tc_ki mc) = CURSOR_STACK \<and>
     (case tc_pg mc ! 0 of None \<Rightarrow> True | Some p \<Rightarrow> mp_pgno p \<noteq> md_root (tc_db mc) \<or> map_option page t = Some p)"

definition leaf_pos :: "'a mdb_tcursor_scheme \<Rightarrow> nat \<Rightarrow> ptree \<Rightarrow> nat list \<Rightarrow> nat \<Rightarrow> bool" where
  "leaf_pos mc h t a i \<longleftrightarrow> stk mc t a \<and> a \<in> set (paths t h) \<and> tc_ki mc ! h = i"

lemma leaf_posD:
  assumes "leaf_pos mc h t a i" and "tree_ok (tc_txn mc) h t"
  shows "top_page mc = Inr (page (sub t a))" "top_ki mc = Inr i" "tree_ok (tc_txn mc) 0 (sub t a)" "length a = h"
    "set_ki mc j = Inr (mc\<lparr>tc_ki := (tc_ki mc)[h := j]\<rparr>)" "leaf_pos (mc\<lparr>tc_ki := (tc_ki mc)[h := j]\<rparr>) h t a j"
    "IS_LEAF (page (sub t a))" "NUMKEYS (page (sub t a)) = width (sub t a)" "0 < width (sub t a)" "width (sub t a) < 65536"
proof -
  have st: "stk mc t a" and a: "a \<in> set (paths t h)" "tc_ki mc ! h = i" using assms(1) by (simp_all add: leaf_pos_def)
  show len: "length a = h" by (rule length_paths [OF a(1)])
  show "top_page mc = Inr (page (sub t a))" by (rule top_page_stk [OF st])
  show "top_ki mc = Inr i" using top_ki_stk [OF st] a(2) len by simp
  show ok: "tree_ok (tc_txn mc) 0 (sub t a)" using sub_ok [OF assms(2) order_refl a(1)] by simp
  show "set_ki mc j = Inr (mc\<lparr>tc_ki := (tc_ki mc)[h := j]\<rparr>)" "leaf_pos (mc\<lparr>tc_ki := (tc_ki mc)[h := j]\<rparr>) h t a j"
    using set_ki_stk [OF st] a(1) len stkD(2,3) [OF st] by (auto simp: leaf_pos_def)
  show "IS_LEAF (page (sub t a))" using tree_ok_leaf [OF ok] by auto
  show "NUMKEYS (page (sub t a)) = width (sub t a)" by (simp add: width_def)
  show "0 < width (sub t a)" "width (sub t a) < 65536" using width_pos [OF ok] width_small [OF ok] by simp_all
qed

subsection \<open>Flags\<close>

lemma has_flag_bit:
  "has_flag C_INITIALIZED mc \<longleftrightarrow> bit (tc_flags mc) 0" "has_flag C_EOF mc \<longleftrightarrow> bit (tc_flags mc) 1" "has_flag C_DEL mc \<longleftrightarrow> bit (tc_flags mc) 3"
  using and_exp_eq_0_iff_not_bit [of "tc_flags mc" 0] and_exp_eq_0_iff_not_bit [of "tc_flags mc" 1] and_exp_eq_0_iff_not_bit [of "tc_flags mc" 3]
  by (simp_all add: has_flag_def C_INITIALIZED_def C_EOF_def C_DEL_def)

lemma flag_upd [simp]:
  "has_flag C_INITIALIZED (set_flags C_INITIALIZED mc)" "has_flag C_EOF (set_flags C_INITIALIZED mc) = has_flag C_EOF mc" "has_flag C_DEL (set_flags C_INITIALIZED mc) = has_flag C_DEL mc"
  "has_flag C_INITIALIZED (set_flags C_EOF mc) = has_flag C_INITIALIZED mc" "has_flag C_EOF (set_flags C_EOF mc)" "has_flag C_DEL (set_flags C_EOF mc) = has_flag C_DEL mc"
  "has_flag C_INITIALIZED (clr_flags C_EOF mc) = has_flag C_INITIALIZED mc" "\<not> has_flag C_EOF (clr_flags C_EOF mc)" "has_flag C_DEL (clr_flags C_EOF mc) = has_flag C_DEL mc"
  "has_flag C_INITIALIZED (set_flags (C_INITIALIZED OR C_EOF) mc)" "has_flag C_EOF (set_flags (C_INITIALIZED OR C_EOF) mc)" "has_flag C_DEL (set_flags (C_INITIALIZED OR C_EOF) mc) = has_flag C_DEL mc"
  unfolding has_flag_bit by (simp_all add: set_flags_def clr_flags_def C_INITIALIZED_def C_EOF_def bit_simps)
lemma flag_fields [simp]:
  "tc_dbi (set_flags f mc) = tc_dbi mc" "tc_dbi (clr_flags f mc) = tc_dbi mc"
  "tc_txn (set_flags f mc) = tc_txn mc" "tc_db (set_flags f mc) = tc_db mc" "tc_dbx (set_flags f mc) = tc_dbx mc"
  "tc_dbflag (set_flags f mc) = tc_dbflag mc" "tc_pg (set_flags f mc) = tc_pg mc" "tc_ki (set_flags f mc) = tc_ki mc"
  "tc_snum (set_flags f mc) = tc_snum mc" "tc_top (set_flags f mc) = tc_top mc" "mdb_tcursor.more (set_flags f mc) = mdb_tcursor.more mc"
  "tc_txn (clr_flags f mc) = tc_txn mc" "tc_db (clr_flags f mc) = tc_db mc" "tc_dbx (clr_flags f mc) = tc_dbx mc"
  "tc_dbflag (clr_flags f mc) = tc_dbflag mc" "tc_pg (clr_flags f mc) = tc_pg mc" "tc_ki (clr_flags f mc) = tc_ki mc"
  "tc_snum (clr_flags f mc) = tc_snum mc" "tc_top (clr_flags f mc) = tc_top mc" "mdb_tcursor.more (clr_flags f mc) = mdb_tcursor.more mc"
  by (simp_all add: set_flags_def clr_flags_def)

lemma pos_flags [simp]: "leaf_pos (set_flags f mc) h t a i = leaf_pos mc h t a i" "leaf_pos (clr_flags f mc) h t a i = leaf_pos mc h t a i"
  by (simp_all add: leaf_pos_def stk_def)

lemma base_flags [simp]: "cursor_base (set_flags C_INITIALIZED mc) h t = cursor_base mc h t" "cursor_base (set_flags C_EOF mc) h t = cursor_base mc h t"
  "cursor_base (clr_flags C_EOF mc) h t = cursor_base mc h t" "cursor_base (set_flags (C_INITIALIZED OR C_EOF) mc) h t = cursor_base mc h t"
  by (simp_all add: cursor_base_def cong: option.case_cong)

subsection \<open>Steps\<close>

lemma leaf_pos_sibling:
  assumes "tree_ok (tc_txn mc) h t" and "h < CURSOR_STACK" and "leaf_pos mc h t a i" and "paths t h = us @ a # vs"
  shows "case adj right us vs of None \<Rightarrow> mdb_cursor_sibling mc right = Inr (MDB_NOTFOUND, mc)
    | Some b \<Rightarrow> \<exists>mc'. mdb_cursor_sibling mc right = Inr (0, mc') \<and> leaf_pos mc' h t b (edge right (sub t b)) \<and> moved mc mc' \<and>
        edge right (sub t b) < width (sub t b)"
proof (cases "adj right us vs")
  case None
  then show ?thesis
    using sibling_stk [OF assms(1,2), of a us vs right] assms(3,4) length_paths [of a t h] by (auto simp: leaf_pos_def)
next
  case (Some b)
  then have b: "b \<in> set (paths t h)" using adj_mem [OF Some] assms(4) by auto
  then have "0 < width (sub t b)" using paths_pos [OF assms(1) order_refl] by blast
  then show ?thesis
    using Some b sibling_stk [OF assms(1,2), of a us vs right] assms(3,4) length_paths [of a t h] by (auto simp: leaf_pos_def edge_def)
qed

lemma cursor_next_leaf:
  assumes ok: "tree_ok (tc_txn mc) h t" "h < CURSOR_STACK" and pos: "leaf_pos mc h t a i" and "paths t h = us @ a # vs"
    and "md_flags (tc_db mc) AND MDB_DUPSORT = 0" and "has_flag C_INITIALIZED mc" "\<not> has_flag C_EOF mc" "\<not> has_flag C_DEL mc"
  shows "case beside True t a i us vs of None \<Rightarrow> cursor_next ops mc wk wd op = Inr (MDB_NOTFOUND, set_flags C_EOF mc, None, None)
    | Some (b, j) \<Rightarrow> \<exists>mc'. cursor_next ops mc wk wd op = Inr (0, mc', opt_if wk (fst (entry_at (tc_txn mc) t b j)), opt_if wd (snd (entry_at (tc_txn mc) t b j))) \<and>
        leaf_pos mc' h t b j \<and> j < width (sub t b) \<and> moved mc mc'"
proof -
  note p = leaf_posD [OF pos ok(1)]
  have run: "cursor_next ops mc wk wd op = (if width (sub t a) \<le> i + 1 then ebind (mdb_cursor_sibling mc True) (\<lambda>(rc, mc).
              if rc \<noteq> 0 then Inr (rc, set_flags C_EOF mc, None, None)
              else ebind (top_page mc) (\<lambda>mp. cursor_item ops (dup_first ops) mc mp wk wd))
            else ebind (set_ki mc (i + 1)) (\<lambda>mc. cursor_item ops (dup_first ops) mc (page (sub t a)) wk wd))"
    using assms(5-) p(1,2,8) by (simp add: cursor_next_def next_dup_def)
  show ?thesis
  proof (cases "i + 1 < width (sub t a)")
    case True
    let ?mc = "mc\<lparr>tc_ki := (tc_ki mc)[h := i + 1]\<rparr>"
    have "cursor_item ops (dup_first ops) ?mc (page (sub t a)) wk wd = Inr (0, ?mc, opt_if wk (fst (entry_at (tc_txn mc) t a (i + 1))),
        opt_if wd (snd (entry_at (tc_txn mc) t a (i + 1))))"
      using cursor_item_leaf [of ?mc "sub t a" "i + 1"] p(3) True leaf_posD(2) [OF p(6) [of "i + 1"]] ok(1) by simp
    then show ?thesis using True run p(5,6) by (simp add: beside_def)
  next
    case False
    note sib = leaf_pos_sibling [OF ok pos assms(4), of True]
    show ?thesis
    proof (cases "adj True us vs")
      case None
      then show ?thesis using run False sib by (simp add: beside_def MDB_NOTFOUND_def)
    next
      case (Some b)
      then obtain mc' where mc': "mdb_cursor_sibling mc True = Inr (0, mc')" "leaf_pos mc' h t b (edge True (sub t b))" "moved mc mc'"
        "edge True (sub t b) < width (sub t b)" using sib by auto
      have txn: "tc_txn mc' = tc_txn mc" using mc'(3) by (simp add: moved_def)
      note p' = leaf_posD [OF mc'(2)]
      show ?thesis
        using run False Some mc' p'(1) cursor_item_leaf [OF p'(3) mc'(4) p'(2), of ops "dup_first ops" wk wd] txn ok(1) by (simp add: beside_def)
    qed
  qed
qed

lemma cursor_prev_leaf:
  assumes ok: "tree_ok (tc_txn mc) h t" "h < CURSOR_STACK" and pos: "leaf_pos mc h t a i" "i \<le> width (sub t a)" and "paths t h = us @ a # vs"
    and "md_flags (tc_db mc) AND MDB_DUPSORT = 0" and "has_flag C_INITIALIZED mc"
  shows "case beside False t a i us vs of None \<Rightarrow> cursor_prev ops mc wk wd op = Inr (MDB_NOTFOUND, mc, None, None)
    | Some (b, j) \<Rightarrow> \<exists>mc'. cursor_prev ops mc wk wd op =
          Inr (0, clr_flags C_EOF mc', opt_if wk (fst (entry_at (tc_txn mc) t b j)), opt_if wd (snd (entry_at (tc_txn mc) t b j))) \<and>
        leaf_pos mc' h t b j \<and> j < width (sub t b) \<and> moved mc mc'"
proof -
  note p = leaf_posD [OF pos(1) ok(1)]
  have run: "cursor_prev ops mc wk wd op = (if i = 0 then ebind (mdb_cursor_sibling mc False) (\<lambda>(rc, mc).
            if rc \<noteq> 0 then Inr (rc, mc, None, None)
            else ebind (top_page mc) (\<lambda>mp. ebind (set_ki mc (indx_t (int (NUMKEYS mp) - 1))) (\<lambda>mc.
              cursor_item ops (dup_last ops) (clr_flags C_EOF mc) mp wk wd)))
          else ebind (set_ki mc (i - 1)) (\<lambda>mc. cursor_item ops (dup_last ops) (clr_flags C_EOF mc) (page (sub t a)) wk wd))"
    using assms(6-) p(1,2) by (simp add: cursor_prev_def prev_dup_def)
  have item: "cursor_item ops (dup_last ops) (clr_flags C_EOF mc') (page (sub t b)) wk wd =
      Inr (0, clr_flags C_EOF mc', opt_if wk (fst (entry_at (tc_txn mc') t b j)), opt_if wd (snd (entry_at (tc_txn mc') t b j)))"
    if "leaf_pos mc' h t b j" "tree_ok (tc_txn mc') h t" "j < width (sub t b)" for mc' b j
    using cursor_item_leaf [of "clr_flags C_EOF mc'" "sub t b" j ops "dup_last ops" wk wd] leaf_posD(3) [OF that(1,2)] that
      leaf_posD(2) [of "clr_flags C_EOF mc'" h t b j] by simp
  show ?thesis
  proof (cases "0 < i")
    case True
    then show ?thesis
      using run p(5,6) [of "i - 1"] pos(2) ok(1) item [of "mc\<lparr>tc_ki := (tc_ki mc)[h := i - 1]\<rparr>" a "i - 1"] by (auto simp: beside_def)
  next
    case False
    note sib = leaf_pos_sibling [OF ok pos(1) assms(5), of False]
    show ?thesis
    proof (cases "adj False us vs")
      case None
      then show ?thesis using run False sib by (simp add: beside_def MDB_NOTFOUND_def)
    next
      case (Some b)
      let ?e = "edge False (sub t b)"
      obtain mc' where mc': "mdb_cursor_sibling mc False = Inr (0, mc')" "leaf_pos mc' h t b ?e" "moved mc mc'" "?e < width (sub t b)"
        using sib Some by auto
      have ok': "tree_ok (tc_txn mc') h t" "tc_txn mc' = tc_txn mc" using ok(1) mc'(3) by (simp_all add: moved_def)
      note p' = leaf_posD [OF mc'(2) ok'(1)]
      have "mc'\<lparr>tc_ki := (tc_ki mc')[h := ?e]\<rparr> = mc'" using mc'(2) list_update_id [of "tc_ki mc'" h] by (simp add: leaf_pos_def)
      moreover have "indx_t (int (NUMKEYS (page (sub t b))) - 1) = ?e" using p'(8-10) by (simp add: indx_last edge_def)
      ultimately show ?thesis
        using run False Some mc' p'(1) p'(5) [of ?e] item [OF mc'(2) ok'(1) mc'(4)] ok'(2) by (auto simp: beside_def)
    qed
  qed
qed

subsection \<open>Search for the first and the last leaf\<close>

lemma cursor_base_empty:
  "cursor_base mc h None \<Longrightarrow> read_search mc key flags = Inr (MDB_NOTFOUND, mc)"
  by (auto simp: cursor_base_def db_ok_def read_search_def mdb_page_search_def page_search_from_def F_ISSET_def MDB_TXN_ERROR_def Let_def)

lemma read_search_root:
  assumes base: "cursor_base mc h (Some t)" and fl: "flags AND MDB_PS_MODIFY = 0" "flags AND MDB_PS_ROOTONLY = 0"
  shows "\<exists>mc0. read_search mc key flags = mdb_page_search_root (CURSOR_STACK + 1) (\<lambda>_. Inl No_End) mc0 key flags \<and> stk mc0 t [] \<and> moved mc mc0"
proof -
  let ?root = "md_root (tc_db mc)"
  have b: "tx_flags (tc_txn mc) AND MDB_TXN_ERROR = 0" "tc_dbflag mc AND DB_STALE = 0" "1 < ?root" "?root \<noteq> P_INVALID"
    "length (tc_pg mc) = CURSOR_STACK" "length (tc_ki mc) = CURSOR_STACK"
    using base by (auto simp: cursor_base_def db_ok_def)
  obtain l where get: "mdb_page_get (tc_txn mc) ?root = Inr (Some (page t, l), tc_txn mc)"
    using base by (auto simp: cursor_base_def db_ok_def split: sum.splits prod.splits option.splits)
  let ?mc = "mc\<lparr>tc_pg := (tc_pg mc)[0 := Some (page t)], tc_snum := 1, tc_top := 0\<rparr>"
  have "0 < CURSOR_STACK" by (simp add: CURSOR_STACK_def)
  then have st: "stk ?mc t []" using b(5,6) by (simp add: stk_def)
  have err: "\<not> F_ISSET (tx_flags (tc_txn mc)) MDB_TXN_ERROR" using b(1) by (simp add: F_ISSET_def MDB_TXN_ERROR_def)
  have "read_search mc key flags = mdb_page_search_root (CURSOR_STACK + 1) (\<lambda>_. Inl No_End) ?mc key flags"
  proof (cases "tc_pg mc ! 0 = Some (page t)")
    case True
    then have "(tc_pg mc)[0 := Some (page t)] = tc_pg mc" using list_update_id [of "tc_pg mc" 0] by simp
    then show ?thesis using err b fl get True \<open>0 < CURSOR_STACK\<close>
      by (simp add: read_search_def mdb_page_search_def page_search_from_def Let_def of_arr_def aget_def cursor_page_get_def)
  next
    case False
    then have "tc_pg mc ! 0 = None \<or> mp_pgno (the (tc_pg mc ! 0)) \<noteq> ?root"
      using base by (auto simp: cursor_base_def split: option.splits)
    then show ?thesis using err b fl get \<open>0 < CURSOR_STACK\<close>
      by (simp add: read_search_def mdb_page_search_def page_search_from_def Let_def of_arr_def aget_def cursor_page_get_def)
  qed
  then show ?thesis using st by (intro exI [of _ ?mc]) (simp add: moved_def)
qed

lemma ps_flags: "MDB_PS_FIRST AND MDB_PS_MODIFY = 0" "MDB_PS_FIRST AND MDB_PS_ROOTONLY = 0" "MDB_PS_LAST AND MDB_PS_MODIFY = 0" "MDB_PS_LAST AND MDB_PS_ROOTONLY = 0"
  "MDB_PS_FIRST AND (MDB_PS_FIRST OR MDB_PS_LAST) \<noteq> 0" "MDB_PS_LAST AND (MDB_PS_FIRST OR MDB_PS_LAST) \<noteq> 0" "MDB_PS_FIRST AND MDB_PS_LAST = 0" "MDB_PS_LAST AND MDB_PS_LAST \<noteq> 0"
  by (simp_all add: MDB_PS_FIRST_def MDB_PS_LAST_def MDB_PS_MODIFY_def MDB_PS_ROOTONLY_def)

lemma search_edge:
  assumes base: "cursor_base mc h (Some t)"
  shows "\<exists>mc'. read_search mc None (if left then MDB_PS_FIRST else MDB_PS_LAST) = Inr (0, clr_flags C_EOF (set_flags C_INITIALIZED mc')) \<and>
    leaf_pos mc' h t (path_by (edge left) h t) (tc_ki mc' ! h) \<and> moved mc mc'"
proof -
  let ?fl = "if left then MDB_PS_FIRST else MDB_PS_LAST"
  have ok: "tree_ok (tc_txn mc) h t" "h < CURSOR_STACK" using base by (auto simp: cursor_base_def db_ok_def)
  obtain mc0 where mc0: "read_search mc None ?fl = mdb_page_search_root (CURSOR_STACK + 1) (\<lambda>_. Inl No_End) mc0 None ?fl" "stk mc0 t []" "moved mc mc0"
    using read_search_root [OF base, of ?fl None] ps_flags by (cases left) auto
  have "\<exists>mc'. mdb_page_search_root (CURSOR_STACK + 1) (\<lambda>_. Inl No_End) mc0 None ?fl = Inr (0, clr_flags C_EOF (set_flags C_INITIALIZED mc')) \<and>
    stk mc' t ([] @ path_by (edge left) h (sub t [])) \<and> moved mc0 mc' \<and> [] @ path_by (edge left) h (sub t []) \<in> set (paths t h)"
  proof (rule search_root_stk [OF _ ok(2) mc0(2), of 0])
    show "tree_ok (tc_txn mc0) h t" using ok(1) mc0(3) by (simp add: moved_def)
    fix mc' d a assume a: "a \<in> set (paths t d)" "d < h" "stk mc' t a"
    have "tree_ok (tc_txn mc) (h - d) (sub t a)" using sub_ok [OF ok(1) _ a(1)] a(2) by simp
    note w = width_pos [OF this] width_small [OF this]
    have "branch_index mc' (page (sub t a)) None ?fl = Inr (edge left (sub t a), mc')"
      using w ps_flags by (simp add: branch_index_def edge_def indx_last width_def)
    then show "edge left (sub t a) < width (sub t a) \<and>
      (\<exists>k. branch_index mc' (page (sub t a)) None ?fl = Inr (edge left (sub t a), mc'\<lparr>tc_ki := (tc_ki mc')[d := k]\<rparr>))"
      using w(1) list_update_id [of "tc_ki mc'" d] by (auto simp: edge_def intro!: exI [of _ "tc_ki mc' ! d"])
  qed (use ok(2) ps_flags in auto)
  then show ?thesis using mc0(1) moved_trans [OF mc0(3)] by (auto simp: leaf_pos_def)
qed

subsection \<open>First and last\<close>

text \<open>The invariant of a cursor. It may be behind the last entry of a leaf; it is at the last leaf if \<open>C_EOF\<close> is set.\<close>

definition cursor_ok :: "'a mdb_tcursor_scheme \<Rightarrow> nat \<Rightarrow> ptree option \<Rightarrow> bool" where
  "cursor_ok mc h t \<longleftrightarrow> cursor_base mc h t \<and> (has_flag C_EOF mc \<longrightarrow> has_flag C_INITIALIZED mc) \<and>
     (has_flag C_INITIALIZED mc \<longrightarrow> (\<exists>u a. t = Some u \<and> leaf_pos mc h u a (tc_ki mc ! h) \<and> tc_ki mc ! h \<le> width (sub u a) \<and>
        (has_flag C_EOF mc \<longrightarrow> a = path_by (edge False) h u)))"

lemma base_ok: "cursor_base mc h (Some t) \<Longrightarrow> tree_ok (tc_txn mc) h t" "cursor_base mc h (Some t) \<Longrightarrow> h < CURSOR_STACK"
  "cursor_base mc h tt \<Longrightarrow> md_flags (tc_db mc) AND MDB_DUPSORT = 0" "cursor_base mc h tt \<Longrightarrow> tx_flags (tc_txn mc) AND MDB_TXN_ERROR = 0"
  "cursor_base mc h tt \<Longrightarrow> \<not> has_flag C_DEL mc"
  by (auto simp: cursor_base_def db_ok_def)

lemma moved_flag: "moved mc mc' \<Longrightarrow> has_flag f mc' = has_flag f mc"
  by (simp add: moved_def has_flag_def)

lemma base_moved: "cursor_base mc h (Some t) \<Longrightarrow> moved mc mc' \<Longrightarrow> leaf_pos mc' h t a i \<Longrightarrow> cursor_base mc' h (Some t)"
  using stkD(1,2) [of mc' t a] stkD(6) [of mc' t a 0] moved_flag [of mc mc' C_DEL] by (auto simp: cursor_base_def moved_def leaf_pos_def)

text \<open>The database of a cursor and its cursor of duplicates, which the operations here do not change.\<close>

definition own :: "'a mdb_tcursor_scheme \<Rightarrow> nat \<times> mdb_tdb \<times> mdb_dbx \<times> 'a" where
  "own mc = (tc_dbi mc, tc_db mc, tc_dbx mc, mdb_tcursor.more mc)"

lemma own_simps [simp]: "own (set_flags f mc) = own mc" "own (clr_flags f mc) = own mc" "own (mc\<lparr>tc_ki := ki\<rparr>) = own mc"
  by (simp_all add: own_def)

lemma moved_own: "moved mc mc' \<Longrightarrow> own mc' = own mc" "moved mc mc' \<Longrightarrow> tc_txn mc' = tc_txn mc"
  by (simp_all add: own_def moved_def)

locale plain_cursor =
  fixes ops :: "'a mops" and plain :: "'a mdb_tcursor_scheme \<Rightarrow> bool"
  assumes plain_null: "plain mc \<Longrightarrow> dup_null ops mc"
    and plain_more: "plain mc \<Longrightarrow> own mc' = own mc \<Longrightarrow> plain mc'"
begin

lemma clear_plain [simp]: "plain mc \<Longrightarrow> clear_dup ops mc = Inr mc"
  by (simp add: clear_dup_def plain_null)

lemma edge_search:
  assumes base: "cursor_base mc h (Some t)" and init: "has_flag C_INITIALIZED mc \<Longrightarrow> \<exists>a i. leaf_pos mc h t a i"
  shows "\<exists>mc'. (if \<not> has_flag C_INITIALIZED mc \<or> tc_top mc \<noteq> 0 then read_search mc None (if left then MDB_PS_FIRST else MDB_PS_LAST) else Inr (0, mc)) =
      Inr (0, mc') \<and> leaf_pos mc' h t (path_by (edge left) h t) (tc_ki mc' ! h) \<and> cursor_base mc' h (Some t) \<and>
      tc_txn mc' = tc_txn mc \<and> own mc' = own mc"
proof (cases "\<not> has_flag C_INITIALIZED mc \<or> tc_top mc \<noteq> 0")
  case True
  obtain mc' where mc': "read_search mc None (if left then MDB_PS_FIRST else MDB_PS_LAST) = Inr (0, clr_flags C_EOF (set_flags C_INITIALIZED mc'))"
    "leaf_pos mc' h t (path_by (edge left) h t) (tc_ki mc' ! h)" "moved mc mc'"
    using search_edge [OF base] by blast
  then show ?thesis
    using True base_moved [OF base mc'(3,2)] by (intro exI [of _ "clr_flags C_EOF (set_flags C_INITIALIZED mc')"]) (simp add: moved_own)
next
  case False
  then obtain a i where pos: "leaf_pos mc h t a i" using init by blast
  then have "a = []" "h = 0" using False length_paths [of a t h] stkD(4) [of mc t a] by (auto simp: leaf_pos_def)
  then show ?thesis using False pos base by (auto simp: leaf_pos_def)
qed

lemma cursor_first_leaf:
  assumes pl: "plain mc" and base: "cursor_base mc h (Some t)" and init: "has_flag C_INITIALIZED mc \<Longrightarrow> \<exists>a i. leaf_pos mc h t a i"
  shows "\<exists>mc'. cursor_first ops mc wk wd = Inr (0, mc', opt_if wk (fst (entry_at (tc_txn mc) t (path_by (edge True) h t) 0)),
      opt_if wd (snd (entry_at (tc_txn mc) t (path_by (edge True) h t) 0))) \<and>
    leaf_pos mc' h t (path_by (edge True) h t) 0 \<and> cursor_base mc' h (Some t) \<and> has_flag C_INITIALIZED mc' \<and> \<not> has_flag C_EOF mc' \<and>
    tc_txn mc' = tc_txn mc \<and> own mc' = own mc"
proof -
  let ?a = "path_by (edge True) h t"
  obtain mc1 where mc1: "(if \<not> has_flag C_INITIALIZED mc \<or> tc_top mc \<noteq> 0 then read_search mc None MDB_PS_FIRST else Inr (0, mc)) = Inr (0, mc1)"
    "leaf_pos mc1 h t ?a (tc_ki mc1 ! h)" "cursor_base mc1 h (Some t)" "tc_txn mc1 = tc_txn mc" "own mc1 = own mc"
    using edge_search [OF base init, of True, unfolded if_True] by blast
  note ok = base_ok(1) [OF mc1(3)]
  note p = leaf_posD [OF mc1(2) ok]
  let ?mc = "clr_flags C_EOF (set_flags C_INITIALIZED mc1)"
  let ?mc' = "?mc\<lparr>tc_ki := (tc_ki ?mc)[h := 0]\<rparr>"
  have p2: "set_ki ?mc 0 = Inr ?mc'" "leaf_pos ?mc' h t ?a 0" using leaf_posD(5,6) [of ?mc h t ?a "tc_ki mc1 ! h" 0] mc1(2) ok by simp_all
  have mv: "moved ?mc ?mc'" by simp
  have "edge_item ops (dup_first ops) ?mc' (page (sub t ?a)) 0 wk wd = Inr (0, ?mc', opt_if wk (fst (entry_at (tc_txn mc) t ?a 0)), opt_if wd (snd (entry_at (tc_txn mc) t ?a 0)))"
    using edge_item_leaf [of ?mc' "sub t ?a" 0 ops "dup_first ops" wk wd] p(3,9) mc1(4) by simp
  then have "cursor_first ops mc wk wd = Inr (0, ?mc', opt_if wk (fst (entry_at (tc_txn mc) t ?a 0)), opt_if wd (snd (entry_at (tc_txn mc) t ?a 0)))"
    using mc1(1) p(1,7) p2(1) pl by (simp add: cursor_first_def del: if_split)
  moreover have "cursor_base ?mc' h (Some t)" by (rule base_moved [OF _ mv p2(2)]) (simp add: mc1(3))
  ultimately show ?thesis using p2(2) mc1(4,5) moved_flag [OF mv] by (intro exI [of _ ?mc']) simp
qed

lemma cursor_last_leaf:
  assumes pl: "plain mc" and base: "cursor_base mc h (Some t)" and init: "has_flag C_INITIALIZED mc \<Longrightarrow> \<exists>a i. leaf_pos mc h t a i"
    and eof: "has_flag C_EOF mc \<Longrightarrow> leaf_pos mc h t (path_by (edge False) h t) (tc_ki mc ! h)"
  shows "\<exists>mc'. cursor_last ops mc wk wd = Inr (0, mc', opt_if wk (fst (entry_at (tc_txn mc) t (path_by (edge False) h t) (edge False (sub t (path_by (edge False) h t))))),
      opt_if wd (snd (entry_at (tc_txn mc) t (path_by (edge False) h t) (edge False (sub t (path_by (edge False) h t)))))) \<and>
    leaf_pos mc' h t (path_by (edge False) h t) (edge False (sub t (path_by (edge False) h t))) \<and> cursor_base mc' h (Some t) \<and>
    has_flag C_INITIALIZED mc' \<and> has_flag C_EOF mc' \<and> tc_txn mc' = tc_txn mc \<and> own mc' = own mc"
proof -
  let ?a = "path_by (edge False) h t" and ?e = "edge False (sub t (path_by (edge False) h t))"
  have "\<exists>mc1. (if \<not> has_flag C_EOF mc then
              ebind (if \<not> has_flag C_INITIALIZED mc \<or> tc_top mc \<noteq> 0 then read_search mc None MDB_PS_LAST else Inr (0, mc)) (\<lambda>(rc, mc).
              if rc \<noteq> 0 then Inr (rc, mc)
              else ebind (top_page mc) (\<lambda>mp. if \<not> IS_LEAF mp then Inl Assert_Fail else Inr (0, mc)))
            else Inr (0, mc)) = Inr (0, mc1) \<and>
    leaf_pos mc1 h t ?a (tc_ki mc1 ! h) \<and> cursor_base mc1 h (Some t) \<and> tc_txn mc1 = tc_txn mc \<and> own mc1 = own mc"
  proof (cases "has_flag C_EOF mc")
    case False
    obtain mc1 where mc1: "(if \<not> has_flag C_INITIALIZED mc \<or> tc_top mc \<noteq> 0 then read_search mc None MDB_PS_LAST else Inr (0, mc)) = Inr (0, mc1)"
      "leaf_pos mc1 h t ?a (tc_ki mc1 ! h)" "cursor_base mc1 h (Some t)" "tc_txn mc1 = tc_txn mc" "own mc1 = own mc"
      using edge_search [OF base init, of False, unfolded if_False] by blast
    then show ?thesis using False leaf_posD(1,7) [OF mc1(2) base_ok(1) [OF mc1(3)]] by (intro exI [of _ mc1]) (simp del: if_split)
  qed (use base eof in auto)
  then obtain mc1 where run: "(if \<not> has_flag C_EOF mc then
              ebind (if \<not> has_flag C_INITIALIZED mc \<or> tc_top mc \<noteq> 0 then read_search mc None MDB_PS_LAST else Inr (0, mc)) (\<lambda>(rc, mc).
              if rc \<noteq> 0 then Inr (rc, mc)
              else ebind (top_page mc) (\<lambda>mp. if \<not> IS_LEAF mp then Inl Assert_Fail else Inr (0, mc)))
            else Inr (0, mc)) = Inr (0, mc1)"
    and mc1: "leaf_pos mc1 h t ?a (tc_ki mc1 ! h)" "cursor_base mc1 h (Some t)" "tc_txn mc1 = tc_txn mc" "own mc1 = own mc"
    by blast
  note p = leaf_posD [OF mc1(1) base_ok(1) [OF mc1(2)]]
  define mc2 where "mc2 = mc1\<lparr>tc_ki := (tc_ki mc1)[h := ?e]\<rparr>"
  have last: "indx_t (int (NUMKEYS (page (sub t ?a))) - 1) = ?e" "?e < width (sub t ?a)" using p(8-10) by (simp_all add: indx_last edge_def)
  have p2: "set_ki mc1 ?e = Inr mc2" "leaf_pos mc2 h t ?a ?e" "moved mc1 mc2" using p(5,6) by (simp_all add: mc2_def)
  let ?mc = "set_flags (C_INITIALIZED OR C_EOF) mc2"
  have b2: "cursor_base mc2 h (Some t)" by (rule base_moved [OF mc1(2) p2(3,2)])
  have t2: "tc_txn mc2 = tc_txn mc" "own mc2 = own mc" using moved_own [OF p2(3)] mc1(3,4) by simp_all
  have "edge_item ops (dup_last ops) ?mc (page (sub t ?a)) ?e wk wd = Inr (0, ?mc, opt_if wk (fst (entry_at (tc_txn mc) t ?a ?e)), opt_if wd (snd (entry_at (tc_txn mc) t ?a ?e)))"
    using edge_item_leaf [of ?mc "sub t ?a" ?e ops "dup_last ops" wk wd] p(3) last(2) mc1(3) t2 by simp
  then have "cursor_last ops mc wk wd = Inr (0, ?mc, opt_if wk (fst (entry_at (tc_txn mc) t ?a ?e)), opt_if wd (snd (entry_at (tc_txn mc) t ?a ?e)))"
    using run p(1) last(1) p2(1) pl by (simp add: cursor_last_def Let_def del: if_split)
  then show ?thesis using p2(2) b2 t2 by (intro exI [of _ ?mc]) simp
qed

lemma edge_empty:
  assumes "plain mc" and "cursor_base mc h None" and "\<not> has_flag C_INITIALIZED mc" "\<not> has_flag C_EOF mc"
  shows "cursor_first ops mc wk wd = Inr (MDB_NOTFOUND, mc, None, None)" and "cursor_last ops mc wk wd = Inr (MDB_NOTFOUND, mc, None, None)"
  using assms cursor_base_empty [OF assms(2)] by (simp_all add: cursor_first_def cursor_last_def MDB_NOTFOUND_def)

end

interpretation sub_plain: plain_cursor sub_ops "\<lambda>_. True"
  by unfold_locales (simp_all add: sub_ops_def)

interpretation main_plain: plain_cursor main_ops "\<lambda>mc. mc_xcursor mc = None"
proof
  fix mc mc' :: mdb_mcursor
  show "mc_xcursor mc = None \<Longrightarrow> dup_null main_ops mc" by (simp add: main_ops_def)
  show "mc_xcursor mc = None \<Longrightarrow> own mc' = own mc \<Longrightarrow> mc_xcursor mc' = None"
    by (cases mc; cases mc') (simp add: own_def)
qed

end
