(* ===== verification/Mdb_Scan.thy ===== *)
theory Mdb_Scan
  imports Mdb_Walk
begin

text \<open>
  A program that calls \<open>mdb_cursor_get\<close> until it fails, and what it gets to see.
\<close>

fun scan :: "MDB_cursor_op \<Rightarrow> nat \<Rightarrow> mdb_mcursor \<Rightarrow> mdb_fault + int \<times> (byte list \<times> byte list) list" where
  "scan op 0 mc = Inl No_End"
| "scan op (Suc n) mc = ebind (mdb_cursor_get (Some mc) (Some []) (Some []) op) (\<lambda>(rc, mc, k, d).
     if rc \<noteq> 0 then Inr (rc, []) else ebind (scan op n (the mc)) (\<lambda>(rc, xs). Inr (rc, (the k, the d) # xs)))"

lemma path_snoc: "x \<in> set (paths t (Suc h)) \<Longrightarrow> x = butlast x @ [last x]"
  using length_paths [of x t "Suc h"] by (cases x rule: rev_cases) auto

lemma beside_at:
  assumes "tree_ok txn h t" and "paths t (Suc h) = us @ x # vs"
  shows "\<exists>us' vs'. paths t h = us' @ butlast x # vs' \<and> last x < width (sub t (butlast x)) \<and>
    map_option (\<lambda>(b, j). b @ [j]) (beside right t (butlast x) (last x) us' vs') = adj right us vs"
proof -
  have "x = butlast x @ [last x]" by (rule path_snoc [of _ t h]) (simp add: assms(2) del: paths.simps)
  then show ?thesis using beside_adj [OF paths_pos [OF assms(1) order_refl], of us "butlast x" "last x" vs] assms(2) by metis
qed

abbreviation position_entry :: "mdb_txn \<Rightarrow> ptree \<Rightarrow> nat list \<Rightarrow> byte list \<times> byte list" where
  "position_entry txn t x \<equiv> entry_at txn t (butlast x) (last x)"

lemma get_next:
  assumes "has_flag C_INITIALIZED mc" and "tx_flags (tc_txn mc) AND MDB_TXN_ERROR = 0"
    and "cursor_next main_ops mc True True MDB_NEXT = Inr (rc, mc', k, d)" and "\<not> has_flag C_DEL mc'"
  shows "mdb_cursor_get (Some mc) (Some kv) (Some dv) MDB_NEXT = Inr (rc, Some mc', k, d)"
  using assms by (simp add: mdb_cursor_get_def cursor_get_def get_op_def prev_op_def Let_def)

lemma get_prev:
  assumes "has_flag C_INITIALIZED mc" and "tx_flags (tc_txn mc) AND MDB_TXN_ERROR = 0"
    and "cursor_prev main_ops mc True True MDB_PREV = Inr (rc, mc', k, d)" and "\<not> has_flag C_DEL mc'"
  shows "mdb_cursor_get (Some mc) (Some kv) (Some dv) MDB_PREV = Inr (rc, Some mc', k, d)"
  using assms by (simp add: mdb_cursor_get_def cursor_get_def get_op_def prev_op_def Let_def)

lemma scan_next_from:
  assumes "cursor_base mc h (Some t)" and "has_flag C_INITIALIZED mc" and "\<not> has_flag C_EOF mc"
    and "paths t (Suc h) = us @ x # vs" and "leaf_pos mc h t (butlast x) (last x)" and "length vs < n"
  shows "scan MDB_NEXT n mc = Inr (MDB_NOTFOUND, map (position_entry (tc_txn mc) t) vs)"
  using assms
proof (induction vs arbitrary: mc us x n)
  case Nil
  obtain m where n: "n = Suc m" using Nil.prems(6) by (cases n) auto
  from beside_at [OF base_ok(1) [OF Nil.prems(1)] Nil.prems(4), of True] obtain us' vs'
    where leaf: "paths t h = us' @ butlast x # vs'" "beside True t (butlast x) (last x) us' vs' = None"
    by auto
  have "cursor_next main_ops mc True True MDB_NEXT = Inr (MDB_NOTFOUND, set_flags C_EOF mc, None, None)"
    using cursor_next_leaf [OF base_ok(1,2) [OF Nil.prems(1)] Nil.prems(5) leaf(1) base_ok(3) [OF Nil.prems(1)] Nil.prems(2,3) base_ok(5) [OF Nil.prems(1)],
      of main_ops True True MDB_NEXT] leaf(2) by simp
  from get_next [OF Nil.prems(2) base_ok(4) [OF Nil.prems(1)] this] base_ok(5) [OF Nil.prems(1)]
  show ?case by (simp add: n MDB_NOTFOUND_def)
next
  case (Cons y vs)
  obtain m where n: "n = Suc m" "length vs < m" using Cons.prems(6) by (cases n) auto
  note base = Cons.prems(1)
  from beside_at [OF base_ok(1) [OF base] Cons.prems(4), of True] obtain us' vs' b j
    where leaf: "paths t h = us' @ butlast x # vs'" "beside True t (butlast x) (last x) us' vs' = Some (b, j)" "y = b @ [j]"
    by auto
  obtain mc' where mc': "cursor_next main_ops mc True True MDB_NEXT = Inr (0, mc', opt_if True (fst (entry_at (tc_txn mc) t b j)), opt_if True (snd (entry_at (tc_txn mc) t b j)))"
    "leaf_pos mc' h t b j" "moved mc mc'"
    using cursor_next_leaf [OF base_ok(1,2) [OF base] Cons.prems(5) leaf(1) base_ok(3) [OF base] Cons.prems(2,3) base_ok(5) [OF base],
      of main_ops True True MDB_NEXT] leaf(2) by auto
  have base': "cursor_base mc' h (Some t)" by (rule base_moved [OF base mc'(3,2)])
  have "scan MDB_NEXT m mc' = Inr (MDB_NOTFOUND, map (position_entry (tc_txn mc') t) vs)"
    by (rule Cons.IH [of mc' "us @ [x]" y])
      (use base' moved_flag [OF mc'(3)] Cons.prems(2,3,4) mc'(2) leaf(3) n(2) in \<open>simp_all del: paths.simps\<close>)
  moreover have "tc_txn mc' = tc_txn mc" using mc'(3) by (simp add: moved_def)
  ultimately show ?case
    using get_next [OF Cons.prems(2) base_ok(4) [OF base] mc'(1) base_ok(5) [OF base']] n(1) leaf(3) by (simp add: opt_if_def)
qed

lemma scan_prev_from:
  assumes "cursor_base mc h (Some t)" and "has_flag C_INITIALIZED mc"
    and "paths t (Suc h) = us @ x # vs" and "leaf_pos mc h t (butlast x) (last x)" and "length us < n"
  shows "scan MDB_PREV n mc = Inr (MDB_NOTFOUND, map (position_entry (tc_txn mc) t) (rev us))"
  using assms
proof (induction us arbitrary: mc vs x n rule: rev_induct)
  case Nil
  obtain m where n: "n = Suc m" using Nil.prems(5) by (cases n) auto
  from beside_at [OF base_ok(1) [OF Nil.prems(1)] Nil.prems(3), of False] obtain us' vs'
    where leaf: "paths t h = us' @ butlast x # vs'" "beside False t (butlast x) (last x) us' vs' = None" "last x < width (sub t (butlast x))"
    by auto
  have "cursor_prev main_ops mc True True MDB_PREV = Inr (MDB_NOTFOUND, mc, None, None)"
    using cursor_prev_leaf [OF base_ok(1,2) [OF Nil.prems(1)] Nil.prems(4) less_imp_le [OF leaf(3)] leaf(1) base_ok(3) [OF Nil.prems(1)] Nil.prems(2),
      of main_ops True True MDB_PREV] leaf(2) by simp
  from get_prev [OF Nil.prems(2) base_ok(4) [OF Nil.prems(1)] this] base_ok(5) [OF Nil.prems(1)]
  show ?case by (simp add: n MDB_NOTFOUND_def)
next
  case (snoc y us)
  obtain m where n: "n = Suc m" "length us < m" using snoc.prems(5) by (cases n) auto
  note base = snoc.prems(1)
  from beside_at [OF base_ok(1) [OF base] snoc.prems(3), of False] obtain us' vs' b j
    where leaf: "paths t h = us' @ butlast x # vs'" "beside False t (butlast x) (last x) us' vs' = Some (b, j)" "y = b @ [j]"
      "last x < width (sub t (butlast x))"
    by auto
  obtain mc' where mc': "cursor_prev main_ops mc True True MDB_PREV = Inr (0, clr_flags C_EOF mc', opt_if True (fst (entry_at (tc_txn mc) t b j)), opt_if True (snd (entry_at (tc_txn mc) t b j)))"
    "leaf_pos mc' h t b j" "moved mc mc'"
    using cursor_prev_leaf [OF base_ok(1,2) [OF base] snoc.prems(4) less_imp_le [OF leaf(4)] leaf(1) base_ok(3) [OF base] snoc.prems(2),
      of main_ops True True MDB_PREV] leaf(2) by auto
  have base': "cursor_base (clr_flags C_EOF mc') h (Some t)" using base_moved [OF base mc'(3,2)] by simp
  have txn: "tc_txn mc' = tc_txn mc" using mc'(3) by (simp add: moved_def)
  have "scan MDB_PREV m (clr_flags C_EOF mc') = Inr (MDB_NOTFOUND, map (position_entry (tc_txn (clr_flags C_EOF mc')) t) (rev us))"
    by (rule snoc.IH [of _ y "x # vs"])
      (use base' moved_flag [OF mc'(3)] snoc.prems(2,3) mc'(2) leaf(3) n(2) in \<open>simp_all del: paths.simps\<close>)
  then show ?case
    using get_prev [OF snoc.prems(2) base_ok(4) [OF base] mc'(1) base_ok(5) [OF base']] n(1) leaf(3) txn by (simp add: opt_if_def)
qed

lemma cursor_init_base:
  assumes "db_ok txn (mt_dbs txn ! dbi) h t" and "dbi < length (mt_dbs txn)" "dbi < length (mt_dbxs txn)" "dbi < length (mt_dbflags txn)"
    and "mt_dbflags txn ! dbi AND DB_STALE = 0"
  shows "\<exists>mc. mdb_cursor_init mx txn dbi = Inr mc \<and> cursor_base mc h t \<and> tc_flags mc = 0 \<and> mc_xcursor mc = None \<and> tc_txn mc = txn \<and>
    tc_dbx mc = mt_dbxs txn ! dbi \<and> tc_db mc = mt_dbs txn ! dbi"
proof -
  have "0 < CURSOR_STACK" "md_flags (mt_dbs txn ! dbi) AND MDB_DUPSORT = 0" using assms(1) by (simp_all add: CURSOR_STACK_def db_ok_def)
  then show ?thesis
    using assms by (simp add: mdb_cursor_init_def cursor_fields_def of_arr_def aget_def Let_def mdb_tcursor.extend_def mdb_mcursor.fields_def
      cursor_base_def has_flag_def)
qed

lemma scan_next_fresh:
  assumes base: "cursor_base mc h t" and x: "mc_xcursor mc = None" and fl: "tc_flags mc = 0" and n: "length (all_entries (tc_txn mc) t) < n"
  shows "scan MDB_NEXT n mc = Inr (MDB_NOTFOUND, all_entries (tc_txn mc) t)"
proof -
  obtain m where m: "n = Suc m" using n by (cases n) auto
  have init: "\<not> has_flag C_INITIALIZED mc" "\<not> has_flag C_EOF mc" using fl by (simp_all add: has_flag_def)
  show ?thesis
  proof (cases t)
    case None
    then show ?thesis using main_plain.edge_empty(1) [OF x, of h True True] base init base_ok(4) [OF base] base_ok(5) [OF base] m
      by (simp add: mdb_cursor_get_def cursor_get_def get_op_def prev_op_def Let_def all_entries_def MDB_NOTFOUND_def)
  next
    case (Some u)
    let ?a = "path_by (edge True) h u" and ?txn = "tc_txn mc"
    obtain mc' where mc': "cursor_first main_ops mc True True = Inr (0, mc', opt_if True (fst (entry_at ?txn u ?a 0)), opt_if True (snd (entry_at ?txn u ?a 0)))"
      "leaf_pos mc' h u ?a 0" "cursor_base mc' h (Some u)" "has_flag C_INITIALIZED mc'" "\<not> has_flag C_EOF mc'" "tc_txn mc' = ?txn"
      using main_plain.cursor_first_leaf [OF x, of h u True True] base init(1) Some by blast
    note ok = base_ok(1) [OF mc'(3)]
    obtain vs where "paths u h = ?a # vs" using path_by_edge [OF ok] by blast
    moreover have "0 < width (sub u ?a)" by (rule leaf_posD(9) [OF mc'(2) ok])
    ultimately obtain ws where ws: "paths u (Suc h) = (?a @ [0]) # ws" by (simp add: upt_conv_Cons)
    have ent: "all_entries ?txn t = map (position_entry ?txn u) (paths u (Suc h))"
      using entries_paths [OF ok] mc'(6) Some by (simp add: all_entries_def)
    have "scan MDB_NEXT m mc' = Inr (MDB_NOTFOUND, map (position_entry ?txn u) ws)"
      using scan_next_from [OF mc'(3-5), of "[]" "?a @ [0]" ws m] ws mc'(2,6) n m ent by (simp del: paths.simps)
    then show ?thesis
      using mc'(1) m init base_ok(4) [OF base] base_ok(5) [OF mc'(3)] ent ws
      by (simp add: mdb_cursor_get_def cursor_get_def get_op_def prev_op_def Let_def opt_if_def del: paths.simps)
  qed
qed

lemma scan_prev_fresh:
  assumes base: "cursor_base mc h t" and x: "mc_xcursor mc = None" and fl: "tc_flags mc = 0" and n: "length (all_entries (tc_txn mc) t) < n"
  shows "scan MDB_PREV n mc = Inr (MDB_NOTFOUND, rev (all_entries (tc_txn mc) t))"
proof -
  obtain m where m: "n = Suc m" using n by (cases n) auto
  have init: "\<not> has_flag C_INITIALIZED mc" "\<not> has_flag C_EOF mc" using fl by (simp_all add: has_flag_def)
  show ?thesis
  proof (cases t)
    case None
    then show ?thesis using main_plain.edge_empty(2) [OF x, of h True True] base init base_ok(4) [OF base] base_ok(5) [OF base] m
      by (simp add: mdb_cursor_get_def cursor_get_def get_op_def prev_op_def Let_def all_entries_def MDB_NOTFOUND_def)
  next
    case (Some u)
    let ?a = "path_by (edge False) h u" and ?txn = "tc_txn mc"
    let ?e = "edge False (sub u ?a)" and ?w = "width (sub u ?a)"
    obtain mc1 where mc1: "cursor_last main_ops mc True True = Inr (0, mc1, opt_if True (fst (entry_at ?txn u ?a ?e)), opt_if True (snd (entry_at ?txn u ?a ?e)))"
      "leaf_pos mc1 h u ?a ?e" "cursor_base mc1 h (Some u)" "has_flag C_INITIALIZED mc1" "tc_txn mc1 = ?txn"
      using main_plain.cursor_last_leaf [OF x, of h u True True] base init Some by blast
    note ok = base_ok(1) [OF mc1(3)]
    note p = leaf_posD [OF mc1(2) ok]
    define mc2 where "mc2 = set_flags C_INITIALIZED mc1\<lparr>tc_ki := (tc_ki mc1)[h := ?w]\<rparr>"
    have e: "indx_t (int ?e + 1) = ?w" "?e < ?w" using p(9,10) by (simp_all add: edge_def indx_t_small nat_add_distrib)
    have p2: "set_ki (set_flags C_INITIALIZED mc1) ?w = Inr mc2" "leaf_pos mc2 h u ?a ?w" "cursor_base mc2 h (Some u)"
      "has_flag C_INITIALIZED mc2" "tc_txn mc2 = ?txn"
    proof -
      note q = leaf_posD(5,6) [of "set_flags C_INITIALIZED mc1" h u ?a ?e ?w]
      have eq: "mc2 = (set_flags C_INITIALIZED mc1)\<lparr>tc_ki := (tc_ki (set_flags C_INITIALIZED mc1))[h := ?w]\<rparr>" by (simp add: mc2_def set_flags_def)
      show "set_ki (set_flags C_INITIALIZED mc1) ?w = Inr mc2" and pos: "leaf_pos mc2 h u ?a ?w"
        using q mc1(2) ok unfolding eq by simp_all
      show "cursor_base mc2 h (Some u)" by (rule base_moved [of "set_flags C_INITIALIZED mc1", OF _ _ pos]) (use mc1(3) eq in simp_all)
      have mv: "moved (set_flags C_INITIALIZED mc1) mc2" unfolding eq by simp
      show "has_flag C_INITIALIZED mc2" using moved_flag [OF mv] by simp
      show "tc_txn mc2 = ?txn" using mv mc1(5) by (simp add: moved_def)
    qed
    obtain us where us: "paths u h = us @ [?a]" using path_by_edge [OF ok] by blast
    have step: "beside False u ?a ?w us [] = Some (?a, ?e)" using e(2) by (simp add: beside_def edge_def)
    obtain mc3 where mc3: "cursor_prev main_ops mc2 True True MDB_PREV = Inr (0, clr_flags C_EOF mc3, opt_if True (fst (entry_at ?txn u ?a ?e)), opt_if True (snd (entry_at ?txn u ?a ?e)))"
      "leaf_pos mc3 h u ?a ?e" "moved mc2 mc3"
      using cursor_prev_leaf [OF base_ok(1,2) [OF p2(3)] p2(2) order_refl us base_ok(3) [OF p2(3)] p2(4), of main_ops True True MDB_PREV] step p2(5) by auto
    have b3: "cursor_base (clr_flags C_EOF mc3) h (Some u)" using base_moved [OF p2(3) mc3(3,2)] by simp
    have t3: "tc_txn mc3 = ?txn" "has_flag C_INITIALIZED (clr_flags C_EOF mc3)" using mc3(3) p2(4,5) moved_flag [OF mc3(3)] by (simp_all add: moved_def)
    have "[0..<?w] = [0..<?e] @ [?e]" using e(2) upt_Suc_append [of 0 ?e] by (simp add: edge_def)
    then obtain ws where ws: "paths u (Suc h) = ws @ [?a @ [?e]]" using us by simp
    have ent: "all_entries ?txn t = map (position_entry ?txn u) (paths u (Suc h))"
      using entries_paths [OF ok] mc1(5) Some by (simp add: all_entries_def)
    have "scan MDB_PREV m (clr_flags C_EOF mc3) = Inr (MDB_NOTFOUND, map (position_entry ?txn u) (rev ws))"
      using scan_prev_from [OF b3 t3(2), of ws "?a @ [?e]" "[]" m] ws mc3(2) t3(1) n m ent by (simp del: paths.simps)
    then show ?thesis
      using mc1(1) m init base_ok(4) [OF base] base_ok(5) [OF b3] ent ws p(2) e(1) p2(1) mc3(1)
      by (simp add: mdb_cursor_get_def cursor_get_def get_op_def prev_op_def Let_def opt_if_def rev_map del: paths.simps)
  qed
qed

end
