(* ===== verification/Mdb_Lookup.thy ===== *)
theory Mdb_Lookup
  imports Mdb_Scan
begin

text \<open>
  Looking up keys in a database whose tree is ordered by its comparison function. The locale \<open>string_order\<close> has the comparison functions that
  order all keys, \<open>mdb_cmp_memn\<close> and \<open>mdb_cmp_memnr\<close>; the lemmas in it show that the descent from the root
  leads to the only leaf that can have the key, and what \<open>mdb_cursor_set\<close> finds from there or
  from where the cursor is already.
\<close>

subsection \<open>Ordered trees\<close>

definition key_below :: "cmp_func \<Rightarrow> byte list \<Rightarrow> byte list \<Rightarrow> bool" where
  "key_below f a b \<longleftrightarrow> (case run_cmp f a b of Inr r \<Rightarrow> r < 0 | Inl _ \<Rightarrow> False)"

fun tree_keys :: "ptree \<Rightarrow> byte list list" where
  "tree_keys (PLeaf p) = page_keys p"
| "tree_keys (PNode p ts) = concat (map tree_keys ts)"

text \<open>
  The key \<open>i\<close> of a branch page, from the second on, separates the subtrees before \<open>i\<close> from those from \<open>i\<close> on.
\<close>

fun seps_ok :: "cmp_func \<Rightarrow> ptree \<Rightarrow> bool" where
  "seps_ok f (PLeaf p) \<longleftrightarrow> True"
| "seps_ok f (PNode p ts) \<longleftrightarrow> sorted_wrt (key_below f) (drop 1 (page_keys p)) \<and> list_all (seps_ok f) ts \<and>
     list_all (\<lambda>i. list_all (\<lambda>k. key_below f k (page_keys p ! i)) (concat (map tree_keys (take i ts))) \<and>
       list_all (\<lambda>k. \<not> key_below f k (page_keys p ! i)) (concat (map tree_keys (drop i ts)))) [1..<length ts]"

definition tree_ordered :: "cmp_func \<Rightarrow> ptree \<Rightarrow> bool" where
  "tree_ordered f t \<longleftrightarrow> sorted_wrt (key_below f) (tree_keys t) \<and> seps_ok f t"

lemma length_page_keys [simp]: "length (page_keys p) = NUMKEYS p"
  by (simp add: page_keys_def)

lemma fst_entries: "map fst (entries txn t) = tree_keys t"
proof (induction t)
  case (PLeaf p)
  have "map (fst \<circ> node_entry txn p) [0..<NUMKEYS p] = page_keys p"
    by (rule nth_equalityI) (simp_all add: node_entry_def)
  then show ?case by simp
next
  case (PNode p ts)
  then show ?case by (auto simp: map_concat intro: arg_cong [where f = concat])
qed

lemma tree_keys_short: "k \<in> set (tree_keys t) \<Longrightarrow> length k < 2 ^ 32"
  by (induction t) (auto dest: page_keys_short)

lemma sorted_wrt_concat: "sorted_wrt P (concat xss) \<Longrightarrow> xs \<in> set xss \<Longrightarrow> sorted_wrt P xs"
  by (induction xss) (auto simp: sorted_wrt_append)

lemma tree_ordered_kid: "tree_ordered f (PNode p ts) \<Longrightarrow> i < length ts \<Longrightarrow> tree_ordered f (ts ! i)"
  using sorted_wrt_concat [of "key_below f" "map tree_keys ts" "tree_keys (ts ! i)"] by (auto simp: tree_ordered_def list_all_iff)

text \<open>The keys of the leaf at a position are keys of the tree.\<close>

lemma leaf_keys:
  "tree_ok txn h t \<Longrightarrow> b \<in> set (paths t h) \<Longrightarrow> set (page_keys (page (sub t b))) \<subseteq> set (tree_keys t)"
proof (induction h arbitrary: t b)
  case 0
  then show ?case by (cases t) auto
next
  case (Suc h)
  then obtain p ts where t: "t = PNode p ts" "length ts = NUMKEYS p" "\<And>i. i < NUMKEYS p \<Longrightarrow> tree_ok txn h (ts ! i)"
    using tree_ok_branch [OF Suc.prems(1)] by auto
  obtain i c where b: "b = i # c" "i < NUMKEYS p" "c \<in> set (paths (ts ! i) h)"
    using Suc.prems(2) unfolding paths_Cons by (auto simp: t(1) width_def)
  have "set (page_keys (page (sub (ts ! i) c))) \<subseteq> set (tree_keys (ts ! i))" by (rule Suc.IH [OF t(3) [OF b(2)] b(3)])
  moreover have "set (tree_keys (ts ! i)) \<subseteq> set (tree_keys t)" using b(2) t(1,2) by force
  ultimately show ?case using t(1) b(1) by auto
qed

lemma seps_sub: "tree_ok txn h t \<Longrightarrow> seps_ok f t \<Longrightarrow> a \<in> set (paths t d) \<Longrightarrow> d \<le> h \<Longrightarrow> seps_ok f (sub t a)"
proof (induction d arbitrary: a)
  case (Suc d)
  obtain b i where a: "a = b @ [i]" "b \<in> set (paths t d)" "i < width (sub t b)" using Suc.prems(3) by (auto simp: ext_def)
  have "seps_ok f (sub t b)" using Suc a by simp
  moreover obtain p ts where "sub t b = PNode p ts" "length ts = NUMKEYS p"
    using tree_ok_branch [OF sub_ok [OF Suc.prems(1) _ a(2)]] Suc.prems(4) by auto
  ultimately show ?case using a(1,3) by (auto simp: width_def list_all_iff)
qed simp

lemma take_path: "a \<in> set (paths t h) \<Longrightarrow> l \<le> h \<Longrightarrow> take l a \<in> set (paths t l)"
proof (induction h arbitrary: a)
  case (Suc h)
  obtain b i where a: "a = b @ [i]" "b \<in> set (paths t h)" using Suc.prems(1) by (auto simp: ext_def)
  show ?case
  proof (cases "l = Suc h")
    case True
    then show ?thesis using Suc.prems(1) length_paths [OF Suc.prems(1)] by (simp del: paths.simps)
  next
    case False
    then show ?thesis using Suc a length_paths [OF a(2)] by simp
  qed
qed simp

text \<open>The entries of some leaves, and the entries of a tree around one leaf.\<close>

definition leaf_entries :: "mdb_txn \<Rightarrow> ptree \<Rightarrow> nat list list \<Rightarrow> (byte list \<times> byte list) list" where
  "leaf_entries txn t bs = concat (map (\<lambda>b. map (entry_at txn t b) [0..<width (sub t b)]) bs)"

lemma entries_leaf:
  "tree_ok txn h t \<Longrightarrow> paths t h = us @ a # vs \<Longrightarrow>
    entries txn t = leaf_entries txn t us @ map (entry_at txn t a) [0..<width (sub t a)] @ leaf_entries txn t vs"
  by (simp add: entries_paths ext_def leaf_entries_def map_concat o_def)

lemma leaf_sorted:
  assumes "tree_ok txn h t" and "tree_ordered f t" and "paths t h = us @ a # vs"
  shows "sorted_wrt (key_below f) (map fst (leaf_entries txn t us) @ page_keys (page (sub t a)) @ map fst (leaf_entries txn t vs))"
proof -
  have "map fst (map (entry_at txn t a) [0..<width (sub t a)]) = page_keys (page (sub t a))"
    by (rule nth_equalityI) (simp_all add: node_entry_def width_def page_keys_def)
  then show ?thesis
    using assms(2) fst_entries [of txn t] entries_leaf [OF assms(1,3)] by (simp add: tree_ordered_def)
qed

subsection \<open>Comparison functions that order all keys\<close>

locale string_order = key_order "run_cmp f" "\<lambda>a. length a < 2 ^ 32" for f :: cmp_func +
  assumes same: "length a < 2 ^ 32 \<Longrightarrow> length b < 2 ^ 32 \<Longrightarrow> run_cmp f a b = Inr 0 \<longleftrightarrow> a = b"
    and no_cint: "page_cmp p f = Inr f"
begin

lemma below_eq: "below a b = key_below f a b"
  by (auto simp: below_def key_below_def split: sum.splits)

lemma upto_eq: "length a < 2 ^ 32 \<Longrightarrow> length b < 2 ^ 32 \<Longrightarrow> upto a b \<longleftrightarrow> \<not> key_below f b a"
  using not_upto [of a b] below_eq by blast

lemma below_irrefl: "length a < 2 ^ 32 \<Longrightarrow> \<not> key_below f a a"
  using same [of a a] by (auto simp: key_below_def)

lemma below_trans: "length a < 2 ^ 32 \<Longrightarrow> length b < 2 ^ 32 \<Longrightarrow> length c < 2 ^ 32 \<Longrightarrow> key_below f a b \<Longrightarrow> \<not> key_below f c b \<Longrightarrow> key_below f a c"
  using below_upto_trans [of a b c] upto_eq [of b c] below_eq by blast

lemma below_trans2: "length a < 2 ^ 32 \<Longrightarrow> length b < 2 ^ 32 \<Longrightarrow> length c < 2 ^ 32 \<Longrightarrow> \<not> key_below f b a \<Longrightarrow> key_below f b c \<Longrightarrow> key_below f a c"
  using below_trans [of b c a] below_trans [of a c b] by blast

lemma below_cases: "length a < 2 ^ 32 \<Longrightarrow> length b < 2 ^ 32 \<Longrightarrow> a = b \<or> key_below f a b \<or> key_below f b a"
  using total [of a b] same [of a b] upto_eq [of a b] by (fastforce simp: upto_def key_below_def split: sum.splits)

lemma below_asym: "length a < 2 ^ 32 \<Longrightarrow> length b < 2 ^ 32 \<Longrightarrow> key_below f a b \<Longrightarrow> \<not> key_below f b a"
  using upto_eq [of b a] below_upto [of b a] below_eq by blast

lemma cmp_sign:
  assumes "length a < 2 ^ 32" and "length b < 2 ^ 32"
  obtains r where "run_cmp f a b = Inr r" "r = 0 \<longleftrightarrow> a = b" "r < 0 \<longleftrightarrow> key_below f a b" "0 < r \<longleftrightarrow> key_below f b a"
proof -
  obtain r where r: "run_cmp f a b = Inr r" using total [OF assms] by blast
  moreover have "r = 0 \<longleftrightarrow> a = b" using same [OF assms] r by simp
  moreover have "r < 0 \<longleftrightarrow> key_below f a b" using r by (simp add: key_below_def)
  moreover have "0 < r \<longleftrightarrow> key_below f b a" using below_cases [OF assms] below_asym [OF assms] below_irrefl [OF assms(1)] calculation(2,3) by force
  ultimately show ?thesis by (rule that)
qed

text \<open>\<open>mdb_node_search\<close> on the page at the top of the stack.\<close>

lemma node_search_stk:
  assumes st: "stk mc t a" and cmp: "md_cmp (tc_dbx mc) = f" and key: "length key < 2 ^ 32" and u: "u = sub t a" "tree_ok txn e u"
    and base: "base = (if e = 0 then 0 else 1)" and ks: "sorted_wrt (key_below f) (drop base (page_keys (page u)))"
  shows "\<exists>i. cursor_node_search mc (Some key) = Inr (if i < width u then Some i else None, i < width u \<and> page_keys (page u) ! i = key,
      mc\<lparr>tc_ki := (tc_ki mc)[length a := i]\<rparr>) \<and> base \<le> i \<and> i \<le> width u \<and>
    (\<forall>j. base \<le> j \<and> j < i \<longrightarrow> key_below f (page_keys (page u) ! j) key) \<and> (\<forall>j. i \<le> j \<and> j < width u \<longrightarrow> \<not> key_below f (page_keys (page u) ! j) key)"
proof -
  let ?p = "page u" and ?v = "page_view mc (page u)"
  let ?ks = "page_keys ?p"
  have short: "length (?ks ! j) < 2 ^ 32" if "j < NUMKEYS ?p" for j using that by (intro page_keys_short [of _ ?p]) simp
  have wf: "wf_page (length (mp_mem ?p)) (mc_pg ?v)" and leaf: "IS_LEAF ?p \<longleftrightarrow> e = 0" and ne: "base < length ?ks"
    using u(2) base by (cases u; auto simp: page_view_def)+
  have ord: "ordered ?ks base"
    unfolding ordered_def
  proof (intro allI impI)
    fix i j assume ij: "base \<le> i \<and> i < j \<and> j < length ?ks"
    then have "i - base < j - base" "j - base < length (drop base ?ks)" by auto
    then have "key_below f (drop base ?ks ! (i - base)) (drop base ?ks ! (j - base))" by (rule sorted_wrt_nth_less [OF ks])
    then show "below (?ks ! i) (?ks ! j)" using ij by (simp add: below_eq)
  qed
  have "\<exists>i ex. mdb_node_search f ?v key = Inr (if i < length ?ks then Some i else None, ex, ?v\<lparr>mc_ki := i\<rparr>) \<and>
    position ?ks key base i \<and> (ex \<longleftrightarrow> i < length ?ks \<and> run_cmp f key (?ks ! i) = Inr 0)"
    by (rule node_search_position [OF wf no_cint refl]) (use leaf base key ord ne page_keys_short in \<open>auto simp: page_view_def\<close>)
  then obtain i ex where found: "mdb_node_search f ?v key = Inr (if i < NUMKEYS ?p then Some i else None, ex, ?v\<lparr>mc_ki := i\<rparr>)"
    "position ?ks key base i" "ex \<longleftrightarrow> i < NUMKEYS ?p \<and> run_cmp f key (?ks ! i) = Inr 0" by auto
  have "ex \<longleftrightarrow> i < NUMKEYS ?p \<and> ?ks ! i = key" using found(3) same [OF key short] by auto
  then have "cursor_node_search mc (Some key) = Inr (if i < width u then Some i else None, i < width u \<and> ?ks ! i = key, mc\<lparr>tc_ki := (tc_ki mc)[length a := i]\<rparr>)"
    using found(1) top_page_stk [OF st] set_ki_stk(1) [OF st, of i] u(1) cmp by (simp add: cursor_node_search_def width_def)
  then show ?thesis
    using found(2) key short upto_eq [OF key short] by (intro exI [of _ i]) (auto simp: position_def width_def below_eq)
qed

text \<open>The index of the child to follow for a key: the number of separators that are not above the key.\<close>

definition pick :: "byte list \<Rightarrow> ptree \<Rightarrow> nat" where
  "pick key t = length (takeWhile (\<lambda>k. \<not> key_below f key k) (drop 1 (page_keys (page t))))"

lemma pickI:
  assumes "c < width t" and "\<And>j. 1 \<le> j \<Longrightarrow> j \<le> c \<Longrightarrow> \<not> key_below f key (page_keys (page t) ! j)"
    and "Suc c < width t \<Longrightarrow> key_below f key (page_keys (page t) ! Suc c)"
  shows "pick key t = c"
proof -
  have "takeWhile (\<lambda>k. \<not> key_below f key k) (drop 1 (page_keys (page t))) = take c (drop 1 (page_keys (page t)))"
    by (rule takeWhile_eq_take_P_nth) (use assms in \<open>auto simp: width_def\<close>)
  then show ?thesis using assms(1) by (simp add: pick_def width_def)
qed

lemma branch_index_stk:
  assumes st: "stk mc t a" and cmp: "md_cmp (tc_dbx mc) = f" and key: "length key < 2 ^ 32" and ok: "tree_ok txn e (sub t a)" "0 < e"
    and seps: "seps_ok f (sub t a)"
  shows "pick key (sub t a) < width (sub t a) \<and>
    (\<exists>k. branch_index mc (page (sub t a)) (Some key) 0 = Inr (pick key (sub t a), mc\<lparr>tc_ki := (tc_ki mc)[length a := k]\<rparr>)) \<and>
    (\<forall>j. 1 \<le> j \<and> j \<le> pick key (sub t a) \<longrightarrow> \<not> key_below f key (page_keys (page (sub t a)) ! j)) \<and>
    (\<forall>j. pick key (sub t a) < j \<and> j < width (sub t a) \<longrightarrow> key_below f key (page_keys (page (sub t a)) ! j))"
proof -
  let ?u = "sub t a"
  let ?ks = "page_keys (page ?u)"
  obtain p ts where u: "?u = PNode p ts" "2 \<le> NUMKEYS p" using tree_ok_branch [OF ok] by auto
  have sorted: "sorted_wrt (key_below f) (drop 1 ?ks)" using seps u(1) by simp
  have short: "length (?ks ! j) < 2 ^ 32" if "j < width ?u" for j using that by (intro page_keys_short [of _ "page ?u"]) (simp add: width_def)
  have mono: "key_below f (?ks ! i) (?ks ! j)" if "1 \<le> i" "i < j" "j < width ?u" for i j
    using sorted_wrt_nth_less [OF sorted, of "i - 1" "j - 1"] that by (simp add: width_def)
  obtain i where i: "cursor_node_search mc (Some key) = Inr (if i < width ?u then Some i else None, i < width ?u \<and> ?ks ! i = key, mc\<lparr>tc_ki := (tc_ki mc)[length a := i]\<rparr>)"
    "1 \<le> i" "i \<le> width ?u" and lo: "\<And>j. 1 \<le> j \<Longrightarrow> j < i \<Longrightarrow> key_below f (?ks ! j) key"
    and hi: "\<And>j. i \<le> j \<Longrightarrow> j < width ?u \<Longrightarrow> \<not> key_below f (?ks ! j) key"
    using node_search_stk [OF st cmp key refl ok(1), of 1] ok(2) sorted by auto
  define c where "c = (if i < width ?u \<and> ?ks ! i = key then i else i - 1)"
  have le: "\<not> key_below f key (?ks ! j)" if "1 \<le> j" "j \<le> c" for j
  proof (cases "j = i")
    case True
    then show ?thesis using that i(2,3) below_irrefl [OF key] by (auto simp: c_def split: if_splits)
  next
    case False
    then have "j < i" "j < width ?u" using that i(3) by (auto simp: c_def split: if_splits)
    then show ?thesis using below_asym [OF short key lo [OF that(1)]] by simp
  qed
  have gt: "key_below f key (?ks ! j)" if j: "c < j" "j < width ?u" for j
  proof -
    have "i \<le> j" "?ks ! i \<noteq> key \<or> i < j" using j i(2,3) by (auto simp: c_def split: if_splits)
    then consider "j = i" "?ks ! i \<noteq> key" | "i < j" by fastforce
    then show ?thesis
    proof cases
      case 1
      then show ?thesis using below_cases [OF key short [OF j(2)]] hi [of j] j(2) by auto
    next
      case 2
      then show ?thesis using below_trans2 [OF key short short, of i j] hi [of i] mono [of i j] i(2) j(2) by simp
    qed
  qed
  have cw: "c < width ?u" using i(2,3) by (auto simp: c_def)
  have "pick key ?u = c" by (rule pickI [OF cw le gt]) simp_all
  moreover have "branch_index mc (page ?u) (Some key) 0 = Inr (c, mc\<lparr>tc_ki := (tc_ki mc)[length a := i]\<rparr>)"
  proof -
    have top: "top_ki (mc\<lparr>tc_ki := (tc_ki mc)[length a := i]\<rparr>) = Inr i"
      using top_ki_stk [OF set_ki_stk(2) [OF st, of i]] stkD(2,3) [OF st] by simp
    have "indx_t (int (NUMKEYS (page ?u)) - 1) = width ?u - 1"
      using width_small [OF ok(1)] width_pos [OF ok(1)] by (simp add: indx_last width_def)
    then show ?thesis using i(1-3) top by (auto simp: branch_index_def c_def)
  qed
  ultimately show ?thesis using cw le gt by auto
qed

lemma pick_props:
  assumes "tree_ok txn (Suc h) u" and "seps_ok f u" and key: "length key < 2 ^ 32"
  shows "pick key u < width u" and "1 \<le> j \<Longrightarrow> j \<le> pick key u \<Longrightarrow> \<not> key_below f key (page_keys (page u) ! j)"
    and "pick key u < j \<Longrightarrow> j < width u \<Longrightarrow> key_below f key (page_keys (page u) ! j)"
proof -
  let ?ks = "page_keys (page u)" and ?P = "\<lambda>k. \<not> key_below f key k"
  obtain p ts where u: "u = PNode p ts" "2 \<le> NUMKEYS p" using tree_ok_branch [OF assms(1)] by auto
  have short: "length (?ks ! j) < 2 ^ 32" if "j < width u" for j using that by (intro page_keys_short [of _ "page u"]) (simp add: width_def)
  have le: "pick key u \<le> length (drop 1 ?ks)" unfolding pick_def by (rule length_takeWhile_le)
  then show "pick key u < width u" using u by (simp add: width_def)
  show "\<not> key_below f key (?ks ! j)" if "1 \<le> j" "j \<le> pick key u"
  proof -
    have "drop 1 ?ks ! (j - 1) = takeWhile ?P (drop 1 ?ks) ! (j - 1)" using that by (intro takeWhile_nth [symmetric]) (simp add: pick_def)
    also have "\<dots> \<in> set (takeWhile ?P (drop 1 ?ks))" using that by (intro nth_mem) (simp add: pick_def)
    finally show ?thesis using set_takeWhileD that le by force
  qed
  show "key_below f key (?ks ! j)" if j: "pick key u < j" "j < width u"
  proof -
    let ?c = "Suc (pick key u)"
    have c: "pick key u < length (drop 1 ?ks)" using j by (simp add: width_def)
    then have kc: "key_below f key (?ks ! ?c)" using nth_length_takeWhile [of ?P "drop 1 ?ks"] by (simp add: pick_def)
    show ?thesis
    proof (cases "j = ?c")
      case False
      have "sorted_wrt (key_below f) (drop 1 ?ks)" using assms(2) u by simp
      from sorted_wrt_nth_less [OF this, of "?c - 1" "j - 1"] have "key_below f (?ks ! ?c) (?ks ! j)" using j False by (simp add: width_def)
      then show ?thesis using below_trans2 [OF key short short, of ?c j] below_asym [OF key short kc] j False by simp
    qed (use kc in simp)
  qed
qed

text \<open>The leaves before the one that the search finds have only smaller keys, the ones behind it only larger keys.\<close>

lemma pick_split:
  assumes "tree_ok txn h t" and "seps_ok f t" and key: "length key < 2 ^ 32"
  shows "\<exists>us vs. paths t h = us @ path_by (pick key) h t # vs \<and> (\<forall>b\<in>set us. \<forall>k\<in>set (page_keys (page (sub t b))). key_below f k key) \<and>
    (\<forall>b\<in>set vs. \<forall>k\<in>set (page_keys (page (sub t b))). key_below f key k)"
  using assms(1,2)
proof (induction h arbitrary: t)
  case (Suc h)
  obtain p ts where t: "t = PNode p ts" "length ts = NUMKEYS p" "\<And>i. i < NUMKEYS p \<Longrightarrow> tree_ok txn h (ts ! i)"
    using tree_ok_branch [OF Suc.prems(1)] by auto
  let ?c = "pick key t"
  note c = pick_props [OF Suc.prems key]
  have w: "width t = NUMKEYS p" "?c < NUMKEYS p" using c(1) by (simp_all add: t(1) width_def)
  have "seps_ok f (ts ! ?c)" using Suc.prems(2) w(2) t by (auto simp: list_all_iff)
  from Suc.IH [OF t(3) [OF w(2)] this] obtain us vs where ih: "paths (ts ! ?c) h = us @ path_by (pick key) h (ts ! ?c) # vs"
    "\<forall>b\<in>set us. \<forall>k\<in>set (page_keys (page (sub (ts ! ?c) b))). key_below f k key"
    "\<forall>b\<in>set vs. \<forall>k\<in>set (page_keys (page (sub (ts ! ?c) b))). key_below f key k" by blast
  let ?g = "\<lambda>i. map (Cons i) (paths (ts ! i) h)"
  have "[0..<NUMKEYS p] = [0..<?c] @ ?c # [Suc ?c..<NUMKEYS p]"
    by (rule upt_split [OF w(2)])
  then have paths: "paths t (Suc h) = (concat (map ?g [0..<?c]) @ map (Cons ?c) us) @ path_by (pick key) (Suc h) t #
      (map (Cons ?c) vs @ concat (map ?g [Suc ?c..<NUMKEYS p]))"
    unfolding paths_Cons using ih(1) by (simp add: t(1) width_def)
  have sep: "\<forall>k\<in>set (tree_keys (ts ! j)). if j < i then key_below f k (page_keys p ! i) else \<not> key_below f k (page_keys p ! i)"
    if "1 \<le> i" "i < NUMKEYS p" "j < NUMKEYS p" for i j
  proof (cases "j < i")
    case True
    then have "ts ! j \<in> set (take i ts)" using that t(2) by (auto simp: in_set_conv_nth)
    then show ?thesis using True Suc.prems(2) that t by (auto simp: list_all_iff)
  next
    case False
    then have "ts ! j \<in> set (drop i ts)" using that t(2) by (auto simp: in_set_conv_nth intro!: exI [of _ "j - i"])
    then show ?thesis using False Suc.prems(2) that t by (auto simp: list_all_iff)
  qed
  have short: "length (page_keys p ! j) < 2 ^ 32" if "j < NUMKEYS p" for j using that by (intro page_keys_short [of _ p]) simp
  have lo: "key_below f k key" if i: "i < ?c" and k: "k \<in> set (tree_keys (ts ! i))" for i k
    using sep [of ?c i] i k w(2) c(2) [of ?c] below_trans [of k "page_keys p ! ?c" key] tree_keys_short [OF k] short [of ?c] key t(1) by auto
  have hi: "key_below f key k" if i: "?c < i" "i < NUMKEYS p" and k: "k \<in> set (tree_keys (ts ! i))" for i k
    using sep [of i i] i k c(3) [of i] below_trans [of key "page_keys p ! i" k] tree_keys_short [OF k] short [of i] key t(1) w(1) by auto
  have keys: "set (page_keys (page (sub (ts ! i) b))) \<subseteq> set (tree_keys (ts ! i))" if "i < NUMKEYS p" "b \<in> set (paths (ts ! i) h)" for i b
    by (rule leaf_keys [OF t(3) [OF that(1)] that(2)])
  have lo': "\<forall>k\<in>set (page_keys (page (sub t b))). key_below f k key" if b: "b \<in> set (concat (map ?g [0..<?c])) \<or> b \<in> set (map (Cons ?c) us)" for b
  proof -
    consider i b' where "i < ?c" "b = i # b'" "b' \<in> set (paths (ts ! i) h)" | b' where "b = ?c # b'" "b' \<in> set us" using b by auto
    then show ?thesis
    proof cases
      case 1
      then show ?thesis using keys [of i b'] lo [of i] w(2) by (auto simp: t(1))
    qed (use ih(2) in \<open>auto simp: t(1)\<close>)
  qed
  have hi': "\<forall>k\<in>set (page_keys (page (sub t b))). key_below f key k"
    if b: "b \<in> set (map (Cons ?c) vs) \<or> b \<in> set (concat (map ?g [Suc ?c..<NUMKEYS p]))" for b
  proof -
    consider i b' where "?c < i" "i < NUMKEYS p" "b = i # b'" "b' \<in> set (paths (ts ! i) h)" | b' where "b = ?c # b'" "b' \<in> set vs" using b by auto
    then show ?thesis
    proof cases
      case 1
      then show ?thesis using keys [of i b'] hi [of i] by (auto simp: t(1))
    qed (use ih(3) in \<open>auto simp: t(1)\<close>)
  qed
  show ?case by (rule exI, rule exI, rule conjI [OF paths], rule conjI; rule ballI; unfold set_append Un_iff; erule lo' hi')
qed (auto intro!: exI [of _ "[]"])

lemma search_key:
  assumes base: "cursor_base mc h (Some t)" and cmp: "md_cmp (tc_dbx mc) = f" and seps: "seps_ok f t" and key: "length key < 2 ^ 32"
  shows "\<exists>mc'. read_search mc (Some key) 0 = Inr (0, clr_flags C_EOF (set_flags C_INITIALIZED mc')) \<and>
    leaf_pos mc' h t (path_by (pick key) h t) (tc_ki mc' ! h) \<and> moved mc mc'"
proof -
  note ok = base_ok(1,2) [OF base]
  obtain mc0 where mc0: "read_search mc (Some key) 0 = mdb_page_search_root (CURSOR_STACK + 1) (\<lambda>_. Inl No_End) mc0 (Some key) 0" "stk mc0 t []" "moved mc mc0"
    using read_search_root [OF base, of 0 "Some key"] by auto
  have "\<exists>mc'. mdb_page_search_root (CURSOR_STACK + 1) (\<lambda>_. Inl No_End) mc0 (Some key) 0 = Inr (0, clr_flags C_EOF (set_flags C_INITIALIZED mc')) \<and>
    stk mc' t ([] @ path_by (pick key) h (sub t [])) \<and> moved mc0 mc' \<and> [] @ path_by (pick key) h (sub t []) \<in> set (paths t h)"
  proof (rule search_root_stk [OF _ ok(2) mc0(2), of 0])
    show "tree_ok (tc_txn mc0) h t" using ok(1) mc0(3) by (simp add: moved_def)
    fix mc' d a assume a: "moved mc0 mc'" "stk mc' t a" "a \<in> set (paths t d)" "d < h"
    have "md_cmp (tc_dbx mc') = f" using cmp mc0(3) a(1) by (simp add: moved_def)
    moreover have "tree_ok (tc_txn mc) (h - d) (sub t a)" using sub_ok [OF ok(1) _ a(3)] a(4) by simp
    moreover have "seps_ok f (sub t a)" by (rule seps_sub [OF ok(1) seps a(3)]) (use a(4) in simp)
    ultimately show "pick key (sub t a) < width (sub t a) \<and>
        (\<exists>k. branch_index mc' (page (sub t a)) (Some key) 0 = Inr (pick key (sub t a), mc'\<lparr>tc_ki := (tc_ki mc')[d := k]\<rparr>))"
      using branch_index_stk [OF a(2) _ key, of "tc_txn mc" "h - d"] a(4) length_paths [OF a(3)] by simp
  qed (use ok(2) in auto)
  then show ?thesis using mc0(1) moved_trans [OF mc0(3)] by (auto simp: leaf_pos_def)
qed

text \<open>The first entry that is not below the key.\<close>

abbreviation lower :: "byte list \<Rightarrow> (byte list \<times> byte list) list \<Rightarrow> (byte list \<times> byte list) option" where
  "lower key \<equiv> find (\<lambda>(k, d). \<not> key_below f k key)"

lemma lower_leaf:
  assumes ok: "tree_ok txn h t" and split: "paths t h = us @ a # vs"
    and lo: "\<forall>b\<in>set us. \<forall>k\<in>set (page_keys (page (sub t b))). key_below f k key"
    and i: "i \<le> width (sub t a)" "\<And>j. j < i \<Longrightarrow> key_below f (page_keys (page (sub t a)) ! j) key"
  shows "i < width (sub t a) \<Longrightarrow> \<not> key_below f (page_keys (page (sub t a)) ! i) key \<Longrightarrow> lower key (entries txn t) = Some (entry_at txn t a i)"
    and "i = width (sub t a) \<Longrightarrow> \<forall>b\<in>set vs. \<forall>k\<in>set (page_keys (page (sub t b))). \<not> key_below f k key \<Longrightarrow>
      lower key (entries txn t) = (case vs of [] \<Rightarrow> None | b # _ \<Rightarrow> Some (entry_at txn t b 0))"
proof -
  let ?w = "width (sub t a)" and ?L = "leaf_entries txn t us @ map (entry_at txn t a) [0..<i]"
  have low: "\<forall>e\<in>set ?L. \<not> (case e of (k, d) \<Rightarrow> \<not> key_below f k key)"
    using lo i(2) by (auto simp: leaf_entries_def node_entry_def width_def)
  note ent = entries_leaf [OF ok split]
  show "lower key (entries txn t) = Some (entry_at txn t a i)" if "i < ?w" "\<not> key_below f (page_keys (page (sub t a)) ! i) key"
  proof -
    have "entries txn t = ?L @ entry_at txn t a i # map (entry_at txn t a) [Suc i..<?w] @ leaf_entries txn t vs"
      unfolding ent upt_split [OF that(1)] by simp
    then show ?thesis using find_skip [OF low] that(2) by (simp add: node_entry_def)
  qed
  show "lower key (entries txn t) = (case vs of [] \<Rightarrow> None | b # _ \<Rightarrow> Some (entry_at txn t b 0))"
    if "i = ?w" and hi: "\<forall>b\<in>set vs. \<forall>k\<in>set (page_keys (page (sub t b))). \<not> key_below f k key"
  proof -
    have ent': "entries txn t = ?L @ leaf_entries txn t vs" unfolding ent using that(1) by simp
    show ?thesis
    proof (cases vs)
      case (Cons b ws)
      have "0 < width (sub t b)" using paths_pos [OF ok order_refl] split Cons by auto
      then have "leaf_entries txn t vs = entry_at txn t b 0 # map (entry_at txn t b) [Suc 0..<width (sub t b)] @ leaf_entries txn t ws"
        and "page_keys (page (sub t b)) ! 0 \<in> set (page_keys (page (sub t b)))"
        by (simp_all add: Cons leaf_entries_def upt_conv_Cons width_def)
      then show ?thesis using find_skip [OF low] ent' hi Cons by (simp add: node_entry_def)
    qed (use ent' find_skip [OF low, of "[]"] in \<open>simp add: leaf_entries_def\<close>)
  qed
qed

end

subsection \<open>Setting a cursor\<close>

text \<open>
  What \<open>MDB_SET\<close>, \<open>MDB_SET_KEY\<close> and \<open>MDB_SET_RANGE\<close> return for the entries of a database: the return code, the key and the data.
\<close>

definition lookup_result ::
  "cmp_func \<Rightarrow> MDB_cursor_op \<Rightarrow> byte list \<Rightarrow> (byte list \<times> byte list) list \<Rightarrow> int \<times> byte list option \<times> byte list option" where
  "lookup_result f op key es = (case find (\<lambda>(k, d). \<not> key_below f k key) es of
     Some (k, d) \<Rightarrow> if op = MDB_SET_RANGE \<or> k = key then (0, opt_if (op \<noteq> MDB_SET) k, Some d) else (MDB_NOTFOUND, None, None)
   | None \<Rightarrow> (MDB_NOTFOUND, None, None))"

text \<open>The cursor is on an entry.\<close>

definition on_entry :: "'a mdb_tcursor_scheme \<Rightarrow> nat \<Rightarrow> ptree \<Rightarrow> byte list \<times> byte list \<Rightarrow> bool" where
  "on_entry mc h t e \<longleftrightarrow> cursor_base mc h (Some t) \<and> has_flag C_INITIALIZED mc \<and> \<not> has_flag C_EOF mc \<and>
     (\<exists>a i. leaf_pos mc h t a i \<and> i < width (sub t a) \<and> e = entry_at (tc_txn mc) t a i)"

text \<open>The result of an operation that sets the cursor: the return code, and the cursor if it succeeds.\<close>

definition set_spec :: "cmp_func \<Rightarrow> mdb_fault + 'a mdb_tcursor_scheme item \<Rightarrow> 'a mdb_tcursor_scheme \<Rightarrow> nat \<Rightarrow> ptree \<Rightarrow> MDB_cursor_op \<Rightarrow> byte list \<Rightarrow> bool" where
  "set_spec f r mc h t op key \<longleftrightarrow> (case lookup_result f op key (entries (tc_txn mc) t) of (rc, k, d) \<Rightarrow>
     \<exists>mc'. r = Inr (rc, mc', k, d) \<and> tc_txn mc' = tc_txn mc \<and> own mc' = own mc \<and> cursor_ok mc' h (Some t) \<and>
       (rc = 0 \<longrightarrow> on_entry mc' h t (the (find (\<lambda>(k, d). \<not> key_below f k key) (entries (tc_txn mc) t)))))"

lemma and_exp_bit: "(x :: 'b::len word) AND 2 ^ n = (if bit x n then 2 ^ n else 0)"
  by (rule bit_word_eqI) (auto simp: bit_and_iff bit_exp_iff)

lemma leaf2_bit: "(x :: uint16) AND P_LEAF2 \<noteq> P_LEAF2 \<Longrightarrow> x AND P_LEAF2 = 0"
  using and_exp_bit [of x 5] by (auto simp: P_LEAF2_def split: if_splits)

lemma key_at_leaf: "tree_ok txn 0 u \<Longrightarrow> i < width u \<Longrightarrow> key_at mc (page u) i = Inr (page_keys (page u) ! i)"
  using tree_ok_leaf [of txn u] leaf_node(1,2) [of txn u i] leaf2_bit [of "mp_flags (page u)"]
  by (auto simp: key_at_def node_key_def IS_LEAF2_def F_ISSET_def node_entry_def)

lemma cursor_okI:
  "cursor_base mc h (Some t) \<Longrightarrow> has_flag C_INITIALIZED mc \<Longrightarrow> leaf_pos mc h t a i \<Longrightarrow> i \<le> width (sub t a) \<Longrightarrow>
    (has_flag C_EOF mc \<Longrightarrow> a = path_by (edge False) h t) \<Longrightarrow> cursor_ok mc h (Some t)"
  by (auto simp: cursor_ok_def leaf_pos_def)

locale lookup = string_order f + plain_cursor ops plain
  for f :: cmp_func and ops :: "'a mops" and plain :: "'a mdb_tcursor_scheme \<Rightarrow> bool"
begin

lemma set1_leaf:
  assumes pl: "plain mc" and base: "cursor_base mc h (Some t)" and pos: "leaf_pos mc h t a i" and i: "i < width (sub t a)"
    and low: "lower key (entries (tc_txn mc) t) = Some (entry_at (tc_txn mc) t a i)"
    and op: "op \<in> {MDB_SET, MDB_SET_KEY, MDB_SET_RANGE}" "op = MDB_SET_RANGE \<or> fst (entry_at (tc_txn mc) t a i) = key"
  shows "set_spec f (set1 ops mc (page (sub t a)) i (Some d) op) mc h t op key"
proof -
  let ?mc = "clr_flags C_EOF (set_flags C_INITIALIZED mc)"
  note ok = leaf_posD(3) [OF pos base_ok(1) [OF base]]
  note node = leaf_node [OF ok i]
  have "plain ?mc" by (rule plain_more [OF pl]) simp
  moreover have "\<not> IS_LEAF2 (page (sub t a))" using tree_ok_leaf [OF ok] by auto
  ultimately have run: "set1 ops mc (page (sub t a)) i (Some d) op =
      Inr (0, ?mc, opt_if (op \<noteq> MDB_SET) (fst (entry_at (tc_txn mc) t a i)), Some (snd (entry_at (tc_txn mc) t a i)))"
    using node op(1) by (auto simp: set1_def set_data_def cursor_node_read_def MDB_GET_KEY_def opt_if_def Let_def)
  have "on_entry ?mc h t (entry_at (tc_txn mc) t a i)" unfolding on_entry_def using base pos i by auto
  moreover have "cursor_ok ?mc h (Some t)" by (rule cursor_okI [of _ h t a i]) (use base pos i in simp_all)
  ultimately show ?thesis
    using run low op(2) by (auto simp: set_spec_def lookup_result_def split: prod.splits)
qed

lemma not_found:
  assumes "lookup_result f op key (entries (tc_txn mc) t) = (MDB_NOTFOUND, None, None)" and "cursor_ok mc' h (Some t)"
    and "tc_txn mc' = tc_txn mc" and "own mc' = own mc"
  shows "set_spec f (Inr (MDB_NOTFOUND, mc', None, None)) mc h t op key"
  using assms by (simp add: set_spec_def MDB_NOTFOUND_def)

lemma set_spec_cong:
  "tc_txn mc = tc_txn mc' \<Longrightarrow> own mc = own mc' \<Longrightarrow> set_spec f r mc h t op key \<Longrightarrow> set_spec f r mc' h t op key"
  by (simp add: set_spec_def)

text \<open>\<open>set2\<close> when the search in the leaf has found an entry that is not below the key, and when it has found none.\<close>

lemma set2_some:
  assumes pl: "plain mc1" and base: "cursor_base mc1 h (Some t)" and pos: "leaf_pos mc1 h t a i" and i: "i < width (sub t a)" and inv: "cursor_ok mc1 h (Some t)"
    and op: "op \<in> {MDB_SET, MDB_SET_KEY, MDB_SET_RANGE}"
    and run: "cursor_node_search mc (Some key) = Inr (Some i, page_keys (page (sub t a)) ! i = key, mc1)"
    and found: "lower key (entries (tc_txn mc1) t) = Some (entry_at (tc_txn mc1) t a i)"
  shows "set_spec f (set2 ops mc (page (sub t a)) key (Some d) op (op \<noteq> MDB_SET_RANGE)) mc1 h t op key"
proof -
  let ?e = "entry_at (tc_txn mc1) t a i"
  have fst: "fst ?e = page_keys (page (sub t a)) ! i" by (simp add: node_entry_def)
  show ?thesis
  proof (cases "op \<noteq> MDB_SET_RANGE \<and> fst ?e \<noteq> key")
    case False
    then have "set2 ops mc (page (sub t a)) key (Some d) op (op \<noteq> MDB_SET_RANGE) = set1 ops mc1 (page (sub t a)) i (Some d) op"
      using run fst by (auto simp: set2_def)
    then show ?thesis using set1_leaf [OF pl base pos i found op, of d] False by auto
  next
    case True
    then have "lookup_result f op key (entries (tc_txn mc1) t) = (MDB_NOTFOUND, None, None)"
      using found by (auto simp: lookup_result_def split: prod.splits)
    moreover have "set2 ops mc (page (sub t a)) key (Some d) op (op \<noteq> MDB_SET_RANGE) = Inr (MDB_NOTFOUND, mc1, None, None)"
      using run True fst by (auto simp: set2_def)
    ultimately show ?thesis using not_found [of op key mc1 t mc1 h] inv by simp
  qed
qed

lemma set2_none:
  assumes pl: "plain mc1" and base: "cursor_base mc1 h (Some t)" and pos: "leaf_pos mc1 h t a i" and inv: "cursor_ok mc1 h (Some t)" and key: "length key < 2 ^ 32"
    and op: "op \<in> {MDB_SET, MDB_SET_KEY, MDB_SET_RANGE}" and split: "paths t h = us @ a # vs"
    and hi: "\<forall>b\<in>set vs. \<forall>k\<in>set (page_keys (page (sub t b))). key_below f key k"
    and run: "cursor_node_search mc (Some key) = Inr (None, False, mc1)"
    and found: "lower key (entries (tc_txn mc1) t) = (case vs of [] \<Rightarrow> None | b # _ \<Rightarrow> Some (entry_at (tc_txn mc1) t b 0))"
  shows "set_spec f (set2 ops mc (page (sub t a)) key (Some d) op (op \<noteq> MDB_SET_RANGE)) mc1 h t op key"
proof (cases "op = MDB_SET_RANGE \<and> vs \<noteq> []")
  case False
  have other: "fst (entry_at (tc_txn mc1) t b 0) \<noteq> key" if "vs = b # ws" for b ws
  proof -
    have "0 < width (sub t b)" using paths_pos [OF base_ok(1) [OF base] order_refl] split that by auto
    then have "page_keys (page (sub t b)) ! 0 \<in> set (page_keys (page (sub t b)))" by (simp add: width_def)
    then show ?thesis using hi that below_irrefl [OF key] by (auto simp: node_entry_def)
  qed
  have "lookup_result f op key (entries (tc_txn mc1) t) = (MDB_NOTFOUND, None, None)"
    using found False other by (cases vs) (auto simp: lookup_result_def split: prod.splits)
  moreover have "mdb_cursor_sibling mc1 True = Inr (MDB_NOTFOUND, mc1)" if "vs = []"
    using leaf_pos_sibling [OF base_ok(1,2) [OF base] pos split, of True] that by simp
  then have "set2 ops mc (page (sub t a)) key (Some d) op (op \<noteq> MDB_SET_RANGE) = Inr (MDB_NOTFOUND, mc1, None, None)"
    using run False by (auto simp: set2_def MDB_NOTFOUND_def)
  ultimately show ?thesis using not_found [of op key mc1 t mc1 h] inv by simp
next
  case True
  then obtain b ws where vs: "vs = b # ws" by (cases vs) auto
  obtain mc2 where mc2: "mdb_cursor_sibling mc1 True = Inr (0, mc2)" "leaf_pos mc2 h t b 0" "moved mc1 mc2" "0 < width (sub t b)"
    using leaf_pos_sibling [OF base_ok(1,2) [OF base] pos split, of True] vs by (auto simp: edge_def)
  have base2: "cursor_base mc2 h (Some t)" by (rule base_moved [OF base mc2(3,2)])
  have "set2 ops mc (page (sub t a)) key (Some d) op (op \<noteq> MDB_SET_RANGE) = set1 ops mc2 (page (sub t b)) 0 (Some d) op"
    using run True mc2(1) leaf_posD(1,7) [OF mc2(2) base_ok(1) [OF base2]] by (auto simp: set2_def)
  then show ?thesis
    using set1_leaf [OF plain_more [OF pl moved_own(1) [OF mc2(3)]] base2 mc2(2,4) _ op, of key d] found vs True moved_own [OF mc2(3)]
      set_spec_cong [of mc2 mc1] by auto
qed

lemma set2_leaf:
  assumes pl: "plain mc" and base: "cursor_base mc h (Some t)" and pos: "leaf_pos mc h t a i0" and cmp: "md_cmp (tc_dbx mc) = f"
    and key: "length key < 2 ^ 32" and ord: "tree_ordered f t" and op: "op \<in> {MDB_SET, MDB_SET_KEY, MDB_SET_RANGE}"
    and fl: "has_flag C_INITIALIZED mc" "has_flag C_EOF mc \<Longrightarrow> a = path_by (edge False) h t"
    and split: "paths t h = us @ a # vs" and lo: "\<forall>b\<in>set us. \<forall>k\<in>set (page_keys (page (sub t b))). key_below f k key"
    and hi: "\<forall>b\<in>set vs. \<forall>k\<in>set (page_keys (page (sub t b))). key_below f key k"
  shows "set_spec f (set2 ops mc (page (sub t a)) key (Some d) op (op \<noteq> MDB_SET_RANGE)) mc h t op key"
proof -
  let ?w = "width (sub t a)"
  note ok = base_ok(1) [OF base]
  note p = leaf_posD [OF pos ok]
  have st: "stk mc t a" using pos by (simp add: leaf_pos_def)
  have "sorted_wrt (key_below f) (page_keys (page (sub t a)))" using leaf_sorted [OF ok ord split] by (simp add: sorted_wrt_append)
  then obtain i where i: "cursor_node_search mc (Some key) = Inr (if i < ?w then Some i else None, i < ?w \<and> page_keys (page (sub t a)) ! i = key,
      mc\<lparr>tc_ki := (tc_ki mc)[h := i]\<rparr>)" "i \<le> ?w"
    and below: "\<And>j. j < i \<Longrightarrow> key_below f (page_keys (page (sub t a)) ! j) key" "i < ?w \<Longrightarrow> \<not> key_below f (page_keys (page (sub t a)) ! i) key"
    using node_search_stk [OF st cmp key refl p(3), of 0] p(4) by auto
  define mc1 where "mc1 = mc\<lparr>tc_ki := (tc_ki mc)[h := i]\<rparr>"
  have pos1: "leaf_pos mc1 h t a i" and mv: "moved mc mc1" using p(6) by (simp_all add: mc1_def)
  have base1: "cursor_base mc1 h (Some t)" by (rule base_moved [OF base mv pos1])
  note same1 = moved_own [OF mv]
  note pl1 = plain_more [OF pl same1(1)]
  have inv: "cursor_ok mc1 h (Some t)" by (rule cursor_okI [OF base1 _ pos1 i(2)]) (use fl moved_flag [OF mv] in auto)
  have notbelow: "\<forall>b\<in>set vs. \<forall>k\<in>set (page_keys (page (sub t b))). \<not> key_below f k key"
    using hi below_asym [OF key] page_keys_short by blast
  note low = lower_leaf [OF ok split lo i(2) below(1)]
  have "set_spec f (set2 ops mc (page (sub t a)) key (Some d) op (op \<noteq> MDB_SET_RANGE)) mc1 h t op key"
  proof (cases "i < ?w")
    case True
    then show ?thesis using set2_some [OF pl1 base1 pos1 True inv op, of mc key d] low(1) below(2) i(1) same1(2) by (simp add: mc1_def)
  next
    case False
    then have "i = ?w" using i(2) by simp
    then have found: "lower key (entries (tc_txn mc1) t) = (case vs of [] \<Rightarrow> None | b # _ \<Rightarrow> Some (entry_at (tc_txn mc1) t b 0))"
      using low(2) notbelow unfolding same1(2) by simp
    show ?thesis by (rule set2_none [OF pl1 base1 pos1 inv key op split hi _ found]) (use i(1) \<open>i = ?w\<close> in \<open>simp add: mc1_def\<close>)
  qed
  then show ?thesis using set_spec_cong [of mc1 mc] same1 by simp
qed

lemma search_set_leaf:
  assumes pl: "plain mc" and base: "cursor_base mc h (Some t)" and cmp: "md_cmp (tc_dbx mc) = f"
    and key: "length key < 2 ^ 32" and ord: "tree_ordered f t" and op: "op \<in> {MDB_SET, MDB_SET_KEY, MDB_SET_RANGE}"
  shows "set_spec f (search_set ops mc key (Some d) op (op \<noteq> MDB_SET_RANGE)) mc h t op key"
proof -
  let ?a = "path_by (pick key) h t"
  have seps: "seps_ok f t" using ord by (simp add: tree_ordered_def)
  obtain mc1 where mc1: "read_search mc (Some key) 0 = Inr (0, clr_flags C_EOF (set_flags C_INITIALIZED mc1))"
    "leaf_pos mc1 h t ?a (tc_ki mc1 ! h)" "moved mc mc1"
    using search_key [OF base cmp seps key] by blast
  define mc2 where "mc2 = clr_flags C_EOF (set_flags C_INITIALIZED mc1)"
  have base2: "cursor_base mc2 h (Some t)" using base_moved [OF base mc1(3,2)] by (simp add: mc2_def)
  have pos2: "leaf_pos mc2 h t ?a (tc_ki mc1 ! h)" using mc1(2) by (simp add: mc2_def)
  have same2: "tc_txn mc2 = tc_txn mc" "own mc2 = own mc" "md_cmp (tc_dbx mc2) = f"
    using moved_own [OF mc1(3)] cmp by (simp_all add: mc2_def own_def)
  have fl: "has_flag C_INITIALIZED mc2" "\<not> has_flag C_EOF mc2" by (simp_all add: mc2_def)
  obtain us vs where split: "paths t h = us @ ?a # vs" "\<forall>b\<in>set us. \<forall>k\<in>set (page_keys (page (sub t b))). key_below f k key"
    "\<forall>b\<in>set vs. \<forall>k\<in>set (page_keys (page (sub t b))). key_below f key k"
    using pick_split [OF base_ok(1) [OF base] seps key] by blast
  have "search_set ops mc key (Some d) op (op \<noteq> MDB_SET_RANGE) = set2 ops mc2 (page (sub t ?a)) key (Some d) op (op \<noteq> MDB_SET_RANGE)"
    using mc1(1) leaf_posD(1,7) [OF pos2 base_ok(1) [OF base2]] by (simp add: search_set_def flip: mc2_def)
  then show ?thesis
    using set2_leaf [OF plain_more [OF pl same2(2)] base2 pos2 same2(3) key ord op fl(1) _ split, of d] fl(2) set_spec_cong [OF same2(1,2)] by simp
qed

text \<open>Where the cursor is already: the keys of its leaf and of the leaves around it.\<close>

lemma leaf_between:
  assumes "tree_ok txn h t" and "tree_ordered f t" and split: "paths t h = us @ a # vs" and j: "j < width (sub t a)"
  shows "b \<in> set us \<Longrightarrow> k \<in> set (page_keys (page (sub t b))) \<Longrightarrow> key_below f k (page_keys (page (sub t a)) ! j)"
    and "b \<in> set vs \<Longrightarrow> k \<in> set (page_keys (page (sub t b))) \<Longrightarrow> key_below f (page_keys (page (sub t a)) ! j) k"
    and "i < j \<Longrightarrow> key_below f (page_keys (page (sub t a)) ! i) (page_keys (page (sub t a)) ! j)"
proof -
  note sorted = leaf_sorted [OF assms(1-3)]
  have mem: "k \<in> set (map fst (leaf_entries txn t bs))" if b: "b \<in> set bs" and k: "k \<in> set (page_keys (page (sub t b)))" for b k bs
  proof -
    obtain m where m: "m < width (sub t b)" "k = page_keys (page (sub t b)) ! m" using k by (auto simp: in_set_conv_nth width_def)
    then have "k = fst (entry_at txn t b m)" by (simp add: node_entry_def)
    then show ?thesis using b m(1) by (auto simp: leaf_entries_def image_iff intro!: bexI [of _ b])
  qed
  have kj: "page_keys (page (sub t a)) ! j \<in> set (page_keys (page (sub t a)))" using j by (simp add: width_def)
  show "key_below f k (page_keys (page (sub t a)) ! j)" if "b \<in> set us" "k \<in> set (page_keys (page (sub t b)))"
    using sorted mem [OF that] kj by (auto simp: sorted_wrt_append)
  show "key_below f (page_keys (page (sub t a)) ! j) k" if "b \<in> set vs" "k \<in> set (page_keys (page (sub t b)))"
    using sorted mem [OF that] kj by (auto simp: sorted_wrt_append)
  show "key_below f (page_keys (page (sub t a)) ! i) (page_keys (page (sub t a)) ! j)" if "i < j"
    using sorted sorted_wrt_nth_less [of "key_below f" "page_keys (page (sub t a))" i j] j that by (simp add: sorted_wrt_append width_def)
qed

lemma set1_hit:
  assumes pl: "plain mc" and base: "cursor_base mc h (Some t)" and ord: "tree_ordered f t" and pos: "leaf_pos mc h t a i0" and op: "op \<in> {MDB_SET, MDB_SET_KEY, MDB_SET_RANGE}"
    and j: "j < width (sub t a)" and key: "page_keys (page (sub t a)) ! j = key"
  shows "set_spec f (ebind (set_ki mc j) (\<lambda>mc. set1 ops mc (page (sub t a)) j (Some d) op)) mc h t op key"
proof -
  note ok = base_ok(1) [OF base]
  obtain us vs where split: "paths t h = us @ a # vs" using pos by (auto simp: leaf_pos_def dest: split_list)
  note btw = leaf_between [OF ok ord split j, unfolded key]
  have short: "length key < 2 ^ 32" using j key page_keys_short [of key "page (sub t a)"] by (auto simp: width_def)
  have low: "lower key (entries (tc_txn mc) t) = Some (entry_at (tc_txn mc) t a j)"
    by (rule lower_leaf(1) [OF ok split _ less_imp_le [OF j] _ j]) (use btw key below_irrefl [OF short] in auto)
  let ?mc = "mc\<lparr>tc_ki := (tc_ki mc)[h := j]\<rparr>"
  note p = leaf_posD(5,6) [OF pos ok, of j]
  have "plain ?mc" by (rule plain_more [OF pl]) simp
  from set1_leaf [OF this _ p(2) j _ op, of key d] base_moved [OF base _ p(2)] low
  have "set_spec f (set1 ops ?mc (page (sub t a)) j (Some d) op) ?mc h t op key" by (simp add: node_entry_def key)
  then show ?thesis using p(1) set_spec_cong [of ?mc mc] by simp
qed

lemma last_path: "a \<in> set (paths t h) \<Longrightarrow> \<forall>m<h. \<not> a ! m < width (sub t (take m a)) - 1 \<Longrightarrow> a = path_by (edge False) h t"
proof (induction h arbitrary: t a)
  case (Suc h)
  obtain i c where a: "a = i # c" "i < width t" "c \<in> set (paths (kids t ! i) h)" using Suc.prems(1) unfolding paths_Cons by auto
  have "i = width t - 1" using Suc.prems(2) [rule_format, of 0] a(1,2) by simp
  moreover have "c = path_by (edge False) h (kids t ! i)"
    by (rule Suc.IH [OF a(3)]) (use Suc.prems(2) a(1) in \<open>auto dest: spec [of _ "Suc _"]\<close>)
  ultimately show ?case by (simp add: a(1) edge_def [of False t])
qed simp

lemma right_sibs_leaf:
  assumes ok: "tree_ok (tc_txn mc) h t" and pos: "leaf_pos mc h t a i" and "l + n = h"
  shows "right_sibs mc l n = Inr (\<exists>m. l \<le> m \<and> m < h \<and> a ! m < width (sub t (take m a)) - 1)"
  using assms(3)
proof (induction n arbitrary: l)
  case (Suc n)
  have st: "stk mc t a" and a: "a \<in> set (paths t h)" "length a = h" using pos leaf_posD(4) [OF pos ok] by (simp_all add: leaf_pos_def)
  have l: "l < h" using Suc.prems by simp
  have "tree_ok (tc_txn mc) (h - l) (sub t (take l a))" by (rule sub_ok [OF ok]) (use l take_path [OF a(1), of l] in simp_all)
  from width_pos [OF this] width_small [OF this]
  have n: "(NUMKEYS (page (sub t (take l a))) + 4294967295) mod 4294967296 = width (sub t (take l a)) - 1"
    by (simp add: width_def mod_if)
  have "aget (tc_ki mc) l = Some (a ! l)" "page_at mc l = Inr (page (sub t (take l a)))"
    using stkD [OF st] l a(2) by (simp_all add: aget_def page_at_def of_arr_def)
  then have "right_sibs mc l (Suc n) = (if a ! l < width (sub t (take l a)) - 1 then Inr True else right_sibs mc (l + 1) n)"
    by (simp add: n of_arr_def)
  then show ?case using Suc.IH [of "l + 1"] Suc.prems l by (auto simp: le_Suc_eq Suc_le_eq intro: le_neq_implies_less)
qed auto

text \<open>The key is below the first key of the leaf.\<close>

lemma set_left:
  assumes pl: "plain mc" and base: "cursor_base mc h (Some t)" and cmp: "md_cmp (tc_dbx mc) = f" and key: "length key < 2 ^ 32"
    and ord: "tree_ordered f t" and op: "op \<in> {MDB_SET, MDB_SET_KEY, MDB_SET_RANGE}" and fl: "has_flag C_INITIALIZED mc" "has_flag C_EOF mc \<Longrightarrow> a = path_by (edge False) h t"
    and pos: "leaf_pos mc h t a i0" and low: "h = 0 \<Longrightarrow> key_below f key (page_keys (page (sub t a)) ! 0)"
  shows "set_spec f (if tc_top mc = 0 then ebind (set_ki mc 0) (\<lambda>mc.
              if op = MDB_SET_RANGE then set1 ops mc (page (sub t a)) 0 (Some d) op else Inr (MDB_NOTFOUND, mc, None, None))
            else search_set ops mc key (Some d) op (op \<noteq> MDB_SET_RANGE)) mc h t op key"
proof (cases "h = 0")
  case False
  then have "tc_top mc \<noteq> 0" using pos leaf_posD(4) [OF pos base_ok(1) [OF base]] stkD(4) [of mc t a] by (simp add: leaf_pos_def)
  then show ?thesis using search_set_leaf [OF pl base cmp key ord op] by simp
next
  case True
  note ok = base_ok(1) [OF base]
  note p = leaf_posD [OF pos ok]
  have a: "a = []" and top: "tc_top mc = 0" using True p(4) pos stkD(4) [of mc t a] by (simp_all add: leaf_pos_def)
  have split: "paths t h = [] @ a # []" by (simp add: True a)
  have short: "length (page_keys (page (sub t a)) ! 0) < 2 ^ 32" using p(9) by (intro page_keys_short [of _ "page (sub t a)"]) (simp add: width_def)
  have found: "lower key (entries (tc_txn mc) t) = Some (entry_at (tc_txn mc) t a 0)"
    by (rule lower_leaf(1) [OF ok split _ _ _ p(9)]) (use below_asym [OF key short low [OF True]] in auto)
  define mc1 where "mc1 = mc\<lparr>tc_ki := (tc_ki mc)[h := 0]\<rparr>"
  have ki: "set_ki mc 0 = Inr mc1" "leaf_pos mc1 h t a 0" "moved mc mc1" using p(5,6) by (simp_all add: mc1_def)
  have base1: "cursor_base mc1 h (Some t)" by (rule base_moved [OF base ki(3,2)])
  have same1: "tc_txn mc1 = tc_txn mc" "own mc1 = own mc" using moved_own [OF ki(3)] by simp_all
  show ?thesis
  proof (cases "op = MDB_SET_RANGE")
    case range: True
    have "set_spec f (set1 ops mc1 (page (sub t a)) 0 (Some d) op) mc1 h t op key"
      by (rule set1_leaf [OF plain_more [OF pl same1(2)] base1 ki(2) p(9) _ op]) (use found same1 range in simp_all)
    then show ?thesis using ki(1) top range set_spec_cong [OF same1] by simp
  next
    case other: False
    have "page_keys (page (sub t a)) ! 0 \<noteq> key" using low [OF True] below_irrefl [OF key] by auto
    then have "lookup_result f op key (entries (tc_txn mc) t) = (MDB_NOTFOUND, None, None)"
      using found other by (auto simp: lookup_result_def node_entry_def)
    moreover have "cursor_ok mc1 h (Some t)" by (rule cursor_okI [OF base1 _ ki(2)]) (use fl moved_flag [OF ki(3)] in auto)
    ultimately show ?thesis using not_found same1 ki(1) top other by simp
  qed
qed

text \<open>The key is above the last key of the leaf.\<close>

lemma set_right:
  assumes pl: "plain mc" and base: "cursor_base mc h (Some t)" and cmp: "md_cmp (tc_dbx mc) = f" and key: "length key < 2 ^ 32"
    and ord: "tree_ordered f t" and op: "op \<in> {MDB_SET, MDB_SET_KEY, MDB_SET_RANGE}" and fl: "has_flag C_INITIALIZED mc" "has_flag C_EOF mc \<Longrightarrow> a = path_by (edge False) h t"
    and pos: "leaf_pos mc h t a i0" and above: "key_below f (page_keys (page (sub t a)) ! (width (sub t a) - 1)) key"
  shows "set_spec f (ebind (right_sibs mc 0 (tc_top mc)) (\<lambda>more. if \<not> more then ebind (set_ki mc (NUMKEYS (page (sub t a)))) (\<lambda>mc. Inr (MDB_NOTFOUND, mc, None, None))
     else if tc_top mc = 0 then ebind (set_ki mc 0) (\<lambda>mc.
              if op = MDB_SET_RANGE then set1 ops mc (page (sub t a)) 0 (Some d) op else Inr (MDB_NOTFOUND, mc, None, None))
            else search_set ops mc key (Some d) op (op \<noteq> MDB_SET_RANGE))) mc h t op key"
proof -
  note ok = base_ok(1) [OF base]
  note p = leaf_posD [OF pos ok]
  let ?w = "width (sub t a)" and ?more = "\<exists>m<h. a ! m < width (sub t (take m a)) - 1"
  have top: "tc_top mc = h" and a: "a \<in> set (paths t h)" using pos stkD(4) [of mc t a] p(4) by (simp_all add: leaf_pos_def)
  have sibs: "right_sibs mc 0 (tc_top mc) = Inr ?more" using right_sibs_leaf [OF ok pos, of 0 h] top by simp
  show ?thesis
  proof (cases ?more)
    case True
    then have "0 < h" by auto
    then show ?thesis using sibs True top search_set_leaf [OF pl base cmp key ord op] by simp
  next
    case False
    then have last: "a = path_by (edge False) h t" using last_path [OF a] by blast
    then obtain us where split: "paths t h = us @ a # []" using path_by_edge [OF ok] by auto
    have wl: "?w - 1 < ?w" using p(9) by simp
    note btw = leaf_between [OF ok ord split wl]
    have short: "length k < 2 ^ 32" if "k \<in> set (page_keys (page (sub t b)))" for k b using page_keys_short [OF that] .
    have kl: "page_keys (page (sub t a)) ! (?w - 1) \<in> set (page_keys (page (sub t a)))" using p(9) by (simp add: width_def)
    have below_key: "key_below f k key" if "key_below f k (page_keys (page (sub t a)) ! (?w - 1))" "length k < 2 ^ 32" for k
      using below_trans [OF that(2) short [OF kl] key that(1)] below_asym [OF short [OF kl] key above] by blast
    have keys: "key_below f (page_keys (page (sub t a)) ! j) key" if "j < ?w" for j
    proof (cases "j = ?w - 1")
      case False
      have "page_keys (page (sub t a)) ! j \<in> set (page_keys (page (sub t a)))" using that by (simp add: width_def)
      from below_key [OF btw(3) short [OF this]] show ?thesis using that False by simp
    qed (use above in simp)
    have "lower key (entries (tc_txn mc) t) = (case [] of [] \<Rightarrow> None | b # _ \<Rightarrow> Some (entry_at (tc_txn mc) t b 0))"
      by (rule lower_leaf(2) [OF ok split _ order_refl keys]) (use btw(1) below_key short in auto)
    then have none: "lookup_result f op key (entries (tc_txn mc) t) = (MDB_NOTFOUND, None, None)" by (simp add: lookup_result_def)
    let ?mc = "mc\<lparr>tc_ki := (tc_ki mc)[h := ?w]\<rparr>"
    have base1: "cursor_base ?mc h (Some t)" by (rule base_moved [OF base _ p(6)]) simp
    have "has_flag C_INITIALIZED ?mc" using fl(1) by (simp add: has_flag_def)
    then have "cursor_ok ?mc h (Some t)" by (rule cursor_okI [OF base1 _ p(6)]) (use last in auto)
    then show ?thesis using not_found [OF none, of ?mc h] sibs False p(5,8) by simp
  qed
qed

text \<open>The key is between the first and the last key of the leaf.\<close>

lemma set_middle:
  assumes pl: "plain mc" and base: "cursor_base mc h (Some t)" and cmp: "md_cmp (tc_dbx mc) = f" and key: "length key < 2 ^ 32"
    and ord: "tree_ordered f t" and op: "op \<in> {MDB_SET, MDB_SET_KEY, MDB_SET_RANGE}" and fl: "has_flag C_INITIALIZED mc" "has_flag C_EOF mc \<Longrightarrow> a = path_by (edge False) h t"
    and pos: "leaf_pos mc h t a i0" and above: "key_below f (page_keys (page (sub t a)) ! 0) key" and below: "key_below f key (page_keys (page (sub t a)) ! (width (sub t a) - 1))"
  shows "set_spec f (if i0 < width (sub t a) then ebind (key_at mc (page (sub t a)) i0) (\<lambda>nodekey. ebind (run_cmp f key nodekey) (\<lambda>rc.
         if rc = 0 then set1 ops mc (page (sub t a)) i0 (Some d) op else set2 ops mc (page (sub t a)) key (Some d) op (op \<noteq> MDB_SET_RANGE)))
       else set2 ops mc (page (sub t a)) key (Some d) op (op \<noteq> MDB_SET_RANGE)) mc h t op key"
proof -
  note ok = base_ok(1) [OF base]
  note p = leaf_posD [OF pos ok]
  let ?w = "width (sub t a)" and ?p = "page (sub t a)" and ?ks = "page_keys (page (sub t a))"
  have short: "length (?ks ! j) < 2 ^ 32" if "j < ?w" for j using that by (intro page_keys_short [of _ ?p]) (simp add: width_def)
  have wl: "?w - 1 < ?w" "0 < ?w" using p(9) by simp_all
  obtain us vs where split: "paths t h = us @ a # vs" using pos by (auto simp: leaf_pos_def dest: split_list)
  have lo: "\<forall>b\<in>set us. \<forall>k\<in>set (page_keys (page (sub t b))). key_below f k key"
    using leaf_between(1) [OF ok ord split wl(2)] below_trans [OF _ short [OF wl(2)] key] below_asym [OF short [OF wl(2)] key above] page_keys_short by blast
  have hi: "\<forall>b\<in>set vs. \<forall>k\<in>set (page_keys (page (sub t b))). key_below f key k"
    using leaf_between(2) [OF ok ord split wl(1)] below_trans2 [OF key short [OF wl(1)]] below_asym [OF key short [OF wl(1)] below] page_keys_short by blast
  note two = set2_leaf [OF pl base pos cmp key ord op fl split lo hi, of d]
  show ?thesis
  proof (cases "i0 < ?w")
    case True
    obtain r where r: "run_cmp f key (?ks ! i0) = Inr r" "r = 0 \<longleftrightarrow> key = ?ks ! i0" using cmp_sign [OF key short [OF True]] by blast
    have "set_ki mc i0 = Inr mc" using p(5) [of i0] pos list_update_id [of "tc_ki mc" h] by (simp add: leaf_pos_def)
    then show ?thesis
      using True r key_at_leaf [OF p(3) True, of mc] two set1_hit [OF pl base ord pos op True, of key d] by auto
  qed (use two in simp)
qed

lemma set_here_leaf:
  assumes pl: "plain mc" and base: "cursor_base mc h (Some t)" and cmp: "md_cmp (tc_dbx mc) = f" and key: "length key < 2 ^ 32"
    and ord: "tree_ordered f t" and op: "op \<in> {MDB_SET, MDB_SET_KEY, MDB_SET_RANGE}" and fl: "has_flag C_INITIALIZED mc" "has_flag C_EOF mc \<Longrightarrow> a = path_by (edge False) h t"
    and pos: "leaf_pos mc h t a i0"
  shows "set_spec f (set_here ops mc key (Some d) op (op \<noteq> MDB_SET_RANGE)) mc h t op key"
proof -
  note p = leaf_posD [OF pos base_ok(1) [OF base]]
  let ?w = "width (sub t a)" and ?p = "page (sub t a)" and ?ks = "page_keys (page (sub t a))"
  have short: "length (?ks ! j) < 2 ^ 32" if "j < ?w" for j using that by (intro page_keys_short [of _ ?p]) (simp add: width_def)
  have kat: "key_at mc ?p j = Inr (?ks ! j)" if "j < ?w" for j by (rule key_at_leaf [OF p(3) that])
  have wl: "?w - 1 < ?w" "0 < ?w" using p(9) by simp_all
  obtain r0 where r0: "run_cmp f key (?ks ! 0) = Inr r0" "r0 = 0 \<longleftrightarrow> key = ?ks ! 0" "r0 < 0 \<longleftrightarrow> key_below f key (?ks ! 0)" "0 < r0 \<longleftrightarrow> key_below f (?ks ! 0) key"
    using cmp_sign [OF key short [OF wl(2)]] by blast
  obtain rl where rl: "run_cmp f key (?ks ! (?w - 1)) = Inr rl" "rl = 0 \<longleftrightarrow> key = ?ks ! (?w - 1)" "rl < 0 \<longleftrightarrow> key_below f key (?ks ! (?w - 1))" "0 < rl \<longleftrightarrow> key_below f (?ks ! (?w - 1)) key"
    using cmp_sign [OF key short [OF wl(1)]] by blast
  let ?two = "set2 ops mc ?p key (Some d) op (op \<noteq> MDB_SET_RANGE)"
  let ?left = "if tc_top mc = 0 then ebind (set_ki mc 0) (\<lambda>mc.
      if op = MDB_SET_RANGE then set1 ops mc ?p 0 (Some d) op else Inr (MDB_NOTFOUND, mc, None, None)) else search_set ops mc key (Some d) op (op \<noteq> MDB_SET_RANGE)"
  let ?right = "ebind (right_sibs mc 0 (tc_top mc)) (\<lambda>more. if \<not> more then ebind (set_ki mc ?w) (\<lambda>mc. Inr (MDB_NOTFOUND, mc, None, None)) else ?left)"
  have w0: "(?w = 0) = False" using wl(2) by simp
  have here: "set_here ops mc key (Some d) op (op \<noteq> MDB_SET_RANGE) =
      (if r0 = 0 then ebind (set_ki mc 0) (\<lambda>mc. set1 ops mc ?p 0 (Some d) op)
       else if r0 > 0 then if ?w > 1 then
         if rl = 0 then ebind (set_ki mc (?w - 1)) (\<lambda>mc. set1 ops mc ?p (?w - 1) (Some d) op)
         else if rl < 0 then
           if i0 < ?w then ebind (key_at mc ?p i0) (\<lambda>nodekey. ebind (run_cmp f key nodekey) (\<lambda>rc. if rc = 0 then set1 ops mc ?p i0 (Some d) op else ?two)) else ?two
         else ?right
       else ?right else ?left)"
    by (simp only: set_here_def Let_def p(1,2) p(8) cmp kat [OF wl(1)] kat [OF wl(2)] r0(1) rl(1) ebind_simps w0 if_False)
  note cases = set_left [OF pl base cmp key ord op fl pos, of d] set_right [OF pl base cmp key ord op fl pos, of d, unfolded p(8)]
    set_middle [OF pl base cmp key ord op fl pos, of d] set1_hit [OF pl base ord pos op wl(2), of key d] set1_hit [OF pl base ord pos op wl(1), of key d]
  have "?w = 1 \<Longrightarrow> r0 = rl" using r0(1) rl(1) by simp
  then have w1: "0 < r0 \<Longrightarrow> rl \<le> 0 \<Longrightarrow> 1 < ?w" using wl(2) by linarith
  consider "r0 = 0" | "r0 < 0" | "0 < r0" "0 < rl" | "0 < r0" "rl = 0" | "0 < r0" "rl < 0" by linarith
  then show ?thesis unfolding here by cases (use cases r0(2-4) rl(2-4) w1 in simp_all)
qed

lemma cursor_set_leaf:
  assumes pl: "plain mc" and inv: "cursor_ok mc h (Some t)" and cmp: "md_cmp (tc_dbx mc) = f" and key: "key \<noteq> []" "length key < 2 ^ 32"
    and ord: "tree_ordered f t" and op: "op \<in> {MDB_SET, MDB_SET_KEY, MDB_SET_RANGE}"
  shows "set_spec f (cursor_set ops mc key (Some d) op (op \<noteq> MDB_SET_RANGE)) mc h t op key"
proof (cases "has_flag C_INITIALIZED mc")
  case True
  then obtain a where "leaf_pos mc h t a (tc_ki mc ! h)" "has_flag C_EOF mc \<longrightarrow> a = path_by (edge False) h t"
    using inv by (auto simp: cursor_ok_def)
  then show ?thesis using set_here_leaf [OF pl _ cmp key(2) ord op True, of h a] inv True key(1) pl by (simp add: cursor_ok_def cursor_set_def)
next
  case False
  then show ?thesis using search_set_leaf [OF pl _ cmp key(2) ord op, of h d] inv key(1) pl by (simp add: cursor_ok_def cursor_set_def)
qed

end

end
