(* ===== verification/Mdb_Sample.thy ===== *)
theory Mdb_Sample
  imports Mdb_Lookup
begin

text \<open>A small database: a branch page and two leaves with three entries, which a read transaction sees.\<close>

definition sample_leaf1 :: mdb_page where
  "sample_leaf1 = \<lparr>mp_pgno = 2, mp_pad = 0, mp_flags = P_LEAF, mp_lower = 20, mp_upper = 44,
     mp_mem = replicate 16 0 @ [54, 0, 44, 0] @ replicate 24 0 @ [1, 0, 0, 0, 0, 0, 1, 0, 2, 8] @ [1, 0, 0, 0, 0, 0, 1, 0, 1, 7]\<rparr>"

definition sample_leaf2 :: mdb_page where
  "sample_leaf2 = \<lparr>mp_pgno = 3, mp_pad = 0, mp_flags = P_LEAF, mp_lower = 18, mp_upper = 52,
     mp_mem = replicate 16 0 @ [52, 0] @ replicate 34 0 @ [2, 0, 0, 0, 0, 0, 1, 0, 5, 9, 9, 0]\<rparr>"

definition sample_root :: mdb_page where
  "sample_root = \<lparr>mp_pgno = 4, mp_pad = 0, mp_flags = P_BRANCH, mp_lower = 20, mp_upper = 46,
     mp_mem = replicate 16 0 @ [56, 0, 46, 0] @ replicate 26 0 @ [3, 0, 0, 0, 0, 0, 1, 0, 4, 0] @ [2, 0, 0, 0, 0, 0, 0, 0]\<rparr>"

definition sample_tree :: ptree where
  "sample_tree = PNode sample_root [PLeaf sample_leaf1, PLeaf sample_leaf2]"

definition sample_db :: mdb_tdb where
  "sample_db = \<lparr>md_pad = 0, md_branch_pages = 1, md_leaf_pages = 2, md_overflow_pages = 0, md_flags = 0, md_depth = 2, md_entries = 3, md_root = 4\<rparr>"

definition sample_txn :: mdb_txn where
  "sample_txn = \<lparr>tx_flags = MDB_TXN_RDONLY, me_flags = 0, mt_next_pgno = 5, mt_levels = [],
     me_map = (\<lambda>n. if n = 2 then sample_leaf1 else if n = 3 then sample_leaf2 else sample_root),
     mt_dbs = [sample_db, sample_db], mt_dbxs = replicate 2 \<lparr>md_name = [], md_cmp = Cmp_memn byte_diff, md_dcmp = None\<rparr>,
     mt_dbflags = [DB_VALID, DB_VALID]\<rparr>"

lemmas sample_pages = sample_leaf1_def sample_leaf2_def sample_root_def
lemmas page_defs = PAGEHDRSZ_def NODESIZE_def P_LEAF_def P_BRANCH_def P_LEAF2_def IS_LEAF_def IS_LEAF2_def IS_BRANCH_def F_ISSET_def
  NUMKEYS_def EVEN_def

lemma upto2: "[0..<2] = [0, Suc 0]" "(\<forall>i<2. P i) = (P 0 \<and> P (Suc 0))"
  by (auto simp: upt_rec numeral_2_eq_2 less_Suc_eq)

lemma sample_mem [simp]: "length (mp_mem sample_leaf1) = 64" "length (mp_mem sample_leaf2) = 64" "length (mp_mem sample_root) = 64"
  by (simp_all add: sample_pages)

lemma sample_keys [simp]: "NUMKEYS sample_leaf1 = 2" "NUMKEYS sample_leaf2 = 1" "NUMKEYS sample_root = 2"
  "IS_LEAF sample_leaf1" "IS_LEAF sample_leaf2" "\<not> IS_LEAF sample_root" "\<not> IS_BRANCH sample_leaf1" "\<not> IS_BRANCH sample_leaf2" "IS_BRANCH sample_root"
  by (simp_all add: sample_pages page_defs)

lemma sample_slots [simp]:
  "slot (mp_mem sample_leaf1) 0 = 54" "slot (mp_mem sample_leaf1) (Suc 0) = 44" "slot (mp_mem sample_leaf2) 0 = 52"
  "slot (mp_mem sample_root) 0 = 56" "slot (mp_mem sample_root) (Suc 0) = 46"
  by (simp_all add: sample_pages slot_def le16_def PAGEHDRSZ_def nth_append)

lemma sample_le16 [simp]:
  "le16 (mp_mem sample_leaf1) 54 = 1" "le16 (mp_mem sample_leaf1) 56 = 0" "le16 (mp_mem sample_leaf1) 58 = 0" "le16 (mp_mem sample_leaf1) 60 = 1"
  "le16 (mp_mem sample_leaf1) 44 = 1" "le16 (mp_mem sample_leaf1) 46 = 0" "le16 (mp_mem sample_leaf1) 48 = 0" "le16 (mp_mem sample_leaf1) 50 = 1"
  "le16 (mp_mem sample_leaf2) 52 = 2" "le16 (mp_mem sample_leaf2) 54 = 0" "le16 (mp_mem sample_leaf2) 56 = 0" "le16 (mp_mem sample_leaf2) 58 = 1"
  "le16 (mp_mem sample_root) 46 = 3" "le16 (mp_mem sample_root) 48 = 0" "le16 (mp_mem sample_root) 50 = 0" "le16 (mp_mem sample_root) 52 = 1"
  "le16 (mp_mem sample_root) 56 = 2" "le16 (mp_mem sample_root) 58 = 0" "le16 (mp_mem sample_root) 60 = 0" "le16 (mp_mem sample_root) 62 = 0"
  by (simp_all add: sample_pages le16_def nth_append)

lemma sample_wf [simp]: "wf_page 64 sample_leaf1" "wf_page 64 sample_leaf2" "wf_page 64 sample_root"
  unfolding wf_page_def slots_ok_def
  by (simp_all add: node_len_def NODESIZE_def EVEN_def upto2)
     (simp_all add: sample_pages page_defs)

lemma sample_page_keys [simp]: "page_keys sample_leaf1 = [[1], [2]]" "page_keys sample_leaf2 = [[5]]" "page_keys sample_root = [[], [4]]"
  by (simp_all add: page_keys_def NODESIZE_def upto2) (simp_all add: sample_pages)

lemma sample_nodes:
  "list_all (node_ok sample_txn sample_leaf1) [0..<2]" "list_all (node_ok sample_txn sample_leaf2) [0..<1]"
  by (simp_all add: node_ok_def node_flag_def mdb_node_read_def mn_flags_def mn_lo_def mn_hi_def mn_ksize_def NODEDSZ_def NODEDATA_def
      rd16_in rd_bytes_in F_ISSET_def F_BIGDATA_def F_DUPDATA_def NODESIZE_def upto2)

lemma sample_get: "n < 5 \<Longrightarrow> mdb_page_get sample_txn n = Inr (Some (me_map sample_txn n, 0), sample_txn)"
  by (simp add: mdb_page_get_def sample_txn_def MDB_TXN_RDONLY_def)

lemma sample_children: "child_pgno sample_root 0 = Inr 2" "child_pgno sample_root (Suc 0) = Inr 3"
  by (simp_all add: child_pgno_def mp_ptrs_in PAGEHDRSZ_def NODEPGNO_def mn_lo_def mn_hi_def mn_flags_def rd16_in)

lemma sample_map: "me_map sample_txn 2 = sample_leaf1" "me_map sample_txn 3 = sample_leaf2" "me_map sample_txn 4 = sample_root"
  by (simp_all add: sample_txn_def)

lemma sample_tree_ok: "tree_ok sample_txn 1 sample_tree"
  using sample_nodes
  by (simp add: sample_tree_def sees_def sample_children sample_get sample_map upto2)

lemma sample_db_ok: "db_ok sample_txn sample_db 1 (Some sample_tree)"
proof -
  have "md_flags sample_db = 0" "md_root sample_db = 4" "tx_flags sample_txn = MDB_TXN_RDONLY" by (simp_all add: sample_db_def sample_txn_def)
  moreover have "page sample_tree = sample_root" by (simp add: sample_tree_def)
  ultimately show ?thesis
    using sample_tree_ok by (simp add: db_ok_def sample_get sample_map MDB_TXN_RDONLY_def MDB_TXN_ERROR_def P_INVALID_def CURSOR_STACK_def)
qed

lemma sample_entries: "entries sample_txn sample_tree = [([1], [7]), ([2], [8]), ([5], [9, 9])]"
  by (simp add: sample_tree_def upto2 node_entry_def mdb_node_read_def node_flag_def mn_flags_def mn_lo_def mn_hi_def mn_ksize_def NODEDSZ_def NODEDATA_def
      rd16_in rd_bytes_in F_ISSET_def F_BIGDATA_def NODESIZE_def)
    (simp add: sample_pages)

lemma sample_below: "key_below (Cmp_memn byte_diff) a b \<longleftrightarrow> mdb_cmp_memn byte_diff a b < 0"
  by (simp add: key_below_def run_cmp_def)

lemma sample_ordered: "tree_ordered (Cmp_memn byte_diff) sample_tree"
  by (simp add: tree_ordered_def sample_tree_def sample_below upto2 mdb_cmp_memn_def)

end
