(* ===== verification/Mdb_Reads.thy ===== *)
theory Mdb_Reads
  imports Mdb_Sample
begin

text \<open>
  What a program that reads a database relies on: \<open>mdb_get\<close> is the lookup in the entries of the tree, \<open>mdb_cursor_get\<close> finds
  the same from every position of the cursor, a range of keys is read in order, every operation keeps the
  invariant of the cursor, and a descent ends on every contents of the pages.
\<close>

subsection \<open>The comparison functions of strings\<close>

definition string_cmp :: "cmp_func \<Rightarrow> bool" where
  "string_cmp f \<longleftrightarrow> (case f of Cmp_memn diff \<Rightarrow> sign_law diff | Cmp_memnr \<Rightarrow> True | _ \<Rightarrow> False)"

lemma string_order_memn: "sign_law diff \<Longrightarrow> string_order (Cmp_memn diff)"
  by (intro string_order.intro key_order_memn string_order_axioms.intro) (auto simp: run_cmp_def mdb_cmp_memn_lex page_cmp_def)

lemma string_order_memnr: "string_order Cmp_memnr"
proof (intro string_order.intro key_order_memnr string_order_axioms.intro)
  fix a b :: "byte list" assume "length a < 2 ^ 32" "length b < 2 ^ 32"
  then show "run_cmp Cmp_memnr a b = Inr 0 \<longleftrightarrow> a = b"
    using mdb_cmp_memn_lex(2) [OF sign_law_difference, of "rev a" "rev b"] by (simp add: run_cmp_def memnr_rev)
qed (simp add: page_cmp_def)

lemma string_cmp_order: "string_cmp f \<Longrightarrow> string_order f"
  by (auto simp: string_cmp_def string_order_memn string_order_memnr split: cmp_func.splits)

interpretation memn_sub: lookup "Cmp_memn byte_diff" sub_ops "\<lambda>_. True"
  by (intro lookup.intro string_order_memn sign_law_difference sub_plain.plain_cursor_axioms)

interpretation memn_main: lookup "Cmp_memn byte_diff" main_ops "\<lambda>mc. mc_xcursor mc = None"
  by (intro lookup.intro string_order_memn sign_law_difference main_plain.plain_cursor_axioms)

interpretation memnr_main: lookup Cmp_memnr main_ops "\<lambda>mc. mc_xcursor mc = None"
  by (intro lookup.intro string_order_memnr main_plain.plain_cursor_axioms)

lemma main_lookup: "string_cmp f \<Longrightarrow> lookup f main_ops (\<lambda>mc. mc_xcursor mc = None)"
  by (intro lookup.intro string_cmp_order main_plain.plain_cursor_axioms)

subsection \<open>Lookup\<close>

text \<open>The database is empty, or its tree is ordered by the comparison function.\<close>

definition db_ordered :: "cmp_func \<Rightarrow> ptree option \<Rightarrow> bool" where
  "db_ordered f t \<longleftrightarrow> string_cmp f \<and> (case t of None \<Rightarrow> True | Some t \<Rightarrow> tree_ordered f t)"

lemma lookup_map_of:
  assumes f: "string_cmp f" and key: "length key < 2 ^ 32"
  shows "sorted_wrt (key_below f) (map fst es) \<Longrightarrow> \<forall>k\<in>fst ` set es. length k < 2 ^ 32 \<Longrightarrow>
    lookup_result f MDB_SET key es = (case map_of es key of Some v \<Rightarrow> (0, None, Some v) | None \<Rightarrow> (MDB_NOTFOUND, None, None))"
proof (induction es)
  case (Cons e es)
  note so = string_cmp_order [OF f]
  obtain k v where e: "e = (k, v)" by (cases e)
  have k: "length k < 2 ^ 32" and above: "\<forall>k'\<in>fst ` set es. key_below f k k'" using Cons.prems by (auto simp: e)
  show ?case
  proof (cases "key_below f k key")
    case True
    then have "k \<noteq> key" using string_order.below_irrefl [OF so key] by auto
    then show ?thesis using True Cons by (simp add: e lookup_result_def)
  next
    case False
    have "map_of es key = None" if "k \<noteq> key"
    proof -
      have kk: "key_below f key k" using string_order.below_cases [OF so key k] that False by blast
      have "key \<notin> fst ` set es"
      proof
        assume "key \<in> fst ` set es"
        then have "key_below f k key" using above by blast
        then show False using False by simp
      qed
      then show ?thesis by (simp add: map_of_eq_None_iff)
    qed
    then show ?thesis using False by (auto simp: e lookup_result_def opt_if_def)
  qed
qed (simp add: lookup_result_def)

lemma lookup_entries:
  assumes "db_ordered f t" and "length key < 2 ^ 32"
  shows "lookup_result f MDB_SET key (all_entries txn t) = (case map_of (all_entries txn t) key of Some v \<Rightarrow> (0, None, Some v) | None \<Rightarrow> (MDB_NOTFOUND, None, None))"
proof (cases t)
  case None
  then show ?thesis by (simp add: all_entries_def lookup_result_def)
next
  case (Some u)
  have "map fst (entries txn u) = tree_keys u" by (rule fst_entries)
  moreover from this have "fst ` set (entries txn u) = set (tree_keys u)" by (metis list.set_map)
  ultimately show ?thesis
    using lookup_map_of [of f key "entries txn u"] assms Some tree_keys_short by (auto simp: db_ordered_def tree_ordered_def all_entries_def)
qed

text \<open>\<open>mdb_cursor_set\<close> with a cursor that is anywhere in the database, or not positioned yet.\<close>

lemma cursor_set_any:
  assumes x: "mc_xcursor mc = None" and inv: "cursor_ok mc h t" and ord: "db_ordered (md_cmp (tc_dbx mc)) t" and key: "key \<noteq> []" "length key < 2 ^ 32"
    and op: "op \<in> {MDB_SET, MDB_SET_KEY, MDB_SET_RANGE}"
  shows "case lookup_result (md_cmp (tc_dbx mc)) op key (all_entries (tc_txn mc) t) of (rc, k, v) \<Rightarrow>
    \<exists>mc'. mdb_cursor_set mc key (Some d) op (op \<noteq> MDB_SET_RANGE) = Inr (rc, mc', k, v) \<and> tc_txn mc' = tc_txn mc \<and> own mc' = own mc \<and> cursor_ok mc' h t \<and>
      (rc = 0 \<longrightarrow> (\<exists>u. t = Some u \<and> on_entry mc' h u (the (find (\<lambda>(k, d). \<not> key_below (md_cmp (tc_dbx mc)) k key) (entries (tc_txn mc) u)))))"
proof (cases t)
  case None
  then have "\<not> has_flag C_INITIALIZED mc" "cursor_base mc h None" using inv by (auto simp: cursor_ok_def)
  then show ?thesis
    using None inv key(1) x cursor_base_empty [of mc h "Some key" 0]
    by (simp add: mdb_cursor_set_def cursor_set_def search_set_def lookup_result_def all_entries_def MDB_NOTFOUND_def)
next
  case (Some u)
  let ?f = "md_cmp (tc_dbx mc)"
  have "string_cmp ?f" "tree_ordered ?f u" using ord Some by (simp_all add: db_ordered_def)
  from lookup.cursor_set_leaf [OF main_lookup [OF this(1)] x _ refl key this(2) op, of h d] inv Some show ?thesis
    by (auto simp: set_spec_def mdb_cursor_set_def all_entries_def split: prod.splits)
qed

text \<open>
  C2. \<open>mdb_get\<close> on a database without duplicates, whose tree is ordered by \<open>mdb_cmp_memn\<close> or \<open>mdb_cmp_memnr\<close>, returns the data of the key
  if an entry of the tree has the key, and \<open>MDB_NOTFOUND\<close> otherwise. It changes nothing in the transaction, and does not leave the pages of the
  tree.
\<close>

theorem mdb_get_correct:
  assumes "db_ok txn (mt_dbs txn ! dbi) h t" and "0 < dbi" and "dbi < length (mt_dbs txn)" and "dbi < length (mt_dbxs txn)" and "dbi < length (mt_dbflags txn)"
    and "mt_dbflags txn ! dbi AND DB_STALE = 0" and "mt_dbflags txn ! dbi AND DB_VALID \<noteq> 0"
    and "db_ordered (md_cmp (mt_dbxs txn ! dbi)) t" and "key \<noteq> []" and "length key < 2 ^ 32"
  shows "mdb_get junk txn dbi (Some key) (Some d) =
    Inr (case map_of (all_entries txn t) key of Some v \<Rightarrow> (0, txn, Some v) | None \<Rightarrow> (MDB_NOTFOUND, txn, None))"
proof -
  obtain mc where mc: "mdb_cursor_init (Some junk) txn dbi = Inr mc" "cursor_base mc h t" "tc_flags mc = 0" "mc_xcursor mc = None" "tc_txn mc = txn"
    "tc_dbx mc = mt_dbxs txn ! dbi"
    using cursor_init_base [OF assms(1,3-6)] by blast
  have inv: "cursor_ok mc h t" using mc(2,3) by (simp add: cursor_ok_def has_flag_def)
  have "\<exists>mc' k. mdb_cursor_set mc key (Some d) MDB_SET True =
      Inr (case map_of (all_entries txn t) key of Some v \<Rightarrow> (0, mc', k, Some v) | None \<Rightarrow> (MDB_NOTFOUND, mc', k, None)) \<and> tc_txn mc' = txn"
    using cursor_set_any [OF mc(4) inv _ assms(9,10), of MDB_SET d] assms(8) mc(5,6) lookup_entries [OF assms(8,10), of txn] by (auto split: option.splits)
  moreover have "tx_flags txn AND MDB_TXN_ERROR = 0" using assms(1) by (simp add: db_ok_def)
  ultimately show ?thesis
    using assms(2,3,5,7) mc(1) by (auto simp: mdb_get_def of_arr_def aget_def split: option.splits)
qed

lemma get_set:
  assumes inv: "cursor_ok mc h t" and op: "op \<in> {MDB_SET, MDB_SET_KEY, MDB_SET_RANGE}"
    and run: "mdb_cursor_set mc key (Some d) op (op \<noteq> MDB_SET_RANGE) = Inr (rc, mc', k, v)" and "cursor_ok mc' h t"
  shows "mdb_cursor_get (Some mc) (Some key) (Some d) op = Inr (rc, Some mc', k, v)"
proof -
  have "tx_flags (tc_txn mc) AND MDB_TXN_ERROR = 0" "\<not> has_flag C_DEL mc'"
    using base_ok(4) [of mc h t] base_ok(5) [of mc' h t] inv assms(4) by (simp_all add: cursor_ok_def)
  then show ?thesis using op run by (auto simp: mdb_cursor_get_def cursor_get_def get_op_def Let_def mdb_cursor_set_def)
qed

text \<open>
  C4. \<open>mdb_cursor_get\<close> with \<open>MDB_SET\<close>, \<open>MDB_SET_KEY\<close> or \<open>MDB_SET_RANGE\<close> first tries the page the cursor is on, and then searches from the root. The
  result does not depend on where the cursor was: it is the first entry that is not below the key, for the first two operations only if
  it has the key, and \<open>MDB_NOTFOUND\<close> otherwise. The cursor keeps its invariant.
\<close>

theorem mdb_cursor_get_set:
  assumes "cursor_ok mc h t" and "mc_xcursor mc = None" and "db_ordered (md_cmp (tc_dbx mc)) t" and "key \<noteq> []" and "length key < 2 ^ 32"
    and "op \<in> {MDB_SET, MDB_SET_KEY, MDB_SET_RANGE}"
  shows "case lookup_result (md_cmp (tc_dbx mc)) op key (all_entries (tc_txn mc) t) of (rc, k, v) \<Rightarrow>
    \<exists>mc'. mdb_cursor_get (Some mc) (Some key) (Some d) op = Inr (rc, Some mc', k, v) \<and> cursor_ok mc' h t"
proof -
  obtain rc k v where r: "lookup_result (md_cmp (tc_dbx mc)) op key (all_entries (tc_txn mc) t) = (rc, k, v)" by (metis prod_cases3)
  obtain mc' where "mdb_cursor_set mc key (Some d) op (op \<noteq> MDB_SET_RANGE) = Inr (rc, mc', k, v)" "cursor_ok mc' h t"
    using cursor_set_any [OF assms(2,1,3-6), of d] r by auto
  then show ?thesis using get_set [OF assms(1,6)] r by auto
qed

subsection \<open>Scans and ranges\<close>

text \<open>
  C1. A program opens a cursor on a database without duplicates and calls \<open>mdb_cursor_get\<close> until the return code is not
  0. With \<open>MDB_NEXT\<close> it gets all entries of the tree in ascending order of their positions, with \<open>MDB_PREV\<close> in descending order, each
  once, and then \<open>MDB_NOTFOUND\<close>; on an empty database it gets \<open>MDB_NOTFOUND\<close> at once. No call faults, at any height of the tree that
  the stack of a cursor can hold.
\<close>

theorem mdb_cursor_scan:
  assumes "db_ok txn (mt_dbs txn ! dbi) h t" and "dbi < length (mt_dbs txn)" and "dbi < length (mt_dbxs txn)" and "dbi < length (mt_dbflags txn)"
    and "mt_dbflags txn ! dbi AND DB_STALE = 0" and "length (all_entries txn t) < n"
  shows "ebind (mdb_cursor_init mx txn dbi) (scan MDB_NEXT n) = Inr (MDB_NOTFOUND, all_entries txn t) \<and>
    ebind (mdb_cursor_init mx txn dbi) (scan MDB_PREV n) = Inr (MDB_NOTFOUND, rev (all_entries txn t))"
proof -
  obtain mc where mc: "mdb_cursor_init mx txn dbi = Inr mc" "cursor_base mc h t" "tc_flags mc = 0" "mc_xcursor mc = None" "tc_txn mc = txn"
    using cursor_init_base [OF assms(1-5)] by blast
  show ?thesis
    using scan_next_fresh [OF mc(2,4,3)] scan_prev_fresh [OF mc(2,4,3)] assms(6) mc(1,5) by simp
qed

text \<open>A program that reads from a key on.\<close>

definition range_scan :: "nat \<Rightarrow> byte list \<Rightarrow> mdb_mcursor \<Rightarrow> mdb_fault + int \<times> (byte list \<times> byte list) list" where
  "range_scan n key mc = ebind (mdb_cursor_get (Some mc) (Some key) (Some []) MDB_SET_RANGE) (\<lambda>(rc, mc, k, d).
     if rc \<noteq> 0 then Inr (rc, []) else ebind (scan MDB_NEXT n (the mc)) (\<lambda>(rc, xs). Inr (rc, (the k, the d) # xs)))"

lemma find_dropWhile: "find P xs = (case dropWhile (\<lambda>x. \<not> P x) xs of [] \<Rightarrow> None | x # _ \<Rightarrow> Some x)"
  by (induction xs) auto

lemma dropWhile_at:
  assumes "string_cmp f" and "sorted_wrt (key_below f) (map fst (us @ e # vs))" and "\<forall>k\<in>fst ` set (us @ e # vs). length k < 2 ^ 32"
    and "find (\<lambda>(k, d). \<not> key_below f k key) (us @ e # vs) = Some e"
  shows "dropWhile (\<lambda>(k, d). key_below f k key) (us @ e # vs) = e # vs"
proof -
  have "\<forall>(k, d)\<in>set us. key_below f k key"
  proof (rule ccontr)
    assume "\<not> ?thesis"
    then have "\<exists>x\<in>set us. \<not> (case x of (k, d) \<Rightarrow> key_below f k key)" by blast
    then have "find (\<lambda>(k, d). \<not> key_below f k key) us \<noteq> None" by (auto simp: find_None_iff)
    then obtain x where x: "find (\<lambda>(k, d). \<not> key_below f k key) us = Some x" by auto
    then have "x \<in> set us" by (induction us) (auto split: if_splits)
    moreover from x have "find (\<lambda>(k, d). \<not> key_below f k key) (us @ e # vs) = Some x" by (induction us) (auto split: if_splits)
    ultimately have "e \<in> set us" using assms(4) by simp
    then have "key_below f (fst e) (fst e)" using assms(2) by (auto simp: sorted_wrt_append)
    then show False using string_order.below_irrefl [OF string_cmp_order [OF assms(1)], of "fst e"] assms(3) by auto
  qed
  moreover have "\<not> key_below f (fst e) key"
    using assms(4) find_Some_iff [of "\<lambda>(k, d). \<not> key_below f k key" "us @ e # vs" e] by (cases e) auto
  ultimately show ?thesis by (subst dropWhile_append2) (auto split: prod.splits)
qed

text \<open>
  C18. A program sets a cursor with \<open>MDB_SET_RANGE\<close> and goes on with \<open>MDB_NEXT\<close> until the return code is not 0. Wherever the cursor was, the program gets
  precisely the entries whose key is not below the given key, in order, and then \<open>MDB_NOTFOUND\<close>.
\<close>

theorem mdb_range_scan:
  assumes "cursor_ok mc h t" and "mc_xcursor mc = None" and "db_ordered (md_cmp (tc_dbx mc)) t" and "key \<noteq> []" and "length key < 2 ^ 32"
    and "length (all_entries (tc_txn mc) t) \<le> n"
  shows "range_scan n key mc = Inr (MDB_NOTFOUND, dropWhile (\<lambda>(k, d). key_below (md_cmp (tc_dbx mc)) k key) (all_entries (tc_txn mc) t))"
proof -
  let ?f = "md_cmp (tc_dbx mc)" and ?es = "all_entries (tc_txn mc) t"
  let ?first = "find (\<lambda>(k, d). \<not> key_below ?f k key) ?es"
  note set = cursor_set_any [OF assms(2,1,3-5), of MDB_SET_RANGE "[]"]
  show ?thesis
  proof (cases ?first)
    case None
    then have "lookup_result ?f MDB_SET_RANGE key ?es = (MDB_NOTFOUND, None, None)" by (simp add: lookup_result_def)
    then obtain mc' where "mdb_cursor_set mc key (Some []) MDB_SET_RANGE False = Inr (MDB_NOTFOUND, mc', None, None)" "cursor_ok mc' h t"
      using set by auto
    then have "range_scan n key mc = Inr (MDB_NOTFOUND, [])"
      using get_set [OF assms(1), of MDB_SET_RANGE key "[]"] by (simp add: range_scan_def MDB_NOTFOUND_def)
    moreover have "dropWhile (\<lambda>(k, d). key_below ?f k key) ?es = []" using None by (auto simp: find_None_iff dropWhile_eq_Nil_conv)
    ultimately show ?thesis by (simp only:)
  next
    case (Some e)
    obtain k v where e: "e = (k, v)" by (cases e)
    have "lookup_result ?f MDB_SET_RANGE key ?es = (0, Some k, Some v)" using Some by (simp add: lookup_result_def e opt_if_def)
    then obtain mc' u where mc': "mdb_cursor_set mc key (Some []) MDB_SET_RANGE False = Inr (0, mc', Some k, Some v)" "cursor_ok mc' h t" "t = Some u"
      "tc_txn mc' = tc_txn mc" and on: "on_entry mc' h u e"
      using set Some by (auto simp: all_entries_def)
    obtain a i where pos: "leaf_pos mc' h u a i" "i < width (sub u a)" "e = entry_at (tc_txn mc) u a i" "cursor_base mc' h (Some u)"
      "has_flag C_INITIALIZED mc'" "\<not> has_flag C_EOF mc'" using on mc'(4) by (auto simp: on_entry_def)
    have "a @ [i] \<in> set (paths u (Suc h))" using pos(1,2) paths_snoc by (auto simp: leaf_pos_def simp del: paths.simps)
    then obtain us vs where split: "paths u (Suc h) = us @ (a @ [i]) # vs" by (auto dest: split_list simp del: paths.simps)
    let ?E = "position_entry (tc_txn mc) u"
    have es: "?es = map ?E us @ e # map ?E vs"
      using entries_paths [OF base_ok(1) [OF pos(4)]] split mc'(3,4) pos(3) by (simp add: all_entries_def del: paths.simps)
    have ord: "string_cmp ?f" "tree_ordered ?f u" using assms(3) mc'(3) by (simp_all add: db_ordered_def)
    have keys: "map fst ?es = tree_keys u" using fst_entries mc'(3) by (simp add: all_entries_def)
    then have "fst ` set ?es = set (tree_keys u)" by (metis list.set_map)
    then have drop: "dropWhile (\<lambda>(k, d). key_below ?f k key) ?es = e # map ?E vs"
      using dropWhile_at [OF ord(1), of "map ?E us" e "map ?E vs" key] Some ord(2) keys tree_keys_short unfolding es tree_ordered_def by metis
    have "length vs < n" using assms(6) unfolding es by simp
    then have "scan MDB_NEXT n mc' = Inr (MDB_NOTFOUND, map ?E vs)"
      using scan_next_from [OF pos(4-6) split, of n] pos(1) mc'(4) by simp
    then show ?thesis
      using get_set [OF assms(1) _ _ mc'(2), of MDB_SET_RANGE key "[]"] mc'(1) drop e by (simp add: range_scan_def)
  qed
qed

subsection \<open>The invariant of cursors\<close>

lemma cursor_okD:
  assumes "cursor_ok mc h t" and "has_flag C_INITIALIZED mc"
  obtains u a us vs where "t = Some u" "leaf_pos mc h u a (tc_ki mc ! h)" "tc_ki mc ! h \<le> width (sub u a)" "paths u h = us @ a # vs"
    "has_flag C_EOF mc \<longrightarrow> a = path_by (edge False) h u" "cursor_base mc h (Some u)"
proof -
  obtain u a where u: "t = Some u" "leaf_pos mc h u a (tc_ki mc ! h)" "tc_ki mc ! h \<le> width (sub u a)" "has_flag C_EOF mc \<longrightarrow> a = path_by (edge False) h u"
    using assms by (auto simp: cursor_ok_def)
  moreover obtain us vs where "paths u h = us @ a # vs" using u(2) by (auto simp: leaf_pos_def dest: split_list)
  ultimately show ?thesis using that assms(1) by (simp add: cursor_ok_def)
qed

text \<open>The cursor after an operation: the same transaction and database, and the invariant.\<close>

definition keeps_cursor :: "mdb_mcursor \<Rightarrow> nat \<Rightarrow> ptree option \<Rightarrow> mdb_mcursor \<Rightarrow> bool" where
  "keeps_cursor mc h t mc' \<longleftrightarrow> cursor_ok mc' h t \<and> tc_txn mc' = tc_txn mc \<and> own mc' = own mc"

lemma first_keeps:
  assumes x: "mc_xcursor mc = None" and inv: "cursor_ok mc h t"
  shows "\<exists>rc mc' k d. cursor_first main_ops mc wk wd = Inr (rc, mc', k, d) \<and> keeps_cursor mc h t mc' \<and> rc \<in> {0, MDB_NOTFOUND}"
proof (cases t)
  case None
  then show ?thesis using inv main_plain.edge_empty(1) [OF x, of h wk wd] by (auto simp: cursor_ok_def keeps_cursor_def)
next
  case (Some u)
  obtain mc' where "cursor_first main_ops mc wk wd = Inr (0, mc', opt_if wk (fst (entry_at (tc_txn mc) u (path_by (edge True) h u) 0)),
      opt_if wd (snd (entry_at (tc_txn mc) u (path_by (edge True) h u) 0)))"
    "leaf_pos mc' h u (path_by (edge True) h u) 0" "cursor_base mc' h (Some u)" "has_flag C_INITIALIZED mc'" "\<not> has_flag C_EOF mc'"
    "tc_txn mc' = tc_txn mc" "own mc' = own mc"
    using main_plain.cursor_first_leaf [OF x, of h u wk wd] inv Some by (auto simp: cursor_ok_def)
  then show ?thesis using cursor_okI [of mc' h u "path_by (edge True) h u" 0] Some by (auto simp: keeps_cursor_def)
qed

lemma last_keeps:
  assumes x: "mc_xcursor mc = None" and inv: "cursor_ok mc h t"
  shows "\<exists>rc mc' k d. cursor_last main_ops mc wk wd = Inr (rc, mc', k, d) \<and> keeps_cursor mc h t mc' \<and> rc \<in> {0, MDB_NOTFOUND} \<and>
    (rc = 0 \<longrightarrow> (\<exists>u. t = Some u \<and> has_flag C_INITIALIZED mc' \<and> leaf_pos mc' h u (path_by (edge False) h u) (edge False (sub u (path_by (edge False) h u)))))"
proof (cases t)
  case None
  then show ?thesis using inv main_plain.edge_empty(2) [OF x, of h wk wd] by (auto simp: cursor_ok_def keeps_cursor_def MDB_NOTFOUND_def)
next
  case (Some u)
  let ?a = "path_by (edge False) h u"
  obtain mc' k d where mc': "cursor_last main_ops mc wk wd = Inr (0, mc', k, d)" "leaf_pos mc' h u ?a (edge False (sub u ?a))"
    "cursor_base mc' h (Some u)" "has_flag C_INITIALIZED mc'" "tc_txn mc' = tc_txn mc" "own mc' = own mc"
    using main_plain.cursor_last_leaf [OF x, of h u wk wd] inv Some by (auto simp: cursor_ok_def)
  have "cursor_ok mc' h (Some u)" by (rule cursor_okI [OF mc'(3,4,2)]) (simp_all add: edge_def)
  then show ?thesis using mc' Some by (auto simp: keeps_cursor_def)
qed

lemma next_keeps:
  assumes inv: "cursor_ok mc h t" and init: "has_flag C_INITIALIZED mc"
  shows "\<exists>rc mc' k d. cursor_next main_ops mc wk wd op = Inr (rc, mc', k, d) \<and> keeps_cursor mc h t mc' \<and> rc \<in> {0, MDB_NOTFOUND}"
proof (cases "has_flag C_EOF mc")
  case True
  then show ?thesis using inv by (auto simp: cursor_next_def keeps_cursor_def)
next
  case False
  obtain u a us vs where u: "t = Some u" "leaf_pos mc h u a (tc_ki mc ! h)" "tc_ki mc ! h \<le> width (sub u a)"
    "paths u h = us @ a # vs" "has_flag C_EOF mc \<longrightarrow> a = path_by (edge False) h u" and b: "cursor_base mc h (Some u)"
    by (rule cursor_okD [OF inv init])
  note step = cursor_next_leaf [OF base_ok(1,2) [OF b] u(2,4) base_ok(3) [OF b] init False base_ok(5) [OF b], of main_ops wk wd op]
  show ?thesis
  proof (cases "beside True u a (tc_ki mc ! h) us vs")
    case None
    then have "adj True us vs = None" by (auto simp: beside_def split: if_splits)
    then have "vs = []" by (cases vs) simp_all
    then have "a = path_by (edge False) h u" using path_by_edge [OF base_ok(1) [OF b]] u(4) by auto
    then have "cursor_ok (set_flags C_EOF mc) h (Some u)" by (intro cursor_okI [of _ h u a "tc_ki mc ! h"]) (use u(1-3) b init \<open>a = _\<close> in simp_all)
    then show ?thesis using step None u(1) by (auto simp: keeps_cursor_def)
  next
    case (Some bj)
    obtain b j where bj: "bj = (b, j)" by (cases bj)
    obtain mc' where mc': "cursor_next main_ops mc wk wd op = Inr (0, mc', opt_if wk (fst (entry_at (tc_txn mc) u b j)), opt_if wd (snd (entry_at (tc_txn mc) u b j)))"
      "leaf_pos mc' h u b j" "j < width (sub u b)" "moved mc mc'" using step Some bj by auto
    have "cursor_ok mc' h (Some u)"
      by (rule cursor_okI [OF base_moved [OF b mc'(4,2)] _ mc'(2)]) (use mc'(3) init False moved_flag [OF mc'(4)] in auto)
    then show ?thesis using mc'(1) moved_own [OF mc'(4)] u(1) by (auto simp: keeps_cursor_def)
  qed
qed

lemma prev_keeps:
  assumes base: "cursor_base mc h (Some u)" and pos: "leaf_pos mc h u a i" "i \<le> width (sub u a)" and init: "has_flag C_INITIALIZED mc"
    and eof: "has_flag C_EOF mc \<Longrightarrow> a = path_by (edge False) h u"
  shows "\<exists>rc mc' k d. cursor_prev main_ops mc wk wd op = Inr (rc, mc', k, d) \<and> keeps_cursor mc h (Some u) mc' \<and> rc \<in> {0, MDB_NOTFOUND}"
proof -
  obtain us vs where split: "paths u h = us @ a # vs" using pos(1) by (auto simp: leaf_pos_def dest: split_list)
  note step = cursor_prev_leaf [OF base_ok(1,2) [OF base] pos split base_ok(3) [OF base] init, of main_ops wk wd op]
  show ?thesis
  proof (cases "beside False u a i us vs")
    case None
    then show ?thesis using step cursor_okI [OF base init pos eof] by (auto simp: keeps_cursor_def)
  next
    case (Some bj)
    obtain b j where bj: "bj = (b, j)" by (cases bj)
    obtain mc' where mc': "cursor_prev main_ops mc wk wd op =
        Inr (0, clr_flags C_EOF mc', opt_if wk (fst (entry_at (tc_txn mc) u b j)), opt_if wd (snd (entry_at (tc_txn mc) u b j)))"
      "leaf_pos mc' h u b j" "j < width (sub u b)" "moved mc mc'" using step Some bj by auto
    have "cursor_ok (clr_flags C_EOF mc') h (Some u)"
      by (rule cursor_okI [of _ h u b j]) (use mc' base_moved [OF base mc'(4,2)] init moved_flag [OF mc'(4)] in auto)
    then show ?thesis using mc'(1) moved_own [OF mc'(4)] by (auto simp: keeps_cursor_def)
  qed
qed

lemma current_keeps:
  assumes inv: "cursor_ok mc h t"
  shows "\<exists>rc mc' k v. get_current main_ops mc (Some key) (Some d) = Inr (rc, mc', k, v) \<and> keeps_cursor mc h t mc' \<and> rc \<in> {0, MDB_NOTFOUND, EINVAL}"
proof (cases "has_flag C_INITIALIZED mc")
  case False
  then show ?thesis using inv by (auto simp: get_current_def keeps_cursor_def)
next
  case True
  obtain u a us vs where u: "t = Some u" "leaf_pos mc h u a (tc_ki mc ! h)" "tc_ki mc ! h \<le> width (sub u a)" "paths u h = us @ a # vs"
    "has_flag C_EOF mc \<longrightarrow> a = path_by (edge False) h u" and b: "cursor_base mc h (Some u)"
    by (rule cursor_okD [OF inv True])
  note p = leaf_posD [OF u(2) base_ok(1) [OF b]]
  show ?thesis
  proof (cases "tc_ki mc ! h < width (sub u a)")
    case False
    let ?mc = "mc\<lparr>tc_ki := (tc_ki mc)[h := width (sub u a)]\<rparr>"
    have init: "has_flag C_INITIALIZED ?mc" "has_flag C_EOF ?mc = has_flag C_EOF mc" using True by (simp_all add: has_flag_def)
    have "cursor_ok ?mc h (Some u)" by (rule cursor_okI [OF base_moved [OF b _ p(6)] init(1) p(6)]) (use u(5) init in auto)
    then show ?thesis using True False p(1,2,5) p(8) u(1) by (auto simp: get_current_def keeps_cursor_def Let_def)
  next
    case here: True
    note node = leaf_node [OF p(3) here]
    have "\<not> IS_LEAF2 (page (sub u a))" using tree_ok_leaf [OF p(3)] by auto
    then have "get_current main_ops mc (Some key) (Some d) = Inr (0, mc, Some (fst (entry_at (tc_txn mc) u a (tc_ki mc ! h))), Some (snd (entry_at (tc_txn mc) u a (tc_ki mc ! h))))"
      using True here p(1,2) p(8) node by (simp add: get_current_def Let_def MDB_GET_KEY_def cursor_node_read_def)
    then show ?thesis using inv by (auto simp: keeps_cursor_def)
  qed
qed

definition cursor_codes :: "int set" where
  "cursor_codes = {0, MDB_NOTFOUND, EINVAL, MDB_INCOMPATIBLE, MDB_BAD_VALSIZE}"

lemma set_keeps:
  assumes "mc_xcursor mc = None" and "cursor_ok mc h t" and "db_ordered (md_cmp (tc_dbx mc)) t" and "length key < 2 ^ 32"
    and op: "op \<in> {MDB_SET, MDB_SET_KEY, MDB_SET_RANGE}"
  shows "\<exists>rc mc' k v. cursor_set main_ops mc key (Some d) op (op \<noteq> MDB_SET_RANGE) = Inr (rc, mc', k, v) \<and> keeps_cursor mc h t mc' \<and> rc \<in> {0, MDB_NOTFOUND, MDB_BAD_VALSIZE}"
proof (cases "key = []")
  case True
  then show ?thesis using assms(2) by (auto simp: cursor_set_def keeps_cursor_def)
next
  case False
  obtain rc k v where r: "lookup_result (md_cmp (tc_dbx mc)) op key (all_entries (tc_txn mc) t) = (rc, k, v)" by (metis prod_cases3)
  then have "rc \<in> {0, MDB_NOTFOUND}" by (auto simp: lookup_result_def split: option.splits prod.splits if_splits)
  then show ?thesis using cursor_set_any [OF assms(1-3) False assms(4) op, of d] r by (auto simp: keeps_cursor_def mdb_cursor_set_def)
qed

lemma prev_op_keeps:
  assumes x: "mc_xcursor mc = None" and inv: "cursor_ok mc h t"
  shows "\<exists>rc mc' k v. prev_op main_ops mc True True op = Inr (rc, mc', k, v) \<and> keeps_cursor mc h t mc' \<and> rc \<in> {0, MDB_NOTFOUND}"
proof (cases "has_flag C_INITIALIZED mc")
  case True
  obtain u a us vs where u: "t = Some u" "leaf_pos mc h u a (tc_ki mc ! h)" "tc_ki mc ! h \<le> width (sub u a)" "paths u h = us @ a # vs"
    "has_flag C_EOF mc \<longrightarrow> a = path_by (edge False) h u" and b: "cursor_base mc h (Some u)"
    by (rule cursor_okD [OF inv True])
  show ?thesis using prev_keeps [OF b u(2,3) True, of True True op] u(1,5) True by (auto simp: prev_op_def)
next
  case False
  obtain rc mc1 k d where last: "cursor_last main_ops mc True True = Inr (rc, mc1, k, d)" "keeps_cursor mc h t mc1" "rc \<in> {0, MDB_NOTFOUND}"
    and pos: "rc = 0 \<Longrightarrow> \<exists>u. t = Some u \<and> has_flag C_INITIALIZED mc1 \<and> leaf_pos mc1 h u (path_by (edge False) h u) (edge False (sub u (path_by (edge False) h u)))"
    using last_keeps [OF x inv, of True True] by blast
  show ?thesis
  proof (cases "rc = 0")
    case fail: False
    then show ?thesis using last False by (auto simp: prev_op_def)
  next
    case ok: True
    then obtain u where u: "t = Some u" "has_flag C_INITIALIZED mc1" "leaf_pos mc1 h u (path_by (edge False) h u) (edge False (sub u (path_by (edge False) h u)))"
      using pos by blast
    let ?a = "path_by (edge False) h u" and ?mc = "set_flags C_INITIALIZED mc1"
    let ?w = "width (sub u ?a)"
    have base: "cursor_base ?mc h (Some u)" using last(2) u(1) by (simp add: keeps_cursor_def cursor_ok_def)
    have pos1: "leaf_pos ?mc h u ?a (edge False (sub u ?a))" using u(3) by simp
    note p = leaf_posD [OF pos1 base_ok(1) [OF base]]
    define mc2 where "mc2 = ?mc\<lparr>tc_ki := (tc_ki ?mc)[h := ?w]\<rparr>"
    have p2: "set_ki ?mc ?w = Inr mc2" "leaf_pos mc2 h u ?a ?w" "moved ?mc mc2" using p(5,6) by (simp_all add: mc2_def)
    have b2: "cursor_base mc2 h (Some u)" by (rule base_moved [OF base p2(3,2)])
    have i2: "has_flag C_INITIALIZED mc2" using moved_flag [OF p2(3)] by simp
    have e: "indx_t (int (edge False (sub u ?a)) + 1) = ?w" using p(9,10) by (simp add: edge_def indx_t_small nat_add_distrib)
    have top: "top_ki mc1 = Inr (edge False (sub u ?a))" using leaf_posD(2) [OF u(3)] base_ok(1) [OF base] by simp
    obtain rc' mc' k' v' where prev: "cursor_prev main_ops mc2 True True op = Inr (rc', mc', k', v')" "keeps_cursor mc2 h (Some u) mc'" "rc' \<in> {0, MDB_NOTFOUND}"
      using prev_keeps [OF b2 p2(2) order_refl i2, of True True op] by blast
    have "keeps_cursor mc h t mc'" using prev(2) last(2) moved_own [OF p2(3)] u(1) by (simp add: keeps_cursor_def)
    then show ?thesis using False last(1) ok top e p2(1) prev(1,3) by (auto simp: prev_op_def)
  qed
qed

text \<open>
  With pointers to a key and to data, every operation of \<open>mdb_cursor_get\<close> returns one of five codes and keeps the invariant.
\<close>

definition op_good :: "mdb_mcursor \<Rightarrow> nat \<Rightarrow> ptree option \<Rightarrow> mdb_fault + mdb_mcursor item \<Rightarrow> bool" where
  "op_good mc h t r \<longleftrightarrow> (\<exists>rc mc' k v. r = Inr (rc, mc', k, v) \<and> keeps_cursor mc h t mc' \<and> rc \<in> cursor_codes)"

lemma op_goodI: "\<exists>rc mc' k v. r = Inr (rc, mc', k, v) \<and> keeps_cursor mc h t mc' \<and> rc \<in> S \<Longrightarrow> S \<subseteq> cursor_codes \<Longrightarrow> op_good mc h t r"
  unfolding op_good_def by blast

lemma op_keeps:
  assumes x: "mc_xcursor mc = None" and inv: "cursor_ok mc h t" and ord: "db_ordered (md_cmp (tc_dbx mc)) t" and key: "length key < 2 ^ 32"
    and fixed: "md_flags (tc_db mc) AND MDB_DUPFIXED = 0"
  shows "op_good mc h t (get_op main_ops mc (Some key) (Some d) op)"
proof -
  have null: "dup_null main_ops mc" using x by (simp add: main_ops_def)
  have last_ex: "\<exists>rc mc' k v. cursor_last main_ops mc True True = Inr (rc, mc', k, v) \<and> keeps_cursor mc h t mc' \<and> rc \<in> {0, MDB_NOTFOUND}"
    using last_keeps [OF x inv, of True True] by blast
  have err: "rc \<in> cursor_codes \<Longrightarrow> op_good mc h t (Inr (rc, mc, None, None))" for rc using inv by (auto simp: op_good_def keeps_cursor_def)
  have codes: "EINVAL \<in> cursor_codes" "MDB_INCOMPATIBLE \<in> cursor_codes" by (simp_all add: cursor_codes_def)
  have current: "op_good mc h t (get_current main_ops mc (Some key) (Some d))" by (rule op_goodI [OF current_keeps [OF inv]]) (auto simp: cursor_codes_def)
  have first: "op_good mc h t (cursor_first main_ops mc True True)" by (rule op_goodI [OF first_keeps [OF x inv]]) (auto simp: cursor_codes_def)
  have last: "op_good mc h t (cursor_last main_ops mc True True)" by (rule op_goodI [OF last_ex]) (auto simp: cursor_codes_def)
  have next_: "op_good mc h t (cursor_next main_ops mc True True op')" if "has_flag C_INITIALIZED mc" for op'
    by (rule op_goodI [OF next_keeps [OF inv that]]) (auto simp: cursor_codes_def)
  note prev = op_goodI [OF prev_op_keeps [OF x inv]]
  have set: "op_good mc h t (cursor_set main_ops mc key (Some d) op' (op' \<noteq> MDB_SET_RANGE))" if "op' \<in> {MDB_SET, MDB_SET_KEY, MDB_SET_RANGE}" for op'
    by (rule op_goodI [OF set_keeps [OF x inv ord key that]]) (auto simp: cursor_codes_def)
  have nf: "{0, MDB_NOTFOUND} \<subseteq> cursor_codes" by (auto simp: cursor_codes_def)
  show ?thesis
  proof (cases op)
    case MDB_PREV
    then show ?thesis using prev [OF nf, of MDB_PREV] by (simp add: get_op_def Let_def del: if_split)
  next
    case MDB_PREV_DUP
    then show ?thesis using prev [OF nf, of MDB_PREV_DUP] by (simp add: get_op_def Let_def del: if_split)
  next
    case MDB_PREV_NODUP
    then show ?thesis using prev [OF nf, of MDB_PREV_NODUP] by (simp add: get_op_def Let_def del: if_split)
  qed (use null fixed err [OF codes(1)] err [OF codes(2)] current first last next_ set [of MDB_SET] set [of MDB_SET_KEY] set [of MDB_SET_RANGE] in
      \<open>simp_all add: get_op_def Let_def move_dup_def\<close>)
qed

text \<open>A program that calls operations one after the other, whatever they return.\<close>

fun run_ops :: "(MDB_cursor_op \<times> byte list \<times> byte list) list \<Rightarrow> mdb_mcursor \<Rightarrow> mdb_fault + int list \<times> mdb_mcursor" where
  "run_ops [] mc = Inr ([], mc)"
| "run_ops ((op, key, d) # xs) mc = ebind (mdb_cursor_get (Some mc) (Some key) (Some d) op) (\<lambda>(rc, mc, _).
     ebind (run_ops xs (the mc)) (\<lambda>(rcs, mc). Inr (rc # rcs, mc)))"

lemma run_ops_ok:
  assumes "mc_xcursor mc = None" and "cursor_ok mc h t" and "db_ordered (md_cmp (tc_dbx mc)) t" and "md_flags (tc_db mc) AND MDB_DUPFIXED = 0"
    and "list_all (\<lambda>(op, key, d). length key < 2 ^ 32) xs"
  shows "\<exists>rcs mc'. run_ops xs mc = Inr (rcs, mc') \<and> cursor_ok mc' h t \<and> length rcs = length xs \<and> set rcs \<subseteq> cursor_codes"
  using assms
proof (induction xs arbitrary: mc)
  case (Cons x xs)
  obtain op key d where x: "x = (op, key, d)" by (cases x)
  have "op_good mc h t (get_op main_ops mc (Some key) (Some d) op)" using Cons.prems x by (intro op_keeps) simp_all
  then obtain rc mc1 k v where run: "get_op main_ops mc (Some key) (Some d) op = Inr (rc, mc1, k, v)" "keeps_cursor mc h t mc1" "rc \<in> cursor_codes"
    by (auto simp: op_good_def)
  have base: "cursor_base mc h t" "cursor_base mc1 h t" using Cons.prems(2) run(2) by (simp_all add: keeps_cursor_def cursor_ok_def)
  have get: "mdb_cursor_get (Some mc) (Some key) (Some d) op = Inr (rc, Some mc1, k, v)"
    using run(1) base_ok(4) [OF base(1)] base_ok(5) [OF base(2)] by (simp add: mdb_cursor_get_def cursor_get_def)
  have own: "own mc1 = own mc" "cursor_ok mc1 h t" using run(2) by (simp_all add: keeps_cursor_def)
  have "\<exists>rcs mc'. run_ops xs mc1 = Inr (rcs, mc') \<and> cursor_ok mc' h t \<and> length rcs = length xs \<and> set rcs \<subseteq> cursor_codes"
    by (rule Cons.IH [OF _ own(2)]) (use own(1) main_plain.plain_more [of mc mc1] Cons.prems in \<open>auto simp: own_def\<close>)
  then show ?case using get run(3) x by auto
qed simp

text \<open>
  C5. A program opens a cursor on a database without sorted duplicates (neither \<open>MDB_DUPSORT\<close> nor \<open>MDB_DUPFIXED\<close>) whose keys are ordered by one of
  the two string comparisons, and calls \<open>mdb_cursor_get\<close> any number of times, in any order, with any of the 18 operations and any
  keys shorter than \<open>2^32\<close> bytes, passing addresses for key and data that are not null, also after a call has failed. No call leaves the pages or the stack of the cursor, dereferences a null pointer or
  fails an assertion; each returns one of \<open>0\<close>, \<open>MDB_NOTFOUND\<close>, \<open>EINVAL\<close>, \<open>MDB_INCOMPATIBLE\<close> and \<open>MDB_BAD_VALSIZE\<close>, and the invariant of the cursor holds
  at the end.
\<close>

theorem mdb_cursor_session:
  assumes "db_ok txn (mt_dbs txn ! dbi) h t" and "dbi < length (mt_dbs txn)" and "dbi < length (mt_dbxs txn)" and "dbi < length (mt_dbflags txn)"
    and "mt_dbflags txn ! dbi AND DB_STALE = 0" and "md_flags (mt_dbs txn ! dbi) AND MDB_DUPFIXED = 0"
    and "db_ordered (md_cmp (mt_dbxs txn ! dbi)) t" and "list_all (\<lambda>(op, key, d). length key < 2 ^ 32) xs"
  shows "\<exists>rcs mc'. ebind (mdb_cursor_init mx txn dbi) (run_ops xs) = Inr (rcs, mc') \<and> cursor_ok mc' h t \<and> length rcs = length xs \<and>
    set rcs \<subseteq> {0, MDB_NOTFOUND, EINVAL, MDB_INCOMPATIBLE, MDB_BAD_VALSIZE}"
proof -
  obtain mc where mc: "mdb_cursor_init mx txn dbi = Inr mc" "cursor_base mc h t" "tc_flags mc = 0" "mc_xcursor mc = None"
    "tc_dbx mc = mt_dbxs txn ! dbi" "tc_db mc = mt_dbs txn ! dbi"
    using cursor_init_base [OF assms(1-5)] by blast
  then have "cursor_ok mc h t" by (simp add: cursor_ok_def has_flag_def)
  from run_ops_ok [OF mc(4) this] show ?thesis using mc assms(6-8) by (auto simp: cursor_codes_def)
qed

subsection \<open>Termination of the descent\<close>

text \<open>No other function here can fail with \<open>No_End\<close>.\<close>

definition ends :: "mdb_fault + 'a \<Rightarrow> bool" where
  "ends r \<longleftrightarrow> r \<noteq> Inl No_End"

lemma ends_simps [simp]: "ends (Inr x)" "ends (Inl e) \<longleftrightarrow> e \<noteq> No_End"
  by (simp_all add: ends_def)

lemma ends_bind: "ends m \<Longrightarrow> (\<And>x. m = Inr x \<Longrightarrow> ends (g x)) \<Longrightarrow> ends (ebind m g)"
  by (cases m) auto

lemma ends_read [simp]: "ends (rd16 m off)" "ends (rd_bytes m off n)" "ends (mp_ptrs m i)" "ends (of_arr r)" "ends (page_at mc l)" "ends (top_page mc)"
  "ends (top_ki mc)" "ends (set_ki mc i)"
  by (simp_all add: rd16_def rd_bytes_def mp_ptrs_def of_arr_def page_at_def top_page_def top_ki_def set_ki_def ends_bind split: option.splits)

lemma ends_nodes [simp]: "ends (NODEKEY m node)" "ends (NODEPGNO m node)" "ends (node_key mp i)" "ends (LEAF2KEY m i ks)" "ends (child_pgno mp i)"
  by (simp_all add: NODEKEY_def NODEPGNO_def node_key_def LEAF2KEY_def child_pgno_def mn_lo_def mn_hi_def mn_flags_def mn_ksize_def ends_bind)

lemma ends_cint: "ends (cint_loop a b u)"
  by (induction a b u rule: cint_loop.induct) (subst cint_loop.simps, auto intro!: ends_bind)

lemma ends_cmp [simp]: "ends (run_cmp f a b)"
  by (simp add: run_cmp_def mdb_cmp_int_def mdb_cmp_long_def mdb_cmp_cint_def cmp_num_def ends_cint ends_bind split: cmp_func.splits)

lemma ends_loop: "(\<And>i. ends (nodekey i)) \<Longrightarrow> (\<And>k. ends (cmp key k)) \<Longrightarrow> ends (search_loop cmp nodekey key low high i rc)"
  by (induction cmp nodekey key low high i rc rule: search_loop.induct) (subst search_loop.simps, auto simp: Let_def intro!: ends_bind)

lemma ends_node_search: "ends (cursor_node_search mc key)"
  by (auto simp: cursor_node_search_def mdb_node_search_def page_cmp_def mn_ksize_def Let_def intro!: ends_bind ends_loop split: option.splits cmp_func.splits)

lemma ends_page_get: "ends (cursor_page_get mc pgno)"
proof -
  have "ends (spill_has L pgno)" "ends (dirty_find L pgno)" for L
    by (auto simp: spill_has_def dirty_find_def Let_def intro!: ends_bind split: option.splits)
  then have "ends (page_get_levels pages Ls level pgno)" for pages Ls level
    by (induction Ls arbitrary: level) (auto intro!: ends_bind split: option.splits)
  then show ?thesis by (auto simp: cursor_page_get_def mdb_page_get_def intro!: ends_bind split: option.splits)
qed

lemma ends_branch_index: "ends (branch_index mc mp key flags)"
  by (auto simp: branch_index_def intro!: ends_bind ends_node_search split: option.splits)

lemma snum_set_ki: "set_ki mc i = Inr mc' \<Longrightarrow> tc_snum mc' = tc_snum mc"
  by (auto simp: set_ki_def ebind_Inr_iff)

lemma snum_branch_index: "branch_index mc mp key flags = Inr (i, mc') \<Longrightarrow> tc_snum mc' = tc_snum mc"
  by (auto simp: branch_index_def cursor_node_search_def ebind_Inr_iff dest!: snum_set_ki split: if_splits option.splits)

lemma snum_page_get: "cursor_page_get mc n = Inr (r, mc') \<Longrightarrow> tc_snum mc' = tc_snum mc"
  by (auto simp: cursor_page_get_def ebind_Inr_iff)

lemma snum_push: "mdb_cursor_push mc mp = Inr (0, mc') \<Longrightarrow> tc_snum mc < CURSOR_STACK \<and> tc_snum mc' = Suc (tc_snum mc)"
  by (auto simp: mdb_cursor_push_def Let_def ebind_Inr_iff MDB_CURSOR_FULL_def dest!: snum_set_ki split: if_splits)

lemma search_root_fuel:
  assumes "flags AND MDB_PS_MODIFY = 0"
  shows "CURSOR_STACK < tc_snum mc + n \<Longrightarrow> 0 < n \<Longrightarrow>
    mdb_page_search_root (n + k) touch mc key flags = mdb_page_search_root n touch mc key flags \<and> ends (mdb_page_search_root n touch mc key flags)"
proof (induction n arbitrary: mc)
  case (Suc n)
  have rec: "mdb_page_search_root (n + k) touch mc' key flags = mdb_page_search_root n touch mc' key flags \<and> ends (mdb_page_search_root n touch mc' key flags)"
    if i: "branch_index mc mp key flags = Inr (i, mc1)" "cursor_page_get mc1 pgno = Inr (r, mc2)" "set_ki mc2 i = Inr mc3"
      and push: "mdb_cursor_push mc3 q = Inr (0, mc')" for mp i mc1 pgno r mc2 mc3 q mc'
  proof -
    have "tc_snum mc < CURSOR_STACK" "tc_snum mc' = Suc (tc_snum mc)"
      using snum_branch_index [OF i(1)] snum_page_get [OF i(2)] snum_set_ki [OF i(3)] snum_push [OF push] by simp_all
    then show ?thesis using Suc.prems by (intro Suc.IH) simp_all
  qed
  show ?case
  proof
    show "mdb_page_search_root (Suc n + k) touch mc key flags = mdb_page_search_root (Suc n) touch mc key flags"
      unfolding add_Suc mdb_page_search_root.simps using assms rec
      by (intro ebind_cong refl if_cong) (auto intro!: ebind_cong split: option.splits)
    show "ends (mdb_page_search_root (Suc n) touch mc key flags)"
      unfolding mdb_page_search_root.simps using assms rec
      by (auto intro!: ends_bind ends_branch_index ends_page_get simp: mdb_cursor_push_def Let_def split: option.splits)
  qed
qed simp

text \<open>
  C20. The descent from the root, when it does not prepare pages for writing (\<open>MDB_PS_MODIFY\<close>), ends whatever the pages contain, also when the page numbers in the branch pages form a cycle: every round of the loop of
  \<open>mdb_page_search_root\<close> that does not end it pushes a page, and the stack has \<open>CURSOR_STACK\<close> entries. More fuel than one round for each entry and one
  more changes nothing.
\<close>

theorem mdb_page_search_root_ends:
  assumes "flags AND MDB_PS_MODIFY = 0" and "CURSOR_STACK < n"
  shows "mdb_page_search_root n touch mc key flags = mdb_page_search_root (CURSOR_STACK + 1) touch mc key flags \<and>
    mdb_page_search_root n touch mc key flags \<noteq> Inl No_End"
  using search_root_fuel [OF assms(1), of mc "CURSOR_STACK + 1" "n - (CURSOR_STACK + 1)" touch key] assms(2) by (simp add: ends_def)

subsection \<open>Values of a key\<close>

text \<open>
  C31. On a key that has a single value, \<open>MDB_NEXT_DUP\<close> reports \<open>MDB_NOTFOUND\<close>, but \<open>MDB_PREV_DUP\<close>, which is to stay on the values of the current key, does
  what \<open>MDB_PREV\<close> does and leaves the key: in \<open>mdb_cursor_prev\<close> the branch that returns \<open>MDB_NOTFOUND\<close> belongs to the wrong condition and is never taken for
  this operation.
\<close>

theorem mdb_cursor_prev_dup_leaves_key:
  assumes "md_flags (tc_db mc) AND MDB_DUPSORT \<noteq> 0" and "has_flag C_INITIALIZED mc" and "\<not> has_flag C_EOF mc" and "mc_xcursor mc \<noteq> None"
    and "top_page mc = Inr mp" and "top_ki mc = Inr ki" and "mp_ptrs (mp_mem mp) ki = Inr leaf" and "node_flag (mp_mem mp) leaf F_DUPDATA = Inr False"
  shows "(\<exists>mc'. mdb_cursor_next mc wk wd MDB_NEXT_DUP = Inr (MDB_NOTFOUND, mc', None, None)) \<and>
    mdb_cursor_prev mc wk wd MDB_PREV_DUP = mdb_cursor_prev mc wk wd MDB_PREV"
proof
  show "\<exists>mc'. mdb_cursor_next mc wk wd MDB_NEXT_DUP = Inr (MDB_NOTFOUND, mc', None, None)"
    using assms by (auto simp: mdb_cursor_next_def cursor_next_def next_dup_def main_ops_def)
  have "prev_dup main_ops mc mp wk wd op = Inr (Inr mc)" for op
    using assms by (simp add: prev_dup_def)
  then show "mdb_cursor_prev mc wk wd MDB_PREV_DUP = mdb_cursor_prev mc wk wd MDB_PREV"
    using assms by (simp add: mdb_cursor_prev_def cursor_prev_def)
qed

subsection \<open>Examples\<close>

lemma sample_fields: "mt_dbs sample_txn ! 1 = sample_db" "mt_dbflags sample_txn ! 1 = DB_VALID" "md_cmp (mt_dbxs sample_txn ! 1) = Cmp_memn byte_diff"
  "length (mt_dbs sample_txn) = 2" "length (mt_dbxs sample_txn) = 2" "length (mt_dbflags sample_txn) = 2" "DB_VALID AND DB_STALE = 0" "DB_VALID AND DB_VALID \<noteq> 0"
  "md_flags sample_db AND MDB_DUPFIXED = 0"
  by (simp_all add: sample_txn_def sample_db_def DB_VALID_def DB_STALE_def)

lemma sample_db_ordered: "db_ordered (Cmp_memn byte_diff) (Some sample_tree)"
  using sample_ordered sign_law_difference by (simp add: db_ordered_def string_cmp_def)

lemma sample_all: "all_entries sample_txn (Some sample_tree) = [([1], [7]), ([2], [8]), ([5], [9, 9])]"
  by (simp add: all_entries_def sample_entries)

lemma sample_cursor:
  obtains mc where "mdb_cursor_init None sample_txn 1 = Inr mc" "cursor_ok mc 1 (Some sample_tree)" "mc_xcursor mc = None" "tc_txn mc = sample_txn"
    "md_cmp (tc_dbx mc) = Cmp_memn byte_diff"
  using cursor_init_base [of sample_txn 1 1 "Some sample_tree" None] sample_db_ok sample_fields by (auto simp: cursor_ok_def has_flag_def)

theorem mdb_cursor_scan_witness:
  "ebind (mdb_cursor_init None sample_txn 1) (scan MDB_NEXT 4) = Inr (MDB_NOTFOUND, [([1], [7]), ([2], [8]), ([5], [9, 9])]) \<and>
   ebind (mdb_cursor_init None sample_txn 1) (scan MDB_PREV 4) = Inr (MDB_NOTFOUND, [([5], [9, 9]), ([2], [8]), ([1], [7])])"
  using mdb_cursor_scan [of sample_txn 1 1 "Some sample_tree" 4 None] sample_db_ok sample_fields sample_all by simp

theorem mdb_get_correct_witness:
  "\<forall>junk. mdb_get junk sample_txn 1 (Some [2]) (Some []) = Inr (0, sample_txn, Some [8]) \<and>
     mdb_get junk sample_txn 1 (Some [3]) (Some []) = Inr (MDB_NOTFOUND, sample_txn, None)"
  using mdb_get_correct [of sample_txn 1 1 "Some sample_tree" "[2]" _ "[]"] mdb_get_correct [of sample_txn 1 1 "Some sample_tree" "[3]" _ "[]"]
    sample_db_ok sample_fields sample_all sample_db_ordered by simp

theorem mdb_cursor_get_set_witness:
  "\<exists>mc mc'. mdb_cursor_init None sample_txn 1 = Inr mc \<and> mdb_cursor_get (Some mc) (Some [3]) (Some []) MDB_SET_RANGE = Inr (0, Some mc', Some [5], Some [9, 9])"
proof -
  obtain mc where mc: "mdb_cursor_init None sample_txn 1 = Inr mc" "cursor_ok mc 1 (Some sample_tree)" "mc_xcursor mc = None" "tc_txn mc = sample_txn"
    "md_cmp (tc_dbx mc) = Cmp_memn byte_diff" by (rule sample_cursor)
  have "lookup_result (Cmp_memn byte_diff) MDB_SET_RANGE [3] [([1], [7]), ([2], [8]), ([5], [9, 9])] = (0, Some [5], Some [9, 9])"
    by (simp add: lookup_result_def sample_below mdb_cmp_memn_def opt_if_def)
  then show ?thesis
    using mdb_cursor_get_set [OF mc(2,3), of "[3]" MDB_SET_RANGE "[]"] mc(1,4,5) sample_db_ordered sample_all by auto
qed

theorem mdb_range_scan_witness:
  "ebind (mdb_cursor_init None sample_txn 1) (range_scan 3 [2]) = Inr (MDB_NOTFOUND, [([2], [8]), ([5], [9, 9])])"
proof -
  obtain mc where mc: "mdb_cursor_init None sample_txn 1 = Inr mc" "cursor_ok mc 1 (Some sample_tree)" "mc_xcursor mc = None" "tc_txn mc = sample_txn"
    "md_cmp (tc_dbx mc) = Cmp_memn byte_diff" by (rule sample_cursor)
  show ?thesis
    using mdb_range_scan [OF mc(2,3), of "[2]" 3] mc(1,4,5) sample_db_ordered sample_all by (simp add: sample_below mdb_cmp_memn_def)
qed

theorem mdb_cursor_session_witness:
  "\<exists>rcs mc'. ebind (mdb_cursor_init None sample_txn 1) (run_ops [(MDB_LAST, [], []), (MDB_NEXT, [], []), (MDB_SET, [2], []), (MDB_PREV_DUP, [], [])]) = Inr (rcs, mc') \<and>
     length rcs = 4"
  using mdb_cursor_session [of sample_txn 1 1 "Some sample_tree" "[(MDB_LAST, [], []), (MDB_NEXT, [], []), (MDB_SET, [2], []), (MDB_PREV_DUP, [], [])]" None]
    sample_db_ok sample_fields sample_db_ordered by auto

definition dup_cursor :: mdb_mcursor where
  "dup_cursor = \<lparr>tc_txn = sample_txn, tc_dbi = 1, tc_db = sample_db\<lparr>md_flags := MDB_DUPSORT\<rparr>, tc_dbx = mt_dbxs sample_txn ! 1, tc_dbflag = DB_VALID,
     tc_snum = 1, tc_top = 0, tc_flags = C_INITIALIZED, tc_pg = [Some sample_leaf1], tc_ki = [1],
     mc_xcursor = Some \<lparr>tc_txn = sample_txn, tc_dbi = 1, tc_db = sample_db, tc_dbx = mt_dbxs sample_txn ! 1, tc_dbflag = DB_VALID,
       tc_snum = 0, tc_top = 0, tc_flags = C_SUB, tc_pg = [None], tc_ki = [0]\<rparr>\<rparr>"

theorem mdb_cursor_prev_dup_leaves_key_witness:
  "(\<exists>mc'. mdb_cursor_next dup_cursor True True MDB_NEXT_DUP = Inr (MDB_NOTFOUND, mc', None, None)) \<and>
   (\<exists>mc'. mdb_cursor_prev dup_cursor True True MDB_PREV_DUP = Inr (0, mc', Some [1], Some [7]))"
proof -
  have fl: "has_flag C_INITIALIZED dup_cursor" "\<not> has_flag C_EOF dup_cursor" "md_flags (tc_db dup_cursor) AND MDB_DUPSORT \<noteq> 0" "mc_xcursor dup_cursor \<noteq> None"
    by (simp_all add: dup_cursor_def has_flag_def C_INITIALIZED_def C_EOF_def MDB_DUPSORT_def)
  have top: "top_page dup_cursor = Inr sample_leaf1" "top_ki dup_cursor = Inr 1"
    by (simp_all add: dup_cursor_def top_page_def page_at_def top_ki_def of_arr_def aget_def)
  have ok: "tree_ok sample_txn 0 (PLeaf sample_leaf1)" using sample_nodes by simp
  have node: "mp_ptrs (mp_mem sample_leaf1) 1 = Inr 44" "node_flag (mp_mem sample_leaf1) 44 F_DUPDATA = Inr False"
    using leaf_node(1,3) [OF ok, of 1] by (simp_all add: width_def)
  let ?mc = "clr_flags C_EOF (dup_cursor\<lparr>tc_ki := [0]\<rparr>)"
  have "cursor_item main_ops (dup_last main_ops) ?mc sample_leaf1 True True = Inr (0, ?mc, Some [1], Some [7])"
  proof -
    have "tc_txn ?mc = sample_txn" "top_ki ?mc = Inr 0" by (simp_all add: dup_cursor_def top_ki_def of_arr_def aget_def)
    moreover have "node_entry sample_txn sample_leaf1 0 = ([1], [7])" using sample_entries by (simp add: sample_tree_def upto2)
    ultimately show ?thesis using cursor_item_leaf [of ?mc "PLeaf sample_leaf1" 0 main_ops "dup_last main_ops" True True] ok by (simp add: width_def opt_if_def)
  qed
  then have "mdb_cursor_prev dup_cursor True True MDB_PREV = Inr (0, ?mc, Some [1], Some [7])"
    using fl top node by (simp add: mdb_cursor_prev_def cursor_prev_def prev_dup_def) (simp add: dup_cursor_def set_ki_def of_arr_def aset_def)
  then show ?thesis
    using mdb_cursor_prev_dup_leaves_key [OF fl(3,1,2,4) top node, of True True] by auto
qed

text \<open>A cursor on a branch page whose children are the page itself.\<close>

definition loop_cursor :: mdb_mcursor where
  "loop_cursor = dup_cursor\<lparr>tc_txn := sample_txn\<lparr>me_map := \<lambda>_. sample_root\<rparr>, tc_pg := Some sample_root # replicate 31 None, tc_ki := replicate 32 0\<rparr>"

theorem mdb_page_search_root_ends_witness:
  "mdb_page_search_root 40 (\<lambda>_. Inl No_End) loop_cursor None MDB_PS_FIRST = mdb_page_search_root (CURSOR_STACK + 1) (\<lambda>_. Inl No_End) loop_cursor None MDB_PS_FIRST \<and>
   mdb_page_search_root 40 (\<lambda>_. Inl No_End) loop_cursor None MDB_PS_FIRST \<noteq> Inl No_End"
  by (rule mdb_page_search_root_ends) (simp_all add: ps_flags(1) CURSOR_STACK_def)

end
