(* ===== verification/Mdb_Resize.thy ===== *)
theory Mdb_Resize
  imports Mdb_Node
begin

text \<open>
  The operations that change the size of a node in place: \<open>mdb_update_key\<close>, which replaces the key of a branch node, and
  what it shares with \<open>mdb_node_shrink\<close>: the nodes below the one that is resized move together with its beginning, its
  end and the nodes above it stay.
\<close>

subsection \<open>The operations\<close>

text \<open>\<open>k\<close> iterations are left of \<open>for (i = 0; i < numkeys; i++) if (mp->mp_ptrs[i] <= ptr) mp->mp_ptrs[i] += d\<close>\<close>

fun ptrs_shift :: "nat \<Rightarrow> nat \<Rightarrow> nat \<Rightarrow> int \<Rightarrow> byte list \<Rightarrow> mdb_fault + byte list" where
  "ptrs_shift 0 i ptr d m = Inr m"
| "ptrs_shift (Suc k) i ptr d m = ebind (mp_ptrs m i) (\<lambda>v.
     ebind (if v \<le> ptr then set_ptr m i (indx_t (int v + d)) else Inr m) (ptrs_shift k (Suc i) ptr d))"

text \<open>
  The loop, the move of \<open>len\<close> bytes from \<open>mp_upper\<close> on, and the new \<open>mp_upper\<close>. A negative length is a huge one, and a target in front of the page
  is outside of it.
\<close>

definition shift_low :: "mdb_page \<Rightarrow> nat \<Rightarrow> int \<Rightarrow> int \<Rightarrow> mdb_fault + mdb_page" where
  "shift_low mp ptr d len = ebind (ptrs_shift (NUMKEYS mp) 0 ptr d (mp_mem mp)) (\<lambda>m.
     if len < 0 \<or> int (mp_upper mp) + d < 0 then Inl Page_Bounds
     else ebind (memmove m (nat (int (mp_upper mp) + d)) (mp_upper mp) (nat len)) (\<lambda>m.
       Inr (mp\<lparr>mp_mem := m, mp_upper := indx_t (int (mp_upper mp) + d)\<rparr>)))"

text \<open>
  \<open>mdb_page_split\<close>, which is called with the cursor, the key and the page number when the page is too full for the new key, is an argument. The
  sizes of keys are less than \<open>2 ^ 31\<close>, so that they do not change when they are converted to \<open>int\<close>.
\<close>

definition mdb_update_key ::
  "(mdb_cursor \<Rightarrow> mdb_val \<Rightarrow> nat \<Rightarrow> mdb_fault + int \<times> mdb_cursor) \<Rightarrow> mdb_cursor \<Rightarrow> mdb_val \<Rightarrow> mdb_fault + int \<times> mdb_cursor" where
  "mdb_update_key page_split mc key = (let mp = mc_pg mc; indx = mc_ki mc in
     ebind (mp_ptrs (mp_mem mp) indx) (\<lambda>ptr. ebind (mn_ksize (mp_mem mp) ptr) (\<lambda>oks.
     let delta = int (EVEN (mv_size key)) - int (EVEN oks) in
     if delta > 0 \<and> int (SIZELEFT mp) < delta then
       ebind (NODEPGNO (mp_mem mp) ptr) (\<lambda>pgno. ebind (mdb_node_del mc 0) (\<lambda>mc. page_split mc key pgno))
     else
       ebind (if delta \<noteq> 0 then shift_low mp ptr (- delta) (int ptr - int (mp_upper mp) + int NODESIZE) else Inr mp) (\<lambda>mp.
       ebind (mp_ptrs (mp_mem mp) indx) (\<lambda>node. ebind (mn_ksize (mp_mem mp) node) (\<lambda>ks.
       ebind (if ks \<noteq> mv_size key then wr16 (mp_mem mp) (node + 6) (mv_size key mod 2 ^ 16) else Inr (mp_mem mp)) (\<lambda>m.
       ebind (if mv_size key \<noteq> 0 then ebind (val_bytes key (mv_size key)) (wr_bytes m (node + NODESIZE)) else Inr m) (\<lambda>m.
       Inr (0, mc\<lparr>mc_pg := mp\<lparr>mp_mem := m\<rparr>\<rparr>))))))))) "

subsection \<open>Resizing a node\<close>

lemma slots_resize:
  assumes ok: "slots_ok leaf m n upper" and i: "indx < n" and len: "length m' = length m" and ptr: "ptr = slot m indx"
    and new: "ptr' + node_len leaf m' ptr' = ptr + node_len leaf m ptr" "even ptr'" and upper: "upper' + ptr = upper + ptr'"
    and slots: "\<And>j. j < n \<Longrightarrow> slot m' j = (if slot m j \<le> ptr then slot m j + ptr' - ptr else slot m j)"
    and moved: "\<And>k. upper \<le> k \<Longrightarrow> k < ptr \<Longrightarrow> m' ! (k + ptr' - ptr) = m ! k"
    and same: "\<And>k. ptr + node_len leaf m ptr \<le> k \<Longrightarrow> k < length m \<Longrightarrow> m' ! k = m ! k"
  shows "slots_ok leaf m' n upper'" and "nodes_of leaf m' n = (nodes_of leaf m n)[indx := node_bytes leaf m' ptr']"
proof -
  define sh where "sh s = (if s \<le> ptr then s + ptr' - ptr else s)" for s
  have sh: "slot m' j = sh (slot m j)" if "j < n" for j using slots [OF that] by (simp add: sh_def)
  note lim = slots_okD [OF ok i, folded ptr]
  have at: "slot m' indx = ptr'" using sh [OF i] by (simp add: sh_def ptr)
  have apart: "slot m j < ptr \<and> slot m j + node_len leaf m (slot m j) \<le> ptr \<or> ptr + node_len leaf m ptr \<le> slot m j \<and> ptr < slot m j"
    if "j < n" "j \<noteq> indx" for j
    using slots_okD(4) [OF ok that(1) i that(2)] node_len_ge [of leaf m "slot m j"] node_len_ge [of leaf m ptr] by (auto simp: ptr NODESIZE_def)
  have keep: "node_len leaf m' (sh (slot m j)) = node_len leaf m (slot m j)" "node_bytes leaf m' (sh (slot m j)) = node_bytes leaf m (slot m j)"
    and bound: "sh (slot m j) + node_len leaf m (slot m j) \<le> length m'" "upper' \<le> sh (slot m j)" if j: "j < n" "j \<noteq> indx" for j
  proof -
    note lj = slots_okD(1,3) [OF ok j(1)]
    have bytes: "m' ! (sh (slot m j) + k) = m ! (slot m j + k)" if "k < node_len leaf m (slot m j)" for k
    proof (cases "slot m j < ptr")
      case True
      then show ?thesis using moved [of "slot m j + k"] apart [OF j] lj that upper by (simp add: sh_def algebra_simps)
    next
      case False
      then show ?thesis using same [of "slot m j + k"] apart [OF j] lj that by (simp add: sh_def)
    qed
    show b: "sh (slot m j) + node_len leaf m (slot m j) \<le> length m'" using apart [OF j] lj lim(3) new(1) len upper by (auto simp: sh_def)
    show "upper' \<le> sh (slot m j)" using apart [OF j] lj upper new(1) lim(1) by (auto simp: sh_def)
    show "node_len leaf m' (sh (slot m j)) = node_len leaf m (slot m j)" "node_bytes leaf m' (sh (slot m j)) = node_bytes leaf m (slot m j)"
      using bytes lj b by (auto intro!: node_bytes_cong)
  qed
  have ev: "even (sh (slot m j))" if "j < n" for j
    using slots_okD(1,2) [OF ok that] new(2) lim(2) upper by (auto simp: sh_def)
  have sep: "slot m' j + node_len leaf m' (slot m' j) \<le> slot m' k \<or> slot m' k + node_len leaf m' (slot m' k) \<le> slot m' j"
    if jk: "j < n" "k < n" "j \<noteq> k" for j k
  proof (cases "j = indx \<or> k = indx")
    case True
    have "sh (slot m x) + node_len leaf m (slot m x) \<le> ptr' \<or> ptr' + node_len leaf m' ptr' \<le> sh (slot m x)" if "x < n" "x \<noteq> indx" for x
      using apart [OF that] slots_okD(1) [OF ok that(1)] upper new(1) by (auto simp: sh_def)
    then show ?thesis using True jk at sh keep(1) by metis
  next
    case False
    then have "sh (slot m j) + node_len leaf m (slot m j) \<le> sh (slot m k) \<or> sh (slot m k) + node_len leaf m (slot m k) \<le> sh (slot m j)"
      using slots_okD(4) [OF ok jk] apart [of j] apart [of k] slots_okD(1) [OF ok jk(1)] slots_okD(1) [OF ok jk(2)] upper new(1) jk
      by (auto simp: sh_def)
    then show ?thesis using False jk sh keep(1) by simp
  qed
  show "slots_ok leaf m' n upper'"
    unfolding slots_ok_def
  proof (intro conjI allI impI)
    fix j assume j: "j < n"
    show "upper' \<le> slot m' j" "even (slot m' j)" "slot m' j + node_len leaf m' (slot m' j) \<le> length m'"
      using ev [OF j] sh [OF j] bound [OF j] keep [OF j] at new(1) lim(1,3) upper len by (cases "j = indx"; simp)+
  qed (rule sep)
  show "nodes_of leaf m' n = (nodes_of leaf m n)[indx := node_bytes leaf m' ptr']"
  proof (rule nth_equalityI)
    fix j assume "j < length (nodes_of leaf m' n)"
    then have "j < n" by (simp add: nodes_of_def)
    then show "nodes_of leaf m' n ! j = (nodes_of leaf m n)[indx := node_bytes leaf m' ptr'] ! j"
      using at sh keep(2) by (cases "j = indx") (simp_all add: nodes_of_def)
  qed (simp add: nodes_of_def)
qed

lemma ptrs_shift_ok:
  assumes "PAGEHDRSZ + 2 * (i + k) \<le> length m"
  shows "\<exists>m'. ptrs_shift k i ptr d m = Inr m' \<and> length m' = length m \<and>
    (\<forall>j. PAGEHDRSZ + 2 * j + 1 < length m \<longrightarrow> slot m' j = (if i \<le> j \<and> j < i + k \<and> slot m j \<le> ptr then indx_t (int (slot m j) + d) else slot m j)) \<and>
    (\<forall>x<length m. PAGEHDRSZ + 2 * (i + k) \<le> x \<longrightarrow> m' ! x = m ! x)"
  using assms
proof (induction k arbitrary: i m)
  case (Suc k)
  define m1 where "m1 = (if slot m i \<le> ptr then patch m (PAGEHDRSZ + 2 * i) (b16 (indx_t (int (slot m i) + d))) else m)"
  have inb: "PAGEHDRSZ + 2 * i + 1 < length m" using Suc.prems by simp
  then have run: "ptrs_shift (Suc k) i ptr d m = ptrs_shift k (Suc i) ptr d m1" by (simp add: page_simps m1_def)
  have len: "length m1 = length m" by (simp add: m1_def)
  have small: "indx_t x < 65536" for x by (simp add: indx_t_def nat_less_iff)
  have sl: "slot m1 j = (if j = i \<and> slot m i \<le> ptr then indx_t (int (slot m i) + d) else slot m j)" if "PAGEHDRSZ + 2 * j + 1 < length m" for j
    using slot_set [OF inb that small, of "int (slot m i) + d"] by (auto simp: m1_def)
  obtain m' where m': "ptrs_shift k (Suc i) ptr d m1 = Inr m'" "length m' = length m1"
    "\<And>j. PAGEHDRSZ + 2 * j + 1 < length m1 \<Longrightarrow>
      slot m' j = (if Suc i \<le> j \<and> j < Suc i + k \<and> slot m1 j \<le> ptr then indx_t (int (slot m1 j) + d) else slot m1 j)"
    "\<And>x. x < length m1 \<Longrightarrow> PAGEHDRSZ + 2 * (Suc i + k) \<le> x \<Longrightarrow> m' ! x = m1 ! x"
    using Suc.IH [of "Suc i" m1] Suc.prems len by auto
  have "slot m' j = (if i \<le> j \<and> j < i + Suc k \<and> slot m j \<le> ptr then indx_t (int (slot m j) + d) else slot m j)"
    if "PAGEHDRSZ + 2 * j + 1 < length m" for j
    using m'(3) [of j] sl [OF that] that len by (cases "j = i") auto
  moreover have "m' ! x = m ! x" if "x < length m" "PAGEHDRSZ + 2 * (i + Suc k) \<le> x" for x
    using m'(4) [of x] that len by (simp add: m1_def nth_patch)
  ultimately show ?case using run m'(1,2) len by auto
qed simp

lemma resize_core:
  assumes wf: "wf_page psize p" and indx: "indx < NUMKEYS p" and ptr: "ptr = slot (mp_mem p) indx"
    and size: "ptr' + node_len (IS_LEAF p) node 0 = ptr + node_len (IS_LEAF p) (mp_mem p) ptr"
    and fits: "8 \<le> length node" "length node \<le> node_len (IS_LEAF p) node 0"
    and upper: "upper' + ptr = mp_upper p + ptr'" "mp_lower p \<le> upper'" and len: "length m' = psize"
    and slots: "\<And>j. j < NUMKEYS p \<Longrightarrow> slot m' j = (if slot (mp_mem p) j \<le> ptr then slot (mp_mem p) j + ptr' - ptr else slot (mp_mem p) j)"
    and moved: "\<And>k. mp_upper p \<le> k \<Longrightarrow> k < ptr \<Longrightarrow> m' ! (k + ptr' - ptr) = mp_mem p ! k"
    and same: "\<And>k. ptr + node_len (IS_LEAF p) (mp_mem p) ptr \<le> k \<Longrightarrow> k < psize \<Longrightarrow> m' ! k = mp_mem p ! k"
    and at: "take (length node) (drop ptr' m') = node"
  shows "\<exists>pad. wf_page psize (p\<lparr>mp_mem := m', mp_upper := upper'\<rparr>) \<and> length pad = node_len (IS_LEAF p) node 0 - length node \<and>
    page_nodes (p\<lparr>mp_mem := m', mp_upper := upper'\<rparr>) = (page_nodes p)[indx := node @ pad]"
proof -
  let ?m = "mp_mem p" and ?n = "NUMKEYS p" and ?leaf = "IS_LEAF p" and ?p' = "p\<lparr>mp_mem := m', mp_upper := upper'\<rparr>"
  let ?L = "node_len ?leaf node 0"
  have wf': "length ?m = psize" "psize \<le> 0x8000" "even psize" "mp_upper p \<le> psize" "even (mp_upper p)" and ok: "slots_ok ?leaf ?m ?n (mp_upper p)"
    using wf by (auto simp: wf_page_def)
  note lim = slots_okD(1-3) [OF ok indx, folded ptr]
  have end': "ptr' + ?L \<le> length m'" using lim(3) size len wf'(1) by simp
  have nth: "m' ! (ptr' + k) = node ! k" if "k < length node" for k
    using arg_cong [OF at, of "\<lambda>xs. xs ! k"] that fits end' by simp
  have nl: "node_len ?leaf m' ptr' = ?L" using node_len_cong [of m' ptr' node 0 ?leaf] nth fits(1) by simp
  have ev: "even ptr'"
    using size lim(2) even_node_len [of ?leaf node 0] even_node_len [of ?leaf ?m ptr] by presburger
  have new: "ptr' + node_len ?leaf m' ptr' = ptr + node_len ?leaf ?m ptr" using nl size by simp
  have lm: "length m' = length ?m" using len wf'(1) by simp
  have rs: "slots_ok ?leaf m' ?n upper'" "nodes_of ?leaf m' ?n = (nodes_of ?leaf ?m ?n)[indx := node_bytes ?leaf m' ptr']"
    by (rule slots_resize [OF ok indx lm ptr new ev upper(1) slots moved same]; simp add: wf'(1))+
  have nk: "NUMKEYS ?p' = ?n" by (simp add: NUMKEYS_def)
  have "even upper'" using upper(1) wf'(5) ev lim(2) by presburger
  moreover have "upper' \<le> psize" using upper(1) lim(1,3) size wf'(1) by linarith
  ultimately have "wf_page psize ?p'" using wf rs(1) nk len upper(2) by (simp add: wf_page_def)
  moreover have "node_bytes ?leaf m' ptr' = node @ take (?L - length node) (drop (ptr' + length node) m')"
    unfolding node_bytes_def nl using fits(2) at take_add [of "length node" "?L - length node" "drop ptr' m'"] by (simp add: add.commute)
  ultimately show ?thesis using rs(2) nk end' fits(2) by (auto simp: page_nodes_of intro!: exI [of _ "take (?L - length node) (drop (ptr' + length node) m')"])
qed

lemma shift_low_ok:
  assumes "length (mp_mem p) \<le> 0x8000" and low: "mp_lower p = PAGEHDRSZ + 2 * NUMKEYS p" "mp_lower p \<le> mp_upper p" "mp_lower p \<le> upper'"
    and upper: "upper' + ptr = mp_upper p + ptr'" "mp_upper p \<le> ptr" and c: "ptr + c \<le> length (mp_mem p)" "ptr' + c \<le> length (mp_mem p)"
    and above: "\<And>j. j < NUMKEYS p \<Longrightarrow> mp_upper p \<le> slot (mp_mem p) j"
  shows "\<exists>m'. shift_low p ptr (int ptr' - int ptr) (int ptr - int (mp_upper p) + int c) = Inr (p\<lparr>mp_mem := m', mp_upper := upper'\<rparr>) \<and>
    length m' = length (mp_mem p) \<and>
    (\<forall>j<NUMKEYS p. slot m' j = (if slot (mp_mem p) j \<le> ptr then slot (mp_mem p) j + ptr' - ptr else slot (mp_mem p) j)) \<and>
    (\<forall>k. mp_upper p \<le> k \<and> k < ptr + c \<longrightarrow> m' ! (k + ptr' - ptr) = mp_mem p ! k) \<and>
    (\<forall>k<length (mp_mem p). ptr' + c \<le> k \<and> mp_lower p \<le> k \<longrightarrow> m' ! k = mp_mem p ! k)"
proof -
  let ?m = "mp_mem p" and ?n = "NUMKEYS p" and ?up = "mp_upper p" and ?d = "int ptr' - int ptr"
  obtain m1 where m1: "ptrs_shift ?n 0 ptr ?d ?m = Inr m1" "length m1 = length ?m"
    "\<And>j. PAGEHDRSZ + 2 * j + 1 < length ?m \<Longrightarrow> slot m1 j = (if j < ?n \<and> slot ?m j \<le> ptr then indx_t (int (slot ?m j) + ?d) else slot ?m j)"
    "\<And>x. x < length ?m \<Longrightarrow> PAGEHDRSZ + 2 * ?n \<le> x \<Longrightarrow> m1 ! x = ?m ! x"
    using ptrs_shift_ok [of 0 ?n ?m ptr ?d] low(1,2) upper(2) c(1) by auto
  define m' where "m' = patch m1 upper' (take (ptr - ?up + c) (drop ?up m1))"
  have to: "nat (int ?up + ?d) = upper'" "nat (int ptr - int ?up + int c) = ptr - ?up + c" "0 \<le> int ?up + ?d" "0 \<le> int ptr - int ?up + int c"
    using upper by (simp_all add: nat_add_distrib nat_diff_distrib)
  have "memmove m1 upper' ?up (ptr - ?up + c) = Inr m'"
    unfolding m'_def by (rule memmove_in) (use upper c m1(2) in auto)
  moreover have "indx_t (int ?up + ?d) = upper'" using upper c assms(1) to(1) by (simp add: indx_t_small)
  ultimately have run: "shift_low p ptr ?d (int ptr - int ?up + int c) = Inr (p\<lparr>mp_mem := m', mp_upper := upper'\<rparr>)"
    using m1(1) to by (simp add: shift_low_def)
  have lm: "length (take (ptr - ?up + c) (drop ?up m1)) = ptr - ?up + c" using m1(2) c upper(2) by simp
  have "slot m' j = (if slot ?m j \<le> ptr then slot ?m j + ptr' - ptr else slot ?m j)" if j: "j < ?n" for j
  proof -
    have inb: "PAGEHDRSZ + 2 * j + 1 < length ?m" using j low upper(2) c(1) by simp
    have "slot m' j = slot m1 j"
      unfolding m'_def slot_def by (rule le16_patch_out) (use j low inb m1(2) in auto)
    moreover have "indx_t (int (slot ?m j) + ?d) = slot ?m j + ptr' - ptr" if "slot ?m j \<le> ptr"
    proof -
      have "int (slot ?m j) + ?d = int (slot ?m j + ptr' - ptr)" using above [OF j] upper by linarith
      moreover have "slot ?m j + ptr' - ptr < 65536" using that c(2) assms(1) by linarith
      ultimately show ?thesis by (simp add: indx_t_small)
    qed
    ultimately show ?thesis using m1(3) [OF inb] j by simp
  qed
  moreover have "m' ! (k + ptr' - ptr) = ?m ! k" if k: "?up \<le> k" "k < ptr + c" for k
  proof -
    obtain t where t: "k = ?up + t" using le_Suc_ex [OF k(1)] by blast
    then have e: "k + ptr' - ptr = upper' + t" using upper by linarith
    have "upper' + t < length m1" using k t upper c m1(2) by linarith
    moreover have "t < ptr - ?up + c" using k t upper by linarith
    moreover have "m1 ! k = ?m ! k" by (rule m1(4)) (use k c low in linarith)+
    ultimately show ?thesis unfolding e using t lm by (simp add: m'_def nth_patch)
  qed
  moreover have "m' ! k = ?m ! k" if "k < length ?m" "ptr' + c \<le> k" "mp_lower p \<le> k" for k
  proof -
    have "upper' + (ptr - ?up + c) \<le> k" using that upper by linarith
    then show ?thesis using that low(1) lm m1(2) m1(4) [of k] by (simp add: m'_def nth_patch)
  qed
  moreover have "length m' = length ?m" by (simp add: m'_def m1(2))
  ultimately show ?thesis using run by blast
qed

subsection \<open>The key of a branch node\<close>

text \<open>The page number in the bytes of a branch node.\<close>

definition node_pgno :: "byte list \<Rightarrow> nat" where
  "node_pgno b = le16 b 0 + 2 ^ 16 * le16 b 2 + 2 ^ 32 * le16 b 4"

lemma b16_le16: "b16 (le16 m k) = [m ! k, m ! (k + 1)]"
proof -
  have zero: "(256 :: byte) = 0" by simp
  have "word_of_nat (unat x + 256 * y) = x" for x :: byte and y by (simp add: zero)
  moreover have "unat x < 256" for x :: byte
  proof -
    have "unat x < 2 ^ LENGTH(8)" by (rule unsigned_less)
    then show ?thesis by simp
  qed
  then have "(unat x + 256 * unat z) div 256 = unat z" for x z :: byte by simp
  ultimately show ?thesis by (simp add: b16_def le16_def zero)
qed

lemma branch_node_hdr:
  assumes "length k < 65536"
  shows "branch_node (node_pgno b) k = [b ! 0, b ! 1, b ! 2, b ! 3, b ! 4, b ! 5] @ b16 (length k) @ k"
proof -
  define q where "q = le16 b 2 + 65536 * le16 b 4"
  have e: "node_pgno b = le16 b 0 + 65536 * q" by (simp add: node_pgno_def q_def)
  have "n div 2 ^ 32 = n div 65536 div 65536" for n :: nat by (simp add: div_mult2_eq [symmetric])
  moreover have "node_pgno b div 65536 = q" unfolding e using le16_less [of b 0] by simp
  moreover have "q mod 65536 = le16 b 2" "q div 65536 mod 65536 = le16 b 4" using le16_less [of b 2] le16_less [of b 4] by (simp_all add: q_def)
  ultimately have "node_pgno b mod 2 ^ 16 = le16 b 0" "node_pgno b div 2 ^ 16 mod 2 ^ 16 = le16 b 2" "node_pgno b div 2 ^ 32 mod 2 ^ 16 = le16 b 4"
    using le16_less [of b 0] by (simp_all add: e)
  then show ?thesis
    using b16_le16 [of b 0] b16_le16 [of b 2] b16_le16 [of b 4] by (simp add: branch_node_def node_hdr_def)
qed

lemma patch_le16: "a + 1 < length m \<Longrightarrow> patch m a (b16 (le16 m a)) = m"
  by (rule nth_equalityI) (auto simp: nth_patch b16_le16 nth_Cons' less_Suc_eq_le le_less)

lemma patch_empty [simp]: "patch m a [] = m"
  by (rule nth_equalityI) (auto simp: nth_patch)

lemma EVEN_8: "EVEN (8 + n) = 8 + EVEN n"
  unfolding EVEN_def by presburger

lemma shift_key:
  assumes wf: "wf_page psize p" and leaf: "\<not> IS_LEAF p" and indx: "indx < NUMKEYS p" and ptr: "ptr = slot (mp_mem p) indx"
    and oks: "oks = le16 (mp_mem p) (ptr + 6)" and room: "EVEN ks \<le> SIZELEFT p + EVEN oks"
    and ptr': "ptr' = ptr + EVEN oks - EVEN ks" and upper': "upper' = mp_upper p + EVEN oks - EVEN ks"
  shows "\<exists>m'. (if int (EVEN ks) - int (EVEN oks) \<noteq> 0
       then shift_low p ptr (- (int (EVEN ks) - int (EVEN oks))) (int ptr - int (mp_upper p) + int NODESIZE) else Inr p) = Inr (p\<lparr>mp_mem := m', mp_upper := upper'\<rparr>) \<and>
    length m' = psize \<and> (\<forall>j<NUMKEYS p. slot m' j = (if slot (mp_mem p) j \<le> ptr then slot (mp_mem p) j + ptr' - ptr else slot (mp_mem p) j)) \<and>
    (\<forall>k. mp_upper p \<le> k \<and> k < ptr + 8 \<longrightarrow> m' ! (k + ptr' - ptr) = mp_mem p ! k) \<and>
    (\<forall>k<psize. ptr' + 8 \<le> k \<and> mp_lower p \<le> k \<longrightarrow> m' ! k = mp_mem p ! k)"
proof -
  have wf': "length (mp_mem p) = psize" "psize \<le> 0x8000" "mp_lower p \<le> mp_upper p" and ok: "slots_ok False (mp_mem p) (NUMKEYS p) (mp_upper p)"
    using wf leaf by (auto simp: wf_page_def)
  note lim = slots_okD(1,3) [OF ok indx, folded ptr]
  have nl: "node_len False (mp_mem p) ptr = 8 + EVEN oks" by (simp add: node_len_def oks NODESIZE_def EVEN_8)
  have e: "int ptr' - int ptr = - (int (EVEN ks) - int (EVEN oks))" "upper' + ptr = mp_upper p + ptr'" "mp_lower p \<le> upper'"
    using room sizeleft [OF wf] lim(1) wf'(3) by (auto simp: ptr' upper')
  show ?thesis
  proof (cases "EVEN ks = EVEN oks")
    case True
    then have "ptr' = ptr" "upper' = mp_upper p" by (simp_all add: ptr' upper')
    then show ?thesis using True wf'(1) by (intro exI [of _ "mp_mem p"]) simp
  next
    case False
    have "ptr' + 8 \<le> length (mp_mem p)" using lim nl room sizeleft [OF wf] by (simp add: ptr')
    then obtain m' where "shift_low p ptr (int ptr' - int ptr) (int ptr - int (mp_upper p) + int 8) = Inr (p\<lparr>mp_mem := m', mp_upper := upper'\<rparr>)"
      "length m' = psize" "\<forall>j<NUMKEYS p. slot m' j = (if slot (mp_mem p) j \<le> ptr then slot (mp_mem p) j + ptr' - ptr else slot (mp_mem p) j)"
      "\<forall>k. mp_upper p \<le> k \<and> k < ptr + 8 \<longrightarrow> m' ! (k + ptr' - ptr) = mp_mem p ! k"
      "\<forall>k<psize. ptr' + 8 \<le> k \<and> mp_lower p \<le> k \<longrightarrow> m' ! k = mp_mem p ! k"
      using shift_low_ok [of p upper' ptr ptr' 8] wf' numkeys [OF wf] e(2,3) lim nl slots_okD(1) [OF ok] by auto
    then show ?thesis using False e(1) by (auto simp: NODESIZE_def)
  qed
qed

text \<open>The end of \<open>mdb_update_key\<close>, which writes the size and the bytes of the key.\<close>

lemma write_key:
  assumes "whole key" and "mv_size key < 65536" and "node + 8 + mv_size key \<le> length m"
  shows "ebind (mn_ksize m node) (\<lambda>ks. ebind (if ks \<noteq> mv_size key then wr16 m (node + 6) (mv_size key mod 2 ^ 16) else Inr m) (\<lambda>m.
      ebind (if mv_size key \<noteq> 0 then ebind (val_bytes key (mv_size key)) (wr_bytes m (node + NODESIZE)) else Inr m) f)) =
    f (patch m (node + 6) (b16 (mv_size key) @ mv_data key))"
proof -
  have 8: "node + 6 + length (b16 (mv_size key)) = node + 8" by simp
  have "(if le16 m (node + 6) \<noteq> mv_size key then wr16 m (node + 6) (mv_size key mod 2 ^ 16) else Inr m) = Inr (patch m (node + 6) (b16 (mv_size key)))"
    using assms(2,3) patch_le16 [of "node + 6" m] by (auto simp: wr16_in)
  then show ?thesis
    using assms patch_append [of m "node + 6" "b16 (mv_size key)" "mv_data key", unfolded 8]
    by (auto simp: mn_ksize_def rd16_in val_bytes_whole wr_bytes_in whole_def NODESIZE_def)
qed

lemma key_written:
  assumes "\<And>k. k < 6 \<Longrightarrow> m ! (a + k) = b ! k" and "length key < 65536" and "a + 8 + length key \<le> length m"
  shows "take (8 + length key) (drop a (patch m (a + 6) (b16 (length key) @ key))) = branch_node (node_pgno b) key"
proof (rule nth_equalityI)
  fix k assume "k < length (take (8 + length key) (drop a (patch m (a + 6) (b16 (length key) @ key))))"
  then have k: "k < 8 + length key" by simp
  then have "patch m (a + 6) (b16 (length key) @ key) ! (a + k) = (if k < 6 then b ! k else (b16 (length key) @ key) ! (k - 6))"
    using assms(3) assms(1) [of k] by (simp add: nth_patch)
  also have "\<dots> = branch_node (node_pgno b) key ! k"
  proof (cases "k < 6")
    case True
    then have "k = 0 \<or> k = 1 \<or> k = 2 \<or> k = 3 \<or> k = 4 \<or> k = 5" by linarith
    then show ?thesis using branch_node_hdr [OF assms(2), of b] by auto
  next
    case False
    then show ?thesis using branch_node_hdr [OF assms(2), of b] nth_append_right [of "[b ! 0, b ! 1, b ! 2, b ! 3, b ! 4, b ! 5]" k] by (simp add: numeral_eq_Suc)
  qed
  finally show "take (8 + length key) (drop a (patch m (a + 6) (b16 (length key) @ key))) ! k = branch_node (node_pgno b) key ! k"
    using k assms(3) by simp
qed (use assms(3) in \<open>simp add: branch_node_def\<close>)

lemma update_key_fits:
  assumes wf: "wf_page psize p" and p: "mc_pg mc = p" "\<not> IS_LEAF p" "mc_ki mc = indx" "indx < NUMKEYS p" and key: "whole key" "mv_size key < 65536"
    and ptr: "ptr = slot (mp_mem p) indx" and oks: "oks = le16 (mp_mem p) (ptr + 6)" and room: "EVEN (mv_size key) \<le> SIZELEFT p + EVEN oks"
  shows "\<exists>p' pad. mdb_update_key page_split mc key = Inr (0, mc\<lparr>mc_pg := p'\<rparr>) \<and> wf_page psize p' \<and> length pad \<le> 1 \<and>
    page_nodes p' = (page_nodes p)[indx := branch_node (node_pgno (page_nodes p ! indx)) (mv_data key) @ pad]"
proof -
  let ?m = "mp_mem p" and ?ks = "mv_size key" and ?b = "page_nodes p ! indx"
  define ptr' where "ptr' = ptr + EVEN oks - EVEN ?ks"
  define upper' where "upper' = mp_upper p + EVEN oks - EVEN ?ks"
  have wf': "length ?m = psize" "mp_lower p \<le> mp_upper p" and ok: "slots_ok False ?m (NUMKEYS p) (mp_upper p)" and low: "mp_lower p = PAGEHDRSZ + 2 * NUMKEYS p"
    using wf p(2) numkeys [OF wf] by (auto simp: wf_page_def)
  note lim = slots_okD(1,3) [OF ok p(4), folded ptr]
  have nl: "node_len False ?m ptr = 8 + EVEN oks" by (simp add: node_len_def oks NODESIZE_def EVEN_8)
  obtain m1 where m1: "(if int (EVEN ?ks) - int (EVEN oks) \<noteq> 0
       then shift_low p ptr (- (int (EVEN ?ks) - int (EVEN oks))) (int ptr - int (mp_upper p) + int NODESIZE) else Inr p) = Inr (p\<lparr>mp_mem := m1, mp_upper := upper'\<rparr>)"
    "length m1 = psize" "\<And>j. j < NUMKEYS p \<Longrightarrow> slot m1 j = (if slot ?m j \<le> ptr then slot ?m j + ptr' - ptr else slot ?m j)"
    "\<And>k. mp_upper p \<le> k \<Longrightarrow> k < ptr + 8 \<Longrightarrow> m1 ! (k + ptr' - ptr) = ?m ! k" "\<And>k. k < psize \<Longrightarrow> ptr' + 8 \<le> k \<Longrightarrow> mp_lower p \<le> k \<Longrightarrow> m1 ! k = ?m ! k"
    using shift_key [OF wf p(2,4) ptr oks room ptr'_def upper'_def] by blast
  have e: "ptr' + (8 + EVEN ?ks) = ptr + (8 + EVEN oks)" "upper' + ptr = mp_upper p + ptr'" "mp_lower p \<le> upper'"
    using room sizeleft [OF wf] lim(1) wf'(2) by (auto simp: ptr'_def upper'_def)
  have ks: "?ks \<le> EVEN ?ks" "EVEN ?ks \<le> ?ks + 1" and kl: "length (mv_data key) = ?ks" using key(1) by (simp_all add: EVEN_def whole_def)
  have fits: "ptr' + 8 + ?ks \<le> psize" using e(1) ks lim(2) nl wf'(1) by linarith
  define m2 where "m2 = patch m1 (ptr' + 6) (b16 ?ks @ mv_data key)"
  have "slot m1 indx = ptr'" using m1(3) [OF p(4)] by (simp add: ptr [symmetric])
  then have run: "mdb_update_key page_split mc key = Inr (0, mc\<lparr>mc_pg := p\<lparr>mp_mem := m2, mp_upper := upper'\<rparr>\<rparr>)"
    using m1(1,2) write_key [OF key, of ptr' m1 "\<lambda>m. Inr (0 :: int, mc\<lparr>mc_pg := p\<lparr>mp_upper := upper', mp_mem := m\<rparr>\<rparr>)"] fits low p lim nl wf' room
    by (simp add: mdb_update_key_def Let_def mp_ptrs_in mn_ksize_def [of ?m] rd16_in ptr [symmetric] oks [symmetric] m2_def cong: if_cong)
  define node where "node = branch_node (node_pgno ?b) (mv_data key)"
  have len: "length node = 8 + ?ks" "node_len False node 0 = 8 + EVEN ?ks"
    using node_len_branch [of "mv_data key"] key(2) kl by (simp_all add: node_def branch_node_def EVEN_8)
  have "m1 ! (ptr' + k) = ?b ! k" if "k < 6" for k
    using m1(4) [of "ptr + k"] that lim e(1) p(2,4) nl by (simp add: algebra_simps page_nodes_def node_bytes_def ptr [symmetric])
  then have at: "take (length node) (drop ptr' m2) = node"
    using key_written [of m1 ptr' ?b "mv_data key"] key(2) kl fits m1(2) unfolding m2_def len(1) by (simp add: node_def)
  have low': "ptr' + 6 \<ge> mp_lower p" using e lim(1) by linarith
  have out: "m2 ! k = m1 ! k" if "k < psize" "k < ptr' + 6 \<or> ptr' + 8 + ?ks \<le> k" for k using that m1(2) kl by (auto simp: m2_def nth_patch)
  have "\<exists>pad. wf_page psize (p\<lparr>mp_mem := m2, mp_upper := upper'\<rparr>) \<and> length pad = node_len (IS_LEAF p) node 0 - length node \<and>
      page_nodes (p\<lparr>mp_mem := m2, mp_upper := upper'\<rparr>) = (page_nodes p)[indx := node @ pad]"
  proof (rule resize_core [OF wf p(4) ptr _ _ _ e(2,3) _ _ _ _ at])
    show "slot m2 j = (if slot ?m j \<le> ptr then slot ?m j + ptr' - ptr else slot ?m j)" if "j < NUMKEYS p" for j
      using m1(3) [OF that] out low low' that fits unfolding slot_def by (subst le16_cong [of m2 _ m1]) auto
    show "m2 ! (k + ptr' - ptr) = ?m ! k" if "mp_upper p \<le> k" "k < ptr" for k
    proof -
      have "k + ptr' - ptr < psize" "k + ptr' - ptr < ptr' + 6" using that fits by linarith+
      then show ?thesis using m1(4) [of k] out [of "k + ptr' - ptr"] that by simp
    qed
    show "m2 ! k = ?m ! k" if "ptr + node_len (IS_LEAF p) ?m ptr \<le> k" "k < psize" for k
      using m1(5) [of k] out [of k] that e(1) nl p(2) ks lim(1) wf'(2) by simp
  qed (use len nl e(1) p(2) ks m1(2) in \<open>simp_all add: m2_def\<close>)
  then obtain pad where pad: "wf_page psize (p\<lparr>mp_mem := m2, mp_upper := upper'\<rparr>)" "length pad = node_len (IS_LEAF p) node 0 - length node"
      "page_nodes (p\<lparr>mp_mem := m2, mp_upper := upper'\<rparr>) = (page_nodes p)[indx := node @ pad]" by blast
  have "length pad \<le> 1" using pad(2) len ks p(2) by simp
  then show ?thesis using run pad(1,3) by (intro exI conjI) (assumption | simp add: node_def)+
qed

text \<open>
  C25. \<open>mdb_update_key\<close> replaces the key of a node of a branch page: the node keeps its page number and gets the new key, whether that is longer or
  shorter, all other nodes keep their contents and their order although they move in the page, and the page stays well-formed. When the
  longer key does not fit, the node is removed, and the page is split with the new key and the page number of the node.
\<close>

theorem mdb_update_key_correct:
  assumes "wf_page psize (mc_pg mc)" and "\<not> IS_LEAF (mc_pg mc)" and "mc_ki mc < NUMKEYS (mc_pg mc)" and "whole key" and "mv_size key < 65536"
  shows "if 8 + EVEN (mv_size key) \<le> SIZELEFT (mc_pg mc) + length (page_nodes (mc_pg mc) ! mc_ki mc)
    then \<exists>p' pad. mdb_update_key page_split mc key = Inr (0, mc\<lparr>mc_pg := p'\<rparr>) \<and> wf_page psize p' \<and> length pad \<le> 1 \<and>
      page_nodes p' = (page_nodes (mc_pg mc))[mc_ki mc := branch_node (node_pgno (page_nodes (mc_pg mc) ! mc_ki mc)) (mv_data key) @ pad]
    else \<exists>p'. mdb_update_key page_split mc key = page_split (mc\<lparr>mc_pg := p'\<rparr>) key (node_pgno (page_nodes (mc_pg mc) ! mc_ki mc)) \<and> wf_page psize p' \<and>
      page_nodes p' = take (mc_ki mc) (page_nodes (mc_pg mc)) @ drop (Suc (mc_ki mc)) (page_nodes (mc_pg mc))"
proof -
  let ?p = "mc_pg mc" and ?m = "mp_mem (mc_pg mc)" and ?i = "mc_ki mc"
  define ptr where "ptr = slot ?m ?i"
  define oks where "oks = le16 ?m (ptr + 6)"
  have wf: "length ?m = psize" and ok: "slots_ok False ?m (NUMKEYS ?p) (mp_upper ?p)" and low: "mp_lower ?p = PAGEHDRSZ + 2 * NUMKEYS ?p" "mp_lower ?p \<le> mp_upper ?p"
    using assms(1,2) numkeys [OF assms(1)] by (auto simp: wf_page_def)
  note lim = slots_okD(1,3) [OF ok assms(3), folded ptr_def]
  have nl: "node_len False ?m ptr = 8 + EVEN oks" by (simp add: node_len_def oks_def NODESIZE_def EVEN_8)
  have b: "page_nodes ?p ! ?i = take (8 + EVEN oks) (drop ptr ?m)"
    using assms(2,3) nl by (simp add: page_nodes_def node_bytes_def ptr_def [symmetric])
  have len: "length (page_nodes ?p ! ?i) = 8 + EVEN oks" using b lim(2) nl by simp
  have pgno: "NODEPGNO ?m ptr = Inr (node_pgno (page_nodes ?p ! ?i))"
  proof -
    have "le16 (page_nodes ?p ! ?i) k = le16 ?m (ptr + k)" if "k \<le> 6" for k
      unfolding b by (rule le16_cong) (use that lim(2) nl in simp_all)
    then show ?thesis using lim(2) nl by (simp add: NODEPGNO_def mn_lo_def mn_hi_def mn_flags_def rd16_in node_pgno_def del: add_2_eq_Suc')
  qed
  show ?thesis
  proof (cases "EVEN (mv_size key) \<le> SIZELEFT ?p + EVEN oks")
    case True
    then show ?thesis
      using update_key_fits [OF assms(1) refl assms(2) refl assms(3-5) ptr_def oks_def] by (simp add: len)
  next
    case False
    have "mdb_update_key page_split mc key = ebind (mdb_node_del mc 0) (\<lambda>mc. page_split mc key (node_pgno (page_nodes ?p ! ?i)))"
      using False pgno wf low lim nl assms(3)
      by (simp add: mdb_update_key_def Let_def mp_ptrs_in mn_ksize_def rd16_in ptr_def [symmetric] oks_def [symmetric])
    then show ?thesis using node_del_ok [OF assms(1,3), of 0] False by (auto simp: len)
  qed
qed

subsection \<open>An example\<close>

text \<open>A branch page with one node that has an empty key.\<close>

definition branch_page :: mdb_page where
  "branch_page = one_page\<lparr>mp_flags := P_BRANCH\<rparr>"

lemma branch_page_ok: "wf_page 64 branch_page" "\<not> IS_LEAF branch_page" "NUMKEYS branch_page = 1" "SIZELEFT branch_page = 38"
  "page_nodes branch_page = [replicate 8 0]"
proof -
  have mem: "mp_mem branch_page = mp_mem one_page" by (simp add: branch_page_def)
  show keys: "NUMKEYS branch_page = 1" and leaf: "\<not> IS_LEAF branch_page" and "SIZELEFT branch_page = 38"
    by (simp_all add: branch_page_def one_page_def NUMKEYS_def IS_LEAF_def SIZELEFT_def indx_t_def PAGEHDRSZ_def F_ISSET_def P_BRANCH_def P_LEAF_def)
  show "wf_page 64 branch_page"
    using one_page_slot keys unfolding wf_page_def slots_ok_def mem
    by (simp add: branch_page_def one_page_def PAGEHDRSZ_def IS_LEAF2_def F_ISSET_def P_BRANCH_def P_LEAF2_def)
  show "page_nodes branch_page = [replicate 8 0]"
    using one_page_slot keys leaf by (simp add: page_nodes_def node_bytes_def mem) (simp add: one_page_def)
qed

theorem mdb_update_key_correct_witness:
  "\<exists>p' pad. mdb_update_key (\<lambda>mc k n. Inr (1, mc)) (cursor_on branch_page) (val [1, 2, 3]) = Inr (0, (cursor_on branch_page)\<lparr>mc_pg := p'\<rparr>) \<and>
     page_nodes p' = [branch_node 0 [1, 2, 3] @ pad]"
proof -
  have "EVEN 3 \<le> 38" "node_pgno (replicate 8 0) = 0" by (simp_all add: EVEN_def node_pgno_def le16_def)
  then show ?thesis
    using mdb_update_key_correct [of 64 "cursor_on branch_page" "val [1, 2, 3]" "\<lambda>mc k n. Inr (1, mc)"]
    by (auto simp: branch_page_ok numeral_3_eq_3)
qed

end
