(* ===== verification/Mdb_Shrink.thy ===== *)
theory Mdb_Shrink
  imports Mdb_Resize Mdb_Cursor_Ops
begin

text \<open>
  \<open>mdb_node_shrink\<close>, which gives the free space of a sub-page back to the page that holds it. The values of a key with
  sorted duplicates are the keys of a sub-page, a page in the data of the node. After a value has been deleted, the header
  and the index array of the sub-page move up over its free space, and the nodes of the page below it follow.
\<close>

subsection \<open>The operation\<close>

text \<open>\<open>for (i=numkeys-1; i>=0; i--) xp->mp_ptrs[i] = sp->mp_ptrs[i] - delta\<close>, with the sub-page at \<open>d\<close> and \<open>xp\<close> at \<open>d + delta\<close>\<close>

fun sub_ptrs :: "nat \<Rightarrow> nat \<Rightarrow> nat \<Rightarrow> byte list \<Rightarrow> mdb_fault + byte list" where
  "sub_ptrs 0 d delta m = Inr m"
| "sub_ptrs (Suc i) d delta m = ebind (rd16 m (d + PAGEHDRSZ + 2 * i)) (\<lambda>v.
     ebind (wr16 m (d + delta + PAGEHDRSZ + 2 * i) (indx_t (int v - int delta))) (sub_ptrs i d delta))"

text \<open>The header of \<open>xp\<close>, at \<open>x\<close>: \<open>mp_upper\<close>, \<open>mp_lower\<close>, \<open>mp_flags\<close>, \<open>mp_pad\<close> and \<open>mp_pgno\<close>, in the order of the code.\<close>

definition sub_header :: "byte list \<Rightarrow> nat \<Rightarrow> nat \<Rightarrow> nat \<Rightarrow> mdb_fault + byte list" where
  "sub_header m d x pgno =
     ebind (rd16 m (d + 12)) (\<lambda>lower. ebind (wr16 m (x + 14) lower) (\<lambda>m.
     ebind (rd16 m (d + 12)) (\<lambda>lower. ebind (wr16 m (x + 12) lower) (\<lambda>m.
     ebind (rd16 m (d + 10)) (\<lambda>flags. ebind (wr16 m (x + 10) flags) (\<lambda>m.
     ebind (rd16 m (d + 8)) (\<lambda>pad. ebind (wr16 m (x + 8) pad) (\<lambda>m.
     wr_bytes m x (pgno_bytes pgno)))))))))"

definition mdb_node_shrink :: "mdb_page \<Rightarrow> nat \<Rightarrow> mdb_fault + mdb_page" where
  "mdb_node_shrink mp indx = (let m = mp_mem mp in
     ebind (mp_ptrs m indx) (\<lambda>node. ebind (NODEDATA m node) (\<lambda>d. ebind (sub_page m d) (\<lambda>sp.
     let delta = SIZELEFT sp; x = d + delta; nsize = NUMKEYS sp * mp_pad sp in
     if IS_LEAF2 sp \<and> odd nsize then Inr mp
     else ebind (if IS_LEAF2 sp then memmove m (x + PAGEHDRSZ) (d + PAGEHDRSZ) nsize else sub_ptrs (NUMKEYS sp) d delta m) (\<lambda>m.
       ebind (sub_header m d x (mp_pgno mp)) (\<lambda>m.
       ebind (NODEDSZ m node) (\<lambda>dsz. ebind (SETDSZ m node (nat ((int dsz - int delta) mod 2 ^ 32))) (\<lambda>m.
       ebind (mp_ptrs m indx) (\<lambda>ptr. ebind (mn_ksize m node) (\<lambda>ks.
       shift_low (mp\<lparr>mp_mem := m\<rparr>) ptr (int delta) (int ptr - int (mp_upper mp) + int NODESIZE + int ks)))))))))))"

subsection \<open>The sub-page\<close>

lemma sub_ptrs_ok:
  assumes "d + delta + PAGEHDRSZ + 2 * n \<le> length m"
  shows "\<exists>m'. sub_ptrs n d delta m = Inr m' \<and> length m' = length m \<and>
    (\<forall>i<n. le16 m' (d + delta + PAGEHDRSZ + 2 * i) = indx_t (int (le16 m (d + PAGEHDRSZ + 2 * i)) - int delta)) \<and>
    (\<forall>k<length m. k < d + delta + PAGEHDRSZ \<or> d + delta + PAGEHDRSZ + 2 * n \<le> k \<longrightarrow> m' ! k = m ! k)"
  using assms
proof (induction n arbitrary: m)
  case (Suc n)
  let ?a = "d + delta + PAGEHDRSZ + 2 * n" and ?v = "indx_t (int (le16 m (d + PAGEHDRSZ + 2 * n)) - int delta)"
  define m1 where "m1 = patch m ?a (b16 ?v)"
  have run: "sub_ptrs (Suc n) d delta m = sub_ptrs n d delta m1" using Suc.prems by (simp add: rd16_in wr16_in m1_def)
  obtain m' where m': "sub_ptrs n d delta m1 = Inr m'" "length m' = length m1"
    "\<And>i. i < n \<Longrightarrow> le16 m' (d + delta + PAGEHDRSZ + 2 * i) = indx_t (int (le16 m1 (d + PAGEHDRSZ + 2 * i)) - int delta)"
    "\<And>k. k < length m1 \<Longrightarrow> k < d + delta + PAGEHDRSZ \<or> ?a \<le> k \<Longrightarrow> m' ! k = m1 ! k"
    using Suc.IH [of m1] Suc.prems by (auto simp: m1_def)
  have old: "le16 m1 (d + PAGEHDRSZ + 2 * i) = le16 m (d + PAGEHDRSZ + 2 * i)" if "i < n" for i
    unfolding m1_def by (rule le16_patch_out) (use that Suc.prems in auto)
  have "?v < 65536" by (simp add: indx_t_def nat_less_iff)
  then have "le16 m' ?a = ?v"
    using m'(4) [of ?a] m'(4) [of "?a + 1"] Suc.prems le16_patch_in [of ?a ?a "b16 ?v" m] le16_b16 [of ?v] le16_cong [of m' ?a m1 ?a]
    by (simp add: m1_def)
  then have "le16 m' (d + delta + PAGEHDRSZ + 2 * i) = indx_t (int (le16 m (d + PAGEHDRSZ + 2 * i)) - int delta)" if "i < Suc n" for i
    using m'(3) [of i] old [of i] that by (cases "i = n") simp_all
  moreover have "m' ! k = m ! k" if "k < length m" "k < d + delta + PAGEHDRSZ \<or> d + delta + PAGEHDRSZ + 2 * Suc n \<le> k" for k
    using m'(4) [of k] that by (auto simp: m1_def nth_patch)
  ultimately show ?case using run m'(1,2) by (auto simp: m1_def)
qed simp

lemma length_pgno_bytes [simp]: "length (pgno_bytes pgno) = 8"
  by (simp add: pgno_bytes_def)

lemma sub_header_ok:
  assumes "d \<le> x" and "x + 16 \<le> length m"
  shows "sub_header m d x pgno = Inr (patch m x (pgno_bytes pgno @ b16 (le16 m (d + 8)) @ b16 (le16 m (d + 10)) @ b16 (le16 m (d + 12)) @ b16 (le16 m (d + 12))))"
proof -
  have out: "le16 (patch m (x + a) s) (d + b) = le16 m (d + b)" if "b + 2 \<le> a" "b \<le> 12" for a b s
    by (rule le16_patch_out) (use that assms in auto)
  have 2: "x + 12 + length (b16 u) = x + 14" "x + 10 + length (b16 u) = x + 12" "x + 8 + length (b16 u) = x + 10" "x + length (pgno_bytes pgno) = x + 8" for u
    by (simp_all add: pgno_bytes_def)
  note pre = patch_prepend [of m "x + 12" "b16 u" for u, unfolded 2] patch_prepend [of m "x + 10" "b16 u" for u, unfolded 2]
    patch_prepend [of m "x + 8" "b16 u" for u, unfolded 2] patch_prepend [of m x "pgno_bytes pgno", unfolded 2]
  show ?thesis
    using assms unfolding sub_header_def
    by (simp add: rd16_in wr16_in wr_bytes_in out pre)
qed

lemma le_value_2: "i + 2 \<le> length b \<Longrightarrow> le_value (take 2 (drop i b)) = le16 b i"
proof -
  assume "i + 2 \<le> length b"
  then have "b ! i # b ! Suc i # drop (Suc (Suc i)) b = drop i b" using Cons_nth_drop_Suc [of i b] Cons_nth_drop_Suc [of "Suc i" b] by simp
  then show ?thesis by (simp add: le16_def take_Cons' flip: \<open>b ! i # b ! Suc i # drop (Suc (Suc i)) b = drop i b\<close>)
qed

lemma sub_page_in:
  assumes "off + 16 \<le> length m"
  shows "sub_page m off = Inr \<lparr>mp_pgno = le_value (take 8 (drop off m)), mp_pad = le16 m (off + 8), mp_flags = word_of_nat (le16 m (off + 10)),
    mp_lower = le16 m (off + 12), mp_upper = le16 m (off + 14), mp_mem = drop off m\<rparr>"
proof -
  have "le_value (take 2 (drop i (take 16 (drop off m)))) = le16 m (off + i)" if "i \<le> 14" for i
    using le_value_2 [of i "take 16 (drop off m)"] that assms by (simp add: le16_def)
  then show ?thesis using assms by (simp add: sub_page_def rd_bytes_in PAGEHDRSZ_def Let_def min_def)
qed

lemma sub_compact:
  assumes wf: "wf_page L sp" and delta: "delta = mp_upper sp - mp_lower sp" and len: "length b = L - delta"
    and slots: "\<And>i. i < NUMKEYS sp \<Longrightarrow> slot b i = slot (mp_mem sp) i - delta"
    and bytes: "\<And>k. mp_upper sp \<le> k \<Longrightarrow> k < L \<Longrightarrow> b ! (k - delta) = mp_mem sp ! k"
    and sp': "IS_LEAF sp' = IS_LEAF sp" "\<not> IS_LEAF2 sp'" "mp_lower sp' = mp_lower sp" "mp_upper sp' = mp_lower sp" "mp_mem sp' = b"
  shows "wf_page (L - delta) sp'" and "page_nodes sp' = page_nodes sp"
proof -
  let ?m = "mp_mem sp" and ?n = "NUMKEYS sp" and ?leaf = "IS_LEAF sp"
  have wf': "length ?m = L" "even L" "mp_lower sp \<le> mp_upper sp" "mp_upper sp \<le> L" "even (mp_upper sp)" "even (mp_lower sp)"
    and ok: "slots_ok ?leaf ?m ?n (mp_upper sp)"
    using wf by (auto simp: wf_page_def)
  have nk: "NUMKEYS sp' = ?n" using sp'(3) by (simp add: NUMKEYS_def)
  have keep: "node_len ?leaf b (slot ?m i - delta) = node_len ?leaf ?m (slot ?m i)" "node_bytes ?leaf b (slot ?m i - delta) = node_bytes ?leaf ?m (slot ?m i)"
    if i: "i < ?n" for i
  proof -
    note lim = slots_okD(1,3) [OF ok i]
    have "b ! (slot ?m i - delta + k) = ?m ! (slot ?m i + k)" if "k < node_len ?leaf ?m (slot ?m i)" for k
    proof -
      have "slot ?m i - delta + k = slot ?m i + k - delta" using lim wf'(3) delta by linarith
      then show ?thesis using bytes [of "slot ?m i + k"] that lim wf'(1) by simp
    qed
    then show "node_len ?leaf b (slot ?m i - delta) = node_len ?leaf ?m (slot ?m i)" "node_bytes ?leaf b (slot ?m i - delta) = node_bytes ?leaf ?m (slot ?m i)"
      using node_bytes_cong [of ?leaf ?m "slot ?m i" b "slot ?m i - delta"] lim len wf' delta by auto
  qed
  have "slots_ok ?leaf b ?n (mp_lower sp)"
    unfolding slots_ok_def
  proof (intro conjI allI impI)
    fix i assume i: "i < ?n"
    note lim = slots_okD(1-3) [OF ok i]
    show "mp_lower sp \<le> slot b i" "even (slot b i)" "slot b i + node_len ?leaf b (slot b i) \<le> length b"
      using lim slots [OF i] keep(1) [OF i] wf' len delta by auto
  next
    fix i j assume ij: "i < ?n" "j < ?n" "i \<noteq> j"
    show "slot b i + node_len ?leaf b (slot b i) \<le> slot b j \<or> slot b j + node_len ?leaf b (slot b j) \<le> slot b i"
    proof -
      have "delta \<le> slot ?m i" "delta \<le> slot ?m j" using slots_okD(1) [OF ok ij(1)] slots_okD(1) [OF ok ij(2)] delta by linarith+
      then show ?thesis
        unfolding slots [OF ij(1)] slots [OF ij(2)] keep(1) [OF ij(1)] keep(1) [OF ij(2)] using slots_okD(4) [OF ok ij] by linarith
    qed
  qed
  then show "wf_page (L - delta) sp'"
    using wf wf' sp' nk len delta by (auto simp: wf_page_def)
  show "page_nodes sp' = page_nodes sp" using slots keep(2) sp'(1,5) nk by (simp add: page_nodes_def)
qed

lemma le16_take_drop: "a + n \<le> length m \<Longrightarrow> k + 2 \<le> n \<Longrightarrow> le16 (take n (drop a m)) k = le16 m (a + k)"
  by (simp add: le16_def)

lemma le16_sub_hdr:
  assumes "pad < 65536" and "fl < 65536" and "lo < 65536" and "up < 65536"
  shows "le16 (pgno_bytes pg @ b16 pad @ b16 fl @ b16 lo @ b16 up) 10 = fl" "le16 (pgno_bytes pg @ b16 pad @ b16 fl @ b16 lo @ b16 up) 12 = lo"
    "le16 (pgno_bytes pg @ b16 pad @ b16 fl @ b16 lo @ b16 up) 14 = up"
  using assms le16_b16 [of fl] le16_b16 [of lo] le16_b16 [of up] by (simp_all add: le16_def nth_append b16_def)

lemma sub_fields:
  assumes sp: "sub_page m d = Inr sp" and b0: "b0 = take dsz (drop d m)" and wf: "wf_page dsz (sp\<lparr>mp_mem := b0\<rparr>)" and len: "d + dsz \<le> length m"
  shows "mp_lower sp \<le> mp_upper sp" and "mp_upper sp \<le> dsz" and "mp_lower sp = 16 + 2 * NUMKEYS sp" and "SIZELEFT sp = mp_upper sp - mp_lower sp"
    and "even (SIZELEFT sp)" and "d + SIZELEFT sp + 16 \<le> length m" and "\<And>i. i < NUMKEYS sp \<Longrightarrow> mp_upper sp \<le> slot b0 i"
    and "\<And>i. i < NUMKEYS sp \<Longrightarrow> slot b0 i = le16 m (d + 16 + 2 * i)" and "mp_flags sp = word_of_nat (le16 m (d + 10))" and "mp_lower sp = le16 m (d + 12)"
proof -
  have nk: "NUMKEYS (sp\<lparr>mp_mem := b0\<rparr>) = NUMKEYS sp" by (simp add: NUMKEYS_def)
  show *: "mp_lower sp \<le> mp_upper sp" "mp_upper sp \<le> dsz" "mp_lower sp = 16 + 2 * NUMKEYS sp"
    and ok: "\<And>i. i < NUMKEYS sp \<Longrightarrow> mp_upper sp \<le> slot b0 i"
    using wf numkeys [OF wf] nk by (auto simp: wf_page_def PAGEHDRSZ_def slots_ok_def)
  show dl: "SIZELEFT sp = mp_upper sp - mp_lower sp" using sizeleft [OF wf] by (simp add: SIZELEFT_def)
  show "even (SIZELEFT sp)" using dl wf by (simp add: wf_page_def)
  show "d + SIZELEFT sp + 16 \<le> length m" using * dl len by linarith
  show "slot b0 i = le16 m (d + 16 + 2 * i)" if "i < NUMKEYS sp" for i
    unfolding slot_def b0 using * that len by (subst le16_take_drop) (auto simp: PAGEHDRSZ_def add.assoc)
  show "mp_flags sp = word_of_nat (le16 m (d + 10))" "mp_lower sp = le16 m (d + 12)" using sp sub_page_in [of d m] * len by auto
qed

text \<open>The bytes after the header and the index array have moved.\<close>

lemma sub_moved:
  assumes sp: "sub_page m d = Inr sp" and b0: "b0 = take dsz (drop d m)" and wf: "wf_page dsz (sp\<lparr>mp_mem := b0\<rparr>)" and len: "d + dsz \<le> length m"
    and x: "x = d + SIZELEFT sp"
  shows "\<exists>m'. ebind (sub_ptrs (NUMKEYS sp) d (SIZELEFT sp) m) (\<lambda>m. sub_header m d x pgno) = Inr m' \<and> length m' = length m \<and>
    (\<forall>k<length m. k < x \<or> d + mp_upper sp \<le> k \<longrightarrow> m' ! k = m ! k) \<and>
    (\<forall>i<NUMKEYS sp. le16 m' (x + 16 + 2 * i) = slot b0 i - SIZELEFT sp) \<and>
    le16 m' (x + 10) = le16 m (d + 10) \<and> le16 m' (x + 12) = mp_lower sp \<and> le16 m' (x + 14) = mp_lower sp"
proof -
  let ?n = "NUMKEYS sp" and ?delta = "SIZELEFT sp"
  note f = sub_fields [OF sp b0 wf len]
  have top: "x + 16 + 2 * ?n = d + mp_upper sp" using f(1,3,4) x by linarith
  obtain m1 where m1: "sub_ptrs ?n d ?delta m = Inr m1" "length m1 = length m"
    "\<And>i. i < ?n \<Longrightarrow> le16 m1 (x + 16 + 2 * i) = indx_t (int (le16 m (d + 16 + 2 * i)) - int ?delta)"
    "\<And>k. k < length m \<Longrightarrow> k < x + 16 \<or> d + mp_upper sp \<le> k \<Longrightarrow> m1 ! k = m ! k"
    using sub_ptrs_ok [of d ?delta ?n m, folded x, unfolded PAGEHDRSZ_def top] len f(2) by auto
  define h where "h = pgno_bytes pgno @ b16 (le16 m (d + 8)) @ b16 (le16 m (d + 10)) @ b16 (mp_lower sp) @ b16 (mp_lower sp)"
  define m2 where "m2 = patch m1 x h"
  have lh: "length h = 16" by (simp add: h_def)
  have "le16 m1 (d + k) = le16 m (d + k)" if "k \<le> 12" for k
    using m1(4) [of "d + k"] m1(4) [of "d + k + 1"] that f(6) x by (intro le16_cong) auto
  then have run: "sub_header m1 d x pgno = Inr m2" using sub_header_ok [of d x m1 pgno] f(6,10) m1(2) x by (simp add: m2_def h_def)
  have "le16 m2 (x + k) = le16 h k" if "k \<le> 14" for k using le16_patch_in [of x "x + k" h m1] that f(6) lh m1(2) x by (simp add: m2_def)
  then have hd: "le16 m2 (x + 10) = le16 m (d + 10)" "le16 m2 (x + 12) = mp_lower sp" "le16 m2 (x + 14) = mp_lower sp"
    using le16_sub_hdr [of "le16 m (d + 8)" "le16 m (d + 10)" "mp_lower sp" "mp_lower sp" pgno] le16_less f(10) by (simp_all add: h_def)
  have "le16 m2 (x + 16 + 2 * i) = slot b0 i - ?delta" if i: "i < ?n" for i
  proof -
    have "le16 m2 (x + 16 + 2 * i) = le16 m1 (x + 16 + 2 * i)"
      unfolding m2_def using i top f(2) len m1(2) lh by (intro le16_patch_out) auto
    moreover have "?delta \<le> slot b0 i" "slot b0 i < 65536" using f(4) f(7) [OF i] slot_less by auto
    ultimately show ?thesis using m1(3) [OF i] f(8) [OF i] by (simp add: indx_t_small nat_diff_distrib flip: of_nat_diff)
  qed
  moreover have "m2 ! k = m ! k" if "k < length m" "k < x \<or> d + mp_upper sp \<le> k" for k
  proof -
    have "k < x \<or> x + 16 \<le> k" "k < x + 16 \<or> d + mp_upper sp \<le> k" using that(2) top by linarith+
    then show ?thesis using m1(2) m1(4) [OF that(1)] that(1) lh by (auto simp: m2_def nth_patch)
  qed
  ultimately show ?thesis using m1(1,2) run hd by (auto simp: m2_def)
qed

lemma shrink_sub:
  assumes sp: "sub_page m d = Inr sp" and b0: "b0 = take dsz (drop d m)" and wf: "wf_page dsz (sp\<lparr>mp_mem := b0\<rparr>)" and len: "d + dsz \<le> length m"
    and delta: "delta = SIZELEFT sp"
  shows "\<exists>m' sp'. ebind (sub_ptrs (NUMKEYS sp) d delta m) (\<lambda>m. sub_header m d (d + delta) pgno) = Inr m' \<and> length m' = length m \<and>
    (\<forall>k<length m. k < d + delta \<or> d + mp_upper sp \<le> k \<longrightarrow> m' ! k = m ! k) \<and> even delta \<and> delta + 16 \<le> dsz \<and>
    sub_page (take (dsz - delta) (drop (d + delta) m')) 0 = Inr sp' \<and> wf_page (dsz - delta) sp' \<and> mp_upper sp' = mp_lower sp' \<and>
    page_nodes sp' = page_nodes (sp\<lparr>mp_mem := b0\<rparr>)"
proof -
  let ?sp = "sp\<lparr>mp_mem := b0\<rparr>" and ?n = "NUMKEYS sp" and ?x = "d + delta"
  note f = sub_fields [OF sp b0 wf len, folded delta]
  obtain m2 where m2: "ebind (sub_ptrs ?n d delta m) (\<lambda>m. sub_header m d ?x pgno) = Inr m2" "length m2 = length m"
    "\<And>k. k < length m \<Longrightarrow> k < ?x \<or> d + mp_upper sp \<le> k \<Longrightarrow> m2 ! k = m ! k" "\<And>i. i < ?n \<Longrightarrow> le16 m2 (?x + 16 + 2 * i) = slot b0 i - delta"
    "le16 m2 (?x + 10) = le16 m (d + 10)" "le16 m2 (?x + 12) = mp_lower sp" "le16 m2 (?x + 14) = mp_lower sp"
    using sub_moved [OF sp b0 wf len refl, of pgno, folded delta] by blast
  define b where "b = take (dsz - delta) (drop ?x m2)"
  have big: "delta + 16 \<le> dsz" using f(1-4) by linarith
  have lb: "length b = dsz - delta" using len big m2(2) by (simp add: b_def)
  have le: "le16 b k = le16 m2 (?x + k)" if "k + 2 \<le> dsz - delta" for k
    unfolding b_def by (rule le16_take_drop) (use that len big m2(2) in auto)
  obtain sp' where sp': "sub_page b 0 = Inr sp'" "mp_flags sp' = mp_flags sp" "mp_lower sp' = mp_lower sp" "mp_upper sp' = mp_lower sp" "mp_mem sp' = b"
    using sub_page_in [of 0 b] le [of 10] le [of 12] le [of 14] m2(5-7) f(9) lb big by auto
  have slots: "slot b i = slot b0 i - delta" if i: "i < ?n" for i
    using le [of "16 + 2 * i"] m2(4) [OF i] i f(1-4) by (simp add: slot_def PAGEHDRSZ_def add.assoc)
  have bytes: "b ! (k - delta) = b0 ! k" if "mp_upper sp \<le> k" "k < dsz" for k
  proof -
    have "?x + (k - delta) = d + k" "k - delta < dsz - delta" using that f(1,3,4) by linarith+
    then show ?thesis using m2(2) m2(3) [of "d + k"] that lb len by (simp add: b_def b0)
  qed
  have nk: "NUMKEYS ?sp = ?n" by (simp add: NUMKEYS_def)
  have "IS_LEAF sp' = IS_LEAF ?sp" "\<not> IS_LEAF2 sp'" using sp'(2) wf by (simp_all add: IS_LEAF_def IS_LEAF2_def wf_page_def)
  then have "wf_page (dsz - delta) sp'" "page_nodes sp' = page_nodes ?sp"
    using sub_compact [OF wf, of delta b sp'] f(4) lb slots bytes sp' nk by simp_all
  then show ?thesis using m2(1-3) f(5) big sp'(1,3,4) by (auto simp: b_def)
qed

subsection \<open>The node\<close>

text \<open>What the bytes of a leaf node say about the page.\<close>

lemma leaf_node_at:
  assumes wf: "wf_page psize p" "IS_LEAF p" "indx < NUMKEYS p" and node: "page_nodes p ! indx = leaf_node fl (length db) key db @ pad"
    and small: "length key < 65536" "fl < 65536" "even fl" and ptr: "ptr = slot (mp_mem p) indx" and d: "d = ptr + 8 + length key"
  shows "node_len True (mp_mem p) ptr = EVEN (8 + length key + length db)" and "d + length db \<le> psize" and "take (length db) (drop d (mp_mem p)) = db"
    and "take (8 + length key) (drop ptr (mp_mem p)) = node_hdr (length db mod 2 ^ 16) (length db div 2 ^ 16 mod 2 ^ 16) fl (length key) @ key"
    and "NODEDSZ (mp_mem p) ptr = Inr (length db)" and "mn_ksize (mp_mem p) ptr = Inr (length key)"
proof -
  let ?m = "mp_mem p" and ?h = "node_hdr (length db mod 2 ^ 16) (length db div 2 ^ 16 mod 2 ^ 16) fl (length key)"
  define L where "L = node_len True ?m ptr"
  have len: "length ?m = psize" "psize \<le> 0x8000" and ok: "slots_ok True ?m (NUMKEYS p) (mp_upper p)" using wf by (auto simp: wf_page_def)
  have lim: "ptr + L \<le> psize" using slots_okD(3) [OF ok wf(3)] len(1) by (simp add: ptr L_def)
  have nb: "take L (drop ptr ?m) = ?h @ key @ db @ pad"
    using node wf(2,3) by (simp add: page_nodes_def node_bytes_def ptr L_def leaf_node_def)
  have lL: "L = 8 + length key + length db + length pad" using arg_cong [OF nb, of length] lim len(1) by simp
  have dsz: "length db < 2 ^ 32" using lL lim len(2) by simp
  have le: "le16 ?m (ptr + k) = le16 (?h @ key @ db @ pad) k" if "k \<le> 6" for k
    using that lL lim len(1) by (subst nb [symmetric], subst le16_take_drop) auto
  have small': "length db mod 2 ^ 16 < 65536" "length db div 2 ^ 16 mod 2 ^ 16 < 65536" by simp_all
  note hd = le16_hdr [OF small' small(2,1), of "key @ db @ pad"]
  have h: "le16 ?m ptr = length db mod 2 ^ 16" "le16 ?m (ptr + 2) = length db div 2 ^ 16 mod 2 ^ 16" "le16 ?m (ptr + 4) = fl" "le16 ?m (ptr + 6) = length key"
    using le [of 0] le [of 2] le [of 4] le [of 6] hd by simp_all
  have sum: "length db mod 2 ^ 16 + 65536 * (length db div 2 ^ 16 mod 2 ^ 16) = length db" using dsz by (simp add: mod_less div_less_iff_less_mult)
  show "node_len True ?m ptr = EVEN (8 + length key + length db)" using h sum small(3) by (simp add: node_len_def NODESIZE_def)
  show "d + length db \<le> psize" using lL lim by (simp add: d)
  show "NODEDSZ ?m ptr = Inr (length db)" "mn_ksize ?m ptr = Inr (length key)"
    using h sum lL lim len(1) by (simp_all add: NODEDSZ_def mn_lo_def mn_hi_def mn_ksize_def rd16_in del: add_2_eq_Suc')
  have "take (8 + length key) (take L (drop ptr ?m)) = ?h @ key" unfolding nb by simp
  then show "take (8 + length key) (drop ptr ?m) = ?h @ key" using lL by (simp add: min_def)
  have "take (length db) (drop (8 + length key) (take L (drop ptr ?m))) = db" unfolding nb by simp
  then show "take (length db) (drop d ?m) = db" using lL by (simp add: d drop_take min_def add.commute add.left_commute)
qed

text \<open>The memory when the sub-page has moved and the size of the data is set, before the nodes of the page move.\<close>

lemma SETDSZ_in:
  "a + 4 \<le> length m \<Longrightarrow> SETDSZ m a n = Inr (patch m a (b16 (n mod 2 ^ 16) @ b16 (n div 2 ^ 16 mod 2 ^ 16)))"
  using patch_append [of m a "b16 (n mod 2 ^ 16)" "b16 (n div 2 ^ 16 mod 2 ^ 16)"] by (simp add: SETDSZ_def wr16_in)

lemma hdr_resized:
  assumes "take (8 + length key) (drop a m) = node_hdr lo hi fl ks @ key" and "a + 8 + length key \<le> length m"
  shows "take (8 + length key) (drop a (patch m a (b16 lo' @ b16 hi'))) = node_hdr lo' hi' fl ks @ key"
proof (rule nth_equalityI)
  fix k assume "k < length (take (8 + length key) (drop a (patch m a (b16 lo' @ b16 hi'))))"
  then have k: "k < 8 + length key" by simp
  have "take (8 + length key) (drop a m) ! k = (node_hdr lo hi fl ks @ key) ! k" using assms(1) by simp
  then have "m ! (a + k) = (node_hdr lo hi fl ks @ key) ! k" using k assms(2) by simp
  then show "take (8 + length key) (drop a (patch m a (b16 lo' @ b16 hi'))) ! k = (node_hdr lo' hi' fl ks @ key) ! k"
    using k assms(2) by (auto simp: nth_patch node_hdr_def nth_append)
qed (use assms(2) in simp)

text \<open>The sub-page at its place in the page.\<close>

lemma node_sub_page:
  assumes sp: "sub_page db 0 = Inr sp" "wf_page (length db) sp" and db: "take (length db) (drop d m) = db" and len: "d + length db \<le> length m"
  shows "sub_page m d = Inr (sp\<lparr>mp_mem := drop d m\<rparr>)" and "sp\<lparr>mp_mem := drop d m, mp_mem := db\<rparr> = sp"
proof -
  have big: "16 \<le> length db" using sp(2) by (auto simp: wf_page_def PAGEHDRSZ_def)
  have le: "le16 db k = le16 m (d + k)" if "k + 2 \<le> length db" for k using le16_take_drop [OF len that] db by simp
  have "take 8 db = take 8 (drop d m)" using arg_cong [OF db, of "take 8"] big by (simp add: min_def)
  then show "sub_page m d = Inr (sp\<lparr>mp_mem := drop d m\<rparr>)" "sp\<lparr>mp_mem := drop d m, mp_mem := db\<rparr> = sp"
    using sp(1) sub_page_in [of 0 db] sub_page_in [of d m] le [of 8] le [of 10] le [of 12] le [of 14] big len by auto
qed

lemma shrink_run:
  assumes wf: "wf_page psize p" "IS_LEAF p" "indx < NUMKEYS p" and node: "page_nodes p ! indx = leaf_node fl (length db) key db @ pad"
    and small: "length key < 65536" "fl < 65536" "even fl" and ptr: "ptr = slot (mp_mem p) indx"
    and sp: "sub_page db 0 = Inr sp" "wf_page (length db) sp" and delta: "delta = SIZELEFT sp"
  shows "\<exists>m' db' sp'. mdb_node_shrink p indx = shift_low (p\<lparr>mp_mem := m'\<rparr>) ptr (int delta) (int ptr - int (mp_upper p) + int (8 + length key)) \<and>
    length m' = psize \<and> (\<forall>k<psize. k < ptr \<or> ptr + EVEN (8 + length key + length db) \<le> k \<longrightarrow> m' ! k = mp_mem p ! k) \<and>
    take (8 + length key) (drop ptr m') = node_hdr (length db' mod 2 ^ 16) (length db' div 2 ^ 16 mod 2 ^ 16) fl (length key) @ key \<and>
    db' = take (length db') (drop (ptr + delta + (8 + length key)) m') \<and> length db' + delta = length db \<and> even delta \<and>
    sub_page db' 0 = Inr sp' \<and> wf_page (length db') sp' \<and> mp_upper sp' = mp_lower sp' \<and> page_nodes sp' = page_nodes sp"
proof -
  let ?m = "mp_mem p"
  define d where "d = ptr + 8 + length key"
  note at = leaf_node_at [OF wf node small ptr d_def]
  have wf': "length ?m = psize" "psize \<le> 0x8000" "mp_lower p \<le> mp_upper p" and low: "mp_lower p = PAGEHDRSZ + 2 * NUMKEYS p"
    and ok: "slots_ok True ?m (NUMKEYS p) (mp_upper p)"
    using wf numkeys [OF wf(1)] by (auto simp: wf_page_def)
  have up: "mp_upper p \<le> ptr" using slots_okD(1) [OF ok wf(3)] by (simp add: ptr)
  note spm = node_sub_page(1) [OF sp at(3) at(2) [folded wf'(1)]]
  let ?spm = "sp\<lparr>mp_mem := drop d ?m\<rparr>"
  have same: "?spm\<lparr>mp_mem := db\<rparr> = sp" "SIZELEFT ?spm = delta" "NUMKEYS ?spm = NUMKEYS sp" "IS_LEAF2 ?spm = IS_LEAF2 sp" "\<not> IS_LEAF2 sp"
    using node_sub_page(2) [OF sp at(3) at(2) [folded wf'(1)]] delta sp(2) by (auto simp: SIZELEFT_def NUMKEYS_def wf_page_def)
  obtain m2 sp' where m2: "ebind (sub_ptrs (NUMKEYS sp) d delta ?m) (\<lambda>m. sub_header m d (d + delta) (mp_pgno p)) = Inr m2" "length m2 = psize"
    "\<And>k. k < psize \<Longrightarrow> k < d + delta \<or> d + mp_upper sp \<le> k \<Longrightarrow> m2 ! k = ?m ! k" "even delta" "delta + 16 \<le> length db"
    and sp': "sub_page (take (length db - delta) (drop (d + delta) m2)) 0 = Inr sp'" "wf_page (length db - delta) sp'" "mp_upper sp' = mp_lower sp'" "page_nodes sp' = page_nodes sp"
    using shrink_sub [OF spm at(3) [symmetric], of delta "mp_pgno p"] same sp(2) at(2) wf'(1) by auto
  define n where "n = length db - delta"
  define m3 where "m3 = patch m2 ptr (b16 (n mod 2 ^ 16) @ b16 (n div 2 ^ 16 mod 2 ^ 16))"
  have n: "nat ((int (length db) - int delta) mod 2 ^ 32) = n" using m2(5) at(2) wf'(2) by (simp add: n_def flip: of_nat_diff)
  have "take (8 + length key) (drop ptr m2) = take (8 + length key) (drop ptr ?m)"
    by (rule nth_equalityI) (use m2(2,3) wf'(1) at(2) in \<open>auto simp: d_def\<close>)
  then have hd2: "take (8 + length key) (drop ptr m3) = node_hdr (n mod 2 ^ 16) (n div 2 ^ 16 mod 2 ^ 16) fl (length key) @ key"
    unfolding m3_def using at(2,4) m2(2) by (intro hdr_resized) (auto simp: d_def)
  have le2: "le16 m2 k = le16 ?m k" "le16 m3 k = (if ptr + 4 \<le> k \<or> k + 2 \<le> ptr then le16 ?m k else le16 m3 k)" if "k + 2 \<le> d" for k
    using m2(2,3) that at(2) le16_cong [of m2 k ?m k] le16_patch_out [of k m2 ptr] by (auto simp: m3_def)
  have fits: "PAGEHDRSZ + 2 * indx + 1 < psize" "PAGEHDRSZ + 2 * indx + 2 \<le> ptr" "ptr + 8 \<le> psize" "ptr + 8 \<le> d"
    using wf(3) low up wf'(3) at(2) by (auto simp: d_def)
  have steps: "mp_ptrs ?m indx = Inr ptr" "mp_ptrs m3 indx = Inr ptr" "NODEDATA ?m ptr = Inr d" "NODEDSZ m2 ptr = Inr (length db)" "mn_ksize m3 ptr = Inr (length key)"
    "SETDSZ m2 ptr n = Inr m3"
    using fits at(5,6) m2(2) wf'(1) le2
    by (simp_all add: mp_ptrs_in slot_def ptr NODEDATA_def NODEDSZ_def mn_lo_def mn_hi_def mn_ksize_def rd16_in m3_def SETDSZ_in d_def NODESIZE_def)
  let ?db = "take n (drop (d + delta) m2)"
  have ldb: "length ?db = n" "n + delta = length db" using m2(2,5) at(2) by (auto simp: n_def)
  obtain m1 where m1: "sub_ptrs (NUMKEYS sp) d delta ?m = Inr m1" "sub_header m1 d (d + delta) (mp_pgno p) = Inr m2"
    using m2(1) by (cases "sub_ptrs (NUMKEYS sp) d delta ?m") auto
  have run: "mdb_node_shrink p indx = shift_low (p\<lparr>mp_mem := m3\<rparr>) ptr (int delta) (int ptr - int (mp_upper p) + int (8 + length key))"
    using steps spm same m1 n by (simp add: mdb_node_shrink_def Let_def NODESIZE_def add.assoc)
  have out: "m3 ! k = ?m ! k" if "k < psize" "k < ptr \<or> ptr + EVEN (8 + length key + length db) \<le> k" for k
  proof -
    have "8 + length key + length db \<le> EVEN (8 + length key + length db)" by (simp add: EVEN_def)
    moreover have "mp_upper sp \<le> length db" using sp(2) by (simp add: wf_page_def)
    ultimately have "k < d + delta \<or> d + mp_upper sp \<le> k" "k < ptr \<or> ptr + 4 \<le> k" using that(2) by (auto simp: d_def)
    then show ?thesis using m2(2,3) that(1) by (auto simp: m3_def nth_patch)
  qed
  have "ptr + delta + (8 + length key) = d + delta" by (simp add: d_def)
  then have "?db = take n (drop (ptr + delta + (8 + length key)) m3)"
    using fits(4) by (simp only:) (rule nth_equalityI; auto simp: m3_def nth_patch)
  moreover have "length m3 = psize" by (simp add: m3_def m2(2))
  ultimately show ?thesis
    using run out hd2 ldb m2(4) sp' unfolding n_def [symmetric] by (intro exI [of _ m3] exI [of _ ?db] exI [of _ sp']) auto
qed

lemma node_moved:
  assumes "\<And>i. i < 8 + length key \<Longrightarrow> m4 ! (a + i) = m' ! (ptr + i)"
    and "take (8 + length key) (drop ptr m') = node_hdr (length db mod 2 ^ 16) (length db div 2 ^ 16 mod 2 ^ 16) fl (length key) @ key"
    and "db = take (length db) (drop (a + (8 + length key)) m')" and "\<And>k. k < length m' \<Longrightarrow> a + (8 + length key) \<le> k \<Longrightarrow> m4 ! k = m' ! k"
    and "a + (8 + length key) + length db \<le> length m'" and "ptr \<le> a" and "length m4 = length m'"
  shows "take (8 + length key + length db) (drop a m4) = leaf_node fl (length db) key db"
proof -
  have "take (8 + length key) (drop a m4) = take (8 + length key) (drop ptr m')"
    by (intro nth_equalityI) (use assms(1,5-7) in auto)
  moreover have "take (length db) (drop (a + (8 + length key)) m4) = take (length db) (drop (a + (8 + length key)) m')"
    by (rule nth_equalityI) (use assms(4,7) in auto)
  moreover have "drop (8 + length key) (drop a m4) = drop (a + (8 + length key)) m4" by (simp add: add.commute)
  ultimately show ?thesis
    unfolding take_add [of "8 + length key" "length db"] using assms(2,3) by (simp only: leaf_node_def append_assoc)
qed

text \<open>
  C26. \<open>mdb_node_shrink\<close> on a node whose data is a sub-page with free space: the node keeps its key and gets as data a sub-page with the same nodes
  and no free space, all other nodes of the page keep their contents, and the page has gained the space the sub-page has lost. Both pages
  stay well-formed, and no byte outside the page is touched.
\<close>

theorem mdb_node_shrink_correct:
  assumes "wf_page psize p" and "IS_LEAF p" and "indx < NUMKEYS p" and "page_nodes p ! indx = leaf_node fl (length db) key db @ pad"
    and "length key < 65536" and "fl < 65536" and "even fl" and "sub_page db 0 = Inr sp" and "wf_page (length db) sp"
  shows "\<exists>p' db' pad' sp'. mdb_node_shrink p indx = Inr p' \<and> wf_page psize p' \<and> SIZELEFT p' = SIZELEFT p + SIZELEFT sp \<and>
    page_nodes p' = (page_nodes p)[indx := leaf_node fl (length db') key db' @ pad'] \<and> length pad' \<le> 1 \<and> length db' + SIZELEFT sp = length db \<and>
    sub_page db' 0 = Inr sp' \<and> wf_page (length db') sp' \<and> SIZELEFT sp' = 0 \<and> page_nodes sp' = page_nodes sp"
proof -
  let ?m = "mp_mem p" and ?u = "mp_upper p" and ?k = "8 + length key"
  define ptr where "ptr = slot ?m indx"
  define delta where "delta = SIZELEFT sp"
  have wf: "length ?m = psize" "psize \<le> 0x8000" "mp_lower p \<le> ?u" and low: "mp_lower p = PAGEHDRSZ + 2 * NUMKEYS p" and ok: "slots_ok True ?m (NUMKEYS p) ?u"
    using assms(1,2) numkeys [OF assms(1)] by (auto simp: wf_page_def)
  note at = leaf_node_at [OF assms(1-7) ptr_def refl]
  obtain m' db' sp' where run: "mdb_node_shrink p indx = shift_low (p\<lparr>mp_mem := m'\<rparr>) ptr (int delta) (int ptr - int ?u + int ?k)"
    and m': "length m' = psize" "\<And>k. k < psize \<Longrightarrow> k < ptr \<or> ptr + EVEN (?k + length db) \<le> k \<Longrightarrow> m' ! k = ?m ! k"
      "take ?k (drop ptr m') = node_hdr (length db' mod 2 ^ 16) (length db' div 2 ^ 16 mod 2 ^ 16) fl (length key) @ key"
      "db' = take (length db') (drop (ptr + delta + ?k) m')" "length db' + delta = length db" "even delta"
    and sp': "sub_page db' 0 = Inr sp'" "wf_page (length db') sp'" "mp_upper sp' = mp_lower sp'" "page_nodes sp' = page_nodes sp"
    using shrink_run [OF assms(1-7) ptr_def assms(8,9) delta_def] by blast
  have up: "?u \<le> ptr" using slots_okD(1) [OF ok assms(3)] by (simp add: ptr_def)
  have slots': "slot m' j = slot ?m j" if "j < NUMKEYS p" for j
    unfolding slot_def by (rule le16_cong; rule m'(2)) (use that low wf up at(2) in auto)
  let ?q = "p\<lparr>mp_mem := m'\<rparr>"
  have nk: "NUMKEYS ?q = NUMKEYS p" by (simp add: NUMKEYS_def)
  obtain m4 where m4: "shift_low ?q ptr (int (ptr + delta) - int ptr) (int ptr - int ?u + int ?k) = Inr (?q\<lparr>mp_mem := m4, mp_upper := ?u + delta\<rparr>)"
    "length m4 = psize" "\<And>j. j < NUMKEYS p \<Longrightarrow> slot m4 j = (if slot ?m j \<le> ptr then slot ?m j + (ptr + delta) - ptr else slot ?m j)"
    "\<And>k. ?u \<le> k \<Longrightarrow> k < ptr + ?k \<Longrightarrow> m4 ! (k + (ptr + delta) - ptr) = m' ! k" "\<And>k. k < psize \<Longrightarrow> ptr + delta + ?k \<le> k \<Longrightarrow> m4 ! k = m' ! k"
    using shift_low_ok [of ?q "?u + delta" ptr "ptr + delta" ?k] m'(1,5) at(2) wf low up slots' nk slots_okD(1) [OF ok] by auto
  define node where "node = leaf_node fl (length db') key db'"
  have "length db' < 2 ^ 32" using m'(5) at(2) wf(2) by simp
  then have len: "length node = ?k + length db'" "node_len True node 0 = EVEN (?k + length db')"
    using node_len_leaf [OF assms(5,6), of "length db'" db'] assms(7) by (simp_all add: node_def leaf_node_def)
  have e: "EVEN (?k + length db) = EVEN (?k + length db') + delta" "?k + length db' \<le> EVEN (?k + length db')" "EVEN (?k + length db') \<le> ?k + length db' + 1"
    using m'(5,6) unfolding EVEN_def by presburger+
  have "take (?k + length db') (drop (ptr + delta) m4) = leaf_node fl (length db') key db'"
  proof (rule node_moved [OF _ m'(3,4)])
    show "m4 ! (ptr + delta + i) = m' ! (ptr + i)" if "i < ?k" for i using m4(4) [of "ptr + i"] that up by (simp add: algebra_simps)
  qed (use m4(2,5) m'(1,5) at(2) in auto)
  then have here: "take (length node) (drop (ptr + delta) m4) = node" by (simp add: len(1) [symmetric] node_def)
  let ?p' = "p\<lparr>mp_mem := m4, mp_upper := ?u + delta\<rparr>"
  have "\<exists>pad'. wf_page psize ?p' \<and> length pad' = node_len (IS_LEAF p) node 0 - length node \<and> page_nodes ?p' = (page_nodes p)[indx := node @ pad']"
  proof (rule resize_core [OF assms(1,3) ptr_def _ _ _ _ _ m4(2,3) _ _ here])
    show "m4 ! (k + (ptr + delta) - ptr) = ?m ! k" if "?u \<le> k" "k < ptr" for k using m4(4) [of k] m'(2) [of k] that at(2) by simp
    show "m4 ! k = ?m ! k" if "ptr + node_len (IS_LEAF p) ?m ptr \<le> k" "k < psize" for k
      using m4(5) [of k] m'(2) [of k] that e at(1) assms(2) by simp
  qed (use len e at(1) assms(2) wf(3) in simp_all)
  then obtain pad' where pad': "wf_page psize ?p'" "length pad' = EVEN (?k + length db') - (?k + length db')" "page_nodes ?p' = (page_nodes p)[indx := node @ pad']"
    using len assms(2) by auto
  have left: "SIZELEFT ?p' = SIZELEFT p + SIZELEFT sp" "SIZELEFT sp' = 0"
    using sizeleft [OF pad'(1)] sizeleft [OF assms(1)] sizeleft [OF sp'(2)] sp'(3) wf(3) by (simp_all add: delta_def)
  show ?thesis
    using run m4(1) pad' e(3) m'(5) left sp' by (intro exI [of _ ?p'] exI [of _ db'] exI [of _ pad'] exI [of _ sp']) (simp add: node_def delta_def)
qed

subsection \<open>An example\<close>

text \<open>A sub-page of 28 bytes with one node and 2 bytes of free space, and a page of 64 bytes that has it as the data of its only node.\<close>

definition sub_bytes :: "byte list" where
  "sub_bytes = replicate 10 0 @ [0x42, 0, 18, 0, 20, 0] @ [20, 0] @ [0, 0] @ replicate 8 0"

definition sub_owner :: mdb_page where
  "sub_owner = \<lparr>mp_pgno = 5, mp_pad = 0, mp_flags = P_LEAF, mp_lower = 18, mp_upper = 28,
     mp_mem = replicate 16 0 @ [28, 0] @ replicate 10 0 @ leaf_node 4 28 [] sub_bytes\<rparr>"

definition sub_example :: mdb_page where
  "sub_example = \<lparr>mp_pgno = 0, mp_pad = 0, mp_flags = 0x42, mp_lower = 18, mp_upper = 20, mp_mem = sub_bytes\<rparr>"

lemma sub_example_ok: "sub_page sub_bytes 0 = Inr sub_example" "wf_page (length sub_bytes) sub_example" "SIZELEFT sub_example = 2" "length sub_bytes = 28"
proof -
  have zero: "le_value (replicate n 0) = 0" for n by (induction n) simp_all
  show "sub_page sub_bytes 0 = Inr sub_example" and len: "length sub_bytes = 28" and "SIZELEFT sub_example = 2"
    by (simp_all add: sub_page_def sub_example_def sub_bytes_def rd_bytes_def PAGEHDRSZ_def SIZELEFT_def indx_t_def Let_def zero)
  have "NUMKEYS sub_example = 1" "slot (mp_mem sub_example) 0 = 20" "node_len leaf (mp_mem sub_example) 20 = 8" for leaf
    by (simp_all add: sub_example_def sub_bytes_def NUMKEYS_def slot_def le16_def node_len_def PAGEHDRSZ_def NODESIZE_def EVEN_def nth_append)
  then show "wf_page (length sub_bytes) sub_example"
    using len unfolding wf_page_def slots_ok_def by (simp add: sub_example_def PAGEHDRSZ_def IS_LEAF2_def F_ISSET_def P_LEAF2_def)
qed

lemma sub_owner_ok: "wf_page 64 sub_owner" "IS_LEAF sub_owner" "NUMKEYS sub_owner = 1" "page_nodes sub_owner = [leaf_node 4 28 [] sub_bytes]"
proof -
  have node: "length (leaf_node 4 28 [] sub_bytes) = 36" using sub_example_ok(4) by (simp add: leaf_node_def)
  have mem: "drop 28 (mp_mem sub_owner) = leaf_node 4 28 [] sub_bytes" "length (mp_mem sub_owner) = 64" using node by (simp_all add: sub_owner_def)
  have slot: "slot (mp_mem sub_owner) 0 = 28" by (simp add: sub_owner_def slot_def le16_def PAGEHDRSZ_def nth_append)
  have "mp_mem sub_owner ! (28 + k) = leaf_node 4 28 [] sub_bytes ! k" for k
    using nth_append_length_plus [of "replicate 16 0 @ [28, 0] @ replicate 10 0" _ k] by (simp add: sub_owner_def)
  then have nl: "node_len True (mp_mem sub_owner) 28 = 36"
    using node_len_cong [of "mp_mem sub_owner" 28 "leaf_node 4 28 [] sub_bytes" 0 True] node_len_leaf [of "[]" 4 28 sub_bytes] by (simp add: EVEN_def)
  show keys: "NUMKEYS sub_owner = 1" and leaf: "IS_LEAF sub_owner" by (simp_all add: sub_owner_def NUMKEYS_def IS_LEAF_def F_ISSET_def PAGEHDRSZ_def P_LEAF_def)
  show "page_nodes sub_owner = [leaf_node 4 28 [] sub_bytes]" using keys leaf slot nl mem(1) node by (simp add: page_nodes_def node_bytes_def)
  show "wf_page 64 sub_owner"
    using keys leaf slot nl mem(2) unfolding wf_page_def slots_ok_def by (simp add: sub_owner_def PAGEHDRSZ_def IS_LEAF2_def F_ISSET_def P_LEAF_def P_LEAF2_def)
qed

theorem mdb_node_shrink_correct_witness:
  "\<exists>p' db' pad' sp'. mdb_node_shrink sub_owner 0 = Inr p' \<and> page_nodes p' = [leaf_node 4 26 [] db' @ pad'] \<and> length db' = 26 \<and>
     sub_page db' 0 = Inr sp' \<and> page_nodes sp' = page_nodes sub_example"
proof -
  obtain p' db' pad' sp' where "mdb_node_shrink sub_owner 0 = Inr p'" "page_nodes p' = [leaf_node 4 (length db') [] db' @ pad']" "length db' + 2 = 28"
    "sub_page db' 0 = Inr sp'" "page_nodes sp' = page_nodes sub_example"
    using mdb_node_shrink_correct [of 64 sub_owner 0 4 sub_bytes "[]" "[]" sub_example] sub_example_ok sub_owner_ok by auto
  then show ?thesis by auto
qed

end
