(* ===== verification/Mdb_Free.thy ===== *)
theory Mdb_Free
  imports Mdb_Versions
begin

text \<open>
  \<open>mdb_ovpage_free\<close> of \<open>GalaDB/lmdb/mdb.c\<close>, which frees a chain of overflow pages. Pages that the transaction itself has
  allocated, found in its dirty list or its spill list, go back to the list of pages that can be allocated, and others to
  the list of pages that are freed when the transaction commits. The lists are those of \<open>Midl\<close>.
\<close>

subsection \<open>The operation\<close>

text \<open>
  What the function reads and changes of the environment, the transaction and the database. The entries of the dirty list carry the addresses of
  the pages, of any type.
\<close>

record 'p ov_state =
  ov_pghead :: "midl option"
  ov_parent :: bool
  ov_spill :: "MDB_ID list option"
  ov_dirty :: "'p MDB_ID2 list"
  ov_free_pgs :: midl
  ov_dirty_room :: uint32
  ov_pages :: uint64

text \<open>\<open>sl && (x = mdb_midl_search(sl, pn)) <= sl[0] && sl[x] == pn\<close>, and \<open>x\<close>\<close>

definition spill_find :: "MDB_ID list option \<Rightarrow> MDB_ID \<Rightarrow> mdb_fault + nat option" where
  "spill_find sl pn = (case sl of None \<Rightarrow> Inr None
     | Some sp \<Rightarrow> ebind (of_arr (mdb_midl_search sp pn)) (\<lambda>x. ebind (of_arr (aget sp 0)) (\<lambda>c.
         if x \<le> unat c then ebind (of_arr (aget sp x)) (\<lambda>v. Inr (if v = pn then Some x else None)) else Inr None)))"

definition spill_drop :: "MDB_ID list \<Rightarrow> nat \<Rightarrow> mdb_fault + MDB_ID list" where
  "spill_drop sl x = ebind (of_arr (aget sl 0)) (\<lambda>c.
     if x = unat c then of_arr (aset sl 0 (c - 1)) else ebind (of_arr (aget sl x)) (\<lambda>v. of_arr (aset sl x (v OR 1))))"

text \<open>
  The loop that takes the page out of the dirty list, with \<open>ix\<close> the entry that was at \<open>x\<close>. The assertion \<open>x > 1\<close> is compiled in,
  as in the build of the library; the return of \<open>MDB_CORRUPTED\<close> behind it is reached only without assertions.
\<close>

fun dirty_remove :: "'p \<Rightarrow> 'p MDB_ID2 \<Rightarrow> nat \<Rightarrow> 'p MDB_ID2 list \<Rightarrow> mdb_fault + 'p MDB_ID2 list" where
  "dirty_remove mp ix 0 dl = (if mptr ix = mp then Inr dl else Inl Assert_Fail)"
| "dirty_remove mp ix (Suc x) dl = (if mptr ix = mp then Inr dl
     else if Suc x > 1 then ebind (of_arr (aget dl x)) (\<lambda>iy. ebind (of_arr (aset dl x ix)) (dirty_remove mp iy x))
     else Inl Assert_Fail)"

text \<open>\<open>x = dl[0].mid--\<close>, and the loop from \<open>dl[x]\<close>\<close>

definition dirty_drop :: "'p \<Rightarrow> 'p MDB_ID2 list \<Rightarrow> mdb_fault + 'p MDB_ID2 list" where
  "dirty_drop mp dl = ebind (of_arr (aget dl 0)) (\<lambda>c. let x = unat (ucast (mid c) :: uint32) in
     ebind (of_arr (aset dl 0 (c\<lparr>mid := mid c - 1\<rparr>))) (\<lambda>dl. ebind (of_arr (aget dl x)) (\<lambda>ix. dirty_remove mp ix x dl)))"

text \<open>Taking the chain out of the dirty list or of the spill list, where it is at \<open>x\<close>\<close>

definition ov_release :: "'p ov_state \<Rightarrow> 'p \<Rightarrow> nat \<Rightarrow> bool \<Rightarrow> mdb_fault + 'p ov_state" where
  "ov_release s mp x dirty = (if \<not> dirty then ebind (spill_drop (the (ov_spill s)) x) (\<lambda>sl. Inr (s\<lparr>ov_spill := Some sl\<rparr>))
     else ebind (dirty_drop mp (ov_dirty s)) (\<lambda>dl. Inr (s\<lparr>ov_dirty := dl\<rparr>)))"

text \<open>\<open>for (i = mop[0]; i && mop[i] < pg; i--) mop[j--] = mop[i];\<close>\<close>

fun head_shift :: "MDB_ID \<Rightarrow> nat \<Rightarrow> nat \<Rightarrow> MDB_ID list \<Rightarrow> mdb_fault + nat \<times> nat \<times> MDB_ID list" where
  "head_shift pg 0 j mop = Inr (0, j, mop)"
| "head_shift pg (Suc i) j mop = ebind (of_arr (aget mop (Suc i))) (\<lambda>v.
     if v < pg then ebind (of_arr (aset mop j v)) (head_shift pg i (j - 1)) else Inr (Suc i, j, mop))"

text \<open>The insertion into \<open>me_pghead\<close>. The loop \<open>while (j>i) mop[j--] = pg++;\<close> is that of \<open>mdb_midl_append_range\<close>.\<close>

definition head_insert :: "MDB_ID list \<Rightarrow> MDB_ID \<Rightarrow> uint32 \<Rightarrow> mdb_fault + MDB_ID list" where
  "head_insert mop pg ovpages = ebind (of_arr (aget mop 0)) (\<lambda>c.
     ebind (head_shift pg (unat (ucast c :: uint32)) (unat (ucast (c + ucast ovpages) :: uint32)) mop) (\<lambda>(i, j, mop).
     ebind (of_arr (append_range_loop mop i (j - i) pg)) (\<lambda>mop.
     ebind (of_arr (aget mop 0)) (\<lambda>c. of_arr (aset mop 0 (c + ucast ovpages))))))"

text \<open>
  \<open>dirty\<close> is the flag \<open>P_DIRTY\<close> of the page at \<open>mp\<close>, whose number is \<open>pg\<close> and which has \<open>ovpages\<close> pages. \<open>ok\<close> says whether \<open>realloc\<close> succeeds and \<open>junk\<close> is
  what it leaves in new memory. The memory of a dirty page is freed afterwards.
\<close>

definition mdb_ovpage_free ::
  "bool \<Rightarrow> MDB_ID \<Rightarrow> 'p ov_state \<Rightarrow> 'p \<Rightarrow> MDB_ID \<Rightarrow> uint32 \<Rightarrow> bool \<Rightarrow> mdb_fault + int \<times> 'p ov_state" where
  "mdb_ovpage_free ok junk s mp pg ovpages dirty =
     ebind (case ov_pghead s of Some h \<Rightarrow> if ov_parent s then Inr None
              else if dirty then Inr (Some (h, 0)) else ebind (spill_find (ov_spill s) (push_bit 1 pg)) (\<lambda>x. Inr (map_option (Pair h) x))
            | None \<Rightarrow> Inr None) (\<lambda>own. case own of
       Some (h, x) \<Rightarrow> ebind (of_arr (mdb_midl_need ok junk h ovpages)) (\<lambda>(rc, h).
         if rc \<noteq> 0 then Inr (rc, s\<lparr>ov_pghead := Some h\<rparr>)
         else ebind (ov_release s mp x dirty) (\<lambda>s.
           ebind (head_insert (midl_ids h) pg ovpages) (\<lambda>mop.
           Inr (0, s\<lparr>ov_pghead := Some (h\<lparr>midl_ids := mop\<rparr>), ov_pages := ov_pages s - ucast ovpages\<rparr>))))
     | None \<Rightarrow> ebind (of_arr (mdb_midl_append_range ok junk (ov_free_pgs s) pg (unat ovpages))) (\<lambda>(rc, l).
         if rc \<noteq> 0 then Inr (rc, s\<lparr>ov_free_pgs := l\<rparr>) else Inr (0, s\<lparr>ov_free_pgs := l, ov_pages := ov_pages s - ucast ovpages\<rparr>)))"

subsection \<open>The dirty list\<close>

lemma dirty_remove_ok:
  assumes "1 \<le> k" "k \<le> x" "x < length dl" and "if k = x then mptr ix = mp else mptr (dl ! k) = mp \<and> mptr ix \<noteq> mp"
    and "\<And>i. k < i \<Longrightarrow> i < x \<Longrightarrow> mptr (dl ! i) \<noteq> mp"
  shows "\<exists>dl'. dirty_remove mp ix x dl = Inr dl' \<and> length dl' = length dl \<and>
    (\<forall>i<length dl. dl' ! i = (if k \<le> i \<and> i < x then if Suc i = x then ix else dl ! Suc i else dl ! i))"
  using assms
proof (induction x arbitrary: ix dl)
  case (Suc x)
  show ?case
  proof (cases "k = Suc x")
    case True
    then show ?thesis using Suc.prems(4) by auto
  next
    case False
    then have k: "k \<le> x" "1 \<le> x" "mptr (dl ! k) = mp" "mptr ix \<noteq> mp" using Suc.prems(1,2,4) by auto
    let ?dl = "dl[x := ix]"
    have run: "dirty_remove mp ix (Suc x) dl = dirty_remove mp (dl ! x) x ?dl"
      using k Suc.prems(3) by (simp add: of_arr_def aget_def aset_def)
    have "if k = x then mptr (dl ! x) = mp else mptr (?dl ! k) = mp \<and> mptr (dl ! x) \<noteq> mp"
      using k Suc.prems(3) Suc.prems(5) [of x] by auto
    then obtain dl' where dl': "dirty_remove mp (dl ! x) x ?dl = Inr dl'" "length dl' = length dl"
      "\<And>i. i < length dl \<Longrightarrow> dl' ! i = (if k \<le> i \<and> i < x then if Suc i = x then dl ! x else ?dl ! Suc i else ?dl ! i)"
      using Suc.IH [of ?dl "dl ! x"] k Suc.prems(1,3,5) by (auto simp: nth_list_update)
    have "dl' ! i = (if k \<le> i \<and> i < Suc x then if Suc i = Suc x then ix else dl ! Suc i else dl ! i)" if "i < length dl" for i
      using dl'(3) [OF that] that k(1) by (auto simp: nth_list_update)
    then show ?thesis using run dl'(1,2) by auto
  qed
qed simp

lemma length_filter_one: "distinct (map f xs) \<Longrightarrow> y \<in> f ` set xs \<Longrightarrow> Suc (length (filter (\<lambda>x. f x \<noteq> y) xs)) = length xs"
proof (induction xs)
  case (Cons x xs)
  have "filter (\<lambda>z. f z \<noteq> y) xs = xs" if "f x = y" using Cons.prems(1) that by (auto simp: filter_id_conv image_iff)
  then show ?case using Cons by (cases "f x = y") auto
qed simp

text \<open>The list after the count has been lowered and the loop has run.\<close>

lemma dirty_removed:
  assumes N: "N = unat (mid (dl ! 0))" "N < length dl" "N < 2 ^ 32" and es: "distinct (map mptr (mid2l_elems dl))" "mp \<in> mptr ` set (mid2l_elems dl)"
  shows "\<exists>dl'. ebind (of_arr (aset dl 0 ((dl ! 0)\<lparr>mid := mid (dl ! 0) - 1\<rparr>))) (\<lambda>dl. ebind (of_arr (aget dl N)) (\<lambda>ix. dirty_remove mp ix N dl)) = Inr dl' \<and>
    length dl' = length dl \<and> unat (mid (dl' ! 0)) = N - 1 \<and> mid2l_elems dl' = filter (\<lambda>e. mptr e \<noteq> mp) (mid2l_elems dl)"
proof -
  let ?es = "mid2l_elems dl" and ?dl = "dl[0 := (dl ! 0)\<lparr>mid := mid (dl ! 0) - 1\<rparr>]"
  have nth: "?es ! i = dl ! Suc i" if "i < N" for i using nth_mid2l_elems [of i dl] that N by simp
  have len: "length ?es = N" using length_mid2l_elems [of dl] N by simp
  obtain k where k: "k < N" "mptr (?es ! k) = mp" using es(2) len by (auto simp: in_set_conv_nth)
  have other: "mptr (?es ! i) \<noteq> mp" if "i < N" "i \<noteq> k" for i
    using nth_eq_iff_index_eq [OF es(1), of i k] that k len by simp
  have "if Suc k = N then mptr (dl ! N) = mp else mptr (?dl ! Suc k) = mp \<and> mptr (dl ! N) \<noteq> mp"
    using k other [of "N - 1"] nth [of k] nth [of "N - 1"] by auto
  moreover have "mptr (?dl ! i) \<noteq> mp" if "Suc k < i" "i < N" for i using other [of "i - 1"] nth [of "i - 1"] that by auto
  ultimately obtain dl' where dl': "dirty_remove mp (dl ! N) N ?dl = Inr dl'" "length dl' = length dl"
    "\<And>i. i < length dl \<Longrightarrow> dl' ! i = (if Suc k \<le> i \<and> i < N then if Suc i = N then dl ! N else ?dl ! Suc i else ?dl ! i)"
    using dirty_remove_ok [of "Suc k" N ?dl "dl ! N" mp] k(1) N(2) by auto
  have run: "ebind (of_arr (aset dl 0 ((dl ! 0)\<lparr>mid := mid (dl ! 0) - 1\<rparr>))) (\<lambda>dl. ebind (of_arr (aget dl N)) (\<lambda>ix. dirty_remove mp ix N dl)) = Inr dl'"
    using dl'(1) k(1) N(2) by (auto simp: of_arr_def aget_def aset_def)
  have "mid (dl ! 0) \<noteq> 0" using k(1) N(1) by auto
  moreover have "0 < length dl" using N(2) by linarith
  ultimately have cnt: "unat (mid (dl' ! 0)) = N - 1" using dl'(3) [of 0] N by (simp add: unat_minus_one)
  have split: "?es = take k ?es @ ?es ! k # drop (Suc k) ?es" using id_take_nth_drop [of k ?es] k(1) len by simp
  have "distinct (map mptr (take k ?es @ ?es ! k # drop (Suc k) ?es))" using es(1) split by simp
  then have "mptr e \<noteq> mp" if "e \<in> set (take k ?es) \<union> set (drop (Suc k) ?es)" for e using that k(2) by (auto simp: image_iff)
  then have "filter (\<lambda>e. mptr e \<noteq> mp) (take k ?es) = take k ?es" "filter (\<lambda>e. mptr e \<noteq> mp) (drop (Suc k) ?es) = drop (Suc k) ?es"
    by (simp_all add: filter_id_conv)
  then have "filter (\<lambda>e. mptr e \<noteq> mp) (take k ?es @ ?es ! k # drop (Suc k) ?es) = take k ?es @ drop (Suc k) ?es" using k(2) by simp
  then have "filter (\<lambda>e. mptr e \<noteq> mp) ?es = take k ?es @ drop (Suc k) ?es" using split by simp
  moreover have "mid2l_elems dl' = take k ?es @ drop (Suc k) ?es"
  proof (rule nth_equalityI)
    show "length (mid2l_elems dl') = length (take k ?es @ drop (Suc k) ?es)" using length_mid2l_elems [of dl'] cnt dl'(2) N(2) k(1) len by simp
    fix i assume "i < length (mid2l_elems dl')"
    then have i: "i < N - 1" using length_mid2l_elems [of dl'] cnt dl'(2) N(2) by simp
    then have "mid2l_elems dl' ! i = dl' ! Suc i" using nth_mid2l_elems [of i dl'] cnt dl'(2) N(2) by simp
    then show "mid2l_elems dl' ! i = (take k ?es @ drop (Suc k) ?es) ! i"
      using dl'(3) [of "Suc i"] i N(2) k(1) len nth [of i] nth [of "Suc i"] by (auto simp: nth_append)
  qed
  ultimately show ?thesis using run dl'(2) cnt by auto
qed

subsection \<open>The list of pages to allocate\<close>

lemma head_shift_ok:
  assumes "i + n < length mop"
  shows "\<exists>i' mop'. head_shift pg i (i + n) mop = Inr (i', i' + n, mop') \<and> i' \<le> i \<and> (0 < i' \<longrightarrow> pg \<le> mop ! i') \<and>
    (\<forall>t. i' < t \<and> t \<le> i \<longrightarrow> mop ! t < pg) \<and> length mop' = length mop \<and>
    (\<forall>t<length mop. mop' ! t = (if i' + n < t \<and> t \<le> i + n then mop ! (t - n) else mop ! t))"
  using assms
proof (induction i arbitrary: mop)
  case (Suc i)
  show ?case
  proof (cases "mop ! Suc i < pg")
    case True
    let ?mop = "mop[Suc i + n := mop ! Suc i]"
    have run: "head_shift pg (Suc i) (Suc i + n) mop = head_shift pg i (i + n) ?mop"
      using True Suc.prems by (simp add: of_arr_def aget_def aset_def)
    obtain i' mop' where IH: "head_shift pg i (i + n) ?mop = Inr (i', i' + n, mop')" "i' \<le> i" "0 < i' \<Longrightarrow> pg \<le> ?mop ! i'"
      "\<And>t. i' < t \<Longrightarrow> t \<le> i \<Longrightarrow> ?mop ! t < pg" "length mop' = length mop"
      "\<And>t. t < length mop \<Longrightarrow> mop' ! t = (if i' + n < t \<and> t \<le> i + n then ?mop ! (t - n) else ?mop ! t)"
      using Suc.IH [of ?mop] Suc.prems by auto
    have "mop' ! t = (if i' + n < t \<and> t \<le> Suc i + n then mop ! (t - n) else mop ! t)" if "t < length mop" for t
      using IH(6) [OF that] IH(2) that by (cases "t = Suc i + n") (auto simp: nth_list_update)
    moreover have "mop ! t < pg" if "i' < t" "t \<le> Suc i" for t
      using IH(4) [of t] that True by (cases "t = Suc i") (auto simp: nth_list_update split: if_splits)
    moreover have "pg \<le> mop ! i'" if "0 < i'" using IH(3) [OF that] IH(2) by (auto simp: nth_list_update split: if_splits)
    ultimately show ?thesis using run IH(1,2,5) by auto
  next
    case False
    then have "head_shift pg (Suc i) (Suc i + n) mop = Inr (Suc i, Suc i + n, mop)" using Suc.prems by (simp add: of_arr_def aget_def)
    then show ?thesis using False by (intro exI [of _ "Suc i"] exI [of _ mop]) auto
  qed
qed auto

lemma append_range_pages:
  assumes "i + n < length mop"
  shows "\<exists>mop'. append_range_loop mop i n pg = Some mop' \<and> length mop' = length mop \<and>
    (\<forall>t<length mop. mop' ! t = (if i < t \<and> t \<le> i + n then rev (map (\<lambda>j. pg + of_nat j) [0..<n]) ! (t - Suc i) else mop ! t))"
proof -
  obtain mop' where m: "append_range_loop mop i n pg = Some mop'" "length mop' = length mop" "\<And>t. t \<le> i \<or> i + n < t \<Longrightarrow> mop' ! t = mop ! t"
    "\<And>t. 1 \<le> t \<Longrightarrow> t \<le> n \<Longrightarrow> mop' ! (i + t) = pg + of_nat (n - t)"
    using append_range_loop_ok [OF assms, of pg] by blast
  have "mop' ! t = rev (map (\<lambda>j. pg + of_nat j) [0..<n]) ! (t - Suc i)" if "i < t" "t \<le> i + n" for t
  proof -
    have "t - Suc i < n" using that by linarith
    then have "rev (map (\<lambda>j. pg + of_nat j) [0..<n]) ! (t - Suc i) = pg + of_nat (n - Suc (t - Suc i))"
      by (simp add: rev_nth del: of_nat_diff)
    moreover have "n - Suc (t - Suc i) = n - (t - i)" "i + (t - i) = t" using that by linarith+
    ultimately show ?thesis using m(4) [of "t - i"] that by simp
  qed
  then show ?thesis using m(1-3) by (intro exI [of _ mop']) auto
qed

text \<open>The insertion puts the pages between the greater and the smaller ones.\<close>

lemma head_insert_ok:
  assumes "length mop > unat (mop ! 0) + unat n" and "unat (mop ! 0) + unat n < 2 ^ 32" and sorted: "sorted_wrt (>) (midl_elems mop)"
  shows "\<exists>mop'. head_insert mop pg n = Inr mop' \<and> length mop' = length mop \<and> unat (mop' ! 0) = unat (mop ! 0) + unat n \<and>
    midl_elems mop' = filter (\<lambda>x. pg \<le> x) (midl_elems mop) @ rev (map (\<lambda>j. pg + of_nat j) [0..<unat n]) @ filter (\<lambda>x. x < pg) (midl_elems mop)"
proof -
  let ?N = "unat (mop ! 0)" and ?n = "unat n" and ?es = "midl_elems mop" and ?R = "rev (map (\<lambda>j. pg + of_nat j) [0..<unat n])"
  have len: "length ?es = ?N" and nth: "\<And>i. i < ?N \<Longrightarrow> ?es ! i = mop ! Suc i"
    using length_midl_elems [of mop] nth_midl_elems [of _ mop] assms(1) by simp_all
  have c: "unat (ucast (mop ! 0) :: uint32) = ?N" "unat (mop ! 0 + ucast n) = ?N + ?n" "unat (ucast (mop ! 0 + ucast n) :: uint32) = ?N + ?n"
    using assms(2) unat_add_small [of "mop ! 0" "ucast n"] by (simp_all add: unat_ucast_64_32 unat_ucast_32_64)
  obtain i m1 where m1: "head_shift pg ?N (?N + ?n) mop = Inr (i, i + ?n, m1)" "i \<le> ?N" "0 < i \<Longrightarrow> pg \<le> mop ! i"
    "\<And>t. i < t \<Longrightarrow> t \<le> ?N \<Longrightarrow> mop ! t < pg" "length m1 = length mop"
    "\<And>t. t < length mop \<Longrightarrow> m1 ! t = (if i + ?n < t \<and> t \<le> ?N + ?n then mop ! (t - ?n) else mop ! t)"
    using head_shift_ok [of ?N ?n mop pg] assms(1) by blast
  obtain m2 where m2: "append_range_loop m1 i ?n pg = Some m2" "length m2 = length mop"
    "\<And>t. t < length mop \<Longrightarrow> m2 ! t = (if i < t \<and> t \<le> i + ?n then ?R ! (t - Suc i) else m1 ! t)"
    using append_range_pages [of i ?n m1 pg] m1(2,5) assms(1) by auto
  define m3 where "m3 = m2[0 := mop ! 0 + ucast n]"
  have "0 < length mop" using assms(1) by linarith
  then have zero: "m2 ! 0 = mop ! 0" "0 < length mop" using m2(3) [of 0] m1(6) [of 0] by simp_all
  have run: "head_insert mop pg n = Inr m3"
    using c m1(1) m2(1,2) zero by (auto simp: head_insert_def of_arr_def aget_def aset_def m3_def)
  have cnt: "unat (m3 ! 0) = ?N + ?n" "length m3 = length mop" using c(2) m2(2) zero(2) by (simp_all add: m3_def)
  have ge: "pg \<le> ?es ! t" if "t < i" for t
  proof -
    have "?es ! (i - 1) \<le> ?es ! t"
      using sorted_wrt_nth_less [OF sorted, of t "i - 1"] that m1(2) len by (cases "t = i - 1") (simp_all add: less_imp_le)
    moreover have "?es ! (i - 1) = mop ! i" using nth [of "i - 1"] that m1(2) by simp
    ultimately show ?thesis using m1(3) that by simp
  qed
  have lt: "?es ! t < pg" if "i \<le> t" "t < ?N" for t using m1(4) [of "Suc t"] nth [of t] that by simp
  have f1: "filter (\<lambda>x. pg \<le> x) ?es = take i ?es" and f2: "filter (\<lambda>x. x < pg) ?es = drop i ?es"
  proof -
    have a: "\<forall>x\<in>set (take i ?es). pg \<le> x" "\<forall>x\<in>set (drop i ?es). x < pg" using ge lt m1(2) len by (auto simp: in_set_conv_nth)
    then have "filter (\<lambda>x. pg \<le> x) (take i ?es @ drop i ?es) = take i ?es" "filter (\<lambda>x. x < pg) (take i ?es @ drop i ?es) = drop i ?es"
      unfolding filter_append by (auto simp: filter_id_conv filter_empty_conv not_le not_less)
    then show "filter (\<lambda>x. pg \<le> x) ?es = take i ?es" "filter (\<lambda>x. x < pg) ?es = drop i ?es" by simp_all
  qed
  have "midl_elems m3 = take i ?es @ ?R @ drop i ?es"
  proof (rule nth_equalityI)
    have l3: "length (midl_elems m3) = ?N + ?n" using length_midl_elems [of m3] cnt assms(1) by simp
    then show "length (midl_elems m3) = length (take i ?es @ ?R @ drop i ?es)" using len m1(2) by simp
    fix t assume "t < length (midl_elems m3)"
    then have t: "t < ?N + ?n" using l3 by simp
    then have "midl_elems m3 ! t = m2 ! Suc t" using nth_midl_elems [of t m3] cnt assms(1) by (simp add: m3_def)
    moreover note m = m2(3) [of "Suc t"] m1(6) [of "Suc t"]
    moreover consider "t < i" | "i \<le> t" "t < i + ?n" | "i + ?n \<le> t" by linarith
    then have "m2 ! Suc t = (take i ?es @ ?R @ drop i ?es) ! t"
    proof cases
      case 1
      then show ?thesis using m t assms(1) m1(2) len nth [of t] by (simp add: nth_append)
    next
      case 2
      then have "(take i ?es @ ?R @ drop i ?es) ! t = ?R ! (t - i)" using m1(2) len by (simp add: nth_append del: map_map)
      then show ?thesis using 2 m t assms(1) by simp
    next
      case 3
      then have "\<not> t < i" "\<not> t - i < ?n" "i + (t - i - ?n) = t - ?n" by linarith+
      then have "(take i ?es @ ?R @ drop i ?es) ! t = ?es ! (t - ?n)" using m1(2) len t by (simp add: nth_append)
      moreover have "Suc t - ?n = Suc (t - ?n)" "t - ?n < ?N" using 3 t by linarith+
      ultimately show ?thesis using 3 m t assms(1) nth [of "t - ?n"] by simp
    qed
    ultimately show "midl_elems m3 ! t = (take i ?es @ ?R @ drop i ?es) ! t" by simp
  qed
  then show ?thesis using run cnt f1 f2 by auto
qed

text \<open>The pages of a chain, in the order of an ID list.\<close>

definition ov_range :: "MDB_ID \<Rightarrow> nat \<Rightarrow> MDB_ID list" where
  "ov_range pg n = rev (map (\<lambda>j. pg + of_nat j) [0..<n])"

lemma ov_range_unat:
  assumes "unat pg + n \<le> 2 ^ 64"
  shows "x \<in> set (ov_range pg n) \<longleftrightarrow> unat pg \<le> unat x \<and> unat x < unat pg + n" and "sorted_wrt (>) (ov_range pg n)"
proof -
  have plus: "unat (pg + of_nat j) = unat pg + j" if "j < n" for j
    using that assms unat_add_small [of pg "of_nat j"] unat_of_nat_64 [of j] by simp
  show "x \<in> set (ov_range pg n) \<longleftrightarrow> unat pg \<le> unat x \<and> unat x < unat pg + n"
  proof
    assume r: "unat pg \<le> unat x \<and> unat x < unat pg + n"
    then have "unat x - unat pg < n" by linarith
    moreover from plus [OF this] r have "x = pg + of_nat (unat x - unat pg)" by (intro word_unat_eq_iff [THEN iffD2]) (simp del: of_nat_diff)
    ultimately show "x \<in> set (ov_range pg n)" unfolding ov_range_def by (auto simp del: of_nat_diff)
  qed (auto simp: ov_range_def plus)
  have "sorted_wrt (<) (map (\<lambda>j. pg + of_nat j) [0..<n])"
    unfolding sorted_wrt_map by (rule sorted_wrt_mono_rel [OF _ sorted_wrt_upt]) (simp add: word_less_nat_alt plus)
  then show "sorted_wrt (>) (ov_range pg n)" by (simp add: ov_range_def sorted_wrt_rev)
qed

lemma head_inserted:
  assumes "midl_wf h" "unat (midl_ids h ! 0) + unat n \<le> unat (midl_cap h)" "unat (midl_ids h ! 0) + unat n < 2 ^ 32"
    and sorted: "sorted_wrt (>) (midl_list h)" and pg: "unat pg + unat n \<le> 2 ^ 64" "set (midl_list h) \<inter> set (ov_range pg (unat n)) = {}"
  shows "\<exists>mop. head_insert (midl_ids h) pg n = Inr mop \<and> midl_wf (h\<lparr>midl_ids := mop\<rparr>) \<and> sorted_wrt (>) (midl_elems mop) \<and>
    set (midl_elems mop) = set (midl_list h) \<union> set (ov_range pg (unat n))"
proof -
  let ?es = "midl_list h" and ?R = "ov_range pg (unat n)"
  have len: "length (midl_ids h) > unat (midl_ids h ! 0) + unat n" using assms(1,2) by (simp add: midl_wf_def)
  obtain mop where mop: "head_insert (midl_ids h) pg n = Inr mop" "length mop = length (midl_ids h)"
    "unat (mop ! 0) = unat (midl_ids h ! 0) + unat n"
    "midl_elems mop = filter (\<lambda>x. pg \<le> x) ?es @ ?R @ filter (\<lambda>x. x < pg) ?es"
    using head_insert_ok [OF len assms(3) sorted, of pg] by (auto simp: ov_range_def)
  have "unat pg + unat n \<le> unat x" if "x \<in> set ?es" "pg \<le> x" for x
    using that pg(2) ov_range_unat(1) [OF pg(1), of x] by (auto simp: word_le_nat_alt)
  then have "sorted_wrt (>) (midl_elems mop)"
    using sorted ov_range_unat [OF pg(1)] unfolding mop(4)
    by (fastforce simp: sorted_wrt_append sorted_wrt_filter word_less_nat_alt word_le_nat_alt)
  moreover have "set (midl_elems mop) = set ?es \<union> set ?R" unfolding mop(4) by auto
  ultimately show ?thesis using mop(1-3) assms(1,2) by (auto simp: midl_wf_def)
qed

subsection \<open>The spill list\<close>

text \<open>
  The entries of a spill list are page numbers shifted left by one bit. The lowest bit marks an entry as deleted; the live entries are even. No
  page has two entries.
\<close>

definition spill_ok :: "MDB_ID list \<Rightarrow> bool" where
  "spill_ok sl \<longleftrightarrow> unat (sl ! 0) < length sl \<and> unat (sl ! 0) + 1 < 2 ^ 32 \<and> sorted_wrt (>) (map (drop_bit 1) (midl_elems sl))"

definition spill_live :: "MDB_ID list \<Rightarrow> MDB_ID list" where
  "spill_live sl = filter even (midl_elems sl)"

lemma drop_bit_nat_half: "drop_bit 1 (m :: nat) \<le> drop_bit 1 n" if "m \<le> n"
  using that by (simp add: drop_bit_eq_div div_le_mono)

lemma spill_ok_sorted:
  assumes "spill_ok sl"
  shows "sorted_wrt (>) (midl_elems sl)"
proof -
  have "drop_bit 1 a \<le> drop_bit 1 b" if "a \<le> b" for a b :: MDB_ID
    unfolding word_le_nat_alt unat_drop_bit_eq using that by (intro drop_bit_nat_half) (simp add: word_le_nat_alt)
  then have "a > b" if "drop_bit 1 a > drop_bit 1 b" for a b :: MDB_ID using that by (meson leD leI)
  then show "sorted_wrt (>) (midl_elems sl)"
    using sorted_wrt_mono_rel [of "midl_elems sl" "\<lambda>a b. drop_bit 1 a > drop_bit 1 b" "(>)"] assms by (simp add: spill_ok_def sorted_wrt_map)
qed

lemma filter_without:
  assumes "xs = a @ p # b" "p \<notin> set a \<union> set b"
  shows "filter (\<lambda>x. x \<noteq> p) (filter P xs) = filter P (a @ b)"
  using assms(2) unfolding assms(1) by (auto intro!: arg_cong2 [where f = append] filter_cong)

lemma spill_find_ok:
  assumes "spill_ok sl"
  shows "\<exists>x. spill_find (Some sl) pn = Inr x \<and> (case x of None \<Rightarrow> pn \<notin> set (midl_elems sl)
    | Some x \<Rightarrow> pn \<in> set (midl_elems sl) \<and> 1 \<le> x \<and> x \<le> unat (sl ! 0) \<and> sl ! x = pn)"
proof -
  obtain p where p: "mdb_midl_search sl pn = Some p" "1 \<le> p" "pn \<in> set (midl_elems sl) \<longleftrightarrow> p \<le> unat (sl ! 0) \<and> sl ! p = pn"
    using midl_search_split [of sl pn] assms spill_ok_sorted [OF assms] by (auto simp: spill_ok_def)
  have "0 < length sl" "unat (sl ! 0) < length sl" using assms by (auto simp: spill_ok_def)
  then show ?thesis using p by (auto simp: spill_find_def of_arr_def aget_def)
qed

lemma spill_drop_ok:
  assumes sl: "spill_ok sl" and x: "1 \<le> x" "x \<le> unat (sl ! 0)" and pn: "sl ! x = pn" "even pn"
  shows "\<exists>sl'. spill_drop sl x = Inr sl' \<and> spill_ok sl' \<and> spill_live sl' = filter (\<lambda>e. e \<noteq> pn) (spill_live sl)"
proof -
  let ?N = "unat (sl ! 0)" and ?es = "midl_elems sl"
  have N: "?N < length sl" "0 < length sl" using sl by (auto simp: spill_ok_def)
  have len: "length ?es = ?N" using N(1) by (rule length_midl_elems)
  have at: "?es ! (x - 1) = pn" using nth_midl_elems [of "x - 1" sl] N x pn by simp
  have split: "?es = take (x - 1) ?es @ pn # drop x ?es" using id_take_nth_drop [of "x - 1" ?es] at x len by simp
  have "sorted_wrt (<) (rev ?es)" using spill_ok_sorted [OF sl] by (simp add: sorted_wrt_rev)
  then have "distinct ?es" by (simp add: strict_sorted_iff)
  then have "distinct (take (x - 1) ?es @ pn # drop x ?es)" using split by simp
  then have live: "filter (\<lambda>e. e \<noteq> pn) (spill_live sl) = filter even (take (x - 1) ?es @ drop x ?es)"
    unfolding spill_live_def by (intro filter_without [OF split]) auto
  show ?thesis
  proof (cases "x = ?N")
    case True
    let ?sl = "sl[0 := sl ! 0 - 1]"
    have c: "unat (sl ! 0 - 1) = ?N - 1" using x by (intro unat_minus_one) auto
    have es: "midl_elems ?sl = take (x - 1) ?es" using c True N by (cases sl) (simp_all add: midl_elems_def min_def)
    have "spill_ok ?sl" using sl c N unfolding spill_ok_def es by (auto simp: take_map [symmetric] sorted_wrt_take)
    moreover have "spill_drop sl x = Inr ?sl" using True N by (simp add: spill_drop_def of_arr_def aget_def aset_def)
    ultimately show ?thesis using live True len by (simp add: spill_live_def es)
  next
    case False
    let ?sl = "sl[x := pn OR 1]"
    obtain y where y: "x = Suc y" using x(1) by (cases x) auto
    have es: "midl_elems ?sl = ?es[x - 1 := pn OR 1]" using N y by (cases sl) (simp_all add: midl_elems_def take_update_swap)
    have "drop_bit 1 (pn OR 1) = drop_bit 1 pn" by (simp add: drop_bit_or)
    then have "map (drop_bit 1) (midl_elems ?sl) = map (drop_bit 1) ?es"
      unfolding es map_update using at x len by (simp add: list_update_same_conv)
    then have "spill_ok ?sl" using sl N y by (simp add: spill_ok_def)
    moreover have "spill_drop sl x = Inr ?sl" using False N x pn by (simp add: spill_drop_def of_arr_def aget_def aset_def)
    moreover have "?es[x - 1 := pn OR 1] = take (x - 1) ?es @ (pn OR 1) # drop x ?es" using upd_conv_take_nth_drop [of "x - 1" ?es] x len by simp
    ultimately show ?thesis using live by (simp add: spill_live_def es even_or_iff)
  qed
qed

subsection \<open>Freeing a chain\<close>

text \<open>The lists of the environment and of the transaction are well formed. The bounds on the counts are those of the C types.\<close>

definition ov_ok :: "'p ov_state \<Rightarrow> bool" where
  "ov_ok s \<longleftrightarrow> (case ov_pghead s of None \<Rightarrow> True | Some h \<Rightarrow> midl_wf h \<and> sorted_wrt (>) (midl_list h)) \<and>
     (case ov_spill s of None \<Rightarrow> True | Some sl \<Rightarrow> spill_ok sl) \<and>
     mid2l_wf (ov_dirty s) \<and> distinct (map mptr (mid2l_elems (ov_dirty s))) \<and> midl_wf (ov_free_pgs s)"

text \<open>The pages that the environment can allocate, and the spilled pages.\<close>

definition head_list :: "'p ov_state \<Rightarrow> MDB_ID list" where
  "head_list s = (case ov_pghead s of None \<Rightarrow> [] | Some h \<Rightarrow> midl_list h)"

definition live_spilled :: "'p ov_state \<Rightarrow> MDB_ID list" where
  "live_spilled s = (case ov_spill s of None \<Rightarrow> [] | Some sl \<Rightarrow> spill_live sl)"

text \<open>The chain belongs to the transaction, which can give it back at once.\<close>

definition ov_own :: "'p ov_state \<Rightarrow> MDB_ID \<Rightarrow> bool \<Rightarrow> bool" where
  "ov_own s pg dirty \<longleftrightarrow> ov_pghead s \<noteq> None \<and> \<not> ov_parent s \<and> (dirty \<or> push_bit 1 pg \<in> set (live_spilled s))"

text \<open>What the two lists lose.\<close>

definition ov_released :: "'p ov_state \<Rightarrow> 'p ov_state \<Rightarrow> 'p \<Rightarrow> MDB_ID \<Rightarrow> bool \<Rightarrow> bool" where
  "ov_released s s' mp pg dirty \<longleftrightarrow>
     (if dirty then mid2l_elems (ov_dirty s') = filter (\<lambda>e. mptr e \<noteq> mp) (mid2l_elems (ov_dirty s)) \<and> ov_spill s' = ov_spill s
      else live_spilled s' = filter (\<lambda>e. e \<noteq> push_bit 1 pg) (live_spilled s) \<and> ov_dirty s' = ov_dirty s)"

lemma dirty_released:
  assumes "mid2l_wf dl" "distinct (map mptr (mid2l_elems dl))" "mp \<in> mptr ` set (mid2l_elems dl)"
  shows "\<exists>dl'. dirty_drop mp dl = Inr dl' \<and>
    mid2l_wf dl' \<and> mid2l_elems dl' = filter (\<lambda>e. mptr e \<noteq> mp) (mid2l_elems dl) \<and> distinct (map mptr (mid2l_elems dl'))"
proof -
  let ?N = "unat (mid (dl ! 0))"
  have N: "?N < length dl" "?N < 2 ^ 32" "0 < length dl" using assms(1) by (auto simp: mid2l_wf_def MDB_IDL_UM_MAX_def)
  obtain dl' where dl': "ebind (of_arr (aset dl 0 ((dl ! 0)\<lparr>mid := mid (dl ! 0) - 1\<rparr>))) (\<lambda>dl. ebind (of_arr (aget dl ?N)) (\<lambda>ix. dirty_remove mp ix ?N dl)) = Inr dl'"
    "length dl' = length dl" "unat (mid (dl' ! 0)) = ?N - 1" "mid2l_elems dl' = filter (\<lambda>e. mptr e \<noteq> mp) (mid2l_elems dl)"
    using dirty_removed [OF refl N(1,2) assms(2,3)] by blast
  have "sorted_wrt (<) (map mid (mid2l_elems dl'))" using assms(1) unfolding dl'(4) mid2l_wf_def sorted_wrt_map by (simp add: sorted_wrt_filter)
  then have "mid2l_wf dl'" using assms(1) dl'(2,3) by (auto simp: mid2l_wf_def)
  moreover have "distinct (map mptr (mid2l_elems dl'))" using assms(2) unfolding dl'(4) by (rule distinct_map_filter)
  moreover have "of_arr (aget dl 0) = Inr (dl ! 0)" using N(3) by (simp add: of_arr_def aget_def)
  ultimately show ?thesis using dl'(1,4) N(2) by (simp add: dirty_drop_def Let_def unat_ucast_64_32)
qed

lemma even_push_bit_1: "even (push_bit 1 (pg :: MDB_ID))"
  by (simp add: push_bit_eq_mult)

lemma ov_released_ok:
  assumes "ov_ok s" "ov_own s pg dirty" and dirty: "dirty \<Longrightarrow> mp \<in> mptr ` set (mid2l_elems (ov_dirty s))"
  shows "\<exists>x s'. (if dirty then Inr (Some 0) else spill_find (ov_spill s) (push_bit 1 pg)) = Inr (Some x) \<and>
    ov_release s mp x dirty = Inr s' \<and> ov_ok s' \<and> ov_released s s' mp pg dirty \<and>
    ov_pghead s' = ov_pghead s \<and> ov_free_pgs s' = ov_free_pgs s \<and> ov_dirty_room s' = ov_dirty_room s \<and> ov_pages s' = ov_pages s"
proof (cases dirty)
  case True
  then obtain dl where "dirty_drop mp (ov_dirty s) = Inr dl" "mid2l_wf dl" "distinct (map mptr (mid2l_elems dl))"
    "mid2l_elems dl = filter (\<lambda>e. mptr e \<noteq> mp) (mid2l_elems (ov_dirty s))"
    using dirty_released [of "ov_dirty s" mp] dirty assms(1) by (auto simp: ov_ok_def)
  then show ?thesis using True assms(1) by (simp add: ov_release_def ov_ok_def ov_released_def)
next
  case False
  then obtain sl where sl: "ov_spill s = Some sl" "push_bit 1 pg \<in> set (midl_elems sl)"
    using assms(2) by (cases "ov_spill s") (auto simp: ov_own_def live_spilled_def spill_live_def)
  have ok: "spill_ok sl" using assms(1) sl(1) by (simp add: ov_ok_def)
  obtain x where x: "spill_find (Some sl) (push_bit 1 pg) = Inr (Some x)" "1 \<le> x" "x \<le> unat (sl ! 0)" "sl ! x = push_bit 1 pg"
    using spill_find_ok [OF ok, of "push_bit 1 pg"] sl(2) by (auto split: option.splits)
  obtain sl' where "spill_drop sl x = Inr sl'" "spill_ok sl'" "spill_live sl' = filter (\<lambda>e. e \<noteq> push_bit 1 pg) (spill_live sl)"
    using spill_drop_ok [OF ok x(2-4) even_push_bit_1] by blast
  then show ?thesis using False sl(1) x(1) assms(1) by (simp add: ov_release_def ov_ok_def ov_released_def live_spilled_def)
qed

lemma ov_own_none:
  assumes "ov_ok s" "\<not> ov_own s pg dirty" "ov_pghead s \<noteq> None" "\<not> ov_parent s"
  shows "\<not> dirty \<and> spill_find (ov_spill s) (push_bit 1 pg) = Inr None"
proof (cases "ov_spill s")
  case None
  then show ?thesis using assms by (simp add: ov_own_def spill_find_def)
next
  case (Some sl)
  have ok: "spill_ok sl" using assms(1) Some by (simp add: ov_ok_def)
  have "push_bit 1 pg \<notin> set (midl_elems sl)" "\<not> dirty"
    using assms Some even_push_bit_1 [of pg] by (auto simp: ov_own_def live_spilled_def spill_live_def)
  then show ?thesis using spill_find_ok [OF ok, of "push_bit 1 pg"] Some by (auto split: option.splits)
qed

text \<open>The two ways of the function.\<close>

lemma mdb_ovpage_free_own:
  assumes s: "ov_ok s" "ov_own s pg dirty" "dirty \<Longrightarrow> mp \<in> mptr ` set (mid2l_elems (ov_dirty s))"
    and pg: "unat pg + unat n \<le> 2 ^ 64" "set (head_list s) \<inter> set (ov_range pg (unat n)) = {}" "length (head_list s) + unat n < 2 ^ 30"
  shows "\<exists>rc s'. mdb_ovpage_free ok junk s mp pg n dirty = Inr (rc, s') \<and> ov_ok s' \<and>
    (if rc = 0 then ov_pages s' = ov_pages s - ucast n \<and> set (head_list s') = set (head_list s) \<union> set (ov_range pg (unat n)) \<and>
       ov_free_pgs s' = ov_free_pgs s \<and> ov_dirty_room s' = ov_dirty_room s \<and> ov_released s s' mp pg dirty
     else rc = ENOMEM \<and> \<not> ok \<and> s' = s)"
proof -
  obtain h where h: "ov_pghead s = Some h" "\<not> ov_parent s" using s(2) by (auto simp: ov_own_def)
  have wf: "midl_wf h" "sorted_wrt (>) (midl_list h)" using s(1) h(1) by (simp_all add: ov_ok_def)
  have hl: "head_list s = midl_list h" using h(1) by (simp add: head_list_def)
  have len: "length (midl_list k) = unat (midl_ids k ! 0)" if "midl_wf k" for k
    using that length_midl_elems [of "midl_ids k"] by (simp add: midl_wf_def)
  obtain x s1 where x: "(if dirty then Inr (Some 0) else spill_find (ov_spill s) (push_bit 1 pg)) = Inr (Some x)"
    "ov_release s mp x dirty = Inr s1" "ov_ok s1" "ov_released s s1 mp pg dirty" "ov_pghead s1 = ov_pghead s"
    "ov_free_pgs s1 = ov_free_pgs s" "ov_dirty_room s1 = ov_dirty_room s" "ov_pages s1 = ov_pages s"
    using ov_released_ok [OF s] by blast
  obtain rc k where k: "mdb_midl_need ok junk h n = Some (rc, k)" "midl_wf k" "midl_list k = midl_list h"
    "rc = 0 \<Longrightarrow> unat (midl_ids k ! 0) + unat n \<le> unat (midl_cap k)" "rc \<noteq> 0 \<Longrightarrow> rc = ENOMEM \<and> k = h \<and> \<not> ok"
    using mdb_midl_need_correct [OF wf(1), of n ok junk] pg(3) len [OF wf(1)] hl by (auto simp: add.commute)
  have own: "(case ov_pghead s of Some h \<Rightarrow> if ov_parent s then Inr None
      else if dirty then Inr (Some (h, 0)) else ebind (spill_find (ov_spill s) (push_bit 1 pg)) (\<lambda>x. Inr (map_option (Pair h) x))
      | None \<Rightarrow> Inr None) = (Inr (Some (h, x)) :: mdb_fault + (midl \<times> nat) option)"
    using h x(1) by (auto split: if_splits)
  show ?thesis
  proof (cases "rc = 0")
    case True
    obtain mop where mop: "head_insert (midl_ids k) pg n = Inr mop" "midl_wf (k\<lparr>midl_ids := mop\<rparr>)" "sorted_wrt (>) (midl_elems mop)"
      "set (midl_elems mop) = set (midl_list h) \<union> set (ov_range pg (unat n))"
      using head_inserted [OF k(2) k(4) [OF True], of pg] k(3) wf(2) pg hl len [OF k(2)] by auto
    have "mdb_ovpage_free ok junk s mp pg n dirty = Inr (0, s1\<lparr>ov_pghead := Some (k\<lparr>midl_ids := mop\<rparr>), ov_pages := ov_pages s1 - ucast n\<rparr>)"
      unfolding mdb_ovpage_free_def own using k(1) True x(2) mop(1) by (simp add: of_arr_def)
    moreover have "ov_released s (s1\<lparr>ov_pghead := q, ov_pages := r\<rparr>) mp pg dirty" for q r
      using x(4) unfolding ov_released_def live_spilled_def by simp
    moreover have "head_list (s1\<lparr>ov_pghead := Some (k\<lparr>midl_ids := mop\<rparr>), ov_pages := r\<rparr>) = midl_elems mop" for r by (simp add: head_list_def)
    ultimately show ?thesis using x(3,6-8) mop(2-4) hl by (simp add: ov_ok_def)
  next
    case False
    then have "mdb_ovpage_free ok junk s mp pg n dirty = Inr (rc, s\<lparr>ov_pghead := Some k\<rparr>)"
      unfolding mdb_ovpage_free_def own using k(1) by (simp add: of_arr_def)
    moreover have "s\<lparr>ov_pghead := Some k\<rparr> = s" using k(5) [OF False] h(1) by simp
    ultimately show ?thesis using k(5) [OF False] False s(1) by auto
  qed
qed

lemma mdb_ovpage_free_other:
  assumes s: "ov_ok s" "\<not> ov_own s pg dirty" "unat (midl_cap (ov_free_pgs s)) < 2 ^ 61" "unat n < 2 ^ 30"
  shows "\<exists>rc s'. mdb_ovpage_free ok junk s mp pg n dirty = Inr (rc, s') \<and> ov_ok s' \<and>
    (if rc = 0 then midl_list (ov_free_pgs s') = midl_list (ov_free_pgs s) @ ov_range pg (unat n) \<and>
       s' = s\<lparr>ov_free_pgs := ov_free_pgs s', ov_pages := ov_pages s - ucast n\<rparr>
     else rc = ENOMEM \<and> \<not> ok \<and> s' = s)"
proof -
  have own: "(case ov_pghead s of Some h \<Rightarrow> if ov_parent s then Inr None
      else if dirty then Inr (Some (h, 0)) else ebind (spill_find (ov_spill s) (push_bit 1 pg)) (\<lambda>x. Inr (map_option (Pair h) x))
      | None \<Rightarrow> Inr None) = (Inr None :: mdb_fault + (midl \<times> nat) option)"
    using ov_own_none [OF s(1,2)] by (auto split: option.split)
  have wf: "midl_wf (ov_free_pgs s)" using s(1) by (simp add: ov_ok_def)
  obtain rc l where l: "mdb_midl_append_range ok junk (ov_free_pgs s) pg (unat n) = Some (rc, l)" "midl_wf l"
    "rc = 0 \<and> midl_list l = midl_list (ov_free_pgs s) @ ov_range pg (unat n) \<or> rc = ENOMEM \<and> l = ov_free_pgs s \<and> \<not> ok"
    using mdb_midl_append_range_correct [OF wf s(3), of "unat n" ok junk pg] s(4) by (auto simp: ov_range_def split: if_splits)
  have "mdb_ovpage_free ok junk s mp pg n dirty =
      Inr (rc, if rc \<noteq> 0 then s\<lparr>ov_free_pgs := l\<rparr> else s\<lparr>ov_free_pgs := l, ov_pages := ov_pages s - ucast n\<rparr>)"
    unfolding mdb_ovpage_free_def own using l(1) by (simp add: of_arr_def)
  moreover have "s\<lparr>ov_free_pgs := ov_free_pgs s\<rparr> = s" by simp
  ultimately show ?thesis using l(2,3) s(1) by (auto simp: ov_ok_def ENOMEM_def)
qed

text \<open>
  C27. \<open>mdb_ovpage_free\<close> on well-formed lists ends without a fault and keeps them well formed. When the chain is dirty or spilled and the
  environment has a list of pages to allocate, its pages join that list, which stays sorted, and the chain leaves the dirty list or the
  spill list; otherwise its pages are appended to the list of pages freed by the transaction and nothing else changes. The count of overflow pages
  falls by the length of the chain. The only error is \<open>ENOMEM\<close>, after which nothing has changed.
\<close>

theorem mdb_ovpage_free_correct:
  assumes "ov_ok s" "dirty \<Longrightarrow> mp \<in> mptr ` set (mid2l_elems (ov_dirty s))"
    and "unat pg + unat n \<le> 2 ^ 64" "set (head_list s) \<inter> set (ov_range pg (unat n)) = {}"
    and "length (head_list s) + unat n < 2 ^ 30" "unat (midl_cap (ov_free_pgs s)) < 2 ^ 61"
  shows "\<exists>rc s'. mdb_ovpage_free ok junk s mp pg n dirty = Inr (rc, s') \<and> ov_ok s' \<and>
    (if rc \<noteq> 0 then rc = ENOMEM \<and> \<not> ok \<and> s' = s
     else ov_pages s' = ov_pages s - ucast n \<and>
       (if ov_own s pg dirty
        then set (head_list s') = set (head_list s) \<union> set (ov_range pg (unat n)) \<and>
          ov_free_pgs s' = ov_free_pgs s \<and> ov_released s s' mp pg dirty
        else midl_list (ov_free_pgs s') = midl_list (ov_free_pgs s) @ ov_range pg (unat n) \<and>
          s' = s\<lparr>ov_free_pgs := ov_free_pgs s', ov_pages := ov_pages s - ucast n\<rparr>))"
proof (cases "ov_own s pg dirty")
  case True
  obtain rc s' where "mdb_ovpage_free ok junk s mp pg n dirty = Inr (rc, s')" "ov_ok s'"
    "if rc = 0 then ov_pages s' = ov_pages s - ucast n \<and> set (head_list s') = set (head_list s) \<union> set (ov_range pg (unat n)) \<and>
       ov_free_pgs s' = ov_free_pgs s \<and> ov_dirty_room s' = ov_dirty_room s \<and> ov_released s s' mp pg dirty else rc = ENOMEM \<and> \<not> ok \<and> s' = s"
    using mdb_ovpage_free_own [OF assms(1) True assms(2-5)] by blast
  then show ?thesis using True by (intro exI [of _ rc] exI [of _ s']) (simp split: if_splits)
next
  case False
  have "unat n < 2 ^ 30" using assms(5) by linarith
  then obtain rc s' where *: "mdb_ovpage_free ok junk s mp pg n dirty = Inr (rc, s')" "ov_ok s'"
    "if rc = 0 then midl_list (ov_free_pgs s') = midl_list (ov_free_pgs s) @ ov_range pg (unat n) \<and>
       s' = s\<lparr>ov_free_pgs := ov_free_pgs s', ov_pages := ov_pages s - ucast n\<rparr> else rc = ENOMEM \<and> \<not> ok \<and> s' = s"
    using mdb_ovpage_free_other [OF assms(1) False assms(6)] by blast
  have "ov_pages s' = ov_pages s - ucast n" if "s' = s\<lparr>ov_free_pgs := ov_free_pgs s', ov_pages := ov_pages s - ucast n\<rparr>"
    by (subst that) simp
  then show ?thesis using False * by (intro exI [of _ rc] exI [of _ s']) (simp split: if_splits)
qed

text \<open>
  C36. \<open>mt_dirty_room\<close> is documented as the size of the dirty list less the number of dirty pages. A state in which this holds
  loses it: when \<open>mdb_ovpage_free\<close> releases a dirty chain, the loop that takes the chain out of the dirty list does not give
  its place back, and one place of the dirty list is lost for the rest of the transaction.
\<close>

theorem mdb_ovpage_free_leaks_room:
  assumes "ov_ok s" "ov_own s pg True" "mp \<in> mptr ` set (mid2l_elems (ov_dirty s))"
    and "unat pg + unat n \<le> 2 ^ 64" "set (head_list s) \<inter> set (ov_range pg (unat n)) = {}" "length (head_list s) + unat n < 2 ^ 30"
    and room: "unat (ov_dirty_room s) + length (mid2l_elems (ov_dirty s)) = MDB_IDL_UM_MAX"
  shows "\<exists>s'. mdb_ovpage_free True junk s mp pg n True = Inr (0, s') \<and>
    unat (ov_dirty_room s') + length (mid2l_elems (ov_dirty s')) = MDB_IDL_UM_MAX - 1"
proof -
  obtain rc s' where s': "mdb_ovpage_free True junk s mp pg n True = Inr (rc, s')" "rc = 0" "ov_dirty_room s' = ov_dirty_room s"
    "mid2l_elems (ov_dirty s') = filter (\<lambda>e. mptr e \<noteq> mp) (mid2l_elems (ov_dirty s))"
    using mdb_ovpage_free_own [OF assms(1-6), of True junk] by (auto simp: ov_released_def split: if_splits)
  have "distinct (map mptr (mid2l_elems (ov_dirty s)))" using assms(1) by (simp add: ov_ok_def)
  then have "Suc (length (filter (\<lambda>e. mptr e \<noteq> mp) (mid2l_elems (ov_dirty s)))) = length (mid2l_elems (ov_dirty s))"
    using assms(3) by (rule length_filter_one)
  then show ?thesis using s' room by auto
qed

text \<open>A dirty chain of two pages, between pages that can be allocated already.\<close>

definition ov_sample :: "nat ov_state" where
  "ov_sample = \<lparr>ov_pghead = Some \<lparr>midl_cap = 2, midl_ids = [2, 9, 4]\<rparr>, ov_parent = False, ov_spill = None,
     ov_dirty = \<lparr>mid = 1, mptr = 0\<rparr> # \<lparr>mid = 6, mptr = 16\<rparr> # replicate (MDB_IDL_UM_MAX - 1) \<lparr>mid = 0, mptr = 0\<rparr>,
     ov_free_pgs = \<lparr>midl_cap = 1, midl_ids = [0, 0]\<rparr>, ov_dirty_room = 131070, ov_pages = 5\<rparr>"

lemma ov_sample_ok:
  "mid2l_elems (ov_dirty ov_sample) = [\<lparr>mid = 6, mptr = 16\<rparr>]" "ov_ok ov_sample" "head_list ov_sample = [9, 4]"
  "ov_range 6 (unat (2 :: uint32)) = [7, 6]" "ov_own ov_sample 6 True"
proof -
  show es: "mid2l_elems (ov_dirty ov_sample) = [\<lparr>mid = 6, mptr = 16\<rparr>]" by (simp add: mid2l_elems_def ov_sample_def)
  show "ov_ok ov_sample"
    by (simp add: ov_ok_def es mid2l_wf_def) (simp add: ov_sample_def midl_wf_def midl_elems_def MDB_IDL_UM_MAX_def)
  show "head_list ov_sample = [9, 4]" by (simp add: head_list_def ov_sample_def midl_elems_def)
  show "ov_range 6 (unat (2 :: uint32)) = [7, 6]" by (simp add: ov_range_def upt_rec)
  show "ov_own ov_sample 6 True" by (simp add: ov_own_def ov_sample_def)
qed

theorem mdb_ovpage_free_correct_witness:
  "\<exists>s'. mdb_ovpage_free True 0 ov_sample 16 6 2 True = Inr (0, s') \<and> ov_ok s' \<and> set (head_list s') = {9, 7, 6, 4} \<and>
     mid2l_elems (ov_dirty s') = [] \<and> ov_pages s' = 3"
proof -
  note es = ov_sample_ok(1) and hl = ov_sample_ok(3) and rg = ov_sample_ok(4)
  have own: "ov_pages ov_sample = 5" "unat (midl_cap (ov_free_pgs ov_sample)) < 2 ^ 61" by (simp_all add: ov_sample_def)
  obtain rc s' where "mdb_ovpage_free True 0 ov_sample 16 6 2 True = Inr (rc, s')" "ov_ok s'" "rc = 0" "ov_pages s' = 5 - 2"
    "set (head_list s') = {9, 4} \<union> {7, 6}" "ov_released ov_sample s' 16 6 True"
    using mdb_ovpage_free_correct [OF ov_sample_ok(2), of True 16 6 2 True 0] es own ov_sample_ok(5) unfolding hl rg by (auto split: if_splits)
  then show ?thesis using es by (auto simp: ov_released_def)
qed

theorem mdb_ovpage_free_leaks_room_witness:
  "unat (ov_dirty_room ov_sample) + length (mid2l_elems (ov_dirty ov_sample)) = MDB_IDL_UM_MAX \<and>
   (\<exists>s'. mdb_ovpage_free True 0 ov_sample 16 6 2 True = Inr (0, s') \<and>
     unat (ov_dirty_room s') + length (mid2l_elems (ov_dirty s')) = MDB_IDL_UM_MAX - 1)"
proof -
  have room: "unat (ov_dirty_room ov_sample) + length (mid2l_elems (ov_dirty ov_sample)) = MDB_IDL_UM_MAX"
    using ov_sample_ok(1) by (simp add: ov_sample_def MDB_IDL_UM_MAX_def)
  have "\<exists>s'. mdb_ovpage_free True 0 ov_sample 16 6 2 True = Inr (0, s') \<and>
      unat (ov_dirty_room s') + length (mid2l_elems (ov_dirty s')) = MDB_IDL_UM_MAX - 1"
    by (rule mdb_ovpage_free_leaks_room [OF ov_sample_ok(2,5) _ _ _ _ room]) (simp_all add: ov_sample_ok ov_range_def upt_rec)
  then show ?thesis using room by blast
qed

end
