(* ===== verification/Strbuf.thy ===== *)
theory Strbuf
  imports Prelude
begin

text \<open>
  The string buffer of the JSON codec, \<open>Lib/lua-cjson-2.1.0/strbuf.c\<close> and \<open>strbuf.h\<close>. A C \<open>int\<close> is an
  \<open>int\<close> in the model, and every addition and multiplication checks the 32 bit range: leaving it is
  undefined behaviour, the fault \<open>Sb_Overflow\<close>. A write outside the allocated block is the fault
  \<open>Sb_Bounds\<close>, a call of \<open>die\<close> the fault \<open>Die\<close>, and a loop that makes no progress the
  fault \<open>Sb_Loop\<close>. Whether an allocation of a given size succeeds is the parameter
  \<open>ok\<close>, and \<open>junk\<close> is the contents of fresh memory. The debug output is left out, and the number of
  reallocations, which only that output reads, is not kept to 32 bits.
\<close>

datatype sb_fault = Die | Sb_Bounds | Sb_Overflow | Sb_Loop

definition int32 :: "int \<Rightarrow> sb_fault + int" where
  "int32 x = (if - (2 ^ 31) \<le> x \<and> x < 2 ^ 31 then Inr x else Inl Sb_Overflow)"

record strbuf =
  sb_buf :: "byte list option"
  sb_size :: int
  sb_length :: int
  sb_increment :: int
  sb_dynamic :: bool
  sb_reallocs :: int

definition STRBUF_DEFAULT_SIZE :: int where "STRBUF_DEFAULT_SIZE = 1023"
definition STRBUF_DEFAULT_INCREMENT :: int where "STRBUF_DEFAULT_INCREMENT = -2"

subsection \<open>Access\<close>

text \<open>\<open>memcpy(s->buf + at, bs, n)\<close>\<close>

definition buf_write :: "strbuf \<Rightarrow> int \<Rightarrow> byte list \<Rightarrow> sb_fault + strbuf" where
  "buf_write s at bs = (case sb_buf s of None \<Rightarrow> Inl Sb_Bounds
     | Some b \<Rightarrow> if at < 0 then Inl Sb_Bounds else
         (case block_write b (nat at) bs of None \<Rightarrow> Inl Sb_Bounds | Some b' \<Rightarrow> Inr (s\<lparr>sb_buf := Some b'\<rparr>)))"

definition strbuf_reset :: "strbuf \<Rightarrow> strbuf" where
  "strbuf_reset s = s\<lparr>sb_length := 0\<rparr>"

definition strbuf_allocated :: "strbuf \<Rightarrow> bool" where
  "strbuf_allocated s \<longleftrightarrow> sb_buf s \<noteq> None"

definition strbuf_empty_length :: "strbuf \<Rightarrow> sb_fault + int" where
  "strbuf_empty_length s = ebind (int32 (sb_size s - sb_length s)) (\<lambda>n. int32 (n - 1))"

definition strbuf_ensure_null :: "strbuf \<Rightarrow> sb_fault + strbuf" where
  "strbuf_ensure_null s = buf_write s (sb_length s) [0]"

definition strbuf_length :: "strbuf \<Rightarrow> int" where
  "strbuf_length s = sb_length s"

definition strbuf_string :: "strbuf \<Rightarrow> byte list option \<times> int" where
  "strbuf_string s = (sb_buf s, sb_length s)"

definition strbuf_extend_length :: "strbuf \<Rightarrow> int \<Rightarrow> sb_fault + strbuf" where
  "strbuf_extend_length s len = ebind (int32 (sb_length s + len)) (\<lambda>n. Inr (s\<lparr>sb_length := n\<rparr>))"

subsection \<open>Creation and release\<close>

definition strbuf_init :: "(int \<Rightarrow> bool) \<Rightarrow> byte \<Rightarrow> int \<Rightarrow> sb_fault + strbuf" where
  "strbuf_init ok junk len =
     ebind (if len \<le> 0 then Inr STRBUF_DEFAULT_SIZE else int32 (len + 1)) (\<lambda>sz.
     if \<not> ok sz then Inl Die
     else strbuf_ensure_null \<lparr>sb_buf = Some (replicate (nat sz) junk), sb_size = sz, sb_length = 0,
            sb_increment = STRBUF_DEFAULT_INCREMENT, sb_dynamic = False, sb_reallocs = 0\<rparr>)"

definition strbuf_new :: "(int \<Rightarrow> bool) \<Rightarrow> byte \<Rightarrow> int \<Rightarrow> sb_fault + strbuf" where
  "strbuf_new ok junk len = ebind (strbuf_init ok junk len) (\<lambda>s. Inr (s\<lparr>sb_dynamic := True\<rparr>))"

definition strbuf_set_increment :: "strbuf \<Rightarrow> int \<Rightarrow> sb_fault + strbuf" where
  "strbuf_set_increment s increment =
     (if increment = 0 \<or> increment = -1 then Inl Die else Inr (s\<lparr>sb_increment := increment\<rparr>))"

text \<open>A buffer made by \<open>strbuf_new\<close> is gone after it is freed: the result is then \<open>None\<close>.\<close>

definition strbuf_free :: "strbuf \<Rightarrow> strbuf option" where
  "strbuf_free s = (if sb_dynamic s then None else Some (s\<lparr>sb_buf := None\<rparr>))"

definition strbuf_free_to_string :: "strbuf \<Rightarrow> sb_fault + byte list option \<times> int \<times> strbuf option" where
  "strbuf_free_to_string s = ebind (strbuf_ensure_null s) (\<lambda>s.
     Inr (sb_buf s, sb_length s, if sb_dynamic s then None else Some s))"

subsection \<open>Growing\<close>

text \<open>
  The loop of the exponential sizing. A size that is not positive never reaches the request, and neither
  does a factor of one: both are \<open>Sb_Loop\<close>.
\<close>

function exp_size :: "int \<Rightarrow> int \<Rightarrow> int \<Rightarrow> sb_fault + int" where
  "exp_size m reqsize newsize =
     (if newsize < reqsize then
        if 0 < newsize \<and> 1 < m then ebind (int32 (newsize * m)) (exp_size m reqsize) else Inl Sb_Loop
      else Inr newsize)"
  by pat_completeness auto
termination
proof (relation "measure (\<lambda>(m, r, n). nat (r - n))", goal_cases)
  case (2 m r n x)
  then have "x = n * m" by (auto simp: int32_def split: if_splits)
  moreover have "n * 1 < n * m" using 2 by (intro mult_strict_left_mono) auto
  ultimately show ?case using 2 by simp
qed simp

declare exp_size.simps [simp del]

definition calculate_new_size :: "strbuf \<Rightarrow> int \<Rightarrow> sb_fault + int" where
  "calculate_new_size s len = (if len \<le> 0 then Inl Die else
     ebind (int32 (len + 1)) (\<lambda>reqsize.
     if sb_size s > reqsize then Inr reqsize
     else if sb_increment s < 0 then
       ebind (int32 (- sb_increment s)) (\<lambda>m. exp_size m reqsize (sb_size s))
     else if sb_increment s = 0 then Inl Sb_Overflow
     else ebind (int32 (sb_size s + sb_increment s)) (\<lambda>t. int32 ((t - 1) div sb_increment s * sb_increment s))))"

definition strbuf_resize :: "(int \<Rightarrow> bool) \<Rightarrow> byte \<Rightarrow> strbuf \<Rightarrow> int \<Rightarrow> sb_fault + strbuf" where
  "strbuf_resize ok junk s len = ebind (calculate_new_size s len) (\<lambda>newsize.
     if \<not> ok newsize then Inl Die
     else Inr (s\<lparr>sb_size := newsize,
                 sb_buf := Some (resize junk (nat newsize) (case sb_buf s of None \<Rightarrow> [] | Some b \<Rightarrow> b)),
                 sb_reallocs := sb_reallocs s + 1\<rparr>))"

definition strbuf_ensure_empty_length :: "(int \<Rightarrow> bool) \<Rightarrow> byte \<Rightarrow> strbuf \<Rightarrow> int \<Rightarrow> sb_fault + strbuf" where
  "strbuf_ensure_empty_length ok junk s len = ebind (strbuf_empty_length s) (\<lambda>e.
     if len > e then ebind (int32 (sb_length s + len)) (strbuf_resize ok junk s) else Inr s)"

subsection \<open>Appending\<close>

definition strbuf_append_mem_unsafe :: "strbuf \<Rightarrow> byte list \<Rightarrow> sb_fault + strbuf" where
  "strbuf_append_mem_unsafe s c = ebind (buf_write s (sb_length s) c) (\<lambda>s. strbuf_extend_length s (int (length c)))"

definition strbuf_append_mem :: "(int \<Rightarrow> bool) \<Rightarrow> byte \<Rightarrow> strbuf \<Rightarrow> byte list \<Rightarrow> sb_fault + strbuf" where
  "strbuf_append_mem ok junk s c =
     ebind (strbuf_ensure_empty_length ok junk s (int (length c))) (\<lambda>s.
     ebind (buf_write s (sb_length s) c) (\<lambda>s. strbuf_extend_length s (int (length c))))"

definition strbuf_append_char_unsafe :: "strbuf \<Rightarrow> byte \<Rightarrow> sb_fault + strbuf" where
  "strbuf_append_char_unsafe s c = ebind (buf_write s (sb_length s) [c]) (\<lambda>s. strbuf_extend_length s 1)"

definition strbuf_append_char :: "(int \<Rightarrow> bool) \<Rightarrow> byte \<Rightarrow> strbuf \<Rightarrow> byte \<Rightarrow> sb_fault + strbuf" where
  "strbuf_append_char ok junk s c = ebind (strbuf_ensure_empty_length ok junk s 1) (\<lambda>s.
     ebind (buf_write s (sb_length s) [c]) (\<lambda>s. strbuf_extend_length s 1))"

text \<open>The loop over the characters of the string before its terminator.\<close>

fun append_string_loop :: "(int \<Rightarrow> bool) \<Rightarrow> byte \<Rightarrow> strbuf \<Rightarrow> int \<Rightarrow> byte list \<Rightarrow> sb_fault + strbuf" where
  "append_string_loop ok junk s space [] = Inr s"
| "append_string_loop ok junk s space (c # str) =
     ebind (if space < 1 then
              ebind (int32 (sb_length s + 1)) (\<lambda>len. ebind (strbuf_resize ok junk s len) (\<lambda>s.
              ebind (strbuf_empty_length s) (\<lambda>space. Inr (s, space))))
            else Inr (s, space)) (\<lambda>(s, space).
     ebind (buf_write s (sb_length s) [c]) (\<lambda>s.
     ebind (strbuf_extend_length s 1) (\<lambda>s. append_string_loop ok junk s (space - 1) str)))"

definition strbuf_append_string :: "(int \<Rightarrow> bool) \<Rightarrow> byte \<Rightarrow> strbuf \<Rightarrow> byte list \<Rightarrow> sb_fault + strbuf" where
  "strbuf_append_string ok junk s str =
     ebind (strbuf_empty_length s) (\<lambda>space. append_string_loop ok junk s space str)"

text \<open>
  \<open>vsnprintf(s->buf + s->length, n, fmt, arg)\<close>: \<open>out\<close> is the formatted text, \<open>None\<close> when the conversion
  fails. At most \<open>n - 1\<close> bytes and a terminator are stored, nothing when \<open>n\<close> is zero; a negative \<open>n\<close> is
  converted to a huge \<open>size_t\<close> and limits nothing. The result is the length of the text.
\<close>

definition sb_vsnprintf :: "strbuf \<Rightarrow> int \<Rightarrow> byte list option \<Rightarrow> sb_fault + strbuf \<times> int" where
  "sb_vsnprintf s n out = (case out of None \<Rightarrow> Inr (s, -1)
     | Some t \<Rightarrow> if n = 0 then Inr (s, int (length t))
         else ebind (buf_write s (sb_length s) ((if n < 0 then t else take (nat n - 1) t) @ [0]))
                (\<lambda>s. Inr (s, int (length t))))"

definition strbuf_append_fmt :: "(int \<Rightarrow> bool) \<Rightarrow> byte \<Rightarrow> strbuf \<Rightarrow> int \<Rightarrow> byte list option \<Rightarrow> sb_fault + strbuf" where
  "strbuf_append_fmt ok junk s len out =
     ebind (strbuf_ensure_empty_length ok junk s len) (\<lambda>s.
     ebind (sb_vsnprintf s len out) (\<lambda>(s, fmt_len).
     if fmt_len < 0 then Inl Die else strbuf_extend_length s fmt_len))"

text \<open>The loop runs at most twice: \<open>retry\<close> is \<open>try > 0\<close>.\<close>

definition fmt_try :: "strbuf \<Rightarrow> byte list option \<Rightarrow> sb_fault + strbuf \<times> int \<times> int" where
  "fmt_try s out = ebind (strbuf_empty_length s) (\<lambda>e. ebind (int32 (e + 1)) (\<lambda>n.
     ebind (sb_vsnprintf s n out) (\<lambda>(s, fmt_len). Inr (s, e, fmt_len))))"

definition strbuf_append_fmt_retry :: "(int \<Rightarrow> bool) \<Rightarrow> byte \<Rightarrow> strbuf \<Rightarrow> byte list option \<Rightarrow> sb_fault + strbuf" where
  "strbuf_append_fmt_retry ok junk s out = ebind (fmt_try s out) (\<lambda>(s, e, fmt_len).
     if fmt_len \<le> e then strbuf_extend_length s fmt_len
     else ebind (int32 (sb_length s + fmt_len)) (\<lambda>len. ebind (strbuf_resize ok junk s len) (\<lambda>s.
          ebind (fmt_try s out) (\<lambda>(s, e, fmt_len).
          if fmt_len \<le> e then strbuf_extend_length s fmt_len else Inl Die))))"

end
