(* ===== verification/Fpconv.thy ===== *)
theory Fpconv
  imports Strbuf LuaValue
begin

text \<open>
  The conversion of numbers of the JSON codec, \<open>Lib/lua-cjson-2.1.0/fpconv.c\<close>, which translates the decimal
  point of the locale. \<open>strtod\<close> and \<open>snprintf\<close> of the C library are parameters: \<open>strtod\<close> gives the value of a
  C string and how many characters it has read, \<open>snprintf\<close> the text of a number in a format. A C string
  is the list of its bytes before the terminator. \<open>char\<close> is signed; for the tests on ranges of ASCII
  characters in this file the unsigned comparison of the model agrees with the signed one.
\<close>

definition FPCONV_G_FMT_BUFSIZE :: nat where "FPCONV_G_FMT_BUFSIZE = 32"

text \<open>
  \<open>fpconv_update_locale\<close> prints 0.5 and takes the character between the digits; anything but three
  characters with these digits aborts.
\<close>

definition fpconv_update_locale :: "(byte list \<Rightarrow> lua_Number \<Rightarrow> byte list) \<Rightarrow> sb_fault + byte" where
  "fpconv_update_locale snprintf =
     (case take 7 (snprintf [0x25, 0x67] 0x3fe0000000000000) of
        [a, p, b] \<Rightarrow> if a \<noteq> 0x30 \<or> b \<noteq> 0x35 then Inl Die else Inr p
      | _ \<Rightarrow> Inl Die)"

definition valid_number_character :: "byte \<Rightarrow> bool" where
  "valid_number_character ch \<longleftrightarrow> 0x30 \<le> ch \<and> ch \<le> 0x39 \<or> ch = 0x2d \<or> ch = 0x2b \<or> ch = 0x2e \<or>
     (let lower_ch = ch OR 0x20 in 0x61 \<le> lower_ch \<and> lower_ch \<le> 0x79)"

definition strtod_buffer_size :: "byte list \<Rightarrow> nat" where
  "strtod_buffer_size s = length (takeWhile valid_number_character s)"

text \<open>\<open>dp = strchr(buf, '.'); if (dp) *dp = locale_decimal_point;\<close>\<close>

fun set_decimal_point :: "byte \<Rightarrow> byte list \<Rightarrow> byte list" where
  "set_decimal_point p [] = []"
| "set_decimal_point p (c # s) = (if c = 0x2e then p # s else c # set_decimal_point p s)"

text \<open>A number that does not fit into the local buffer is copied into a block of its own; without memory the program aborts.\<close>

definition fpconv_strtod ::
  "(int \<Rightarrow> bool) \<Rightarrow> (byte list \<Rightarrow> lua_Number \<times> nat) \<Rightarrow> byte \<Rightarrow> byte list \<Rightarrow> sb_fault + lua_Number \<times> nat" where
  "fpconv_strtod malloc strtod locale_decimal_point nptr =
     (if locale_decimal_point = 0x2e then Inr (strtod nptr)
      else let buflen = strtod_buffer_size nptr
           in if buflen = 0 then Inr (0, 0)
              else if FPCONV_G_FMT_BUFSIZE \<le> buflen \<and> \<not> malloc (int buflen + 1) then Inl Die
              else Inr (strtod (set_decimal_point locale_decimal_point (take buflen nptr))))"

definition set_number_format :: "int \<Rightarrow> sb_fault + byte list" where
  "set_number_format precision =
     (if \<not> (1 \<le> precision \<and> precision \<le> 14) then Inl Die
      else let d1 = precision div 10; d2 = precision mod 10
           in Inr ([0x25, 0x2e] @ (if d1 \<noteq> 0 then [0x30 + word_of_int d1] else []) @ [0x30 + word_of_int d2, 0x67]))"

text \<open>What is stored at \<open>str\<close>, the terminator included, and the returned length.\<close>

definition fpconv_g_fmt :: "(byte list \<Rightarrow> lua_Number \<Rightarrow> byte list) \<Rightarrow> byte \<Rightarrow> lua_Number \<Rightarrow> int \<Rightarrow> sb_fault + byte list \<times> nat" where
  "fpconv_g_fmt snprintf locale_decimal_point num precision =
     ebind (set_number_format precision) (\<lambda>fmt.
     let txt = snprintf fmt num; buf = take (FPCONV_G_FMT_BUFSIZE - 1) txt
     in if locale_decimal_point = 0x2e then Inr (buf @ [0], length txt)
        else Inr (map (\<lambda>b. if b = locale_decimal_point then 0x2e else b) buf @ [0], length txt))"

end
