(* ===== verification/Json_Config.thy ===== *)
theory Json_Config
  imports Fpconv
begin

text \<open>
  The configuration of the JSON module, \<open>Lib/lua-cjson-2.1.0/lua_cjson.c\<close>: its record, the tables of the
  tokenizer, and the functions that read and change the settings. What the module uses of its
  surroundings is the record \<open>json_env\<close>: whether an allocation succeeds and what fresh memory holds, the C
  library's \<open>snprintf\<close> and \<open>strtod\<close>, the decimal point of the locale, the Lua functions \<open>lua_checkstack\<close> (by nesting
  depth), \<open>lua_tolstring\<close> on numbers and \<open>luaL_checkinteger\<close>.

  A call ends with a result or an exception. \<open>Raise\<close> is \<open>luaL_error\<close>, with the message and what is left of the
  buffer in use; the other exceptions are undefined behaviour (\<open>Fault\<close>, \<open>Null_deref\<close>), or the end of the fuel
  of the parser (\<open>No_fuel\<close>). Arguments of a Lua function are the list of values on its stack.
\<close>

datatype json_token_type = T_OBJ_BEGIN | T_OBJ_END | T_ARR_BEGIN | T_ARR_END | T_STRING | T_NUMBER | T_BOOLEAN
  | T_NULL | T_COLON | T_COMMA | T_END | T_WHITESPACE | T_ERROR | T_UNKNOWN

fun json_token_type_name :: "json_token_type \<Rightarrow> string" where
  "json_token_type_name T_OBJ_BEGIN = ''T_OBJ_BEGIN''"
| "json_token_type_name T_OBJ_END = ''T_OBJ_END''"
| "json_token_type_name T_ARR_BEGIN = ''T_ARR_BEGIN''"
| "json_token_type_name T_ARR_END = ''T_ARR_END''"
| "json_token_type_name T_STRING = ''T_STRING''"
| "json_token_type_name T_NUMBER = ''T_NUMBER''"
| "json_token_type_name T_BOOLEAN = ''T_BOOLEAN''"
| "json_token_type_name T_NULL = ''T_NULL''"
| "json_token_type_name T_COLON = ''T_COLON''"
| "json_token_type_name T_COMMA = ''T_COMMA''"
| "json_token_type_name T_END = ''T_END''"
| "json_token_type_name T_WHITESPACE = ''T_WHITESPACE''"
| "json_token_type_name T_ERROR = ''T_ERROR''"
| "json_token_type_name T_UNKNOWN = ''T_UNKNOWN''"

datatype json_msg =
    Arg_error nat string
  | Cannot_serialise string string
  | Excessive_nesting int
  | Expected string string nat
  | Too_many_nested int nat
  | Not_utf8

datatype json_exc = Raise json_msg "strbuf option" | Fault sb_fault | Null_deref | No_fuel

record json_env =
  env_alloc :: "int \<Rightarrow> bool"
  env_junk :: byte
  env_snprintf :: "byte list \<Rightarrow> lua_Number \<Rightarrow> byte list"
  env_strtod :: "byte list \<Rightarrow> lua_Number \<times> nat"
  env_decimal_point :: byte
  env_checkstack :: "int \<Rightarrow> bool"
  env_tostring :: "lua_Number \<Rightarrow> byte list"
  env_checkinteger :: "lua_value \<Rightarrow> int option"

record json_config =
  ch2token :: "json_token_type list"
  escape2char :: "byte list"
  encode_buf :: strbuf
  encode_sparse_convert :: int
  encode_sparse_ratio :: int
  encode_sparse_safe :: int
  encode_max_depth :: int
  encode_invalid_numbers :: int
  encode_number_precision :: int
  encode_keep_buffer :: int
  decode_invalid_numbers :: int
  decode_max_depth :: int

definition lift_sb :: "sb_fault + 'a \<Rightarrow> json_exc + 'a" where
  "lift_sb m = (case m of Inl f \<Rightarrow> Inl (Fault f) | Inr x \<Rightarrow> Inr x)"

text \<open>Conversion of a \<open>size_t\<close> or \<open>lua_Integer\<close> to \<open>int\<close>.\<close>

definition to_int32 :: "int \<Rightarrow> int" where
  "to_int32 n = (n + 2 ^ 31) mod 2 ^ 32 - 2 ^ 31"

definition INT_MAX32 :: int where "INT_MAX32 = 2147483647"

subsection \<open>Tables\<close>

definition char2escape_ctrl :: "byte list list" where
  "char2escape_ctrl =
    [[0x5c, 0x75, 0x30, 0x30, 0x30, 0x30],
     [0x5c, 0x75, 0x30, 0x30, 0x30, 0x31],
     [0x5c, 0x75, 0x30, 0x30, 0x30, 0x32],
     [0x5c, 0x75, 0x30, 0x30, 0x30, 0x33],
     [0x5c, 0x75, 0x30, 0x30, 0x30, 0x34],
     [0x5c, 0x75, 0x30, 0x30, 0x30, 0x35],
     [0x5c, 0x75, 0x30, 0x30, 0x30, 0x36],
     [0x5c, 0x75, 0x30, 0x30, 0x30, 0x37],
     [0x5c, 0x62],
     [0x5c, 0x74],
     [0x5c, 0x6e],
     [0x5c, 0x75, 0x30, 0x30, 0x30, 0x62],
     [0x5c, 0x66],
     [0x5c, 0x72],
     [0x5c, 0x75, 0x30, 0x30, 0x30, 0x65],
     [0x5c, 0x75, 0x30, 0x30, 0x30, 0x66],
     [0x5c, 0x75, 0x30, 0x30, 0x31, 0x30],
     [0x5c, 0x75, 0x30, 0x30, 0x31, 0x31],
     [0x5c, 0x75, 0x30, 0x30, 0x31, 0x32],
     [0x5c, 0x75, 0x30, 0x30, 0x31, 0x33],
     [0x5c, 0x75, 0x30, 0x30, 0x31, 0x34],
     [0x5c, 0x75, 0x30, 0x30, 0x31, 0x35],
     [0x5c, 0x75, 0x30, 0x30, 0x31, 0x36],
     [0x5c, 0x75, 0x30, 0x30, 0x31, 0x37],
     [0x5c, 0x75, 0x30, 0x30, 0x31, 0x38],
     [0x5c, 0x75, 0x30, 0x30, 0x31, 0x39],
     [0x5c, 0x75, 0x30, 0x30, 0x31, 0x61],
     [0x5c, 0x75, 0x30, 0x30, 0x31, 0x62],
     [0x5c, 0x75, 0x30, 0x30, 0x31, 0x63],
     [0x5c, 0x75, 0x30, 0x30, 0x31, 0x64],
     [0x5c, 0x75, 0x30, 0x30, 0x31, 0x65],
     [0x5c, 0x75, 0x30, 0x30, 0x31, 0x66]]"

definition char2escape :: "byte \<Rightarrow> byte list option" where
  "char2escape c = (if c < 0x20 then Some (char2escape_ctrl ! unat c)
     else if c = 0x22 then Some [0x5c, 0x22]
     else if c = 0x2f then Some [0x5c, 0x2f]
     else if c = 0x5c then Some [0x5c, 0x5c]
     else if c = 0x7f then Some [0x5c, 0x75, 0x30, 0x30, 0x37, 0x66]
     else None)"

definition init_ch2token :: "json_token_type list" where
  "init_ch2token = (replicate 256 T_ERROR)
     [0x7b := T_OBJ_BEGIN, 0x7d := T_OBJ_END, 0x5b := T_ARR_BEGIN, 0x5d := T_ARR_END, 0x2c := T_COMMA, 0x3a := T_COLON,
      0 := T_END, 0x20 := T_WHITESPACE, 0x09 := T_WHITESPACE, 0x0a := T_WHITESPACE, 0x0d := T_WHITESPACE,
      0x66 := T_UNKNOWN, 0x69 := T_UNKNOWN, 0x49 := T_UNKNOWN, 0x6e := T_UNKNOWN, 0x4e := T_UNKNOWN, 0x74 := T_UNKNOWN,
      0x22 := T_UNKNOWN, 0x2b := T_UNKNOWN, 0x2d := T_UNKNOWN,
      0x30 := T_UNKNOWN, 0x31 := T_UNKNOWN, 0x32 := T_UNKNOWN, 0x33 := T_UNKNOWN, 0x34 := T_UNKNOWN,
      0x35 := T_UNKNOWN, 0x36 := T_UNKNOWN, 0x37 := T_UNKNOWN, 0x38 := T_UNKNOWN, 0x39 := T_UNKNOWN]"

definition init_escape2char :: "byte list" where
  "init_escape2char = (replicate 256 0)
     [0x22 := 0x22, 0x5c := 0x5c, 0x2f := 0x2f, 0x62 := 0x08, 0x74 := 0x09, 0x6e := 0x0a, 0x66 := 0x0c, 0x72 := 0x0d,
      0x75 := 0x75]"

definition json_create_config :: "json_env \<Rightarrow> json_exc + json_config" where
  "json_create_config E = ebind (lift_sb (strbuf_init (env_alloc E) (env_junk E) 0)) (\<lambda>buf.
     Inr \<lparr>ch2token = init_ch2token, escape2char = init_escape2char, encode_buf = buf,
       encode_sparse_convert = 0, encode_sparse_ratio = 2, encode_sparse_safe = 10, encode_max_depth = 1000,
       encode_invalid_numbers = 0, encode_number_precision = 14, encode_keep_buffer = 1,
       decode_invalid_numbers = 1, decode_max_depth = 1000\<rparr>)"

text \<open>The buffer is part of the configuration and not allocated by \<open>strbuf_new\<close>, so it stays behind.\<close>

definition json_free_buf :: "json_config \<Rightarrow> json_config" where
  "json_free_buf cfg = (case strbuf_free (encode_buf cfg) of None \<Rightarrow> cfg | Some b \<Rightarrow> cfg\<lparr>encode_buf := b\<rparr>)"

definition json_destroy_config :: "json_config \<Rightarrow> json_config" where
  "json_destroy_config cfg = json_free_buf cfg"

subsection \<open>Settings\<close>

definition json_arg_init :: "lua_value list \<Rightarrow> nat \<Rightarrow> json_msg + lua_value list" where
  "json_arg_init args n = (if length args \<le> n then Inr (args @ replicate (n - length args) LNil)
     else Inl (Arg_error (n + 1) ''found too many arguments''))"

text \<open>
  The two kinds of options take the argument and the old setting, and give the new setting and the
  result pushed. The range check reports argument 1 whatever the position of the option.
\<close>

definition json_integer_option :: "json_env \<Rightarrow> nat \<Rightarrow> lua_value \<Rightarrow> int \<Rightarrow> int \<Rightarrow> int \<Rightarrow> json_msg + int \<times> lua_value" where
  "json_integer_option E optindex arg setting lo hi =
     ebind (if arg = LNil then Inr setting
            else case env_checkinteger E arg of None \<Rightarrow> Inl (Arg_error optindex ''number expected'')
              | Some k \<Rightarrow> let value = to_int32 k in
                  if lo \<le> value \<and> value \<le> hi then Inr value
                  else Inl (Arg_error 1 ''expected integer between min and max'')) (\<lambda>setting.
     Inr (setting, LNumber (dbl_of_int setting)))"

text \<open>
  \<open>luaL_checkoption\<close> compares C strings, so the argument counts up to its first null byte. A number is converted to
  a string, which is none of the options.
\<close>

fun checkoption :: "byte list list \<Rightarrow> lua_value \<Rightarrow> int option" where
  "checkoption [] arg = None"
| "checkoption (opt # options) arg =
     (if (case arg of LString s \<Rightarrow> takeWhile (\<lambda>c. c \<noteq> 0) s = opt | _ \<Rightarrow> False) then Some 0
      else map_option (\<lambda>i. i + 1) (checkoption options arg))"

definition bool_options :: "byte list list" where
  "bool_options = [[0x6f, 0x66, 0x66], [0x6f, 0x6e]]"

definition json_enum_option :: "nat \<Rightarrow> lua_value \<Rightarrow> int \<Rightarrow> byte list list option \<Rightarrow> int \<Rightarrow> json_msg + int \<times> lua_value" where
  "json_enum_option optindex arg setting options bool_true =
     (let (options, bool_true) = (case options of None \<Rightarrow> (bool_options, 1) | Some os \<Rightarrow> (os, bool_true)) in
     ebind (case arg of LNil \<Rightarrow> Inr setting
        | _ \<Rightarrow> (case (bool_true \<noteq> 0, arg) of (True, LBool b) \<Rightarrow> Inr (if b then bool_true else 0)
              | _ \<Rightarrow> (case checkoption options arg of None \<Rightarrow> Inl (Arg_error optindex ''invalid option'') | Some i \<Rightarrow> Inr i))) (\<lambda>setting.
     Inr (setting, if bool_true \<noteq> 0 \<and> (setting = 0 \<or> setting = bool_true) then LBool (setting \<noteq> 0)
                   else LString (options ! nat setting))))"

type_synonym json_call = "(json_exc + lua_value list) \<times> json_config"

definition raised :: "json_msg \<Rightarrow> json_config \<Rightarrow> json_call" where
  "raised m cfg = (Inl (Raise m None), cfg)"

definition json_cfg_encode_sparse_array :: "json_env \<Rightarrow> json_config \<Rightarrow> lua_value list \<Rightarrow> json_call" where
  "json_cfg_encode_sparse_array E cfg args = (case json_arg_init args 3 of Inl m \<Rightarrow> raised m cfg
     | Inr a \<Rightarrow> (case json_enum_option 1 (a ! 0) (encode_sparse_convert cfg) None 1 of Inl m \<Rightarrow> raised m cfg
     | Inr (s1, v1) \<Rightarrow> let cfg = cfg\<lparr>encode_sparse_convert := s1\<rparr> in
       (case json_integer_option E 2 (a ! 1) (encode_sparse_ratio cfg) 0 INT_MAX32 of Inl m \<Rightarrow> raised m cfg
     | Inr (s2, v2) \<Rightarrow> let cfg = cfg\<lparr>encode_sparse_ratio := s2\<rparr> in
       (case json_integer_option E 3 (a ! 2) (encode_sparse_safe cfg) 0 INT_MAX32 of Inl m \<Rightarrow> raised m cfg
     | Inr (s3, v3) \<Rightarrow> (Inr [v1, v2, v3], cfg\<lparr>encode_sparse_safe := s3\<rparr>)))))"

definition json_cfg_encode_max_depth :: "json_env \<Rightarrow> json_config \<Rightarrow> lua_value list \<Rightarrow> json_call" where
  "json_cfg_encode_max_depth E cfg args = (case json_arg_init args 1 of Inl m \<Rightarrow> raised m cfg
     | Inr a \<Rightarrow> (case json_integer_option E 1 (a ! 0) (encode_max_depth cfg) 1 INT_MAX32 of Inl m \<Rightarrow> raised m cfg
     | Inr (s, v) \<Rightarrow> (Inr [v], cfg\<lparr>encode_max_depth := s\<rparr>)))"

definition json_cfg_decode_max_depth :: "json_env \<Rightarrow> json_config \<Rightarrow> lua_value list \<Rightarrow> json_call" where
  "json_cfg_decode_max_depth E cfg args = (case json_arg_init args 1 of Inl m \<Rightarrow> raised m cfg
     | Inr a \<Rightarrow> (case json_integer_option E 1 (a ! 0) (decode_max_depth cfg) 1 INT_MAX32 of Inl m \<Rightarrow> raised m cfg
     | Inr (s, v) \<Rightarrow> (Inr [v], cfg\<lparr>decode_max_depth := s\<rparr>)))"

definition json_cfg_encode_number_precision :: "json_env \<Rightarrow> json_config \<Rightarrow> lua_value list \<Rightarrow> json_call" where
  "json_cfg_encode_number_precision E cfg args = (case json_arg_init args 1 of Inl m \<Rightarrow> raised m cfg
     | Inr a \<Rightarrow> (case json_integer_option E 1 (a ! 0) (encode_number_precision cfg) 1 14 of Inl m \<Rightarrow> raised m cfg
     | Inr (s, v) \<Rightarrow> (Inr [v], cfg\<lparr>encode_number_precision := s\<rparr>)))"

definition json_cfg_encode_keep_buffer :: "json_env \<Rightarrow> json_config \<Rightarrow> lua_value list \<Rightarrow> json_call" where
  "json_cfg_encode_keep_buffer E cfg args = (case json_arg_init args 1 of Inl m \<Rightarrow> raised m cfg
     | Inr a \<Rightarrow> (let old_value = encode_keep_buffer cfg in
       case json_enum_option 1 (a ! 0) (encode_keep_buffer cfg) None 1 of Inl m \<Rightarrow> raised m cfg
     | Inr (s, v) \<Rightarrow> let cfg = cfg\<lparr>encode_keep_buffer := s\<rparr> in
       if old_value XOR encode_keep_buffer cfg \<noteq> 0 then
         if encode_keep_buffer cfg \<noteq> 0 then
           (case strbuf_init (env_alloc E) (env_junk E) 0 of Inl f \<Rightarrow> (Inl (Fault f), cfg)
            | Inr b \<Rightarrow> (Inr [v], cfg\<lparr>encode_buf := b\<rparr>))
         else (Inr [v], json_free_buf cfg)
       else (Inr [v], cfg)))"

definition invalid_number_options :: "byte list list" where
  "invalid_number_options = [[0x6f, 0x66, 0x66], [0x6f, 0x6e], [0x6e, 0x75, 0x6c, 0x6c]]"

definition json_cfg_encode_invalid_numbers :: "json_env \<Rightarrow> json_config \<Rightarrow> lua_value list \<Rightarrow> json_call" where
  "json_cfg_encode_invalid_numbers E cfg args = (case json_arg_init args 1 of Inl m \<Rightarrow> raised m cfg
     | Inr a \<Rightarrow> (case json_enum_option 1 (a ! 0) (encode_invalid_numbers cfg) (Some invalid_number_options) 1 of Inl m \<Rightarrow> raised m cfg
     | Inr (s, v) \<Rightarrow> (Inr [v], cfg\<lparr>encode_invalid_numbers := s\<rparr>)))"

definition json_cfg_decode_invalid_numbers :: "json_env \<Rightarrow> json_config \<Rightarrow> lua_value list \<Rightarrow> json_call" where
  "json_cfg_decode_invalid_numbers E cfg args = (case json_arg_init args 1 of Inl m \<Rightarrow> raised m cfg
     | Inr a \<Rightarrow> (case json_enum_option 1 (a ! 0) (decode_invalid_numbers cfg) None 1 of Inl m \<Rightarrow> raised m cfg
     | Inr (s, v) \<Rightarrow> (Inr [v], cfg\<lparr>decode_invalid_numbers := s\<rparr>)))"

end
