(* ===== verification/Json_Decode.thy ===== *)
theory Json_Decode
  imports Json_Config
begin

text \<open>
  The decoder of the JSON module, \<open>Lib/lua-cjson-2.1.0/lua_cjson.c\<close>: tokenizer and parser. The input is a
  Lua string; Lua keeps a zero byte behind it, and a read beyond that byte is the exception \<open>Fault Sb_Bounds\<close>. The
  mutual recursion of the parser runs on fuel; \<open>json_decode\<close> starts it with more than the input can use.
  The index of an array element stays below the length of the input and is not kept to 32 bits.
\<close>

record json_parse =
  jp_data :: "byte list"
  jp_ptr :: nat
  jp_tmp :: strbuf
  jp_cfg :: json_config
  jp_depth :: int

datatype json_value = V_none | V_string "byte list" | V_number lua_Number | V_boolean bool | V_errtype string

record json_token =
  tok_type :: json_token_type
  tok_index :: nat
  tok_val :: json_value

text \<open>\<open>*(json->ptr + k)\<close>, and the C string at \<open>json->ptr + k\<close>\<close>

definition peek :: "json_parse \<Rightarrow> nat \<Rightarrow> json_exc + byte" where
  "peek json k = (if jp_ptr json + k < length (jp_data json) then Inr (jp_data json ! (jp_ptr json + k))
     else if jp_ptr json + k = length (jp_data json) then Inr 0 else Inl (Fault Sb_Bounds))"

definition rest :: "json_parse \<Rightarrow> nat \<Rightarrow> byte list" where
  "rest json k = takeWhile (\<lambda>c. c \<noteq> 0) (drop (jp_ptr json + k) (jp_data json))"

definition advance :: "nat \<Rightarrow> json_parse \<Rightarrow> json_parse" where
  "advance n json = json\<lparr>jp_ptr := jp_ptr json + n\<rparr>"

subsection \<open>Escapes\<close>

definition hexdigit2int :: "byte \<Rightarrow> int" where
  "hexdigit2int hex = (if 0x30 \<le> hex \<and> hex \<le> 0x39 then uint hex - 0x30
     else let hex = hex OR 0x20 in if 0x61 \<le> hex \<and> hex \<le> 0x66 then 10 + uint hex - 0x61 else -1)"

fun hex_digits :: "json_parse \<Rightarrow> nat \<Rightarrow> nat \<Rightarrow> json_exc + int list option" where
  "hex_digits json at 0 = Inr (Some [])"
| "hex_digits json at (Suc n) = ebind (peek json at) (\<lambda>c.
     if hexdigit2int c < 0 then Inr None
     else ebind (hex_digits json (Suc at) n) (\<lambda>ds. Inr (map_option ((#) (hexdigit2int c)) ds)))"

definition decode_hex4 :: "json_parse \<Rightarrow> nat \<Rightarrow> json_exc + int" where
  "decode_hex4 json at = ebind (hex_digits json at 4) (\<lambda>r. case r of
       Some [d0, d1, d2, d3] \<Rightarrow> Inr (push_bit 12 d0 + push_bit 8 d1 + push_bit 4 d2 + d3)
     | _ \<Rightarrow> Inr (-1))"

text \<open>The bytes stored in \<open>utf8\<close>; their number is the result.\<close>

definition codepoint_to_utf8 :: "int \<Rightarrow> byte list" where
  "codepoint_to_utf8 codepoint =
     (if codepoint \<le> 0x7f then [word_of_int codepoint]
      else if codepoint \<le> 0x7ff then
        [word_of_int (drop_bit 6 codepoint OR 0xc0), word_of_int ((codepoint AND 0x3f) OR 0x80)]
      else if codepoint \<le> 0xffff then
        [word_of_int (drop_bit 12 codepoint OR 0xe0), word_of_int ((drop_bit 6 codepoint AND 0x3f) OR 0x80),
         word_of_int ((codepoint AND 0x3f) OR 0x80)]
      else if codepoint \<le> 0x1fffff then
        [word_of_int (drop_bit 18 codepoint OR 0xf0), word_of_int ((drop_bit 12 codepoint AND 0x3f) OR 0x80),
         word_of_int ((drop_bit 6 codepoint AND 0x3f) OR 0x80), word_of_int ((codepoint AND 0x3f) OR 0x80)]
      else [])"

text \<open>The code point of an escape and the length of the escape, \<open>None\<close> on an error.\<close>

definition unicode_escape :: "json_parse \<Rightarrow> json_exc + (int \<times> nat) option" where
  "unicode_escape json = ebind (decode_hex4 json 2) (\<lambda>codepoint.
     if codepoint < 0 then Inr None
     else if codepoint AND 0xf800 = 0xd800 then
       if codepoint AND 0x400 \<noteq> 0 then Inr None
       else ebind (peek json 6) (\<lambda>c1. if c1 \<noteq> 0x5c then Inr None
       else ebind (peek json 7) (\<lambda>c2. if c2 \<noteq> 0x75 then Inr None
       else ebind (decode_hex4 json 8) (\<lambda>surrogate_low.
         if surrogate_low < 0 then Inr None
         else if surrogate_low AND 0xfc00 \<noteq> 0xdc00 then Inr None
         else Inr (Some ((push_bit 10 (codepoint AND 0x3ff) OR (surrogate_low AND 0x3ff)) + 0x10000, 12)))))
     else Inr (Some (codepoint, 6)))"

definition json_append_unicode_escape :: "json_parse \<Rightarrow> json_exc + json_parse option" where
  "json_append_unicode_escape json = ebind (unicode_escape json) (\<lambda>r. case r of None \<Rightarrow> Inr None
     | Some (codepoint, escape_len) \<Rightarrow>
         let utf8 = codepoint_to_utf8 codepoint in
         if length utf8 = 0 then Inr None
         else ebind (lift_sb (strbuf_append_mem_unsafe (jp_tmp json) utf8)) (\<lambda>t.
              Inr (Some (advance escape_len (json\<lparr>jp_tmp := t\<rparr>)))))"

subsection \<open>Tokens\<close>

definition json_set_token_error :: "json_parse \<Rightarrow> string \<Rightarrow> json_token" where
  "json_set_token_error json errtype = \<lparr>tok_type = T_ERROR, tok_index = jp_ptr json, tok_val = V_errtype errtype\<rparr>"

lemma unicode_escape_len: "unicode_escape json = Inr (Some (cp, n)) \<Longrightarrow> n = 6 \<or> n = 12"
  by (auto simp: unicode_escape_def ebind_Inr_iff split: if_splits)

lemma append_unicode_escape_progress:
  "json_append_unicode_escape json = Inr (Some json') \<Longrightarrow> jp_data json' = jp_data json \<and> jp_ptr json < jp_ptr json'"
  by (cases "unicode_escape json"; cases "projr (unicode_escape json)")
    (auto simp: json_append_unicode_escape_def ebind_Inr_iff advance_def Let_def split: if_splits dest!: unicode_escape_len)

text \<open>
  One round of the loop of \<open>json_next_string_token\<close>, for the character \<open>ch\<close> at the pointer; \<open>Inl\<close> is an error token.
\<close>

definition string_step :: "json_parse \<Rightarrow> byte \<Rightarrow> json_exc + (json_token + json_parse)" where
  "string_step json ch =
     (let put = (\<lambda>ch n. ebind (lift_sb (strbuf_append_char_unsafe (jp_tmp json) ch)) (\<lambda>t. Inr (Inr (advance n (json\<lparr>jp_tmp := t\<rparr>)))))
      in if ch = 0 then Inr (Inl (json_set_token_error json ''unexpected end of string''))
         else if ch = 0x5c then ebind (peek json 1) (\<lambda>esc.
           let ch = escape2char (jp_cfg json) ! unat esc in
           if ch = 0x75 then ebind (json_append_unicode_escape json) (\<lambda>r. case r of
                Some json \<Rightarrow> Inr (Inr json)
              | None \<Rightarrow> Inr (Inl (json_set_token_error json ''invalid unicode escape code'')))
           else if ch = 0 then Inr (Inl (json_set_token_error json ''invalid escape code''))
           else put ch 2)
         else put ch 1)"

lemma string_step_progress:
  "string_step json ch = Inr (Inr json') \<Longrightarrow> ch \<noteq> 0 \<and> jp_data json' = jp_data json \<and> jp_ptr json < jp_ptr json'"
  by (auto simp: string_step_def ebind_Inr_iff advance_def Let_def
      split: option.splits if_splits dest: append_unicode_escape_progress)

lemma peek_nonzero: "peek json k = Inr c \<Longrightarrow> c \<noteq> 0 \<Longrightarrow> jp_ptr json + k < length (jp_data json)"
  by (auto simp: peek_def split: if_splits)

function string_loop :: "json_parse \<Rightarrow> json_exc + (json_token + json_parse)" where
  "string_loop json = ebind (peek json 0) (\<lambda>ch.
     if ch = 0x22 then Inr (Inr (advance 1 json))
     else ebind (string_step json ch) (\<lambda>r. case r of Inl tok \<Rightarrow> Inr (Inl tok) | Inr json \<Rightarrow> string_loop json))"
  by pat_completeness auto
termination
proof (relation "measure (\<lambda>json. length (jp_data json) - jp_ptr json)", goal_cases)
  case (2 json ch r json')
  then show ?case using string_step_progress [of json ch json'] peek_nonzero [of json 0 ch] by (simp add: diff_less_mono2)
qed simp

declare string_loop.simps [simp del]

text \<open>An error leaves the parser where the error token says; the pointer is not read again after it.\<close>

definition json_next_string_token :: "json_parse \<Rightarrow> json_exc + json_token \<times> json_parse" where
  "json_next_string_token json =
     (let start = jp_ptr json; json = (advance 1 json)\<lparr>jp_tmp := strbuf_reset (jp_tmp json)\<rparr>
      in ebind (string_loop json) (\<lambda>r. case r of Inl tok \<Rightarrow> Inr (tok, json)
         | Inr json \<Rightarrow> ebind (lift_sb (strbuf_ensure_null (jp_tmp json))) (\<lambda>t.
             case strbuf_string t of (buf, len) \<Rightarrow>
               Inr (\<lparr>tok_type = T_STRING, tok_index = start, tok_val = V_string (take (nat len) (case buf of None \<Rightarrow> [] | Some b \<Rightarrow> b))\<rparr>,
                    json\<lparr>jp_tmp := t\<rparr>))))"

definition tolower :: "byte \<Rightarrow> byte" where
  "tolower c = (if 0x41 \<le> c \<and> c \<le> 0x5a then c + 0x20 else c)"

text \<open>\<open>*p <= '9'\<close> compares signed characters.\<close>

definition json_is_invalid_number :: "json_parse \<Rightarrow> json_exc + bool" where
  "json_is_invalid_number json = ebind (peek json 0) (\<lambda>c. if c = 0x2b then Inr True
     else let p = (if c = 0x2d then 1 else 0) in
     ebind (peek json p) (\<lambda>c.
     if c = 0x30 then ebind (peek json (p + 1)) (\<lambda>ch2.
       Inr (ch2 OR 0x20 = 0x78 \<or> 0x30 \<le> ch2 \<and> ch2 \<le> 0x39))
     else if sint c \<le> 0x39 then Inr False
     else let word = map tolower (take 3 (rest json p))
          in Inr (word = [0x69, 0x6e, 0x66] \<or> word = [0x6e, 0x61, 0x6e])))"

definition json_next_number_token :: "json_env \<Rightarrow> json_parse \<Rightarrow> json_exc + json_token \<times> json_parse" where
  "json_next_number_token E json =
     ebind (lift_sb (fpconv_strtod (env_alloc E) (env_strtod E) (env_decimal_point E) (rest json 0))) (\<lambda>(value, n).
       if n = 0 then Inr (json_set_token_error json ''invalid number'', json)
       else Inr (\<lparr>tok_type = T_NUMBER, tok_index = jp_ptr json, tok_val = V_number value\<rparr>, advance n json))"

function skip_whitespace :: "json_parse \<Rightarrow> json_exc + byte \<times> json_token_type \<times> json_parse" where
  "skip_whitespace json = ebind (peek json 0) (\<lambda>ch.
     let ty = ch2token (jp_cfg json) ! unat ch in
     if ty \<noteq> T_WHITESPACE then Inr (ch, ty, json) else skip_whitespace (advance 1 json))"
  by pat_completeness auto
termination
  by (relation "measure (\<lambda>json. Suc (length (jp_data json)) - jp_ptr json)") (auto simp: peek_def advance_def split: if_splits)

declare skip_whitespace.simps [simp del]

definition json_next_token :: "json_env \<Rightarrow> json_parse \<Rightarrow> json_exc + json_token \<times> json_parse" where
  "json_next_token E json = ebind (skip_whitespace json) (\<lambda>(ch, ty, json).
     let tok = (\<lambda>ty v. \<lparr>tok_type = ty, tok_index = jp_ptr json, tok_val = v\<rparr>)
     in if ty = T_ERROR then Inr (json_set_token_error json ''invalid token'', json)
        else if ty = T_END then Inr (tok T_END V_none, json)
        else if ty \<noteq> T_UNKNOWN then Inr (tok ty V_none, advance 1 json)
        else if ch = 0x22 then json_next_string_token json
        else if ch = 0x2d \<or> 0x30 \<le> ch \<and> ch \<le> 0x39 then
          ebind (if decode_invalid_numbers (jp_cfg json) = 0 then json_is_invalid_number json else Inr False) (\<lambda>invalid.
          if invalid then Inr (json_set_token_error json ''invalid number'', json)
          else json_next_number_token E json)
        else if take 4 (rest json 0) = [0x74, 0x72, 0x75, 0x65] then Inr (tok T_BOOLEAN (V_boolean True), advance 4 json)
        else if take 5 (rest json 0) = [0x66, 0x61, 0x6c, 0x73, 0x65] then Inr (tok T_BOOLEAN (V_boolean False), advance 5 json)
        else if take 4 (rest json 0) = [0x6e, 0x75, 0x6c, 0x6c] then Inr (tok T_NULL V_none, advance 4 json)
        else ebind (if decode_invalid_numbers (jp_cfg json) \<noteq> 0 then json_is_invalid_number json else Inr False) (\<lambda>invalid.
          if invalid then json_next_number_token E json
          else Inr (json_set_token_error json ''invalid token'', json)))"

subsection \<open>The parser\<close>

definition json_throw_parse_error :: "json_parse \<Rightarrow> string \<Rightarrow> json_token \<Rightarrow> json_exc" where
  "json_throw_parse_error json exp token =
     (let found = (case (tok_type token, tok_val token) of (T_ERROR, V_errtype s) \<Rightarrow> s | _ \<Rightarrow> json_token_type_name (tok_type token))
      in Raise (Expected exp found (tok_index token + 1)) (strbuf_free (jp_tmp json)))"

definition json_decode_ascend :: "json_parse \<Rightarrow> json_parse" where
  "json_decode_ascend json = json\<lparr>jp_depth := jp_depth json - 1\<rparr>"

definition json_decode_descend :: "json_env \<Rightarrow> json_parse \<Rightarrow> json_exc + json_parse" where
  "json_decode_descend E json =
     (let json = json\<lparr>jp_depth := jp_depth json + 1\<rparr>
      in if jp_depth json \<le> decode_max_depth (jp_cfg json) \<and> env_checkstack E (jp_depth json) then Inr json
         else Inl (Raise (Too_many_nested (jp_depth json) (jp_ptr json)) (strbuf_free (jp_tmp json))))"

fun json_process_value :: "nat \<Rightarrow> json_env \<Rightarrow> json_parse \<Rightarrow> json_token \<Rightarrow> json_exc + lua_value \<times> json_parse"
  and json_parse_object_context :: "nat \<Rightarrow> json_env \<Rightarrow> lua_table \<Rightarrow> json_parse \<Rightarrow> json_token \<Rightarrow> json_exc + lua_value \<times> json_parse"
  and json_parse_array_context :: "nat \<Rightarrow> json_env \<Rightarrow> lua_table \<Rightarrow> int \<Rightarrow> json_parse \<Rightarrow> json_token \<Rightarrow> json_exc + lua_value \<times> json_parse" where
  "json_process_value 0 E json token = Inl No_fuel"
| "json_process_value (Suc f) E json token = (case tok_type token of
       T_STRING \<Rightarrow> Inr (case tok_val token of V_string s \<Rightarrow> LString s | _ \<Rightarrow> LNil, json)
     | T_NUMBER \<Rightarrow> Inr (case tok_val token of V_number n \<Rightarrow> LNumber n | _ \<Rightarrow> LNil, json)
     | T_BOOLEAN \<Rightarrow> Inr (case tok_val token of V_boolean b \<Rightarrow> LBool b | _ \<Rightarrow> LNil, json)
     | T_OBJ_BEGIN \<Rightarrow> ebind (json_decode_descend E json) (\<lambda>json. ebind (json_next_token E json) (\<lambda>(token, json).
         if tok_type token = T_OBJ_END then Inr (LTable [], json_decode_ascend json)
         else json_parse_object_context f E [] json token))
     | T_ARR_BEGIN \<Rightarrow> ebind (json_decode_descend E json) (\<lambda>json. ebind (json_next_token E json) (\<lambda>(token, json).
         if tok_type token = T_ARR_END then Inr (LTable [], json_decode_ascend json)
         else json_parse_array_context f E [] 1 json token))
     | T_NULL \<Rightarrow> Inr (LNull, json)
     | _ \<Rightarrow> Inl (json_throw_parse_error json ''value'' token))"
| "json_parse_object_context 0 E t json token = Inl No_fuel"
| "json_parse_object_context (Suc f) E t json token =
     (if tok_type token \<noteq> T_STRING then Inl (json_throw_parse_error json ''object key string'' token)
      else let key = (case tok_val token of V_string s \<Rightarrow> LString s | _ \<Rightarrow> LNil) in
        ebind (json_next_token E json) (\<lambda>(token, json).
        if tok_type token \<noteq> T_COLON then Inl (json_throw_parse_error json ''colon'' token)
        else ebind (json_next_token E json) (\<lambda>(token, json).
        ebind (json_process_value f E json token) (\<lambda>(v, json).
        let t = tset t key v in
        ebind (json_next_token E json) (\<lambda>(token, json).
        if tok_type token = T_OBJ_END then Inr (LTable t, json_decode_ascend json)
        else if tok_type token \<noteq> T_COMMA then Inl (json_throw_parse_error json ''comma or object end'' token)
        else ebind (json_next_token E json) (\<lambda>(token, json). json_parse_object_context f E t json token))))))"
| "json_parse_array_context 0 E t i json token = Inl No_fuel"
| "json_parse_array_context (Suc f) E t i json token =
     ebind (json_process_value f E json token) (\<lambda>(v, json).
     let t = tset t (LNumber (dbl_of_int i)) v in
     ebind (json_next_token E json) (\<lambda>(token, json).
     if tok_type token = T_ARR_END then Inr (LTable t, json_decode_ascend json)
     else if tok_type token \<noteq> T_COMMA then Inl (json_throw_parse_error json ''comma or array end'' token)
     else ebind (json_next_token E json) (\<lambda>(token, json).
       ebind (lift_sb (int32 (i + 1))) (\<lambda>i. json_parse_array_context f E t i json token))))"

text \<open>\<open>luaL_checklstring\<close>: numbers are converted.\<close>

definition checklstring :: "json_env \<Rightarrow> lua_value \<Rightarrow> byte list option" where
  "checklstring E v = (case v of LString s \<Rightarrow> Some s | LNumber n \<Rightarrow> Some (env_tostring E n) | _ \<Rightarrow> None)"

definition json_decode :: "json_env \<Rightarrow> json_config \<Rightarrow> lua_value list \<Rightarrow> json_exc + lua_value" where
  "json_decode E cfg args =
     (if length args \<noteq> 1 then Inl (Raise (Arg_error 1 ''expected 1 argument'') None)
      else case checklstring E (hd args) of None \<Rightarrow> Inl (Raise (Arg_error 1 ''string expected'') None)
      | Some d \<Rightarrow>
          if 2 \<le> length d \<and> (d ! 0 = 0 \<or> d ! 1 = 0) then Inl (Raise Not_utf8 None)
          else ebind (lift_sb (strbuf_new (env_alloc E) (env_junk E) (to_int32 (int (length d))))) (\<lambda>t.
          ebind (json_next_token E \<lparr>jp_data = d, jp_ptr = 0, jp_tmp = t, jp_cfg = cfg, jp_depth = 0\<rparr>) (\<lambda>(token, json).
          ebind (json_process_value (2 * length d + 3) E json token) (\<lambda>(v, json).
          ebind (json_next_token E json) (\<lambda>(token, json).
          if tok_type token \<noteq> T_END then Inl (json_throw_parse_error json ''the end'' token) else Inr v)))))"

end
