(* ===== verification/Strbuf_Proofs.thy ===== *)
theory Strbuf_Proofs
  imports Strbuf
begin

text \<open>
  The string buffer of \<open>Strbuf\<close>: its invariant, that every append keeps it and adds exactly its bytes, the
  interface \<open>bounded_buffer\<close> the encoder builds its output with, and the linear growth.
\<close>

subsection \<open>Well-formed buffers\<close>

text \<open>
  The buffer has the default, doubling growth; there is always room for a terminator.
\<close>

definition sb_inv :: "strbuf \<Rightarrow> bool" where
  "sb_inv s \<longleftrightarrow> sb_increment s = STRBUF_DEFAULT_INCREMENT \<and> 0 \<le> sb_length s \<and> sb_length s < sb_size s \<and>
     sb_size s < 2 ^ 31 \<and> (case sb_buf s of None \<Rightarrow> False | Some b \<Rightarrow> int (length b) = sb_size s)"

definition sb_contents :: "strbuf \<Rightarrow> byte list" where
  "sb_contents s = (case sb_buf s of None \<Rightarrow> [] | Some b \<Rightarrow> take (nat (sb_length s)) b)"

lemma sb_invE:
  assumes "sb_inv s"
  obtains b where "sb_buf s = Some b" "int (length b) = sb_size s" "0 \<le> sb_length s" "sb_length s < sb_size s"
    "sb_size s < 2 ^ 31" "sb_increment s = -2" "sb_contents s = take (nat (sb_length s)) b"
  using assms by (auto simp: sb_inv_def sb_contents_def STRBUF_DEFAULT_INCREMENT_def split: option.splits)

lemma length_sb_contents: "sb_inv s \<Longrightarrow> int (length (sb_contents s)) = sb_length s"
  by (erule sb_invE) simp

lemma int32_ok: "- (2 ^ 31) \<le> x \<Longrightarrow> x < 2 ^ 31 \<Longrightarrow> int32 x = Inr x"
  by (simp add: int32_def)

lemma empty_length_ok: "sb_inv s \<Longrightarrow> strbuf_empty_length s = Inr (sb_size s - sb_length s - 1)"
  by (erule sb_invE) (simp add: strbuf_empty_length_def int32_ok)

lemma exp_size_ok:
  "0 < n \<Longrightarrow> n < 2 ^ 31 \<Longrightarrow> r \<le> 2 ^ 30 \<Longrightarrow> \<exists>k. exp_size 2 r n = Inr k \<and> r \<le> k \<and> n \<le> k \<and> k < 2 ^ 31"
proof (induction "nat (r - n)" arbitrary: n rule: less_induct)
  case less
  show ?case
  proof (cases "n < r")
    case True
    then have "exp_size 2 r n = exp_size 2 r (n * 2)"
      using less.prems by (subst exp_size.simps) (simp add: int32_ok)
    then show ?thesis using less.hyps [of "n * 2"] less.prems True by force
  next
    case False
    then show ?thesis using less.prems by (subst exp_size.simps) simp
  qed
qed

lemma resize_ok:
  assumes "sb_inv s" and "\<forall>n. ok n" and "sb_size s \<le> len + 1" and "len < 2 ^ 30" and "sb_length s < len"
  shows "\<exists>s'. strbuf_resize ok junk s len = Inr s' \<and> sb_inv s' \<and> sb_contents s' = sb_contents s \<and>
    sb_length s' = sb_length s \<and> len < sb_size s'"
proof -
  obtain b where b: "sb_buf s = Some b" "int (length b) = sb_size s" "0 \<le> sb_length s" "sb_length s < sb_size s"
    "sb_size s < 2 ^ 31" "sb_increment s = -2" "sb_contents s = take (nat (sb_length s)) b"
    using assms(1) by (rule sb_invE)
  obtain k where k: "exp_size 2 (len + 1) (sb_size s) = Inr k" "len + 1 \<le> k" "sb_size s \<le> k" "k < 2 ^ 31"
    using exp_size_ok [of "sb_size s" "len + 1"] b(3-5) assms(4) by auto
  have "calculate_new_size s len = Inr k"
    using k(1) assms(3-5) b(3,6) by (simp add: calculate_new_size_def int32_ok)
  then have "strbuf_resize ok junk s len = Inr (s\<lparr>sb_size := k, sb_buf := Some (resize junk (nat k) b),
      sb_reallocs := sb_reallocs s + 1\<rparr>)"
    using assms(2) b(1) by (simp add: strbuf_resize_def)
  moreover have "take (nat (sb_length s)) (resize junk (nat k) b) = take (nat (sb_length s)) b"
    using b k by (intro take_resize) auto
  ultimately show ?thesis
    using b k by (simp add: sb_inv_def sb_contents_def STRBUF_DEFAULT_INCREMENT_def)
qed

lemma ensure_ok:
  assumes "sb_inv s" and "\<forall>n. ok n" and "0 \<le> len" and "sb_length s + len < 2 ^ 30"
  shows "\<exists>s'. strbuf_ensure_empty_length ok junk s len = Inr s' \<and> sb_inv s' \<and> sb_contents s' = sb_contents s \<and>
    sb_length s' = sb_length s \<and> sb_length s + len < sb_size s'"
proof (cases "len > sb_size s - sb_length s - 1")
  case True
  moreover have "0 \<le> sb_length s" "sb_length s < sb_size s" using assms(1) by (auto simp: sb_inv_def)
  ultimately show ?thesis
    using resize_ok [OF assms(1,2), of "sb_length s + len" junk] assms(1,3,4)
    by (simp add: strbuf_ensure_empty_length_def empty_length_ok int32_ok)
next
  case False
  then show ?thesis
    using assms by (simp add: strbuf_ensure_empty_length_def empty_length_ok)
qed

lemma write_ok:
  assumes "sb_inv s" and "sb_length s + int (length c) + int (length z) \<le> sb_size s"
    and "sb_length s + int (length c) < sb_size s"
  shows "\<exists>s'. buf_write s (sb_length s) (c @ z) = Inr s' \<and> sb_inv s' \<and> sb_length s' = sb_length s \<and>
    sb_size s' = sb_size s \<and>
    (\<exists>s''. strbuf_extend_length s' (int (length c)) = Inr s'' \<and> sb_inv s'' \<and> sb_size s'' = sb_size s \<and>
       sb_contents s'' = sb_contents s @ c)"
proof -
  obtain b where b: "sb_buf s = Some b" "int (length b) = sb_size s" "0 \<le> sb_length s" "sb_length s < sb_size s"
    "sb_size s < 2 ^ 31" "sb_increment s = -2" "sb_contents s = take (nat (sb_length s)) b"
    using assms(1) by (rule sb_invE)
  define n where "n = nat (sb_length s)"
  define b' where "b' = take n b @ (c @ z) @ drop (n + length (c @ z)) b"
  have n: "int n = sb_length s" using b(3) by (simp add: n_def)
  have fits: "n + length (c @ z) \<le> length b" using assms(2) b(2) n by simp
  then have w: "buf_write s (sb_length s) (c @ z) = Inr (s\<lparr>sb_buf := Some b'\<rparr>)"
    using b(1,3) by (simp add: buf_write_def block_write_in b'_def n_def)
  have len: "length b' = length b" using fits by (simp add: b'_def)
  have "nat (sb_length s + int (length c)) = n + length c" using b(3) by (simp add: n_def nat_add_distrib)
  moreover have "take (n + length c) b' = take n b @ c"
    using fits by (simp add: b'_def)
  ultimately show ?thesis
    using w b assms(3) len
    by (auto simp: strbuf_extend_length_def int32_ok sb_inv_def sb_contents_def STRBUF_DEFAULT_INCREMENT_def n_def)
qed

text \<open>A write at the end leaves what is before the end as it is.\<close>

lemma write_keeps:
  assumes "buf_write s (sb_length s) c = Inr s'"
  shows "sb_contents s' = sb_contents s"
  using assms
  by (auto simp: buf_write_def sb_contents_def block_write_in block_write_def split: option.splits if_splits)

lemma write_ok':
  assumes "sb_inv s" and "sb_length s + int (length c) < sb_size s"
  shows "\<exists>s'. ebind (buf_write s (sb_length s) c) (\<lambda>s. strbuf_extend_length s (int (length c))) = Inr s' \<and> sb_inv s' \<and>
    sb_size s' = sb_size s \<and> sb_contents s' = sb_contents s @ c"
  using write_ok [OF assms(1), of c "[]"] assms(2) by auto

lemma append_mem_ok:
  assumes "sb_inv s" and "\<forall>n. ok n" and "length (sb_contents s) + length c < 2 ^ 30"
  shows "\<exists>s'. strbuf_append_mem ok junk s c = Inr s' \<and> sb_inv s' \<and> sb_contents s' = sb_contents s @ c"
proof -
  have l: "sb_length s + int (length c) < 2 ^ 30"
    using assms(3) length_sb_contents [OF assms(1)] by simp
  obtain s1 where s1: "strbuf_ensure_empty_length ok junk s (int (length c)) = Inr s1" "sb_inv s1"
    "sb_contents s1 = sb_contents s" "sb_length s1 = sb_length s" "sb_length s + int (length c) < sb_size s1"
    using ensure_ok [OF assms(1,2) _ l] by auto
  with write_ok' [OF s1(2), of c] show ?thesis
    by (auto simp: strbuf_append_mem_def)
qed

lemma append_char_ok:
  assumes "sb_inv s" and "\<forall>n. ok n" and "length (sb_contents s) + 1 < 2 ^ 30"
  shows "\<exists>s'. strbuf_append_char ok junk s c = Inr s' \<and> sb_inv s' \<and> sb_contents s' = sb_contents s @ [c]"
  using append_mem_ok [OF assms(1,2), of "[c]" junk] assms(3)
  by (simp add: strbuf_append_char_def strbuf_append_mem_def)


lemma append_string_loop_ok:
  assumes "sb_inv s" and "\<forall>n. ok n" and "length (sb_contents s) + length str < 2 ^ 30"
    and "space = sb_size s - sb_length s - 1"
  shows "\<exists>s'. append_string_loop ok junk s space str = Inr s' \<and> sb_inv s' \<and> sb_contents s' = sb_contents s @ str"
  using assms
proof (induction str arbitrary: s space)
  case (Cons c str)
  have l: "sb_length s + int (length (c # str)) < 2 ^ 30"
    using Cons.prems(3) length_sb_contents [OF Cons.prems(1)] by simp
  have inv: "0 \<le> sb_length s" "sb_length s < sb_size s" using Cons.prems(1) by (auto simp: sb_inv_def)
  have "\<exists>s1. (if space < 1 then ebind (int32 (sb_length s + 1)) (\<lambda>len. ebind (strbuf_resize ok junk s len) (\<lambda>s.
              ebind (strbuf_empty_length s) (\<lambda>space. Inr (s, space)))) else Inr (s, space)) =
        Inr (s1, sb_size s1 - sb_length s1 - 1) \<and> sb_inv s1 \<and> sb_contents s1 = sb_contents s \<and>
        sb_length s1 + 1 < sb_size s1"
  proof (cases "space < 1")
    case True
    then obtain s1 where "strbuf_resize ok junk s (sb_length s + 1) = Inr s1" "sb_inv s1"
      "sb_contents s1 = sb_contents s" "sb_length s1 = sb_length s" "sb_length s + 1 < sb_size s1"
      using resize_ok [OF Cons.prems(1,2), of "sb_length s + 1" junk] Cons.prems(4) l by auto
    then show ?thesis using True l inv by (simp add: int32_ok empty_length_ok)
  next
    case False
    then show ?thesis using Cons.prems(1,4) by auto
  qed
  then obtain s1 where s1: "(if space < 1 then ebind (int32 (sb_length s + 1)) (\<lambda>len. ebind (strbuf_resize ok junk s len) (\<lambda>s.
              ebind (strbuf_empty_length s) (\<lambda>space. Inr (s, space)))) else Inr (s, space)) =
        Inr (s1, sb_size s1 - sb_length s1 - 1)" "sb_inv s1" "sb_contents s1 = sb_contents s"
        "sb_length s1 + 1 < sb_size s1"
    by blast
  then obtain s2 where s2: "ebind (buf_write s1 (sb_length s1) [c]) (\<lambda>s. strbuf_extend_length s 1) = Inr s2" "sb_inv s2"
    "sb_size s2 = sb_size s1" "sb_contents s2 = sb_contents s @ [c]"
    using write_ok' [OF s1(2), of "[c]"] by auto
  have "sb_length s2 = sb_length s1 + 1"
    using length_sb_contents [OF s2(2)] length_sb_contents [OF s1(2)] s2(4) s1(3) by simp
  then have "\<exists>s'. append_string_loop ok junk s2 (sb_size s1 - sb_length s1 - 1 - 1) str = Inr s' \<and> sb_inv s' \<and>
      sb_contents s' = sb_contents s2 @ str"
    using Cons.IH [OF s2(2) Cons.prems(2)] Cons.prems(3) s2(3,4) by simp
  moreover obtain s1' where "buf_write s1 (sb_length s1) [c] = Inr s1'" "strbuf_extend_length s1' 1 = Inr s2"
    using s2(1) by (auto simp: ebind_Inr_iff)
  ultimately show ?case using s1(1) s2(4) by simp
qed simp

lemma append_string_ok:
  assumes "sb_inv s" and "\<forall>n. ok n" and "length (sb_contents s) + length str < 2 ^ 30"
  shows "\<exists>s'. strbuf_append_string ok junk s str = Inr s' \<and> sb_inv s' \<and> sb_contents s' = sb_contents s @ str"
  using append_string_loop_ok [OF assms refl] assms(1)
  by (simp add: strbuf_append_string_def empty_length_ok)

lemma append_fmt_ok:
  assumes "sb_inv s" and "\<forall>n. ok n" and "sb_length s + len < 2 ^ 30" and "int (length t) < len"
  shows "\<exists>s'. strbuf_append_fmt ok junk s len (Some t) = Inr s' \<and> sb_inv s' \<and> sb_contents s' = sb_contents s @ t"
proof -
  obtain s1 where s1: "strbuf_ensure_empty_length ok junk s len = Inr s1" "sb_inv s1"
    "sb_contents s1 = sb_contents s" "sb_length s1 = sb_length s" "sb_length s + len < sb_size s1"
    using ensure_ok [OF assms(1,2), of len junk] assms(3,4) by auto
  have "take (nat len - 1) t = t" using assms(4) by simp
  then show ?thesis
    using write_ok [OF s1(2), of t "[0]"] s1 assms(4)
    by (auto simp: strbuf_append_fmt_def sb_vsnprintf_def)
qed

lemma fmt_try_ok:
  assumes "sb_inv s"
  shows "\<exists>s'. fmt_try s (Some t) = Inr (s', sb_size s - sb_length s - 1, int (length t)) \<and>
    sb_inv s' \<and> sb_contents s' = sb_contents s \<and> sb_length s' = sb_length s \<and> sb_size s' = sb_size s \<and>
    (int (length t) \<le> sb_size s - sb_length s - 1 \<longrightarrow> (\<exists>s''. strbuf_extend_length s' (int (length t)) = Inr s'' \<and>
       sb_inv s'' \<and> sb_contents s'' = sb_contents s @ t))"
proof -
  have inv: "0 \<le> sb_length s" "sb_length s < sb_size s" "sb_size s < 2 ^ 31"
    using assms by (auto simp: sb_inv_def)
  define n where "n = nat (sb_size s - sb_length s) - 1"
  have n: "int n = sb_size s - sb_length s - 1" using inv by (simp add: n_def)
  then have l: "sb_length s + int (length (take n t)) < sb_size s" by (simp add: min_def)
  then obtain s' s'' where s': "buf_write s (sb_length s) (take n t @ [0]) = Inr s'" "sb_inv s'"
      "sb_length s' = sb_length s" "sb_size s' = sb_size s"
      "strbuf_extend_length s' (int (length (take n t))) = Inr s''" "sb_inv s''"
      "sb_contents s'' = sb_contents s @ take n t"
    using write_ok [OF assms, of "take n t" "[0]"] by auto
  moreover have "fmt_try s (Some t) = Inr (s', sb_size s - sb_length s - 1, int (length t))"
    using inv s'(1) n_def by (simp add: fmt_try_def empty_length_ok [OF assms] int32_ok sb_vsnprintf_def)
  moreover have "int (length t) \<le> sb_size s - sb_length s - 1 \<Longrightarrow> take n t = t"
    using n by simp
  ultimately show ?thesis using write_keeps [OF s'(1)] by fastforce
qed

text \<open>Formatting with a retry: the text is appended whether or not it fits at first.\<close>

lemma append_fmt_retry_ok:
  assumes "sb_inv s" and "\<forall>n. ok n" and "length (sb_contents s) + length t < 2 ^ 30"
  shows "\<exists>s'. strbuf_append_fmt_retry ok junk s (Some t) = Inr s' \<and> sb_inv s' \<and> sb_contents s' = sb_contents s @ t"
proof -
  have l: "sb_length s + int (length t) < 2 ^ 30"
    using assms(3) length_sb_contents [OF assms(1)] by simp
  have inv: "0 \<le> sb_length s" using assms(1) by (auto simp: sb_inv_def)
  obtain s1 where s1: "fmt_try s (Some t) = Inr (s1, sb_size s - sb_length s - 1, int (length t))" "sb_inv s1"
    "sb_contents s1 = sb_contents s" "sb_length s1 = sb_length s" "sb_size s1 = sb_size s"
    "int (length t) \<le> sb_size s - sb_length s - 1 \<longrightarrow> (\<exists>s''. strbuf_extend_length s1 (int (length t)) = Inr s'' \<and>
       sb_inv s'' \<and> sb_contents s'' = sb_contents s @ t)"
    using fmt_try_ok [OF assms(1), of t] by auto
  show ?thesis
  proof (cases "int (length t) \<le> sb_size s - sb_length s - 1")
    case True
    then show ?thesis using s1 by (auto simp: strbuf_append_fmt_retry_def)
  next
    case False
    moreover have "sb_length s < sb_size s" using assms(1) by (auto simp: sb_inv_def)
    moreover from this False have "t \<noteq> []" by auto
    ultimately obtain s2 where s2: "strbuf_resize ok junk s1 (sb_length s + int (length t)) = Inr s2" "sb_inv s2"
      "sb_contents s2 = sb_contents s" "sb_length s2 = sb_length s" "sb_length s + int (length t) < sb_size s2"
      using resize_ok [OF s1(2) assms(2), of "sb_length s + int (length t)" junk] s1(3-5) l by auto
    obtain s3 s4 where s3: "fmt_try s2 (Some t) = Inr (s3, sb_size s2 - sb_length s2 - 1, int (length t))"
      "strbuf_extend_length s3 (int (length t)) = Inr s4" "sb_inv s4" "sb_contents s4 = sb_contents s2 @ t"
      using fmt_try_ok [OF s2(2), of t] s2(4,5) by auto
    have "int32 (sb_length s + int (length t)) = Inr (sb_length s + int (length t))"
      using l inv by (intro int32_ok) auto
    then have "strbuf_append_fmt_retry ok junk s (Some t) = Inr s4"
      using s1(1,4) s2(1,4,5) s3(1,2) False by (simp add: strbuf_append_fmt_retry_def)
    then show ?thesis using s3(3,4) s2(3) by simp
  qed
qed

subsection \<open>Operations without a bound on the size\<close>

text \<open>Whatever the sizes, a well-formed buffer fails only by running out of memory or out of \<open>int\<close>.\<close>

definition benign :: "sb_fault \<Rightarrow> bool" where
  "benign f \<longleftrightarrow> f = Die \<or> f = Sb_Overflow"

lemma int32_benign: "int32 x = Inl e \<Longrightarrow> benign e"
  by (auto simp: int32_def benign_def split: if_splits)

lemma int32_Inr: "int32 x = Inr y \<longleftrightarrow> y = x \<and> - (2 ^ 31) \<le> x \<and> x < 2 ^ 31"
  by (auto simp: int32_def)

lemma exp_size_any:
  "0 < n \<Longrightarrow> n < 2 ^ 31 \<Longrightarrow> (case exp_size 2 r n of Inl e \<Rightarrow> benign e | Inr k \<Rightarrow> r \<le> k \<and> n \<le> k \<and> k < 2 ^ 31)"
proof (induction "nat (r - n)" arbitrary: n rule: less_induct)
  case less
  show ?case
  proof (cases "n < r")
    case True
    show ?thesis
    proof (cases "int32 (n * 2)")
      case (Inl e)
      then show ?thesis using True less.prems by (subst exp_size.simps) (simp add: int32_benign)
    next
      case (Inr m)
      then have m: "m = n * 2" "m < 2 ^ 31" by (auto simp: int32_Inr)
      then have "exp_size 2 r n = exp_size 2 r m"
        using True less.prems Inr by (subst exp_size.simps) simp
      then show ?thesis using less.hyps [of m] less.prems True m by (auto split: sum.splits)
    qed
  next
    case False
    then show ?thesis using less.prems by (subst exp_size.simps) simp
  qed
qed

lemma ensure_any:
  assumes "sb_inv s"
  shows "case strbuf_ensure_empty_length ok junk s len of Inl e \<Rightarrow> benign e
    | Inr s' \<Rightarrow> sb_inv s' \<and> sb_contents s' = sb_contents s \<and> sb_length s' = sb_length s \<and> sb_length s + len < sb_size s' \<and>
        sb_dynamic s' = sb_dynamic s"
proof (cases "len > sb_size s - sb_length s - 1 \<and> (\<exists>l. int32 (sb_length s + len) = Inr l \<and> (\<exists>q. int32 (l + 1) = Inr q))")
  case True
  obtain b where b: "sb_buf s = Some b" "int (length b) = sb_size s" "0 \<le> sb_length s" "sb_length s < sb_size s"
    "sb_size s < 2 ^ 31" "sb_increment s = -2" "sb_contents s = take (nat (sb_length s)) b"
    using assms by (rule sb_invE)
  define l where "l = sb_length s + len"
  have l: "int32 l = Inr l" "int32 (l + 1) = Inr (l + 1)" "0 < l" "sb_size s \<le> l + 1"
    using True b(3,4) by (auto simp: int32_Inr l_def)
  have calc: "calculate_new_size s l = exp_size 2 (l + 1) (sb_size s)"
    using l(2-4) b(6) by (cases "sb_size s > l + 1") (auto simp: calculate_new_size_def int32_ok)
  have eq: "strbuf_ensure_empty_length ok junk s len = strbuf_resize ok junk s l"
    using True l(1) by (simp add: strbuf_ensure_empty_length_def empty_length_ok [OF assms] l_def)
  show ?thesis
  proof (cases "exp_size 2 (l + 1) (sb_size s)")
    case (Inl e)
    then show ?thesis
      using exp_size_any [of "sb_size s" "l + 1"] b(3-5) by (simp add: eq strbuf_resize_def calc)
  next
    case (Inr k)
    then have k: "l + 1 \<le> k" "sb_size s \<le> k" "k < 2 ^ 31"
      using exp_size_any [of "sb_size s" "l + 1"] b(3-5) by auto
    have "take (nat (sb_length s)) (resize junk (nat k) b) = take (nat (sb_length s)) b"
      using b k by (intro take_resize) auto
    then show ?thesis
      using Inr k b l(3) l_def calc by (auto simp: eq strbuf_resize_def benign_def sb_inv_def sb_contents_def
          STRBUF_DEFAULT_INCREMENT_def)
  qed
next
  case False
  then consider "len \<le> sb_size s - sb_length s - 1" | e where "len > sb_size s - sb_length s - 1" "int32 (sb_length s + len) = Inl e"
    | l e where "len > sb_size s - sb_length s - 1" "int32 (sb_length s + len) = Inr l" "int32 (l + 1) = Inl e"
    by (cases "int32 (sb_length s + len)"; cases "int32 (projr (int32 (sb_length s + len)) + 1)") fastforce+
  then show ?thesis
  proof cases
    case 1
    then show ?thesis using assms by (simp add: strbuf_ensure_empty_length_def empty_length_ok)
  next
    case 2
    then show ?thesis using int32_benign by (simp add: strbuf_ensure_empty_length_def empty_length_ok [OF assms])
  next
    case 3
    then have "0 < l" using assms by (auto simp: sb_inv_def int32_Inr)
    then show ?thesis using 3 int32_benign
      by (simp add: strbuf_ensure_empty_length_def empty_length_ok [OF assms] strbuf_resize_def calculate_new_size_def)
  qed
qed

lemma write_dynamic:
  "ebind (buf_write s at c) (\<lambda>s. strbuf_extend_length s n) = Inr s' \<Longrightarrow> sb_dynamic s' = sb_dynamic s"
  by (auto simp: ebind_Inr_iff buf_write_def strbuf_extend_length_def split: option.splits if_splits)

lemma append_mem_any:
  assumes "sb_inv s"
  shows "case strbuf_append_mem ok junk s c of Inl e \<Rightarrow> benign e
    | Inr s' \<Rightarrow> sb_inv s' \<and> sb_contents s' = sb_contents s @ c \<and> sb_dynamic s' = sb_dynamic s"
proof (cases "strbuf_ensure_empty_length ok junk s (int (length c))")
  case (Inl e)
  then show ?thesis using ensure_any [OF assms, where ok = ok and junk = junk and len = "int (length c)"] by (simp add: strbuf_append_mem_def)
next
  case (Inr s1)
  then have s1: "sb_inv s1" "sb_contents s1 = sb_contents s" "sb_length s1 + int (length c) < sb_size s1" "sb_dynamic s1 = sb_dynamic s"
    using ensure_any [OF assms, where ok = ok and junk = junk and len = "int (length c)"] by auto
  obtain s2 where "ebind (buf_write s1 (sb_length s1) c) (\<lambda>s. strbuf_extend_length s (int (length c))) = Inr s2" "sb_inv s2"
    "sb_contents s2 = sb_contents s1 @ c" using write_ok' [OF s1(1,3)] by auto
  then show ?thesis using s1 Inr write_dynamic by (fastforce simp: strbuf_append_mem_def)
qed

lemma append_char_mem: "strbuf_append_char ok junk s c = strbuf_append_mem ok junk s [c]"
  by (simp add: strbuf_append_char_def strbuf_append_mem_def)

subsection \<open>Operations inside the allocated size\<close>

lemma append_mem_unsafe_room:
  assumes "sb_inv s" and "sb_length s + int (length c) < sb_size s"
  shows "\<exists>s'. strbuf_append_mem_unsafe s c = Inr s' \<and> sb_inv s' \<and> sb_size s' = sb_size s \<and>
    sb_contents s' = sb_contents s @ c \<and> sb_length s' = sb_length s + int (length c) \<and> sb_dynamic s' = sb_dynamic s"
proof -
  obtain s' where s': "strbuf_append_mem_unsafe s c = Inr s'" "sb_inv s'" "sb_size s' = sb_size s" "sb_contents s' = sb_contents s @ c"
    using write_ok' [OF assms] by (auto simp: strbuf_append_mem_unsafe_def)
  moreover have "sb_length s' = sb_length s + int (length c)"
    using length_sb_contents [OF s'(2)] length_sb_contents [OF assms(1)] s'(4) by simp
  moreover have "sb_dynamic s' = sb_dynamic s"
    using s'(1) write_dynamic unfolding strbuf_append_mem_unsafe_def by blast
  ultimately show ?thesis by blast
qed

lemma append_char_unsafe_mem: "strbuf_append_char_unsafe s c = strbuf_append_mem_unsafe s [c]"
  by (simp add: strbuf_append_char_unsafe_def strbuf_append_mem_unsafe_def)


lemma append_string_room:
  assumes "sb_inv s" and "sb_length s + int (length c) < sb_size s"
  shows "\<exists>s'. strbuf_append_string ok junk s c = Inr s' \<and> sb_inv s' \<and> sb_size s' = sb_size s \<and>
    sb_contents s' = sb_contents s @ c \<and> sb_length s' = sb_length s + int (length c) \<and> sb_dynamic s' = sb_dynamic s"
proof -
  have "int (length c) \<le> space \<Longrightarrow> \<exists>s'. append_string_loop ok junk s space c = Inr s' \<and> sb_inv s' \<and> sb_size s' = sb_size s \<and>
    sb_contents s' = sb_contents s @ c \<and> sb_length s' = sb_length s + int (length c) \<and> sb_dynamic s' = sb_dynamic s" for space
    using assms
  proof (induction c arbitrary: s space)
    case (Cons x c)
    obtain s1 where s1: "strbuf_append_mem_unsafe s [x] = Inr s1" "sb_inv s1" "sb_size s1 = sb_size s"
      "sb_contents s1 = sb_contents s @ [x]" "sb_length s1 = sb_length s + 1" "sb_dynamic s1 = sb_dynamic s"
      using append_mem_unsafe_room [OF Cons.prems(2), of "[x]"] Cons.prems(3) by auto
    then obtain s0 where "buf_write s (sb_length s) [x] = Inr s0" "strbuf_extend_length s0 1 = Inr s1"
      by (auto simp: strbuf_append_mem_unsafe_def ebind_Inr_iff)
    then show ?case using Cons.IH [OF _ s1(2), of "space - 1"] Cons.prems s1 by auto
  qed simp
  from this [of "sb_size s - sb_length s - 1"] show ?thesis
    using assms by (simp add: strbuf_append_string_def empty_length_ok)
qed

subsection \<open>The buffer as a client sees it\<close>

text \<open>
  What an encoder relies on: below a limit every append succeeds, keeps the buffer well formed and adds
  its bytes at the end. Any sequence of appends then builds the concatenation of the pieces.
\<close>

locale bounded_buffer =
  fixes inv :: "'s \<Rightarrow> bool" and contents :: "'s \<Rightarrow> byte list" and limit :: nat
    and app :: "'s \<Rightarrow> byte list \<Rightarrow> 'e + 's"
  assumes app_ok: "inv s \<Longrightarrow> length (contents s) + length xs < limit \<Longrightarrow>
    \<exists>s'. app s xs = Inr s' \<and> inv s' \<and> contents s' = contents s @ xs"
begin

lemma append_all_ok:
  assumes "inv s" and "length (contents s) + length (concat xss) < limit"
  shows "\<exists>s'. efold app s xss = Inr s' \<and> inv s' \<and> contents s' = contents s @ concat xss"
  using assms
proof (induction xss arbitrary: s)
  case (Cons xs xss)
  then obtain s1 where s1: "app s xs = Inr s1" "inv s1" "contents s1 = contents s @ xs"
    using app_ok [of s xs] by auto
  moreover have "\<exists>s'. efold app s1 xss = Inr s' \<and> inv s' \<and> contents s' = contents s1 @ concat xss"
    using Cons.IH [of s1] Cons.prems s1 by simp
  ultimately show ?case by auto
qed simp

text \<open>
  A writer appends a fixed text. Writers ask for more room than their text needs: up to six times its length
  for a string, and 32 bytes for a number.
\<close>

definition writes :: "('s \<Rightarrow> 'e + 's) \<Rightarrow> byte list \<Rightarrow> bool" where
  "writes f xs \<longleftrightarrow> (\<forall>s. inv s \<longrightarrow> length (contents s) + 6 * length xs + 32 < limit \<longrightarrow>
     (\<exists>s'. f s = Inr s' \<and> inv s' \<and> contents s' = contents s @ xs))"

lemma writes_app: "writes (\<lambda>s. app s xs) xs"
  by (auto simp: writes_def intro!: app_ok)

lemma writes_skip: "writes Inr []"
  by (simp add: writes_def)

lemma writes_bind:
  assumes "writes f xs" and "writes g ys"
  shows "writes (\<lambda>s. ebind (f s) g) (xs @ ys)"
  unfolding writes_def
proof (intro allI impI)
  fix s
  assume s: "inv s" "length (contents s) + 6 * length (xs @ ys) + 32 < limit"
  then obtain s1 where s1: "f s = Inr s1" "inv s1" "contents s1 = contents s @ xs"
    using assms(1) unfolding writes_def by auto
  moreover have "length (contents s1) + 6 * length ys + 32 < limit" using s1(3) s(2) by simp
  ultimately show "\<exists>s'. ebind (f s) g = Inr s' \<and> inv s' \<and> contents s' = contents s @ xs @ ys"
    using assms(2) unfolding writes_def by fastforce
qed

end

interpretation mem_buf: bounded_buffer sb_inv sb_contents "2 ^ 30" "strbuf_append_mem (\<lambda>_. True) junk" for junk
  by unfold_locales (rule append_mem_ok; simp)

interpretation str_buf: bounded_buffer sb_inv sb_contents "2 ^ 30" "strbuf_append_string (\<lambda>_. True) junk" for junk
  by unfold_locales (rule append_string_ok; simp)

interpretation fmt_buf: bounded_buffer sb_inv sb_contents "2 ^ 30"
    "\<lambda>s t. strbuf_append_fmt_retry (\<lambda>_. True) junk s (Some t)" for junk
  by unfold_locales (rule append_fmt_retry_ok; simp)

subsection \<open>The linear growth\<close>

lemma calculate_linear:
  assumes "0 < sb_increment s" and "0 < len" and "sb_size s \<le> len + 1" and "0 < sb_size s"
    and "sb_size s + sb_increment s < 2 ^ 31" and "len < 2 ^ 30" and "sb_increment s dvd sb_size s"
  shows "calculate_new_size s len = Inr (sb_size s)"
proof -
  obtain k where k: "sb_size s = sb_increment s * k" using assms(7) by (elim dvdE)
  have "(sb_size s + sb_increment s - 1) div sb_increment s = k"
    using assms(1) by (simp add: k int_div_pos_eq [where r = "sb_increment s - 1"] algebra_simps)
  then show ?thesis
    using assms k by (simp add: calculate_new_size_def int32_ok mult.commute)
qed

text \<open>A new buffer is empty and well formed.\<close>

lemma strbuf_init_ok:
  assumes "len < 2 ^ 30"
  shows "\<exists>s. strbuf_init (\<lambda>_. True) junk len = Inr s \<and> sb_inv s \<and> sb_contents s = [] \<and> sb_buf s \<noteq> None \<and> \<not> sb_dynamic s"
proof -
  define sz where "sz = (if len \<le> 0 then STRBUF_DEFAULT_SIZE else len + 1)"
  have sz: "0 < sz" "sz < 2 ^ 31" using assms by (auto simp: sz_def STRBUF_DEFAULT_SIZE_def)
  have "(if len \<le> 0 then Inr STRBUF_DEFAULT_SIZE else int32 (len + 1)) = Inr sz"
    using assms by (simp add: sz_def int32_ok)
  then show ?thesis
    using sz by (simp add: strbuf_init_def strbuf_ensure_null_def buf_write_def block_write_in sb_inv_def sb_contents_def)
qed

lemma ensure_null_ok:
  assumes "sb_inv s"
  shows "\<exists>s' b. strbuf_ensure_null s = Inr s' \<and> sb_inv s' \<and> sb_contents s' = sb_contents s \<and> sb_length s' = sb_length s \<and>
    sb_dynamic s' = sb_dynamic s \<and> sb_buf s' = Some b \<and> take (nat (sb_length s) + 1) b = sb_contents s @ [0]"
proof -
  obtain b where b: "sb_buf s = Some b" "int (length b) = sb_size s" "0 \<le> sb_length s" "sb_length s < sb_size s"
    "sb_size s < 2 ^ 31" "sb_increment s = -2" "sb_contents s = take (nat (sb_length s)) b"
    using assms by (rule sb_invE)
  then have "nat (sb_length s) + 1 \<le> length b" by linarith
  then show ?thesis
    using b assms
    by (auto simp: strbuf_ensure_null_def buf_write_def block_write_in sb_inv_def sb_contents_def min_def)
qed

lemma append_mem_dynamic: "strbuf_append_mem ok junk s c = Inr s' \<Longrightarrow> sb_dynamic s' = sb_dynamic s"
  by (auto simp: strbuf_append_mem_def strbuf_ensure_empty_length_def strbuf_resize_def strbuf_extend_length_def
      buf_write_def ebind_Inr_iff split: if_splits option.splits)

lemma append_all_dynamic:
  "efold (strbuf_append_mem ok junk) s xss = Inr s' \<Longrightarrow> sb_dynamic s' = sb_dynamic s"
  by (induction xss arbitrary: s) (auto simp: ebind_Inr_iff dest: append_mem_dynamic)

subsection \<open>Properties\<close>

text \<open>
  C13. A new buffer that is given any pieces whose total length is below \<open>2 ^ 30\<close> and then turned into a
  string yields the concatenation of the pieces, with its length and a terminator after it; no write leaves
  the block, no size overflows, and the buffer object is released.
\<close>

theorem strbuf_build_string:
  assumes "len < 2 ^ 30" and "length (concat xss) < 2 ^ 30"
  shows "\<exists>b. ebind (strbuf_new (\<lambda>_. True) junk len) (\<lambda>s.
      ebind (efold (strbuf_append_mem (\<lambda>_. True) junk) s xss) strbuf_free_to_string) =
      Inr (Some b, int (length (concat xss)), None) \<and> take (length (concat xss) + 1) b = concat xss @ [0]"
proof -
  obtain s where s: "strbuf_new (\<lambda>_. True) junk len = Inr s" "sb_inv s" "sb_contents s = []" "sb_dynamic s"
    using strbuf_init_ok [OF assms(1), of junk]
    by (auto simp: strbuf_new_def sb_inv_def sb_contents_def split: option.splits)
  then obtain s1 where s1: "efold (strbuf_append_mem (\<lambda>_. True) junk) s xss = Inr s1" "sb_inv s1"
    "sb_contents s1 = concat xss" "sb_dynamic s1"
    using mem_buf.append_all_ok [of s xss] assms(2) append_all_dynamic by fastforce
  have len: "sb_length s1 = int (length (concat xss))" using length_sb_contents [OF s1(2)] s1(3) by simp
  obtain s2 b where "strbuf_ensure_null s1 = Inr s2" "sb_length s2 = sb_length s1" "sb_dynamic s2 = sb_dynamic s1"
    "sb_buf s2 = Some b" "take (nat (sb_length s1) + 1) b = sb_contents s1 @ [0]"
    using ensure_null_ok [OF s1(2)] by auto
  then show ?thesis
    using s(1) s1 len by (simp add: strbuf_free_to_string_def)
qed

theorem strbuf_build_string_witness:
  "(5 :: int) < 2 ^ 30 \<and> length (concat [[65, 66], [], replicate 9 67 :: byte list]) < 2 ^ 30 \<and>
   (\<exists>b. ebind (strbuf_new (\<lambda>_. True) 0 5) (\<lambda>s.
      ebind (efold (strbuf_append_mem (\<lambda>_. True) 0) s [[65, 66], [], replicate 9 67]) strbuf_free_to_string) =
      Inr (Some b, 11, None) \<and> take 12 b = [65, 66] @ replicate 9 67 @ [0])"
  using strbuf_build_string [of 5 "[[65, 66], [], replicate 9 67]" 0] by simp

text \<open>
  Appending a formatted text with \<open>strbuf_append_fmt_retry\<close>: whatever the free space, the text is appended
  in full. The second attempt, after the buffer has grown, never fails.
\<close>

theorem strbuf_append_fmt_retry_appends:
  assumes "sb_inv s" and "length (sb_contents s) + length t < 2 ^ 30"
  shows "\<exists>s'. strbuf_append_fmt_retry (\<lambda>_. True) junk s (Some t) = Inr s' \<and> sb_inv s' \<and> sb_contents s' = sb_contents s @ t"
  using append_fmt_retry_ok [OF assms(1) _ assms(2)] by simp

theorem strbuf_append_fmt_retry_appends_witness:
  "\<exists>s'. strbuf_append_fmt_retry (\<lambda>_. True) 0 \<lparr>sb_buf = Some [65, 0], sb_size = 2, sb_length = 1, sb_increment = -2,
      sb_dynamic = False, sb_reallocs = 0\<rparr> (Some [66, 67]) = Inr s' \<and> sb_inv s' \<and> sb_contents s' = [65, 66, 67]"
  using strbuf_append_fmt_retry_appends [of "\<lparr>sb_buf = Some [65, 0], sb_size = 2, sb_length = 1, sb_increment = -2,
      sb_dynamic = False, sb_reallocs = 0\<rparr>" "[66, 67]" 0]
  by (simp add: sb_inv_def sb_contents_def STRBUF_DEFAULT_INCREMENT_def)

text \<open>
  C39. A buffer with linear growth whose size is a multiple of the increment does not grow: the sizing rounds
  the old size instead of the requested one, and appending more than fits writes outside the block.
\<close>

theorem strbuf_linear_overflow:
  assumes "sb_buf s = Some b" and "int (length b) = sb_size s" and "0 < sb_increment s"
    and "sb_increment s dvd sb_size s" and "0 \<le> sb_length s" and "sb_length s < sb_size s"
    and "sb_size s + sb_increment s < 2 ^ 31" and "sb_length s + int (length c) < 2 ^ 30"
    and "sb_size s < sb_length s + int (length c)"
  shows "strbuf_append_mem (\<lambda>_. True) junk s c = Inl Sb_Bounds"
proof -
  have "strbuf_empty_length s = Inr (sb_size s - sb_length s - 1)"
    using assms(3,5-7) by (simp add: strbuf_empty_length_def int32_ok)
  moreover have "calculate_new_size s (sb_length s + int (length c)) = Inr (sb_size s)"
    using assms by (intro calculate_linear) auto
  moreover have "resize junk (nat (sb_size s)) b = b"
    using assms(2) by (simp add: resize_def flip: assms(2))
  moreover have "length b < nat (sb_length s) + length c"
    using assms(2,5,9) by linarith
  ultimately show ?thesis
    using assms(1,5,6,8,9)
    by (simp add: strbuf_append_mem_def strbuf_ensure_empty_length_def strbuf_resize_def int32_ok buf_write_def block_write_def)
qed

theorem strbuf_linear_overflow_witness:
  "strbuf_append_mem (\<lambda>_. True) 0 \<lparr>sb_buf = Some [0, 0, 0, 0], sb_size = 4, sb_length = 0, sb_increment = 2,
      sb_dynamic = False, sb_reallocs = 0\<rparr> [1, 2, 3, 4, 5] = Inl Sb_Bounds"
  using strbuf_linear_overflow [of "\<lparr>sb_buf = Some [0, 0, 0, 0], sb_size = 4, sb_length = 0, sb_increment = 2,
      sb_dynamic = False, sb_reallocs = 0\<rparr>" "[0, 0, 0, 0]" "[1, 2, 3, 4, 5]" 0] by simp

text \<open>
  A failed conversion is taken for a text of length \<open>-1\<close> by \<open>strbuf_append_fmt_retry\<close>: it drops the last byte of
  the buffer and reports nothing.
\<close>

lemma append_fmt_retry_failed_conversion:
  assumes "sb_inv s" and "0 < sb_length s"
  shows "strbuf_append_fmt_retry ok junk s None = Inr (s\<lparr>sb_length := sb_length s - 1\<rparr>)"
  using assms by (auto simp: sb_inv_def strbuf_append_fmt_retry_def fmt_try_def empty_length_ok int32_ok
      sb_vsnprintf_def strbuf_extend_length_def)

end
