(* ===== verification/Json_Decode_Proofs.thy ===== *)
theory Json_Decode_Proofs
  imports Json_Decode Strbuf_Proofs
begin

text \<open>
  Safety and termination of the JSON decoder: on every input it ends, with a value or with an error, reads
  nothing behind the terminator of the input and writes nothing behind the end of its temporary string,
  although it appends to that string without a check.
\<close>

subsection \<open>The invariant of the parser\<close>

definition tables_ok :: "json_config \<Rightarrow> bool" where
  "tables_ok cfg \<longleftrightarrow> ch2token cfg = init_ch2token \<and> escape2char cfg = init_escape2char"

text \<open>The temporary string has room for the whole input.\<close>

definition jp_inv :: "json_parse \<Rightarrow> bool" where
  "jp_inv json \<longleftrightarrow> tables_ok (jp_cfg json) \<and> jp_ptr json \<le> length (jp_data json) \<and>
     sb_inv (jp_tmp json) \<and> sb_dynamic (jp_tmp json) \<and> int (length (jp_data json)) < sb_size (jp_tmp json)"

text \<open>A later state of the same parse.\<close>

definition later :: "json_parse \<Rightarrow> json_parse \<Rightarrow> bool" where
  "later json json' \<longleftrightarrow> jp_inv json' \<and> jp_data json' = jp_data json \<and> jp_cfg json' = jp_cfg json \<and> jp_ptr json \<le> jp_ptr json'"

lemma later_trans: "later a b \<Longrightarrow> later b c \<Longrightarrow> later a c"
  by (auto simp: later_def)

lemma later_advance: "jp_inv json \<Longrightarrow> jp_ptr json + n \<le> length (jp_data json) \<Longrightarrow> later json (advance n json)"
  by (simp add: later_def jp_inv_def advance_def)

lemma peek_ok: "jp_ptr json + k \<le> length (jp_data json) \<Longrightarrow> \<exists>c. peek json k = Inr c"
  by (auto simp: peek_def)

lemma peek_next: "peek json k = Inr c \<Longrightarrow> c \<noteq> 0 \<Longrightarrow> jp_ptr json + Suc k \<le> length (jp_data json)"
  using peek_nonzero [of json k c] by simp

lemma escape_table_0: "init_escape2char ! unat c \<noteq> 0 \<Longrightarrow> c \<noteq> 0"
  by (auto simp: init_escape2char_def)

lemma token_table_0: "init_ch2token ! unat (0 :: byte) = T_END"
  by (simp add: init_ch2token_def)

subsection \<open>Escapes\<close>

lemma hexdigit_range: "hexdigit2int c < 16" "hexdigit2int 0 = -1"
proof -
  have "uint c \<le> 0x39" if "c \<le> 0x39" using that by (simp add: word_le_def)
  moreover have "uint (c OR 0x20) \<le> 0x66" if "c OR 0x20 \<le> 0x66" using that by (simp add: word_le_def)
  ultimately show "hexdigit2int c < 16" by (fastforce simp: hexdigit2int_def Let_def)
  show "hexdigit2int 0 = -1" by (simp add: hexdigit2int_def)
qed

lemma hex_digits_ok:
  "jp_ptr json + k \<le> length (jp_data json) \<Longrightarrow> \<exists>r. hex_digits json k n = Inr r \<and>
     (\<forall>ds. r = Some ds \<longrightarrow> length ds = n \<and> (\<forall>d \<in> set ds. 0 \<le> d \<and> d < 16) \<and> jp_ptr json + k + n \<le> length (jp_data json))"
proof (induction n arbitrary: k)
  case (Suc n)
  obtain c where c: "peek json k = Inr c" using peek_ok Suc.prems by blast
  show ?case
  proof (cases "hexdigit2int c < 0")
    case False
    then have "c \<noteq> 0" using hexdigit_range(2) by auto
    then have "jp_ptr json + Suc k \<le> length (jp_data json)" by (rule peek_next [OF c])
    then show ?thesis using Suc.IH [of "Suc k"] c False hexdigit_range(1) [of c] by auto
  qed (simp add: c)
qed simp

lemma decode_hex4_ok:
  assumes "jp_ptr json + k \<le> length (jp_data json)"
  shows "\<exists>x. decode_hex4 json k = Inr x \<and> (0 \<le> x \<longrightarrow> x < 65536 \<and> jp_ptr json + k + 4 \<le> length (jp_data json))"
proof -
  obtain r where r: "hex_digits json k 4 = Inr r"
    "\<forall>ds. r = Some ds \<longrightarrow> length ds = 4 \<and> (\<forall>d \<in> set ds. 0 \<le> d \<and> d < 16) \<and> jp_ptr json + k + 4 \<le> length (jp_data json)"
    using hex_digits_ok [OF assms, of 4] by blast
  show ?thesis
  proof (cases r)
    case None
    then show ?thesis using r by (simp add: decode_hex4_def)
  next
    case (Some ds)
    then obtain a b c d where ds: "ds = [a, b, c, d]" using r(2) by (auto simp: numeral_eq_Suc length_Suc_conv)
    then have "a < 16" "b < 16" "c < 16" "d < 16" using r(2) Some by auto
    then show ?thesis using r Some ds by (simp add: decode_hex4_def push_bit_eq_mult)
  qed
qed

lemma and_3ff: "(x :: int) AND 0x3ff = x mod 0x400"
proof -
  have "x AND 0x3ff = take_bit 10 x" by (simp add: take_bit_eq_mask mask_eq_exp_minus_1)
  then show ?thesis by (simp add: take_bit_eq_mod)
qed

lemma unicode_escape_ok:
  assumes "jp_ptr json + 2 \<le> length (jp_data json)"
  shows "\<exists>r. unicode_escape json = Inr r \<and> (\<forall>cp n. r = Some (cp, n) \<longrightarrow> 0 \<le> cp \<and> jp_ptr json + n \<le> length (jp_data json) \<and>
    (n = 6 \<and> cp < 0x10000 \<or> n = 12 \<and> cp < 0x110000))"
proof -
  obtain x where x: "decode_hex4 json 2 = Inr x" "0 \<le> x \<Longrightarrow> x < 65536 \<and> jp_ptr json + 6 \<le> length (jp_data json)"
    using decode_hex4_ok [OF assms] by auto
  consider "x < 0" | "0 \<le> x" "x AND 0xf800 \<noteq> 0xd800 \<or> x AND 0x400 \<noteq> 0"
    | c where "0 \<le> x" "x AND 0xf800 = 0xd800" "x AND 0x400 = 0" "peek json 6 = Inr c" "c \<noteq> 0x5c"
    | c where "0 \<le> x" "x AND 0xf800 = 0xd800" "x AND 0x400 = 0" "peek json 6 = Inr 0x5c" "peek json 7 = Inr c" "c \<noteq> 0x75"
    | "0 \<le> x" "x AND 0xf800 = 0xd800" "x AND 0x400 = 0" "peek json 6 = Inr 0x5c" "peek json 7 = Inr 0x75"
    using x(2) peek_ok [of json 6] peek_ok [of json 7] peek_next [of json 6 "0x5c"] by (cases "x < 0") fastforce+
  then show ?thesis
  proof cases
    case 5
    then have "jp_ptr json + 8 \<le> length (jp_data json)" using peek_next [of json 7 "0x75"] by simp
    then obtain y where y: "decode_hex4 json 8 = Inr y" "0 \<le> y \<Longrightarrow> y < 65536 \<and> jp_ptr json + 12 \<le> length (jp_data json)"
      using decode_hex4_ok [of json 8] by auto
    have "push_bit 10 (x AND 0x3ff) OR (y AND 0x3ff) < 2 ^ 20" if "0 \<le> y"
      using that by (intro OR_upper) (auto simp: and_3ff push_bit_eq_mult)
    then show ?thesis using 5 x y by (auto simp: unicode_escape_def)
  qed (use x in \<open>auto simp: unicode_escape_def\<close>)
qed

lemma utf8_length:
  "codepoint_to_utf8 cp \<noteq> [] \<Longrightarrow> length (codepoint_to_utf8 cp) \<le> 4" "cp < 0x10000 \<Longrightarrow> length (codepoint_to_utf8 cp) \<le> 3"
  by (auto simp: codepoint_to_utf8_def)

subsection \<open>Strings\<close>

text \<open>No more bytes are in the temporary string than have been read.\<close>

definition in_string :: "json_parse \<Rightarrow> bool" where
  "in_string json \<longleftrightarrow> jp_inv json \<and> sb_length (jp_tmp json) \<le> int (jp_ptr json)"

lemma put_ok:
  assumes "in_string json" and "length bs \<le> n" and "jp_ptr json + n \<le> length (jp_data json)"
  shows "\<exists>t. strbuf_append_mem_unsafe (jp_tmp json) bs = Inr t \<and> sb_contents t = sb_contents (jp_tmp json) @ bs \<and>
    in_string (advance n (json\<lparr>jp_tmp := t\<rparr>)) \<and> later json (advance n (json\<lparr>jp_tmp := t\<rparr>))"
proof -
  have inv: "sb_inv (jp_tmp json)" "sb_length (jp_tmp json) + int (length bs) < sb_size (jp_tmp json)"
    using assms by (auto simp: in_string_def jp_inv_def)
  obtain t where "strbuf_append_mem_unsafe (jp_tmp json) bs = Inr t" "sb_inv t" "sb_size t = sb_size (jp_tmp json)"
    "sb_contents t = sb_contents (jp_tmp json) @ bs" "sb_length t = sb_length (jp_tmp json) + int (length bs)"
    "sb_dynamic t = sb_dynamic (jp_tmp json)"
    using append_mem_unsafe_room [OF inv] by blast
  then show ?thesis using assms by (auto simp: in_string_def jp_inv_def later_def advance_def)
qed

definition is_error :: "json_token \<Rightarrow> bool" where
  "is_error tok \<longleftrightarrow> tok_type tok = T_ERROR"

lemma error_token: "is_error (json_set_token_error json m)"
  by (simp add: is_error_def json_set_token_error_def)

lemma unicode_append_ok:
  assumes "in_string json" and "jp_ptr json + 2 \<le> length (jp_data json)"
  shows "\<exists>r. json_append_unicode_escape json = Inr r \<and> (\<forall>json'. r = Some json' \<longrightarrow> in_string json' \<and> later json json')"
proof -
  obtain r where r: "unicode_escape json = Inr r" "\<forall>cp n. r = Some (cp, n) \<longrightarrow> 0 \<le> cp \<and> jp_ptr json + n \<le> length (jp_data json) \<and>
    (n = 6 \<and> cp < 0x10000 \<or> n = 12 \<and> cp < 0x110000)" using unicode_escape_ok [OF assms(2)] by blast
  show ?thesis
  proof (cases r)
    case None
    then show ?thesis using r by (simp add: json_append_unicode_escape_def)
  next
    case (Some p)
    obtain cp n where p: "p = (cp, n)" by fastforce
    then have "jp_ptr json + n \<le> length (jp_data json)" "length (codepoint_to_utf8 cp) \<le> n"
      using r(2) Some utf8_length [of cp] by (cases "codepoint_to_utf8 cp = []"; force)+
    then show ?thesis
      using put_ok [OF assms(1), of "codepoint_to_utf8 cp" n] r(1) Some p
      by (auto simp: json_append_unicode_escape_def Let_def lift_sb_def)
  qed
qed

lemma string_step_ok:
  assumes "in_string json" and "peek json 0 = Inr ch"
  shows "\<exists>r. string_step json ch = Inr r \<and> (case r of Inl tok \<Rightarrow> is_error tok | Inr json' \<Rightarrow> in_string json' \<and> later json json')"
proof (cases "ch = 0 \<or> ch \<noteq> 0x5c")
  case True
  then consider "ch = 0" | "ch \<noteq> 0" "ch \<noteq> 0x5c" by blast
  then show ?thesis
  proof cases
    case 1
    then show ?thesis using error_token by (simp add: string_step_def)
  next
    case 2
    then have "jp_ptr json + 1 \<le> length (jp_data json)" using peek_next [OF assms(2)] by simp
    then show ?thesis using put_ok [OF assms(1), of "[ch]" 1] 2
      by (auto simp: string_step_def append_char_unsafe_mem lift_sb_def)
  qed
next
  case False
  then have "jp_ptr json + 1 \<le> length (jp_data json)" using peek_next [OF assms(2)] by simp
  then obtain esc where esc: "peek json 1 = Inr esc" using peek_ok [of json 1] by auto
  define c where "c = escape2char (jp_cfg json) ! unat esc"
  have step: "string_step json ch = (if c = 0x75 then ebind (json_append_unicode_escape json) (\<lambda>r. case r of
                Some json \<Rightarrow> Inr (Inr json)
              | None \<Rightarrow> Inr (Inl (json_set_token_error json ''invalid unicode escape code'')))
           else if c = 0 then Inr (Inl (json_set_token_error json ''invalid escape code''))
           else ebind (lift_sb (strbuf_append_char_unsafe (jp_tmp json) c)) (\<lambda>t. Inr (Inr (advance 2 (json\<lparr>jp_tmp := t\<rparr>)))))"
    using False esc by (simp add: string_step_def Let_def c_def)
  show ?thesis
  proof (cases "c = 0")
    case True
    then show ?thesis using error_token by (simp add: step)
  next
    case False
    then have "esc \<noteq> 0" using escape_table_0 [of esc] assms(1) by (auto simp: c_def in_string_def jp_inv_def tables_ok_def)
    then have two: "jp_ptr json + 2 \<le> length (jp_data json)" using peek_next [OF esc] by simp
    then show ?thesis
      using put_ok [OF assms(1), of "[c]" 2] unicode_append_ok [OF assms(1) two] False error_token
      by (auto simp: step append_char_unsafe_mem lift_sb_def split: option.splits)
  qed
qed

lemma string_loop_ok:
  assumes "in_string json"
  shows "\<exists>r. string_loop json = Inr r \<and> (case r of Inl tok \<Rightarrow> is_error tok | Inr json' \<Rightarrow> later json json' \<and> jp_ptr json < jp_ptr json')"
  using assms
proof (induction "length (jp_data json) - jp_ptr json" arbitrary: json rule: less_induct)
  case less
  obtain ch where ch: "peek json 0 = Inr ch" using peek_ok [of json 0] less.prems by (auto simp: in_string_def jp_inv_def)
  show ?case
  proof (cases "ch = 0x22")
    case True
    then have "later json (advance 1 json)"
      using later_advance [of json 1] peek_next [OF ch] less.prems by (auto simp: in_string_def)
    then show ?thesis using True ch by (subst string_loop.simps) (simp add: advance_def)
  next
    case False
    obtain r where r: "string_step json ch = Inr r" "case r of Inl tok \<Rightarrow> is_error tok | Inr json' \<Rightarrow> in_string json' \<and> later json json'"
      using string_step_ok [OF less.prems ch] by blast
    have loop: "string_loop json = (case r of Inl tok \<Rightarrow> Inr (Inl tok) | Inr json \<Rightarrow> string_loop json)"
      using ch False r(1) by (subst string_loop.simps) simp
    show ?thesis
    proof (cases r)
      case (Inl tok)
      then show ?thesis using r(2) loop by simp
    next
      case (Inr json')
      then have j': "in_string json'" "later json json'" "ch \<noteq> 0" "jp_data json' = jp_data json" "jp_ptr json < jp_ptr json'"
        using r string_step_progress [of json ch json'] by auto
      then have "length (jp_data json') - jp_ptr json' < length (jp_data json) - jp_ptr json"
        using peek_nonzero [OF ch] by (simp add: diff_less_mono2)
      from less.hyps [OF this j'(1)] obtain r' where "string_loop json' = Inr r'"
        "case r' of Inl tok \<Rightarrow> is_error tok | Inr json'' \<Rightarrow> later json' json'' \<and> jp_ptr json' < jp_ptr json''" by blast
      then show ?thesis
        using loop Inr later_trans [OF j'(2)] j'(5) by (auto split: sum.splits)
    qed
  qed
qed

subsection \<open>Tokens\<close>

text \<open>What a token leaves behind: every token but an error and the end consumes input.\<close>

definition tok_ok :: "json_parse \<Rightarrow> json_token \<times> json_parse \<Rightarrow> bool" where
  "tok_ok json p \<longleftrightarrow> (case p of (tok, json') \<Rightarrow> later json json' \<and>
     (tok_type tok = T_ERROR \<or> tok_type tok = T_END \<or> jp_ptr json < jp_ptr json'))"

lemma ensure_null_any:
  assumes "sb_inv s"
  shows "\<exists>s'. strbuf_ensure_null s = Inr s' \<and> sb_inv s' \<and> sb_contents s' = sb_contents s \<and> sb_dynamic s' = sb_dynamic s \<and> sb_size s' = sb_size s"
proof -
  obtain s' where s': "strbuf_ensure_null s = Inr s'" "sb_inv s'" "sb_contents s' = sb_contents s" "sb_dynamic s' = sb_dynamic s"
    using ensure_null_ok [OF assms] by blast
  moreover have "sb_size s' = sb_size s"
    using s'(1) by (auto simp: strbuf_ensure_null_def buf_write_def split: option.splits if_splits)
  ultimately show ?thesis by blast
qed

lemma reset_inv: "sb_inv s \<Longrightarrow> sb_inv (strbuf_reset s) \<and> sb_contents (strbuf_reset s) = [] \<and> sb_dynamic (strbuf_reset s) = sb_dynamic s \<and>
    sb_size (strbuf_reset s) = sb_size s \<and> sb_length (strbuf_reset s) = 0"
  by (auto simp: strbuf_reset_def sb_inv_def sb_contents_def split: option.splits)

lemma in_string_start:
  assumes "jp_inv json" and "peek json 0 = Inr 0x22"
  shows "in_string ((advance 1 json)\<lparr>jp_tmp := strbuf_reset (jp_tmp json)\<rparr>)"
    and "later json ((advance 1 json)\<lparr>jp_tmp := strbuf_reset (jp_tmp json)\<rparr>)"
  using assms peek_next [OF assms(2)] reset_inv [of "jp_tmp json"] by (auto simp: in_string_def jp_inv_def later_def advance_def)

lemma string_token_ok:
  assumes "jp_inv json" and "peek json 0 = Inr 0x22"
  shows "\<exists>p. json_next_string_token json = Inr p \<and> tok_ok json p"
proof -
  define json1 where "json1 = (advance 1 json)\<lparr>jp_tmp := strbuf_reset (jp_tmp json)\<rparr>"
  have eq: "json_next_string_token json = ebind (string_loop json1) (\<lambda>r. case r of Inl tok \<Rightarrow> Inr (tok, json1)
         | Inr json' \<Rightarrow> ebind (lift_sb (strbuf_ensure_null (jp_tmp json'))) (\<lambda>t.
             case strbuf_string t of (buf, len) \<Rightarrow>
               Inr (\<lparr>tok_type = T_STRING, tok_index = jp_ptr json, tok_val = V_string (take (nat len) (case buf of None \<Rightarrow> [] | Some b \<Rightarrow> b))\<rparr>,
                    json'\<lparr>jp_tmp := t\<rparr>)))"
    by (simp only: json_next_string_token_def Let_def json1_def)
  have j1: "in_string json1" "later json json1" using in_string_start [OF assms] by (simp_all add: json1_def)
  obtain r where r: "string_loop json1 = Inr r" "case r of Inl tok \<Rightarrow> is_error tok | Inr json' \<Rightarrow> later json1 json' \<and> jp_ptr json1 < jp_ptr json'"
    using string_loop_ok [OF j1(1)] by blast
  show ?thesis
  proof (cases r)
    case (Inl tok)
    then show ?thesis
      using r j1(2) by (auto simp: eq tok_ok_def is_error_def)
  next
    case (Inr json')
    then have j': "later json json'" "jp_ptr json < jp_ptr json'" using r(2) j1(2) later_trans [OF j1(2)] by (auto simp: later_def)
    then obtain t where "strbuf_ensure_null (jp_tmp json') = Inr t" "sb_inv t" "sb_dynamic t = sb_dynamic (jp_tmp json')"
      "sb_size t = sb_size (jp_tmp json')" using ensure_null_any [of "jp_tmp json'"] by (auto simp: later_def jp_inv_def)
    then show ?thesis
      using r(1) Inr j' by (auto simp: eq tok_ok_def lift_sb_def strbuf_string_def later_def jp_inv_def)
  qed
qed

lemma rest_length: "jp_ptr json + k \<le> length (jp_data json) \<Longrightarrow> jp_ptr json + k + length (rest json k) \<le> length (jp_data json)"
  using length_takeWhile_le [of "\<lambda>c. c \<noteq> 0" "drop (jp_ptr json + k) (jp_data json)"] by (simp add: rest_def)

text \<open>\<open>strtod\<close> reads no further than its argument.\<close>

definition strtod_law :: "json_env \<Rightarrow> bool" where
  "strtod_law E \<longleftrightarrow> (\<forall>s. snd (env_strtod E s) \<le> length s)"

lemma fpconv_strtod_le:
  assumes "strtod_law E"
  shows "fpconv_strtod ok (env_strtod E) dp s = Inl Die \<or> (\<exists>x n. fpconv_strtod ok (env_strtod E) dp s = Inr (x, n) \<and> n \<le> length s)"
proof -
  have len: "length (set_decimal_point p xs) = length xs" for p xs by (induction p xs rule: set_decimal_point.induct) auto
  have "strtod_buffer_size s \<le> length s" by (simp add: strtod_buffer_size_def length_takeWhile_le)
  moreover have le: "snd (env_strtod E xs) \<le> length xs" for xs using assms by (simp add: strtod_law_def)
  moreover have "snd (env_strtod E (set_decimal_point dp (take (strtod_buffer_size s) s))) \<le> strtod_buffer_size s"
    using le [of "set_decimal_point dp (take (strtod_buffer_size s) s)"] by (simp add: len)
  ultimately have "case fpconv_strtod ok (env_strtod E) dp s of Inl e \<Rightarrow> e = Die | Inr p \<Rightarrow> snd p \<le> length s"
    by (simp add: fpconv_strtod_def Let_def)
  then show ?thesis by (cases "fpconv_strtod ok (env_strtod E) dp s") auto
qed

text \<open>A token has been read, or the program ends for lack of memory.\<close>

definition tok_res :: "json_parse \<Rightarrow> json_exc + json_token \<times> json_parse \<Rightarrow> bool" where
  "tok_res json r \<longleftrightarrow> r = Inl (Fault Die) \<or> (\<exists>p. r = Inr p \<and> tok_ok json p)"

lemma number_token_ok:
  assumes "strtod_law E" and "jp_inv json"
  shows "tok_res json (json_next_number_token E json)"
proof -
  consider "fpconv_strtod (env_alloc E) (env_strtod E) (env_decimal_point E) (rest json 0) = Inl Die"
    | x n where "fpconv_strtod (env_alloc E) (env_strtod E) (env_decimal_point E) (rest json 0) = Inr (x, n)" "n \<le> length (rest json 0)"
    using fpconv_strtod_le [OF assms(1)] by blast
  then show ?thesis
  proof cases
    case 1
    then show ?thesis by (simp add: json_next_number_token_def lift_sb_def tok_res_def)
  next
    case (2 x n)
    moreover have "later json (advance n json)"
      using 2(2) rest_length [of json 0] assms(2) by (intro later_advance) (auto simp: jp_inv_def)
    ultimately show ?thesis using assms(2)
      by (auto simp: json_next_number_token_def lift_sb_def tok_res_def tok_ok_def json_set_token_error_def later_def advance_def)
  qed
qed

lemma invalid_number_ok: "jp_inv json \<Longrightarrow> \<exists>b. json_is_invalid_number json = Inr b"
proof -
  assume "jp_inv json"
  then obtain c where c: "peek json 0 = Inr c" using peek_ok [of json 0] by (auto simp: jp_inv_def)
  define p :: nat where "p = (if c = 0x2d then 1 else 0)"
  have p: "jp_ptr json + p \<le> length (jp_data json)" using peek_next [OF c] \<open>jp_inv json\<close> by (auto simp: p_def jp_inv_def)
  then obtain c1 where c1: "peek json p = Inr c1" using peek_ok by blast
  show ?thesis
  proof (cases "c1 = 0x30")
    case True
    then obtain c2 where "peek json (p + 1) = Inr c2" using peek_next [OF c1] peek_ok [of json "p + 1"] by auto
    then show ?thesis using c c1 True by (auto simp: json_is_invalid_number_def Let_def simp flip: p_def)
  next
    case False
    then show ?thesis using c c1 by (auto simp: json_is_invalid_number_def Let_def simp flip: p_def)
  qed
qed

lemma skip_whitespace_ok:
  assumes "jp_inv json"
  shows "\<exists>ch json'. skip_whitespace json = Inr (ch, init_ch2token ! unat ch, json') \<and> later json json' \<and> peek json' 0 = Inr ch \<and>
    init_ch2token ! unat ch \<noteq> T_WHITESPACE"
  using assms
proof (induction "Suc (length (jp_data json)) - jp_ptr json" arbitrary: json rule: less_induct)
  case less
  obtain ch where ch: "peek json 0 = Inr ch" using peek_ok [of json 0] less.prems by (auto simp: jp_inv_def)
  have tab: "ch2token (jp_cfg json) = init_ch2token" using less.prems by (simp add: jp_inv_def tables_ok_def)
  show ?case
  proof (cases "init_ch2token ! unat ch = T_WHITESPACE")
    case False
    then show ?thesis using ch tab less.prems by (subst skip_whitespace.simps) (auto simp: later_def)
  next
    case True
    then have "ch \<noteq> 0" using token_table_0 by auto
    then have adv: "later json (advance 1 json)" using later_advance [OF less.prems, of 1] peek_next [OF ch] by simp
    then have "\<exists>ch json'. skip_whitespace (advance 1 json) = Inr (ch, init_ch2token ! unat ch, json') \<and> later (advance 1 json) json' \<and>
        peek json' 0 = Inr ch \<and> init_ch2token ! unat ch \<noteq> T_WHITESPACE"
      using less.prems by (intro less.hyps) (auto simp: later_def advance_def jp_inv_def)
    then show ?thesis using True ch tab later_trans [OF adv] by (subst skip_whitespace.simps) auto
  qed
qed

lemma tok_res_Inr: "tok_ok json p \<Longrightarrow> tok_res json (Inr p)"
  by (simp add: tok_res_def)

lemma tok_res_if: "(b \<Longrightarrow> tok_res json x) \<Longrightarrow> (\<not> b \<Longrightarrow> tok_res json y) \<Longrightarrow> tok_res json (if b then x else y)"
  by simp

text \<open>The token after the white space, for the character \<open>ch\<close> that the pointer is at.\<close>

lemma next_token_ok:
  assumes "strtod_law E" and "jp_inv json"
  shows "tok_res json (json_next_token E json)"
proof -
  obtain ch json1 where w: "skip_whitespace json = Inr (ch, init_ch2token ! unat ch, json1)" "later json json1" "peek json1 0 = Inr ch"
    "init_ch2token ! unat ch \<noteq> T_WHITESPACE" using skip_whitespace_ok [OF assms(2)] by blast
  have inv: "jp_inv json1" using w(2) by (simp add: later_def)
  have trans: "tok_ok json1 p \<Longrightarrow> tok_ok json p" for p
    using w(2) later_trans [OF w(2)] by (cases p) (auto simp: tok_ok_def later_def)
  have err: "tok_ok json1 (json_set_token_error json1 m, json1)" for m
    using inv by (simp add: tok_ok_def json_set_token_error_def later_def)
  have word: "tok_ok json1 (\<lparr>tok_type = ty, tok_index = k, tok_val = v\<rparr>, advance n json1)"
    if "take n (rest json1 0) = xs" "length xs = n" "0 < n" for ty k v xs n
  proof -
    have "n \<le> length (rest json1 0)" using that(1,2) by auto
    then have "later json1 (advance n json1)"
      using rest_length [of json1 0] inv by (intro later_advance) (auto simp: jp_inv_def)
    then show ?thesis using that(3) by (simp add: tok_ok_def advance_def)
  qed
  have one: "tok_ok json1 (\<lparr>tok_type = ty, tok_index = k, tok_val = v\<rparr>, advance 1 json1)" if "ch \<noteq> 0" for ty k v
    using later_advance [OF inv, of 1] peek_next [OF w(3) that] by (simp add: tok_ok_def advance_def)
  have last: "tok_ok json1 (\<lparr>tok_type = T_END, tok_index = k, tok_val = v\<rparr>, json1)" for k v
    using inv by (simp add: tok_ok_def later_def)
  have zero: "init_ch2token ! unat ch \<noteq> T_END \<Longrightarrow> ch \<noteq> 0" using token_table_0 by auto
  obtain b where b: "json_is_invalid_number json1 = Inr b" using invalid_number_ok [OF inv] by blast
  have inr: "(if q then json_is_invalid_number json1 else Inr False) = Inr (q \<and> b)" for q using b by simp
  have "tok_res json1 (json_next_token E json)"
    unfolding json_next_token_def w(1) ebind_simps split_conv Let_def inr
    by (intro tok_res_if tok_res_Inr err one number_token_ok [OF assms(1) inv])
      (use w zero string_token_ok [OF inv] last in \<open>simp_all add: tok_res_def word\<close>)
  then show ?thesis using trans by (auto simp: tok_res_def)
qed

subsection \<open>The parser\<close>

text \<open>
  A parse step ends in a later state, raises an error after it has released the temporary string, or ends the program
  for lack of memory.
\<close>

definition dec_ok :: "json_parse \<Rightarrow> json_exc + lua_value \<times> json_parse \<Rightarrow> bool" where
  "dec_ok json r \<longleftrightarrow> r = Inl (Fault Die) \<or> (\<exists>m. r = Inl (Raise m None)) \<or> (\<exists>v json'. r = Inr (v, json') \<and> later json json')"

lemma dec_ok_raise: "jp_inv json' \<Longrightarrow> dec_ok json (Inl (json_throw_parse_error json' e tok))"
  by (simp add: dec_ok_def json_throw_parse_error_def Let_def strbuf_free_def jp_inv_def)

lemma dec_ok_Inr: "later json json' \<Longrightarrow> dec_ok json (Inr (v, json'))"
  by (simp add: dec_ok_def)

lemma dec_ok_later: "later json json' \<Longrightarrow> dec_ok json' r \<Longrightarrow> dec_ok json r"
  by (auto simp: dec_ok_def intro: later_trans)

lemma later_ascend: "later json json' \<Longrightarrow> later json (json_decode_ascend json')"
  by (auto simp: later_def jp_inv_def json_decode_ascend_def)

text \<open>Reading a token and going on, and parsing a value and going on.\<close>

lemma dec_ok_token:
  assumes "strtod_law E" and "jp_inv json" and "\<And>tok json'. tok_ok json (tok, json') \<Longrightarrow> jp_inv json' \<Longrightarrow> dec_ok json' (g tok json')"
  shows "dec_ok json (ebind (json_next_token E json) (\<lambda>(tok, json'). g tok json'))"
proof (cases "json_next_token E json = Inl (Fault Die)")
  case False
  then obtain tok json' where t: "json_next_token E json = Inr (tok, json')" "tok_ok json (tok, json')"
    using next_token_ok [OF assms(1,2)] by (auto simp: tok_res_def)
  then have "later json json'" by (simp add: tok_ok_def)
  then show ?thesis using t assms(3) [OF t(2)] dec_ok_later by (simp add: later_def)
qed (simp add: dec_ok_def)

lemma dec_ok_bind:
  assumes "dec_ok json r" and "\<And>v json'. later json json' \<Longrightarrow> jp_inv json' \<Longrightarrow> dec_ok json' (g v json')"
  shows "dec_ok json (ebind r (\<lambda>(v, json'). g v json'))"
  using assms unfolding dec_ok_def by (fastforce simp: later_def)

lemma dec_ok_descend:
  assumes "jp_inv json" and "\<And>json'. later json json' \<Longrightarrow> jp_ptr json' = jp_ptr json \<Longrightarrow> dec_ok json' (g json')"
  shows "dec_ok json (ebind (json_decode_descend E json) g)"
proof (cases "json_decode_descend E json")
  case (Inl e)
  then show ?thesis using assms(1)
    by (auto simp: dec_ok_def json_decode_descend_def Let_def strbuf_free_def jp_inv_def split: if_splits)
next
  case (Inr json')
  then have "later json json'" "jp_ptr json' = jp_ptr json"
    using assms(1) by (auto simp: json_decode_descend_def Let_def later_def jp_inv_def split: if_splits)
  then show ?thesis using Inr assms(2) dec_ok_later by simp
qed

lemma dec_ok_if: "(b \<Longrightarrow> dec_ok json x) \<Longrightarrow> (\<not> b \<Longrightarrow> dec_ok json y) \<Longrightarrow> dec_ok json (if b then x else y)"
  by simp

abbreviation left :: "json_parse \<Rightarrow> nat" where
  "left json \<equiv> length (jp_data json) - jp_ptr json"

text \<open>A token leaves less input, except for the two kinds of tokens that every context refuses.\<close>

lemma token_left:
  assumes "tok_ok json (tok, json')" and "jp_inv json'" and "tok_type tok \<noteq> T_ERROR" and "tok_type tok \<noteq> T_END"
  shows "left json' < left json"
  using assms by (auto simp: tok_ok_def later_def jp_inv_def)

lemma token_left_le: "tok_ok json (tok, json') \<Longrightarrow> left json' \<le> left json"
  by (auto simp: tok_ok_def later_def)

lemma later_left: "later json json' \<Longrightarrow> left json' \<le> left json"
  by (auto simp: later_def)

text \<open>
  The index of an array element stays an \<open>int\<close>: every element but the first follows a comma of the input, and the
  input is shorter than the temporary string.
\<close>

lemma index_int32:
  assumes "jp_inv json" and "1 \<le> i" and "i \<le> int (jp_ptr json)"
  shows "lift_sb (int32 (i + 1)) = Inr (i + 1)"
  using assms by (auto simp: jp_inv_def sb_inv_def lift_sb_def int32_ok)

lemma process_refuses:
  "tok_type tok = T_ERROR \<or> tok_type tok = T_END \<Longrightarrow> jp_inv json \<Longrightarrow> dec_ok json (json_process_value (Suc f) E json tok)"
  by (auto intro: dec_ok_raise)

lemma parser_ok:
  assumes "strtod_law E"
  shows "jp_inv json \<Longrightarrow> 2 * left json + 3 \<le> f \<Longrightarrow> dec_ok json (json_process_value f E json tok)"
    and "jp_inv json \<Longrightarrow> 2 * left json + 4 \<le> f \<or> 2 \<le> f \<and> tok_type tok \<in> {T_ERROR, T_END} \<Longrightarrow> dec_ok json (json_parse_object_context f E t json tok)"
    and "jp_inv json \<Longrightarrow> 2 * left json + 4 \<le> f \<or> 2 \<le> f \<and> tok_type tok \<in> {T_ERROR, T_END} \<Longrightarrow> 1 \<le> i \<Longrightarrow> i \<le> int (jp_ptr json) + 1 \<Longrightarrow>
      dec_ok json (json_parse_array_context f E t i json tok)"
proof (induction f arbitrary: json tok t i)
  case 0
  { case 1 then show ?case by simp }
  { case 2 then show ?case by simp }
  { case 3 then show ?case by simp }
next
  case (Suc f)
  have enough: "2 * left json' + 4 \<le> f \<or> 2 \<le> f \<and> tok_type tok' \<in> {T_ERROR, T_END}"
    if "tok_ok json0 (tok', json')" "jp_inv json'" "2 * left json0 + 3 \<le> Suc f" for json0 tok' json'
    using that token_left [OF that(1,2)] by fastforce
  { case 1
    have "dec_ok json (ebind (json_decode_descend E json) (\<lambda>json. ebind (json_next_token E json) (\<lambda>(token, json).
         if tok_type token = T_OBJ_END then Inr (LTable [], json_decode_ascend json)
         else json_parse_object_context f E [] json token)))"
      using 1 enough
      by (intro dec_ok_descend dec_ok_token [OF assms] dec_ok_if dec_ok_Inr later_ascend Suc.IH(2)) (auto simp: later_def)
    moreover have "dec_ok json (ebind (json_decode_descend E json) (\<lambda>json. ebind (json_next_token E json) (\<lambda>(token, json).
         if tok_type token = T_ARR_END then Inr (LTable [], json_decode_ascend json)
         else json_parse_array_context f E [] 1 json token)))"
      using 1 enough
      by (intro dec_ok_descend dec_ok_token [OF assms] dec_ok_if dec_ok_Inr later_ascend Suc.IH(3)) (auto simp: later_def)
    ultimately show ?case
      using 1 by (cases "tok_type tok") (auto intro: dec_ok_raise dec_ok_Inr simp: later_def) }
  { case 2
    show ?case
    proof (cases "tok_type tok = T_STRING")
      case False
      then show ?thesis using 2 by (auto intro: dec_ok_raise)
    next
      case True
      then have fuel: "2 * left json + 4 \<le> Suc f" using 2 by auto
      define key where "key = (case tok_val tok of V_string s \<Rightarrow> LString s | _ \<Rightarrow> LNil)"
      have cont: "dec_ok json' (ebind (json_next_token E json') (\<lambda>(token, json).
          if tok_type token = T_OBJ_END then Inr (LTable (tset t key v), json_decode_ascend json)
          else if tok_type token \<noteq> T_COMMA then Inl (json_throw_parse_error json ''comma or object end'' token)
          else ebind (json_next_token E json) (\<lambda>(token, json). json_parse_object_context f E (tset t key v) json token)))"
        if j': "jp_inv json'" "2 * left json' + 4 \<le> Suc f" for json' v
      proof (intro dec_ok_token [OF assms] dec_ok_if dec_ok_Inr later_ascend dec_ok_raise Suc.IH(2))
        fix tok1 json1 tok2 json2
        assume a: "tok_ok json' (tok1, json1)" "jp_inv json1" "tok_ok json1 (tok2, json2)" "jp_inv json2"
        then show "2 * left json2 + 4 \<le> f \<or> 2 \<le> f \<and> tok_type tok2 \<in> {T_ERROR, T_END}"
          using j'(2) token_left_le [OF a(1)] by (intro enough [OF a(3,4)]) simp
      qed (use j' in \<open>auto simp: later_def\<close>)
      have "dec_ok json (ebind (json_next_token E json) (\<lambda>(token, json).
        if tok_type token \<noteq> T_COLON then Inl (json_throw_parse_error json ''colon'' token)
        else ebind (json_next_token E json) (\<lambda>(token, json).
        ebind (json_process_value f E json token) (\<lambda>(v, json).
        ebind (json_next_token E json) (\<lambda>(token, json).
          if tok_type token = T_OBJ_END then Inr (LTable (tset t key v), json_decode_ascend json)
          else if tok_type token \<noteq> T_COMMA then Inl (json_throw_parse_error json ''comma or object end'' token)
          else ebind (json_next_token E json) (\<lambda>(token, json). json_parse_object_context f E (tset t key v) json token))))))"
      proof (intro cont dec_ok_token [OF assms] dec_ok_if dec_ok_raise dec_ok_bind Suc.IH(1))
        fix tok1 json1 tok2 json2
        assume a: "tok_ok json (tok1, json1)" "jp_inv json1" "\<not> tok_type tok1 \<noteq> T_COLON" "tok_ok json1 (tok2, json2)" "jp_inv json2"
        then have l: "left json1 < left json" "left json2 \<le> left json1"
          using token_left [OF a(1,2)] token_left_le [OF a(4)] by auto
        then show "2 * left json2 + 3 \<le> f" using fuel by simp
        fix v :: lua_value and json3
        assume "later json2 json3"
        then show "2 * left json3 + 4 \<le> Suc f" using l fuel later_left [of json2 json3] by simp
      qed (use 2 in auto)
      then show ?thesis using True unfolding json_parse_object_context.simps Let_def key_def by simp
    qed }
  { case 3
    have cont: "dec_ok json' (ebind (json_next_token E json') (\<lambda>(token, json).
        if tok_type token = T_ARR_END then Inr (LTable (tset t (LNumber (dbl_of_int i)) v), json_decode_ascend json)
        else if tok_type token \<noteq> T_COMMA then Inl (json_throw_parse_error json ''comma or array end'' token)
        else ebind (json_next_token E json) (\<lambda>(token, json).
          ebind (lift_sb (int32 (i + 1))) (\<lambda>i'. json_parse_array_context f E (tset t (LNumber (dbl_of_int i)) v) i' json token))))"
      if j': "jp_inv json'" "2 * left json' + 4 \<le> Suc f" "i \<le> int (jp_ptr json') + 1" for json' v
    proof (intro dec_ok_token [OF assms] dec_ok_if dec_ok_Inr later_ascend dec_ok_raise)
      fix tok1 json1 tok2 json2
      assume a: "tok_ok json' (tok1, json1)" "jp_inv json1" "tok_ok json1 (tok2, json2)" "jp_inv json2" "\<not> tok_type tok1 \<noteq> T_COMMA"
      have fuel: "2 * left json2 + 4 \<le> f \<or> 2 \<le> f \<and> tok_type tok2 \<in> {T_ERROR, T_END}"
        using j'(2) token_left_le [OF a(1)] by (intro enough [OF a(3,4)]) simp
      have "i \<le> int (jp_ptr json2)" using a j'(3) by (auto simp: tok_ok_def later_def)
      then show "dec_ok json2 (ebind (lift_sb (int32 (i + 1))) (\<lambda>i'. json_parse_array_context f E (tset t (LNumber (dbl_of_int i)) v) i' json2 tok2))"
        using index_int32 [OF a(4) 3(3)] Suc.IH(3) [OF a(4) fuel] 3(3) by simp
    qed (use j' in \<open>auto simp: later_def\<close>)
    show ?case
    proof (cases "2 * left json + 4 \<le> Suc f")
      case True
      then have "dec_ok json (ebind (json_process_value f E json tok) (\<lambda>(v, json). ebind (json_next_token E json) (\<lambda>(token, json).
        if tok_type token = T_ARR_END then Inr (LTable (tset t (LNumber (dbl_of_int i)) v), json_decode_ascend json)
        else if tok_type token \<noteq> T_COMMA then Inl (json_throw_parse_error json ''comma or array end'' token)
        else ebind (json_next_token E json) (\<lambda>(token, json).
          ebind (lift_sb (int32 (i + 1))) (\<lambda>i'. json_parse_array_context f E (tset t (LNumber (dbl_of_int i)) v) i' json token)))))"
        using 3 later_left [of json] by (intro dec_ok_bind cont Suc.IH(1)) (fastforce simp: later_def)+
      then show ?thesis unfolding json_parse_array_context.simps Let_def .
    next
      case False
      then obtain g where "f = Suc g" "tok_type tok \<in> {T_ERROR, T_END}" using 3 by (cases f) auto
      then have "\<exists>m. json_process_value f E json tok = Inl (Raise m None)"
        using 3 by (auto simp: json_throw_parse_error_def Let_def strbuf_free_def jp_inv_def)
      then show ?thesis by (auto simp: dec_ok_def)
    qed }
qed

text \<open>The buffer for the longest string is allocated once.\<close>

lemma strbuf_new_any:
  assumes "0 \<le> len" and "len < 2 ^ 31 - 1"
  shows "strbuf_new ok junk len = Inl Die \<or>
    (\<exists>s. strbuf_new ok junk len = Inr s \<and> sb_inv s \<and> sb_dynamic s \<and> len < sb_size s \<and> sb_contents s = [])"
proof -
  define sz where "sz = (if len \<le> 0 then STRBUF_DEFAULT_SIZE else len + 1)"
  have sz: "0 < sz" "sz < 2 ^ 31" "len < sz" using assms by (auto simp: sz_def STRBUF_DEFAULT_SIZE_def)
  have "(if len \<le> 0 then Inr STRBUF_DEFAULT_SIZE else int32 (len + 1)) = Inr sz"
    using assms by (simp add: sz_def int32_ok)
  then show ?thesis
    using sz by (simp add: strbuf_new_def strbuf_init_def strbuf_ensure_null_def buf_write_def block_write_in sb_inv_def sb_contents_def)
qed

lemma json_decode_ok:
  assumes "strtod_law E" and "tables_ok cfg" and "\<And>d. checklstring E v = Some d \<Longrightarrow> length d < 2 ^ 31 - 1"
  shows "json_decode E cfg [v] = Inl (Fault Die) \<or> (\<exists>m. json_decode E cfg [v] = Inl (Raise m None)) \<or>
    (\<exists>w. json_decode E cfg [v] = Inr w)"
proof (cases "checklstring E v")
  case None
  then show ?thesis by (simp add: json_decode_def)
next
  case (Some d)
  have len: "to_int32 (int (length d)) = int (length d)" using assms(3) [OF Some] by (simp add: to_int32_def)
  consider "2 \<le> length d \<and> (d ! 0 = 0 \<or> d ! 1 = 0)" | "\<not> (2 \<le> length d \<and> (d ! 0 = 0 \<or> d ! 1 = 0))" "strbuf_new (env_alloc E) (env_junk E) (int (length d)) = Inl Die"
    | t where "\<not> (2 \<le> length d \<and> (d ! 0 = 0 \<or> d ! 1 = 0))" "strbuf_new (env_alloc E) (env_junk E) (int (length d)) = Inr t" "sb_inv t" "sb_dynamic t" "int (length d) < sb_size t"
    using strbuf_new_any [of "int (length d)" "env_alloc E" "env_junk E"] assms(3) [OF Some] by force
  then show ?thesis
  proof cases
    case 3
    define json where "json = \<lparr>jp_data = d, jp_ptr = 0, jp_tmp = t, jp_cfg = cfg, jp_depth = 0\<rparr>"
    have inv: "jp_inv json" using 3 assms(2) by (simp add: json_def jp_inv_def)
    have "dec_ok json (ebind (json_next_token E json) (\<lambda>(token, json).
        ebind (json_process_value (2 * length d + 3) E json token) (\<lambda>(v, json).
        ebind (json_next_token E json) (\<lambda>(token, json).
        if tok_type token \<noteq> T_END then Inl (json_throw_parse_error json ''the end'' token) else Inr (v, json)))))"
    proof (intro dec_ok_token [OF assms(1)] dec_ok_bind dec_ok_if dec_ok_raise dec_ok_Inr parser_ok(1) [OF assms(1)])
      fix tok json'
      assume "tok_ok json (tok, json')"
      then show "2 * left json' + 3 \<le> 2 * length d + 3" using token_left_le [of json tok json'] by (simp add: json_def)
    qed (use inv in \<open>auto simp: later_def\<close>)
    moreover have "json_decode E cfg [v] = ebind (ebind (json_next_token E json) (\<lambda>(token, json).
        ebind (json_process_value (2 * length d + 3) E json token) (\<lambda>(v, json).
        ebind (json_next_token E json) (\<lambda>(token, json).
        if tok_type token \<noteq> T_END then Inl (json_throw_parse_error json ''the end'' token) else Inr (v, json))))) (\<lambda>(v, json). Inr v)"
      using 3(1,2) Some by (auto simp: json_decode_def json_def len lift_sb_def ebind_def split: sum.splits if_splits)
    ultimately show ?thesis by (auto simp: dec_ok_def)
  qed (use Some len in \<open>auto simp: json_decode_def lift_sb_def\<close>)
qed

end
