(* ===== verification/Json_Encode.thy ===== *)
theory Json_Encode
  imports Json_Config
begin

text \<open>
  The encoder of the JSON module, \<open>Lib/lua-cjson-2.1.0/lua_cjson.c\<close>. The buffer is passed through every
  function; the recursion over nested tables ends because of the limit on the depth.
\<close>

fun lua_typename :: "lua_value \<Rightarrow> string" where
  "lua_typename LNil = ''nil''"
| "lua_typename (LBool _) = ''boolean''"
| "lua_typename (LNumber _) = ''number''"
| "lua_typename (LString _) = ''string''"
| "lua_typename (LTable _) = ''table''"
| "lua_typename LNull = ''userdata''"
| "lua_typename (LUserdata _) = ''userdata''"
| "lua_typename LOther = ''function''"

definition json_encode_exception :: "json_config \<Rightarrow> strbuf \<Rightarrow> lua_value \<Rightarrow> string \<Rightarrow> json_exc" where
  "json_encode_exception cfg json v reason =
     Raise (Cannot_serialise (lua_typename v) reason) (if encode_keep_buffer cfg = 0 then strbuf_free json else Some json)"

text \<open>The operations of the buffer in the environment of the module.\<close>

definition append_mem :: "json_env \<Rightarrow> byte list \<Rightarrow> strbuf \<Rightarrow> json_exc + strbuf" where
  "append_mem E c json = lift_sb (strbuf_append_mem (env_alloc E) (env_junk E) json c)"

definition append_char :: "json_env \<Rightarrow> byte \<Rightarrow> strbuf \<Rightarrow> json_exc + strbuf" where
  "append_char E c json = lift_sb (strbuf_append_char (env_alloc E) (env_junk E) json c)"

definition append_char_unsafe :: "byte \<Rightarrow> strbuf \<Rightarrow> json_exc + strbuf" where
  "append_char_unsafe c json = lift_sb (strbuf_append_char_unsafe json c)"

definition append_string :: "json_env \<Rightarrow> byte list \<Rightarrow> strbuf \<Rightarrow> json_exc + strbuf" where
  "append_string E c json = lift_sb (strbuf_append_string (env_alloc E) (env_junk E) json c)"

definition ensure_empty_length :: "json_env \<Rightarrow> int \<Rightarrow> strbuf \<Rightarrow> json_exc + strbuf" where
  "ensure_empty_length E n json = lift_sb (strbuf_ensure_empty_length (env_alloc E) (env_junk E) json n)"

subsection \<open>Strings and numbers\<close>

fun json_append_string_loop :: "json_env \<Rightarrow> int \<Rightarrow> byte list \<Rightarrow> strbuf \<Rightarrow> json_exc + strbuf" where
  "json_append_string_loop E i [] json = Inr json"
| "json_append_string_loop E i (c # str) json =
     ebind (case char2escape c of Some escstr \<Rightarrow> append_string E escstr json | None \<Rightarrow> append_char_unsafe c json) (\<lambda>json.
     ebind (lift_sb (int32 (i + 1))) (\<lambda>i. json_append_string_loop E i str json))"

definition json_append_string :: "json_env \<Rightarrow> byte list \<Rightarrow> strbuf \<Rightarrow> json_exc + strbuf" where
  "json_append_string E str json =
     ebind (ensure_empty_length E (to_int32 (int (length str) * 6 + 2)) json) (\<lambda>json.
     ebind (append_char_unsafe 0x22 json) (\<lambda>json.
     ebind (json_append_string_loop E 0 str json) (\<lambda>json.
     append_char_unsafe 0x22 json)))"

text \<open>The last three statements of \<open>json_append_number\<close>.\<close>

definition json_print_number :: "json_env \<Rightarrow> json_config \<Rightarrow> lua_Number \<Rightarrow> strbuf \<Rightarrow> json_exc + strbuf" where
  "json_print_number E cfg num json =
     ebind (ensure_empty_length E (int FPCONV_G_FMT_BUFSIZE) json) (\<lambda>json.
     ebind (lift_sb (fpconv_g_fmt (env_snprintf E) (env_decimal_point E) num (encode_number_precision cfg))) (\<lambda>(txt, len).
     ebind (lift_sb (buf_write json (sb_length json) txt)) (\<lambda>json.
     lift_sb (strbuf_extend_length json (int len)))))"

definition json_append_number :: "json_env \<Rightarrow> json_config \<Rightarrow> lua_Number \<Rightarrow> strbuf \<Rightarrow> json_exc + strbuf" where
  "json_append_number E cfg num json =
     (if encode_invalid_numbers cfg = 0 then
        if dbl_is_inf num \<or> dbl_is_nan num
        then Inl (json_encode_exception cfg json (LNumber num) ''must not be NaN or Inf'')
        else json_print_number E cfg num json
      else if encode_invalid_numbers cfg = 1 then
        if dbl_is_nan num then append_mem E [0x6e, 0x61, 0x6e] json else json_print_number E cfg num json
      else
        if dbl_is_inf num \<or> dbl_is_nan num then append_mem E [0x6e, 0x75, 0x6c, 0x6c] json
        else json_print_number E cfg num json)"

subsection \<open>Arrays and objects\<close>

text \<open>
  The loop over the keys in \<open>lua_array_length\<close>: \<open>None\<close> when a key is not a positive integer. The assignment
  of a \<open>double\<close> to \<open>max\<close> is undefined when the value is not in the range of \<open>int\<close>.
\<close>

fun array_scan :: "lua_table \<Rightarrow> int \<Rightarrow> int \<Rightarrow> sb_fault + (int \<times> int) option" where
  "array_scan [] mx items = Inr (Some (mx, items))"
| "array_scan ((LNumber k, v) # t) mx items =
     (if dbl_mag k \<noteq> 0 \<and> dbl_floor_eq k \<and> \<not> dbl_neg k then
        ebind (case dbl_trunc k of None \<Rightarrow> Inl Sb_Overflow | Some z \<Rightarrow> if z > mx then int32 z else Inr mx) (\<lambda>mx.
        ebind (int32 (items + 1)) (\<lambda>items. array_scan t mx items))
      else Inr None)"
| "array_scan (_ # t) mx items = Inr None"

definition lua_array_length :: "json_config \<Rightarrow> lua_table \<Rightarrow> strbuf \<Rightarrow> json_exc + int" where
  "lua_array_length cfg t json =
     ebind (lift_sb (array_scan t 0 0)) (\<lambda>r. case r of None \<Rightarrow> Inr (-1)
     | Some (mx, items) \<Rightarrow>
         ebind (if encode_sparse_ratio cfg > 0 then
                  ebind (lift_sb (int32 (items * encode_sparse_ratio cfg))) (\<lambda>n. Inr (mx > n \<and> mx > encode_sparse_safe cfg))
                else Inr False) (\<lambda>sparse.
         if sparse then
           if encode_sparse_convert cfg = 0 then Inl (json_encode_exception cfg json (LTable t) ''excessively sparse array'')
           else Inr (-1)
         else Inr mx))"

definition json_check_encode_depth :: "json_env \<Rightarrow> json_config \<Rightarrow> int \<Rightarrow> strbuf \<Rightarrow> json_exc + unit" where
  "json_check_encode_depth E cfg current_depth json =
     (if current_depth \<le> encode_max_depth cfg \<and> env_checkstack E current_depth then Inr ()
      else Inl (Raise (Excessive_nesting current_depth) (if encode_keep_buffer cfg = 0 then strbuf_free json else Some json)))"

definition EMPTY_ARRAY_DEADBEEF :: uint32 where "EMPTY_ARRAY_DEADBEEF = 0xdeadbeef"

definition empty_array_to_json :: "json_env \<Rightarrow> lua_value \<Rightarrow> strbuf \<Rightarrow> json_exc + bool \<times> strbuf" where
  "empty_array_to_json E v json = (case v of
       LNull \<Rightarrow> Inl Null_deref
     | LUserdata None \<Rightarrow> Inl Null_deref
     | LUserdata (Some buff) \<Rightarrow>
         if buff = EMPTY_ARRAY_DEADBEEF then ebind (append_mem E [0x5b, 0x5d] json) (\<lambda>json. Inr (True, json)) else Inr (False, json)
     | _ \<Rightarrow> Inr (False, json))"

definition append_comma :: "json_env \<Rightarrow> bool \<Rightarrow> strbuf \<Rightarrow> json_exc + strbuf" where
  "append_comma E comma json = (if comma then append_char E 0x2c json else Inr json)"

definition json_append_key :: "json_env \<Rightarrow> json_config \<Rightarrow> lua_value \<Rightarrow> strbuf \<Rightarrow> json_exc + strbuf" where
  "json_append_key E cfg k json = (case k of
       LNumber n \<Rightarrow> ebind (append_char E 0x22 json) (\<lambda>json. ebind (json_append_number E cfg n json) (append_mem E [0x22, 0x3a]))
     | LString s \<Rightarrow> ebind (json_append_string E s json) (append_char E 0x3a)
     | _ \<Rightarrow> Inl (json_encode_exception cfg json k ''table key must be a number or string''))"

function json_append_data :: "json_env \<Rightarrow> json_config \<Rightarrow> int \<Rightarrow> lua_value \<Rightarrow> strbuf \<Rightarrow> json_exc + strbuf"
  and json_append_array :: "json_env \<Rightarrow> json_config \<Rightarrow> int \<Rightarrow> lua_table \<Rightarrow> int \<Rightarrow> int \<Rightarrow> bool \<Rightarrow> strbuf \<Rightarrow> json_exc + strbuf"
  and json_append_object :: "json_env \<Rightarrow> json_config \<Rightarrow> int \<Rightarrow> lua_table \<Rightarrow> bool \<Rightarrow> strbuf \<Rightarrow> json_exc + strbuf" where
  "json_append_data E cfg current_depth v json =
     ebind (empty_array_to_json E v json) (\<lambda>(done, json). if done then Inr json else
     (case v of
        LString s \<Rightarrow> json_append_string E s json
      | LNumber n \<Rightarrow> json_append_number E cfg n json
      | LBool b \<Rightarrow> append_mem E (if b then [0x74, 0x72, 0x75, 0x65] else [0x66, 0x61, 0x6c, 0x73, 0x65]) json
      | LTable t \<Rightarrow>
          ebind (json_check_encode_depth E cfg (current_depth + 1) json) (\<lambda>_.
          ebind (lua_array_length cfg t json) (\<lambda>len.
          if len > 0 then ebind (append_char E 0x5b json) (json_append_array E cfg (current_depth + 1) t 1 len False)
          else ebind (append_char E 0x7b json) (json_append_object E cfg (current_depth + 1) t False)))
      | LNil \<Rightarrow> append_mem E [0x6e, 0x75, 0x6c, 0x6c] json
      | LNull \<Rightarrow> append_mem E [0x6e, 0x75, 0x6c, 0x6c] json
      | _ \<Rightarrow> Inl (json_encode_exception cfg json v ''type not supported'')))"
| "json_append_array E cfg current_depth t i array_length comma json =
     (if i \<le> array_length then
        ebind (append_comma E comma json) (\<lambda>json.
        ebind (json_append_data E cfg current_depth (lua_gettable t (LNumber (dbl_of_int i))) json) (\<lambda>json.
        ebind (lift_sb (int32 (i + 1))) (\<lambda>i'. json_append_array E cfg current_depth t (i + 1) array_length True json)))
      else append_char E 0x5d json)"
| "json_append_object E cfg current_depth [] comma json = append_char E 0x7d json"
| "json_append_object E cfg current_depth ((k, v) # t) comma json =
     ebind (append_comma E comma json) (\<lambda>json.
     ebind (json_append_key E cfg k json) (\<lambda>json.
     ebind (json_append_data E cfg current_depth v json) (\<lambda>json.
     json_append_object E cfg current_depth t True json)))"
  by pat_completeness auto
termination
  by (relation "measures [\<lambda>x. case x of Inl (E, cfg, d, v, json) \<Rightarrow> nat (encode_max_depth cfg + 1 - d)
        | Inr (Inl (E, cfg, d, t, i, n, comma, json)) \<Rightarrow> nat (encode_max_depth cfg + 1 - d)
        | Inr (Inr (E, cfg, d, t, comma, json)) \<Rightarrow> nat (encode_max_depth cfg + 1 - d),
      \<lambda>x. case x of Inl _ \<Rightarrow> 0 | Inr (Inl (E, cfg, d, t, i, n, comma, json)) \<Rightarrow> nat (n + 1 - i) | Inr (Inr (E, cfg, d, t, comma, json)) \<Rightarrow> length t]")
    (auto simp: json_check_encode_depth_def split: if_splits)

declare json_append_data.simps [simp del] json_append_array.simps [simp del]

definition json_encode :: "json_env \<Rightarrow> json_config \<Rightarrow> lua_value list \<Rightarrow> json_call" where
  "json_encode E cfg args =
     (if length args \<noteq> 1 then (Inl (Raise (Arg_error 1 ''expected 1 argument'') None), cfg)
      else case (if encode_keep_buffer cfg = 0 then lift_sb (strbuf_init (env_alloc E) (env_junk E) 0)
                 else Inr (strbuf_reset (encode_buf cfg))) of
        Inl e \<Rightarrow> (Inl e, cfg)
      | Inr buf \<Rightarrow>
          (case json_append_data E cfg 0 (hd args) buf of
             Inl e \<Rightarrow> (Inl e, case e of Raise m (Some b) \<Rightarrow> if encode_keep_buffer cfg = 0 then cfg else cfg\<lparr>encode_buf := b\<rparr> | _ \<Rightarrow> cfg)
           | Inr buf \<Rightarrow> (case strbuf_string buf of (json, len) \<Rightarrow>
               (Inr [LString (take (nat len) (case json of None \<Rightarrow> [] | Some b \<Rightarrow> b))],
                if encode_keep_buffer cfg = 0 then cfg else cfg\<lparr>encode_buf := buf\<rparr>))))"

end
