(* ===== verification/Json_Encode_Proofs.thy ===== *)
theory Json_Encode_Proofs
  imports Json_Encode Strbuf_Proofs
begin

text \<open>
  Correctness of the JSON encoder. \<open>json_text\<close> gives the text of a value without a buffer: strings with their
  escapes, numbers as \<open>snprintf\<close> prints them, arrays and objects as their items separated by commas. The
  encoder writes exactly this text. For every value whose strings are short enough that the size
  computation does not wrap around, it stays inside its buffer, whatever happens.
\<close>

subsection \<open>The text of a value\<close>

definition esc_text :: "byte \<Rightarrow> byte list" where
  "esc_text c = (case char2escape c of None \<Rightarrow> [c] | Some e \<Rightarrow> e)"

definition string_text :: "byte list \<Rightarrow> byte list" where
  "string_text s = 0x22 # concat (map esc_text s) @ [0x22]"

definition g_text :: "json_env \<Rightarrow> json_config \<Rightarrow> lua_Number \<Rightarrow> byte list" where
  "g_text E cfg n = map (\<lambda>b. if b = env_decimal_point E then 0x2e else b)
     (env_snprintf E (projr (set_number_format (encode_number_precision cfg))) n)"

definition number_text :: "json_env \<Rightarrow> json_config \<Rightarrow> lua_Number \<Rightarrow> byte list option" where
  "number_text E cfg n = (if \<not> dbl_is_inf n \<and> \<not> dbl_is_nan n then Some (g_text E cfg n)
     else if encode_invalid_numbers cfg = 0 then None
     else if encode_invalid_numbers cfg = 1 then Some (if dbl_is_nan n then [0x6e, 0x61, 0x6e] else g_text E cfg n)
     else Some [0x6e, 0x75, 0x6c, 0x6c])"

text \<open>The number of elements of an array, \<open>-1\<close> for an object, \<open>None\<close> when the encoder gives up.\<close>

definition array_size :: "json_config \<Rightarrow> lua_table \<Rightarrow> int option" where
  "array_size cfg t = (case array_scan t 0 0 of Inl _ \<Rightarrow> None | Inr None \<Rightarrow> Some (-1)
     | Inr (Some (mx, items)) \<Rightarrow>
         if encode_sparse_ratio cfg > 0 \<and> items * encode_sparse_ratio cfg \<ge> 2 ^ 31 then None
         else if encode_sparse_ratio cfg > 0 \<and> mx > items * encode_sparse_ratio cfg \<and> mx > encode_sparse_safe cfg
         then if encode_sparse_convert cfg = 0 then None else Some (-1)
         else if mx < 2 ^ 31 - 1 then Some mx else None)"

fun key_text :: "json_env \<Rightarrow> json_config \<Rightarrow> lua_value \<Rightarrow> byte list option" where
  "key_text E cfg (LNumber n) = map_option (\<lambda>s. 0x22 # s @ [0x22]) (number_text E cfg n)"
| "key_text E cfg (LString s) = Some (string_text s)"
| "key_text E cfg _ = None"

text \<open>Items with a comma between any two, and with one before each when \<open>comma\<close> holds.\<close>

fun sep :: "bool \<Rightarrow> byte list list \<Rightarrow> byte list" where
  "sep comma [] = []"
| "sep comma (s # ss) = (if comma then 0x2c # s else s) @ sep True ss"

function json_text :: "json_env \<Rightarrow> json_config \<Rightarrow> int \<Rightarrow> lua_value \<Rightarrow> byte list option" where
  "json_text E cfg d v = (case v of
       LNil \<Rightarrow> Some [0x6e, 0x75, 0x6c, 0x6c]
     | LBool b \<Rightarrow> Some (if b then [0x74, 0x72, 0x75, 0x65] else [0x66, 0x61, 0x6c, 0x73, 0x65])
     | LNumber n \<Rightarrow> number_text E cfg n
     | LString s \<Rightarrow> Some (string_text s)
     | LUserdata (Some w) \<Rightarrow> if w = EMPTY_ARRAY_DEADBEEF then Some [0x5b, 0x5d] else None
     | LTable t \<Rightarrow>
         if d + 1 \<le> encode_max_depth cfg \<and> env_checkstack E (d + 1) then
           (case array_size cfg t of None \<Rightarrow> None
            | Some n \<Rightarrow> if n > 0
                then map_option (\<lambda>ss. 0x5b # sep False ss @ [0x5d])
                       (those (map (\<lambda>i. json_text E cfg (d + 1) (lua_gettable t (LNumber (dbl_of_int i)))) [1..n]))
                else map_option (\<lambda>ss. 0x7b # sep False ss @ [0x7d])
                       (those (map (\<lambda>(k, v). case key_text E cfg k of None \<Rightarrow> None
                          | Some ks \<Rightarrow> map_option (\<lambda>vs. ks @ 0x3a # vs) (json_text E cfg (d + 1) v)) t)))
         else None
     | _ \<Rightarrow> None)"
  by pat_completeness auto
termination
  by (relation "measure (\<lambda>(E, cfg, d, v). nat (encode_max_depth cfg + 1 - d))") auto

declare json_text.simps [simp del]

subsection \<open>Escapes\<close>

lemma char2escape_ctrl_lengths:
  "length char2escape_ctrl = 32" "\<forall>e \<in> set char2escape_ctrl. 0 < length e \<and> length e \<le> 6"
  by (simp_all add: char2escape_ctrl_def)

lemma esc_text_length: "0 < length (esc_text c) \<and> length (esc_text c) \<le> 6"
proof (cases "c < 0x20")
  case True
  then have "unat c < 32" by (simp add: word_less_nat_alt)
  then show ?thesis
    using True char2escape_ctrl_lengths nth_mem [of "unat c" char2escape_ctrl] by (simp add: esc_text_def char2escape_def)
next
  case False
  then show ?thesis by (simp add: esc_text_def char2escape_def)
qed

lemma escape_loop_ok:
  assumes "sb_inv json" and "sb_length json + 6 * int (length str) + 1 < sb_size json" and "0 \<le> i" and "i + int (length str) < 2 ^ 31"
  shows "\<exists>json'. json_append_string_loop E i str json = Inr json' \<and> sb_inv json' \<and> sb_size json' = sb_size json \<and>
    sb_contents json' = sb_contents json @ concat (map esc_text str) \<and>
    sb_length json' \<le> sb_length json + 6 * int (length str) \<and> sb_dynamic json' = sb_dynamic json"
  using assms
proof (induction str arbitrary: i json)
  case (Cons c str)
  have room: "sb_length json + int (length (esc_text c)) < sb_size json"
    using esc_text_length [of c] Cons.prems(2) by simp
  have "\<exists>j. (case char2escape c of Some e \<Rightarrow> append_string E e json | None \<Rightarrow> append_char_unsafe c json) = Inr j \<and>
      sb_inv j \<and> sb_size j = sb_size json \<and> sb_contents j = sb_contents json @ esc_text c \<and>
      sb_length j = sb_length json + int (length (esc_text c)) \<and> sb_dynamic j = sb_dynamic json"
  proof (cases "char2escape c")
    case None
    then show ?thesis
      using append_mem_unsafe_room [OF Cons.prems(1), of "[c]"] room
      by (auto simp: append_char_unsafe_def append_char_unsafe_mem lift_sb_def esc_text_def)
  next
    case (Some e)
    then show ?thesis
      using append_string_room [OF Cons.prems(1), of e "env_alloc E" "env_junk E"] room
      by (auto simp: append_string_def lift_sb_def esc_text_def)
  qed
  then obtain j where j: "(case char2escape c of Some e \<Rightarrow> append_string E e json | None \<Rightarrow> append_char_unsafe c json) = Inr j"
    "sb_inv j" "sb_size j = sb_size json" "sb_contents j = sb_contents json @ esc_text c"
    "sb_length j = sb_length json + int (length (esc_text c))" "sb_dynamic j = sb_dynamic json"
    by blast
  have i: "int32 (i + 1) = Inr (i + 1)" using Cons.prems(3,4) by (intro int32_ok) auto
  have "\<exists>j'. json_append_string_loop E (i + 1) str j = Inr j' \<and> sb_inv j' \<and> sb_size j' = sb_size j \<and>
    sb_contents j' = sb_contents j @ concat (map esc_text str) \<and>
    sb_length j' \<le> sb_length j + 6 * int (length str) \<and> sb_dynamic j' = sb_dynamic j"
    using Cons.prems j(2,3,5) esc_text_length [of c] by (intro Cons.IH) auto
  then show ?case using j i esc_text_length [of c] by (fastforce simp: lift_sb_def)
qed simp

lemma append_string_ensured:
  assumes "sb_inv json" and "6 * int (length str) + 2 < 2 ^ 31"
    and "ensure_empty_length E (to_int32 (int (length str) * 6 + 2)) json = Inr json1"
  shows "\<exists>json'. json_append_string E str json = Inr json' \<and> sb_inv json' \<and> sb_contents json' = sb_contents json @ string_text str \<and>
    sb_dynamic json' = sb_dynamic json"
proof -
  have n: "to_int32 (int (length str) * 6 + 2) = 6 * int (length str) + 2" using assms(2) by (simp add: to_int32_def)
  have j1: "sb_inv json1" "sb_contents json1 = sb_contents json" "sb_dynamic json1 = sb_dynamic json"
    "sb_length json1 + (6 * int (length str) + 2) < sb_size json1"
    using ensure_any [OF assms(1), where ok = "env_alloc E" and junk = "env_junk E" and len = "6 * int (length str) + 2"] assms(3)
    by (auto simp: ensure_empty_length_def lift_sb_def n split: sum.splits)
  obtain j2 where j2: "append_char_unsafe 0x22 json1 = Inr j2" "sb_inv j2" "sb_size j2 = sb_size json1"
    "sb_contents j2 = sb_contents json @ [0x22]" "sb_length j2 = sb_length json1 + 1" "sb_dynamic j2 = sb_dynamic json"
    using append_mem_unsafe_room [OF j1(1), of "[0x22]"] j1 by (auto simp: append_char_unsafe_def append_char_unsafe_mem lift_sb_def)
  obtain j3 where j3: "json_append_string_loop E 0 str j2 = Inr j3" "sb_inv j3" "sb_size j3 = sb_size json1"
    "sb_contents j3 = sb_contents j2 @ concat (map esc_text str)" "sb_length j3 \<le> sb_length j2 + 6 * int (length str)"
    "sb_dynamic j3 = sb_dynamic json"
    using escape_loop_ok [OF j2(2), of str 0 E] j2 j1(4) assms(2) by auto
  obtain j4 where "append_char_unsafe 0x22 j3 = Inr j4" "sb_inv j4" "sb_contents j4 = sb_contents j3 @ [0x22]" "sb_dynamic j4 = sb_dynamic json"
    using append_mem_unsafe_room [OF j3(2), of "[0x22]"] j3 j2 j1(4) by (auto simp: append_char_unsafe_def append_char_unsafe_mem lift_sb_def)
  then show ?thesis
    using j2 j3 assms(3) by (simp add: json_append_string_def string_text_def)
qed

subsection \<open>Numbers\<close>

text \<open>
  What the encoder relies on of \<open>snprintf\<close>: a \<open>double\<close> printed with at most 14 digits has fewer than 32 characters.
\<close>

definition g_fmt_law :: "json_env \<Rightarrow> bool" where
  "g_fmt_law E \<longleftrightarrow> (\<forall>p fmt n. set_number_format p = Inr fmt \<longrightarrow> length (env_snprintf E fmt n) < FPCONV_G_FMT_BUFSIZE)"

lemma set_number_format_ok: "1 \<le> p \<Longrightarrow> p \<le> 14 \<Longrightarrow> \<exists>fmt. set_number_format p = Inr fmt"
  by (simp add: set_number_format_def Let_def)

lemma fpconv_g_fmt_ok:
  assumes "g_fmt_law E" and "1 \<le> encode_number_precision cfg" and "encode_number_precision cfg \<le> 14"
  shows "fpconv_g_fmt (env_snprintf E) (env_decimal_point E) n (encode_number_precision cfg) =
    Inr (g_text E cfg n @ [0], length (g_text E cfg n))" and "length (g_text E cfg n) < 32"
proof -
  obtain fmt where fmt: "set_number_format (encode_number_precision cfg) = Inr fmt"
    using set_number_format_ok assms(2,3) by blast
  then have len: "length (env_snprintf E fmt n) < 32" using assms(1) by (auto simp: g_fmt_law_def FPCONV_G_FMT_BUFSIZE_def)
  then show "length (g_text E cfg n) < 32" by (simp add: g_text_def fmt)
  have "map (\<lambda>b. if b = 0x2e then 0x2e else b) xs = xs" for xs :: "byte list" by (induction xs) auto
  then show "fpconv_g_fmt (env_snprintf E) (env_decimal_point E) n (encode_number_precision cfg) =
    Inr (g_text E cfg n @ [0], length (g_text E cfg n))"
    using len fmt by (cases "env_decimal_point E = 0x2e") (simp_all add: fpconv_g_fmt_def FPCONV_G_FMT_BUFSIZE_def g_text_def Let_def)
qed

lemma print_ensured:
  assumes "sb_inv json" and "g_fmt_law E" and "1 \<le> encode_number_precision cfg" and "encode_number_precision cfg \<le> 14"
    and "ensure_empty_length E (int FPCONV_G_FMT_BUFSIZE) json = Inr json1"
  shows "\<exists>json'. json_print_number E cfg n json = Inr json' \<and>
    sb_inv json' \<and> sb_contents json' = sb_contents json @ g_text E cfg n \<and> sb_dynamic json' = sb_dynamic json"
proof -
  have j1: "sb_inv json1" "sb_contents json1 = sb_contents json" "sb_dynamic json1 = sb_dynamic json" "sb_length json1 + 32 < sb_size json1"
    using ensure_any [OF assms(1), where ok = "env_alloc E" and junk = "env_junk E" and len = 32] assms(5)
    by (auto simp: ensure_empty_length_def lift_sb_def FPCONV_G_FMT_BUFSIZE_def split: sum.splits)
  have len: "length (g_text E cfg n) < 32" by (rule fpconv_g_fmt_ok [OF assms(2-4)])
  obtain j2 j3 where j: "buf_write json1 (sb_length json1) (g_text E cfg n @ [0]) = Inr j2"
    "strbuf_extend_length j2 (int (length (g_text E cfg n))) = Inr j3" "sb_inv j3" "sb_contents j3 = sb_contents json1 @ g_text E cfg n"
    using write_ok [OF j1(1), of "g_text E cfg n" "[0]"] j1(4) len by auto
  moreover have "sb_dynamic j3 = sb_dynamic json1"
    using write_dynamic [of json1 "sb_length json1" "g_text E cfg n @ [0]" "int (length (g_text E cfg n))" j3] j(1,2) by simp
  ultimately show ?thesis using j1 assms(5) fpconv_g_fmt_ok(1) [OF assms(2-4), of n]
    by (simp add: json_print_number_def lift_sb_def)
qed

subsection \<open>The encoder writes the text\<close>

definition env_ok :: "json_env \<Rightarrow> json_config \<Rightarrow> bool" where
  "env_ok E cfg \<longleftrightarrow> (\<forall>n. env_alloc E n) \<and> g_fmt_law E \<and> 1 \<le> encode_number_precision cfg \<and> encode_number_precision cfg \<le> 14"

interpretation json_buf: bounded_buffer sb_inv sb_contents "2 ^ 30" "\<lambda>json c. lift_sb (strbuf_append_mem (\<lambda>_. True) junk json c)" for junk
proof unfold_locales
  fix s :: strbuf and xs :: "byte list"
  assume "sb_inv s" "length (sb_contents s) + length xs < 2 ^ 30"
  then show "\<exists>s'. lift_sb (strbuf_append_mem (\<lambda>_. True) junk s xs) = Inr s' \<and> sb_inv s' \<and> sb_contents s' = sb_contents s @ xs"
    using append_mem_ok [of s "\<lambda>_. True" xs junk] by (auto simp: lift_sb_def)
qed

lemma alloc_ok: "env_ok E cfg \<Longrightarrow> env_alloc E = (\<lambda>_. True)"
  by (auto simp: env_ok_def)

lemma writes_append_mem: "env_ok E cfg \<Longrightarrow> json_buf.writes (append_mem E c) c"
  using json_buf.writes_app [of "env_junk E" c] by (simp add: append_mem_def [abs_def] alloc_ok)

lemma writes_append_char: "env_ok E cfg \<Longrightarrow> json_buf.writes (append_char E c) [c]"
  using json_buf.writes_app [of "env_junk E" "[c]"] by (simp add: append_char_def [abs_def] append_char_mem alloc_ok)

lemma ensure_succeeds:
  assumes "env_ok E cfg" and "sb_inv json" and "0 \<le> n" and "int (length (sb_contents json)) + n < 2 ^ 30"
  shows "\<exists>json1. ensure_empty_length E n json = Inr json1"
  using ensure_ok [OF assms(2), of "env_alloc E" n "env_junk E"] assms length_sb_contents [OF assms(2)]
  by (auto simp: env_ok_def ensure_empty_length_def lift_sb_def)

lemma string_text_length: "length s + 2 \<le> length (string_text s)"
proof -
  have "length s \<le> length (concat (map esc_text s))"
  proof (induction s)
    case (Cons c s)
    then show ?case
      using esc_text_length [of c] by (simp only: list.map concat.simps length_append list.size) linarith
  qed simp
  then show ?thesis by (simp add: string_text_def)
qed

lemma writes_string: 
  assumes "env_ok E cfg"
  shows "json_buf.writes (json_append_string E s) (string_text s)"
  unfolding json_buf.writes_def
proof (intro allI impI)
  fix json
  assume j: "sb_inv json" "length (sb_contents json) + 6 * length (string_text s) + 32 < 2 ^ 30"
  have s: "length (sb_contents json) + 6 * length s + 2 < 2 ^ 30" using string_text_length [of s] j(2) by simp
  then have "to_int32 (int (length s) * 6 + 2) = 6 * int (length s) + 2" by (simp add: to_int32_def)
  then obtain json1 where "ensure_empty_length E (to_int32 (int (length s) * 6 + 2)) json = Inr json1"
    using ensure_succeeds [OF assms j(1), of "6 * int (length s) + 2"] s by auto
  then show "\<exists>s'. json_append_string E s json = Inr s' \<and> sb_inv s' \<and> sb_contents s' = sb_contents json @ string_text s"
    using append_string_ensured [OF j(1), of s E json1] s by auto
qed

lemma writes_print: 
  assumes "env_ok E cfg"
  shows "json_buf.writes (json_print_number E cfg n) (g_text E cfg n)"
  unfolding json_buf.writes_def
proof (intro allI impI)
  fix json
  assume j: "sb_inv json" "length (sb_contents json) + 6 * length (g_text E cfg n) + 32 < 2 ^ 30"
  then obtain json1 where "ensure_empty_length E (int FPCONV_G_FMT_BUFSIZE) json = Inr json1"
    using ensure_succeeds [OF assms j(1), of 32] by (auto simp: FPCONV_G_FMT_BUFSIZE_def)
  then show "\<exists>s'. json_print_number E cfg n json = Inr s' \<and> sb_inv s' \<and> sb_contents s' = sb_contents json @ g_text E cfg n"
    using print_ensured [OF j(1), of E cfg json1 n] assms by (auto simp: env_ok_def)
qed

lemma writes_number:
  assumes "env_ok E cfg" and "number_text E cfg n = Some s"
  shows "json_buf.writes (json_append_number E cfg n) s"
proof -
  have "json_append_number E cfg n = append_mem E s \<or> s = g_text E cfg n \<and> json_append_number E cfg n = json_print_number E cfg n"
    using assms(2) by (auto simp: json_append_number_def fun_eq_iff number_text_def split: if_splits)
  then show ?thesis using writes_append_mem [OF assms(1)] writes_print [OF assms(1)] by auto
qed

lemma writes_key:
  assumes "env_ok E cfg" and "key_text E cfg k = Some s"
  shows "json_buf.writes (json_append_key E cfg k) (s @ [0x3a])"
proof (cases k)
  case (LNumber n)
  then obtain ns where ns: "number_text E cfg n = Some ns" "s = [0x22] @ ns @ [0x22]" using assms(2) by auto
  have "json_buf.writes (\<lambda>json. ebind (append_char E 0x22 json) (\<lambda>json. ebind (json_append_number E cfg n json) (append_mem E [0x22, 0x3a])))
      ([0x22] @ ns @ [0x22, 0x3a])"
    by (intro json_buf.writes_bind writes_append_char [OF assms(1)] writes_append_mem [OF assms(1)] writes_number [OF assms(1) ns(1)])
  then show ?thesis using LNumber ns by (simp add: json_append_key_def [abs_def])
next
  case (LString str)
  have "json_buf.writes (\<lambda>json. ebind (json_append_string E str json) (append_char E 0x3a)) (string_text str @ [0x3a])"
    by (intro json_buf.writes_bind writes_append_char [OF assms(1)] writes_string [OF assms(1)])
  then show ?thesis using LString assms(2) by (simp add: json_append_key_def [abs_def])
qed (use assms(2) in auto)

lemma array_scan_items: "array_scan t mx items = Inr (Some (m, k)) \<Longrightarrow> items \<le> k"
  by (induction t mx items rule: array_scan.induct)
    (force simp: ebind_Inr_iff int32_Inr split: if_splits option.splits)+

lemma array_size_length:
  assumes "array_size cfg t = Some n"
  shows "lua_array_length cfg t json = Inr n" and "n < 2 ^ 31 - 1"
proof -
  obtain r where r: "array_scan t 0 0 = Inr r" using assms by (auto simp: array_size_def split: sum.splits)
  have "lua_array_length cfg t json = Inr n \<and> n < 2 ^ 31 - 1"
  proof (cases r)
    case None
    then show ?thesis using assms r by (simp add: array_size_def lua_array_length_def lift_sb_def)
  next
    case (Some p)
    obtain m k where p: "p = (m, k)" by fastforce
    then have "0 \<le> k" using r Some array_scan_items [of t 0 0 m k] by simp
    show ?thesis
    proof (cases "0 < encode_sparse_ratio cfg")
      case True
      define q where "q = k * encode_sparse_ratio cfg"
      have "0 \<le> q" using \<open>0 \<le> k\<close> True by (simp add: q_def)
      then have "int32 q = Inr q" "q < 2 ^ 31"
        using assms r Some p True by (auto simp: array_size_def int32_ok simp flip: q_def split: if_splits)
      then show ?thesis
        using assms r Some p True
        by (auto simp: array_size_def lua_array_length_def lift_sb_def simp flip: q_def split: if_splits)
    next
      case False
      then show ?thesis
        using assms r Some p by (auto simp: array_size_def lua_array_length_def lift_sb_def split: if_splits)
    qed
  qed
  then show "lua_array_length cfg t json = Inr n" and "n < 2 ^ 31 - 1" by simp_all
qed

lemma writes_comma: "env_ok E cfg \<Longrightarrow> json_buf.writes (append_comma E comma) (if comma then [0x2c] else [])"
  using writes_append_char json_buf.writes_skip by (simp add: append_comma_def [abs_def])

lemma sep_Cons: "sep comma (s # ss) = (if comma then [0x2c] else []) @ s @ sep True ss"
  by simp

lemma writes_array:
  assumes "env_ok E cfg" and "n < 2 ^ 31 - 1" and "1 \<le> i"
    and "\<And>v s. json_text E cfg d v = Some s \<Longrightarrow> json_buf.writes (json_append_data E cfg d v) s"
    and "those (map (\<lambda>i. json_text E cfg d (lua_gettable t (LNumber (dbl_of_int i)))) [i..n]) = Some ss"
  shows "json_buf.writes (json_append_array E cfg d t i n comma) (sep comma ss @ [0x5d])"
  using assms(3,5)
proof (induction "nat (n + 1 - i)" arbitrary: i comma ss)
  case 0
  then have "[i..n] = []" "\<not> i \<le> n" by auto
  then show ?case
    using 0 writes_append_char [OF assms(1)] by (simp add: json_append_array.simps [abs_def])
next
  case (Suc k)
  then have i: "i \<le> n" "[i..n] = i # [i + 1..n]" by (auto simp: upto_rec1)
  then obtain s ss' where s: "json_text E cfg d (lua_gettable t (LNumber (dbl_of_int i))) = Some s" "ss = s # ss'"
    "those (map (\<lambda>i. json_text E cfg d (lua_gettable t (LNumber (dbl_of_int i)))) [i + 1..n]) = Some ss'"
    using Suc.prems(2) by (auto split: option.splits)
  have "json_buf.writes (json_append_array E cfg d t (i + 1) n True) (sep True ss' @ [0x5d])"
    using Suc.hyps(1) [of "i + 1" ss' True] Suc.hyps(2) Suc.prems(1) s(3) by simp
  then have "json_buf.writes (\<lambda>json. ebind (append_comma E comma json) (\<lambda>json.
      ebind (json_append_data E cfg d (lua_gettable t (LNumber (dbl_of_int i))) json)
        (json_append_array E cfg d t (i + 1) n True))) ((if comma then [0x2c] else []) @ s @ sep True ss' @ [0x5d])"
    by (intro json_buf.writes_bind writes_comma [OF assms(1)] assms(4) [OF s(1)])
  moreover have "lift_sb (int32 (i + 1)) = Inr (i + 1)" using Suc.prems(1) i(1) assms(2) by (simp add: int32_ok lift_sb_def)
  ultimately show ?case
    using i(1) s(2) by (subst json_append_array.simps [abs_def]) (simp add: sep_Cons del: sep.simps)
qed

lemma writes_object:
  assumes "env_ok E cfg" 
    and "\<And>v s. json_text E cfg d v = Some s \<Longrightarrow> json_buf.writes (json_append_data E cfg d v) s"
    and "those (map (\<lambda>(k, v). case key_text E cfg k of None \<Rightarrow> None
        | Some ks \<Rightarrow> map_option (\<lambda>vs. ks @ 0x3a # vs) (json_text E cfg d v)) t) = Some ss"
  shows "json_buf.writes (json_append_object E cfg d t comma) (sep comma ss @ [0x7d])"
  using assms(3)
proof (induction t arbitrary: comma ss)
  case Nil
  then show ?case using writes_append_char [OF assms(1)] by simp
next
  case (Cons e t)
  obtain k v where e: "e = (k, v)" by fastforce
  obtain ks vs ss' where s: "key_text E cfg k = Some ks" "json_text E cfg d v = Some vs" "ss = ((ks @ [0x3a]) @ vs) # ss'"
    "those (map (\<lambda>(k, v). case key_text E cfg k of None \<Rightarrow> None
        | Some ks \<Rightarrow> map_option (\<lambda>vs. ks @ 0x3a # vs) (json_text E cfg d v)) t) = Some ss'"
    using Cons.prems e by (auto split: option.splits)
  have "json_buf.writes (\<lambda>json. ebind (append_comma E comma json) (\<lambda>json. ebind (json_append_key E cfg k json) (\<lambda>json.
      ebind (json_append_data E cfg d v json) (json_append_object E cfg d t True))))
      ((if comma then [0x2c] else []) @ (ks @ [0x3a]) @ vs @ sep True ss' @ [0x7d])"
    by (intro json_buf.writes_bind writes_comma [OF assms(1)] writes_key [OF assms(1) s(1)] assms(2) [OF s(2)] Cons.IH s(4))
  then show ?case using e s(3) by (simp add: sep_Cons del: sep.simps)
qed

lemma json_append_data_scalar:
  "json_append_data E cfg d LNil = append_mem E [0x6e, 0x75, 0x6c, 0x6c]"
  "json_append_data E cfg d (LBool b) = append_mem E (if b then [0x74, 0x72, 0x75, 0x65] else [0x66, 0x61, 0x6c, 0x73, 0x65])"
  "json_append_data E cfg d (LNumber n) = json_append_number E cfg n"
  "json_append_data E cfg d (LString str) = json_append_string E str"
  by (simp_all add: fun_eq_iff json_append_data.simps empty_array_to_json_def)

lemma json_append_data_writes:
  assumes "env_ok E cfg" and "json_text E cfg d v = Some s"
  shows "json_buf.writes (json_append_data E cfg d v) s"
  using assms(2)
proof (induction "nat (encode_max_depth cfg + 1 - d)" arbitrary: d v s rule: less_induct)
  case less
  show ?case
  proof (cases v)
    case (LTable t)
    then obtain n where n: "array_size cfg t = Some n" "d + 1 \<le> encode_max_depth cfg" "env_checkstack E (d + 1)"
      using less.prems by (auto simp: json_text.simps [of E cfg d] split: if_splits option.splits)
    have IH: "json_text E cfg (d + 1) v = Some s \<Longrightarrow> json_buf.writes (json_append_data E cfg (d + 1) v) s" for v s
      using less.hyps n(2) by simp
    have data: "json_append_data E cfg d v = (\<lambda>json. if n > 0
        then ebind (append_char E 0x5b json) (json_append_array E cfg (d + 1) t 1 n False)
        else ebind (append_char E 0x7b json) (json_append_object E cfg (d + 1) t False))"
      using LTable n array_size_length(1) [OF n(1)]
      by (simp add: json_append_data.simps fun_eq_iff empty_array_to_json_def json_check_encode_depth_def)
    show ?thesis
    proof (cases "n > 0")
      case True
      then obtain ss where ss: "those (map (\<lambda>i. json_text E cfg (d + 1) (lua_gettable t (LNumber (dbl_of_int i)))) [1..n]) = Some ss"
        "s = [0x5b] @ sep False ss @ [0x5d]"
        using less.prems LTable n by (auto simp: json_text.simps [of E cfg d])
      have "json_buf.writes (\<lambda>json. ebind (append_char E 0x5b json) (json_append_array E cfg (d + 1) t 1 n False)) s"
        unfolding ss(2) using array_size_length(2) [OF n(1)] IH ss(1)
        by (intro json_buf.writes_bind writes_append_char [OF assms(1)] writes_array [OF assms(1)]) auto
      then show ?thesis using True by (simp add: data)
    next
      case False
      then obtain ss where ss: "those (map (\<lambda>(k, v). case key_text E cfg k of None \<Rightarrow> None
        | Some ks \<Rightarrow> map_option (\<lambda>vs. ks @ 0x3a # vs) (json_text E cfg (d + 1) v)) t) = Some ss"
        "s = [0x7b] @ sep False ss @ [0x7d]"
        using less.prems LTable n by (auto simp: json_text.simps [of E cfg d])
      have "json_buf.writes (\<lambda>json. ebind (append_char E 0x7b json) (json_append_object E cfg (d + 1) t False)) s"
        unfolding ss(2) using IH ss(1)
        by (intro json_buf.writes_bind writes_append_char [OF assms(1)] writes_object [OF assms(1)]) auto
      then show ?thesis using False by (simp add: data)
    qed
  next
    case (LUserdata w)
    then have "w = Some EMPTY_ARRAY_DEADBEEF" "s = [0x5b, 0x5d]"
      using less.prems by (auto simp: json_text.simps [of E cfg d] split: option.splits if_splits)
    then have "json_append_data E cfg d v json = append_mem E s json" for json
      using LUserdata by (cases "append_mem E s json") (simp_all add: json_append_data.simps empty_array_to_json_def)
    then have "json_append_data E cfg d v = append_mem E s" by (rule ext)
    then show ?thesis using writes_append_mem [OF assms(1), of s] by simp
  next
    case (LNumber n)
    then show ?thesis using less.prems writes_number [OF assms(1), of n s] by (simp add: json_text.simps json_append_data_scalar)
  next
    case (LString str)
    then show ?thesis using less.prems writes_string [OF assms(1), of str] by (simp add: json_text.simps json_append_data_scalar)
  next
    case (LBool b)
    then show ?thesis using less.prems writes_append_mem [OF assms(1), of s] by (simp add: json_text.simps json_append_data_scalar)
  next
    case LNil
    then show ?thesis using less.prems writes_append_mem [OF assms(1), of s] by (simp add: json_text.simps json_append_data_scalar)
  qed (use less.prems in \<open>auto simp: json_text.simps\<close>)
qed

subsection \<open>Safety\<close>

text \<open>
  How a call of the encoder may end: with a well-formed buffer; with an error, after which the buffer of the
  module is well formed and a private buffer is released; or out of memory or out of \<open>int\<close>.
\<close>

fun good_exc :: "json_config \<Rightarrow> json_exc \<Rightarrow> bool" where
  "good_exc cfg (Raise m None) = False"
| "good_exc cfg (Raise m (Some json)) =
     (\<not> sb_dynamic json \<and> (if encode_keep_buffer cfg = 0 then sb_buf json = None else sb_inv json))"
| "good_exc cfg (Fault f) = benign f"
| "good_exc cfg Null_deref = False"
| "good_exc cfg No_fuel = False"

fun good :: "json_config \<Rightarrow> json_exc + strbuf \<Rightarrow> bool" where
  "good cfg (Inr json) = (sb_inv json \<and> \<not> sb_dynamic json)"
| "good cfg (Inl e) = good_exc cfg e"

definition safe :: "json_config \<Rightarrow> (strbuf \<Rightarrow> json_exc + strbuf) \<Rightarrow> bool" where
  "safe cfg f \<longleftrightarrow> (\<forall>json. sb_inv json \<longrightarrow> \<not> sb_dynamic json \<longrightarrow> good cfg (f json))"

lemma enc_safe_bind:
  assumes "safe cfg f" and "safe cfg g"
  shows "safe cfg (\<lambda>json. ebind (f json) g)"
  unfolding safe_def
proof (intro allI impI)
  fix json
  assume "sb_inv json" "\<not> sb_dynamic json"
  then have "good cfg (f json)" using assms(1) by (simp add: safe_def)
  then show "good cfg (ebind (f json) g)"
    using assms(2) by (cases "f json") (auto simp: safe_def)
qed

lemma enc_safe_if: "safe cfg f \<Longrightarrow> safe cfg g \<Longrightarrow> safe cfg (\<lambda>json. if b then f json else g json)"
  by (cases b) (simp_all add: safe_def)

lemma safe_skip: "safe cfg Inr"
  by (simp add: safe_def)

lemma safe_raise: "safe cfg (\<lambda>json. Inl (json_encode_exception cfg json v reason))"
  by (simp add: safe_def json_encode_exception_def strbuf_free_def)

lemma safe_append_mem: "safe cfg (append_mem E c)"
  unfolding safe_def
proof (intro allI impI)
  fix json :: strbuf
  assume "sb_inv json" "\<not> sb_dynamic json"
  then show "good cfg (append_mem E c json)"
    using append_mem_any [of json, where ok = "env_alloc E" and junk = "env_junk E" and c = c]
    by (cases "strbuf_append_mem (env_alloc E) (env_junk E) json c") (auto simp: append_mem_def lift_sb_def)
qed

lemma safe_append_char: "safe cfg (append_char E c)"
  using safe_append_mem [of cfg E "[c]"] by (simp add: append_char_def [abs_def] append_mem_def [abs_def] append_char_mem)

text \<open>A routine that first makes room is safe when it succeeds with the room.\<close>

lemma safe_ensured:
  assumes "\<And>json e. ensure_empty_length E n json = Inl e \<Longrightarrow> f json = Inl e"
    and "\<And>json json1. sb_inv json \<Longrightarrow> ensure_empty_length E n json = Inr json1 \<Longrightarrow>
      \<exists>json'. f json = Inr json' \<and> sb_inv json' \<and> sb_contents json' = sb_contents json @ s \<and> sb_dynamic json' = sb_dynamic json"
  shows "safe cfg f"
  unfolding safe_def
proof (intro allI impI)
  fix json
  assume j: "sb_inv json" "\<not> sb_dynamic json"
  show "good cfg (f json)"
  proof (cases "ensure_empty_length E n json")
    case (Inl e)
    then show ?thesis
      using ensure_any [OF j(1), where ok = "env_alloc E" and junk = "env_junk E" and len = n] assms(1)
      by (auto simp: ensure_empty_length_def lift_sb_def split: sum.splits)
  next
    case (Inr json1)
    then show ?thesis using assms(2) [OF j(1)] j(2) by fastforce
  qed
qed

definition short :: "byte list \<Rightarrow> bool" where
  "short s \<longleftrightarrow> 6 * int (length s) + 2 < 2 ^ 31"

lemma safe_string: "short s \<Longrightarrow> safe cfg (json_append_string E s)"
  using append_string_ensured [of _ s E]
  by (intro safe_ensured [where E = E and n = "to_int32 (int (length s) * 6 + 2)" and s = "string_text s"])
    (simp add: json_append_string_def, simp add: short_def)

lemma safe_print:
  assumes "g_fmt_law E" and "1 \<le> encode_number_precision cfg" and "encode_number_precision cfg \<le> 14"
  shows "safe cfg (json_print_number E cfg n)"
  using print_ensured [OF _ assms]
  by (intro safe_ensured [where E = E and n = "int FPCONV_G_FMT_BUFSIZE" and s = "g_text E cfg n"])
    (simp add: json_print_number_def, simp)

lemma safe_number:
  assumes "g_fmt_law E" and "1 \<le> encode_number_precision cfg" and "encode_number_precision cfg \<le> 14"
  shows "safe cfg (json_append_number E cfg n)"
  unfolding json_append_number_def [abs_def]
  by (intro enc_safe_if safe_print [OF assms] safe_append_mem safe_raise)

text \<open>
  Values the encoder is safe on: no string too long for the size computation, and no userdata whose first
  word cannot be read, which the null value of the module is.
\<close>

fun value_ok :: "lua_value \<Rightarrow> bool" where
  "value_ok (LString s) = short s"
| "value_ok (LTable t) = (\<forall>e \<in> set t. (\<forall>s. fst e = LString s \<longrightarrow> short s) \<and> value_ok (snd e))"
| "value_ok LNull = False"
| "value_ok (LUserdata w) = (w \<noteq> None)"
| "value_ok _ = True"

lemma value_ok_gettable: "\<forall>e \<in> set t. value_ok (snd e) \<Longrightarrow> value_ok (lua_gettable t k)"
  by (induction t k rule: lua_gettable.induct) auto

lemma safe_key:
  assumes "g_fmt_law E" and "1 \<le> encode_number_precision cfg" and "encode_number_precision cfg \<le> 14"
    and "\<forall>s. k = LString s \<longrightarrow> short s"
  shows "safe cfg (json_append_key E cfg k)"
  using assms(4)
  by (cases k) (auto simp: json_append_key_def [abs_def] intro: enc_safe_bind safe_append_char safe_append_mem safe_string
      safe_raise safe_number [OF assms(1-3)])

lemma safe_comma: "safe cfg (append_comma E comma)"
  unfolding append_comma_def [abs_def] by (intro enc_safe_if safe_append_char safe_skip)

lemma enc_safe_array:
  assumes "\<And>v. value_ok v \<Longrightarrow> safe cfg (json_append_data E cfg d v)" and "\<forall>e \<in> set t. value_ok (snd e)"
  shows "safe cfg (json_append_array E cfg d t i n comma)"
proof (induction "nat (n + 1 - i)" arbitrary: i comma)
  case 0
  then show ?case using safe_append_char by (simp add: json_append_array.simps [abs_def])
next
  case (Suc k)
  have IH: "safe cfg (json_append_array E cfg d t (i + 1) n True)" using Suc by simp
  have "safe cfg (\<lambda>json. ebind (lift_sb (int32 (i + 1))) (\<lambda>i'. json_append_array E cfg d t (i + 1) n True json))"
    using IH by (cases "int32 (i + 1)") (auto simp: lift_sb_def safe_def int32_benign)
  then have "safe cfg (\<lambda>json. ebind (append_comma E comma json) (\<lambda>json.
      ebind (json_append_data E cfg d (lua_gettable t (LNumber (dbl_of_int i))) json) (\<lambda>json.
      ebind (lift_sb (int32 (i + 1))) (\<lambda>i'. json_append_array E cfg d t (i + 1) n True json))))"
    by (intro enc_safe_bind safe_comma assms(1) value_ok_gettable assms(2))
  moreover have "i \<le> n" using Suc.hyps(2) by simp
  ultimately show ?case by (subst json_append_array.simps [abs_def]) simp
qed

lemma safe_object:
  assumes "g_fmt_law E" and "1 \<le> encode_number_precision cfg" and "encode_number_precision cfg \<le> 14"
    and "\<And>v. value_ok v \<Longrightarrow> safe cfg (json_append_data E cfg d v)"
    and "\<forall>e \<in> set t. (\<forall>s. fst e = LString s \<longrightarrow> short s) \<and> value_ok (snd e)"
  shows "safe cfg (json_append_object E cfg d t comma)"
  using assms(5)
proof (induction t arbitrary: comma)
  case Nil
  then show ?case using safe_append_char [of cfg E "0x7d"] by (simp add: safe_def)
next
  case (Cons e t)
  obtain k v where e: "e = (k, v)" by fastforce
  have "safe cfg (\<lambda>json. ebind (append_comma E comma json) (\<lambda>json. ebind (json_append_key E cfg k json) (\<lambda>json.
      ebind (json_append_data E cfg d v json) (json_append_object E cfg d t True))))"
    using Cons.prems e by (intro enc_safe_bind safe_comma safe_key [OF assms(1-3)] assms(4) Cons.IH) auto
  then show ?case using e by (simp add: safe_def)
qed

lemma array_scan_benign: "array_scan t mx items = Inl e \<Longrightarrow> benign e"
proof (induction t mx items rule: array_scan.induct)
  case (2 k v t mx items)
  then show ?case
    by (cases "int32 (items + 1)")
      (auto simp: ebind_def benign_def [of Sb_Overflow] dest: int32_benign split: if_splits option.splits sum.splits)
qed auto

lemma array_length_good:
  assumes "sb_inv json" and "\<not> sb_dynamic json" and "lua_array_length cfg t json = Inl e"
  shows "good_exc cfg e"
proof -
  have "good_exc cfg (json_encode_exception cfg json v r)" for v r
    using assms(1,2) by (simp add: json_encode_exception_def strbuf_free_def)
  moreover have "lift_sb (array_scan t 0 0) = Inl e \<Longrightarrow> good_exc cfg e"
    using array_scan_benign by (auto simp: lift_sb_def split: sum.splits)
  ultimately show ?thesis
    using assms(3) int32_benign
    by (auto simp: lua_array_length_def ebind_def lift_sb_def split: sum.splits option.splits if_splits)
qed

lemma json_append_data_safe:
  assumes "g_fmt_law E" and "1 \<le> encode_number_precision cfg" and "encode_number_precision cfg \<le> 14" and "value_ok v"
  shows "safe cfg (json_append_data E cfg d v)"
  using assms(4)
proof (induction "nat (encode_max_depth cfg + 1 - d)" arbitrary: d v rule: less_induct)
  case less
  show ?case
  proof (cases v)
    case (LTable t)
    show ?thesis
      unfolding safe_def
    proof (intro allI impI)
      fix json
      assume j: "sb_inv json" "\<not> sb_dynamic json"
      show "good cfg (json_append_data E cfg d v json)"
      proof (cases "d + 1 \<le> encode_max_depth cfg \<and> env_checkstack E (d + 1)")
        case True
        have IH: "value_ok v \<Longrightarrow> safe cfg (json_append_data E cfg (d + 1) v)" for v using less.hyps True by simp
        show ?thesis
        proof (cases "lua_array_length cfg t json")
          case (Inl e)
          then show ?thesis
            using array_length_good [OF j Inl] True LTable
            by (simp add: json_append_data.simps empty_array_to_json_def json_check_encode_depth_def)
        next
          case (Inr n)
          have "safe cfg (\<lambda>json. if n > 0
              then ebind (append_char E 0x5b json) (json_append_array E cfg (d + 1) t 1 n False)
              else ebind (append_char E 0x7b json) (json_append_object E cfg (d + 1) t False))"
            using less.prems LTable
            by (intro enc_safe_if enc_safe_bind safe_append_char enc_safe_array safe_object [OF assms(1-3)] IH) auto
          then show ?thesis
            using Inr True LTable j
            by (simp add: json_append_data.simps empty_array_to_json_def json_check_encode_depth_def safe_def split: if_splits)
        qed
      next
        case False
        then show ?thesis
          using LTable j by (auto simp: json_append_data.simps empty_array_to_json_def json_check_encode_depth_def strbuf_free_def)
      qed
    qed
  next
    case (LUserdata w)
    then obtain x where w: "w = Some x" using less.prems by auto
    have "safe cfg (\<lambda>json. if x = EMPTY_ARRAY_DEADBEEF then append_mem E [0x5b, 0x5d] json
        else Inl (json_encode_exception cfg json v ''type not supported''))"
      by (intro enc_safe_if safe_append_mem safe_raise)
    moreover have "json_append_data E cfg d v json = (if x = EMPTY_ARRAY_DEADBEEF then append_mem E [0x5b, 0x5d] json
        else Inl (json_encode_exception cfg json v ''type not supported''))" for json
      using LUserdata w by (cases "append_mem E [0x5b, 0x5d] json") (simp_all add: json_append_data.simps empty_array_to_json_def)
    ultimately show ?thesis by (simp add: safe_def)
  next
    case LOther
    then show ?thesis using safe_raise [of cfg LOther "''type not supported''"]
      by (simp add: json_append_data.simps empty_array_to_json_def safe_def)
  qed (use less.prems in \<open>auto simp: json_append_data_scalar intro: safe_append_mem safe_string safe_number [OF assms(1-3)]\<close>)
qed

end
