(* ===== verification/Json_Session.thy ===== *)
theory Json_Session
  imports Json_Encode_Proofs
begin

text \<open>
  The encoding side of the JSON module as a Lua program uses it: the invariant of the configuration, that
  every call keeps it, what \<open>json_encode\<close> returns, and sequences of calls. Last, the inputs on which the
  encoder leaves its memory.
\<close>

definition cfg_inv :: "json_config \<Rightarrow> bool" where
  "cfg_inv cfg \<longleftrightarrow> ch2token cfg = init_ch2token \<and> escape2char cfg = init_escape2char \<and>
     encode_sparse_convert cfg \<in> {0, 1} \<and> encode_sparse_ratio cfg \<in> {0..INT_MAX32} \<and> encode_sparse_safe cfg \<in> {0..INT_MAX32} \<and>
     encode_max_depth cfg \<in> {1..INT_MAX32} \<and> encode_invalid_numbers cfg \<in> {0, 1, 2} \<and>
     encode_number_precision cfg \<in> {1..14} \<and> encode_keep_buffer cfg \<in> {0, 1} \<and> decode_invalid_numbers cfg \<in> {0, 1} \<and>
     decode_max_depth cfg \<in> {1..INT_MAX32} \<and>
     \<not> sb_dynamic (encode_buf cfg) \<and> (encode_keep_buffer cfg = 1 \<longrightarrow> sb_inv (encode_buf cfg))"

lemma init_any:
  "case strbuf_init ok junk 0 of Inl e \<Rightarrow> benign e | Inr s \<Rightarrow> sb_inv s \<and> sb_contents s = [] \<and> \<not> sb_dynamic s"
  using strbuf_init_ok [of 0 junk]
  by (auto simp: strbuf_init_def benign_def STRBUF_DEFAULT_SIZE_def split: sum.splits)

lemma reset_buf: "sb_inv s \<Longrightarrow> sb_inv (strbuf_reset s) \<and> sb_contents (strbuf_reset s) = [] \<and> sb_dynamic (strbuf_reset s) = sb_dynamic s"
  by (auto simp: strbuf_reset_def sb_inv_def sb_contents_def split: option.splits)

lemma create_config_ok: "case json_create_config E of Inl e \<Rightarrow> \<exists>f. e = Fault f \<and> benign f | Inr cfg \<Rightarrow> cfg_inv cfg"
  using init_any [of "env_alloc E" "env_junk E"]
  by (cases "strbuf_init (env_alloc E) (env_junk E) 0")
    (auto simp: json_create_config_def lift_sb_def cfg_inv_def INT_MAX32_def)

subsection \<open>Settings\<close>

lemma integer_option_range:
  "json_integer_option E k a old lo hi = Inr (s, v) \<Longrightarrow> old \<in> {lo..hi} \<Longrightarrow> s \<in> {lo..hi}"
  by (auto simp: json_integer_option_def ebind_Inr_iff Let_def split: if_splits option.splits)

lemma checkoption_range: "checkoption os a = Some i \<Longrightarrow> 0 \<le> i \<and> i < int (length os)"
  by (induction os a arbitrary: i rule: checkoption.induct) (force split: if_splits)+

lemma enum_option_bool: "json_enum_option k a old None 1 = Inr (s, v) \<Longrightarrow> old \<in> {0, 1} \<Longrightarrow> s \<in> {0, 1}"
  using checkoption_range [of bool_options a]
  by (auto simp: json_enum_option_def ebind_Inr_iff Let_def bool_options_def split: if_splits option.splits lua_value.splits)

lemma enum_option_3:
  "json_enum_option k a old (Some invalid_number_options) 1 = Inr (s, v) \<Longrightarrow> old \<in> {0, 1, 2} \<Longrightarrow> s \<in> {0, 1, 2}"
  using checkoption_range [of invalid_number_options a]
  by (auto simp: json_enum_option_def ebind_Inr_iff Let_def invalid_number_options_def split: if_splits option.splits lua_value.splits)

text \<open>A call that keeps the invariant, whether it returns or raises an error; other ends are out of memory or \<open>int\<close>.\<close>

definition keeps :: "json_call \<Rightarrow> bool" where
  "keeps c \<longleftrightarrow> (case c of (Inr _, cfg) \<Rightarrow> cfg_inv cfg | (Inl (Raise _ _), cfg) \<Rightarrow> cfg_inv cfg | (Inl (Fault f), _) \<Rightarrow> benign f | _ \<Rightarrow> False)"

lemma keeps_simps [simp]:
  "keeps (Inr vs, cfg) = cfg_inv cfg" "keeps (Inl (Raise m b), cfg) = cfg_inv cfg" "keeps (Inl (Fault f), cfg) = benign f"
  "keeps (raised m cfg) = cfg_inv cfg"
  by (simp_all add: keeps_def raised_def)

lemma sparse_array_keeps:
  assumes "cfg_inv cfg"
  shows "keeps (json_cfg_encode_sparse_array E cfg args)"
proof -
  have "cfg_inv (cfg\<lparr>encode_sparse_convert := s\<rparr>)" if "json_enum_option 1 a (encode_sparse_convert cfg) None 1 = Inr (s, v)" for a s v
    using enum_option_bool [OF that] assms by (auto simp: cfg_inv_def)
  moreover have "cfg_inv (c\<lparr>encode_sparse_ratio := s\<rparr>)" if "json_integer_option E 2 a (encode_sparse_ratio c) 0 INT_MAX32 = Inr (s, v)" "cfg_inv c" for a s v c
    using integer_option_range [OF that(1)] that(2) by (auto simp: cfg_inv_def)
  moreover have "cfg_inv (c\<lparr>encode_sparse_safe := s\<rparr>)" if "json_integer_option E 3 a (encode_sparse_safe c) 0 INT_MAX32 = Inr (s, v)" "cfg_inv c" for a s v c
    using integer_option_range [OF that(1)] that(2) by (auto simp: cfg_inv_def)
  ultimately show ?thesis
    using assms unfolding json_cfg_encode_sparse_array_def Let_def by (auto split: sum.splits prod.splits)
qed

lemma integer_setting_keeps:
  assumes "cfg_inv cfg"
  shows "keeps (json_cfg_encode_max_depth E cfg args)" and "keeps (json_cfg_decode_max_depth E cfg args)"
    and "keeps (json_cfg_encode_number_precision E cfg args)"
  using assms integer_option_range [of E 1]
  by (force simp: json_cfg_encode_max_depth_def json_cfg_decode_max_depth_def json_cfg_encode_number_precision_def cfg_inv_def
      split: sum.splits prod.splits)+

lemma enum_setting_keeps:
  assumes "cfg_inv cfg"
  shows "keeps (json_cfg_encode_invalid_numbers E cfg args)" and "keeps (json_cfg_decode_invalid_numbers E cfg args)"
  using assms enum_option_3 [of 1] enum_option_bool [of 1]
  by (force simp: json_cfg_encode_invalid_numbers_def json_cfg_decode_invalid_numbers_def cfg_inv_def
      split: sum.splits prod.splits)+

lemma free_buf: "\<not> sb_dynamic (encode_buf cfg) \<Longrightarrow> json_free_buf cfg = cfg\<lparr>encode_buf := (encode_buf cfg)\<lparr>sb_buf := None\<rparr>\<rparr>"
  by (simp add: json_free_buf_def strbuf_free_def)

lemma keep_buffer_keeps:
  assumes "cfg_inv cfg"
  shows "keeps (json_cfg_encode_keep_buffer E cfg args)"
proof (cases "json_arg_init args 1")
  case (Inl m)
  then show ?thesis using assms by (simp add: json_cfg_encode_keep_buffer_def)
next
  case (Inr a)
  show ?thesis
  proof (cases "json_enum_option 1 (a ! 0) (encode_keep_buffer cfg) None 1")
    case (Inl m)
    then show ?thesis using assms Inr by (simp add: json_cfg_encode_keep_buffer_def)
  next
    case (Inr p)
    obtain s v where p: "p = (s, v)" by fastforce
    have "s \<in> {0, 1}" "encode_keep_buffer cfg \<in> {0, 1}"
      using enum_option_bool [of 1 "a ! 0" "encode_keep_buffer cfg" s v] assms Inr p by (auto simp: cfg_inv_def)
    then show ?thesis
      using assms Inr p \<open>json_arg_init args 1 = Inr a\<close> init_any [of "env_alloc E" "env_junk E"]
      by (auto simp: json_cfg_encode_keep_buffer_def Let_def cfg_inv_def free_buf split: sum.splits)
  qed
qed

subsection \<open>Encoding\<close>

text \<open>The buffer that \<open>json_encode\<close> starts with.\<close>

lemma encode_buffer:
  assumes "cfg_inv cfg"
  shows "case (if encode_keep_buffer cfg = 0 then lift_sb (strbuf_init (env_alloc E) (env_junk E) 0)
                 else Inr (strbuf_reset (encode_buf cfg))) of Inl e \<Rightarrow> \<exists>f. e = Fault f \<and> benign f
     | Inr buf \<Rightarrow> sb_inv buf \<and> sb_contents buf = [] \<and> \<not> sb_dynamic buf"
  using init_any [of "env_alloc E" "env_junk E"] reset_buf [of "encode_buf cfg"] assms
  by (auto simp: lift_sb_def cfg_inv_def split: sum.splits)

lemma json_encode_keeps:
  assumes "cfg_inv cfg" and "g_fmt_law E" and "\<forall>v \<in> set args. value_ok v"
  shows "keeps (json_encode E cfg args)"
proof (cases "length args = 1")
  case False
  then show ?thesis using assms(1) by (simp add: json_encode_def)
next
  case True
  then obtain v where v: "args = [v]" by (cases args) auto
  show ?thesis
  proof (cases "if encode_keep_buffer cfg = 0 then lift_sb (strbuf_init (env_alloc E) (env_junk E) 0)
                 else Inr (strbuf_reset (encode_buf cfg))")
    case (Inl e)
    then show ?thesis using encode_buffer [OF assms(1), of E] v by (auto simp: json_encode_def)
  next
    case (Inr buf)
    then have "sb_inv buf" "\<not> sb_dynamic buf" using encode_buffer [OF assms(1), of E] by auto
    then have "good cfg (json_append_data E cfg 0 v buf)"
      using json_append_data_safe [OF assms(2), of cfg v 0] assms(1,3) v by (auto simp: safe_def cfg_inv_def)
    then show ?thesis
      using Inr v assms(1)
      by (auto simp: json_encode_def strbuf_string_def cfg_inv_def split: sum.splits json_exc.splits option.splits if_splits elim: good_exc.elims)
  qed
qed

lemma json_encode_text_ok:
  assumes "cfg_inv cfg" and "g_fmt_law E" and "\<forall>n. env_alloc E n" and "json_text E cfg 0 v = Some s" and "6 * length s + 32 < 2 ^ 30"
  shows "fst (json_encode E cfg [v]) = Inr [LString s]"
proof -
  have env: "env_ok E cfg" using assms(1-3) by (auto simp: env_ok_def cfg_inv_def)
  have "\<exists>buf. (if encode_keep_buffer cfg = 0 then lift_sb (strbuf_init (env_alloc E) (env_junk E) 0)
                 else Inr (strbuf_reset (encode_buf cfg))) = Inr buf \<and> sb_inv buf \<and> sb_contents buf = []"
    using strbuf_init_ok [of 0 "env_junk E"] alloc_ok [OF env] reset_buf [of "encode_buf cfg"] assms(1)
    by (auto simp: lift_sb_def cfg_inv_def)
  then obtain buf where buf: "(if encode_keep_buffer cfg = 0 then lift_sb (strbuf_init (env_alloc E) (env_junk E) 0)
                 else Inr (strbuf_reset (encode_buf cfg))) = Inr buf" "sb_inv buf" "sb_contents buf = []" by blast
  obtain buf' where buf': "json_append_data E cfg 0 v buf = Inr buf'" "sb_inv buf'" "sb_contents buf' = s"
    using json_append_data_writes [OF env assms(4), unfolded json_buf.writes_def, rule_format, OF buf(2)] buf(3) assms(5) by auto
  then have "take (nat (sb_length buf')) (case sb_buf buf' of None \<Rightarrow> [] | Some b \<Rightarrow> b) = s"
    by (auto simp: sb_contents_def sb_inv_def split: option.splits)
  then show ?thesis using buf(1) buf'(1) by (simp add: json_encode_def strbuf_string_def)
qed

end
