(* ===== verification/Json_Roundtrip.thy ===== *)
theory Json_Roundtrip
  imports Json_Decode_Proofs Json_Session
begin

text \<open>
  The decoder reads back what the encoder writes. A state of the parser is described by the input that is left
  (\<open>jp_at\<close>); each kind of token is read from its text, and by induction every value from the text
  \<open>json_text\<close> of the value.
\<close>

subsection \<open>States by their remaining input\<close>

definition jp_at :: "json_parse \<Rightarrow> json_config \<Rightarrow> int \<Rightarrow> byte list \<Rightarrow> bool" where
  "jp_at json cfg d r \<longleftrightarrow> jp_inv json \<and> jp_cfg json = cfg \<and> jp_depth json = d \<and> drop (jp_ptr json) (jp_data json) = r"

lemma peek_at: "drop (jp_ptr json) (jp_data json) = xs \<Longrightarrow> k < length xs \<Longrightarrow> peek json k = Inr (xs ! k)"
  by (auto simp: peek_def)

lemma rest_drop: "drop (jp_ptr json) (jp_data json) = xs \<Longrightarrow> rest json 0 = takeWhile (\<lambda>c. c \<noteq> 0) xs"
  by (simp add: rest_def)

lemma at_advance:
  assumes "jp_at json cfg d (xs @ r)" and "length xs = n"
  shows "jp_at (advance n json) cfg d r"
proof -
  have d: "drop (jp_ptr json) (jp_data json) = xs @ r" using assms by (simp add: jp_at_def)
  then have "length (jp_data json) - jp_ptr json = length xs + length r" by (metis length_append length_drop)
  then have "jp_ptr json + length xs \<le> length (jp_data json)" using assms by (auto simp: jp_at_def jp_inv_def)
  moreover have "drop (jp_ptr json + length xs) (jp_data json) = r"
    using d by (metis add.commute append_eq_conv_conj drop_drop)
  ultimately show ?thesis using assms by (auto simp: jp_at_def jp_inv_def advance_def)
qed

subsection \<open>Escapes\<close>

text \<open>What \<open>char2escape\<close> gives for a byte, as the decoder reads it.\<close>

lemma ctrl_escape:
  assumes "c < 0x20"
  shows "(\<exists>x. esc_text c = [0x5c, x] \<and> init_escape2char ! unat x = c) \<or>
    (\<exists>h1 h2. esc_text c = [0x5c, 0x75, 0x30, 0x30, h1, h2] \<and> 0 \<le> hexdigit2int h1 \<and> 0 \<le> hexdigit2int h2 \<and>
       16 * hexdigit2int h1 + hexdigit2int h2 = uint c)"
proof -
  define n where "n = unat c"
  have c: "c = word_of_nat n" by (simp add: n_def)
  have "n < 32" using assms by (simp add: n_def word_less_nat_alt)
  then have "n \<in> {0, 1, 2, 3, 4, 5, 6, 7, 8, 9, 10, 11, 12, 13, 14, 15, 16, 17, 18, 19, 20, 21, 22, 23, 24, 25, 26, 27, 28, 29, 30, 31}"
    by (simp only: insert_iff empty_iff) presburger
  then show ?thesis
    unfolding c
    by (elim insertE emptyE; simp add: esc_text_def char2escape_def char2escape_ctrl_def init_escape2char_def hexdigit2int_def)
qed

lemma esc_cases:
  obtains (plain) "esc_text c = [c]" "c \<noteq> 0" "c \<noteq> 0x22" "c \<noteq> 0x5c"
  | (short) x where "esc_text c = [0x5c, x]" "init_escape2char ! unat x = c" "c \<noteq> 0" "c \<noteq> 0x75"
  | (unicode) h1 h2 where "esc_text c = [0x5c, 0x75, 0x30, 0x30, h1, h2]" "0 \<le> hexdigit2int h1" "0 \<le> hexdigit2int h2"
      "16 * hexdigit2int h1 + hexdigit2int h2 = uint c" "uint c \<le> 0x7f"
proof -
  consider "c < 0x20" | "c \<in> {0x22, 0x2f, 0x5c}" | "c = 0x7f" | "\<not> c < 0x20" "c \<notin> {0x22, 0x2f, 0x5c, 0x7f}" by blast
  then show ?thesis
  proof cases
    case 1
    then have "c \<noteq> 0x75" "uint c \<le> 0x7f" by (auto simp: word_less_def)
    moreover have "c \<noteq> 0" if "esc_text c = [0x5c, x]" for x
      using that by (auto simp: esc_text_def char2escape_def char2escape_ctrl_def)
    ultimately show ?thesis using ctrl_escape [OF 1] short unicode by blast
  next
    case 2
    then show ?thesis using short [of c] by (auto simp: esc_text_def char2escape_def init_escape2char_def)
  next
    case 3
    then show ?thesis
      using unicode [of "0x37" "0x66"] by (simp add: esc_text_def char2escape_def hexdigit2int_def)
  next
    case 4
    then have "c \<noteq> 0" by auto
    then show ?thesis using 4 plain by (auto simp: esc_text_def char2escape_def)
  qed
qed

text \<open>Inside a string: the parser is before \<open>r\<close> and has collected \<open>s\<close>.\<close>

definition collected :: "json_parse \<Rightarrow> json_config \<Rightarrow> int \<Rightarrow> byte list \<Rightarrow> byte list \<Rightarrow> bool" where
  "collected json cfg d s r \<longleftrightarrow> in_string json \<and> jp_at json cfg d r \<and> sb_contents (jp_tmp json) = s"

lemma collected_put:
  assumes "collected json cfg d s (xs @ r)" and "length bs \<le> length xs" and "length xs = n"
  shows "\<exists>t. strbuf_append_mem_unsafe (jp_tmp json) bs = Inr t \<and> collected (advance n (json\<lparr>jp_tmp := t\<rparr>)) cfg d (s @ bs) r"
proof -
  have at: "jp_at (advance n json) cfg d r" using at_advance [of json cfg d xs r] assms(1,3) by (simp add: collected_def)
  then have "jp_ptr json + n \<le> length (jp_data json)" by (simp add: jp_at_def jp_inv_def advance_def)
  then obtain t where "strbuf_append_mem_unsafe (jp_tmp json) bs = Inr t" "sb_contents t = sb_contents (jp_tmp json) @ bs"
    "in_string (advance n (json\<lparr>jp_tmp := t\<rparr>))" using put_ok [of json bs n] assms by (auto simp: collected_def)
  then show ?thesis using assms(1) at by (auto simp: collected_def jp_at_def in_string_def advance_def)
qed

lemma decode_hex4_at:
  assumes "drop (jp_ptr json) (jp_data json) = pre @ [a, b, c, d] @ r"
    and "0 \<le> hexdigit2int a" "0 \<le> hexdigit2int b" "0 \<le> hexdigit2int c" "0 \<le> hexdigit2int d"
  shows "decode_hex4 json (length pre) = Inr (4096 * hexdigit2int a + 256 * hexdigit2int b + 16 * hexdigit2int c + hexdigit2int d)"
proof -
  have p: "peek json (length pre + k) = Inr ([a, b, c, d] ! k)" if "k < 4" for k
  proof -
    have "([a, b, c, d] @ r) ! k = [a, b, c, d] ! k" using that by (simp only: nth_append) simp
    then show ?thesis using peek_at [OF assms(1), of "length pre + k"] that by simp
  qed
  have "peek json (length pre) = Inr a" "peek json (Suc (length pre)) = Inr b"
    "peek json (Suc (Suc (length pre))) = Inr c" "peek json (Suc (Suc (Suc (length pre)))) = Inr d"
    using p [of 0] p [of 1] p [of 2] p [of 3] by (simp_all add: numeral_3_eq_3)
  then show ?thesis
    using assms(2-5) by (simp add: decode_hex4_def numeral_eq_Suc push_bit_eq_mult)
qed

lemma and_high_0:
  assumes "0 \<le> (x :: int)" and "x < 0x800"
  shows "x AND 0xf800 = 0"
proof -
  have "take_bit 11 x = x" using assms by (simp add: take_bit_int_eq_self)
  then have "x = x AND 0x7ff" by (simp add: take_bit_eq_mask mask_eq_exp_minus_1)
  then have "x AND 0xf800 = x AND (0x7ff AND 0xf800)" by (metis and.assoc)
  then show ?thesis by simp
qed

text \<open>One round of the loop reads one escaped byte.\<close>

lemma string_step_esc:
  assumes "collected json cfg d s (esc_text c @ r)"
  shows "\<exists>json'. string_step json (hd (esc_text c)) = Inr (Inr json') \<and> hd (esc_text c) \<noteq> 0x22 \<and>
    peek json 0 = Inr (hd (esc_text c)) \<and> collected json' cfg d (s @ [c]) r"
proof -
  have d: "drop (jp_ptr json) (jp_data json) = esc_text c @ r" and tab: "escape2char (jp_cfg json) = init_escape2char"
    using assms by (auto simp: collected_def jp_at_def in_string_def jp_inv_def tables_ok_def)
  have p0: "peek json 0 = Inr (hd (esc_text c))" using peek_at [OF d, of 0] esc_text_length [of c] by (cases "esc_text c") auto
  show ?thesis
  proof (cases rule: esc_cases [of c])
    case plain
    then show ?thesis
      using collected_put [of json cfg d s "[c]" r "[c]" 1] assms p0
      by (auto simp: string_step_def append_char_unsafe_mem lift_sb_def)
  next
    case (short x)
    then have "peek json 1 = Inr x" using peek_at [OF d, of 1] by simp
    then show ?thesis
      using collected_put [of json cfg d s "[0x5c, x]" r "[c]" 2] short assms p0 tab
      by (auto simp: string_step_def append_char_unsafe_mem lift_sb_def Let_def)
  next
    case (unicode h1 h2)
    then have "peek json 1 = Inr 0x75" using peek_at [OF d, of 1] by simp
    moreover have "init_escape2char ! unat (0x75 :: byte) = 0x75" by (simp add: init_escape2char_def)
    moreover have "hexdigit2int 0x30 = 0" by (simp add: hexdigit2int_def)
    then have hex: "decode_hex4 json 2 = Inr (uint c)"
      using decode_hex4_at [of json "[0x5c, 0x75]" "0x30" "0x30" h1 h2 r] d unicode by (simp add: numeral_2_eq_2)
    have "uint c AND 0xf800 = 0" using unicode(5) by (intro and_high_0) auto
    then have "unicode_escape json = Inr (Some (uint c, 6))" using hex by (simp add: unicode_escape_def)
    moreover have "codepoint_to_utf8 (uint c) = [c]" using unicode(5) by (simp add: codepoint_to_utf8_def)
    ultimately show ?thesis
      using collected_put [of json cfg d s "[0x5c, 0x75, 0x30, 0x30, h1, h2]" r "[c]" 6] unicode assms p0 tab
      by (auto simp: string_step_def json_append_unicode_escape_def lift_sb_def Let_def)
  qed
qed

text \<open>The loop reads the text \<open>xs\<close> as the bytes \<open>bs\<close>, wherever it stands in the string.\<close>

definition str_reads :: "byte list \<Rightarrow> byte list \<Rightarrow> bool" where
  "str_reads xs bs \<longleftrightarrow> (\<forall>json cfg d s r. collected json cfg d s (xs @ r) \<longrightarrow>
     (\<exists>json'. string_loop json = string_loop json' \<and> collected json' cfg d (s @ bs) r))"

lemma str_reads_Nil: "str_reads [] []"
  by (auto simp: str_reads_def)

lemma str_reads_append: "str_reads xs bs \<Longrightarrow> str_reads ys cs \<Longrightarrow> str_reads (xs @ ys) (bs @ cs)"
proof (unfold str_reads_def append_assoc, intro allI impI)
  fix json cfg d s r
  assume "\<forall>json cfg d s r. collected json cfg d s (xs @ r) \<longrightarrow> (\<exists>json'. string_loop json = string_loop json' \<and> collected json' cfg d (s @ bs) r)"
    and "\<forall>json cfg d s r. collected json cfg d s (ys @ r) \<longrightarrow> (\<exists>json'. string_loop json = string_loop json' \<and> collected json' cfg d (s @ cs) r)"
    and "collected json cfg d s (xs @ ys @ r)"
  then obtain j1 j2 where "string_loop json = string_loop j1" "string_loop j1 = string_loop j2" "collected j2 cfg d ((s @ bs) @ cs) r" by blast
  then show "\<exists>json'. string_loop json = string_loop json' \<and> collected json' cfg d (s @ bs @ cs) r" by auto
qed

lemma str_reads_step:
  assumes "\<And>json cfg d s r. collected json cfg d s (c # xs @ r) \<Longrightarrow>
    \<exists>json'. string_step json c = Inr (Inr json') \<and> collected json' cfg d (s @ bs) r" and "c \<noteq> 0x22"
  shows "str_reads (c # xs) bs"
  unfolding str_reads_def
proof (intro allI impI)
  fix json cfg d s r
  assume c: "collected json cfg d s ((c # xs) @ r)"
  then have "peek json 0 = Inr c" using peek_at [of json "c # xs @ r" 0] by (auto simp: collected_def jp_at_def)
  moreover obtain json' where "string_step json c = Inr (Inr json')" "collected json' cfg d (s @ bs) r"
    using assms(1) [of json cfg d s r] c by auto
  ultimately show "\<exists>json'. string_loop json = string_loop json' \<and> collected json' cfg d (s @ bs) r"
    using assms(2) by (subst string_loop.simps) auto
qed

lemma str_reads_concat: "(\<And>x. x \<in> set xs \<Longrightarrow> str_reads (f x) (g x)) \<Longrightarrow> str_reads (concat (map f xs)) (concat (map g xs))"
  by (induction xs) (auto intro: str_reads_Nil str_reads_append)

lemma str_reads_esc: "str_reads (esc_text c) [c]"
proof (cases "esc_text c")
  case (Cons a xs)
  have "a \<noteq> 0x22" by (rule esc_cases [of c]) (use Cons in auto)
  moreover have "\<exists>json'. string_step json a = Inr (Inr json') \<and> collected json' cfg d (s @ [c]) r"
    if "collected json cfg d s (a # xs @ r)" for json cfg d s r
    using string_step_esc [of json cfg d s c r] that Cons by auto
  ultimately show ?thesis unfolding Cons by (intro str_reads_step)
qed (use esc_text_length [of c] in simp)

lemma str_reads_text: "str_reads (concat (map esc_text s)) s"
  using str_reads_concat [of s esc_text "\<lambda>c. [c]"] str_reads_esc by (simp add: concat_map_singleton)

lemma string_loop_end:
  assumes "str_reads body str" and "collected json cfg d s (body @ 0x22 # r)"
  shows "\<exists>json'. string_loop json = Inr (Inr json') \<and> jp_at json' cfg d r \<and> sb_contents (jp_tmp json') = s @ str"
proof -
  obtain json' where j: "string_loop json = string_loop json'" and c: "collected json' cfg d (s @ str) ([0x22] @ r)"
    using assms unfolding str_reads_def by (metis append_Cons append_Nil)
  then have at: "jp_at json' cfg d ([0x22] @ r)" and s: "sb_contents (jp_tmp json') = s @ str" by (auto simp: collected_def)
  then have "peek json' 0 = Inr 0x22" using peek_at [of json' "[0x22] @ r" 0] by (auto simp: jp_at_def)
  then show ?thesis unfolding j using at_advance [OF at, of 1] s by (subst string_loop.simps) (simp add: advance_def)
qed

subsection \<open>Tokens\<close>

lemma skip_none:
  assumes "jp_at json cfg d (c # r)" and "init_ch2token ! unat c \<noteq> T_WHITESPACE"
  shows "skip_whitespace json = Inr (c, init_ch2token ! unat c, json)" and "peek json 0 = Inr c"
proof -
  show p: "peek json 0 = Inr c" using peek_at [of json "c # r" 0] assms(1) by (auto simp: jp_at_def)
  then show "skip_whitespace json = Inr (c, init_ch2token ! unat c, json)"
    using assms by (subst skip_whitespace.simps) (auto simp: jp_at_def jp_inv_def tables_ok_def Let_def)
qed

definition punct :: "byte \<Rightarrow> json_token_type \<Rightarrow> bool" where
  "punct c ty \<longleftrightarrow> (c, ty) \<in> {(0x7b, T_OBJ_BEGIN), (0x7d, T_OBJ_END), (0x5b, T_ARR_BEGIN), (0x5d, T_ARR_END), (0x2c, T_COMMA), (0x3a, T_COLON)}"

lemma punct_table: "punct c ty \<Longrightarrow> init_ch2token ! unat c = ty \<and> ty \<noteq> T_WHITESPACE \<and> ty \<noteq> T_ERROR \<and> ty \<noteq> T_END \<and> ty \<noteq> T_UNKNOWN"
  by (auto simp: punct_def init_ch2token_def)

lemma token_punct:
  assumes "jp_at json cfg d (c # r)" and "punct c ty"
  shows "\<exists>tok json'. json_next_token E json = Inr (tok, json') \<and> tok_type tok = ty \<and> jp_at json' cfg d r"
  using skip_none(1) [OF assms(1)] punct_table [OF assms(2)] at_advance [of json cfg d "[c]" r 1] assms(1)
  by (simp add: json_next_token_def Let_def)

lemma token_string_reads:
  assumes "str_reads body s" and "jp_at json cfg d (0x22 # body @ 0x22 # r)"
  shows "\<exists>tok json'. json_next_token E json = Inr (tok, json') \<and> tok_type tok = T_STRING \<and> tok_val tok = V_string s \<and> jp_at json' cfg d r"
proof -
  have at: "jp_at json cfg d ([0x22] @ (body @ 0x22 # r))" using assms(2) by simp
  have tab: "init_ch2token ! unat (0x22 :: byte) = T_UNKNOWN" by (simp add: init_ch2token_def)
  define json1 where "json1 = (advance 1 json)\<lparr>jp_tmp := strbuf_reset (jp_tmp json)\<rparr>"
  have p: "peek json 0 = Inr 0x22" "jp_inv json" using skip_none(2) [of json cfg d "0x22"] at tab by (auto simp: jp_at_def)
  have "in_string json1" "sb_contents (jp_tmp json1) = []"
    using in_string_start [OF p(2,1)] reset_inv [of "jp_tmp json"] p(2) by (simp_all add: json1_def jp_inv_def)
  then have "collected json1 cfg d [] (body @ 0x22 # r)"
    using at_advance [OF at, of 1] by (auto simp: collected_def jp_at_def json1_def advance_def in_string_def)
  then obtain json2 where j2: "string_loop json1 = Inr (Inr json2)" "jp_at json2 cfg d r" "sb_contents (jp_tmp json2) = s"
    using string_loop_end [OF assms(1)] by fastforce
  obtain t where t: "strbuf_ensure_null (jp_tmp json2) = Inr t" "sb_inv t" "sb_contents t = sb_contents (jp_tmp json2)"
    "sb_dynamic t = sb_dynamic (jp_tmp json2)" "sb_size t = sb_size (jp_tmp json2)"
    using ensure_null_any [of "jp_tmp json2"] j2(2) by (auto simp: jp_at_def jp_inv_def)
  have "take (nat (sb_length t)) (case sb_buf t of None \<Rightarrow> [] | Some b \<Rightarrow> b) = s"
    using t(2,3) j2(3) by (auto simp: sb_contents_def sb_inv_def split: option.splits)
  moreover have "json_next_token E json = json_next_string_token json"
    using skip_none(1) [of json cfg d "0x22"] at tab by (simp add: json_next_token_def Let_def)
  moreover have "jp_at (json2\<lparr>jp_tmp := t\<rparr>) cfg d r" using j2(2) t by (auto simp: jp_at_def jp_inv_def)
  ultimately show ?thesis
    using j2(1) t(1) unfolding json_next_string_token_def Let_def json1_def [symmetric]
    by (simp add: lift_sb_def strbuf_string_def)
qed

lemma token_string:
  assumes "jp_at json cfg d (string_text s @ r)"
  shows "\<exists>tok json'. json_next_token E json = Inr (tok, json') \<and> tok_type tok = T_STRING \<and> tok_val tok = V_string s \<and> jp_at json' cfg d r"
  using token_string_reads [OF str_reads_text] assms by (simp add: string_text_def)

lemma token_bool:
  assumes "jp_at json cfg d ((if b then [0x74, 0x72, 0x75, 0x65] else [0x66, 0x61, 0x6c, 0x73, 0x65]) @ r)"
  shows "\<exists>tok json'. json_next_token E json = Inr (tok, json') \<and> tok_type tok = T_BOOLEAN \<and> tok_val tok = V_boolean b \<and> jp_at json' cfg d r"
proof -
  have rest: "rest json 0 = takeWhile (\<lambda>c. c \<noteq> 0) ((if b then [0x74, 0x72, 0x75, 0x65] else [0x66, 0x61, 0x6c, 0x73, 0x65]) @ r)"
    using assms rest_drop by (auto simp: jp_at_def)
  have tab: "init_ch2token ! unat (0x74 :: byte) = T_UNKNOWN" "init_ch2token ! unat (0x66 :: byte) = T_UNKNOWN" by (simp_all add: init_ch2token_def)
  have "jp_at (advance (if b then 4 else 5) json) cfg d r" using at_advance [OF assms, of "if b then 4 else 5"] by simp
  then show ?thesis
    using skip_none(1) [of json cfg d "if b then 0x74 else 0x66"] assms tab rest
    by (cases b) (auto simp: json_next_token_def Let_def)
qed

text \<open>What may follow a value.\<close>

definition follow :: "byte list \<Rightarrow> bool" where
  "follow r \<longleftrightarrow> r = [] \<or> hd r \<in> {0x2c, 0x5d, 0x7d}"

text \<open>
  What the round trip needs of a number: it is finite, its text starts like a number, and \<open>strtod\<close> reads the
  text back and stops at its end. With 14 digits not every \<open>double\<close> has this property.
\<close>

definition number_rt :: "json_env \<Rightarrow> json_config \<Rightarrow> lua_Number \<Rightarrow> bool" where
  "number_rt E cfg n \<longleftrightarrow> \<not> dbl_is_inf n \<and> \<not> dbl_is_nan n \<and> g_text E cfg n \<noteq> [] \<and> 0 \<notin> set (g_text E cfg n) \<and>
     (hd (g_text E cfg n) = 0x2d \<or> 0x30 \<le> hd (g_text E cfg n) \<and> hd (g_text E cfg n) \<le> 0x39) \<and>
     (\<forall>r. follow r \<longrightarrow> fpconv_strtod (env_alloc E) (env_strtod E) (env_decimal_point E) (g_text E cfg n @ r) =
       Inr (n, length (g_text E cfg n)))"

lemma digit_table:
  assumes "c = 0x2d \<or> 0x30 \<le> c \<and> c \<le> (0x39 :: byte)"
  shows "init_ch2token ! unat c = T_UNKNOWN" and "c \<noteq> 0x22"
proof -
  have "c \<in> {0x2d, 0x30, 0x31, 0x32, 0x33, 0x34, 0x35, 0x36, 0x37, 0x38, 0x39}"
  proof (cases "c = 0x2d")
    case False
    then have "48 \<le> unat c" "unat c \<le> 57" using assms by (auto simp: word_le_nat_alt)
    then have "unat c \<in> {48, 49, 50, 51, 52, 53, 54, 55, 56, 57}" by (simp only: insert_iff empty_iff) presburger
    moreover have "c = word_of_nat (unat c)" by simp
    ultimately show ?thesis by (elim insertE emptyE) auto
  qed simp
  then show "init_ch2token ! unat c = T_UNKNOWN" "c \<noteq> 0x22"
    by (elim insertE emptyE; simp add: init_ch2token_def)+
qed

lemma takeWhile_follow: "follow r \<Longrightarrow> follow (takeWhile (\<lambda>c. c \<noteq> 0) r)"
  by (cases r) (auto simp: follow_def)

lemma token_number:
  assumes "jp_at json cfg d (g_text E cfg n @ r)" and "follow r" and "number_rt E cfg n" and "decode_invalid_numbers cfg \<noteq> 0"
  shows "\<exists>tok json'. json_next_token E json = Inr (tok, json') \<and> tok_type tok = T_NUMBER \<and> tok_val tok = V_number n \<and> jp_at json' cfg d r"
proof -
  define s where "s = g_text E cfg n"
  obtain c s' where c: "s = c # s'" "c = 0x2d \<or> 0x30 \<le> c \<and> c \<le> 0x39" using assms(3) by (cases s) (auto simp: number_rt_def s_def)
  have at: "jp_at json cfg d (c # s' @ r)" using assms(1) c by (simp flip: s_def)
  have "takeWhile (\<lambda>c. c \<noteq> 0) (s @ r) = s @ takeWhile (\<lambda>c. c \<noteq> 0) r"
    using assms(3) by (intro takeWhile_append2) (auto simp: number_rt_def s_def)
  then have "rest json 0 = s @ takeWhile (\<lambda>c. c \<noteq> 0) r" using rest_drop [of json] assms(1) by (auto simp: jp_at_def s_def)
  then have strtod: "fpconv_strtod (env_alloc E) (env_strtod E) (env_decimal_point E) (rest json 0) = Inr (n, length s)"
    using assms(3) takeWhile_follow [OF assms(2)] by (simp add: number_rt_def s_def)
  have "json_next_token E json = json_next_number_token E json"
    using skip_none(1) [OF at] digit_table [OF c(2)] c(2) assms(1,4) by (auto simp: json_next_token_def Let_def jp_at_def)
  then show ?thesis
    using strtod c(1) at_advance [of json cfg d s r "length s"] assms(1) by (simp add: json_next_number_token_def lift_sb_def s_def)
qed

subsection \<open>Values\<close>

text \<open>
  \<open>decodes E cfg d s v\<close>: at nesting depth \<open>d\<close>, whatever follows the text, the parser reads \<open>s\<close> as \<open>v\<close>.
\<close>

definition decodes :: "json_env \<Rightarrow> json_config \<Rightarrow> int \<Rightarrow> byte list \<Rightarrow> lua_value \<Rightarrow> bool" where
  "decodes E cfg d s v \<longleftrightarrow> (\<forall>json r f. jp_at json cfg d (s @ r) \<longrightarrow> follow r \<longrightarrow> 2 * length (s @ r) + 3 \<le> f \<longrightarrow>
     (\<exists>tok json1 json'. json_next_token E json = Inr (tok, json1) \<and> json_process_value f E json1 tok = Inr (v, json') \<and> jp_at json' cfg d r))"

lemma decodesD:
  assumes "decodes E cfg d s v" and "jp_at json cfg d (s @ r)" and "follow r" and "2 * length (s @ r) + 3 \<le> f"
  obtains tok json1 json' where "json_next_token E json = Inr (tok, json1)" "json_process_value f E json1 tok = Inr (v, json')" "jp_at json' cfg d r"
  using assms unfolding decodes_def by blast

lemma decodes_scalar:
  "str_reads body s \<Longrightarrow> decodes E cfg d (0x22 # body @ [0x22]) (LString s)"
  "decodes E cfg d (if b then [0x74, 0x72, 0x75, 0x65] else [0x66, 0x61, 0x6c, 0x73, 0x65]) (LBool b)"
  "number_rt E cfg n \<Longrightarrow> decode_invalid_numbers cfg \<noteq> 0 \<Longrightarrow> decodes E cfg d (g_text E cfg n) (LNumber n)"
proof -
  have ex: "decodes E cfg d x v" if "\<And>json r. jp_at json cfg d (x @ r) \<Longrightarrow> follow r \<Longrightarrow> \<exists>tok json'. json_next_token E json = Inr (tok, json') \<and>
      (\<forall>f. json_process_value (Suc f) E json' tok = Inr (v, json')) \<and> jp_at json' cfg d r" for x v
    unfolding decodes_def
  proof (intro allI impI)
    fix json r and f :: nat
    assume "jp_at json cfg d (x @ r)" "follow r" and f: "2 * length (x @ r) + 3 \<le> f"
    with that obtain tok json' where "json_next_token E json = Inr (tok, json')" "\<forall>f. json_process_value (Suc f) E json' tok = Inr (v, json')" "jp_at json' cfg d r" by blast
    moreover obtain g where "f = Suc g" using f by (cases f) auto
    ultimately show "\<exists>tok json1 json'. json_next_token E json = Inr (tok, json1) \<and> json_process_value f E json1 tok = Inr (v, json') \<and> jp_at json' cfg d r"
      by blast
  qed
  show "str_reads body s \<Longrightarrow> decodes E cfg d (0x22 # body @ [0x22]) (LString s)"
    by (rule ex) (use token_string_reads [of body s] in fastforce)
  show "decodes E cfg d (if b then [0x74, 0x72, 0x75, 0x65] else [0x66, 0x61, 0x6c, 0x73, 0x65]) (LBool b)"
    by (rule ex) (use token_bool [where b = b] in fastforce)
  show "number_rt E cfg n \<Longrightarrow> decode_invalid_numbers cfg \<noteq> 0 \<Longrightarrow> decodes E cfg d (g_text E cfg n) (LNumber n)"
    by (rule ex) (use token_number in fastforce)
qed

lemma token_of_value: "json_process_value f E json tok = Inr p \<Longrightarrow> tok_type tok \<noteq> T_ARR_END"
  by (cases f) auto

lemma follow_sep: "follow (sep True ss @ 0x5d # r)" "follow (sep True ss @ 0x7d # r)"
  by (cases ss; simp add: follow_def)+

lemma sep_True: "ss \<noteq> [] \<Longrightarrow> sep True ss = 0x2c # sep False ss"
  by (cases ss) auto

primrec put_all :: "lua_table \<Rightarrow> int \<Rightarrow> lua_value list \<Rightarrow> lua_table" where
  "put_all t i [] = t"
| "put_all t i (v # vs) = put_all (tset t (LNumber (dbl_of_int i)) v) (i + 1) vs"

lemma at_ascend: "jp_at json cfg d r \<Longrightarrow> jp_at (json_decode_ascend json) cfg (d - 1) r"
  by (auto simp: jp_at_def jp_inv_def json_decode_ascend_def)

lemma array_context:
  assumes "list_all2 (decodes E cfg d) ss vs" and "ss \<noteq> []" and "jp_at json cfg d (sep False ss @ 0x5d # r)"
    and "2 * length (sep False ss @ 0x5d # r) + 4 \<le> f" and "1 \<le> i" and "i + int (length ss) \<le> 2 ^ 31"
  shows "\<exists>tok json1 json'. json_next_token E json = Inr (tok, json1) \<and> tok_type tok \<noteq> T_ARR_END \<and>
    json_parse_array_context f E t i json1 tok = Inr (LTable (put_all t i vs), json') \<and> jp_at json' cfg (d - 1) r"
  using assms
proof (induction arbitrary: json f t i rule: list_all2_induct)
  case (Cons s ss v vs)
  obtain g where g: "f = Suc g" using Cons.prems(3) by (cases f) auto
  have at: "jp_at json cfg d (s @ (sep True ss @ 0x5d # r))" using Cons.prems(2) by simp
  have fuel: "2 * length (s @ (sep True ss @ 0x5d # r)) + 3 \<le> g" using Cons.prems(3) g by simp
  obtain tok json1 json2 where j: "json_next_token E json = Inr (tok, json1)" "json_process_value g E json1 tok = Inr (v, json2)"
    "jp_at json2 cfg d (sep True ss @ 0x5d # r)"
    by (rule decodesD [OF Cons.hyps(1) at follow_sep(1) fuel])
  show ?case
  proof (cases "ss = []")
    case True
    then have "vs = []" using Cons.hyps(2) by simp
    obtain tok2 json3 where "json_next_token E json2 = Inr (tok2, json3)" "tok_type tok2 = T_ARR_END" "jp_at json3 cfg d r"
      using token_punct [of json2 cfg d "0x5d" r T_ARR_END E] j(3) True by (auto simp: punct_def)
    then show ?thesis using j(1,2) g token_of_value [OF j(2)] at_ascend \<open>vs = []\<close> by simp
  next
    case False
    then have "jp_at json2 cfg d (0x2c # sep False ss @ 0x5d # r)" using j(3) by (simp add: sep_True)
    then obtain tok2 json3 where j3: "json_next_token E json2 = Inr (tok2, json3)" "tok_type tok2 = T_COMMA"
      "jp_at json3 cfg d (sep False ss @ 0x5d # r)" using token_punct [of json2 cfg d "0x2c" "sep False ss @ 0x5d # r" T_COMMA E] by (auto simp: punct_def)
    have "2 * length (sep False ss @ 0x5d # r) + 4 \<le> g" using fuel False by (simp add: sep_True)
    then obtain tok4 json4 json' where "json_next_token E json3 = Inr (tok4, json4)"
      "json_parse_array_context g E (tset t (LNumber (dbl_of_int i)) v) (i + 1) json4 tok4 =
         Inr (LTable (put_all (tset t (LNumber (dbl_of_int i)) v) (i + 1) vs), json')" "jp_at json' cfg (d - 1) r"
      using Cons.IH [OF False j3(3), of g "i + 1" "tset t (LNumber (dbl_of_int i)) v"] Cons.prems(4,5) by auto
    moreover have "lift_sb (int32 (i + 1)) = Inr (i + 1)"
      using Cons.prems(4,5) False by (cases ss) (simp_all add: lift_sb_def int32_ok)
    ultimately show ?thesis using j(1,2) j3(1,2) g token_of_value [OF j(2)] by simp
  qed
qed simp

text \<open>The entries of an object: key, text of the value, value.\<close>

type_synonym entry = "byte list \<times> byte list \<times> lua_value"

abbreviation entry_text :: "entry \<Rightarrow> byte list" where
  "entry_text e \<equiv> string_text (fst e) @ 0x3a # fst (snd e)"

primrec put_entries :: "lua_table \<Rightarrow> entry list \<Rightarrow> lua_table" where
  "put_entries t [] = t"
| "put_entries t (e # es) = put_entries (tset t (LString (fst e)) (snd (snd e))) es"

lemma object_context:
  assumes "\<forall>e \<in> set es. decodes E cfg d (fst (snd e)) (snd (snd e))" and "es \<noteq> []"
    and "jp_at json cfg d (sep False (map entry_text es) @ 0x7d # r)" and "2 * length (sep False (map entry_text es) @ 0x7d # r) + 4 \<le> f"
  shows "\<exists>tok json1 json'. json_next_token E json = Inr (tok, json1) \<and> tok_type tok \<noteq> T_OBJ_END \<and>
    json_parse_object_context f E t json1 tok = Inr (LTable (put_entries t es), json') \<and> jp_at json' cfg (d - 1) r"
  using assms
proof (induction es arbitrary: json f t)
  case (Cons e es)
  obtain k s v where e: "e = (k, s, v)" by (cases e) auto
  define more where "more = sep True (map entry_text es) @ 0x7d # r"
  obtain g where g: "f = Suc g" using Cons.prems(4) by (cases f) auto
  have "jp_at json cfg d (string_text k @ (0x3a # s @ more))" using Cons.prems(3) e by (simp add: more_def)
  then obtain tok json1 where j1: "json_next_token E json = Inr (tok, json1)" "tok_type tok = T_STRING" "tok_val tok = V_string k"
    "jp_at json1 cfg d (0x3a # s @ more)" using token_string by blast
  obtain tok2 json2 where j2: "json_next_token E json1 = Inr (tok2, json2)" "tok_type tok2 = T_COLON" "jp_at json2 cfg d (s @ more)"
    using token_punct [OF j1(4), of T_COLON E] by (auto simp: punct_def)
  have fuel: "2 * length (s @ more) + 3 \<le> g" using Cons.prems(4) g e by (simp add: more_def)
  have "decodes E cfg d s v" using Cons.prems(1) e by simp
  then obtain tok3 json3 json4 where j3: "json_next_token E json2 = Inr (tok3, json3)" "json_process_value g E json3 tok3 = Inr (v, json4)"
    "jp_at json4 cfg d more"
    using decodesD [OF _ j2(3) follow_sep(2) [of "map entry_text es" r, folded more_def] fuel] by blast
  show ?case
  proof (cases "es = []")
    case True
    then obtain tok5 json5 where "json_next_token E json4 = Inr (tok5, json5)" "tok_type tok5 = T_OBJ_END" "jp_at json5 cfg d r"
      using token_punct [of json4 cfg d "0x7d" r T_OBJ_END E] j3(3) by (auto simp: punct_def more_def)
    then show ?thesis using j1 j2 j3 g e True at_ascend by (simp add: Let_def)
  next
    case False
    then have "jp_at json4 cfg d (0x2c # sep False (map entry_text es) @ 0x7d # r)" using j3(3) by (simp add: sep_True more_def)
    then obtain tok5 json5 where j5: "json_next_token E json4 = Inr (tok5, json5)" "tok_type tok5 = T_COMMA"
      "jp_at json5 cfg d (sep False (map entry_text es) @ 0x7d # r)"
      using token_punct [of json4 cfg d "0x2c" "sep False (map entry_text es) @ 0x7d # r" T_COMMA E] by (auto simp: punct_def)
    have "2 * length (sep False (map entry_text es) @ 0x7d # r) + 4 \<le> g" using fuel False by (simp add: sep_True more_def)
    then obtain tok6 json6 json' where "json_next_token E json5 = Inr (tok6, json6)"
      "json_parse_object_context g E (tset t (LString k) v) json6 tok6 = Inr (LTable (put_entries (tset t (LString k) v) es), json')"
      "jp_at json' cfg (d - 1) r"
      using Cons.IH [OF _ False j5(3)] Cons.prems(1) by fastforce
    then show ?thesis using j1 j2 j3 j5 g e by (simp add: Let_def)
  qed
qed simp

text \<open>Going into a table and out of it.\<close>

lemma descend_at:
  assumes "jp_at json cfg d r" and "d + 1 \<le> decode_max_depth cfg" and "env_checkstack E (d + 1)"
  shows "\<exists>json'. json_decode_descend E json = Inr json' \<and> jp_at json' cfg (d + 1) r"
  using assms by (auto simp: json_decode_descend_def Let_def jp_at_def jp_inv_def)

lemma decodes_array:
  assumes "list_all2 (decodes E cfg (d + 1)) ss vs" and "ss \<noteq> []" and "d + 1 \<le> decode_max_depth cfg" and "env_checkstack E (d + 1)"
    and "int (length ss) < 2 ^ 31"
  shows "decodes E cfg d (0x5b # sep False ss @ [0x5d]) (LTable (put_all [] 1 vs))"
  unfolding decodes_def
proof (intro allI impI)
  fix json r and f :: nat
  assume at: "jp_at json cfg d ((0x5b # sep False ss @ [0x5d]) @ r)" and f: "2 * length ((0x5b # sep False ss @ [0x5d]) @ r) + 3 \<le> f"
  obtain tok json1 where j1: "json_next_token E json = Inr (tok, json1)" "tok_type tok = T_ARR_BEGIN" "jp_at json1 cfg d (sep False ss @ 0x5d # r)"
    using token_punct [of json cfg d "0x5b" "sep False ss @ 0x5d # r" T_ARR_BEGIN E] at by (auto simp: punct_def)
  obtain json2 where j2: "json_decode_descend E json1 = Inr json2" "jp_at json2 cfg (d + 1) (sep False ss @ 0x5d # r)"
    using descend_at [OF j1(3) assms(3,4)] by blast
  obtain g where g: "f = Suc g" using f by (cases f) auto
  then have "2 * length (sep False ss @ 0x5d # r) + 4 \<le> g" using f by simp
  then obtain tok3 json3 json' where "json_next_token E json2 = Inr (tok3, json3)" "tok_type tok3 \<noteq> T_ARR_END"
    "json_parse_array_context g E [] 1 json3 tok3 = Inr (LTable (put_all [] 1 vs), json')" "jp_at json' cfg (d + 1 - 1) r"
    using array_context [OF assms(1,2) j2(2), of g 1 "[]"] assms(5) by auto
  then show "\<exists>tok json1 json'. json_next_token E json = Inr (tok, json1) \<and>
      json_process_value f E json1 tok = Inr (LTable (put_all [] 1 vs), json') \<and> jp_at json' cfg d r"
    using j1 j2 g by simp
qed

lemma decodes_object:
  assumes "\<forall>e \<in> set es. decodes E cfg (d + 1) (fst (snd e)) (snd (snd e))" and "d + 1 \<le> decode_max_depth cfg" and "env_checkstack E (d + 1)"
  shows "decodes E cfg d (0x7b # sep False (map entry_text es) @ [0x7d]) (LTable (put_entries [] es))"
  unfolding decodes_def
proof (intro allI impI)
  fix json r and f :: nat
  assume at: "jp_at json cfg d ((0x7b # sep False (map entry_text es) @ [0x7d]) @ r)"
    and f: "2 * length ((0x7b # sep False (map entry_text es) @ [0x7d]) @ r) + 3 \<le> f"
  obtain tok json1 where j1: "json_next_token E json = Inr (tok, json1)" "tok_type tok = T_OBJ_BEGIN" "jp_at json1 cfg d (sep False (map entry_text es) @ 0x7d # r)"
    using token_punct [of json cfg d "0x7b" "sep False (map entry_text es) @ 0x7d # r" T_OBJ_BEGIN E] at by (auto simp: punct_def)
  obtain json2 where j2: "json_decode_descend E json1 = Inr json2" "jp_at json2 cfg (d + 1) (sep False (map entry_text es) @ 0x7d # r)"
    using descend_at [OF j1(3) assms(2,3)] by blast
  obtain g where g: "f = Suc g" using f by (cases f) auto
  show "\<exists>tok json1 json'. json_next_token E json = Inr (tok, json1) \<and>
      json_process_value f E json1 tok = Inr (LTable (put_entries [] es), json') \<and> jp_at json' cfg d r"
  proof (cases "es = []")
    case True
    then obtain tok3 json3 where "json_next_token E json2 = Inr (tok3, json3)" "tok_type tok3 = T_OBJ_END" "jp_at json3 cfg (d + 1) r"
      using token_punct [of json2 cfg "d + 1" "0x7d" r T_OBJ_END E] j2(2) by (auto simp: punct_def)
    then show ?thesis using j1 j2 g True at_ascend [of json3 cfg "d + 1" r] by simp
  next
    case False
    have "2 * length (sep False (map entry_text es) @ 0x7d # r) + 4 \<le> g" using f g by simp
    then obtain tok3 json3 json' where "json_next_token E json2 = Inr (tok3, json3)" "tok_type tok3 \<noteq> T_OBJ_END"
      "json_parse_object_context g E [] json3 tok3 = Inr (LTable (put_entries [] es), json')" "jp_at json' cfg (d + 1 - 1) r"
      using object_context [OF assms(1) False j2(2)] by blast
    then show ?thesis using j1 j2 g by simp
  qed
qed

subsection \<open>Tables\<close>

definition put_table :: "lua_table \<Rightarrow> lua_table \<Rightarrow> lua_table" where
  "put_table t u = foldl (\<lambda>t e. tset t (fst e) (snd e)) t u"

lemma put_table_wf: "table_wf (t @ u) \<Longrightarrow> put_table t u = t @ u"
proof (induction u arbitrary: t)
  case (Cons e u)
  have "tset t (fst e) (snd e) = t @ [e]"
    using Cons.prems by (subst tset_fresh) (auto simp: table_wf_def sorted_wrt_append)
  then show ?case using Cons.IH [of "t @ [e]"] Cons.prems by (simp add: put_table_def)
qed (simp add: put_table_def)

lemma put_all_table: "put_all t i vs = put_table t (zip (map (\<lambda>j. LNumber (dbl_of_int (i + int j))) [0..<length vs]) vs)"
proof (induction vs arbitrary: t i)
  case (Cons v vs)
  have "map (\<lambda>j. LNumber (dbl_of_int (i + int j))) [0..<length (v # vs)] =
      LNumber (dbl_of_int i) # map (\<lambda>j. LNumber (dbl_of_int (i + 1 + int j))) [0..<length vs]"
    by (simp add: upt_conv_Cons map_Suc_upt [symmetric] algebra_simps del: upt_Suc)
  then show ?case using Cons.IH [of "tset t (LNumber (dbl_of_int i)) v" "i + 1"] by (simp add: put_table_def)
qed (simp add: put_table_def)

lemma put_entries_table: "put_entries t es = put_table t (map (\<lambda>e. (LString (fst e), snd (snd e))) es)"
  by (induction es arbitrary: t) (simp_all add: put_table_def)

lemma dbl_positive:
  assumes "dbl_trunc k = Some z" and "0 < z"
  shows "\<not> dbl_sign k" and "dbl_mag k \<noteq> 0"
proof -
  show "\<not> dbl_sign k" using assms by (auto simp: dbl_trunc_def Let_def split: if_splits prod.splits)
  show "dbl_mag k \<noteq> 0" using assms by (auto simp: dbl_trunc_def Let_def ieee_unpack_def split: if_splits)
qed

lemma array_scan_proper:
  assumes "map fst t = map (\<lambda>j. LNumber (dbl_of_int (i + int j))) [0..<length t]" and "1 \<le> i" and "i + int (length t) \<le> 2 ^ 31"
  shows "array_scan t (i - 1) (i - 1) = Inr (Some (i - 1 + int (length t), i - 1 + int (length t)))"
  using assms
proof (induction t arbitrary: i)
  case (Cons e t)
  have keys: "map (\<lambda>j. LNumber (dbl_of_int (i + int j))) [0..<length (e # t)] =
      LNumber (dbl_of_int i) # map (\<lambda>j. LNumber (dbl_of_int (i + 1 + int j))) [0..<length t]"
    by (simp add: upt_conv_Cons map_Suc_upt [symmetric] algebra_simps del: upt_Suc)
  obtain v where e: "e = (LNumber (dbl_of_int i), v)" using Cons.prems(1) keys by (cases e) auto
  have i: "\<bar>i\<bar> < 2 ^ 53" using Cons.prems(2,3) by simp
  note ex = dbl_of_int_exact [OF i]
  have "dbl_mag (dbl_of_int i) \<noteq> 0" "dbl_floor_eq (dbl_of_int i)" "\<not> dbl_neg (dbl_of_int i)"
    using dbl_positive [OF ex(1)] ex(2) Cons.prems(2) by (auto simp: dbl_floor_eq_def dbl_neg_def)
  moreover have "int32 i = Inr i" "int32 (i - 1 + 1) = Inr i" using Cons.prems(2,3) by (simp_all add: int32_ok)
  moreover have "array_scan t i i = Inr (Some (i + int (length t), i + int (length t)))"
    using Cons.IH [of "i + 1"] Cons.prems keys by simp
  ultimately show ?case using e ex(1) by simp
qed simp

lemma proper_array_size:
  assumes "proper_array t" and "int (length t) < 2 ^ 31 - 1" and "int (length t) * encode_sparse_ratio cfg < 2 ^ 31"
  shows "array_size cfg t = Some (int (length t))"
proof -
  have "array_scan t 0 0 = Inr (Some (int (length t), int (length t)))"
    using array_scan_proper [of t 1] assms(1,2) by (simp add: proper_array_def add.commute)
  moreover have "\<not> int (length t) > int (length t) * encode_sparse_ratio cfg" if "encode_sparse_ratio cfg > 0"
  proof -
    have "int (length t) * 1 \<le> int (length t) * encode_sparse_ratio cfg" using that by (intro mult_left_mono) auto
    then show ?thesis by simp
  qed
  ultimately show ?thesis using assms(2,3) by (auto simp: array_size_def)
qed

lemma proper_array_get:
  assumes "proper_array t" and "table_wf t" and "int (length t) < 2 ^ 31"
  shows "map (\<lambda>i. lua_gettable t (LNumber (dbl_of_int i))) [1..int (length t)] = map snd t"
proof (rule nth_equalityI)
  fix j
  assume "j < length (map (\<lambda>i. lua_gettable t (LNumber (dbl_of_int i))) [1..int (length t)])"
  then have j: "j < length t" by simp
  have "fst (t ! j) = LNumber (dbl_of_int (int j + 1))"
    using assms(1) j unfolding proper_array_def by (metis (no_types, lifting) add.left_neutral length_map length_upt minus_nat.diff_0 nth_map nth_upt)
  then have "(LNumber (dbl_of_int (int j + 1)), snd (t ! j)) \<in> set t" using j by (metis nth_mem prod.collapse)
  moreover have "lua_keyeq (LNumber (dbl_of_int (int j + 1))) (LNumber (dbl_of_int (int j + 1)))"
    using dbl_of_int_exact(3) [of "int j + 1"] j assms(3) by (simp add: dbl_eq_def)
  ultimately have "lua_gettable t (LNumber (dbl_of_int (int j + 1))) = snd (t ! j)"
    using assms(2) by (intro lua_gettable_entry) (auto simp: table_wf_def)
  then show "map (\<lambda>i. lua_gettable t (LNumber (dbl_of_int i))) [1..int (length t)] ! j = map snd t ! j"
    using j by (simp add: add.commute)
qed simp

lemma string_keys_size:
  assumes "t \<noteq> []" and "\<forall>e \<in> set t. \<exists>s. fst e = LString s"
  shows "array_size cfg t = Some (-1)"
proof -
  obtain s v u where "t = (LString s, v) # u" using assms by (cases t; cases "hd t") auto
  then show ?thesis by (simp add: array_size_def)
qed

lemma those_ok: "(\<And>x. x \<in> set xs \<Longrightarrow> f x = Some (g x)) \<Longrightarrow> those (map f xs) = Some (map g xs)"
  by (induction xs) auto

subsection \<open>The round trip\<close>

text \<open>
  Values that survive: booleans, strings, numbers that \<open>strtod\<close> reads back, and tables, nested no deeper than both
  limits allow, that are arrays or have only string keys. The array must not be so long that the test for
  sparse arrays overflows.
\<close>

fun jrt :: "json_env \<Rightarrow> json_config \<Rightarrow> int \<Rightarrow> lua_value \<Rightarrow> bool" where
  "jrt E cfg d (LBool b) = True"
| "jrt E cfg d (LString s) = True"
| "jrt E cfg d (LNumber n) = number_rt E cfg n"
| "jrt E cfg d (LTable t) = (d + 1 \<le> encode_max_depth cfg \<and> d + 1 \<le> decode_max_depth cfg \<and> env_checkstack E (d + 1) \<and> table_wf t \<and>
     (proper_array t \<and> int (length t) < 2 ^ 31 - 1 \<and> int (length t) * encode_sparse_ratio cfg < 2 ^ 31 \<or>
      (\<forall>e \<in> set t. case fst e of LString _ \<Rightarrow> True | _ \<Rightarrow> False)) \<and>
     (\<forall>e \<in> set t. jrt E cfg (d + 1) (snd e)))"
| "jrt E cfg d _ = False"

lemma string_value: "(case v of LString _ \<Rightarrow> True | _ \<Rightarrow> False) \<Longrightarrow> \<exists>s. v = LString s"
  by (cases v) auto

lemma esc_text_nonzero: "0 \<notin> set (esc_text c)"
proof (cases rule: esc_cases [of c])
  case (short x)
  then show ?thesis using escape_table_0 [of x] by auto
next
  case (unicode h1 h2)
  then have "h1 \<noteq> 0" "h2 \<noteq> 0" using hexdigit_range(2) by auto
  then show ?thesis using unicode by simp
qed auto

lemma string_text_nonzero: "0 \<notin> set (string_text s)"
  using esc_text_nonzero by (auto simp: string_text_def)

lemma sep_nonzero: "(\<forall>s \<in> set ss. 0 \<notin> set s) \<Longrightarrow> 0 \<notin> set (sep comma ss)"
  by (induction comma ss rule: sep.induct) auto

definition rt_text :: "json_env \<Rightarrow> json_config \<Rightarrow> int \<Rightarrow> lua_value \<Rightarrow> byte list \<Rightarrow> bool" where
  "rt_text E cfg d v s \<longleftrightarrow> json_text E cfg d v = Some s \<and> decodes E cfg d s v \<and> 0 \<notin> set s"

lemma rt_array:
  assumes "proper_array t" and "table_wf t" and "t \<noteq> []" and "int (length t) < 2 ^ 31 - 1" and "int (length t) * encode_sparse_ratio cfg < 2 ^ 31"
    and "d + 1 \<le> encode_max_depth cfg" and "d + 1 \<le> decode_max_depth cfg" and "env_checkstack E (d + 1)"
    and "\<And>e. e \<in> set t \<Longrightarrow> rt_text E cfg (d + 1) (snd e) (g e)"
  shows "rt_text E cfg d (LTable t) (0x5b # sep False (map g t) @ [0x5d])"
proof -
  have "those (map (\<lambda>i. json_text E cfg (d + 1) (lua_gettable t (LNumber (dbl_of_int i)))) [1..int (length t)]) =
      those (map (json_text E cfg (d + 1)) (map snd t))"
  proof -
    have "map (\<lambda>i. json_text E cfg (d + 1) (lua_gettable t (LNumber (dbl_of_int i)))) [1..int (length t)] =
        map (json_text E cfg (d + 1)) (map (\<lambda>i. lua_gettable t (LNumber (dbl_of_int i))) [1..int (length t)])" by simp
    also have "\<dots> = map (json_text E cfg (d + 1)) (map snd t)" using proper_array_get [OF assms(1,2)] assms(4) by simp
    finally show ?thesis by (rule arg_cong)
  qed
  also have "\<dots> = Some (map g t)"
    using assms(9) by (simp add: those_ok rt_text_def comp_def)
  finally have tx: "json_text E cfg d (LTable t) = Some (0x5b # sep False (map g t) @ [0x5d])"
    using proper_array_size [OF assms(1,4,5)] assms(3,6,8) by (simp add: json_text.simps [of E cfg d])
  have all: "list_all2 (decodes E cfg (d + 1)) (map g t) (map snd t)"
    using assms(9) by (auto simp: list_all2_conv_all_nth rt_text_def)
  have "zip (map (\<lambda>j. LNumber (dbl_of_int (1 + int j))) [0..<length (map snd t)]) (map snd t) = t"
    using assms(1) unfolding proper_array_def by (simp add: add.commute) (metis zip_map_fst_snd)
  then have "put_all [] 1 (map snd t) = t" using put_table_wf [of "[]" t] assms(2) by (simp add: put_all_table)
  then have "decodes E cfg d (0x5b # sep False (map g t) @ [0x5d]) (LTable t)"
    using decodes_array [OF all _ assms(7,8)] assms(3,4) by simp
  then show ?thesis using tx assms(9) sep_nonzero [of "map g t" False] by (auto simp: rt_text_def)
qed

lemma rt_object:
  assumes "\<forall>e \<in> set t. \<exists>s. fst e = LString s" and "table_wf t"
    and "d + 1 \<le> encode_max_depth cfg" and "d + 1 \<le> decode_max_depth cfg" and "env_checkstack E (d + 1)"
    and "\<And>e. e \<in> set t \<Longrightarrow> rt_text E cfg (d + 1) (snd e) (g e)"
  shows "\<exists>s. rt_text E cfg d (LTable t) s"
proof -
  define key where "key e = (case fst e of LString s \<Rightarrow> s | _ \<Rightarrow> [])" for e :: "lua_value \<times> lua_value"
  have key: "e \<in> set t \<Longrightarrow> fst e = LString (key e)" for e using assms(1) by (fastforce simp: key_def)
  define es where "es = map (\<lambda>e. (key e, g e, snd e)) t"
  have "\<exists>n. array_size cfg t = Some n \<and> \<not> n > 0"
    using string_keys_size [OF _ assms(1)] by (cases "t = []") (auto simp: array_size_def)
  moreover have "those (map (\<lambda>(k, v). case key_text E cfg k of None \<Rightarrow> None
        | Some ks \<Rightarrow> map_option (\<lambda>vs. ks @ 0x3a # vs) (json_text E cfg (d + 1) v)) t) = Some (map entry_text es)"
    using key assms(6) by (simp add: es_def comp_def) (rule those_ok, auto simp: rt_text_def split_beta)
  ultimately have tx: "json_text E cfg d (LTable t) = Some (0x7b # sep False (map entry_text es) @ [0x7d])"
    using assms(3,5) by (auto simp: json_text.simps [of E cfg d])
  have "map (\<lambda>e. (LString (fst e), snd (snd e))) es = t"
    using key by (auto simp: es_def comp_def intro!: map_idI)
  then have "put_entries [] es = t" using put_table_wf [of "[]" t] assms(2) by (simp add: put_entries_table)
  moreover have "\<forall>e \<in> set es. decodes E cfg (d + 1) (fst (snd e)) (snd (snd e))" using assms(6) by (auto simp: es_def rt_text_def)
  ultimately have "decodes E cfg d (0x7b # sep False (map entry_text es) @ [0x7d]) (LTable t)"
    using decodes_object [of es E cfg d] assms(4,5) by simp
  moreover have "0 \<notin> set (sep False (map entry_text es))"
    using assms(6) string_text_nonzero by (intro sep_nonzero) (auto simp: es_def rt_text_def)
  ultimately show ?thesis using tx by (auto simp: rt_text_def)
qed

lemma rt_scalar:
  "rt_text E cfg d (LBool b) (if b then [0x74, 0x72, 0x75, 0x65] else [0x66, 0x61, 0x6c, 0x73, 0x65])"
  "rt_text E cfg d (LString s) (string_text s)"
  "number_rt E cfg n \<Longrightarrow> decode_invalid_numbers cfg \<noteq> 0 \<Longrightarrow> rt_text E cfg d (LNumber n) (g_text E cfg n)"
  using decodes_scalar(2) [of E cfg d b] decodes_scalar(1) [OF str_reads_text, of E cfg d s, folded string_text_def] decodes_scalar(3) [of E cfg n d] string_text_nonzero [of s]
  by (auto simp: rt_text_def json_text.simps number_text_def number_rt_def)

lemma jrt_text: "jrt E cfg d v \<Longrightarrow> decode_invalid_numbers cfg \<noteq> 0 \<Longrightarrow> \<exists>s. rt_text E cfg d v s"
proof (induction E cfg d v rule: jrt.induct)
  case (4 E cfg d t)
  then have "\<forall>e \<in> set t. \<exists>s. rt_text E cfg (d + 1) (snd e) s" by auto
  then obtain g where g: "\<And>e. e \<in> set t \<Longrightarrow> rt_text E cfg (d + 1) (snd e) (g e)" by metis
  show ?case
  proof (cases "t \<noteq> [] \<and> proper_array t \<and> int (length t) < 2 ^ 31 - 1 \<and> int (length t) * encode_sparse_ratio cfg < 2 ^ 31")
    case True
    then show ?thesis using rt_array [of t cfg d E g] g 4 by auto
  next
    case False
    then have "\<forall>e \<in> set t. case fst e of LString _ \<Rightarrow> True | _ \<Rightarrow> False" using 4 by auto
    then have "\<forall>e \<in> set t. \<exists>s. fst e = LString s" using string_value by blast
    then show ?thesis using rt_object [of t d cfg E g] g 4 by auto
  qed
qed (use rt_scalar in \<open>fastforce+\<close>)

end
