(* ===== verification/Json_Module.thy ===== *)
theory Json_Module
  imports Json_Roundtrip
begin

text \<open>
  The JSON module as a whole: the round trip, sequences of calls of its functions, and the inputs on which the
  encoder fails.
\<close>

lemma token_end:
  assumes "jp_at json cfg d []"
  shows "\<exists>tok json'. json_next_token E json = Inr (tok, json') \<and> tok_type tok = T_END"
proof -
  have "peek json 0 = Inr 0" using assms by (auto simp: jp_at_def jp_inv_def peek_def)
  then have "skip_whitespace json = Inr (0, T_END, json)"
    using assms token_table_0 by (subst skip_whitespace.simps) (auto simp: jp_at_def jp_inv_def tables_ok_def Let_def)
  then show ?thesis by (simp add: json_next_token_def Let_def)
qed

lemma json_decode_decodes:
  assumes "tables_ok cfg" and "\<forall>n. env_alloc E n" and dec: "decodes E cfg 0 s v" and nz: "0 \<notin> set s" and "length s < 2 ^ 30"
  shows "json_decode E cfg [LString s] = Inr v"
proof -
  obtain t where t: "strbuf_new (env_alloc E) (env_junk E) (int (length s)) = Inr t" "sb_inv t" "sb_dynamic t" "int (length s) < sb_size t"
  proof -
    have "env_alloc E = (\<lambda>_. True)" using assms(2) by auto
    then have "strbuf_new (env_alloc E) (env_junk E) (int (length s)) \<noteq> Inl Die"
      using strbuf_init_ok [of "int (length s)" "env_junk E"] assms(5) by (auto simp: strbuf_new_def)
    then show thesis using strbuf_new_any [of "int (length s)" "env_alloc E" "env_junk E"] assms(5) that by auto
  qed
  define json where "json = \<lparr>jp_data = s, jp_ptr = 0, jp_tmp = t, jp_cfg = cfg, jp_depth = 0\<rparr>"
  have at: "jp_at json cfg 0 (s @ [])" using t assms(1) by (simp add: json_def jp_at_def jp_inv_def)
  obtain tok json1 json' where j: "json_next_token E json = Inr (tok, json1)" "json_process_value (2 * length s + 3) E json1 tok = Inr (v, json')" "jp_at json' cfg 0 []"
    by (rule decodesD [OF dec at, of "2 * length s + 3"]) (auto simp: follow_def)
  have nz: "s ! i \<noteq> 0" if "i < length s" for i using assms(4) that by (metis nth_mem)
  have "\<not> (2 \<le> length s \<and> (s ! 0 = 0 \<or> s ! 1 = 0))" using nz [of 0] nz [of 1] by linarith
  moreover have "to_int32 (int (length s)) = int (length s)" using assms(5) by (simp add: to_int32_def)
  ultimately show ?thesis
    using j t(1) token_end [OF j(3), of E] by (auto simp: json_decode_def checklstring_def lift_sb_def simp flip: json_def)
qed

lemma json_decode_text:
  assumes "tables_ok cfg" and "\<forall>n. env_alloc E n" and "rt_text E cfg 0 v s" and "length s < 2 ^ 30"
  shows "json_decode E cfg [LString s] = Inr v"
  using json_decode_decodes [OF assms(1,2)] assms(3,4) by (simp add: rt_text_def)

subsection \<open>Sequences of calls\<close>








text \<open>
  \<open>encode\<close> and \<open>decode\<close> of the module \<open>cjson.safe\<close>: an error of the protected function becomes the two results \<open>nil\<close> and the
  message, here \<open>Inl\<close> of the message. An exception that is no Lua error is not caught by \<open>lua_pcall\<close>.
\<close>

definition json_protect_conversion :: "(json_config \<Rightarrow> lua_value list \<Rightarrow> json_call) \<Rightarrow> json_config \<Rightarrow> lua_value list \<Rightarrow>
    (json_exc + json_msg + lua_value list) \<times> json_config" where
  "json_protect_conversion f cfg args =
     (if length args \<noteq> 1 then (Inl (Raise (Arg_error 1 ''expected 1 argument'') None), cfg)
      else case f cfg args of
        (Inr vs, cfg) \<Rightarrow> (Inr (Inr vs), cfg)
      | (Inl (Raise m _), cfg) \<Rightarrow> (Inr (Inl m), cfg)
      | (Inl e, cfg) \<Rightarrow> (Inl e, cfg))"

lemma protect_keeps:
  "keeps (f cfg [v]) \<Longrightarrow> case json_protect_conversion f cfg [v] of
     (Inr _, cfg') \<Rightarrow> cfg_inv cfg' | (Inl e, _) \<Rightarrow> e = Fault Die \<or> e = Fault Sb_Overflow"
  by (auto simp: json_protect_conversion_def keeps_def benign_def split: prod.splits sum.splits json_exc.splits)

subsection \<open>Strings that are too long\<close>

text \<open>Characters that are written as they are fill the block and then leave it.\<close>

lemma plain_loop_overflow:
  assumes "sb_buf json = Some b" and "int (length b) = sb_size json" and "0 \<le> sb_length json" and "sb_length json \<le> sb_size json"
    and "sb_size json < sb_length json + int (length s)" and "\<forall>c \<in> set s. char2escape c = None"
    and "0 \<le> i" and "i + int (length s) < 2 ^ 31" and "sb_size json < 2 ^ 31"
  shows "json_append_string_loop E i s json = Inl (Fault Sb_Bounds)"
  using assms
proof (induction s arbitrary: json b i)
  case (Cons c s)
  show ?case
  proof (cases "sb_length json = sb_size json")
    case True
    then have "length b < nat (sb_length json) + 1" using Cons.prems(2) by linarith
    then have "buf_write json (sb_length json) [c] = Inl Sb_Bounds"
      using Cons.prems(1,3) by (simp add: buf_write_def block_write_def)
    then show ?thesis using Cons.prems(6) by (simp add: append_char_unsafe_def strbuf_append_char_unsafe_def lift_sb_def)
  next
    case False
    then have n: "nat (sb_length json) + 1 \<le> length b" using Cons.prems(2-4) by linarith
    define b' where "b' = take (nat (sb_length json)) b @ [c] @ drop (nat (sb_length json) + 1) b"
    define json' where "json' = json\<lparr>sb_buf := Some b', sb_length := sb_length json + 1\<rparr>"
    have "append_char_unsafe c json = Inr json'"
      using Cons.prems(1,3,4,9) n False
      by (simp add: append_char_unsafe_def strbuf_append_char_unsafe_def buf_write_def block_write_in strbuf_extend_length_def int32_ok lift_sb_def json'_def b'_def)
    moreover have "int32 (i + 1) = Inr (i + 1)" using Cons.prems(7,8) by (intro int32_ok) auto
    moreover have "length b' = length b" using n by (simp add: b'_def)
    then have "json_append_string_loop E (i + 1) s json' = Inl (Fault Sb_Bounds)"
      using Cons.prems False by (intro Cons.IH [of json' b']) (auto simp: json'_def)
    ultimately show ?thesis using Cons.prems(6) by (simp add: lift_sb_def)
  qed
qed simp

lemma long_string_leaves_block:
  assumes "sb_inv json" and "357913942 \<le> length s" and "length s < 715827882" and "\<forall>c \<in> set s. char2escape c = None"
    and "sb_size json \<le> int (length s)"
  shows "json_append_string E s json = Inl (Fault Sb_Bounds)"
proof -
  define n where "n = to_int32 (int (length s) * 6 + 2)"
  have "n = int (length s) * 6 + 2 - 2 ^ 32"
  proof -
    have "(int (length s) * 6 + 2 + 2 ^ 31) mod 2 ^ 32 = (int (length s) * 6 + 2 + 2 ^ 31) - 2 ^ 32"
      using assms(2,3) by (subst mod_pos_geq) (auto simp: mod_pos_pos_trivial)
    then show ?thesis by (simp add: n_def to_int32_def)
  qed
  then have "n < 0" using assms(3) by simp
  then have "ensure_empty_length E n json = Inr json"
    using assms(1) empty_length_ok [OF assms(1)] by (simp add: ensure_empty_length_def strbuf_ensure_empty_length_def lift_sb_def sb_inv_def)
  moreover have inv: "sb_size json < 2 ^ 31" "0 \<le> sb_length json" "sb_length json < sb_size json"
    using assms(1) by (auto simp: sb_inv_def)
  moreover have "sb_length json + int (length [0x22 :: byte]) \<le> sb_size json" using inv by simp
  obtain b where b: "sb_buf json = Some b" "int (length b) = sb_size json" using assms(1) by (rule sb_invE)
  define b' where "b' = take (nat (sb_length json)) b @ [0x22] @ drop (nat (sb_length json) + 1) b"
  define json' where "json' = json\<lparr>sb_buf := Some b', sb_length := sb_length json + 1\<rparr>"
  have "nat (sb_length json) + 1 \<le> length b" using inv b(2) by linarith
  then have "append_char_unsafe 0x22 json = Inr json'" "length b' = length b"
    using b inv by (simp_all add: append_char_unsafe_def strbuf_append_char_unsafe_def buf_write_def block_write_in strbuf_extend_length_def int32_ok lift_sb_def json'_def b'_def)
  moreover have "json_append_string_loop E 0 s json' = Inl (Fault Sb_Bounds)"
    using b inv assms(3-5) \<open>length b' = length b\<close> by (intro plain_loop_overflow [of json' b']) (auto simp: json'_def)
  ultimately show ?thesis by (simp add: json_append_string_def flip: n_def)
qed

subsection \<open>Properties\<close>

text \<open>An environment for the examples: every number is printed as 1.\<close>

definition sample_env :: json_env where
  "sample_env = \<lparr>env_alloc = (\<lambda>_. True), env_junk = 0, env_snprintf = (\<lambda>_ _. [0x31]),
     env_strtod = (\<lambda>s. case s of [] \<Rightarrow> (0, 0) | c # _ \<Rightarrow> if c = 0x31 then (dbl_of_int 1, 1) else (0, 0)),
     env_decimal_point = 0x2e, env_checkstack = (\<lambda>_. True), env_tostring = (\<lambda>_. [0x31]), env_checkinteger = (\<lambda>_. None)\<rparr>"

lemma sample_laws: "g_fmt_law sample_env" "strtod_law sample_env" "\<forall>n. env_alloc sample_env n"
  by (auto simp: sample_env_def g_fmt_law_def FPCONV_G_FMT_BUFSIZE_def strtod_law_def split: list.splits)

lemma sample_config:
  "\<exists>cfg. json_create_config sample_env = Inr cfg \<and> cfg_inv cfg \<and> encode_max_depth cfg = 1000 \<and> decode_max_depth cfg = 1000 \<and>
    decode_invalid_numbers cfg = 1 \<and> encode_sparse_ratio cfg = 2"
proof -
  obtain b where "strbuf_init (\<lambda>_. True) 0 0 = Inr b" using strbuf_init_ok [of 0 0] by auto
  then obtain cfg where "json_create_config sample_env = Inr cfg" "encode_max_depth cfg = 1000" "decode_max_depth cfg = 1000"
    "decode_invalid_numbers cfg = 1" "encode_sparse_ratio cfg = 2"
    by (simp add: json_create_config_def sample_env_def lift_sb_def)
  then show ?thesis using create_config_ok [of sample_env] by auto
qed

lemma sample_number: "cfg_inv cfg \<Longrightarrow> number_rt sample_env cfg (dbl_of_int 1)"
  using dbl_of_int_exact(3,4) [of 1]
  by (auto simp: number_rt_def g_text_def fpconv_strtod_def sample_env_def)

definition sample_value :: lua_value where
  "sample_value = LTable [(LString [0x61, 0x00, 0x22], LTable [(LNumber (dbl_of_int 1), LBool True), (LNumber (dbl_of_int 2), LNumber (dbl_of_int 1))]),
     (LString [], LTable [])]"

lemma sample_jrt:
  assumes "cfg_inv cfg" and "encode_max_depth cfg = 1000" and "decode_max_depth cfg = 1000" and "encode_sparse_ratio cfg = 2"
  shows "jrt sample_env cfg 0 sample_value"
proof -
  have "\<not> dbl_is_nan (dbl_of_int 1)" "\<not> dbl_is_nan (dbl_of_int 2)" using dbl_of_int_exact(3) by simp_all
  moreover have "dbl_of_int 1 \<noteq> dbl_of_int 2" using dbl_of_int_inj [of 1 2] by simp
  moreover have "dbl_mag (dbl_of_int 1) \<noteq> 0" using dbl_positive(2) [OF dbl_of_int_exact(1) [of 1]] by simp
  ultimately show ?thesis
    using assms sample_number [OF assms(1)]
    by (simp add: sample_value_def table_wf_def proper_array_def dbl_eq_def sample_env_def)
qed

lemmas json_text_cases = json_text.simps [of _ _ _ "LBool b" for b] json_text.simps [of _ _ _ "LString s" for s]
  json_text.simps [of _ _ _ "LNumber n" for n] json_text.simps [of _ _ _ "LTable t" for t]

lemma sample_text:
  assumes "cfg_inv cfg" and "encode_max_depth cfg = 1000" and "encode_sparse_ratio cfg = 2"
  shows "\<exists>s. json_text sample_env cfg 0 sample_value = Some s \<and> length s = 28"
proof -
  have num: "\<not> dbl_is_nan (dbl_of_int 1)" "\<not> dbl_is_inf (dbl_of_int 1)" "\<not> dbl_is_nan (dbl_of_int 2)"
    using dbl_of_int_exact(3,4) by simp_all
  have "dbl_of_int 1 \<noteq> dbl_of_int 2" using dbl_of_int_inj [of 1 2] by simp
  moreover have "dbl_mag (dbl_of_int 1) \<noteq> 0" using dbl_positive(2) [OF dbl_of_int_exact(1) [of 1]] by simp
  moreover have "array_size cfg [(LNumber (dbl_of_int 1), LBool True), (LNumber (dbl_of_int 2), LNumber (dbl_of_int 1))] = Some 2"
    using proper_array_size [of "[(LNumber (dbl_of_int 1), LBool True), (LNumber (dbl_of_int 2), LNumber (dbl_of_int 1))]" cfg] assms(3)
    by (simp add: proper_array_def)
  moreover have "array_size cfg [(LString [0x61, 0x00, 0x22], v), (LString [], w)] = Some (-1)" for v w
    by (rule string_keys_size) simp_all
  moreover have "array_size cfg [] = Some 0" by (simp add: array_size_def)
  moreover have "[1..2] = [1, 2 :: int]" by (simp add: upto_rec1)
  ultimately show ?thesis
    using assms num
    by (simp add: sample_value_def json_text_cases sample_env_def dbl_eq_def number_text_def g_text_def string_text_def esc_text_def
        char2escape_def char2escape_ctrl_def)
qed

text \<open>
  C3. Round trip: a value that \<open>jrt\<close> admits has a JSON text, \<open>encode\<close> returns this text, and \<open>decode\<close> of the text gives
  the value back, entry by entry. The hypotheses on the environment: allocations succeed and \<open>snprintf\<close> stays below
  32 characters. The text is limited so that the doubling of the buffer cannot overflow an \<open>int\<close>.
\<close>

theorem json_decode_encode:
  assumes "cfg_inv cfg" and "g_fmt_law E" and "\<forall>n. env_alloc E n" and "decode_invalid_numbers cfg = 1" and "jrt E cfg 0 v"
  shows "\<exists>s. json_text E cfg 0 v = Some s \<and> (6 * length s + 32 < 2 ^ 30 \<longrightarrow>
    fst (json_encode E cfg [v]) = Inr [LString s] \<and> json_decode E cfg [LString s] = Inr v)"
proof -
  obtain s where s: "rt_text E cfg 0 v s" using jrt_text [OF assms(5)] assms(4) by auto
  have "tables_ok cfg" using assms(1) by (simp add: cfg_inv_def tables_ok_def)
  then show ?thesis
    using s json_encode_text_ok [OF assms(1-3), of v s] json_decode_text [of cfg E v s] assms(3) by (auto simp: rt_text_def)
qed

theorem json_decode_encode_witness:
  "\<exists>cfg s. json_create_config sample_env = Inr cfg \<and> length s = 28 \<and>
    fst (json_encode sample_env cfg [sample_value]) = Inr [LString s] \<and> json_decode sample_env cfg [LString s] = Inr sample_value"
proof -
  obtain cfg where c: "json_create_config sample_env = Inr cfg" "cfg_inv cfg" "encode_max_depth cfg = 1000" "decode_max_depth cfg = 1000"
    "decode_invalid_numbers cfg = 1" "encode_sparse_ratio cfg = 2" using sample_config by blast
  obtain s where s: "json_text sample_env cfg 0 sample_value = Some s" "length s = 28" using sample_text [OF c(2,3,6)] by blast
  then have "fst (json_encode sample_env cfg [sample_value]) = Inr [LString s] \<and> json_decode sample_env cfg [LString s] = Inr sample_value"
    using json_decode_encode [OF c(2) sample_laws(1,3) c(5) sample_jrt [OF c(2-4,6)]] by auto
  then show ?thesis using c(1) s(2) by blast
qed



text \<open>
  \<open>encode\<close> of the module \<open>cjson.safe\<close> raises no error: on one value that satisfies \<open>value_ok\<close> it returns the text or
  the message, with a valid configuration, unless the allocator fails or a size leaves the range of \<open>int\<close>.
\<close>

theorem json_safe_encode:
  assumes "cfg_inv cfg" and "g_fmt_law E" and "value_ok v"
  shows "case json_protect_conversion (json_encode E) cfg [v] of
      (Inr _, cfg') \<Rightarrow> cfg_inv cfg' | (Inl e, _) \<Rightarrow> e = Fault Die \<or> e = Fault Sb_Overflow"
  using json_encode_keeps [OF assms(1,2), of "[v]"] assms(3) by (intro protect_keeps) simp

theorem json_safe_encode_witness:
  "\<exists>cfg. json_create_config sample_env = Inr cfg \<and>
    (case json_protect_conversion (json_encode sample_env) cfg [LTable [(LString [], LOther)]] of
      (Inr _, cfg') \<Rightarrow> cfg_inv cfg' | (Inl e, _) \<Rightarrow> e = Fault Die \<or> e = Fault Sb_Overflow)"
proof -
  obtain cfg where c: "json_create_config sample_env = Inr cfg" "cfg_inv cfg" using sample_config by blast
  have "value_ok (LTable [(LString [], LOther)])" by (simp add: short_def)
  from c(1) json_safe_encode [OF c(2) sample_laws(1) this] show ?thesis by (intro exI [of _ cfg] conjI)
qed

text \<open>
  C14. The decoder ends on every input of fewer than \<open>2^31 - 1\<close> bytes: with a value, with an error that is raised after the temporary string has been
  released, or out of memory. It never reads behind the terminator of the input, and its unchecked appends never
  leave the temporary string. (The length of a longer input is truncated to \<open>int\<close> when the temporary string is allocated.)
  The hypothesis on the environment is that \<open>strtod\<close> does not read further than its argument.
\<close>

theorem json_decode_total:
  assumes "strtod_law E" and "tables_ok cfg" and "length d < 2 ^ 31 - 1"
  shows "json_decode E cfg [LString d] = Inl (Fault Die) \<or> (\<exists>m. json_decode E cfg [LString d] = Inl (Raise m None)) \<or>
    (\<exists>w. json_decode E cfg [LString d] = Inr w)"
  using json_decode_ok [OF assms(1,2), of "LString d"] assms(3) by (simp add: checklstring_def)

theorem json_decode_total_witness:
  "\<exists>cfg. json_create_config sample_env = Inr cfg \<and>
    (json_decode sample_env cfg [LString [0x7b, 0x22, 0x5c]] = Inl (Fault Die) \<or>
     (\<exists>m. json_decode sample_env cfg [LString [0x7b, 0x22, 0x5c]] = Inl (Raise m None)) \<or>
     (\<exists>w. json_decode sample_env cfg [LString [0x7b, 0x22, 0x5c]] = Inr w))"
proof -
  obtain cfg where c: "json_create_config sample_env = Inr cfg" "cfg_inv cfg" using sample_config by blast
  then have "tables_ok cfg" by (simp add: cfg_inv_def tables_ok_def)
  then show ?thesis using c(1) json_decode_total [OF sample_laws(2), of cfg "[0x7b, 0x22, 0x5c]"] by auto
qed



text \<open>
  The null value of the module cannot be encoded: the test for the empty array reads through the null pointer
  before the branch that writes \<open>null\<close> is reached, so decoding \<open>null\<close> and encoding the result crashes the process.
\<close>

theorem json_null_crashes:
  assumes "cfg_inv cfg" and "\<forall>n. env_alloc E n"
  shows "json_decode E cfg [LString [0x6e, 0x75, 0x6c, 0x6c]] = Inr LNull \<and> fst (json_encode E cfg [LNull]) = Inl Null_deref"
proof
  have tab: "tables_ok cfg" using assms(1) by (simp add: cfg_inv_def tables_ok_def)
  have alloc: "env_alloc E = (\<lambda>_. True)" using assms(2) by auto
  then obtain t where t: "strbuf_new (env_alloc E) (env_junk E) 4 = Inr t" "sb_inv t" "sb_dynamic t" "4 < sb_size t"
    using strbuf_new_any [of 4 "env_alloc E" "env_junk E"] strbuf_init_ok [of 4 "env_junk E"] by (auto simp: strbuf_new_def)
  define json where "json = \<lparr>jp_data = [0x6e, 0x75, 0x6c, 0x6c], jp_ptr = 0, jp_tmp = t, jp_cfg = cfg, jp_depth = 0\<rparr>"
  have at: "jp_at json cfg 0 ([0x6e, 0x75, 0x6c, 0x6c] @ [])" using t tab by (simp add: json_def jp_at_def jp_inv_def)
  have "init_ch2token ! unat (0x6e :: byte) = T_UNKNOWN" by (simp add: init_ch2token_def)
  then have "json_next_token E json = Inr (\<lparr>tok_type = T_NULL, tok_index = 0, tok_val = V_none\<rparr>, advance 4 json)"
    using skip_none(1) [of json cfg 0 "0x6e"] at
    by (simp add: json_next_token_def Let_def rest_def json_def)
  moreover have "json_process_value 11 E (advance 4 json) \<lparr>tok_type = T_NULL, tok_index = 0, tok_val = V_none\<rparr> = Inr (LNull, advance 4 json)"
    using json_process_value.simps(2) [of 10 E "advance 4 json"] by simp
  moreover have "jp_at (advance 4 json) cfg 0 []" using at_advance [OF at, of 4] by simp
  ultimately show "json_decode E cfg [LString [0x6e, 0x75, 0x6c, 0x6c]] = Inr LNull"
    using t(1) token_end [of "advance 4 json" cfg 0 E]
    by (auto simp: json_decode_def checklstring_def lift_sb_def to_int32_def simp flip: json_def)
next
  have "env_alloc E = (\<lambda>_. True)" using assms(2) by auto
  then show "fst (json_encode E cfg [LNull]) = Inl Null_deref"
    using strbuf_init_ok [of 0 "env_junk E"]
    by (auto simp: json_encode_def lift_sb_def json_append_data.simps empty_array_to_json_def)
qed

theorem json_null_crashes_witness:
  "\<exists>cfg. json_create_config sample_env = Inr cfg \<and> json_decode sample_env cfg [LString [0x6e, 0x75, 0x6c, 0x6c]] = Inr LNull \<and>
    fst (json_encode sample_env cfg [LNull]) = Inl Null_deref"
proof -
  obtain cfg where c: "json_create_config sample_env = Inr cfg" "cfg_inv cfg" using sample_config by blast
  then show ?thesis using json_null_crashes [OF c(2) sample_laws(3)] by blast
qed

text \<open>
  C40. A string of at least 357913942 and fewer than 715827882 bytes makes the size \<open>len * 6 + 2\<close> negative as an \<open>int\<close>, and no room is
  made for it. When no byte of the string needs an escape, and the buffer is no larger than the string, the unchecked
  appends then write behind the end of the buffer. (An escape is appended with a check and lets the buffer grow.)
\<close>

theorem json_long_string_overflow:
  assumes "sb_inv json" and "357913942 \<le> length s" and "length s < 715827882" and "\<forall>c \<in> set s. char2escape c = None"
    and "sb_size json \<le> int (length s)"
  shows "json_append_string E s json = Inl (Fault Sb_Bounds)"
  by (rule long_string_leaves_block [OF assms])

theorem json_long_string_overflow_witness:
  "json_append_string sample_env (replicate 357913942 0x61) \<lparr>sb_buf = Some [0, 0], sb_size = 2, sb_length = 0, sb_increment = -2,
      sb_dynamic = False, sb_reallocs = 0\<rparr> = Inl (Fault Sb_Bounds)"
  by (rule json_long_string_overflow) (simp_all add: sb_inv_def STRBUF_DEFAULT_INCREMENT_def char2escape_def)

end
