(* ===== verification/Json_Unicode.thy ===== *)
theory Json_Unicode
  imports Json_Module
begin

text \<open>
  Unicode in JSON strings. The escapes of a code point (RFC 4627, with the surrogate pairs of RFC 2781 above
  \<open>0xFFFF\<close>) and its encoding in UTF-8 (RFC 3629) are written with division and remainder; the bit operations of
  the decoder read the first and produce the second.
\<close>

definition utf8 :: "int \<Rightarrow> int list" where
  "utf8 cp = (if cp < 0x80 then [cp]
     else if cp < 0x800 then [0xc0 + cp div 64, 0x80 + cp mod 64]
     else if cp < 0x10000 then [0xe0 + cp div 4096, 0x80 + cp div 64 mod 64, 0x80 + cp mod 64]
     else [0xf0 + cp div 262144, 0x80 + cp div 4096 mod 64, 0x80 + cp div 64 mod 64, 0x80 + cp mod 64])"

definition hexdigit :: "int \<Rightarrow> byte" where
  "hexdigit n = word_of_int (if n < 10 then 0x30 + n else 0x61 + n - 10)"

definition u_escape :: "int \<Rightarrow> byte list" where
  "u_escape u = [0x5c, 0x75, hexdigit (u div 4096), hexdigit (u div 256 mod 16), hexdigit (u div 16 mod 16), hexdigit (u mod 16)]"

definition utf16_escape :: "int \<Rightarrow> byte list" where
  "utf16_escape cp = (if cp < 0x10000 then u_escape cp
     else u_escape (0xd800 + (cp - 0x10000) div 1024) @ u_escape (0xdc00 + (cp - 0x10000) mod 1024))"

text \<open>Every code point that is not a surrogate.\<close>

definition scalar_value :: "int \<Rightarrow> bool" where
  "scalar_value cp \<longleftrightarrow> 0 \<le> cp \<and> cp < 0x110000 \<and> \<not> (0xd800 \<le> cp \<and> cp < 0xe000)"

subsection \<open>Bit operations as arithmetic\<close>

lemma and_field:
  fixes x :: int
  shows "x AND push_bit k (mask m) = 2 ^ k * (x div 2 ^ k mod 2 ^ m)"
proof -
  have "x AND push_bit k (mask m) = push_bit k (take_bit m (drop_bit k x))"
    by (auto simp: bit_eq_iff bit_simps)
  then show ?thesis by (simp add: push_bit_eq_mult take_bit_eq_mod drop_bit_eq_div)
qed

lemma or_add:
  fixes x y :: int
  assumes "0 \<le> x" and "x < 2 ^ k"
  shows "push_bit k y OR x = 2 ^ k * y + x" and "x OR push_bit k y = 2 ^ k * y + x"
proof -
  have t: "take_bit k x = x" using assms by (simp add: take_bit_int_eq_self)
  have "push_bit k y AND take_bit k x = 0" by (auto simp: bit_eq_iff bit_simps)
  then have "push_bit k y AND x = 0" using t by simp
  then have "push_bit k y OR x = push_bit k y + x" by (metis disjunctive_add_eq_or)
  then show "push_bit k y OR x = 2 ^ k * y + x" by (simp add: push_bit_eq_mult)
  then show "x OR push_bit k y = 2 ^ k * y + x" by (simp add: or.commute)
qed

lemma and_fields:
  fixes x :: int
  shows "x AND 0xf800 = 2048 * (x div 2048 mod 32)" "x AND 0x400 = 1024 * (x div 1024 mod 2)"
    "x AND 0xfc00 = 1024 * (x div 1024 mod 64)" "x AND 0x3f = x mod 64"
  using and_field [of x 11 5] and_field [of x 10 1] and_field [of x 10 6] and_field [of x 0 6]
  by (simp_all add: mask_eq_exp_minus_1 push_bit_eq_mult)

lemma codepoint_to_utf8_rfc:
  assumes "0 \<le> cp" and "cp < 0x110000"
  shows "codepoint_to_utf8 cp = map word_of_int (utf8 cp)"
proof -
  have or: "a OR 0x80 = 0x80 + a" if "0 \<le> a" "a < 64" for a :: int
    using or_add(2) [of a 7 1] that by (simp add: push_bit_eq_mult)
  have c0: "a OR 0xc0 = 0xc0 + a" if "0 \<le> a" "a < 32" for a :: int
    using or_add(2) [of a 6 3] that by (simp add: push_bit_eq_mult)
  have e0: "a OR 0xe0 = 0xe0 + a" if "0 \<le> a" "a < 16" for a :: int
    using or_add(2) [of a 5 7] that by (simp add: push_bit_eq_mult)
  have f0: "a OR 0xf0 = 0xf0 + a" if "0 \<le> a" "a < 8" for a :: int
    using or_add(2) [of a 4 15] that by (simp add: push_bit_eq_mult)
  have r: "cp mod 64 OR 0x80 = 0x80 + cp mod 64" "cp div 64 mod 64 OR 0x80 = 0x80 + cp div 64 mod 64"
    "cp div 4096 mod 64 OR 0x80 = 0x80 + cp div 4096 mod 64" by (rule or; simp)+
  consider "cp < 0x80" | "0x80 \<le> cp" "cp < 0x800" | "0x800 \<le> cp" "cp < 0x10000" | "0x10000 \<le> cp" by linarith
  then show ?thesis
  proof cases
    case 2
    then have "0 \<le> cp div 64" "cp div 64 < 32" by auto
    then show ?thesis using 2 c0 r by (simp add: codepoint_to_utf8_def utf8_def and_fields drop_bit_eq_div)
  next
    case 3
    then have "0 \<le> cp div 4096" "cp div 4096 < 16" by auto
    then show ?thesis using 3 e0 r by (simp add: codepoint_to_utf8_def utf8_def and_fields drop_bit_eq_div)
  next
    case 4
    then have "0 \<le> cp div 262144" "cp div 262144 < 8" using assms(2) by auto
    then show ?thesis using 4 assms(2) f0 r by (simp add: codepoint_to_utf8_def utf8_def and_fields drop_bit_eq_div)
  qed (simp add: codepoint_to_utf8_def utf8_def)
qed

subsection \<open>Escapes\<close>

lemma hexdigit2int_hexdigit:
  assumes "0 \<le> n" and "n < 16"
  shows "hexdigit2int (hexdigit n) = n"
proof -
  have "n \<in> {0, 1, 2, 3, 4, 5, 6, 7, 8, 9, 10, 11, 12, 13, 14, 15}"
    using assms by (simp only: insert_iff empty_iff) presburger
  then show ?thesis by (elim insertE emptyE) (simp_all add: hexdigit_def hexdigit2int_def)
qed

lemma hex4_sum:
  fixes u :: int
  shows "4096 * (u div 4096) + 256 * (u div 256 mod 16) + 16 * (u div 16 mod 16) + u mod 16 = u"
proof -
  have "u div 256 = u div 16 div 16" "u div 4096 = u div 16 div 16 div 16"
    using zdiv_zmult2_eq [of 16 u 16] zdiv_zmult2_eq [of 256 u 16] zdiv_zmult2_eq [of 16 u 256] by simp_all
  then show ?thesis by (simp only: minus_mult_div_eq_mod [symmetric]) (simp add: algebra_simps)
qed

lemma decode_u_escape:
  assumes "drop (jp_ptr json) (jp_data json) = pre @ u_escape u @ r" and "0 \<le> u" and "u < 0x10000" and "n = length pre + 2"
  shows "decode_hex4 json n = Inr u"
proof -
  have "0 \<le> u div 4096" "u div 4096 < 16" using assms(2,3) by auto
  then have "hexdigit2int (hexdigit (u div 4096)) = u div 4096" "hexdigit2int (hexdigit (u div 256 mod 16)) = u div 256 mod 16"
    "hexdigit2int (hexdigit (u div 16 mod 16)) = u div 16 mod 16" "hexdigit2int (hexdigit (u mod 16)) = u mod 16"
    by (simp_all add: hexdigit2int_hexdigit)
  then show ?thesis
    using decode_hex4_at [of json "pre @ [0x5c, 0x75]" "hexdigit (u div 4096)" "hexdigit (u div 256 mod 16)" "hexdigit (u div 16 mod 16)"
        "hexdigit (u mod 16)" r] assms \<open>0 \<le> u div 4096\<close> by (simp add: u_escape_def hex4_sum)
qed

lemma unicode_escape_utf16:
  assumes "drop (jp_ptr json) (jp_data json) = utf16_escape cp @ r" and "scalar_value cp"
  shows "unicode_escape json = Inr (Some (cp, length (utf16_escape cp)))"
proof (cases "cp < 0x10000")
  case True
  have "2048 * (cp div 2048 mod 32) \<noteq> 0xd800" using True assms(2) by (auto simp: scalar_value_def)
  then show ?thesis
    using True assms decode_u_escape [of json "[]" cp r 2]
    by (simp add: unicode_escape_def utf16_escape_def and_fields scalar_value_def u_escape_def)
next
  case False
  define x where "x = cp - 0x10000"
  define hi lo where "hi = x div 1024" and "lo = x mod 1024"
  have b: "0 \<le> hi" "hi < 1024" "0 \<le> lo" "lo < 1024" "1024 * hi + lo = x"
    using False assms(2) by (auto simp: x_def hi_def lo_def scalar_value_def)
  have d: "drop (jp_ptr json) (jp_data json) = u_escape (0xd800 + hi) @ u_escape (0xdc00 + lo) @ r"
    using assms(1) False by (simp add: utf16_escape_def hi_def lo_def x_def)
  have hex: "decode_hex4 json 2 = Inr (0xd800 + hi)" "decode_hex4 json 8 = Inr (0xdc00 + lo)"
    using decode_u_escape [of json "[]" "0xd800 + hi" "u_escape (0xdc00 + lo) @ r" 2]
      decode_u_escape [of json "u_escape (0xd800 + hi)" "0xdc00 + lo" r 8] d b by (simp_all add: u_escape_def)
  have p: "peek json 6 = Inr 0x5c" "peek json 7 = Inr 0x75" using peek_at [OF d, of 6] peek_at [OF d, of 7] by (simp_all add: u_escape_def)
  have field: "(0xd800 + hi) div 1024 = 54" "(0xd800 + hi) mod 1024 = hi" "(0xdc00 + lo) mod 1024 = lo"
    using b mod_pos_pos_trivial [of hi 1024] mod_pos_pos_trivial [of lo 1024] mod_mult_self4 [of 1024 54 hi] mod_mult_self4 [of 1024 55 lo]
    by auto
  have a: "(0xd800 + hi) AND 0xf800 = 0xd800" "(0xd800 + hi) AND 0x400 = 0" "(0xdc00 + lo) AND 0xfc00 = 0xdc00"
    "(0xd800 + hi) AND 0x3ff = hi" "(0xdc00 + lo) AND 0x3ff = lo"
    using b field and_field [of "0xd800 + hi" 0 10] and_field [of "0xdc00 + lo" 0 10] by (simp_all add: and_fields mask_eq_exp_minus_1)
  have "push_bit 10 hi OR lo = x" using or_add(1) [of lo 10 hi] b by simp
  then show ?thesis using hex p a b False by (simp add: unicode_escape_def utf16_escape_def u_escape_def x_def)
qed

lemma str_reads_utf16:
  assumes "scalar_value cp"
  shows "str_reads (utf16_escape cp) (map word_of_int (utf8 cp))"
proof -
  obtain xs where e: "utf16_escape cp = 0x5c # 0x75 # xs" by (cases "cp < 0x10000") (auto simp: utf16_escape_def u_escape_def)
  have "\<exists>json'. string_step json 0x5c = Inr (Inr json') \<and> collected json' cfg d (s @ map word_of_int (utf8 cp)) r"
    if c: "collected json cfg d s (0x5c # (0x75 # xs) @ r)" for json cfg d s r
  proof -
    have dr: "drop (jp_ptr json) (jp_data json) = utf16_escape cp @ r" and tab: "escape2char (jp_cfg json) = init_escape2char"
      using c e by (auto simp: collected_def jp_at_def in_string_def jp_inv_def tables_ok_def)
    have "peek json 1 = Inr 0x75" using peek_at [OF dr, of 1] e by simp
    moreover have "init_escape2char ! unat (0x75 :: byte) = 0x75" by (simp add: init_escape2char_def)
    moreover have "length (utf8 cp) \<le> length (utf16_escape cp)" "utf8 cp \<noteq> []" by (auto simp: utf8_def utf16_escape_def u_escape_def)
    ultimately show ?thesis
      using collected_put [of json cfg d s "utf16_escape cp" r "map word_of_int (utf8 cp)" "length (utf16_escape cp)"] c e tab
        unicode_escape_utf16 [OF dr assms] codepoint_to_utf8_rfc [of cp] assms
      by (auto simp: string_step_def json_append_unicode_escape_def lift_sb_def scalar_value_def)
  qed
  then show ?thesis unfolding e by (intro str_reads_step) auto
qed

lemma utf16_escape_nonzero: "scalar_value cp \<Longrightarrow> 0 \<notin> set (utf16_escape cp)"
proof -
  have "0 \<notin> set (u_escape u)" if "0 \<le> u" "u < 0x10000" for u
  proof -
    have "hexdigit n \<noteq> 0" if "0 \<le> n" "n < 16" for n
    proof
      assume "hexdigit n = 0"
      then have "hexdigit2int 0 = n" using hexdigit2int_hexdigit [OF that] by simp
      then show False using that by (simp add: hexdigit2int_def)
    qed
    then show ?thesis using that by (auto simp: u_escape_def dest: sym)
  qed
  moreover assume "scalar_value cp"
  ultimately show ?thesis by (auto simp: utf16_escape_def scalar_value_def)
qed

subsection \<open>Properties\<close>

text \<open>
  C16. A string literal written with one \<open>\u\<close> escape for every code point of the basic plane and a surrogate pair for every
  other one decodes to the UTF-8 encoding of the text, for every sequence of Unicode scalar values.
\<close>

theorem json_decode_unicode:
  assumes "tables_ok cfg" and "\<forall>n. env_alloc E n" and "\<forall>cp \<in> set cps. scalar_value cp" and "length cps < 2 ^ 26"
  shows "json_decode E cfg [LString (0x22 # concat (map utf16_escape cps) @ [0x22])] = Inr (LString (map word_of_int (concat (map utf8 cps))))"
proof -
  have reads: "str_reads (concat (map utf16_escape cps)) (map word_of_int (concat (map utf8 cps)))"
    using str_reads_concat [of cps utf16_escape "\<lambda>cp. map word_of_int (utf8 cp)"] str_reads_utf16 assms(3)
    by (simp add: map_concat comp_def)
  have "length (concat (map utf16_escape cps)) \<le> 12 * length cps"
    by (induction cps) (auto simp: utf16_escape_def u_escape_def)
  then show ?thesis
    using json_decode_decodes [OF assms(1,2) decodes_scalar(1) [OF reads]] utf16_escape_nonzero assms(3,4) by auto
qed

theorem json_decode_unicode_witness:
  "\<exists>cfg. json_create_config sample_env = Inr cfg \<and>
    json_decode sample_env cfg [LString [0x22, 0x5c, 0x75, 0x32, 0x30, 0x61, 0x63, 0x5c, 0x75, 0x64, 0x38, 0x33, 0x64, 0x5c, 0x75, 0x64, 0x65, 0x30, 0x30, 0x22]] =
      Inr (LString [0xe2, 0x82, 0xac, 0xf0, 0x9f, 0x98, 0x80])"
proof -
  obtain cfg where c: "json_create_config sample_env = Inr cfg" "cfg_inv cfg" using sample_config by blast
  then have "tables_ok cfg" by (simp add: cfg_inv_def tables_ok_def)
  moreover have "0x22 # concat (map utf16_escape [0x20ac, 0x1f600]) @ [0x22] =
      [0x22, 0x5c, 0x75, 0x32, 0x30, 0x61, 0x63, 0x5c, 0x75, 0x64, 0x38, 0x33, 0x64, 0x5c, 0x75, 0x64, 0x65, 0x30, 0x30, 0x22]"
    by (simp add: utf16_escape_def u_escape_def hexdigit_def)
  moreover have "map word_of_int (concat (map utf8 [0x20ac, 0x1f600])) = [0xe2, 0x82, 0xac, 0xf0, 0x9f, 0x98, 0x80 :: byte]"
    by (simp add: utf8_def)
  ultimately show ?thesis
    using c(1) json_decode_unicode [of cfg sample_env "[0x20ac, 0x1f600]", OF _ sample_laws(3)] by (simp add: scalar_value_def)
qed

end
