(* ===== verification/Json_Types.thy ===== *)
theory Json_Types
  imports Json_Unicode
begin

text \<open>
  The type of what the decoder returns: every table is an array with the keys \<open>1..n\<close> or an object with string
  keys, is well formed as a Lua table, and the tables are nested no deeper than the configuration allows.
\<close>

fun json_shape :: "int \<Rightarrow> lua_value \<Rightarrow> bool" where
  "json_shape d (LTable t) = (0 < d \<and> table_wf t \<and> (proper_array t \<or> (\<forall>e \<in> set t. case fst e of LString _ \<Rightarrow> True | _ \<Rightarrow> False)) \<and>
     (\<forall>e \<in> set t. json_shape (d - 1) (snd e)))"
| "json_shape d (LString s) = True"
| "json_shape d (LNumber n) = True"
| "json_shape d (LBool b) = True"
| "json_shape d LNull = True"
| "json_shape d _ = False"

definition obj_shape :: "int \<Rightarrow> lua_table \<Rightarrow> bool" where
  "obj_shape d t \<longleftrightarrow> table_wf t \<and> (\<forall>e \<in> set t. (\<exists>s. fst e = LString s) \<and> json_shape d (snd e))"

definition arr_shape :: "int \<Rightarrow> int \<Rightarrow> lua_table \<Rightarrow> bool" where
  "arr_shape d i t \<longleftrightarrow> table_wf t \<and> proper_array t \<and> i = int (length t) + 1 \<and> (\<forall>e \<in> set t. json_shape d (snd e))"

lemma shape_not_nil: "json_shape d v \<Longrightarrow> v \<noteq> LNil"
  by auto

lemma set_tset: "set (tset t k v) \<subseteq> insert (k, v) (set t \<union> (\<lambda>e. (fst e, v)) ` set t)"
  by (induction t k v rule: tset.induct) auto

lemma tset_keys:
  assumes "e \<in> set (tset t k v)"
  shows "fst e = k \<or> fst e \<in> fst ` set t" and "snd e = v \<or> e \<in> set t"
proof -
  have "e = (k, v) \<or> e \<in> set t \<or> (\<exists>e' \<in> set t. e = (fst e', v))" using set_tset [of t k v] assms by blast
  then show "fst e = k \<or> fst e \<in> fst ` set t" "snd e = v \<or> e \<in> set t" by (elim disjE bexE; simp)+
qed

lemma table_wf_iff:
  "table_wf t \<longleftrightarrow> (\<forall>e \<in> set t. valid_key (fst e)) \<and> (\<forall>e \<in> set t. snd e \<noteq> LNil) \<and> sorted_wrt (\<lambda>x y. \<not> lua_keyeq (fst x) (fst y)) t"
  unfolding table_wf_def case_prod_beta by blast

lemma sorted_tset:
  "sorted_wrt (\<lambda>x y. \<not> lua_keyeq (fst x) (fst y)) t \<Longrightarrow> v \<noteq> LNil \<Longrightarrow> sorted_wrt (\<lambda>x y. \<not> lua_keyeq (fst x) (fst y)) (tset t k v)"
proof (induction t k v rule: tset.induct)
  case (2 k' v' t k v)
  show ?case
  proof (cases "lua_keyeq k' k")
    case False
    have "\<not> lua_keyeq k' (fst e)" if "e \<in> set (tset t k v)" for e
      using tset_keys(1) [OF that] False 2(2) by auto
    then show ?thesis using 2 False by simp
  qed (use 2 in simp)
qed simp

lemma table_wf_tset:
  assumes "table_wf t" and "valid_key k" and "v \<noteq> LNil"
  shows "table_wf (tset t k v)"
proof -
  have wf: "\<forall>e \<in> set t. valid_key (fst e)" "\<forall>e \<in> set t. snd e \<noteq> LNil" using assms(1) unfolding table_wf_iff by blast+
  have "valid_key (fst e)" if "e \<in> set (tset t k v)" for e using tset_keys(1) [OF that] wf(1) assms(2) by (elim disjE imageE) simp_all
  moreover have "snd e \<noteq> LNil" if "e \<in> set (tset t k v)" for e using tset_keys(2) [OF that] wf(2) assms(3) by (elim disjE) simp_all
  moreover have "sorted_wrt (\<lambda>x y. \<not> lua_keyeq (fst x) (fst y)) (tset t k v)"
    using assms(1,3) by (intro sorted_tset) (simp_all add: table_wf_iff)
  ultimately show ?thesis unfolding table_wf_iff by blast
qed

lemma obj_shape_tset:
  assumes "obj_shape d t" and "json_shape d v"
  shows "obj_shape d (tset t (LString s) v)"
proof -
  have old: "\<forall>e \<in> set t. \<exists>s. fst e = LString s" "\<forall>e \<in> set t. json_shape d (snd e)" using assms(1) unfolding obj_shape_def by blast+
  have "\<exists>s. fst e = LString s" if "e \<in> set (tset t (LString s) v)" for e
    using tset_keys(1) [OF that] old(1) by (elim disjE imageE) simp_all
  moreover have "json_shape d (snd e)" if "e \<in> set (tset t (LString s) v)" for e
    using tset_keys(2) [OF that] old(2) assms(2) by (elim disjE) simp_all
  moreover have "table_wf (tset t (LString s) v)"
    using assms(1) by (intro table_wf_tset shape_not_nil [OF assms(2)]) (simp_all add: obj_shape_def)
  ultimately show ?thesis unfolding obj_shape_def by blast
qed

lemma arr_shape_tset:
  assumes "arr_shape d i t" and "json_shape d v" and "i < 2 ^ 53"
  shows "arr_shape d (i + 1) (tset t (LNumber (dbl_of_int i)) v)"
proof -
  have key: "\<exists>j. fst e = LNumber (dbl_of_int j) \<and> 1 \<le> j \<and> j < i" if e: "e \<in> set t" for e
  proof -
    obtain n where n: "n < length t" "e = t ! n" using e by (auto simp: in_set_conv_nth)
    have "map fst t = map (\<lambda>i. LNumber (dbl_of_int (int i + 1))) [0..<length t]"
      using assms(1) unfolding arr_shape_def proper_array_def by blast
    then have "map fst t ! n = map (\<lambda>i. LNumber (dbl_of_int (int i + 1))) [0..<length t] ! n" by (rule arg_cong)
    then have "fst e = LNumber (dbl_of_int (int n + 1))" using n by simp
    then show ?thesis using n assms(1) by (intro exI [of _ "int n + 1"]) (simp add: arr_shape_def)
  qed
  have nan: "\<not> dbl_is_nan (dbl_of_int i)" using dbl_of_int_exact(3) [of i] assms(1,3) by (auto simp: arr_shape_def)
  have ne: "\<not> lua_keyeq (fst e) (LNumber (dbl_of_int i))" if e: "e \<in> set t" for e
  proof -
    obtain j where j: "fst e = LNumber (dbl_of_int j)" "1 \<le> j" "j < i" using key [OF e] by blast
    then have "dbl_of_int j \<noteq> dbl_of_int i" using dbl_of_int_inj [of j i] assms(3) by auto
    moreover have "dbl_mag (dbl_of_int i) \<noteq> 0" using dbl_positive(2) [OF dbl_of_int_exact(1) [of i]] j assms(3) by auto
    ultimately show ?thesis using j(1) by (simp add: dbl_eq_def)
  qed
  then have t: "tset t (LNumber (dbl_of_int i)) v = t @ [(LNumber (dbl_of_int i), v)]"
    using shape_not_nil [OF assms(2)] by (intro tset_fresh) force+
  then show ?thesis
    using assms(1,2) table_wf_tset [of t "LNumber (dbl_of_int i)" v] shape_not_nil [OF assms(2)] nan
    by (auto simp: arr_shape_def proper_array_def)
qed

subsection \<open>Tokens\<close>

text \<open>The tokenizer leaves the configuration and the depth, and a token carries a value of its type.\<close>

definition same_ctx :: "json_parse \<Rightarrow> json_parse \<Rightarrow> bool" where
  "same_ctx json json' \<longleftrightarrow> jp_cfg json' = jp_cfg json \<and> jp_depth json' = jp_depth json"

definition typed :: "json_token \<Rightarrow> bool" where
  "typed tok \<longleftrightarrow> (tok_type tok = T_STRING \<longrightarrow> (\<exists>s. tok_val tok = V_string s)) \<and>
     (tok_type tok = T_NUMBER \<longrightarrow> (\<exists>n. tok_val tok = V_number n)) \<and> (tok_type tok = T_BOOLEAN \<longrightarrow> (\<exists>b. tok_val tok = V_boolean b))"

lemma typed_error [simp]: "typed (json_set_token_error json m)"
  by (simp add: typed_def json_set_token_error_def)

lemma same_ctx_advance [simp]: "same_ctx json (advance n json') = same_ctx json json'" "same_ctx json (json'\<lparr>jp_tmp := t\<rparr>) = same_ctx json json'" "same_ctx json json"
  by (simp_all add: same_ctx_def advance_def)

lemma same_ctx_trans: "same_ctx a b \<Longrightarrow> same_ctx b c \<Longrightarrow> same_ctx a c"
  by (simp add: same_ctx_def)

lemma append_unicode_ctx: "json_append_unicode_escape json = Inr (Some json') \<Longrightarrow> same_ctx json json'"
  by (cases "unicode_escape json"; cases "projr (unicode_escape json)")
    (auto simp: json_append_unicode_escape_def ebind_Inr_iff Let_def split: if_splits)

lemma string_step_ctx:
  "string_step json ch = Inr (Inr json') \<Longrightarrow> same_ctx json json'" "string_step json ch = Inr (Inl tok) \<Longrightarrow> typed tok"
  by (auto simp: string_step_def ebind_Inr_iff Let_def split: option.splits if_splits dest: append_unicode_ctx)

lemma string_loop_ctx:
  "string_loop json = Inr r \<Longrightarrow> (case r of Inl tok \<Rightarrow> typed tok | Inr json' \<Rightarrow> same_ctx json json')"
proof (induction json rule: string_loop.induct)
  case (1 json)
  obtain ch where ch: "peek json 0 = Inr ch" using "1.prems" by (subst (asm) string_loop.simps) (auto simp: ebind_Inr_iff)
  show ?case
  proof (cases "ch = 0x22")
    case True
    then show ?thesis using "1.prems" ch by (subst (asm) string_loop.simps) auto
  next
    case False
    then obtain q where q: "string_step json ch = Inr q" "(case q of Inl tok \<Rightarrow> Inr (Inl tok) | Inr json \<Rightarrow> string_loop json) = Inr r"
      using "1.prems" ch by (subst (asm) string_loop.simps) (auto simp: ebind_Inr_iff)
    show ?thesis
    proof (cases q)
      case (Inl tok)
      then show ?thesis using q string_step_ctx(2) by auto
    next
      case (Inr json')
      then have "case r of Inl tok \<Rightarrow> typed tok | Inr json'' \<Rightarrow> same_ctx json' json''" using "1.IH" [OF ch False q(1)] q(2) by simp
      then show ?thesis using string_step_ctx(1) [of json ch json'] Inr q(1) by (auto split: sum.splits intro: same_ctx_trans)
    qed
  qed
qed

lemma string_token_ctx: "json_next_string_token json = Inr (tok, json') \<Longrightarrow> same_ctx json json' \<and> typed tok"
proof -
  define json1 where "json1 = (advance 1 json)\<lparr>jp_tmp := strbuf_reset (jp_tmp json)\<rparr>"
  have s: "same_ctx json json1" by (simp add: json1_def)
  assume a: "json_next_string_token json = Inr (tok, json')"
  then obtain r where r: "string_loop json1 = Inr r"
    unfolding json_next_string_token_def Let_def json1_def [symmetric] by (auto simp: ebind_Inr_iff)
  show ?thesis
  proof (cases r)
    case (Inl tok')
    then show ?thesis
      using a r s string_loop_ctx [OF r] unfolding json_next_string_token_def Let_def json1_def [symmetric] by auto
  next
    case (Inr json2)
    then show ?thesis
      using a r s string_loop_ctx [OF r] unfolding json_next_string_token_def Let_def json1_def [symmetric]
      by (auto simp: ebind_Inr_iff typed_def strbuf_string_def intro: same_ctx_trans)
  qed
qed

lemma number_token_ctx: "json_next_number_token E json = Inr (tok, json') \<Longrightarrow> same_ctx json json' \<and> typed tok"
  by (auto simp: json_next_number_token_def ebind_Inr_iff typed_def json_set_token_error_def split: if_splits)

lemma skip_whitespace_ctx: "skip_whitespace json = Inr (ch, ty, json') \<Longrightarrow> same_ctx json json' \<and> ty \<noteq> T_WHITESPACE \<and> ty = ch2token (jp_cfg json) ! unat ch"
proof (induction json rule: skip_whitespace.induct)
  case (1 json)
  obtain c where c: "peek json 0 = Inr c" using "1.prems" by (subst (asm) skip_whitespace.simps) (auto simp: ebind_Inr_iff)
  show ?case
  proof (cases "ch2token (jp_cfg json) ! unat c = T_WHITESPACE")
    case True
    then have "skip_whitespace (advance 1 json) = Inr (ch, ty, json')"
      using "1.prems" c by (subst (asm) skip_whitespace.simps) simp
    then have "same_ctx (advance 1 json) json'" "ty \<noteq> T_WHITESPACE" "ty = ch2token (jp_cfg (advance 1 json)) ! unat ch"
      using "1.IH" [OF c refl] True by blast+
    then show ?thesis by (simp add: same_ctx_def advance_def)
  next
    case False
    then show ?thesis using "1.prems" c by (subst (asm) skip_whitespace.simps) auto
  qed
qed

lemma token_table_plain:
  fixes c :: byte
  shows "init_ch2token ! unat c \<noteq> T_STRING" "init_ch2token ! unat c \<noteq> T_NUMBER" "init_ch2token ! unat c \<noteq> T_BOOLEAN"
proof -
  have "set init_ch2token \<subseteq> {T_ERROR, T_OBJ_BEGIN, T_OBJ_END, T_ARR_BEGIN, T_ARR_END, T_COMMA, T_COLON, T_END, T_WHITESPACE, T_UNKNOWN}"
    unfolding init_ch2token_def by (intro set_update_subsetI) auto
  moreover have "unat c < length init_ch2token" using unsigned_less [of c, where 'a = nat] by (simp add: init_ch2token_def)
  ultimately have "init_ch2token ! unat c \<in> {T_ERROR, T_OBJ_BEGIN, T_OBJ_END, T_ARR_BEGIN, T_ARR_END, T_COMMA, T_COLON, T_END, T_WHITESPACE, T_UNKNOWN}"
    using nth_mem by blast
  then show "init_ch2token ! unat c \<noteq> T_STRING" "init_ch2token ! unat c \<noteq> T_NUMBER" "init_ch2token ! unat c \<noteq> T_BOOLEAN" by auto
qed

definition ctx_res :: "json_parse \<Rightarrow> json_exc + json_token \<times> json_parse \<Rightarrow> bool" where
  "ctx_res json r \<longleftrightarrow> (\<forall>tok json'. r = Inr (tok, json') \<longrightarrow> same_ctx json json' \<and> typed tok)"

lemma ctx_res_Inr: "same_ctx json json' \<Longrightarrow> typed tok \<Longrightarrow> ctx_res json (Inr (tok, json'))"
  by (simp add: ctx_res_def)

lemma ctx_res_if: "(b \<Longrightarrow> ctx_res json x) \<Longrightarrow> (\<not> b \<Longrightarrow> ctx_res json y) \<Longrightarrow> ctx_res json (if b then x else y)"
  by simp

lemma ctx_res_bind: "(\<And>x. ctx_res json (f x)) \<Longrightarrow> ctx_res json (ebind m f)"
  by (cases m) (simp_all add: ctx_res_def)

lemma ctx_res_string: "same_ctx json json1 \<Longrightarrow> ctx_res json (json_next_string_token json1)"
  using string_token_ctx [of json1] same_ctx_trans [of json json1] by (auto simp: ctx_res_def)

lemma ctx_res_number: "same_ctx json json1 \<Longrightarrow> ctx_res json (json_next_number_token E json1)"
  using number_token_ctx [of E json1] same_ctx_trans [of json json1] by (auto simp: ctx_res_def)

lemma next_token_ctx:
  assumes "json_next_token E json = Inr (tok, json')" and "tables_ok (jp_cfg json)"
  shows "same_ctx json json' \<and> typed tok"
proof -
  obtain ch ty json1 where w: "skip_whitespace json = Inr (ch, ty, json1)" using assms(1) by (auto simp: json_next_token_def ebind_Inr_iff)
  have c: "same_ctx json json1" "typed \<lparr>tok_type = ty, tok_index = jp_ptr json1, tok_val = V_none\<rparr>"
    using skip_whitespace_ctx [OF w] token_table_plain [of ch] assms(2) by (auto simp: typed_def tables_ok_def)
  have "ctx_res json (json_next_token E json)"
    unfolding json_next_token_def w ebind_simps prod.case Let_def
    by (intro ctx_res_if ctx_res_bind ctx_res_string ctx_res_number ctx_res_Inr) (use c in \<open>auto simp: typed_def json_set_token_error_def\<close>)
  then show ?thesis using assms(1) by (simp add: ctx_res_def)
qed

subsection \<open>The parser\<close>

text \<open>
  \<open>shaped cfg D d r\<close>: a result of the parser is a value of depth \<open>d\<close>, and the parser is at depth \<open>D\<close> after it.
\<close>

definition at_depth :: "json_config \<Rightarrow> int \<Rightarrow> json_parse \<Rightarrow> bool" where
  "at_depth cfg D json \<longleftrightarrow> jp_cfg json = cfg \<and> jp_depth json = D"

definition shaped :: "json_config \<Rightarrow> int \<Rightarrow> int \<Rightarrow> json_exc + lua_value \<times> json_parse \<Rightarrow> bool" where
  "shaped cfg D d r \<longleftrightarrow> (\<forall>v json'. r = Inr (v, json') \<longrightarrow> at_depth cfg D json' \<and> json_shape d v)"

lemma shaped_Inl: "shaped cfg D d (Inl e)"
  by (simp add: shaped_def)

lemma shaped_Inr: "at_depth cfg D json \<Longrightarrow> json_shape d v \<Longrightarrow> shaped cfg D d (Inr (v, json))"
  by (simp add: shaped_def)

lemma shaped_if: "(b \<Longrightarrow> shaped cfg D d x) \<Longrightarrow> (\<not> b \<Longrightarrow> shaped cfg D d y) \<Longrightarrow> shaped cfg D d (if b then x else y)"
  by simp

lemma shaped_token:
  assumes "tables_ok cfg" and "at_depth cfg D' json" and "\<And>tok json'. typed tok \<Longrightarrow> at_depth cfg D' json' \<Longrightarrow> shaped cfg D d (g tok json')"
  shows "shaped cfg D d (ebind (json_next_token E json) (\<lambda>(tok, json'). g tok json'))"
proof (cases "json_next_token E json")
  case (Inr p)
  then obtain tok json' where t: "json_next_token E json = Inr (tok, json')" by (cases p) simp
  then have "same_ctx json json' \<and> typed tok" using next_token_ctx assms(1,2) by (simp add: at_depth_def)
  then have "shaped cfg D d (g tok json')" using assms(2) by (intro assms(3)) (simp_all add: at_depth_def same_ctx_def)
  then show ?thesis using t by simp
qed (simp add: shaped_Inl)

lemma shaped_value:
  assumes "shaped cfg D' d' r" and "\<And>v json'. json_shape d' v \<Longrightarrow> at_depth cfg D' json' \<Longrightarrow> shaped cfg D d (g v json')"
  shows "shaped cfg D d (ebind r (\<lambda>(v, json'). g v json'))"
  using assms by (cases r) (auto simp: shaped_def)

lemma shaped_descend:
  assumes "at_depth cfg D json" and "\<And>json'. at_depth cfg (D + 1) json' \<Longrightarrow> D + 1 \<le> decode_max_depth cfg \<Longrightarrow> shaped cfg D d (g json')"
  shows "shaped cfg D d (ebind (json_decode_descend E json) g)"
  using assms by (auto simp: json_decode_descend_def at_depth_def Let_def shaped_Inl)

lemma ascend_depth: "at_depth cfg (D + 1) json \<Longrightarrow> at_depth cfg D (json_decode_ascend json)"
  by (simp add: at_depth_def json_decode_ascend_def)

lemma shape_object: "obj_shape (m - (D + 1)) t \<Longrightarrow> D + 1 \<le> m \<Longrightarrow> json_shape (m - D) (LTable t)"
  by (auto simp: obj_shape_def algebra_simps)

lemma shape_array: "arr_shape (m - (D + 1)) i t \<Longrightarrow> D + 1 \<le> m \<Longrightarrow> json_shape (m - D) (LTable t)"
  by (auto simp: arr_shape_def algebra_simps)

lemma shape_empty: "obj_shape d []" "arr_shape d 1 []"
  by (simp_all add: obj_shape_def arr_shape_def table_wf_def proper_array_def)

lemmas shaped_rules = shaped_token shaped_value shaped_if shaped_Inl shaped_Inr ascend_depth shape_object shape_array shape_empty

lemma shaped_index: "(i < 2 ^ 31 \<Longrightarrow> shaped cfg D d (g i)) \<Longrightarrow> shaped cfg D d (ebind (lift_sb (int32 i)) g)"
  by (cases "- (2 ^ 31) \<le> i \<and> i < 2 ^ 31") (auto simp: lift_sb_def int32_def shaped_Inl)

lemma object_shaped:
  assumes "tables_ok cfg" and "at_depth cfg (D + 1) json" and "typed tok" and "D + 1 \<le> decode_max_depth cfg"
    and "obj_shape (decode_max_depth cfg - (D + 1)) t"
    and val: "\<And>json tok. at_depth cfg (D + 1) json \<Longrightarrow> typed tok \<Longrightarrow> shaped cfg (D + 1) (decode_max_depth cfg - (D + 1)) (json_process_value f E json tok)"
    and more: "\<And>json tok t. at_depth cfg (D + 1) json \<Longrightarrow> typed tok \<Longrightarrow> obj_shape (decode_max_depth cfg - (D + 1)) t \<Longrightarrow>
      shaped cfg D (decode_max_depth cfg - D) (json_parse_object_context f E t json tok)"
  shows "shaped cfg D (decode_max_depth cfg - D) (json_parse_object_context (Suc f) E t json tok)"
proof (cases "tok_type tok = T_STRING")
  case True
  define key where "key = (case tok_val tok of V_string s \<Rightarrow> LString s | _ \<Rightarrow> LNil)"
  have "\<exists>s. key = LString s" using True assms(3) by (auto simp: typed_def key_def)
  then have keep: "obj_shape d (tset t key v)" if "obj_shape d t" "json_shape d v" for d t v using obj_shape_tset [OF that] by auto
  have "shaped cfg D (decode_max_depth cfg - D) (ebind (json_next_token E json) (\<lambda>(token, json).
        if tok_type token \<noteq> T_COLON then Inl (json_throw_parse_error json ''colon'' token)
        else ebind (json_next_token E json) (\<lambda>(token, json).
        ebind (json_process_value f E json token) (\<lambda>(v, json).
        ebind (json_next_token E json) (\<lambda>(token, json).
        if tok_type token = T_OBJ_END then Inr (LTable (tset t key v), json_decode_ascend json)
        else if tok_type token \<noteq> T_COMMA then Inl (json_throw_parse_error json ''comma or object end'' token)
        else ebind (json_next_token E json) (\<lambda>(token, json). json_parse_object_context f E (tset t key v) json token))))))"
    by (rule shaped_rules val more keep assms | assumption)+
  then show ?thesis using True unfolding json_parse_object_context.simps Let_def key_def by simp
qed (simp add: shaped_Inl)

lemma array_shaped:
  assumes "tables_ok cfg" and "at_depth cfg (D + 1) json" and "typed tok" and "D + 1 \<le> decode_max_depth cfg"
    and "arr_shape (decode_max_depth cfg - (D + 1)) i t" and "i < 2 ^ 31"
    and val: "\<And>json tok. at_depth cfg (D + 1) json \<Longrightarrow> typed tok \<Longrightarrow> shaped cfg (D + 1) (decode_max_depth cfg - (D + 1)) (json_process_value f E json tok)"
    and more: "\<And>json tok t. at_depth cfg (D + 1) json \<Longrightarrow> typed tok \<Longrightarrow> i + 1 < 2 ^ 31 \<Longrightarrow> arr_shape (decode_max_depth cfg - (D + 1)) (i + 1) t \<Longrightarrow>
      shaped cfg D (decode_max_depth cfg - D) (json_parse_array_context f E t (i + 1) json tok)"
  shows "shaped cfg D (decode_max_depth cfg - D) (json_parse_array_context (Suc f) E t i json tok)"
proof -
  have i: "i < 2 ^ 53" using assms(6) by simp
  show ?thesis
    unfolding json_parse_array_context.simps Let_def
    by (rule shaped_rules(1-6) shaped_index shape_array [of _ _ "i + 1"] val more arr_shape_tset assms i | assumption)+
qed

lemma parser_shaped:
  assumes "tables_ok cfg"
  shows "at_depth cfg D json \<Longrightarrow> typed tok \<Longrightarrow> shaped cfg D (decode_max_depth cfg - D) (json_process_value f E json tok)"
    and "at_depth cfg (D + 1) json \<Longrightarrow> typed tok \<Longrightarrow> D + 1 \<le> decode_max_depth cfg \<Longrightarrow> obj_shape (decode_max_depth cfg - (D + 1)) t \<Longrightarrow>
      shaped cfg D (decode_max_depth cfg - D) (json_parse_object_context f E t json tok)"
    and "i < 2 ^ 31 \<Longrightarrow> at_depth cfg (D + 1) json \<Longrightarrow> typed tok \<Longrightarrow> D + 1 \<le> decode_max_depth cfg \<Longrightarrow>
      arr_shape (decode_max_depth cfg - (D + 1)) i t \<Longrightarrow> shaped cfg D (decode_max_depth cfg - D) (json_parse_array_context f E t i json tok)"
proof (induction f arbitrary: D json tok t i)
  case 0
  { case 1 then show ?case by (simp add: shaped_Inl) }
  { case 2 then show ?case by (simp add: shaped_Inl) }
  { case 3 then show ?case by (simp add: shaped_Inl) }
next
  case (Suc f)
  { case 1
    have "shaped cfg D (decode_max_depth cfg - D) (ebind (json_decode_descend E json) (\<lambda>json. ebind (json_next_token E json) (\<lambda>(token, json).
         if tok_type token = T_OBJ_END then Inr (LTable [], json_decode_ascend json)
         else json_parse_object_context f E [] json token)))"
      using 1 by (intro shaped_descend shaped_token [OF assms] shaped_if shaped_Inr ascend_depth shape_object shape_empty Suc.IH(2)) auto
    moreover have "shaped cfg D (decode_max_depth cfg - D) (ebind (json_decode_descend E json) (\<lambda>json. ebind (json_next_token E json) (\<lambda>(token, json).
         if tok_type token = T_ARR_END then Inr (LTable [], json_decode_ascend json)
         else json_parse_array_context f E [] 1 json token)))"
      using 1 by (intro shaped_descend shaped_token [OF assms] shaped_if shaped_Inr ascend_depth shape_object shape_empty Suc.IH(3)) auto
    ultimately show ?case
      using 1 by (cases "tok_type tok") (auto simp: typed_def shaped_Inl intro!: shaped_Inr) }
  { case 2
    then show ?case using assms Suc.IH(1,2) by (intro object_shaped) auto }
  { case 3
    then have "1 \<le> i" by (simp add: arr_shape_def)
    then show ?case using 3 assms Suc.IH(1) [of "D + 1"] Suc.IH(3) [of "i + 1" D] by (intro array_shaped) auto }
qed

subsection \<open>Property\<close>

text \<open>
  C12. Every value that the decoder returns is well typed: strings, numbers, booleans and the null value, arrays whose keys
  are exactly \<open>1..n\<close>, and objects whose keys are strings, without \<open>nil\<close> and without duplicate keys, nested at most to
  the configured depth. This holds of every input on which the decoder returns: an array index that leaves the range
  of \<open>int\<close>, undefined in C, is the end of the run in the model.
\<close>

theorem json_decode_typed:
  assumes "tables_ok cfg" and "json_decode E cfg [LString s] = Inr v"
  shows "json_shape (decode_max_depth cfg) v"
proof -
  obtain t tok json1 json2 where run: "json_next_token E \<lparr>jp_data = s, jp_ptr = 0, jp_tmp = t, jp_cfg = cfg, jp_depth = 0\<rparr> = Inr (tok, json1)"
    "json_process_value (2 * length s + 3) E json1 tok = Inr (v, json2)"
    using assms(2) by (auto simp: json_decode_def checklstring_def ebind_Inr_iff split: if_splits)
  then have "at_depth cfg 0 json1" "typed tok" using next_token_ctx [OF run(1)] assms(1) by (simp_all add: same_ctx_def at_depth_def)
  then have "shaped cfg 0 (decode_max_depth cfg - 0) (json_process_value (2 * length s + 3) E json1 tok)"
    by (intro parser_shaped(1) [OF assms(1)]) simp_all
  then show ?thesis using run(2) by (simp add: shaped_def)
qed

theorem json_decode_typed_witness:
  "\<exists>cfg s. json_create_config sample_env = Inr cfg \<and> json_decode sample_env cfg [LString s] = Inr sample_value \<and> json_shape 1000 sample_value"
proof -
  obtain cfg where c: "json_create_config sample_env = Inr cfg" "cfg_inv cfg" "encode_max_depth cfg = 1000" "decode_max_depth cfg = 1000"
    "decode_invalid_numbers cfg = 1" "encode_sparse_ratio cfg = 2" using sample_config by blast
  obtain s where s: "json_text sample_env cfg 0 sample_value = Some s" "length s = 28" using sample_text [OF c(2,3,6)] by blast
  have tab: "tables_ok cfg" using c(2) by (simp add: cfg_inv_def tables_ok_def)
  obtain s' where "rt_text sample_env cfg 0 sample_value s'" using jrt_text [OF sample_jrt [OF c(2-4,6)]] c(5) by auto
  then have d: "json_decode sample_env cfg [LString s] = Inr sample_value"
    using json_decode_text [OF tab sample_laws(3), of sample_value s] s by (auto simp: rt_text_def)
  then show ?thesis using c(1,4) json_decode_typed [OF tab d] by auto
qed

end
