(* ===== verification/Spec2Isabelle.thy ===== *)
theory Spec2Isabelle
  imports Midl_Sort Msgpack_Decode Lua_Md5 Struct_Proofs Cstub_Proofs Mdb_Reads Mdb_Shrink Mdb_Free Json_Types
begin

text \<open>
  Verification of the C components of GalaLua.

  \<^bold>\<open>The program.\<close> GalaLua is a runtime that schedules Lua processes. Lua programs reach the system through
  modules written in C: a storage engine (\<open>GalaDB/lmdb\<close>), codecs that turn Lua values into bytes and back
  (\<open>LuaObject/lua_cmsgpack.c\<close>, \<open>Lib/lua-struct/struct.c\<close>, \<open>Lib/lua-cjson-2.1.0\<close>), an encryption module
  (\<open>Lib/lua-encryption\<close>), and a layer of wrappers around the C library and the operating system
  (\<open>Stub/cstub.c\<close>) that the C++ classes of the runtime are written against. The codecs produce the keys
  and values the storage engine keeps; the engine frees pages into ID lists and orders keys by its
  comparison functions. The development covers these C modules, one group of theories for each.

  \<^bold>\<open>Common ground.\<close> \<open>Prelude\<close> has the machine types (\<open>byte\<close>, \<open>uint16\<close> to \<open>uint64\<close>, all words that wrap
  around), C arrays whose access is checked, \<open>realloc\<close> with unspecified new contents, the error monad
  \<open>ebind\<close>, and the contract \<open>append_buffer\<close> of a byte buffer. In every model an access outside an allocated
  block is a value (\<open>None\<close>, or a fault on the left of a sum), so a theorem that an operation returns a
  result also says that it stays inside its memory. \<open>LuaValue\<close> has the Lua values the modules read and
  push, \<open>LuaNumber\<close> the double and the integer conversions of the C code on them.

  \<^bold>\<open>Storage engine, ID lists\<close> (\<open>midl.c\<close>, \<open>midl.h\<close>; theories \<open>Midl\<close>, \<open>Midl_Sort\<close>). The record \<open>midl\<close> is the
  block behind an \<open>MDB_IDL\<close>: its words, with the capacity in the word before the pointer. Search, append,
  append of a list or a range, grow, shrink and need are one definition each, the binary searches share
  the locale \<open>bsearch\<close>. \<open>mdb_midl_sort\<close> is the quicksort with an explicit stack and an insertion sort for
  short pieces; its indices are checked to stay in the range of \<open>int\<close>, which \<open>(l + ir) >> 1\<close> leaves from \<open>2 ^ 30\<close> IDs on. For every
  shorter list it is shown to return, to stay inside its stack of 64 entries, and to sort. The recursion of the model runs on
  fuel that the length of the list bounds.

  \<^bold>\<open>Storage engine, pages\<close> (\<open>mdb.c\<close>; theories \<open>Mdb_Page\<close>, \<open>Mdb_Node\<close>, \<open>Mdb_Resize\<close>, \<open>Mdb_Shrink\<close>, \<open>Mdb_Search\<close>). A page is its bytes; the
  fields \<open>lower\<close>, \<open>upper\<close>, the pointer table and the node headers are read from and written to them at the
  offsets of the C structures. \<open>mdb_node_add\<close>, \<open>mdb_node_del\<close>, \<open>mdb_update_key\<close>, \<open>mdb_node_shrink\<close>, \<open>mdb_page_copy\<close> and the size
  computations are modelled, and refine operations on the list of nodes (\<open>page_nodes\<close>): insertion at an
  index, removal of an index, replacement of an entry. \<open>wf_page\<close> says that the nodes lie in the data area and do not overlap, and
  every operation keeps it. \<open>Mdb_Search\<close> has the comparison functions and \<open>mdb_node_search\<close>; the locale
  \<open>key_order\<close> states what the search needs of a comparison, and is interpreted on the comparison of
  strings, of reversed strings and of native integers. \<open>mdb_page_alloc\<close> is a parameter of \<open>mdb_page_new\<close> and \<open>mdb_node_add\<close>: it gets the flags of
  the transaction and gives a page or an error, and the flags afterwards.

  \<^bold>\<open>Storage engine, page lists\<close> (\<open>mdb.c\<close>; theory \<open>Mdb_Free\<close>). \<open>mdb_ovpage_free\<close> with the lists of a transaction it moves a chain of
  pages between: the dirty list, the spill list, the list of freed pages and the pages to allocate. It keeps the lists sorted
  and disjoint, but loses a place of the dirty list (\<open>mdb_ovpage_free_leaks_room\<close>).

  \<^bold>\<open>Storage engine, cursors\<close> (\<open>mdb.c\<close>). \<open>Mdb_Cursor\<close> has the records of a transaction and of a cursor, \<open>mdb_page_get\<close>, the descent
  from the root and the step to a sibling; \<open>Mdb_Cursor_Ops\<close> the operations of \<open>mdb_cursor_get\<close>, those on sorted duplicates
  through the sub-cursor included, \<open>mdb_get\<close> and \<open>mdb_cursor_count\<close>. The functions that the code runs on cursors and on sub-cursors are defined
  once, over a record of what they do through \<open>mc_xcursor\<close>. The descent runs on the fuel \<open>CURSOR_STACK + 1\<close>: a round pushes a page
  or ends the loop, and \<open>mdb_page_search_root_ends\<close> shows that more fuel changes nothing, whatever the pages contain. \<open>Mdb_Versions\<close> shows which
  version of a page a nested transaction sees; it rests on the searches of \<open>Midl\<close>. \<open>Mdb_Tree\<close> relates the pages below a root to a tree
  (\<open>tree_ok\<close>) and the stack of a cursor to a path in it (\<open>stk\<close>); \<open>Mdb_Walk\<close> has the list of entries of a tree, the invariant \<open>cursor_ok\<close> and
  what each move does, in the locale \<open>plain_cursor\<close>, interpreted on cursors and on sub-cursors; \<open>Mdb_Scan\<close> the loops of
  a program over a cursor; \<open>Mdb_Lookup\<close> the search for a key, in a locale that extends \<open>plain_cursor\<close> and \<open>key_order\<close>. \<open>Mdb_Reads\<close> has the theorems:
  a scan yields every entry once and in order, \<open>mdb_get\<close> agrees with the list of entries, positioning does not depend on where
  the cursor was, and no sequence of operations with addresses for key and data faults. They are for databases without sorted
  duplicates whose record is not stale, and those on keys for the two comparisons of strings. \<open>Mdb_Sample\<close> is a tree of two leaves on which the witnesses run.

  \<^bold>\<open>MessagePack\<close> (\<open>lua_cmsgpack.c\<close>; theories \<open>Msgpack\<close>, \<open>Msgpack_Wire\<close>, \<open>Msgpack_Decode\<close>). Buffer, cursor, every
  encoder and the decoder, with the 16 bit nesting limit of the encoder. The buffer is an instance of
  \<open>append_buffer\<close>; \<open>wire\<close> gives the bytes of a value, the encoder writes exactly these, and the decoder
  reads them back. Every read of the decoder, of a fixed number of bytes or of a string, is checked against the input, and its
  remaining length and its array index are kept at their widths. The decoder's recursion is bounded by the input: every item consumes a byte.

  \<^bold>\<open>Encryption\<close> (\<open>md5.c\<close>, \<open>lua_md5.c\<close>; theories \<open>Rfc1321\<close>, \<open>Md5\<close>, \<open>Lua_Md5\<close>). \<open>Rfc1321\<close> defines MD5 from the text of the RFC and
  without the code: its own auxiliary functions, tables of shifts and of message words, byte order and padding, and the additive
  constants as integer parts of \<open>2 ^ 32\<close> times the absolute value of the sine function on the reals. The table of these
  constants is proved by fixed point arithmetic with a bound on the error, and the digest of the test string \<open>abc\<close> is computed.
  \<open>Md5\<close> has the hash of the code, its four rounds written as there and its padding loop, and shows it equal to that definition
  for messages of fewer than \<open>2 ^ 32\<close> bytes. \<open>Lua_Md5\<close> has the cipher in feedback mode and its inverse.

  \<^bold>\<open>Binary structures\<close> (\<open>struct.c\<close>; theories \<open>Struct\<close>, \<open>Struct_Proofs\<close>). The format interpreter with its loops
  over the format string, alignment and endianness; round trip, size, memory safety from position 1 on, and the reads before
  the data string for positions below 1.

  \<^bold>\<open>Wrappers of the C runtime\<close> (\<open>cstub.c\<close>; theories \<open>Cstub_Mem\<close>, \<open>Cstub\<close>, \<open>Cstub_Proofs\<close>). The string and memory
  functions work on an explicit memory, a partial map from addresses to bytes. A call of the operating
  system is a parameter of its wrapper. The locale \<open>guarded_call\<close> states that a family of wrappers calls the
  system only on arguments its guard accepts; sequences of calls are then free of faults. It is
  interpreted on the calls on file descriptors and on threads.

  \<^bold>\<open>String buffer of the JSON codec\<close> (\<open>strbuf.c\<close>, \<open>strbuf.h\<close>; theories \<open>Strbuf\<close>, \<open>Strbuf_Proofs\<close>). The record
  \<open>strbuf\<close> is \<open>strbuf_t\<close>; a size that leaves the range of \<open>int\<close>, a write outside the block and a call of
  \<open>die\<close> are faults. The contract \<open>bounded_buffer\<close> (appends succeed below a limit of \<open>2 ^ 30\<close> bytes, where
  doubling cannot overflow) is interpreted on the three ways to append.

  \<^bold>\<open>JSON codec\<close> (\<open>lua_cjson.c\<close>, \<open>fpconv.c\<close>). \<open>Fpconv\<close> translates the decimal point of the locale. \<open>Json_Config\<close> has the
  record \<open>json_config\<close> (\<open>json_config_t\<close>), the tables of the tokenizer and the functions that change settings;
  \<open>Json_Encode\<close> the encoder, \<open>Json_Decode\<close> the tokenizer and the parser, one definition per function of the code. The
  record \<open>json_env\<close> holds what the module takes from outside: allocation, \<open>snprintf\<close>, \<open>strtod\<close>, and three functions of
  Lua. \<open>Json_Encode_Proofs\<close> gives the text of a value (\<open>json_text\<close>) and shows that the encoder writes it, over a
  further interpretation of \<open>bounded_buffer\<close>; \<open>Json_Session\<close> has the invariant \<open>cfg_inv\<close> of the configuration.
  \<open>Json_Decode_Proofs\<close> shows that the decoder ends and stays inside its input and its temporary string: the parser
  runs on the fuel \<open>2 * length + 3\<close>, the array index is an \<open>int\<close> that never exceeds the length of the input by more than one, and every step of its recursion but one per value consumes input, so that the fuel is
  never used up. \<open>Json_Roundtrip\<close> and \<open>Json_Module\<close> have the round trip, sequences of calls and the inputs on
  which the encoder fails; \<open>Json_Unicode\<close> compares the escapes with the Unicode standard, \<open>Json_Types\<close> shows the type of
  the values the decoder returns. Texts are below \<open>2 ^ 30\<close> bytes where a buffer must grow without overflow of \<open>int\<close>, and
  inputs below \<open>2 ^ 31 - 1\<close>, the largest that \<open>strbuf_new\<close> accepts.

  \<^bold>\<open>Parameters.\<close> The functions of the operating system, \<open>vsnprintf\<close>, \<open>snprintf\<close>, \<open>strtod\<close>, the conversions between Lua strings and
  numbers and the contents of fresh memory are arguments of the definitions that use them. What a
  theorem needs of them is a hypothesis of the theorem, and its witness gives an instance.

  \<^bold>\<open>Not modelled.\<close> Of \<open>mdb.c\<close> the operations that write: allocation of pages and the free lists but for \<open>mdb_ovpage_free\<close>, \<open>mdb_cursor_put\<close> and \<open>mdb_cursor_del\<close> with page
  split and merge, begin and commit of transactions, the environment with its locks and files, and with them the Lua
  binding of the engine. A page that is written is shared by all cursors of a transaction, so that they need a model of the
  pages as a store, where the cursors here hold the pages they read. Opening and closing a cursor is allocation and the list of tracked cursors. Of the
  JSON codec the registration of the module in Lua, and \<open>dtoa.c\<close>, a third-party conversion of numbers. The wrappers of \<open>cstub.c\<close> that pass their arguments
  on unchanged have no behaviour of their own. The C++ classes of the runtime, the message queue and the
  scheduler are threads, sockets and shared memory around a Lua interpreter. LuaJIT, Lua 5.2, zlib, libzip,
  snappy, pugixml, sigar, lfs and sqlite are third-party code.
\<close>

end
